(* ===== verification/Hexa_Prelude.thy ===== *)
theory Hexa_Prelude
  imports Main "HOL-Library.Word" "HOL-Library.Signed_Division"
begin

text \<open>
  Shared vocabulary of the development: the C integer types of \<^verbatim>\<open>types.h\<close> as words, C strings and
  character arrays as byte lists, packed structures as byte arrays that are read and written at
  field offsets (little endian, as the i386 target lays them out), and the generic lemmas about
  these that the component theories use.  The collection \<open>bytes_simps\<close> holds the rewrite rules
  for field reads over field writes.
\<close>

unbundle bit_operations_syntax

named_theorems bytes_simps \<open>reads over writes of packed structures\<close>

text \<open>Arrays have hundreds of elements: keep the simplifier from spelling them out.\<close>

declare upt_rec_numeral [simp del]

section \<open>Integer types\<close>

type_synonym u8 = "8 word"
type_synonym u16 = "16 word"
type_synonym u32 = "32 word"
type_synonym bytes = "8 word list"

text \<open>Conversion of an unsigned 32-bit value to \<^verbatim>\<open>int\<close> (two's complement).\<close>

definition to_int :: "u32 \<Rightarrow> int" where
  "to_int w = sint w"

section \<open>C strings\<close>

text \<open>
  A C string is the list of its bytes before the terminating NUL; a character array is the list of
  all its bytes.  \<open>c_at s i\<close> reads \<^verbatim>\<open>s[i]\<close>, the terminator included.
\<close>

definition cs :: "string \<Rightarrow> bytes" where
  "cs s = map of_char s"

definition c_at :: "bytes \<Rightarrow> nat \<Rightarrow> u8" where
  "c_at s i = (if i < length s then s ! i else 0)"

definition c_str :: "bytes \<Rightarrow> bytes" where
  "c_str arr = takeWhile (\<lambda>b. b \<noteq> 0) arr"

text \<open>
  The copy loop \<^verbatim>\<open>while (name[i] && i < n - 1) { dst[i] = name[i]; i++; } dst[i] = 0;\<close> that the
  kernel repeats for every fixed-size name field copies these bytes to the start of \<^verbatim>\<open>dst\<close>.
\<close>

definition name_bytes :: "nat \<Rightarrow> bytes \<Rightarrow> bytes" where
  "name_bytes n name = take (n - 1) (c_str name) @ [0]"

text \<open>
  The comparison loop \<^verbatim>\<open>for (j = 0; j < n; j++) { if (a[j] != b[j]) { match = 0; break; }
  if (b[j] == 0) break; }\<close>.
\<close>

fun name_match :: "nat \<Rightarrow> bytes \<Rightarrow> bytes \<Rightarrow> bool" where
  "name_match 0 a b \<longleftrightarrow> True"
| "name_match (Suc n) a b \<longleftrightarrow>
     (if c_at a 0 \<noteq> c_at b 0 then False
      else if c_at b 0 = 0 then True
      else name_match n (tl a) (tl b))"

section \<open>Packed structures\<close>

definition get_bytes :: "nat \<Rightarrow> nat \<Rightarrow> bytes \<Rightarrow> bytes" where
  "get_bytes off n b = take n (drop off b)"

definition put_bytes :: "nat \<Rightarrow> bytes \<Rightarrow> bytes \<Rightarrow> bytes" where
  "put_bytes off xs b = take off b @ xs @ drop (off + length xs) b"

definition le32 :: "u32 \<Rightarrow> bytes" where
  "le32 v = [ucast v, ucast (drop_bit 8 v), ucast (drop_bit 16 v), ucast (drop_bit 24 v)]"

definition de32 :: "bytes \<Rightarrow> u32" where
  "de32 bs = ucast (bs ! 0) OR push_bit 8 (ucast (bs ! 1)) OR push_bit 16 (ucast (bs ! 2))
     OR push_bit 24 (ucast (bs ! 3))"

definition le16 :: "u16 \<Rightarrow> bytes" where
  "le16 v = [ucast v, ucast (drop_bit 8 v)]"

definition de16 :: "bytes \<Rightarrow> u16" where
  "de16 bs = ucast (bs ! 0) OR push_bit 8 (ucast (bs ! 1))"

definition get32 :: "nat \<Rightarrow> bytes \<Rightarrow> u32" where
  "get32 off b = de32 (get_bytes off 4 b)"

definition put32 :: "nat \<Rightarrow> u32 \<Rightarrow> bytes \<Rightarrow> bytes" where
  "put32 off v b = put_bytes off (le32 v) b"

definition get8 :: "nat \<Rightarrow> bytes \<Rightarrow> u8" where
  "get8 off b = b ! off"

definition put8 :: "nat \<Rightarrow> u8 \<Rightarrow> bytes \<Rightarrow> bytes" where
  "put8 off v b = put_bytes off [v] b"

text \<open>\<^verbatim>\<open>memset(p, 0, n)\<close> on a fresh structure.\<close>

definition zeros :: "nat \<Rightarrow> bytes" where
  "zeros n = replicate n 0"

section \<open>Lemmas on integers\<close>

lemma to_int_small: "unat w < 2 ^ 31 \<Longrightarrow> to_int w = int (unat w)"
proof -
  assume *: "unat w < 2 ^ 31"
  have u: "uint w = int (unat w)" by simp
  from * have "int (unat w) < int (2 ^ 31)" by (simp only: of_nat_less_iff)
  with u have "uint w < 2 ^ 31" by simp
  moreover have "- (2 ^ 31) \<le> uint w" by (rule order_trans [of _ 0]) simp_all
  ultimately have "signed_take_bit 31 (uint w) = uint w"
    by (intro signed_take_bit_int_eq_self)
  with u show ?thesis by (simp add: to_int_def sint_uint)
qed

lemma word_of_nat_less_eq: "n < 2 ^ LENGTH('a) \<Longrightarrow> unat (of_nat n :: 'a::len word) = n"
  by (simp add: unsigned_of_nat take_bit_nat_eq_self)

section \<open>Lemmas on lists\<close>

lemma nth_update_neq: "i \<noteq> j \<Longrightarrow> xs[i := x] ! j = xs ! j"
  by simp

lemma mod_Suc_range: "n < m \<Longrightarrow> (n + 1) mod m = (if n + 1 = m then 0 else n + (1::nat))"
  by auto

section \<open>Lemmas on strings\<close>

lemma c_str_no_nul [simp]: "0 \<notin> set (c_str a)"
  unfolding c_str_def by (induction a) auto

lemma c_str_id: "0 \<notin> set s \<Longrightarrow> c_str s = s"
  unfolding c_str_def by (auto simp: takeWhile_eq_all_conv)

lemma c_str_append_nul: "0 \<notin> set s \<Longrightarrow> c_str (s @ 0 # r) = s"
  unfolding c_str_def by (auto simp: takeWhile_append)

lemma length_name_bytes: "0 < n \<Longrightarrow> length (name_bytes n s) \<le> n"
  by (simp add: name_bytes_def)

lemma name_bytes_short: "0 \<notin> set s \<Longrightarrow> length s < n \<Longrightarrow> name_bytes n s = s @ [0]"
  by (simp add: name_bytes_def c_str_id)

text \<open>
  For a name that fits the field, the comparison loop decides equality of the stored C string
  with the name; the bytes behind the stored terminator do not matter.
\<close>

lemma name_match_iff:
  "0 \<notin> set b \<Longrightarrow> length b < n \<Longrightarrow> name_match n a b \<longleftrightarrow> c_str a = b"
proof (induction n a b rule: name_match.induct)
  case (1 a b)
  then show ?case by simp
next
  case (2 n a b)
  show ?case
  proof (cases b)
    case Nil
    then show ?thesis by (cases a) (auto simp: c_at_def c_str_def)
  next
    case (Cons y ys)
    with 2 show ?thesis by (cases a) (auto simp: c_at_def c_str_def)
  qed
qed

section \<open>Lemmas on packed structures\<close>

lemma de32_le32 [simp]: "de32 (le32 v) = v"
proof (rule bit_word_eqI)
  fix n assume "n < LENGTH(32)"
  then consider "n < 8" | "8 \<le> n" "n < 16" | "16 \<le> n" "n < 24" | "24 \<le> n" "n < 32"
    by fastforce
  then show "bit (de32 (le32 v)) n = bit v n"
    by cases (auto simp: de32_def le32_def bit_simps)
qed

lemma de16_le16 [simp]: "de16 (le16 v) = v"
proof (rule bit_word_eqI)
  fix n assume "n < LENGTH(16)"
  then consider "n < 8" | "8 \<le> n" "n < 16" by fastforce
  then show "bit (de16 (le16 v)) n = bit v n"
    by cases (auto simp: de16_def le16_def bit_simps)
qed

lemma length_le32 [simp]: "length (le32 v) = 4"
  by (simp add: le32_def)

lemma length_le16 [simp]: "length (le16 v) = 2"
  by (simp add: le16_def)

lemma length_zeros [simp]: "length (zeros n) = n"
  by (simp add: zeros_def)

lemma length_put_bytes [bytes_simps]:
  "off + length xs \<le> length b \<Longrightarrow> length (put_bytes off xs b) = length b"
  by (simp add: put_bytes_def)

lemma length_put32 [bytes_simps]: "off + 4 \<le> length b \<Longrightarrow> length (put32 off v b) = length b"
  by (simp add: put32_def length_put_bytes)

lemma length_put8 [bytes_simps]: "off < length b \<Longrightarrow> length (put8 off v b) = length b"
  by (simp add: put8_def length_put_bytes)

lemma length_get_bytes [bytes_simps]: "off + n \<le> length b \<Longrightarrow> length (get_bytes off n b) = n"
  by (simp add: get_bytes_def)

lemma get_put_same [bytes_simps]:
  "off + length xs \<le> length b \<Longrightarrow> n = length xs \<Longrightarrow> get_bytes off n (put_bytes off xs b) = xs"
  by (simp add: get_bytes_def put_bytes_def)

lemma get_put_other [bytes_simps]:
  assumes "off + length xs \<le> length b" and "off' + n \<le> off \<or> off + length xs \<le> off'"
  shows "get_bytes off' n (put_bytes off xs b) = get_bytes off' n b"
  using assms by (auto simp: get_bytes_def put_bytes_def drop_take)

lemma put_put_same [bytes_simps]:
  "length xs = length ys \<Longrightarrow> off + length xs \<le> length b \<Longrightarrow>
   put_bytes off xs (put_bytes off ys b) = put_bytes off xs b"
  by (simp add: put_bytes_def)

lemma put_get_id: "off + n \<le> length b \<Longrightarrow> put_bytes off (get_bytes off n b) b = b"
  by (simp add: put_bytes_def get_bytes_def flip: append_assoc take_add)

lemma get32_put32_same [bytes_simps]: "off + 4 \<le> length b \<Longrightarrow> get32 off (put32 off v b) = v"
  by (simp add: get32_def put32_def bytes_simps)

lemma get32_put32_other [bytes_simps]:
  "off + 4 \<le> length b \<Longrightarrow> off' + 4 \<le> off \<or> off + 4 \<le> off' \<Longrightarrow>
   get32 off' (put32 off v b) = get32 off' b"
  by (simp add: get32_def put32_def bytes_simps)

lemma get_bytes_put32_other [bytes_simps]:
  "off + 4 \<le> length b \<Longrightarrow> off' + n \<le> off \<or> off + 4 \<le> off' \<Longrightarrow>
   get_bytes off' n (put32 off v b) = get_bytes off' n b"
  by (simp add: put32_def bytes_simps)

lemma get32_put_bytes_other [bytes_simps]:
  "off + length xs \<le> length b \<Longrightarrow> off' + 4 \<le> off \<or> off + length xs \<le> off' \<Longrightarrow>
   get32 off' (put_bytes off xs b) = get32 off' b"
  by (simp add: get32_def bytes_simps)

lemma put32_put32_same [bytes_simps]:
  "off + 4 \<le> length b \<Longrightarrow> put32 off v (put32 off w b) = put32 off v b"
  by (simp add: put32_def bytes_simps)

lemma get8_put8_same [bytes_simps]: "off < length b \<Longrightarrow> get8 off (put8 off v b) = v"
  by (simp add: get8_def put8_def put_bytes_def nth_append)

lemma get8_put_bytes_other [bytes_simps]:
  "off + length xs \<le> length b \<Longrightarrow> off' < off \<or> off + length xs \<le> off' \<Longrightarrow>
   off' < length b \<Longrightarrow> get8 off' (put_bytes off xs b) = get8 off' b"
  by (auto simp: get8_def put_bytes_def nth_append)

lemma get8_put32_other [bytes_simps]:
  "off + 4 \<le> length b \<Longrightarrow> off' < off \<or> off + 4 \<le> off' \<Longrightarrow> off' < length b \<Longrightarrow>
   get8 off' (put32 off v b) = get8 off' b"
  by (simp add: put32_def bytes_simps)

lemma get8_put8_other [bytes_simps]:
  "off < length b \<Longrightarrow> off' \<noteq> off \<Longrightarrow> off' < length b \<Longrightarrow> get8 off' (put8 off v b) = get8 off' b"
  unfolding put8_def by (rule get8_put_bytes_other) auto

lemma get32_put8_other [bytes_simps]:
  "off < length b \<Longrightarrow> off' + 4 \<le> off \<or> off < off' \<Longrightarrow> get32 off' (put8 off v b) = get32 off' b"
  unfolding put8_def by (rule get32_put_bytes_other) auto

lemma get_bytes_put8_other [bytes_simps]:
  "off < length b \<Longrightarrow> off' + n \<le> off \<or> off < off' \<Longrightarrow>
   get_bytes off' n (put8 off v b) = get_bytes off' n b"
  unfolding put8_def by (rule get_put_other) auto

lemma get_bytes_zeros [bytes_simps]: "off + n \<le> m \<Longrightarrow> get_bytes off n (zeros m) = zeros n"
  by (simp add: get_bytes_def zeros_def)

lemma get32_zeros [bytes_simps]: "off + 4 \<le> m \<Longrightarrow> get32 off (zeros m) = 0"
  by (simp add: get32_def bytes_simps) (simp add: de32_def zeros_def)

lemma get8_zeros [bytes_simps]: "off < m \<Longrightarrow> get8 off (zeros m) = 0"
  by (simp add: get8_def zeros_def)

text \<open>A field of a sub-array read through the enclosing array.\<close>

lemma get_bytes_get_bytes [bytes_simps]:
  "off' + n' \<le> n \<Longrightarrow> get_bytes off' n' (get_bytes off n b) = get_bytes (off + off') n' b"
  by (simp add: get_bytes_def drop_take min_def add.commute)

end
