(* ===== verification/Hexa_Ring.thy ===== *)
theory Hexa_Ring
  imports Hexa_Prelude
begin

text \<open>
  Ring buffers.  The kernel has seven of them, all written with the same head/tail arithmetic:
  the byte pipes and the typed pipes (\<^verbatim>\<open>pipe.c\<close>), the per-task event queues (\<^verbatim>\<open>process.c\<close>), the
  keyboard buffer (\<^verbatim>\<open>interrupts.c\<close>), and, in the variant that drops the oldest element when full,
  the kernel log (\<^verbatim>\<open>log.c\<close>) and the loopback queue (\<^verbatim>\<open>net.c\<close>).  This theory gives the abstraction
  function \<open>ring_list\<close>, the lemmas about the index arithmetic, and the two interfaces
  \<open>bounded_fifo\<close> and \<open>lossy_fifo\<close> with what follows from their laws for whole runs of
  operations; each component interprets one of them on its own operations.
\<close>

section \<open>Abstraction of head and tail indices\<close>

definition ring_list :: "nat \<Rightarrow> 'a list \<Rightarrow> nat \<Rightarrow> nat \<Rightarrow> 'a list" where
  "ring_list N buf t h = map (\<lambda>i. buf ! ((t + i) mod N)) [0..<(h + N - t) mod N]"

definition ring_ok :: "nat \<Rightarrow> 'a list \<Rightarrow> nat \<Rightarrow> nat \<Rightarrow> bool" where
  "ring_ok N buf t h \<longleftrightarrow> 0 < N \<and> length buf = N \<and> t < N \<and> h < N"

text \<open>A run of enqueue and dequeue attempts: what was accepted, what was delivered, the end state.\<close>

datatype 'a qop = Enq 'a | Deq

fun fifo_run ::
  "('a \<Rightarrow> 's \<Rightarrow> 's option) \<Rightarrow> ('s \<Rightarrow> ('a \<times> 's) option) \<Rightarrow> 'a qop list \<Rightarrow> 's \<Rightarrow> 'a list \<times> 'a list \<times> 's"
where
  "fifo_run enq deq [] s = ([], [], s)"
| "fifo_run enq deq (Enq x # ops) s =
     (case enq x s of
        None \<Rightarrow> fifo_run enq deq ops s
      | Some s' \<Rightarrow> (case fifo_run enq deq ops s' of (a, d, t) \<Rightarrow> (x # a, d, t)))"
| "fifo_run enq deq (Deq # ops) s =
     (case deq s of
        None \<Rightarrow> fifo_run enq deq ops s
      | Some (y, s') \<Rightarrow> (case fifo_run enq deq ops s' of (a, d, t) \<Rightarrow> (a, y # d, t)))"

section \<open>Index arithmetic\<close>

lemma length_ring_list [simp]: "length (ring_list N buf t h) = (h + N - t) mod N"
  by (simp add: ring_list_def)

lemma mod_once: "x < 2 * N \<Longrightarrow> x mod N = (if x < N then x else x - (N::nat))"
  by (cases "x < N") (auto simp: le_mod_geq not_less mult_2)

lemma ring_next: "h < (N::nat) \<Longrightarrow> (h + 1) mod N = (if h + 1 = N then 0 else h + 1)"
  by (simp add: mod_once)

lemma ring_count:
  "t < (N::nat) \<Longrightarrow> h < N \<Longrightarrow> (h + N - t) mod N = (if t \<le> h then h - t else h + N - t)"
  by (subst mod_once) auto

lemma ring_list_empty_iff: "ring_ok N buf t h \<Longrightarrow> ring_list N buf t h = [] \<longleftrightarrow> h = t"
  by (auto simp: ring_ok_def ring_count simp flip: length_0_conv)

lemma ring_full_iff:
  "ring_ok N buf t h \<Longrightarrow> length (ring_list N buf t h) = N - 1 \<longleftrightarrow> (h + 1) mod N = t"
  unfolding ring_ok_def length_ring_list by (auto simp: ring_count ring_next simp del: One_nat_def)

lemma ring_length_le: "ring_ok N buf t h \<Longrightarrow> length (ring_list N buf t h) \<le> N - 1"
  by (auto simp: ring_ok_def ring_count)

lemma ring_ok_put: "ring_ok N buf t h \<Longrightarrow> ring_ok N (buf[h := x]) t ((h + 1) mod N)"
  by (simp add: ring_ok_def)

lemma ring_ok_get: "ring_ok N buf t h \<Longrightarrow> ring_ok N buf ((t + 1) mod N) h"
  by (simp add: ring_ok_def)

lemma ring_put_count:
  assumes "ring_ok N buf t h" and "(h + 1) mod N \<noteq> t"
  shows "((h + 1) mod N + N - t) mod N = Suc ((h + N - t) mod N)"
  using assms by (auto simp: ring_ok_def ring_count ring_next simp del: One_nat_def split: if_splits)

lemma ring_list_put:
  assumes ok: "ring_ok N buf t h" and room: "(h + 1) mod N \<noteq> t"
  shows "ring_list N (buf[h := x]) t ((h + 1) mod N) = ring_list N buf t h @ [x]"
proof (rule nth_equalityI)
  show len: "length (ring_list N (buf[h := x]) t ((h + 1) mod N)) =
    length (ring_list N buf t h @ [x])"
    using ring_put_count [OF assms] by simp
  fix i assume "i < length (ring_list N (buf[h := x]) t ((h + 1) mod N))"
  then have i: "i < Suc ((h + N - t) mod N)" using len by simp
  show "ring_list N (buf[h := x]) t ((h + 1) mod N) ! i = (ring_list N buf t h @ [x]) ! i"
  proof (cases "i = (h + N - t) mod N")
    case True
    then have "(t + i) mod N = h"
      using ok by (auto simp: ring_ok_def ring_count mod_once split: if_splits)
    then show ?thesis using True i ok ring_put_count [OF assms]
      by (simp add: ring_list_def nth_append ring_ok_def del: upt_Suc)
  next
    case False
    with i have i': "i < (h + N - t) mod N" by simp
    then have "(t + i) mod N \<noteq> h"
      using ok by (auto simp: ring_ok_def ring_count mod_once split: if_splits)
    then show ?thesis using i i' ring_put_count [OF assms]
      by (simp add: ring_list_def nth_append del: upt_Suc)
  qed
qed

lemma ring_list_get:
  assumes ok: "ring_ok N buf t h" and nonempty: "h \<noteq> t"
  shows "ring_list N buf t h = buf ! t # ring_list N buf ((t + 1) mod N) h"
proof -
  have cnt: "(h + N - t) mod N = Suc ((h + N - (t + 1) mod N) mod N)"
    using ok nonempty
    by (auto simp: ring_ok_def ring_count ring_next simp del: One_nat_def split: if_splits)
  have "map (\<lambda>i. buf ! ((t + i) mod N)) [Suc 0..<Suc k] =
    map (\<lambda>i. buf ! (((t + 1) mod N + i) mod N)) [0..<k]" for k
    by (simp add: map_Suc_upt [symmetric] mod_simps del: upt_Suc)
  with ok show ?thesis
    by (simp add: ring_list_def cnt upt_conv_Cons ring_ok_def del: upt_Suc)
qed

text \<open>In the overwriting variant the tail is pushed forward when the head meets it.\<close>

lemma ring_list_put_over:
  assumes ok: "ring_ok N buf t h" and "1 < N" and full: "(h + 1) mod N = t"
  shows "ring_list N (buf[h := x]) ((t + 1) mod N) ((h + 1) mod N) = tl (ring_list N buf t h) @ [x]"
proof -
  have ht: "h \<noteq> t"
    using full ok \<open>1 < N\<close> by (auto simp: ring_ok_def ring_next simp del: One_nat_def split: if_splits)
  have ok': "ring_ok N buf ((t + 1) mod N) h" using ok by (rule ring_ok_get)
  have "(h + 1) mod N \<noteq> (t + 1) mod N"
    using full ok \<open>1 < N\<close> by (auto simp: ring_ok_def ring_next simp del: One_nat_def split: if_splits)
  with ok' have "ring_list N (buf[h := x]) ((t + 1) mod N) ((h + 1) mod N) =
    ring_list N buf ((t + 1) mod N) h @ [x]"
    by (rule ring_list_put)
  then show ?thesis using ring_list_get [OF ok ht] by simp
qed

section \<open>Interfaces\<close>

text \<open>A queue that refuses an element when it is full.\<close>

locale bounded_fifo =
  fixes inv :: "'s \<Rightarrow> bool"
    and items :: "'s \<Rightarrow> 'a list"
    and cap :: nat
    and enq :: "'a \<Rightarrow> 's \<Rightarrow> 's option"
    and deq :: "'s \<Rightarrow> ('a \<times> 's) option"
  assumes items_le: "inv s \<Longrightarrow> length (items s) \<le> cap"
    and enq_full: "inv s \<Longrightarrow> length (items s) = cap \<Longrightarrow> enq x s = None"
    and enq_room: "inv s \<Longrightarrow> length (items s) < cap \<Longrightarrow>
          \<exists>s'. enq x s = Some s' \<and> inv s' \<and> items s' = items s @ [x]"
    and deq_empty: "inv s \<Longrightarrow> items s = [] \<Longrightarrow> deq s = None"
    and deq_nonempty: "inv s \<Longrightarrow> items s = y # ys \<Longrightarrow>
          \<exists>s'. deq s = Some (y, s') \<and> inv s' \<and> items s' = ys"
begin

lemma enq_SomeD: "inv s \<Longrightarrow> enq x s = Some s' \<Longrightarrow> inv s' \<and> items s' = items s @ [x]"
  using items_le [of s] enq_full [of s x] enq_room [of s x] by (cases "length (items s) = cap") auto

lemma deq_SomeD: "inv s \<Longrightarrow> deq s = Some (y, s') \<Longrightarrow> inv s' \<and> items s = y # items s'"
proof (cases "items s")
  case (Cons z zs)
  assume "inv s" and "deq s = Some (y, s')"
  with deq_nonempty [OF \<open>inv s\<close> Cons] Cons show ?thesis by auto
qed (simp add: deq_empty)

lemma enq_iff_room: "inv s \<Longrightarrow> enq x s \<noteq> None \<longleftrightarrow> length (items s) < cap"
  using items_le [of s] enq_full [of s x] enq_room [of s x] by (cases "length (items s) = cap") auto

text \<open>No element is lost, duplicated or reordered in any run.\<close>

lemma run_fifo:
  "inv s \<Longrightarrow> fifo_run enq deq ops s = (a, d, t) \<Longrightarrow> inv t \<and> items s @ a = d @ items t"
proof (induction ops arbitrary: s a d t)
  case (Cons op ops)
  show ?case
  proof (cases op)
    case (Enq x)
    show ?thesis
    proof (cases "enq x s")
      case None
      with Cons.prems Cons.IH [of s a d t] Enq show ?thesis by simp
    next
      case (Some s')
      obtain a' d' t' where r: "fifo_run enq deq ops s' = (a', d', t')"
        by (cases "fifo_run enq deq ops s'")
      from enq_SomeD [OF Cons.prems(1) Some] have "inv s'" and "items s' = items s @ [x]" by auto
      with Cons.prems(2) Cons.IH [OF _ r] Enq Some r show ?thesis by simp
    qed
  next
    case Deq
    show ?thesis
    proof (cases "deq s")
      case None
      with Cons.prems Cons.IH [of s a d t] Deq show ?thesis by simp
    next
      case (Some ys')
      obtain y s' where ys': "ys' = (y, s')" by (cases ys')
      obtain a' d' t' where r: "fifo_run enq deq ops s' = (a', d', t')"
        by (cases "fifo_run enq deq ops s'")
      from deq_SomeD [OF Cons.prems(1)] Some ys' have "inv s'" and "items s = y # items s'" by auto
      with Cons.prems(2) Cons.IH [OF _ r] Deq Some ys' r show ?thesis by simp
    qed
  qed
qed simp

end

text \<open>A queue that drops its oldest element when it is full.\<close>

locale lossy_fifo =
  fixes inv :: "'s \<Rightarrow> bool"
    and items :: "'s \<Rightarrow> 'a list"
    and cap :: nat
    and push :: "'a \<Rightarrow> 's \<Rightarrow> 's"
  assumes push_inv: "inv s \<Longrightarrow> inv (push x s)"
    and push_items: "inv s \<Longrightarrow> items (push x s) =
          (if length (items s) < cap then items s @ [x] else tl (items s) @ [x])"
    and items_cap: "inv s \<Longrightarrow> length (items s) \<le> cap"
    and cap_pos: "0 < cap"
begin

lemma fold_push_inv: "inv s \<Longrightarrow> inv (fold push xs s)"
  by (induction xs arbitrary: s) (auto simp: push_inv)

lemma push_keeps_last:
  "inv s \<Longrightarrow> items (push x s) =
     drop (length (items s @ [x]) - cap) (items s @ [x])"
  using items_cap [of s] cap_pos push_items [of s x]
  by (cases "items s") (auto simp: le_less drop_Cons' not_less le_Suc_eq)

text \<open>After any number of pushes the queue holds the last \<open>cap\<close> elements, in order.\<close>

lemma fold_push_items:
  "inv s \<Longrightarrow> items (fold push xs s) = drop (length (items s @ xs) - cap) (items s @ xs)"
proof (induction xs arbitrary: s)
  case Nil
  then show ?case using items_cap [of s] by simp
next
  case (Cons x xs)
  have inv': "inv (push x s)" using Cons.prems by (rule push_inv)
  have "items (fold push (x # xs) s) =
    drop (length (items (push x s) @ xs) - cap) (items (push x s) @ xs)"
    using Cons.IH [OF inv'] by simp
  also have "\<dots> = drop (length (items s @ x # xs) - cap) (items s @ x # xs)"
    unfolding push_keeps_last [OF Cons.prems]
    using items_cap [OF Cons.prems] cap_pos by (cases "length (items s) < cap") (auto simp: Suc_diff_le)
  finally show ?case .
qed

end

end
