(* ===== verification/Hexa_Log.thy ===== *)
theory Hexa_Log
  imports Hexa_Ring
begin

text \<open>
  The kernel log of \<^verbatim>\<open>log.c\<close>: a ring of 4096 bytes that drops its oldest byte when it is full, and
  the copy of every message on the serial port.  Every other component logs, so the log's variables
  are the base record that the kernel state of the later theories extends.
  The bytes sent to the serial port are kept as the output trace \<open>serial_out\<close>; the status
  polling before each byte is bounded in the code and the byte is sent in any case, so it is not
  part of the model.
\<close>

section \<open>Log levels\<close>

datatype log_level = LOG_LEVEL_INFO | LOG_LEVEL_WARN | LOG_LEVEL_ERROR | LOG_LEVEL_FATAL

fun level_num :: "log_level \<Rightarrow> nat" where
  "level_num LOG_LEVEL_INFO = 0"
| "level_num LOG_LEVEL_WARN = 1"
| "level_num LOG_LEVEL_ERROR = 2"
| "level_num LOG_LEVEL_FATAL = 3"

fun level_str :: "log_level \<Rightarrow> bytes" where
  "level_str LOG_LEVEL_INFO = cs ''INFO''"
| "level_str LOG_LEVEL_WARN = cs ''WARN''"
| "level_str LOG_LEVEL_ERROR = cs ''ERR''"
| "level_str LOG_LEVEL_FATAL = cs ''FATAL''"

instantiation log_level :: linorder
begin

definition less_eq_log_level :: "log_level \<Rightarrow> log_level \<Rightarrow> bool" where
  "less_eq_log_level a b \<longleftrightarrow> level_num a \<le> level_num b"

definition less_log_level :: "log_level \<Rightarrow> log_level \<Rightarrow> bool" where
  "less_log_level a b \<longleftrightarrow> level_num a < level_num b"

instance
proof
  fix x y :: log_level
  show "x \<le> y \<Longrightarrow> y \<le> x \<Longrightarrow> x = y"
    by (cases x; cases y) (simp_all add: less_eq_log_level_def)
qed (auto simp: less_eq_log_level_def less_log_level_def)

end

section \<open>State and operations\<close>

abbreviation LOG_RING_SIZE :: nat where "LOG_RING_SIZE \<equiv> 4096"

record klog =
  log_ring :: bytes
  log_head :: nat
  log_tail :: nat
  log_count :: nat
  serial_out :: bytes

text \<open>One iteration of the loop of \<^verbatim>\<open>log_write\<close>.\<close>

definition log_putc :: "u8 \<Rightarrow> 'a klog_scheme \<Rightarrow> 'a klog_scheme" where
  "log_putc c s =
     (let h = (log_head s + 1) mod LOG_RING_SIZE
      in s\<lparr>log_ring := (log_ring s)[log_head s := c],
           log_head := h,
           log_tail := (if h = log_tail s then (log_tail s + 1) mod LOG_RING_SIZE else log_tail s),
           log_count := (if log_count s < LOG_RING_SIZE then log_count s + 1 else log_count s)\<rparr>)"

definition log_write :: "log_level \<Rightarrow> bytes \<Rightarrow> 'a klog_scheme \<Rightarrow> 'a klog_scheme" where
  "log_write level msg s =
     (let m = c_str msg;
          s1 = fold log_putc (take 120 m @ [10]) s
      in if level \<le> LOG_LEVEL_WARN
         then s1\<lparr>serial_out := serial_out s1 @ cs ''['' @ level_str level @ cs ''] '' @ m @ [10]\<rparr>
         else s1)"

definition log_init :: "'a klog_scheme \<Rightarrow> 'a klog_scheme" where
  "log_init s =
     log_write LOG_LEVEL_INFO (cs ''Log system initialized'')
       (s\<lparr>log_head := 0, log_tail := 0, log_count := 0\<rparr>)"

text \<open>
  \<^verbatim>\<open>log_write_hex\<close> formats into a 64-byte stack buffer; its callers pass literal prefixes of at most
  22 bytes.
\<close>

definition hex_digit :: "u32 \<Rightarrow> u8" where
  "hex_digit nib = (if nib < 10 then 48 + ucast nib else 65 + ucast nib - 10)"

definition log_hex_text :: "bytes \<Rightarrow> u32 \<Rightarrow> bytes" where
  "log_hex_text prefix v =
     c_str prefix @ [48, 120] @ map (\<lambda>k. hex_digit (drop_bit (k * 4) v AND 15)) (rev [0..<8])"

definition log_write_hex :: "log_level \<Rightarrow> bytes \<Rightarrow> u32 \<Rightarrow> 'a klog_scheme \<Rightarrow> 'a klog_scheme" where
  "log_write_hex level prefix v s = log_write level (log_hex_text prefix v) s"

text \<open>The loop of \<^verbatim>\<open>log_get\<close>: at most \<open>n\<close> bytes from \<open>idx\<close> on, up to the head.\<close>

fun log_get_loop :: "nat \<Rightarrow> nat \<Rightarrow> 'a klog_scheme \<Rightarrow> bytes" where
  "log_get_loop 0 idx s = []"
| "log_get_loop (Suc n) idx s =
     (if idx \<noteq> log_head s
      then log_ring s ! idx # log_get_loop n ((idx + 1) mod LOG_RING_SIZE) s
      else [])"

definition log_get :: "'a klog_scheme \<Rightarrow> bytes" where
  "log_get s = log_get_loop 63 (log_tail s) s"

definition log_get_count :: "'a klog_scheme \<Rightarrow> nat" where
  "log_get_count s = log_count s"

section \<open>Invariant and abstraction\<close>

definition log_inv :: "'a klog_scheme \<Rightarrow> bool" where
  "log_inv s \<longleftrightarrow> ring_ok LOG_RING_SIZE (log_ring s) (log_tail s) (log_head s)"

definition log_items :: "'a klog_scheme \<Rightarrow> bytes" where
  "log_items s = ring_list LOG_RING_SIZE (log_ring s) (log_tail s) (log_head s)"

lemma log_putc_inv: "log_inv s \<Longrightarrow> log_inv (log_putc c s)"
  by (simp add: log_inv_def log_putc_def Let_def ring_ok_def)

lemma log_putc_items:
  assumes "log_inv s"
  shows "log_items (log_putc c s) =
    (if length (log_items s) < LOG_RING_SIZE - 1 then log_items s @ [c] else tl (log_items s) @ [c])"
proof -
  let ?R = "log_ring s" and ?t = "log_tail s" and ?h = "log_head s"
  have ok: "ring_ok LOG_RING_SIZE ?R ?t ?h" using assms by (simp add: log_inv_def)
  show ?thesis
  proof (cases "(?h + 1) mod LOG_RING_SIZE = ?t")
    case True
    then have "\<not> length (log_items s) < LOG_RING_SIZE - 1"
      using ring_full_iff [OF ok] by (simp add: log_items_def)
    moreover from True have "log_items (log_putc c s) = tl (log_items s) @ [c]"
      using ring_list_put_over [OF ok _ True] by (simp add: log_items_def log_putc_def Let_def)
    ultimately show ?thesis by simp
  next
    case False
    then have "length (log_items s) < LOG_RING_SIZE - 1"
      using ring_full_iff [OF ok] ring_length_le [OF ok] unfolding log_items_def by linarith
    moreover have "log_items (log_putc c s) = log_items s @ [c]"
      using ring_list_put [OF ok False] False by (simp add: log_items_def log_putc_def Let_def)
    ultimately show ?thesis by simp
  qed
qed

lemma log_items_cap: "log_inv s \<Longrightarrow> length (log_items s) \<le> LOG_RING_SIZE - 1"
  using ring_length_le unfolding log_inv_def log_items_def by blast

interpretation logq: lossy_fifo log_inv log_items "LOG_RING_SIZE - 1" log_putc
  by unfold_locales (fact log_putc_inv log_putc_items log_items_cap | simp)+

lemma log_inv_serial [simp]: "log_inv (s\<lparr>serial_out := x\<rparr>) = log_inv s"
  by (simp add: log_inv_def)

lemma log_items_serial [simp]: "log_items (s\<lparr>serial_out := x\<rparr>) = log_items s"
  by (simp add: log_items_def)

lemma log_write_inv: "log_inv s \<Longrightarrow> log_inv (log_write l m s)"
  by (simp add: log_write_def Let_def logq.fold_push_inv log_putc_inv)

text \<open>
  Logging touches the log's own variables only.  Stated as an equation with a record update, this
  lets every later component read its own fields through a log call.
\<close>

lemma log_putc_frame:
  "log_putc c s = s\<lparr>log_ring := log_ring (log_putc c s), log_head := log_head (log_putc c s),
     log_tail := log_tail (log_putc c s), log_count := log_count (log_putc c s)\<rparr>"
  by (simp add: log_putc_def Let_def)

lemma fold_log_putc_frame:
  "fold log_putc xs s = s\<lparr>log_ring := log_ring (fold log_putc xs s),
     log_head := log_head (fold log_putc xs s), log_tail := log_tail (fold log_putc xs s),
     log_count := log_count (fold log_putc xs s)\<rparr>"
proof (induction xs arbitrary: s)
  case (Cons x xs)
  show ?case
    using Cons.IH [of "log_putc x s"] by (subst (asm) log_putc_frame) simp
qed simp

lemma log_write_frame:
  "log_write l m s = s\<lparr>log_ring := log_ring (log_write l m s), log_head := log_head (log_write l m s),
     log_tail := log_tail (log_write l m s), log_count := log_count (log_write l m s),
     serial_out := serial_out (log_write l m s)\<rparr>"
  unfolding log_write_def Let_def
  by (subst (1 2 3) fold_log_putc_frame) simp

section \<open>Properties\<close>

text \<open>
  Logging a message appends its first 120 bytes and a newline to the log and then keeps the
  most recent 4095 bytes, in order; the ring stays well formed whatever was logged before.
\<close>

theorem log_write_keeps_recent:
  assumes "log_inv s"
  shows "log_inv (log_write l m s) \<and>
    log_items (log_write l m s) =
      (let new = log_items s @ take 120 (c_str m) @ [10]
       in drop (length new - 4095) new)"
  using log_write_inv [OF assms] logq.fold_push_items [OF assms, of "take 120 (c_str m) @ [10]"]
  by (simp add: log_write_def Let_def)

definition bss_klog :: klog where
  "bss_klog = \<lparr>log_ring = zeros LOG_RING_SIZE, log_head = 0, log_tail = 0, log_count = 0, serial_out = []\<rparr>"

lemma bss_log_inv: "log_inv bss_klog" and bss_log_items: "log_items bss_klog = []"
  by (simp_all add: log_inv_def log_items_def bss_klog_def ring_ok_def ring_list_def)

theorem log_write_keeps_recent_witness:
  "log_items (log_write LOG_LEVEL_WARN (cs ''full'') bss_klog) = cs ''full'' @ [10]"
  using log_write_keeps_recent [OF bss_log_inv, of LOG_LEVEL_WARN "cs ''full''"]
  by (simp add: bss_log_items c_str_def cs_def)

lemma log_get_loop_items:
  "log_inv s \<Longrightarrow> idx < LOG_RING_SIZE \<Longrightarrow>
   log_get_loop n idx s = take n (ring_list LOG_RING_SIZE (log_ring s) idx (log_head s))"
proof (induction n arbitrary: idx)
  case (Suc n)
  have ok: "ring_ok LOG_RING_SIZE (log_ring s) idx (log_head s)"
    using Suc.prems by (simp add: log_inv_def ring_ok_def)
  show ?case
  proof (cases "log_head s = idx")
    case True
    with ring_list_empty_iff [OF ok] show ?thesis by simp
  next
    case False
    with Suc ring_list_get [OF ok False] show ?thesis by simp
  qed
qed simp

lemma log_get_items: "log_inv s \<Longrightarrow> log_get s = take 63 (log_items s)"
  unfolding log_get_def log_items_def
  by (rule log_get_loop_items) (simp_all add: log_inv_def ring_ok_def)

end
