(* ===== verification/Hexa_Bitmap.thy ===== *)
theory Hexa_Bitmap
  imports Hexa_Prelude
begin

text \<open>
  Allocation bitmaps.  The physical page allocator (\<^verbatim>\<open>paging.c\<close>) and the disk block allocator
  (\<^verbatim>\<open>hexafs_disk.c\<close>) keep one bit per page or block in a byte array and search it next-fit: from a
  hint to the end, then from the first usable index to the hint.  The bit operations and the two
  search loops are here, with their lemmas, and the interface \<open>block_allocator\<close> that both
  allocators implement, with what it gives a client that allocates repeatedly.
\<close>

section \<open>Bit operations and the search loop\<close>

definition bm_test :: "bytes \<Rightarrow> nat \<Rightarrow> bool" where
  "bm_test bm i \<longleftrightarrow> drop_bit (i mod 8) (bm ! (i div 8)) AND 1 \<noteq> 0"

definition bm_set :: "nat \<Rightarrow> bytes \<Rightarrow> bytes" where
  "bm_set i bm = bm[i div 8 := bm ! (i div 8) OR push_bit (i mod 8) 1]"

definition bm_clear :: "nat \<Rightarrow> bytes \<Rightarrow> bytes" where
  "bm_clear i bm = bm[i div 8 := bm ! (i div 8) AND NOT (push_bit (i mod 8) 1)]"

text \<open>\<^verbatim>\<open>for (i = lo; i < hi; i++) if (!test(i)) return i;\<close>\<close>

function first_free :: "bytes \<Rightarrow> nat \<Rightarrow> nat \<Rightarrow> nat option" where
  "first_free bm i hi =
     (if i < hi then if \<not> bm_test bm i then Some i else first_free bm (i + 1) hi else None)"
  by pat_completeness auto
termination
  by (relation "measure (\<lambda>(bm, i, hi). hi - i)") auto

declare first_free.simps [simp del]

definition next_fit :: "bytes \<Rightarrow> nat \<Rightarrow> nat \<Rightarrow> nat \<Rightarrow> nat option" where
  "next_fit bm lo hint hi =
     (case first_free bm hint hi of Some i \<Rightarrow> Some i | None \<Rightarrow> first_free bm lo hint)"

text \<open>The indices below \<open>n\<close> whose bit is set.\<close>

definition bm_used :: "bytes \<Rightarrow> nat \<Rightarrow> nat set" where
  "bm_used bm n = {i. i < n \<and> bm_test bm i}"

section \<open>Lemmas\<close>

lemma bm_test_bit: "bm_test bm i \<longleftrightarrow> bit (bm ! (i div 8)) (i mod 8)"
proof -
  have "drop_bit (i mod 8) (bm ! (i div 8)) AND 1 \<noteq> 0 \<longleftrightarrow> odd (drop_bit (i mod 8) (bm ! (i div 8)))"
    by (simp add: and_one_eq odd_iff_mod_2_eq_one)
  then show ?thesis by (simp add: bm_test_def bit_iff_odd_drop_bit)
qed

lemma length_bm_set [simp]: "length (bm_set i bm) = length bm"
  by (simp add: bm_set_def)

lemma length_bm_clear [simp]: "length (bm_clear i bm) = length bm"
  by (simp add: bm_clear_def)

lemma bm_test_set:
  "i < 8 * length bm \<Longrightarrow> bm_test (bm_set i bm) j \<longleftrightarrow> j = i \<or> bm_test bm j"
proof -
  assume i: "i < 8 * length bm"
  show ?thesis
  proof (cases "j div 8 = i div 8")
    case True
    then have "j = i \<longleftrightarrow> j mod 8 = i mod 8" by (metis div_mult_mod_eq)
    moreover have "i div 8 < length bm" using i by (simp add: less_mult_imp_div_less)
    ultimately show ?thesis using True
      by (auto simp: bm_test_bit bm_set_def bit_or_iff bit_exp_iff)
  next
    case False
    then show ?thesis by (auto simp: bm_test_bit bm_set_def)
  qed
qed

lemma bm_test_clear:
  "i < 8 * length bm \<Longrightarrow> bm_test (bm_clear i bm) j \<longleftrightarrow> j \<noteq> i \<and> bm_test bm j"
proof -
  assume i: "i < 8 * length bm"
  show ?thesis
  proof (cases "j div 8 = i div 8")
    case True
    then have "j = i \<longleftrightarrow> j mod 8 = i mod 8" by (metis div_mult_mod_eq)
    moreover have "i div 8 < length bm" using i by (simp add: less_mult_imp_div_less)
    ultimately show ?thesis using True
      by (auto simp: bm_test_bit bm_clear_def bit_and_iff bit_not_iff bit_exp_iff)
  next
    case False
    then show ?thesis by (auto simp: bm_test_bit bm_clear_def)
  qed
qed

lemma bm_used_set: "i < n \<Longrightarrow> n \<le> 8 * length bm \<Longrightarrow> bm_used (bm_set i bm) n = insert i (bm_used bm n)"
  by (auto simp: bm_used_def bm_test_set)

lemma bm_used_clear: "i < n \<Longrightarrow> n \<le> 8 * length bm \<Longrightarrow> bm_used (bm_clear i bm) n = bm_used bm n - {i}"
  by (auto simp: bm_used_def bm_test_clear)

lemma finite_bm_used [simp]: "finite (bm_used bm n)"
  by (simp add: bm_used_def)

lemma first_free_SomeD:
  "first_free bm i hi = Some j \<Longrightarrow> i \<le> j \<and> j < hi \<and> \<not> bm_test bm j"
proof (induction bm i hi rule: first_free.induct)
  case (1 bm i hi)
  then show ?case
    by (auto simp: first_free.simps [of bm i hi] split: if_splits)
qed

lemma first_free_NoneD: "first_free bm i hi = None \<Longrightarrow> i \<le> k \<Longrightarrow> k < hi \<Longrightarrow> bm_test bm k"
proof (induction bm i hi rule: first_free.induct)
  case (1 bm i hi)
  show ?case
  proof (cases "k = i")
    case True
    with 1 show ?thesis by (auto simp: first_free.simps [of bm i hi] split: if_splits)
  next
    case False
    with 1 show ?thesis by (auto simp: first_free.simps [of bm i hi] split: if_splits)
  qed
qed

lemma next_fit_SomeD:
  "next_fit bm lo hint hi = Some j \<Longrightarrow> hint \<le> hi \<Longrightarrow> lo \<le> hint \<Longrightarrow> lo \<le> j \<and> j < hi \<and> \<not> bm_test bm j"
  by (auto simp: next_fit_def split: option.splits dest!: first_free_SomeD)

lemma next_fit_NoneD:
  "next_fit bm lo hint hi = None \<Longrightarrow> lo \<le> k \<Longrightarrow> k < hi \<Longrightarrow> bm_test bm k"
  using first_free_NoneD [of bm hint hi k] first_free_NoneD [of bm lo hint k]
  by (cases "k < hint") (auto simp: next_fit_def split: option.splits)

lemma next_fit_None_iff:
  "lo \<le> hint \<Longrightarrow> hint \<le> hi \<Longrightarrow> next_fit bm lo hint hi = None \<longleftrightarrow> (\<forall>k. lo \<le> k \<and> k < hi \<longrightarrow> bm_test bm k)"
  using next_fit_SomeD [of bm lo hint hi] next_fit_NoneD [of bm lo hint hi]
  by (cases "next_fit bm lo hint hi") auto

section \<open>The allocator interface\<close>

fun alloc_n :: "('s \<Rightarrow> nat option \<times> 's) \<Rightarrow> nat \<Rightarrow> 's \<Rightarrow> nat list \<times> 's" where
  "alloc_n alloc 0 s = ([], s)"
| "alloc_n alloc (Suc n) s =
     (case alloc s of
        (None, s') \<Rightarrow> ([], s')
      | (Some b, s') \<Rightarrow> (case alloc_n alloc n s' of (bs, s'') \<Rightarrow> (b # bs, s'')))"

locale block_allocator =
  fixes inv :: "'s \<Rightarrow> bool"
    and usable :: "'s \<Rightarrow> nat set"
    and used :: "'s \<Rightarrow> nat set"
    and alloc :: "'s \<Rightarrow> nat option \<times> 's"
    and release :: "nat \<Rightarrow> 's \<Rightarrow> 's"
  assumes usable_finite: "inv s \<Longrightarrow> finite (usable s)"
    and alloc_some: "inv s \<Longrightarrow> alloc s = (Some b, s') \<Longrightarrow>
          inv s' \<and> usable s' = usable s \<and> b \<in> usable s \<and> b \<notin> used s \<and> used s' = insert b (used s)"
    and alloc_none: "inv s \<Longrightarrow> alloc s = (None, s') \<Longrightarrow>
          inv s' \<and> usable s' = usable s \<and> used s' = used s \<and> usable s \<subseteq> used s"
    and release_ok: "inv s \<Longrightarrow> b \<in> usable s \<Longrightarrow>
          inv (release b s) \<and> usable (release b s) = usable s \<and> used (release b s) = used s - {b}"
begin

lemma alloc_fails_iff:
  assumes "inv s"
  shows "fst (alloc s) = None \<longleftrightarrow> usable s \<subseteq> used s"
proof (cases "fst (alloc s)")
  case None
  then have "alloc s = (None, snd (alloc s))" by (metis prod.collapse)
  with alloc_none [OF assms this] None show ?thesis by simp
next
  case (Some b)
  then have "alloc s = (Some b, snd (alloc s))" by (metis prod.collapse)
  with alloc_some [OF assms this] Some show ?thesis by auto
qed

lemma alloc_room:
  assumes "inv s" and "Suc n \<le> card (usable s - used s)"
  obtains b s' where "alloc s = (Some b, s')" and "inv s'" and "n \<le> card (usable s' - used s')"
proof -
  have "\<not> usable s \<subseteq> used s"
  proof
    assume "usable s \<subseteq> used s"
    then have "usable s - used s = {}" by blast
    with assms(2) show False by simp
  qed
  then obtain b where "fst (alloc s) = Some b" using alloc_fails_iff [OF assms(1)] by auto
  then obtain s' where a: "alloc s = (Some b, s')" by (metis prod.collapse)
  note s' = alloc_some [OF assms(1) a]
  then have "usable s' - used s' = (usable s - used s) - {b}" by auto
  then have "card (usable s' - used s') = card (usable s - used s) - 1"
    using s' usable_finite [OF assms(1)] by (simp add: card_Diff_singleton)
  with assms(2) s' that [OF a] show thesis by simp
qed

text \<open>Repeated allocation hands out distinct blocks that nobody held.\<close>

lemma alloc_n_fresh:
  "inv s \<Longrightarrow> alloc_n alloc n s = (bs, t) \<Longrightarrow>
   inv t \<and> usable t = usable s \<and> distinct bs \<and> set bs \<subseteq> usable s \<and> set bs \<inter> used s = {} \<and>
   used t = used s \<union> set bs"
proof (induction n arbitrary: s bs)
  case (Suc n)
  show ?case
  proof (cases "alloc s")
    case (Pair r s')
    show ?thesis
    proof (cases r)
      case None
      with Suc.prems Pair alloc_none [of s s'] show ?thesis by auto
    next
      case (Some b)
      obtain bs' t' where r: "alloc_n alloc n s' = (bs', t')" by (cases "alloc_n alloc n s'")
      from alloc_some [of s b s'] Suc.prems(1) Pair Some
      have s': "inv s'" "usable s' = usable s" "b \<in> usable s" "b \<notin> used s"
        "used s' = insert b (used s)" by auto
      with Suc.IH [OF s'(1), of bs'] Suc.prems(2) Pair Some r show ?thesis by auto
    qed
  qed
qed simp

text \<open>As long as blocks remain, allocation succeeds: all free blocks can be handed out.\<close>

lemma alloc_n_complete:
  "inv s \<Longrightarrow> n \<le> card (usable s - used s) \<Longrightarrow> alloc_n alloc n s = (bs, t) \<Longrightarrow> length bs = n"
proof (induction n arbitrary: s bs t)
  case (Suc n s bs t)
  obtain r s' where a: "alloc s = (r, s')" by (cases "alloc s")
  show ?case
  proof (cases r)
    case None
    with a Suc.prems(1) have "usable s \<subseteq> used s" using alloc_none by blast
    then have "usable s - used s = {}" by blast
    with Suc.prems(2) show ?thesis by simp
  next
    case (Some b)
    obtain bs' t' where r: "alloc_n alloc n s' = (bs', t')" by (cases "alloc_n alloc n s'")
    from alloc_some [OF Suc.prems(1)] a Some
    have s': "inv s'" "usable s' = usable s" "b \<in> usable s" "b \<notin> used s"
      "used s' = insert b (used s)" by auto
    have "usable s' - used s' = (usable s - used s) - {b}" using s' by auto
    moreover have "finite (usable s - used s)" using usable_finite [OF Suc.prems(1)] by simp
    ultimately have "n \<le> card (usable s' - used s')"
      using Suc.prems(2) s' by (simp add: card_Diff_singleton)
    with Suc.IH [OF s'(1) _ r] a Some r Suc.prems(3) show ?thesis by auto
  qed
qed simp

end

end
