(* ===== verification/Hexa_Pmm.thy ===== *)
theory Hexa_Pmm
  imports Hexa_Log Hexa_Bitmap
begin

text \<open>
  The physical memory manager of \<^verbatim>\<open>paging.c\<close>: one bit per 4 KiB page of at most 32 MiB, searched
  next-fit.  Page numbers and the two counters are kept as \<open>nat\<close> (the code's \<^verbatim>\<open>uint32_t\<close> values stay
  below 8193); addresses are 32-bit words.
\<close>

abbreviation PAGE_SIZE :: nat where "PAGE_SIZE \<equiv> 4096"
abbreviation PMM_MAX_MEM :: nat where "PMM_MAX_MEM \<equiv> 33554432"
abbreviation PMM_BMAP_SZ :: nat where "PMM_BMAP_SZ \<equiv> 1024"

section \<open>State and operations\<close>

record kmem = klog +
  pmm_bitmap :: bytes
  pmm_max_page :: nat
  pmm_last_alloc :: nat
  pmem :: "u32 \<Rightarrow> u32"
  cr3 :: u32
  paging_on :: bool
  kernel_page_dir_phys :: u32

definition pmm_get_total_pages :: "'a kmem_scheme \<Rightarrow> nat" where
  "pmm_get_total_pages s = pmm_max_page s"

definition pmm_set :: "nat \<Rightarrow> 'a kmem_scheme \<Rightarrow> 'a kmem_scheme" where
  "pmm_set page s = s\<lparr>pmm_bitmap := bm_set page (pmm_bitmap s)\<rparr>"

definition pmm_clear :: "nat \<Rightarrow> 'a kmem_scheme \<Rightarrow> 'a kmem_scheme" where
  "pmm_clear page s = s\<lparr>pmm_bitmap := bm_clear page (pmm_bitmap s)\<rparr>"

definition pmm_test :: "nat \<Rightarrow> 'a kmem_scheme \<Rightarrow> bool" where
  "pmm_test page s = bm_test (pmm_bitmap s) page"

definition kernel_pages_of :: "u32 \<Rightarrow> nat \<Rightarrow> nat" where
  "kernel_pages_of kernel_end max_page =
     (let kp = unat kernel_end div PAGE_SIZE;
          kp' = (if unat kernel_end mod PAGE_SIZE \<noteq> 0 then kp + 1 else kp)
      in if kp' > max_page then max_page else kp')"

definition pmm_init :: "u32 \<Rightarrow> u32 \<Rightarrow> 'a kmem_scheme \<Rightarrow> 'a kmem_scheme" where
  "pmm_init mem_size kernel_end s =
     (let top = (if unat mem_size > PMM_MAX_MEM then PMM_MAX_MEM else unat mem_size);
          max_page = top div PAGE_SIZE;
          s1 = s\<lparr>pmm_max_page := max_page, pmm_bitmap := replicate PMM_BMAP_SZ 255\<rparr>;
          kernel_pages = kernel_pages_of kernel_end max_page;
          s2 = fold pmm_clear [kernel_pages..<max_page] s1;
          s3 = fold pmm_set [160..<256] (pmm_set 0 s2)
      in log_write LOG_LEVEL_INFO (cs ''PMM: initialized'') (s3\<lparr>pmm_last_alloc := kernel_pages\<rparr>))"

definition pmm_alloc :: "'a kmem_scheme \<Rightarrow> u32 \<times> 'a kmem_scheme" where
  "pmm_alloc s =
     (case next_fit (pmm_bitmap s) 1 (pmm_last_alloc s) (pmm_max_page s) of
        Some i \<Rightarrow> (of_nat (i * PAGE_SIZE), (pmm_set i s)\<lparr>pmm_last_alloc := i + 1\<rparr>)
      | None \<Rightarrow> (0, s))"

definition pmm_free :: "u32 \<Rightarrow> 'a kmem_scheme \<Rightarrow> 'a kmem_scheme" where
  "pmm_free addr s =
     (let page = unat addr div PAGE_SIZE
      in if page < pmm_max_page s
         then (let s1 = pmm_clear page s
               in if page < pmm_last_alloc s1 then s1\<lparr>pmm_last_alloc := page\<rparr> else s1)
         else s)"

definition pmm_count_free :: "'a kmem_scheme \<Rightarrow> nat" where
  "pmm_count_free s = length (filter (\<lambda>i. \<not> pmm_test i s) [1..<pmm_max_page s])"

text \<open>The zeroed BSS that \<^verbatim>\<open>kernel_main\<close> starts from.\<close>

definition bss_kmem :: kmem where
  "bss_kmem = \<lparr>log_ring = replicate LOG_RING_SIZE 0, log_head = 0, log_tail = 0, log_count = 0,
     serial_out = [], pmm_bitmap = replicate PMM_BMAP_SZ 0, pmm_max_page = 0, pmm_last_alloc = 0,
     pmem = (\<lambda>_. 0), cr3 = 0, paging_on = False, kernel_page_dir_phys = 0\<rparr>"

section \<open>Invariant\<close>

text \<open>Page 0 is never handed out: its address is the failure value.\<close>

definition pmm_inv :: "'a kmem_scheme \<Rightarrow> bool" where
  "pmm_inv s \<longleftrightarrow> length (pmm_bitmap s) = PMM_BMAP_SZ \<and> pmm_max_page s \<le> 8192 \<and>
     pmm_last_alloc s \<le> pmm_max_page s \<and> pmm_test 0 s"

definition pmm_used :: "'a kmem_scheme \<Rightarrow> nat set" where
  "pmm_used s = bm_used (pmm_bitmap s) (pmm_max_page s)"

text \<open>Allocation and release seen by page number.\<close>

definition pmm_alloc_page :: "'a kmem_scheme \<Rightarrow> nat option \<times> 'a kmem_scheme" where
  "pmm_alloc_page s = (case pmm_alloc s of (a, s') \<Rightarrow> (if a = 0 then None else Some (unat a div PAGE_SIZE), s'))"

lemma log_write_kmem [simp]:
  "pmm_bitmap (log_write l m s) = pmm_bitmap s" "pmm_max_page (log_write l m s) = pmm_max_page s"
  "pmm_last_alloc (log_write l m s) = pmm_last_alloc s" "pmem (log_write l m s) = pmem s"
  "cr3 (log_write l m s) = cr3 s" "paging_on (log_write l m s) = paging_on s"
  "kernel_page_dir_phys (log_write l m s) = kernel_page_dir_phys s"
  by (subst log_write_frame, simp)+

lemma unat_page_addr: "i < 2 ^ 20 \<Longrightarrow> unat (of_nat (i * PAGE_SIZE) :: u32) = i * PAGE_SIZE"
  by (rule word_of_nat_less_eq) simp

lemma page_addr_zero_iff: "i < 2 ^ 20 \<Longrightarrow> (of_nat (i * PAGE_SIZE) :: u32) = 0 \<longleftrightarrow> i = 0"
  using unat_page_addr [of i] by (auto simp: unat_eq_zero simp flip: unat_0_iff)

lemma pmm_next_fit_SomeD:
  assumes "pmm_inv s" and "next_fit (pmm_bitmap s) 1 (pmm_last_alloc s) (pmm_max_page s) = Some i"
  shows "1 \<le> i \<and> i < pmm_max_page s \<and> \<not> pmm_test i s"
proof -
  have "i < pmm_max_page s \<and> \<not> pmm_test i s"
    using assms
    by (auto simp: next_fit_def pmm_inv_def pmm_test_def dest: first_free_SomeD split: option.splits)
  moreover from this assms(1) have "i \<noteq> 0" by (metis pmm_inv_def)
  ultimately show ?thesis by simp
qed

lemma pmm_alloc_cases:
  assumes "pmm_inv s"
  obtains (none) "pmm_alloc s = (0, s)" "{1..<pmm_max_page s} \<subseteq> pmm_used s"
  | (some) i where "1 \<le> i" "i < pmm_max_page s" "\<not> pmm_test i s"
      "pmm_alloc s = (of_nat (i * PAGE_SIZE), (pmm_set i s)\<lparr>pmm_last_alloc := i + 1\<rparr>)"
proof (cases "next_fit (pmm_bitmap s) 1 (pmm_last_alloc s) (pmm_max_page s)")
  case None
  then have "{1..<pmm_max_page s} \<subseteq> pmm_used s"
    using next_fit_NoneD [OF None] by (auto simp: pmm_used_def bm_used_def)
  with None none show ?thesis by (simp add: pmm_alloc_def)
next
  case (Some i)
  with some pmm_next_fit_SomeD [OF assms Some] show ?thesis by (auto simp: pmm_alloc_def)
qed

lemma pmm_set_inv:
  assumes "pmm_inv s" and "i < pmm_max_page s"
  shows "pmm_inv ((pmm_set i s)\<lparr>pmm_last_alloc := i + 1\<rparr>)"
  using assms by (auto simp: pmm_inv_def pmm_set_def pmm_test_def bm_test_set)

lemma pmm_alloc_inv: "pmm_inv s \<Longrightarrow> pmm_inv (snd (pmm_alloc s))"
  by (rule pmm_alloc_cases [of s]) (simp_all add: pmm_set_inv [simplified])

lemma pmm_free_inv:
  assumes "pmm_inv s" and "PAGE_SIZE \<le> unat addr"
  shows "pmm_inv (pmm_free addr s)"
proof -
  have "0 < unat addr div PAGE_SIZE" using assms(2) by (simp add: div_greater_zero_iff)
  with assms(1) show ?thesis
    by (auto simp: pmm_inv_def pmm_free_def pmm_clear_def pmm_test_def bm_test_clear Let_def)
qed

interpretation pmm: block_allocator pmm_inv "\<lambda>s. {1..<pmm_max_page s}" pmm_used pmm_alloc_page
  "\<lambda>p. pmm_free (of_nat (p * PAGE_SIZE))"
proof unfold_locales
  fix s b and s' :: "'a kmem_scheme"
  assume inv: "pmm_inv s" and a: "pmm_alloc_page s = (Some b, s')"
  from inv show "pmm_inv s' \<and> {1..<pmm_max_page s'} = {1..<pmm_max_page s} \<and>
    b \<in> {1..<pmm_max_page s} \<and> b \<notin> pmm_used s \<and> pmm_used s' = insert b (pmm_used s)"
  proof (cases rule: pmm_alloc_cases)
    case none
    with a show ?thesis by (simp add: pmm_alloc_page_def)
  next
    case (some i)
    have lt: "i < 2 ^ 20" using some(2) inv by (simp add: pmm_inv_def)
    with a some have "b = i" and s': "s' = (pmm_set i s)\<lparr>pmm_last_alloc := i + 1\<rparr>"
      using unat_page_addr [OF lt] page_addr_zero_iff [OF lt] by (auto simp: pmm_alloc_page_def)
    moreover have "pmm_used s' = insert i (pmm_used s)"
      using s' some(2) inv by (auto simp: pmm_used_def pmm_set_def pmm_inv_def bm_used_set)
    moreover have "i \<notin> pmm_used s" using some(3) by (simp add: pmm_used_def bm_used_def pmm_test_def)
    ultimately show ?thesis
      using some pmm_set_inv [OF inv some(2)] by (simp add: pmm_set_def)
  qed
next
  fix s and s' :: "'a kmem_scheme"
  assume inv: "pmm_inv s" and a: "pmm_alloc_page s = (None, s')"
  from inv show "pmm_inv s' \<and> {1..<pmm_max_page s'} = {1..<pmm_max_page s} \<and> pmm_used s' = pmm_used s \<and>
    {1..<pmm_max_page s} \<subseteq> pmm_used s"
  proof (cases rule: pmm_alloc_cases)
    case none
    with a inv show ?thesis by (simp add: pmm_alloc_page_def)
  next
    case (some i)
    have "i < 2 ^ 20" using some(2) inv by (simp add: pmm_inv_def)
    with a some show ?thesis using page_addr_zero_iff [of i] by (auto simp: pmm_alloc_page_def)
  qed
next
  fix s :: "'a kmem_scheme" and b
  assume inv: "pmm_inv s" and b: "b \<in> {1..<pmm_max_page s}"
  have u: "unat (of_nat (b * PAGE_SIZE) :: u32) = b * PAGE_SIZE"
    using b inv by (intro unat_page_addr) (simp add: pmm_inv_def)
  have "pmm_inv (pmm_free (of_nat (b * PAGE_SIZE)) s)"
    using b u by (intro pmm_free_inv [OF inv]) simp
  with inv b u show "pmm_inv (pmm_free (of_nat (b * PAGE_SIZE)) s) \<and>
    {1..<pmm_max_page (pmm_free (of_nat (b * PAGE_SIZE)) s)} = {1..<pmm_max_page s} \<and>
    pmm_used (pmm_free (of_nat (b * PAGE_SIZE)) s) = pmm_used s - {b}"
    by (auto simp: pmm_free_def pmm_used_def pmm_clear_def pmm_inv_def Let_def bm_used_clear)
qed simp

section \<open>The state after initialisation\<close>

lemma fold_pmm_clear:
  "fold pmm_clear xs s = s\<lparr>pmm_bitmap := fold bm_clear xs (pmm_bitmap s)\<rparr>"
  by (induction xs arbitrary: s) (simp_all add: pmm_clear_def)

lemma fold_pmm_set: "fold pmm_set xs s = s\<lparr>pmm_bitmap := fold bm_set xs (pmm_bitmap s)\<rparr>"
  by (induction xs arbitrary: s) (simp_all add: pmm_set_def)

lemma length_fold_bm_clear [simp]: "length (fold bm_clear xs bm) = length bm"
  by (induction xs arbitrary: bm) simp_all

lemma length_fold_bm_set [simp]: "length (fold bm_set xs bm) = length bm"
  by (induction xs arbitrary: bm) simp_all

lemma bm_test_fold_clear:
  "\<forall>x \<in> set xs. x < 8 * length bm \<Longrightarrow> bm_test (fold bm_clear xs bm) j \<longleftrightarrow> j \<notin> set xs \<and> bm_test bm j"
  by (induction xs arbitrary: bm) (auto simp: bm_test_clear)

lemma bm_test_fold_set:
  "\<forall>x \<in> set xs. x < 8 * length bm \<Longrightarrow> bm_test (fold bm_set xs bm) j \<longleftrightarrow> j \<in> set xs \<or> bm_test bm j"
  by (induction xs arbitrary: bm) (auto simp: bm_test_set)

lemma bm_test_ones: "i < 8 * n \<Longrightarrow> bm_test (replicate n 255) i"
proof -
  assume "i < 8 * n"
  moreover have "bit (255 :: u8) (i mod 8)"
  proof -
    have "(255 :: u8) = - 1" by simp
    then show ?thesis by (simp only: bit_minus_1_iff) simp
  qed
  ultimately show ?thesis by (simp add: bm_test_bit less_mult_imp_div_less)
qed

lemma kernel_pages_le: "kernel_pages_of k m \<le> m"
  by (simp add: kernel_pages_of_def Let_def)

lemma page_count_le: "(if PMM_MAX_MEM < n then PMM_MAX_MEM else n) div PAGE_SIZE \<le> 8192"
proof -
  have "(if PMM_MAX_MEM < n then PMM_MAX_MEM else n) div PAGE_SIZE \<le> PMM_MAX_MEM div PAGE_SIZE"
    by (rule div_le_mono) simp
  then show ?thesis by simp
qed

lemma pmm_init_bitmap:
  defines "m \<equiv> \<lambda>mem. (if unat mem > PMM_MAX_MEM then PMM_MAX_MEM else unat (mem::u32)) div PAGE_SIZE"
  assumes "i < 8192"
  shows "bm_test (pmm_bitmap (pmm_init mem k s)) i \<longleftrightarrow>
    i = 0 \<or> (160 \<le> i \<and> i < 256) \<or> i < kernel_pages_of k (m mem) \<or> m mem \<le> i"
proof -
  let ?ones = "replicate PMM_BMAP_SZ (255 :: u8)"
  let ?b1 = "fold bm_clear [kernel_pages_of k (m mem)..<m mem] ?ones"
  have m: "m mem \<le> 8192" unfolding m_def by (rule page_count_le)
  have "bm_test ?b1 i \<longleftrightarrow> i \<notin> set [kernel_pages_of k (m mem)..<m mem]"
    using assms(2) m bm_test_ones [of i PMM_BMAP_SZ] by (subst bm_test_fold_clear) auto
  then have "bm_test (fold bm_set [160..<256] (bm_set 0 ?b1)) i \<longleftrightarrow>
    i \<in> set [160..<256] \<or> i = 0 \<or> i \<notin> set [kernel_pages_of k (m mem)..<m mem]"
    by (subst bm_test_fold_set) (auto simp: bm_test_set)
  then show ?thesis
    by (auto simp: pmm_init_def Let_def fold_pmm_clear fold_pmm_set pmm_set_def m_def)
qed

lemma pmm_init_fields:
  "pmm_max_page (pmm_init mem k s) =
     (if unat mem > PMM_MAX_MEM then PMM_MAX_MEM else unat mem) div PAGE_SIZE"
  "length (pmm_bitmap (pmm_init mem k s)) = PMM_BMAP_SZ"
  "pmm_last_alloc (pmm_init mem k s) = kernel_pages_of k (pmm_max_page (pmm_init mem k s))"
  by (simp_all add: pmm_init_def Let_def fold_pmm_clear fold_pmm_set pmm_set_def)

lemma pmm_init_inv: "pmm_inv (pmm_init mem k s)"
  unfolding pmm_inv_def pmm_test_def
  using pmm_init_bitmap [of 0 mem k s] pmm_init_fields [of mem k s] page_count_le [of "unat mem"]
  by (simp add: kernel_pages_le)

section \<open>Properties\<close>

text \<open>
  In a well-formed state \<^verbatim>\<open>pmm_alloc\<close> fails, returning 0 and changing nothing, exactly when every
  page is in use; otherwise it returns the address of a page that was free, marks that page and
  no other, and keeps the state well formed.
\<close>

theorem pmm_alloc_exact:
  assumes "pmm_inv s" and "pmm_alloc s = (a, s')"
  shows "(a = 0 \<longleftrightarrow> {1..<pmm_max_page s} \<subseteq> pmm_used s) \<and>
    (if a = 0 then s' = s
     else unat a mod PAGE_SIZE = 0 \<and> unat a div PAGE_SIZE \<in> {1..<pmm_max_page s} - pmm_used s \<and>
       pmm_used s' = insert (unat a div PAGE_SIZE) (pmm_used s) \<and> pmm_inv s')"
proof (cases "a = 0")
  case True
  from assms(1) show ?thesis
  proof (cases rule: pmm_alloc_cases)
    case none
    with True assms(2) show ?thesis by simp
  next
    case (some i)
    have "i < 2 ^ 20" using some(2) assms(1) by (simp add: pmm_inv_def)
    with some True assms(2) show ?thesis using page_addr_zero_iff [of i] by auto
  qed
next
  case False
  then have p: "pmm_alloc_page s = (Some (unat a div PAGE_SIZE), s')"
    using assms by (simp add: pmm_alloc_page_def)
  have "unat a mod PAGE_SIZE = 0"
    using assms(1)
  proof (cases rule: pmm_alloc_cases)
    case none
    with False assms show ?thesis by simp
  next
    case (some i)
    moreover have "i < 2 ^ 20" using some(2) assms(1) by (simp add: pmm_inv_def)
    ultimately show ?thesis using assms(2) unat_page_addr [of i] by auto
  qed
  with False pmm.alloc_some [OF assms(1) p] show ?thesis by auto
qed

lemma pmm_alloc_example:
  "pmm_alloc (pmm_init 12288 4096 bss_kmem) =
     (4096, (pmm_set 1 (pmm_init 12288 4096 bss_kmem))\<lparr>pmm_last_alloc := 2\<rparr>)"
  by (simp add: pmm_alloc_def next_fit_def first_free.simps pmm_init_fields pmm_init_bitmap
      kernel_pages_of_def)

theorem pmm_alloc_exact_witness:
  "fst (pmm_alloc (pmm_init 12288 4096 bss_kmem)) = 4096 \<and>
   pmm_used (snd (pmm_alloc (pmm_init 12288 4096 bss_kmem))) =
     insert 1 (pmm_used (pmm_init 12288 4096 bss_kmem))"
  using pmm_alloc_exact [OF pmm_init_inv pmm_alloc_example] by (simp add: pmm_alloc_example)

text \<open>
  C11: after \<^verbatim>\<open>pmm_init\<close>, any number of allocations hands out pairwise distinct pages of installed
  memory above the kernel image and outside the legacy hole 0xA0000-0xFFFFF; as long as free pages
  remain no request fails.
\<close>

theorem pmm_boot_allocations:
  assumes "alloc_n pmm_alloc_page n (pmm_init mem kernel_end s) = (ps, t)"
  shows "distinct ps \<and>
    (\<forall>p \<in> set ps. p \<noteq> 0 \<and> p < pmm_max_page t \<and> unat kernel_end \<le> p * PAGE_SIZE \<and> p \<notin> {160..<256}) \<and>
    (n \<le> card ({1..<pmm_max_page t} - pmm_used (pmm_init mem kernel_end s)) \<longrightarrow> length ps = n)"
proof -
  let ?i = "pmm_init mem kernel_end s"
  note inv = pmm_init_inv [of mem kernel_end s]
  note fresh = pmm.alloc_n_fresh [OF inv assms]
  note complete = pmm.alloc_n_complete [OF inv _ assms]
  have max: "pmm_max_page ?i \<le> 8192" using inv by (simp add: pmm_inv_def)
  have sub: "{1..<pmm_max_page t} = {1..<pmm_max_page ?i}" using fresh by simp
  have "p \<noteq> 0 \<and> p < pmm_max_page t \<and> unat kernel_end \<le> p * PAGE_SIZE \<and> p \<notin> {160..<256}"
    if "p \<in> set ps" for p
  proof -
    from that fresh have p: "p \<in> {1..<pmm_max_page ?i}" and "p \<notin> pmm_used ?i" by auto
    then have "\<not> bm_test (pmm_bitmap ?i) p" by (auto simp: pmm_used_def bm_used_def)
    then have "p \<notin> {160..<256}" and kp: "kernel_pages_of kernel_end (pmm_max_page ?i) \<le> p"
      using pmm_init_bitmap [of p mem kernel_end s] p max by (auto simp: pmm_init_fields)
    moreover have "unat kernel_end \<le> p * PAGE_SIZE"
      using kp p by (auto simp: kernel_pages_of_def Let_def split: if_splits) (linarith+)?
    ultimately show ?thesis using p sub by auto
  qed
  with fresh complete sub show ?thesis by auto
qed

theorem pmm_boot_allocations_witness:
  "let (ps, t) = alloc_n pmm_alloc_page 3 (pmm_init 2097152 1048576 bss_kmem)
   in distinct ps \<and> (\<forall>p \<in> set ps. 1048576 \<le> p * PAGE_SIZE \<and> p < 512)"
proof -
  obtain ps t where r: "alloc_n pmm_alloc_page 3 (pmm_init 2097152 1048576 bss_kmem) = (ps, t)"
    by (cases "alloc_n pmm_alloc_page 3 (pmm_init 2097152 1048576 bss_kmem)")
  have "set ps \<subseteq> {1..<512}"
    using pmm.alloc_n_fresh [OF pmm_init_inv r] by (simp add: pmm_init_fields)
  then have "\<forall>p \<in> set ps. p < 512" by auto
  with pmm_boot_allocations [OF r] r show ?thesis by simp
qed

end
