(* ===== verification/Hexa_Paging.thy ===== *)
theory Hexa_Paging
  imports Hexa_Pmm
begin

text \<open>
  Two-level paging (\<^verbatim>\<open>paging.c\<close> and \<^verbatim>\<open>map_page_in_dir\<close> of \<^verbatim>\<open>hexa.c\<close>).  Directories and tables are
  arrays of 1024 words in physical memory, \<open>pmem\<close>, which maps the address of an aligned word to
  its value.  The kernel dereferences physical addresses of tables directly (its low memory is
  identity mapped), and so does the model.  \<open>mmu_translate\<close> is the page walk that the i386 does on
  these tables; invalidations of the TLB (reloading \<open>cr3\<close>, \<^verbatim>\<open>invlpg\<close>) have no effect on it.
\<close>

section \<open>Operations\<close>

definition pd_index :: "u32 \<Rightarrow> u32" where
  "pd_index virt = drop_bit 22 virt"

definition pt_index :: "u32 \<Rightarrow> u32" where
  "pt_index virt = drop_bit 12 virt AND 0x3FF"

text \<open>\<^verbatim>\<open>&tbl[i]\<close>, \<^verbatim>\<open>e & ~0xFFF\<close> and \<^verbatim>\<open>e & 1\<close>.\<close>

definition slot_addr :: "u32 \<Rightarrow> u32 \<Rightarrow> u32" where
  "slot_addr tbl i = tbl + 4 * i"

definition frame_of :: "u32 \<Rightarrow> u32" where
  "frame_of e = e AND NOT 0xFFF"

definition present :: "u32 \<Rightarrow> bool" where
  "present e \<longleftrightarrow> e AND 1 \<noteq> 0"

text \<open>\<^verbatim>\<open>for (i = 0; i < n; i++) tbl[i] = f(i);\<close>\<close>

definition fill_table :: "nat \<Rightarrow> u32 \<Rightarrow> (nat \<Rightarrow> u32) \<Rightarrow> (u32 \<Rightarrow> u32) \<Rightarrow> (u32 \<Rightarrow> u32)" where
  "fill_table n tbl f m = fold (\<lambda>i m. m(slot_addr tbl (of_nat i) := f i)) [0..<n] m"

definition ensure_table :: "u32 \<Rightarrow> u32 \<Rightarrow> 'a kmem_scheme \<Rightarrow> 'a kmem_scheme" where
  "ensure_table pd virt s =
     (if \<not> present (pmem s (slot_addr pd (pd_index virt)))
      then (case pmm_alloc s of (pt, s1) \<Rightarrow>
             s1\<lparr>pmem := (fill_table 1024 pt (\<lambda>_. 2) (pmem s1))
                  (slot_addr pd (pd_index virt) := pt OR 3)\<rparr>)
      else s)"

definition map_page_in_dir :: "u32 \<Rightarrow> u32 \<Rightarrow> u32 \<Rightarrow> u32 \<Rightarrow> 'a kmem_scheme \<Rightarrow> 'a kmem_scheme" where
  "map_page_in_dir pd virt phys flags s =
     (let s1 = ensure_table pd virt s;
          pt = frame_of (pmem s1 (slot_addr pd (pd_index virt)))
      in s1\<lparr>pmem := (pmem s1)(slot_addr pt (pt_index virt) := frame_of phys OR (flags AND 0xFFF))\<rparr>)"

definition map_page :: "u32 \<Rightarrow> u32 \<Rightarrow> u32 \<Rightarrow> 'a kmem_scheme \<Rightarrow> 'a kmem_scheme" where
  "map_page virt phys flags s = map_page_in_dir (cr3 s) virt phys flags s"

definition unmap_page :: "u32 \<Rightarrow> 'a kmem_scheme \<Rightarrow> 'a kmem_scheme" where
  "unmap_page virt s =
     (let pde = pmem s (slot_addr (cr3 s) (pd_index virt))
      in if \<not> present pde then s
         else s\<lparr>pmem := (pmem s)(slot_addr (frame_of pde) (pt_index virt) := 2)\<rparr>)"

definition paging_init_table :: "nat \<Rightarrow> 'a kmem_scheme \<Rightarrow> 'a kmem_scheme" where
  "paging_init_table tbl s =
     (case pmm_alloc s of (pt, s1) \<Rightarrow>
        s1\<lparr>pmem := (fill_table 1024 pt (\<lambda>i. of_nat (tbl * 0x400000 + i * PAGE_SIZE) OR 3) (pmem s1))
             (slot_addr (kernel_page_dir_phys s1) (of_nat tbl) := pt OR 3)\<rparr>)"

definition paging_init :: "'a kmem_scheme \<Rightarrow> 'a kmem_scheme" where
  "paging_init s =
     (case pmm_alloc s of (pd, s1) \<Rightarrow>
        let s2 = s1\<lparr>kernel_page_dir_phys := pd, pmem := fill_table 1024 pd (\<lambda>_. 2) (pmem s1)\<rparr>;
            s3 = fold paging_init_table [0..<2] s2
        in log_write LOG_LEVEL_INFO (cs ''Paging: enabled, 8MB identity mapped'')
             (s3\<lparr>cr3 := kernel_page_dir_phys s3, paging_on := True\<rparr>))"

definition get_kernel_page_dir :: "'a kmem_scheme \<Rightarrow> u32" where
  "get_kernel_page_dir s = kernel_page_dir_phys s"

definition create_user_page_dir :: "'a kmem_scheme \<Rightarrow> u32 \<times> 'a kmem_scheme" where
  "create_user_page_dir s =
     (case pmm_alloc s of (pd, s1) \<Rightarrow>
        let m = fill_table 1024 pd (\<lambda>_. 2) (pmem s1)
        in (pd, s1\<lparr>pmem := fold (\<lambda>i m. m(slot_addr pd (of_nat i) :=
                      m (slot_addr (kernel_page_dir_phys s1) (of_nat i)))) [0..<256] m\<rparr>))"

definition switch_page_dir :: "u32 \<Rightarrow> 'a kmem_scheme \<Rightarrow> 'a kmem_scheme" where
  "switch_page_dir pd s = (if pd \<noteq> 0 then s\<lparr>cr3 := pd\<rparr> else s)"

text \<open>The page walk of the processor.\<close>

definition mmu_translate :: "(u32 \<Rightarrow> u32) \<Rightarrow> u32 \<Rightarrow> u32 \<Rightarrow> u32 option" where
  "mmu_translate m pd virt =
     (let pde = m (slot_addr pd (pd_index virt))
      in if \<not> present pde then None
         else let pte = m (slot_addr (frame_of pde) (pt_index virt))
              in if \<not> present pte then None else Some (frame_of pte OR (virt AND 0xFFF)))"

section \<open>Invariant\<close>

definition page_aligned :: "u32 \<Rightarrow> bool" where
  "page_aligned a \<longleftrightarrow> a AND 0xFFF = 0"

definition pde_at :: "u32 \<Rightarrow> nat \<Rightarrow> 'a kmem_scheme \<Rightarrow> u32" where
  "pde_at pd i s = pmem s (slot_addr pd (of_nat i))"

definition page_num :: "u32 \<Rightarrow> nat" where
  "page_num a = unat a div PAGE_SIZE"

text \<open>
  A directory is well formed if its page and the pages of its present tables are in use according
  to the page allocator and pairwise different.
\<close>

definition dir_inv :: "u32 \<Rightarrow> 'a kmem_scheme \<Rightarrow> bool" where
  "dir_inv pd s \<longleftrightarrow> pmm_inv s \<and> page_aligned pd \<and> page_num pd \<in> pmm_used s \<and>
     (\<forall>i < 1024. present (pde_at pd i s) \<longrightarrow>
        frame_of (pde_at pd i s) \<noteq> pd \<and> page_num (frame_of (pde_at pd i s)) \<in> pmm_used s) \<and>
     (\<forall>i < 1024. \<forall>j < 1024. present (pde_at pd i s) \<longrightarrow> present (pde_at pd j s) \<longrightarrow>
        frame_of (pde_at pd i s) = frame_of (pde_at pd j s) \<longrightarrow> i = j)"

section \<open>Address arithmetic\<close>

lemma page_aligned_iff: "page_aligned a \<longleftrightarrow> unat a mod PAGE_SIZE = 0"
proof -
  have "a AND 0xFFF = take_bit 12 a"
    by (simp add: take_bit_eq_mask mask_eq_exp_minus_1)
  then have "page_aligned a \<longleftrightarrow> unat (take_bit 12 a) = 0"
    by (simp add: page_aligned_def unat_eq_zero)
  also have "unat (take_bit 12 a) = unat a mod 2 ^ 12"
    by (simp only: unsigned_take_bit_eq take_bit_nat_def)
  finally show ?thesis by simp
qed

lemma page_aligned_frame [simp]: "page_aligned (frame_of e)"
  unfolding page_aligned_def frame_of_def by (rule bit_word_eqI) (auto simp: bit_simps)

lemma frame_of_aligned: "page_aligned a \<Longrightarrow> frame_of a = a"
proof (rule bit_word_eqI)
  fix n assume "page_aligned a" and n: "n < LENGTH(32)"
  then have "\<not> bit (a AND 0xFFF) n" by (simp add: page_aligned_def)
  with n show "bit (frame_of a) n = bit a n"
    by (simp only: frame_of_def bit_and_iff bit_not_iff possible_bit_word) blast
qed

lemma unat_slot_addr:
  assumes "page_aligned tbl" and "unat i < 1024"
  shows "unat (slot_addr tbl i) = unat tbl + 4 * unat i"
proof -
  have t: "unat tbl mod PAGE_SIZE = 0" using assms by (simp add: page_aligned_iff)
  have "unat tbl < 2 ^ 32" using unsigned_less [of tbl] by simp
  then have "unat tbl \<le> 2 ^ 32 - PAGE_SIZE" using t by (auto elim!: dvdE simp: mod_eq_0_iff_dvd)
  moreover have "unat (4 * i) = 4 * unat i"
    using assms(2) by (simp add: unat_word_ariths)
  ultimately show ?thesis using assms(2) by (simp add: slot_addr_def unat_word_ariths)
qed

lemma slot_addr_inj:
  assumes "page_aligned a" "page_aligned b" "unat i < 1024" "unat j < 1024"
  shows "slot_addr a i = slot_addr b j \<longleftrightarrow> a = b \<and> i = j"
proof
  assume "slot_addr a i = slot_addr b j"
  then have eq: "unat a + 4 * unat i = unat b + 4 * unat j"
    using assms by (metis unat_slot_addr)
  obtain k l where k: "unat a = PAGE_SIZE * k" and l: "unat b = PAGE_SIZE * l"
    using assms by (auto simp: page_aligned_iff mod_eq_0_iff_dvd elim!: dvdE)
  have e: "unat i + 1024 * k = unat j + 1024 * l" using eq unfolding k l by simp
  have "k = l" using arg_cong [OF e, of "\<lambda>n. n div 1024"] assms(3,4) by simp
  with e have "unat i = unat j" by simp
  with \<open>k = l\<close> k l show "a = b \<and> i = j" by (simp add: word_unat_eq_iff)
qed simp

lemma pd_index_lt: "unat (pd_index v) < 1024"
proof -
  have "unat v < 1024 * 2 ^ 22" using unsigned_less [of v] by simp
  then have "unat v div 2 ^ 22 < 1024" by (rule less_mult_imp_div_less)
  then show ?thesis by (simp only: pd_index_def unat_drop_bit_eq drop_bit_nat_def)
qed

lemma pt_index_lt: "unat (pt_index v) < 1024"
proof -
  have "pt_index v \<le> 0x3FF" unfolding pt_index_def by (rule word_and_le1)
  then show ?thesis by (simp add: word_le_nat_alt)
qed


lemma unat_of_index: "k < 1024 \<Longrightarrow> unat (of_nat k :: u32) = k"
  by (rule word_of_nat_less_eq) simp

lemma pde_at_index: "pde_at pd (unat (pd_index v)) s = pmem s (slot_addr pd (pd_index v))"
  by (simp add: pde_at_def)

lemma of_nat_index_eq: "k < 1024 \<Longrightarrow> unat i < 1024 \<Longrightarrow> (of_nat k :: u32) = i \<longleftrightarrow> k = unat i"
  using unat_of_index [of k] by auto

text \<open>The two indices together are the page number of a virtual address.\<close>

lemma page_eq_iff:
  "pd_index v = pd_index w \<and> pt_index v = pt_index w \<longleftrightarrow> drop_bit 12 v = drop_bit 12 w"
proof
  assume *: "pd_index v = pd_index w \<and> pt_index v = pt_index w"
  have split: "drop_bit 12 x = push_bit 10 (pd_index x) OR pt_index x" for x :: u32
  proof (rule bit_word_eqI)
    fix n assume "n < LENGTH(32)"
    have "bit (0x3FF :: u32) n \<longleftrightarrow> n < 10"
      using bit_mask_iff [where 'a = "32 word", of 10 n] by (auto simp: mask_eq_exp_minus_1)
    then show "bit (drop_bit 12 x) n = bit (push_bit 10 (pd_index x) OR pt_index x) n"
      using \<open>n < LENGTH(32)\<close> by (cases "n < 10") (auto simp: pd_index_def pt_index_def bit_simps)
  qed
  show "drop_bit 12 v = drop_bit 12 w" using * by (simp add: split)
next
  assume *: "drop_bit 12 v = drop_bit 12 w"
  have "drop_bit 22 x = drop_bit 10 (drop_bit 12 x)" for x :: u32 by simp
  then show "pd_index v = pd_index w \<and> pt_index v = pt_index w"
    using * by (simp only: pd_index_def pt_index_def)
qed

section \<open>Tables in memory\<close>

lemma fill_table_Suc:
  "fill_table (Suc n) tbl f m = (fill_table n tbl f m)(slot_addr tbl (of_nat n) := f n)"
  by (simp add: fill_table_def)

lemma fill_table_in:
  "page_aligned tbl \<Longrightarrow> n \<le> 1024 \<Longrightarrow> k < n \<Longrightarrow> fill_table n tbl f m (slot_addr tbl (of_nat k)) = f k"
proof (induction n)
  case (Suc n)
  then have "slot_addr tbl (of_nat k) = slot_addr tbl (of_nat n) \<longleftrightarrow> k = n"
    by (subst slot_addr_inj) (simp_all add: unat_of_index of_nat_index_eq)
  with Suc show ?case by (auto simp: fill_table_Suc less_Suc_eq)
qed simp

lemma fill_table_out:
  "\<forall>k < n. a \<noteq> slot_addr tbl (of_nat k) \<Longrightarrow> fill_table n tbl f m a = m a"
  by (induction n) (simp_all add: fill_table_Suc fill_table_def)

lemma fill_table_index:
  "page_aligned tbl \<Longrightarrow> unat i < 1024 \<Longrightarrow> fill_table 1024 tbl f m (slot_addr tbl i) = f (unat i)"
  using fill_table_in [of tbl 1024 "unat i" f m] by simp

lemma fill_table_other:
  "page_aligned tbl \<Longrightarrow> page_aligned t \<Longrightarrow> t \<noteq> tbl \<Longrightarrow> unat i < 1024 \<Longrightarrow>
   fill_table 1024 tbl f m (slot_addr t i) = m (slot_addr t i)"
  by (rule fill_table_out) (simp add: slot_addr_inj unat_of_index)

lemma pmm_alloc_pmem [simp]: "pmem (snd (pmm_alloc s)) = pmem s"
  by (simp add: pmm_alloc_def pmm_set_def split: option.split)

lemma pmm_inv_pmem [simp]: "pmm_inv (s\<lparr>pmem := m\<rparr>) = pmm_inv s"
  by (simp add: pmm_inv_def pmm_test_def)

lemma pmm_used_pmem [simp]: "pmm_used (s\<lparr>pmem := m\<rparr>) = pmm_used s"
  by (simp add: pmm_used_def)

lemma pmm_alloc_frame:
  assumes "pmm_inv s" and "pmm_alloc s = (a, s')" and "a \<noteq> 0"
  shows "page_aligned a" and "page_num a \<notin> pmm_used s"
    and "pmm_used s' = insert (page_num a) (pmm_used s)" and "pmm_inv s'" and "pmem s' = pmem s"
proof -
  have "pmm_alloc_page s = (Some (page_num a), s')"
    using assms(2,3) by (simp add: pmm_alloc_page_def page_num_def)
  note * = pmm.alloc_some [OF assms(1) this]
  show "page_aligned a"
    using assms(1)
  proof (cases rule: pmm_alloc_cases)
    case (some i)
    moreover have "i < 2 ^ 20" using some(2) assms(1) by (simp add: pmm_inv_def)
    ultimately show ?thesis using assms(2) unat_page_addr [of i] by (auto simp: page_aligned_iff)
  qed (use assms in simp)
  from * show "page_num a \<notin> pmm_used s"
    and "pmm_used s' = insert (page_num a) (pmm_used s)" and "pmm_inv s'" by auto
  show "pmem s' = pmem s" using assms(2) pmm_alloc_pmem [of s] by simp
qed

lemma present_bit: "present e \<longleftrightarrow> bit e 0"
proof -
  have "present e \<longleftrightarrow> odd e" by (simp add: present_def and_one_eq mod_2_eq_odd)
  then show ?thesis by (simp add: bit_0)
qed

lemma present_2 [simp]: "\<not> present 2"
  by (simp add: present_def)

lemma present_entry [simp]: "present (pt OR 3)"
  by (simp add: present_bit bit_simps)

lemma frame_entry: "page_aligned pt \<Longrightarrow> frame_of (pt OR 3) = pt"
  using frame_of_aligned [of pt] by (simp add: frame_of_def bit.conj_disj_distrib2)

lemma present_pte [simp]: "present (frame_of phys OR (flags AND 0xFFF)) \<longleftrightarrow> present flags"
  by (simp add: present_bit frame_of_def bit_simps)

lemma frame_pte [simp]: "frame_of (frame_of phys OR (flags AND 0xFFF)) = frame_of phys"
proof -
  have "flags AND 0xFFF AND NOT 0xFFF = 0" by (rule bit_word_eqI) (auto simp: bit_simps)
  then show ?thesis
    unfolding frame_of_def by (simp only: bit.conj_disj_distrib2 and.assoc and.idem) simp
qed

section \<open>Creating a table\<close>

text \<open>
  Both \<^verbatim>\<open>map_page_in_dir\<close> and \<^verbatim>\<open>paging_init\<close> hang a freshly allocated table with given entries
  into slot \<open>k\<close> of a directory.
\<close>

definition add_table :: "u32 \<Rightarrow> u32 \<Rightarrow> (nat \<Rightarrow> u32) \<Rightarrow> 'a kmem_scheme \<Rightarrow> 'a kmem_scheme" where
  "add_table pd k f s =
     (case pmm_alloc s of (pt, s1) \<Rightarrow>
        s1\<lparr>pmem := (fill_table 1024 pt f (pmem s1))(slot_addr pd k := pt OR 3)\<rparr>)"

lemma ensure_table_eq:
  "ensure_table pd virt s =
     (if present (pmem s (slot_addr pd (pd_index virt))) then s
      else add_table pd (pd_index virt) (\<lambda>_. 2) s)"
  by (simp add: ensure_table_def add_table_def)

text \<open>The directory, its tables and a fresh table are different pages.\<close>

lemma dir_inv_fresh:
  assumes "dir_inv pd s" and "page_num pt \<notin> pmm_used s"
  shows "pt \<noteq> pd" and "i < 1024 \<Longrightarrow> present (pde_at pd i s) \<Longrightarrow> frame_of (pde_at pd i s) \<noteq> pt"
  using assms by (auto simp: dir_inv_def)

lemma dir_inv_table:
  assumes "dir_inv pd s" and "present (pmem s (slot_addr pd (pd_index v)))"
  shows "frame_of (pmem s (slot_addr pd (pd_index v))) \<noteq> pd"
  using assms pd_index_lt [of v] unfolding dir_inv_def pde_at_index [symmetric] by blast

lemma dir_inv_tables_inj:
  assumes "dir_inv pd s" and "present (pmem s (slot_addr pd (pd_index v)))"
    and "present (pmem s (slot_addr pd (pd_index w)))"
  shows "frame_of (pmem s (slot_addr pd (pd_index v))) = frame_of (pmem s (slot_addr pd (pd_index w)))
    \<longleftrightarrow> pd_index v = pd_index w"
  using assms pd_index_lt [of v] pd_index_lt [of w] unfolding dir_inv_def pde_at_index [symmetric]
  by (metis word_unat_eq_iff)

lemma add_table_pmm:
  assumes "pmm_inv s" and "pmm_alloc s = (pt, s1)" and "pt \<noteq> 0"
  shows "pmem (add_table pd k f s) = (fill_table 1024 pt f (pmem s))(slot_addr pd k := pt OR 3)"
    and "pmm_inv (add_table pd k f s)"
    and "pmm_used (add_table pd k f s) = insert (page_num pt) (pmm_used s)"
  using assms(2) pmm_alloc_frame(3-5) [OF assms] by (simp_all add: add_table_def)

lemma pde_at_add_table:
  assumes "dir_inv pd s" and "pmm_alloc s = (pt, s1)" and "pt \<noteq> 0" and "unat k < 1024" and "i < 1024"
  shows "pde_at pd i (add_table pd k f s) = (if i = unat k then pt OR 3 else pde_at pd i s)"
proof -
  have inv: "pmm_inv s" and pd: "page_aligned pd" using assms(1) by (auto simp: dir_inv_def)
  note pt = pmm_alloc_frame(1,2) [OF inv assms(2,3)]
  note ne = dir_inv_fresh(1) [OF assms(1) pt(2)]
  have "slot_addr pd (of_nat i) = slot_addr pd k \<longleftrightarrow> i = unat k"
    using pd assms(4,5) by (simp add: slot_addr_inj unat_of_index of_nat_index_eq)
  moreover have "fill_table 1024 pt f (pmem s) (slot_addr pd (of_nat i)) = pde_at pd i s"
    using pt(1) pd ne assms(5) by (simp add: fill_table_other unat_of_index pde_at_def)
  ultimately show ?thesis
    by (simp add: pde_at_def [of pd i "add_table pd k f s"] add_table_pmm(1) [OF inv assms(2,3)])
qed

lemma add_table_dir_inv:
  assumes "dir_inv pd s" and "fst (pmm_alloc s) \<noteq> 0" and "unat k < 1024"
  shows "dir_inv pd (add_table pd k f s)"
proof -
  obtain pt s1 where alloc: "pmm_alloc s = (pt, s1)" "pt \<noteq> 0"
    using assms(2) by (cases "pmm_alloc s") auto
  have inv: "pmm_inv s" using assms(1) by (auto simp: dir_inv_def)
  note pt = pmm_alloc_frame(1,2) [OF inv alloc]
  note pde = pde_at_add_table [OF assms(1) alloc assms(3)]
  note used = add_table_pmm(2,3) [OF inv alloc]
  note old = dir_inv_fresh [OF assms(1) pt(2)]
  have "frame_of (pde_at pd i (add_table pd k f s)) =
      (if i = unat k then pt else frame_of (pde_at pd i s))" if "i < 1024" for i
    using pde [OF that] by (simp add: frame_entry [OF pt(1)])
  moreover have "present (pde_at pd i (add_table pd k f s)) \<longleftrightarrow>
      i = unat k \<or> present (pde_at pd i s)" if "i < 1024" for i
    using pde [OF that] by simp
  ultimately show ?thesis
    using assms(1) used old unfolding dir_inv_def by (simp split: if_splits) metis
qed

lemma add_table_translate:
  assumes "dir_inv pd s" and "fst (pmm_alloc s) \<noteq> 0" and "unat k < 1024"
  shows "mmu_translate (pmem (add_table pd k f s)) pd v =
     (if pd_index v = k
      then let e = f (unat (pt_index v)) in if present e then Some (frame_of e OR (v AND 0xFFF)) else None
      else mmu_translate (pmem s) pd v)"
proof -
  obtain pt s1 where alloc: "pmm_alloc s = (pt, s1)" "pt \<noteq> 0"
    using assms(2) by (cases "pmm_alloc s") auto
  have inv: "pmm_inv s" and pd: "page_aligned pd" using assms(1) by (auto simp: dir_inv_def)
  note pt = pmm_alloc_frame(1,2) [OF inv alloc]
  note old = dir_inv_fresh [OF assms(1) pt(2)]
  note mem = add_table_pmm(1) [OF inv alloc]
  have pde: "pmem (add_table pd k f s) (slot_addr pd (pd_index v)) =
      (if pd_index v = k then pt OR 3 else pmem s (slot_addr pd (pd_index v)))"
    using pd pt(1) old(1) assms(3) by (simp add: mem slot_addr_inj pd_index_lt fill_table_other)
  let ?e = "pmem s (slot_addr pd (pd_index v))"
  have "pmem (add_table pd k f s) (slot_addr (frame_of ?e) (pt_index v)) =
      pmem s (slot_addr (frame_of ?e) (pt_index v))" if "present ?e"
    using dir_inv_table [OF assms(1) that] old(2) [of "unat (pd_index v)"] that pd_index_lt [of v]
      pd pt(1) assms(3)
    by (simp add: mem slot_addr_inj pt_index_lt fill_table_other pde_at_index)
  moreover have "pmem (add_table pd k f s) (slot_addr pt (pt_index v)) = f (unat (pt_index v))"
    using pt(1) old(1) pd assms(3)
    by (simp add: mem slot_addr_inj pt_index_lt fill_table_index)
  ultimately show ?thesis
    by (auto simp: mmu_translate_def Let_def pde frame_entry [OF pt(1)])
qed

lemma ensure_table_ok:
  assumes "dir_inv pd s"
    and "present (pmem s (slot_addr pd (pd_index virt))) \<or> fst (pmm_alloc s) \<noteq> 0"
  shows ensure_dir_inv: "dir_inv pd (ensure_table pd virt s)"
    and ensure_table_pde: "present (pmem (ensure_table pd virt s) (slot_addr pd (pd_index virt)))"
    and ensure_translate: "mmu_translate (pmem (ensure_table pd virt s)) pd v = mmu_translate (pmem s) pd v"
proof -
  let ?p = "present (pmem s (slot_addr pd (pd_index virt)))"
  show "dir_inv pd (ensure_table pd virt s)"
    using assms add_table_dir_inv [OF assms(1)] pd_index_lt [of virt] by (auto simp: ensure_table_eq)
  show "present (pmem (ensure_table pd virt s) (slot_addr pd (pd_index virt)))"
  proof (cases ?p)
    case False
    then obtain pt s1 where "pmm_alloc s = (pt, s1)" "pt \<noteq> 0"
      using assms(2) by (cases "pmm_alloc s") auto
    with assms(1) False show ?thesis by (simp add: ensure_table_eq dir_inv_def add_table_pmm)
  qed (simp add: ensure_table_eq)
  show "mmu_translate (pmem (ensure_table pd virt s)) pd v = mmu_translate (pmem s) pd v"
    using assms add_table_translate [OF assms(1), where k = "pd_index virt"] pd_index_lt [of virt]
    by (cases ?p) (auto simp: ensure_table_eq Let_def mmu_translate_def [of "pmem s"])
qed

text \<open>A fresh directory, with no entry present, is well formed and translates nothing.\<close>

lemma empty_dir:
  assumes "pmm_inv s" and "pmm_alloc s = (pd, s1)" and "pd \<noteq> 0"
  shows "dir_inv pd (s1\<lparr>pmem := fill_table 1024 pd (\<lambda>_. 2) m\<rparr>)"
    and "mmu_translate (fill_table 1024 pd (\<lambda>_. 2) m) pd v = None"
proof -
  note pd = pmm_alloc_frame [OF assms]
  have "pde_at pd i (s1\<lparr>pmem := fill_table 1024 pd (\<lambda>_. 2) m\<rparr>) = 2" if "i < 1024" for i
    using pd(1) that by (simp add: pde_at_def fill_table_in)
  then show "dir_inv pd (s1\<lparr>pmem := fill_table 1024 pd (\<lambda>_. 2) m\<rparr>)"
    using pd unfolding dir_inv_def by simp
  show "mmu_translate (fill_table 1024 pd (\<lambda>_. 2) m) pd v = None"
    using pd(1) by (simp add: mmu_translate_def fill_table_index pd_index_lt)
qed

section \<open>Writing an entry\<close>

definition set_pte :: "u32 \<Rightarrow> u32 \<Rightarrow> u32 \<Rightarrow> 'a kmem_scheme \<Rightarrow> 'a kmem_scheme" where
  "set_pte pd virt e s =
     s\<lparr>pmem := (pmem s)(slot_addr (frame_of (pmem s (slot_addr pd (pd_index virt)))) (pt_index virt) := e)\<rparr>"

lemma map_page_in_dir_set:
  "map_page_in_dir pd virt phys flags s =
     set_pte pd virt (frame_of phys OR (flags AND 0xFFF)) (ensure_table pd virt s)"
  by (simp add: map_page_in_dir_def set_pte_def Let_def)

lemma unmap_page_set:
  "present (pmem s (slot_addr (cr3 s) (pd_index virt))) \<Longrightarrow> unmap_page virt s = set_pte (cr3 s) virt 2 s"
  by (simp add: unmap_page_def set_pte_def Let_def)

lemma set_pte_pde:
  assumes "dir_inv pd s" and "present (pmem s (slot_addr pd (pd_index virt)))" and "unat i < 1024"
  shows "pmem (set_pte pd virt e s) (slot_addr pd i) = pmem s (slot_addr pd i)"
  using assms dir_inv_table [OF assms(1,2)]
  by (auto simp: set_pte_def slot_addr_inj pt_index_lt dir_inv_def)

lemma set_pte_dir_inv:
  assumes "dir_inv pd s" and "present (pmem s (slot_addr pd (pd_index virt)))"
  shows "dir_inv pd (set_pte pd virt e s)"
proof -
  have "pde_at pd i (set_pte pd virt e s) = pde_at pd i s" if "i < 1024" for i
    using set_pte_pde [OF assms] that by (simp add: pde_at_def unat_of_index)
  moreover have "pmm_inv (set_pte pd virt e s) = pmm_inv s" "pmm_used (set_pte pd virt e s) = pmm_used s"
    by (simp_all add: set_pte_def)
  ultimately show ?thesis using assms(1) unfolding dir_inv_def by simp
qed

lemma set_pte_translate:
  assumes "dir_inv pd s" and "present (pmem s (slot_addr pd (pd_index virt)))"
  shows "mmu_translate (pmem (set_pte pd virt e s)) pd v =
     (if drop_bit 12 v = drop_bit 12 virt
      then (if present e then Some (frame_of e OR (v AND 0xFFF)) else None)
      else mmu_translate (pmem s) pd v)"
proof -
  let ?e = "pmem s (slot_addr pd (pd_index v))"
  have "pmem (set_pte pd virt e s) (slot_addr (frame_of ?e) (pt_index v)) =
     (if drop_bit 12 v = drop_bit 12 virt then e else pmem s (slot_addr (frame_of ?e) (pt_index v)))"
    if "present ?e"
    using dir_inv_tables_inj [OF assms(1) that assms(2)]
    by (simp add: set_pte_def slot_addr_inj pt_index_lt page_eq_iff [symmetric])
  moreover have "present ?e" if "drop_bit 12 v = drop_bit 12 virt"
    using that assms(2) page_eq_iff [of v virt] by simp
  ultimately show ?thesis
    using set_pte_pde [OF assms pd_index_lt [of v]] by (auto simp: mmu_translate_def Let_def)
qed

section \<open>Enabling paging\<close>

text \<open>The entries that \<^verbatim>\<open>paging_init\<close> stores identify virtual and physical pages.\<close>

lemma identity_entry:
  fixes v :: u32
  defines "e \<equiv> of_nat (unat (pd_index v) * 0x400000 + unat (pt_index v) * PAGE_SIZE) :: u32"
  shows "frame_of (e OR 3) OR (v AND 0xFFF) = v"
proof -
  have b10: "bit (0x3FF :: u32) n \<longleftrightarrow> n < 10" for n
    using bit_mask_iff [where 'a = "32 word", of 10 n] by (auto simp: mask_eq_exp_minus_1)
  have b12: "bit (0xFFF :: u32) n \<longleftrightarrow> n < 12" for n
    using bit_mask_iff [where 'a = "32 word", of 12 n] by (auto simp: mask_eq_exp_minus_1)
  have pd: "bit (push_bit 22 (pd_index v)) n \<longleftrightarrow> 22 \<le> n \<and> n < 32 \<and> bit v n" for n
    by (auto simp: pd_index_def bit_push_bit_iff bit_drop_bit_eq)
  have pt: "bit (push_bit 12 (pt_index v)) n \<longleftrightarrow> 12 \<le> n \<and> n < 22 \<and> bit v n" for n
    by (simp only: pt_index_def bit_push_bit_iff bit_drop_bit_eq bit_and_iff b10 possible_bit_word comp_def)
      (auto simp: less_diff_conv2)
  have fr: "bit (frame_of v) n \<longleftrightarrow> 12 \<le> n \<and> n < 32 \<and> bit v n" for n
    using bit_imp_le_length [of v n]
    by (simp only: frame_of_def bit_and_iff bit_not_iff possible_bit_word b12) auto
  have "e = push_bit 22 (pd_index v) + push_bit 12 (pt_index v)"
    by (simp add: e_def push_bit_eq_mult)
  also have "\<dots> = push_bit 22 (pd_index v) OR push_bit 12 (pt_index v)"
    by (rule disjunctive_add) (simp only: pd pt, linarith)
  also have "\<dots> = frame_of v"
    by (rule bit_word_eqI) (simp only: bit_or_iff pd pt fr, auto)
  finally have e: "e = frame_of v" .
  have "frame_of v OR (v AND 0xFFF) = v"
    by (rule bit_word_eqI) (simp only: bit_or_iff bit_and_iff fr b12, auto)
  with e show ?thesis by (simp add: frame_entry)
qed

lemma paging_init_table_eq:
  "paging_init_table tbl s =
     add_table (kernel_page_dir_phys (snd (pmm_alloc s))) (of_nat tbl)
       (\<lambda>i. of_nat (tbl * 0x400000 + i * PAGE_SIZE) OR 3) s"
  by (simp add: paging_init_table_def add_table_def split: prod.split)

lemma pmm_alloc_kdir [simp]: "kernel_page_dir_phys (snd (pmm_alloc s)) = kernel_page_dir_phys s"
  by (simp add: pmm_alloc_def pmm_set_def split: option.split)

lemma add_table_kdir [simp]: "kernel_page_dir_phys (add_table pd k f s) = kernel_page_dir_phys s"
  using pmm_alloc_kdir [of s] by (cases "pmm_alloc s") (simp add: add_table_def del: pmm_alloc_kdir)

lemma pmm_alloc_pmem_cong:
  "fst (pmm_alloc (s\<lparr>pmem := m\<rparr>)) = fst (pmm_alloc s)"
  by (simp add: pmm_alloc_def pmm_set_def split: option.split)

text \<open>Adding the table of slot \<open>t\<close> identity maps the 4 MB of that slot.\<close>

lemma identity_table:
  assumes "dir_inv (kernel_page_dir_phys s) s" and "fst (pmm_alloc s) \<noteq> 0" and "t < 1024"
  shows "dir_inv (kernel_page_dir_phys s) (paging_init_table t s)"
    and "mmu_translate (pmem (paging_init_table t s)) (kernel_page_dir_phys s) v =
      (if unat (pd_index v) = t then Some v else mmu_translate (pmem s) (kernel_page_dir_phys s) v)"
proof -
  let ?k = "of_nat t :: u32"
  have k: "unat ?k = t" "unat ?k < 1024" using assms(3) by (simp_all add: unat_of_index)
  show "dir_inv (kernel_page_dir_phys s) (paging_init_table t s)"
    using add_table_dir_inv [OF assms(1,2) k(2)] by (simp add: paging_init_table_eq)
  have "pd_index v = ?k \<longleftrightarrow> unat (pd_index v) = t" using k(1) by (metis word_unat_eq_iff)
  then show "mmu_translate (pmem (paging_init_table t s)) (kernel_page_dir_phys s) v =
      (if unat (pd_index v) = t then Some v else mmu_translate (pmem s) (kernel_page_dir_phys s) v)"
    using add_table_translate [OF assms(1,2) k(2), of _ v] identity_entry [of v]
    by (auto simp: paging_init_table_eq Let_def)
qed

lemma pd_index_less_iff: "unat (pd_index v) < n \<longleftrightarrow> unat v < n * 0x400000"
  by (simp add: pd_index_def unat_drop_bit_eq drop_bit_nat_def div_less_iff_less_mult)

definition free_pages :: "'a kmem_scheme \<Rightarrow> nat" where
  "free_pages s = card ({1..<pmm_max_page s} - pmm_used s)"

lemma pmm_alloc_room:
  assumes "pmm_inv s" and "Suc n \<le> free_pages s"
  obtains a s' where "pmm_alloc s = (a, s')" and "a \<noteq> 0" and "pmm_inv s'" and "n \<le> free_pages s'"
proof -
  obtain b s' where b: "pmm_alloc_page s = (Some b, s')" "pmm_inv s'" "n \<le> free_pages s'"
    using pmm.alloc_room [OF assms(1) assms(2) [unfolded free_pages_def]] unfolding free_pages_def by metis
  from b(1) obtain a where "pmm_alloc s = (a, s')" "a \<noteq> 0"
    by (cases "pmm_alloc s") (auto simp: pmm_alloc_page_def split: if_splits)
  with b that show thesis by blast
qed

lemma free_pages_pmem [simp]: "free_pages (s\<lparr>pmem := m\<rparr>) = free_pages s"
  "free_pages (s\<lparr>kernel_page_dir_phys := p\<rparr>) = free_pages s"
  by (simp_all add: free_pages_def pmm_used_def)

lemma dir_inv_cong:
  "dir_inv pd (s\<lparr>kernel_page_dir_phys := p\<rparr>) = dir_inv pd s"
  "dir_inv pd (s\<lparr>cr3 := p, paging_on := b\<rparr>) = dir_inv pd s"
  "dir_inv pd (log_write l m s) = dir_inv pd s"
  by (simp_all add: dir_inv_def pmm_inv_def pmm_test_def pmm_used_def pde_at_def)

lemma paging_init_table_room:
  assumes "pmm_inv s" and "Suc n \<le> free_pages s"
  shows "fst (pmm_alloc s) \<noteq> 0" and "n \<le> free_pages (paging_init_table t s)"
    and "kernel_page_dir_phys (paging_init_table t s) = kernel_page_dir_phys s"
proof -
  obtain a s' where a: "pmm_alloc s = (a, s')" "a \<noteq> 0" "n \<le> free_pages s'"
    using pmm_alloc_room [OF assms] by metis
  then show "fst (pmm_alloc s) \<noteq> 0" and "n \<le> free_pages (paging_init_table t s)"
    by (simp_all add: paging_init_table_def)
  show "kernel_page_dir_phys (paging_init_table t s) = kernel_page_dir_phys s"
    by (simp add: paging_init_table_eq)
qed

lemma paging_init_ok:
  assumes "pmm_inv s" and "3 \<le> free_pages s"
  shows "paging_on (paging_init s) \<and> cr3 (paging_init s) = kernel_page_dir_phys (paging_init s) \<and>
    dir_inv (cr3 (paging_init s)) (paging_init s) \<and>
    mmu_translate (pmem (paging_init s)) (cr3 (paging_init s)) v =
      (if unat v < 8 * 1024 * 1024 then Some v else None)"
proof -
  obtain pd s1 where a: "pmm_alloc s = (pd, s1)" "pd \<noteq> 0" "pmm_inv s1" "2 \<le> free_pages s1"
    using pmm_alloc_room [OF assms(1), of 2] assms(2) by auto
  define s2 where "s2 = s1\<lparr>kernel_page_dir_phys := pd, pmem := fill_table 1024 pd (\<lambda>_. 2) (pmem s1)\<rparr>"
  define s3 where "s3 = paging_init_table 0 s2"
  define s4 where "s4 = paging_init_table 1 s3"
  have k2: "kernel_page_dir_phys s2 = pd" by (simp add: s2_def)
  have s2_eq: "s2 = (s1\<lparr>pmem := fill_table 1024 pd (\<lambda>_. 2) (pmem s1)\<rparr>)\<lparr>kernel_page_dir_phys := pd\<rparr>"
    by (simp add: s2_def)
  have d2: "dir_inv pd s2"
    unfolding s2_eq dir_inv_cong(1) by (rule empty_dir [OF assms(1) a(1,2)])
  have t2: "mmu_translate (pmem s2) pd v = None"
    using empty_dir(2) [OF assms(1) a(1,2)] by (simp add: s2_def)
  have f2: "Suc 1 \<le> free_pages s2" using a(4) by (simp add: s2_def)
  have r2: "fst (pmm_alloc s2) \<noteq> 0" "Suc 0 \<le> free_pages s3" "kernel_page_dir_phys s3 = pd"
    using paging_init_table_room [OF _ f2] d2 k2 by (auto simp: dir_inv_def s3_def)
  have i2: "dir_inv pd s3" "mmu_translate (pmem s3) pd v = (if unat (pd_index v) = 0 then Some v else None)"
    using identity_table [of s2 0] d2 k2 r2(1) t2 by (simp_all add: s3_def)
  have r3: "fst (pmm_alloc s3) \<noteq> 0" "kernel_page_dir_phys s4 = pd"
    using paging_init_table_room [OF _ r2(2)] r2(3) i2(1) by (auto simp: dir_inv_def s4_def)
  have i3: "dir_inv pd s4" "mmu_translate (pmem s4) pd v =
      (if unat (pd_index v) = 1 then Some v else mmu_translate (pmem s3) pd v)"
    using identity_table [of s3 1] i2(1) r2(3) r3(1) by (simp_all add: s4_def)
  have "paging_init s = log_write LOG_LEVEL_INFO (cs ''Paging: enabled, 8MB identity mapped'')
      (s4\<lparr>cr3 := pd, paging_on := True\<rparr>)"
    using a(1) r3(2) by (simp add: paging_init_def Let_def s2_def s3_def s4_def upt_rec)
  moreover have "unat v < 8 * 1024 * 1024 \<longleftrightarrow> unat (pd_index v) = 0 \<or> unat (pd_index v) = 1"
    using pd_index_less_iff [of v 2] by auto
  ultimately show ?thesis using i2 i3 t2 r3(2) by (simp add: dir_inv_cong)
qed

text \<open>
  A concrete boot: 2 MB of memory and a kernel that ends at 1 MB, so that the pages from 256 on
  are free.
\<close>

abbreviation boot_kmem :: kmem where
  "boot_kmem \<equiv> pmm_init 2097152 1048576 bss_kmem"

lemma free_pages_boot: "200 \<le> free_pages boot_kmem"
proof -
  have max: "pmm_max_page boot_kmem = 512" by (simp add: pmm_init_fields)
  have "kernel_pages_of 1048576 512 \<le> 257" by (simp add: kernel_pages_of_def)
  then have "{257..<512} \<subseteq> {1..<pmm_max_page boot_kmem} - pmm_used boot_kmem"
    using max by (auto simp: pmm_used_def bm_used_def pmm_init_bitmap)
  then have "card {257..<512::nat} \<le> free_pages boot_kmem"
    unfolding free_pages_def by (intro card_mono) auto
  then show ?thesis by simp
qed

lemma free_pages_boot3: "3 \<le> free_pages boot_kmem"
  using free_pages_boot by linarith

lemma boot_translate:
  "mmu_translate (pmem (paging_init boot_kmem)) (cr3 (paging_init boot_kmem)) v =
     (if unat v < 8 * 1024 * 1024 then Some v else None)"
  and boot_dir_inv: "dir_inv (cr3 (paging_init boot_kmem)) (paging_init boot_kmem)"
  using paging_init_ok [OF pmm_init_inv free_pages_boot3] by blast+

lemma translate_present:
  "mmu_translate m pd v \<noteq> None \<Longrightarrow> present (m (slot_addr pd (pd_index v)))"
  by (auto simp: mmu_translate_def Let_def split: if_splits)

section \<open>Properties\<close>

text \<open>
  C10: mapping a page.  For a well-formed directory, unless a new table is needed and no page is
  left, \<^verbatim>\<open>map_page_in_dir\<close> with the present flag keeps the directory well formed; afterwards the
  processor translates exactly the addresses of that virtual page to the given frame, and every
  other address as before.
\<close>

theorem map_page_in_dir_translates:
  assumes "dir_inv pd s" and "present flags"
    and "present (pmem s (slot_addr pd (pd_index virt))) \<or> fst (pmm_alloc s) \<noteq> 0"
  shows "dir_inv pd (map_page_in_dir pd virt phys flags s) \<and>
    mmu_translate (pmem (map_page_in_dir pd virt phys flags s)) pd v =
      (if drop_bit 12 v = drop_bit 12 virt then Some (frame_of phys OR (v AND 0xFFF))
       else mmu_translate (pmem s) pd v)"
  using assms(2) ensure_table_ok [OF assms(1,3)]
  by (simp add: map_page_in_dir_set set_pte_dir_inv set_pte_translate)

theorem map_page_in_dir_translates_witness:
  "mmu_translate (pmem (map_page_in_dir (cr3 (paging_init boot_kmem)) 0x1000 0x7000 3 (paging_init boot_kmem)))
     (cr3 (paging_init boot_kmem)) 0x1234 = Some 0x7234 \<and>
   mmu_translate (pmem (map_page_in_dir (cr3 (paging_init boot_kmem)) 0x1000 0x7000 3 (paging_init boot_kmem)))
     (cr3 (paging_init boot_kmem)) 0x2234 = Some 0x2234"
proof -
  let ?s = "paging_init boot_kmem"
  have "present (pmem ?s (slot_addr (cr3 ?s) (pd_index 0x1000)))"
    by (rule translate_present) (simp add: boot_translate)
  moreover have "present 3" by (simp add: present_bit)
  ultimately show ?thesis
    using map_page_in_dir_translates [OF boot_dir_inv, where virt = "0x1000" and phys = "0x7000" and v = "0x1234"]
      map_page_in_dir_translates [OF boot_dir_inv, where virt = "0x1000" and phys = "0x7000" and v = "0x2234"]
    by (simp add: boot_translate frame_of_def)
qed

text \<open>
  Unmapping a page.  \<^verbatim>\<open>unmap_page\<close> keeps the current directory well formed and makes
  exactly the addresses of the given page untranslated.
\<close>

theorem unmap_page_translates:
  assumes "dir_inv (cr3 s) s"
  shows "dir_inv (cr3 s) (unmap_page virt s) \<and>
    mmu_translate (pmem (unmap_page virt s)) (cr3 s) v =
      (if drop_bit 12 v = drop_bit 12 virt then None else mmu_translate (pmem s) (cr3 s) v)"
proof (cases "present (pmem s (slot_addr (cr3 s) (pd_index virt)))")
  case True
  then show ?thesis
    using assms by (simp add: unmap_page_set set_pte_dir_inv set_pte_translate)
next
  case False
  then show ?thesis
    using assms page_eq_iff [of v virt] by (auto simp: unmap_page_def mmu_translate_def Let_def)
qed

theorem unmap_page_translates_witness:
  "mmu_translate (pmem (unmap_page 0x1000 (paging_init boot_kmem))) (cr3 (paging_init boot_kmem)) 0x1234 = None \<and>
   mmu_translate (pmem (unmap_page 0x1000 (paging_init boot_kmem))) (cr3 (paging_init boot_kmem)) 0x2234 = Some 0x2234"
  using unmap_page_translates [OF boot_dir_inv, where virt = "0x1000" and v = "0x1234"]
    unmap_page_translates [OF boot_dir_inv, where virt = "0x1000" and v = "0x2234"]
  by (simp add: boot_translate)

text \<open>
  \<^verbatim>\<open>paging_init\<close>.  With at least three free pages the kernel directory that it loads into
  \<^verbatim>\<open>cr3\<close> is well formed, and the processor then translates every address of the first 8 MB to
  itself and no other address.
\<close>

theorem paging_init_identity:
  assumes "pmm_inv s" and "3 \<le> free_pages s"
  shows "paging_on (paging_init s) \<and> cr3 (paging_init s) = get_kernel_page_dir (paging_init s) \<and>
    dir_inv (cr3 (paging_init s)) (paging_init s) \<and>
    (\<forall>v. mmu_translate (pmem (paging_init s)) (cr3 (paging_init s)) v =
      (if unat v < 8 * 1024 * 1024 then Some v else None))"
  unfolding get_kernel_page_dir_def using paging_init_ok [OF assms] by blast

theorem paging_init_identity_witness:
  "mmu_translate (pmem (paging_init boot_kmem)) (cr3 (paging_init boot_kmem)) 0xB8000 = Some 0xB8000"
proof -
  have "mmu_translate (pmem (paging_init boot_kmem)) (cr3 (paging_init boot_kmem)) v =
      (if unat v < 8 * 1024 * 1024 then Some v else None)" for v
    using paging_init_identity [OF pmm_init_inv free_pages_boot3] by blast
  then show ?thesis by simp
qed

end
