(* ===== verification/Hexa_Memory.thy ===== *)
theory Hexa_Memory
  imports Hexa_Prelude
begin

text \<open>
  Byte-addressed memory of a 32-bit address space, and the 32-bit loads and stores through a
  pointer (little endian, address arithmetic modulo \<open>2 ^ 32\<close>).
\<close>

type_synonym mem = "u32 \<Rightarrow> u8"

definition rd32 :: "mem \<Rightarrow> u32 \<Rightarrow> u32" where
  "rd32 m a = de32 [m a, m (a + 1), m (a + 2), m (a + 3)]"

definition wr32 :: "u32 \<Rightarrow> u32 \<Rightarrow> mem \<Rightarrow> mem" where
  "wr32 a v m =
     m(a := ucast v, a + 1 := ucast (drop_bit 8 v), a + 2 := ucast (drop_bit 16 v),
       a + 3 := ucast (drop_bit 24 v))"

lemma rd32_wr32_same [simp]: "rd32 (wr32 a v m) a = v"
proof -
  have "rd32 (wr32 a v m) a = de32 (le32 v)" by (simp add: rd32_def wr32_def le32_def)
  then show ?thesis by simp
qed

text \<open>A store changes the four bytes at its address only.\<close>

lemma wr32_other: "4 \<le> unat (b - a) \<Longrightarrow> wr32 a v m b = m b"
proof -
  assume "4 \<le> unat (b - a)"
  then have "b - a \<noteq> 0" "b - a \<noteq> 1" "b - a \<noteq> 2" "b - a \<noteq> 3" by auto
  then have "b \<noteq> a" "b \<noteq> a + 1" "b \<noteq> a + 2" "b \<noteq> a + 3" by (auto simp: algebra_simps)
  then show ?thesis by (simp add: wr32_def)
qed

text \<open>In terms of natural-number addresses, where no block wraps around.\<close>

lemma unat_diff_addr:
  assumes "p < 2 ^ 32" and "q < 2 ^ 32"
  shows "unat (of_nat q - of_nat p :: u32) = (if p \<le> q then q - p else 2 ^ 32 + q - p)"
proof (cases "p \<le> q")
  case True
  then have "(of_nat q - of_nat p :: u32) = of_nat (q - p)" by simp
  with True assms show ?thesis using word_of_nat_less_eq [of "q - p", where 'a = 32] by simp
next
  case False
  have "(of_nat (2 ^ 32 + q - p) :: u32) = of_nat (2 ^ 32 + q) - of_nat p"
    using assms by (intro of_nat_diff) simp
  also have "(of_nat (2 ^ 32 + q) :: u32) = of_nat q"
    using word_exp_length_eq_0 [where 'a = 32] by (simp only: of_nat_add of_nat_power of_nat_numeral) simp
  finally show ?thesis
    using False assms word_of_nat_less_eq [of "2 ^ 32 + q - p", where 'a = 32] by simp
qed

lemma wr32_out:
  assumes "p + 4 \<le> 2 ^ 32" and "q < 2 ^ 32" and "q < p \<or> p + 4 \<le> q"
  shows "wr32 (of_nat p) v m (of_nat q) = m (of_nat q)"
  using assms unat_diff_addr [of p q] by (intro wr32_other) (auto split: if_splits)

lemma rd32_cong:
  assumes "\<And>k. k < 4 \<Longrightarrow> m (of_nat (p + k)) = m' (of_nat (p + k))"
  shows "rd32 m (of_nat p) = rd32 m' (of_nat p)"
  using assms [of 0] assms [of 1] assms [of 2] assms [of 3] by (simp add: rd32_def add.commute)

lemma rd32_wr32_other:
  assumes "p + 4 \<le> 2 ^ 32" and "q + 4 \<le> 2 ^ 32" and "q + 4 \<le> p \<or> p + 4 \<le> q"
  shows "rd32 (wr32 (of_nat p) v m) (of_nat q) = rd32 m (of_nat q)"
  by (rule rd32_cong, rule wr32_out) (use assms in auto)

end
