(* ===== verification/Hexa_Heap.thy ===== *)
theory Hexa_Heap
  imports Hexa_Paging Hexa_Memory
begin

text \<open>
  The kernel heap (\<^verbatim>\<open>paging.c\<close>: \<^verbatim>\<open>kheap_init\<close>, \<^verbatim>\<open>kmalloc\<close>, \<^verbatim>\<open>kfree\<close>, \<^verbatim>\<open>krealloc\<close>).  The arena is byte
  memory, \<open>vmem\<close>, indexed by virtual address; block headers \<^verbatim>\<open>{size, free, next}\<close> live in it and are
  reached through pointers, as in the code, so that a write through a wrong pointer would damage
  headers or data.  The walks along the chain may not end on a damaged heap; they are partial
  functions, and the lemmas show that they return on a well-formed heap.

  \<open>heap_rep bs s\<close> relates a state to the list of its blocks (size and free flag, in address order);
  \<open>h_alloc\<close> and \<open>h_free\<close> are first fit and coalescing on such lists.  The heap operations are shown
  to refine them.
\<close>

section \<open>State and operations\<close>

record kheap = kmem +
  heap_first :: u32
  heap_phys_start :: u32
  heap_phys_end :: u32
  vmem :: mem

abbreviation HEAP_START :: u32 where "HEAP_START \<equiv> 0x00800000"
abbreviation HEAP_INIT_SIZE :: u32 where "HEAP_INIT_SIZE \<equiv> 0x100000"
abbreviation HB_SIZE :: u32 where "HB_SIZE \<equiv> 12"

text \<open>The fields of a \<^verbatim>\<open>heap_block_t\<close> at an address.\<close>

definition hb_size :: "mem \<Rightarrow> u32 \<Rightarrow> u32" where "hb_size m p = rd32 m p"
definition hb_free :: "mem \<Rightarrow> u32 \<Rightarrow> u32" where "hb_free m p = rd32 m (p + 4)"
definition hb_next :: "mem \<Rightarrow> u32 \<Rightarrow> u32" where "hb_next m p = rd32 m (p + 8)"
definition set_size :: "u32 \<Rightarrow> u32 \<Rightarrow> mem \<Rightarrow> mem" where "set_size p v m = wr32 p v m"
definition set_free :: "u32 \<Rightarrow> u32 \<Rightarrow> mem \<Rightarrow> mem" where "set_free p v m = wr32 (p + 4) v m"
definition set_next :: "u32 \<Rightarrow> u32 \<Rightarrow> mem \<Rightarrow> mem" where "set_next p v m = wr32 (p + 8) v m"

definition map_heap_page :: "u32 \<Rightarrow> 'a kmem_scheme \<Rightarrow> 'a kmem_scheme" where
  "map_heap_page addr s =
     (let pd = cr3 s;
          s1 = ensure_table pd addr s;
          pt = frame_of (pmem s1 (slot_addr pd (pd_index addr)))
      in if \<not> present (pmem s1 (slot_addr pt (pt_index addr)))
         then (case pmm_alloc s1 of (phys, s2) \<Rightarrow>
                 if phys \<noteq> 0 then s2\<lparr>pmem := (pmem s2)(slot_addr pt (pt_index addr) := phys OR 3)\<rparr> else s2)
         else s1)"

definition kheap_init :: "'a kheap_scheme \<Rightarrow> 'a kheap_scheme" where
  "kheap_init s =
     (let s = s\<lparr>heap_phys_start := HEAP_START, heap_phys_end := HEAP_START + HEAP_INIT_SIZE\<rparr>;
          s = fold (\<lambda>i. map_heap_page (HEAP_START + of_nat i * of_nat PAGE_SIZE)) [0..<256] s;
          s = s\<lparr>cr3 := get_kernel_page_dir s\<rparr>;
          s = s\<lparr>heap_first := HEAP_START\<rparr>;
          m = set_size (heap_first s) (HEAP_INIT_SIZE - HB_SIZE) (vmem s);
          m = set_free (heap_first s) 1 m;
          m = set_next (heap_first s) 0 m
      in log_write LOG_LEVEL_INFO (cs ''Kheap: initialized at 8MB'') (s\<lparr>vmem := m\<rparr>))"

text \<open>Taking a block: split off the remainder if it can hold a header and more than four bytes.\<close>

definition kmalloc_take :: "u32 \<Rightarrow> u32 \<Rightarrow> mem \<Rightarrow> mem" where
  "kmalloc_take sz cur m =
     (let m = (if hb_size m cur > sz + HB_SIZE + 4
               then let new_block = cur + HB_SIZE + sz;
                        m = set_size new_block (hb_size m cur - sz - HB_SIZE) m;
                        m = set_free new_block 1 m;
                        m = set_next new_block (hb_next m cur) m;
                        m = set_size cur sz m
                    in set_next cur new_block m
               else m)
      in set_free cur 0 m)"

partial_function (option) kmalloc_loop :: "u32 \<Rightarrow> mem \<Rightarrow> u32 \<Rightarrow> (u32 \<times> mem) option" where
  "kmalloc_loop sz m cur =
     (if cur = 0 then Some (0, m)
      else if hb_free m cur \<noteq> 0 \<and> sz \<le> hb_size m cur
      then Some (cur + HB_SIZE, kmalloc_take sz cur m)
      else kmalloc_loop sz m (hb_next m cur))"

definition round4 :: "u32 \<Rightarrow> u32" where
  "round4 sz = (sz + 3) AND NOT 3"

definition kmalloc :: "u32 \<Rightarrow> 'a kheap_scheme \<Rightarrow> (u32 \<times> 'a kheap_scheme) option" where
  "kmalloc sz s =
     (if heap_first s = 0 \<or> sz = 0 then Some (0, s)
      else map_option (\<lambda>(p, m). (p, s\<lparr>vmem := m\<rparr>)) (kmalloc_loop (round4 sz) (vmem s) (heap_first s)))"

text \<open>\<^verbatim>\<open>while (curr && curr->next != block) curr = curr->next;\<close>\<close>

partial_function (option) kfree_prev :: "mem \<Rightarrow> u32 \<Rightarrow> u32 \<Rightarrow> u32 option" where
  "kfree_prev m block cur =
     (if cur = 0 \<or> hb_next m cur = block then Some cur else kfree_prev m block (hb_next m cur))"

definition kfree_next :: "u32 \<Rightarrow> mem \<Rightarrow> mem" where
  "kfree_next block m =
     (let m = set_free block 1 m
      in if hb_next m block \<noteq> 0 \<and> hb_free m (hb_next m block) \<noteq> 0
         then let m = set_size block (hb_size m block + (HB_SIZE + hb_size m (hb_next m block))) m
              in set_next block (hb_next m (hb_next m block)) m
         else m)"

definition kfree :: "u32 \<Rightarrow> 'a kheap_scheme \<Rightarrow> 'a kheap_scheme option" where
  "kfree ptr s =
     (if ptr = 0 then Some s
      else let block = ptr - HB_SIZE;
               m = kfree_next block (vmem s)
           in map_option (\<lambda>cur.
                s\<lparr>vmem := (if cur \<noteq> 0 \<and> hb_free m cur \<noteq> 0
                          then let m = set_size cur (hb_size m cur + (HB_SIZE + hb_size m block)) m
                               in set_next cur (hb_next m block) m
                          else m)\<rparr>)
              (kfree_prev m block (heap_first s)))"

text \<open>\<^verbatim>\<open>for (i = 0; i < block->size; i++) d[i] = s[i];\<close>\<close>

partial_function (option) krealloc_copy :: "u32 \<Rightarrow> u32 \<Rightarrow> u32 \<Rightarrow> u32 \<Rightarrow> mem \<Rightarrow> mem option" where
  "krealloc_copy block d src i m =
     (if i < hb_size m block then krealloc_copy block d src (i + 1) (m(d + i := m (src + i)))
      else Some m)"

definition krealloc :: "u32 \<Rightarrow> u32 \<Rightarrow> 'a kheap_scheme \<Rightarrow> (u32 \<times> 'a kheap_scheme) option" where
  "krealloc ptr sz s =
     (if ptr = 0 then kmalloc sz s
      else let block = ptr - HB_SIZE
           in if sz \<le> hb_size (vmem s) block then Some (ptr, s)
              else (case kmalloc sz s of
                      None \<Rightarrow> None
                    | Some (new_ptr, s) \<Rightarrow>
                        if new_ptr \<noteq> 0
                        then (case krealloc_copy block new_ptr ptr 0 (vmem s) of
                                None \<Rightarrow> None
                              | Some m \<Rightarrow> map_option (\<lambda>s. (new_ptr, s)) (kfree ptr (s\<lparr>vmem := m\<rparr>)))
                        else Some (new_ptr, s)))"

definition bss_kheap :: kheap where
  "bss_kheap = kmem.extend bss_kmem \<lparr>heap_first = 0, heap_phys_start = 0, heap_phys_end = 0, vmem = \<lambda>_. 0\<rparr>"

lemma log_write_kheap [simp]:
  "heap_first (log_write l t s) = heap_first s" "vmem (log_write l t s) = vmem s"
  "heap_phys_start (log_write l t s) = heap_phys_start s" "heap_phys_end (log_write l t s) = heap_phys_end s"
  by (subst log_write_frame, simp)+

section \<open>Header fields\<close>

lemma rd32_wr32_far:
  assumes "4 \<le> unat (b - a)" and "unat (b - a) \<le> 2 ^ 32 - 4"
  shows "rd32 (wr32 a v m) b = rd32 m b"
proof -
  have "b - a = of_nat (unat (b - a))" by simp
  have "4 \<le> unat (b + of_nat k - a)" if "k < 4" for k
  proof -
    have "unat (b + of_nat k - a) = unat ((b - a) + of_nat k)" by (simp add: algebra_simps)
    also have "\<dots> = unat (b - a) + k"
      using assms that by (simp add: unat_word_ariths unsigned_of_nat take_bit_nat_def)
    finally show ?thesis using assms by simp
  qed
  from this [of 0] this [of 1] this [of 2] this [of 3] show ?thesis
    by (simp add: rd32_def wr32_other)
qed

lemmas hb_defs = hb_size_def hb_free_def hb_next_def set_size_def set_free_def set_next_def

lemma hb_same [simp]:
  "hb_size (set_size p v m) p = v" "hb_size (set_free p v m) p = hb_size m p" "hb_size (set_next p v m) p = hb_size m p"
  "hb_free (set_size p v m) p = hb_free m p" "hb_free (set_free p v m) p = v" "hb_free (set_next p v m) p = hb_free m p"
  "hb_next (set_size p v m) p = hb_next m p" "hb_next (set_free p v m) p = hb_next m p" "hb_next (set_next p v m) p = v"
  by (simp_all add: hb_defs rd32_wr32_far)

text \<open>Writing a header at \<open>p\<close> changes the twelve bytes from \<open>p\<close> on only.\<close>

lemma set_out:
  assumes "p + 12 \<le> 2 ^ 32" and "a < 2 ^ 32" and "a < p \<or> p + 12 \<le> a"
  shows "set_size (of_nat p) v m (of_nat a) = m (of_nat a)"
    and "set_free (of_nat p) v m (of_nat a) = m (of_nat a)"
    and "set_next (of_nat p) v m (of_nat a) = m (of_nat a)"
proof -
  have "wr32 (of_nat (p + k)) v m (of_nat a) = m (of_nat a)" if "k \<le> 8" for k
    by (rule wr32_out) (use assms that in auto)
  from this [of 0] this [of 4] this [of 8] show
    "set_size (of_nat p) v m (of_nat a) = m (of_nat a)"
    "set_free (of_nat p) v m (of_nat a) = m (of_nat a)"
    "set_next (of_nat p) v m (of_nat a) = m (of_nat a)"
    by (simp_all add: hb_defs add.commute)
qed

lemma hb_cong:
  assumes "\<And>a. q \<le> a \<Longrightarrow> a < q + 12 \<Longrightarrow> m (of_nat a) = m' (of_nat a)"
  shows "hb_size m (of_nat q) = hb_size m' (of_nat q)" "hb_free m (of_nat q) = hb_free m' (of_nat q)"
    "hb_next m (of_nat q) = hb_next m' (of_nat q)"
proof -
  have "rd32 m (of_nat (q + k)) = rd32 m' (of_nat (q + k))" if "k \<le> 8" for k
    by (rule rd32_cong) (use assms that in \<open>simp del: of_nat_add\<close>)
  from this [of 0] this [of 4] this [of 8] show
    "hb_size m (of_nat q) = hb_size m' (of_nat q)" "hb_free m (of_nat q) = hb_free m' (of_nat q)"
    "hb_next m (of_nat q) = hb_next m' (of_nat q)"
    by (simp_all add: hb_defs add.commute)
qed

lemma hb_other:
  assumes "p + 12 \<le> 2 ^ 32" and "q + 12 \<le> 2 ^ 32" and "p + 12 \<le> q \<or> q + 12 \<le> p"
  shows "hb_size (set_size (of_nat p) v m) (of_nat q) = hb_size m (of_nat q)"
    "hb_size (set_free (of_nat p) v m) (of_nat q) = hb_size m (of_nat q)"
    "hb_size (set_next (of_nat p) v m) (of_nat q) = hb_size m (of_nat q)"
    "hb_free (set_size (of_nat p) v m) (of_nat q) = hb_free m (of_nat q)"
    "hb_free (set_free (of_nat p) v m) (of_nat q) = hb_free m (of_nat q)"
    "hb_free (set_next (of_nat p) v m) (of_nat q) = hb_free m (of_nat q)"
    "hb_next (set_size (of_nat p) v m) (of_nat q) = hb_next m (of_nat q)"
    "hb_next (set_free (of_nat p) v m) (of_nat q) = hb_next m (of_nat q)"
    "hb_next (set_next (of_nat p) v m) (of_nat q) = hb_next m (of_nat q)"
  by (rule hb_cong, rule set_out; use assms in auto)+


section \<open>Blocks of a heap\<close>

type_synonym blk = "nat \<times> bool"

abbreviation HEAP_BASE :: nat where "HEAP_BASE \<equiv> 0x800000"
abbreviation HEAP_END :: nat where "HEAP_END \<equiv> 0x900000"

text \<open>
  \<open>heap_at m p bs\<close>: from address \<open>p\<close> the headers in \<open>m\<close> form a chain of the blocks \<open>bs\<close> that tiles the
  arena up to its end.  \<open>heap_pre m p xs\<close> is the same for a proper prefix of the chain.
\<close>

definition hdr :: "mem \<Rightarrow> nat \<Rightarrow> nat \<Rightarrow> bool \<Rightarrow> nat \<Rightarrow> bool" where
  "hdr m p sz f nx \<longleftrightarrow> unat (hb_size m (of_nat p)) = sz \<and> (hb_free m (of_nat p) \<noteq> 0) = f \<and>
     unat (hb_next m (of_nat p)) = nx"

fun heap_at :: "mem \<Rightarrow> nat \<Rightarrow> blk list \<Rightarrow> bool" where
  "heap_at m p [] \<longleftrightarrow> p = HEAP_END"
| "heap_at m p ((sz, f) # bs) \<longleftrightarrow> p + 12 + sz \<le> HEAP_END \<and> 4 dvd sz \<and>
     hdr m p sz f (if bs = [] then 0 else p + 12 + sz) \<and> heap_at m (p + 12 + sz) bs"

fun heap_pre :: "mem \<Rightarrow> nat \<Rightarrow> blk list \<Rightarrow> bool" where
  "heap_pre m p [] \<longleftrightarrow> True"
| "heap_pre m p ((sz, f) # xs) \<longleftrightarrow> p + 12 + sz \<le> HEAP_END \<and> 4 dvd sz \<and>
     hdr m p sz f (p + 12 + sz) \<and> heap_pre m (p + 12 + sz) xs"

definition span :: "blk list \<Rightarrow> nat" where
  "span xs = (\<Sum>b\<leftarrow>xs. 12 + fst b)"

fun no_adjacent_free :: "blk list \<Rightarrow> bool" where
  "no_adjacent_free (a # b # bs) \<longleftrightarrow> \<not> (snd a \<and> snd b) \<and> no_adjacent_free (b # bs)"
| "no_adjacent_free bs \<longleftrightarrow> True"

definition heap_rep :: "blk list \<Rightarrow> 'a kheap_scheme \<Rightarrow> bool" where
  "heap_rep bs s \<longleftrightarrow> heap_first s = HEAP_START \<and> bs \<noteq> [] \<and> heap_at (vmem s) HEAP_BASE bs \<and>
     no_adjacent_free bs"

text \<open>Addresses of the payload bytes of the blocks in use.\<close>

fun used_bytes :: "nat \<Rightarrow> blk list \<Rightarrow> nat set" where
  "used_bytes p [] = {}"
| "used_bytes p ((sz, f) # bs) = (if f then {} else {p + 12..<p + 12 + sz}) \<union> used_bytes (p + 12 + sz) bs"

text \<open>First fit and coalescing on lists of blocks.\<close>

fun h_alloc :: "nat \<Rightarrow> nat \<Rightarrow> blk list \<Rightarrow> (nat \<times> blk list) option" where
  "h_alloc n p [] = None"
| "h_alloc n p ((sz, f) # bs) =
     (if f \<and> n \<le> sz
      then Some (p + 12, if sz > n + 16 then (n, False) # (sz - n - 12, True) # bs else (sz, False) # bs)
      else map_option (\<lambda>(a, bs'). (a, (sz, f) # bs')) (h_alloc n (p + 12 + sz) bs))"

definition join_next :: "nat \<Rightarrow> blk list \<Rightarrow> blk list" where
  "join_next sz ys =
     (case ys of (sz', True) # ys' \<Rightarrow> (sz + 12 + sz', True) # ys' | _ \<Rightarrow> (sz, True) # ys)"

definition join_prev :: "blk list \<Rightarrow> blk list \<Rightarrow> blk list" where
  "join_prev xs zs =
     (if xs \<noteq> [] \<and> snd (last xs)
      then butlast xs @ (fst (last xs) + 12 + fst (hd zs), True) # tl zs else xs @ zs)"

definition h_free :: "blk list \<Rightarrow> nat \<Rightarrow> blk list \<Rightarrow> blk list" where
  "h_free xs sz ys = join_prev xs (join_next sz ys)"

subsection \<open>Structure\<close>

lemma span_simps [simp]: "span [] = 0" "span ((sz, f) # xs) = 12 + sz + span xs"
  "span (xs @ ys) = span xs + span ys"
  by (simp_all add: span_def)

lemma heap_at_end: "heap_at m p bs \<Longrightarrow> p + span bs = HEAP_END"
  by (induction m p bs rule: heap_at.induct) auto

lemma heap_at_append:
  "ys \<noteq> [] \<Longrightarrow> heap_at m p (xs @ ys) \<longleftrightarrow> heap_pre m p xs \<and> heap_at m (p + span xs) ys"
proof (induction xs arbitrary: p)
  case (Cons b xs)
  then show ?case by (cases b) (auto simp: add.assoc)
qed simp

lemma heap_pre_append: "heap_pre m p (xs @ ys) \<longleftrightarrow> heap_pre m p xs \<and> heap_pre m (p + span xs) ys"
proof (induction xs arbitrary: p)
  case (Cons b xs)
  then show ?case by (cases b) (auto simp: add.assoc)
qed simp

lemma hdr_cong:
  "(\<And>a. p \<le> a \<Longrightarrow> a < p + 12 \<Longrightarrow> m' (of_nat a) = m (of_nat a)) \<Longrightarrow> hdr m' p sz f nx = hdr m p sz f nx"
  using hb_cong [of p m' m] by (simp add: hdr_def)

text \<open>A chain does not change with the bytes in front of it.\<close>

lemma heap_at_cong:
  "heap_at m p bs \<Longrightarrow> (\<And>a. p \<le> a \<Longrightarrow> a < HEAP_END \<Longrightarrow> m' (of_nat a) = m (of_nat a)) \<Longrightarrow> heap_at m' p bs"
proof (induction m p bs rule: heap_at.induct)
  case (2 m p sz f bs)
  have "hdr m' p sz f n = hdr m p sz f n" for n
    by (rule hdr_cong) (use 2 in auto)
  with 2 show ?case by simp
qed simp

lemma heap_pre_cong:
  "heap_pre m p xs \<Longrightarrow> (\<And>a. p \<le> a \<Longrightarrow> a < p + span xs \<Longrightarrow> m' (of_nat a) = m (of_nat a)) \<Longrightarrow> heap_pre m' p xs"
proof (induction m p xs rule: heap_pre.induct)
  case (2 m p sz f bs)
  have "hdr m' p sz f n = hdr m p sz f n" for n
    by (rule hdr_cong) (use 2 in auto)
  with 2 show ?case by simp
qed simp

lemma used_bytes_append: "used_bytes p (xs @ ys) = used_bytes p xs \<union> used_bytes (p + span xs) ys"
proof (induction xs arbitrary: p)
  case (Cons b xs)
  then show ?case by (cases b) (auto simp: add.assoc)
qed simp

lemma used_bytes_range: "used_bytes p xs \<subseteq> {p + 12..<p + span xs}"
  by (induction p xs rule: used_bytes.induct) auto

lemma unat_addr: "p \<le> HEAP_END \<Longrightarrow> unat (of_nat p :: u32) = p"
  by (rule word_of_nat_less_eq) simp


section \<open>Allocation\<close>

lemma split_guard:
  assumes "unat n \<le> unat w" and "unat w \<le> HEAP_END"
  shows "w > n + HB_SIZE + 4 \<longleftrightarrow> unat w > unat n + 16"
proof -
  have "unat (n + HB_SIZE + 4) = 16 + unat n"
    using assms by (simp add: unat_word_ariths)
  then show ?thesis by (simp only: word_less_nat_alt add.commute)
qed

lemma kmalloc_take_out:
  assumes "p + 12 + sz \<le> HEAP_END" and "unat (hb_size m (of_nat p)) = sz" and "unat n \<le> sz"
    and "a < 2 ^ 32" and "a < p \<or> p + 12 + sz \<le> a"
  shows "kmalloc_take n (of_nat p) m (of_nat a) = m (of_nat a)"
proof -
  have nb: "of_nat p + HB_SIZE + n = (of_nat (p + 12 + unat n) :: u32)" by simp
  have gt: "hb_size m (of_nat p) > n + HB_SIZE + 4 \<longleftrightarrow> sz > unat n + 16"
    using assms(1-3) split_guard [of n "hb_size m (of_nat p)"] by simp
  have o1: "p + 12 \<le> 2 ^ 32" "a < p \<or> p + 12 \<le> a" using assms by auto
  have o2: "p + 12 + unat n + 12 \<le> 2 ^ 32" "a < p + 12 + unat n \<or> p + 12 + unat n + 12 \<le> a"
    if "sz > unat n + 16" using assms that by auto
  show ?thesis
    unfolding kmalloc_take_def Let_def nb gt
    using set_out [OF o1(1) assms(4) o1(2)] set_out [OF o2(1) assms(4) o2(2)]
    by (simp del: of_nat_add)
qed

lemma kmalloc_take_rep:
  assumes "heap_at m p ((sz, True) # bs)" and "unat n \<le> sz" and "4 dvd unat n"
  shows "heap_at (kmalloc_take n (of_nat p) m) p
     (if sz > unat n + 16 then (unat n, False) # (sz - unat n - 12, True) # bs
      else (sz, False) # bs)"
proof -
  let ?n = "unat n" and ?q = "p + 12 + unat n" and ?m' = "kmalloc_take n (of_nat p) m"
  let ?nx = "if bs = [] then 0 else p + 12 + sz"
  have h: "p + 12 + sz \<le> HEAP_END" "4 dvd sz" "hdr m p sz True ?nx" "heap_at m (p + 12 + sz) bs"
    using assms(1) by auto
  have nb: "of_nat p + HB_SIZE + n = (of_nat ?q :: u32)" by simp
  have gt: "hb_size m (of_nat p) > n + HB_SIZE + 4 \<longleftrightarrow> sz > ?n + 16"
    using h(1,3) assms(2) split_guard [of n "hb_size m (of_nat p)"] by (simp add: hdr_def)
  have tail: "heap_at ?m' (p + 12 + sz) bs"
    by (rule heap_at_cong [OF h(4)], rule kmalloc_take_out [OF h(1) _ assms(2)])
      (use h in \<open>auto simp: hdr_def\<close>)
  show ?thesis
  proof (cases "sz > ?n + 16")
    case False
    have "?m' = set_free (of_nat p) 0 m"
      using False by (simp only: kmalloc_take_def gt Let_def if_False)
    then have "hdr ?m' p sz False ?nx" using h(3) by (simp add: hdr_def)
    with h(1,2) tail False show ?thesis by simp
  next
    case True
    have q: "?q + 12 \<le> HEAP_END" "unat (of_nat ?q :: u32) = ?q"
      using True h(1) by (auto intro!: unat_addr simp del: of_nat_add)
    have sep: "p + 12 \<le> 2 ^ 32" "?q + 12 \<le> 2 ^ 32" "p + 12 \<le> ?q \<or> ?q + 12 \<le> p"
      "?q + 12 \<le> p \<or> p + 12 \<le> ?q"
      using q by auto
    note other = hb_other [OF sep(1,2,3)] hb_other [OF sep(2,1,4)]
    have m': "?m' = set_free (of_nat p) 0 (set_next (of_nat p) (of_nat ?q) (set_size (of_nat p) n
        (set_next (of_nat ?q) (hb_next m (of_nat p)) (set_free (of_nat ?q) 1
          (set_size (of_nat ?q) (hb_size m (of_nat p) - n - HB_SIZE) m)))))"
      using True by (simp only: kmalloc_take_def gt nb Let_def if_True other)
    have "hdr ?m' p ?n False ?q"
      using q(2) by (simp add: m' hdr_def other del: of_nat_add)
    moreover have "unat (hb_size m (of_nat p) - n - HB_SIZE) = sz - ?n - 12"
      using h(3) True by (simp add: hdr_def unat_sub_if' word_le_nat_alt)
    then have "hdr ?m' ?q (sz - ?n - 12) True ?nx"
      using h(3) by (simp add: m' hdr_def other del: of_nat_add)
    moreover have "4 dvd sz - ?n - 12"
      using h(2) assms(3) by (intro dvd_diff_nat) auto
    moreover have "?q + 12 + (sz - ?n - 12) = p + 12 + sz" using True by simp
    ultimately show ?thesis
      using True q(1) h(1) assms(3) tail by (cases "bs = []") (simp_all add: ac_simps)
  qed
qed


lemma h_alloc_None_iff: "h_alloc n p bs = None \<longleftrightarrow> (\<forall>(sz, f) \<in> set bs. f \<longrightarrow> sz < n)"
  by (induction n p bs rule: h_alloc.induct) auto

text \<open>The abstract allocation splits the list at the first block that is free and large enough.\<close>

lemma h_alloc_Some:
  assumes "h_alloc n p bs = Some (a, bs')"
  obtains xs sz ys where "bs = xs @ (sz, True) # ys" and "a = p + span xs + 12" and "n \<le> sz"
    and "bs' = xs @ (if sz > n + 16 then (n, False) # (sz - n - 12, True) # ys else (sz, False) # ys)"
  using assms
proof (induction n p bs arbitrary: a bs' thesis rule: h_alloc.induct)
  case (2 n p sz f bs)
  show ?case
  proof (cases "f \<and> n \<le> sz")
    case True
    with 2(2) [of "[]"] 2(3) show ?thesis by (simp split: if_splits)
  next
    case False
    with 2(3) obtain c where c: "h_alloc n (p + 12 + sz) bs = Some (a, c)" "bs' = (sz, f) # c"
      by auto
    show ?thesis
      by (rule 2(1) [OF False _ c(1)]) (use 2(2) [of "(sz, f) # _"] c(2) in \<open>auto simp: add.assoc\<close>)
  qed
qed simp

lemma kmalloc_loop_rep:
  "heap_at m p bs \<Longrightarrow> 0 < p \<Longrightarrow> 4 dvd unat n \<Longrightarrow>
   (case h_alloc (unat n) p bs of
      None \<Rightarrow> kmalloc_loop n m (if bs = [] then 0 else of_nat p) = Some (0, m)
    | Some (a, bs') \<Rightarrow> 0 < a \<and> a \<le> HEAP_END \<and> kmalloc_loop n m (if bs = [] then 0 else of_nat p) =
        Some (of_nat a, kmalloc_take n (of_nat (a - 12)) m))"
proof (induction "unat n" p bs rule: h_alloc.induct)
  case (1 p)
  then show ?case by (simp add: kmalloc_loop.simps)
next
  case (2 p sz f bs)
  have h: "p + 12 + sz \<le> HEAP_END" "hdr m p sz f (if bs = [] then 0 else p + 12 + sz)"
    "heap_at m (p + 12 + sz) bs"
    using 2(2) by auto
  have p: "(of_nat p :: u32) \<noteq> 0" using 2(3) h(1) unat_addr [of p] by auto
  have next_eq: "hb_next m (of_nat p) = (if bs = [] then 0 else of_nat (p + 12 + sz))"
    using h(1,2) unat_addr [of "p + 12 + sz"]
    by (auto simp: hdr_def word_unat_eq_iff simp del: of_nat_add)
  have fit: "hb_free m (of_nat p) \<noteq> 0 \<and> n \<le> hb_size m (of_nat p) \<longleftrightarrow> f \<and> unat n \<le> sz"
    using h(2) by (simp add: hdr_def word_le_nat_alt)
  show ?case
  proof (cases "f \<and> unat n \<le> sz")
    case True
    then show ?thesis using p fit h(1) by (simp add: kmalloc_loop.simps add.commute)
  next
    case False
    have step: "kmalloc_loop n m (of_nat p) = kmalloc_loop n m (if bs = [] then 0 else of_nat (p + 12 + sz))"
      using p False by (subst kmalloc_loop.simps) (simp only: fit next_eq if_False)
    have "0 < p + 12 + sz" by simp
    from 2(1) [OF False h(3) this 2(4)] False show ?thesis
      unfolding h_alloc.simps by (auto simp: step split: option.splits)
  qed
qed


text \<open>The invariant on lists.\<close>

lemma no_adj_Cons:
  "no_adjacent_free (b # ys) \<longleftrightarrow> (snd b \<and> ys \<noteq> [] \<longrightarrow> \<not> snd (hd ys)) \<and> no_adjacent_free ys"
  by (cases ys) auto

lemma no_adj_append:
  "no_adjacent_free (xs @ b # ys) \<longleftrightarrow>
     no_adjacent_free xs \<and> (xs \<noteq> [] \<and> snd (last xs) \<longrightarrow> \<not> snd b) \<and> no_adjacent_free (b # ys)"
proof (induction xs)
  case (Cons x xs)
  then show ?case by (cases xs) (auto simp: no_adj_Cons)
qed simp

text \<open>Allocation at the level of states.\<close>

definition heap_bytes_kept :: "blk list \<Rightarrow> 'a kheap_scheme \<Rightarrow> 'a kheap_scheme \<Rightarrow> bool" where
  "heap_bytes_kept bs s s' \<longleftrightarrow> s' = s\<lparr>vmem := vmem s'\<rparr> \<and>
     (\<forall>a \<in> used_bytes HEAP_BASE bs. vmem s' (of_nat a) = vmem s (of_nat a))"

lemma heap_bytes_kept_trans:
  assumes "heap_bytes_kept bs s s'" and "heap_bytes_kept bs s' s''"
  shows "heap_bytes_kept bs s s''"
proof -
  obtain m1 m2 where "s' = s\<lparr>vmem := m1\<rparr>" and "s'' = s'\<lparr>vmem := m2\<rparr>"
    using assms unfolding heap_bytes_kept_def by blast
  with assms show ?thesis by (simp add: heap_bytes_kept_def)
qed

lemma round4_dvd: "4 dvd unat (round4 n)"
proof -
  have "round4 n AND 3 = 0" unfolding round4_def by (rule bit_word_eqI) (auto simp: bit_simps)
  then have "take_bit 2 (round4 n) = 0" by (simp add: take_bit_eq_mask mask_eq_exp_minus_1)
  then have "take_bit 2 (unat (round4 n)) = 0" by (metis unsigned_0 unsigned_take_bit_eq)
  then show ?thesis by (simp add: take_bit_nat_def mod_eq_0_iff_dvd)
qed

lemma round4_eq: "unat n \<le> 2 ^ 32 - 4 \<Longrightarrow> unat (round4 n) = (unat n + 3) div 4 * 4"
proof -
  assume "unat n \<le> 2 ^ 32 - 4"
  then have u: "unat (n + 3) = unat n + 3" by (simp add: unat_word_ariths)
  have "(n + 3) AND 3 = take_bit 2 (n + 3)" by (simp add: take_bit_eq_mask mask_eq_exp_minus_1)
  then have low: "unat ((n + 3) AND 3) = (unat n + 3) mod 4"
    using u by (simp add: unsigned_take_bit_eq take_bit_nat_def)
  have "((n + 3) AND NOT 3) + ((n + 3) AND 3) = ((n + 3) AND NOT 3) OR ((n + 3) AND 3)"
    by (rule disjunctive_add) (simp only: bit_and_iff bit_not_iff, blast)
  also have "\<dots> = n + 3"
    by (rule bit_word_eqI) (simp only: bit_or_iff bit_and_iff bit_not_iff possible_bit_word, blast)
  finally have "round4 n = (n + 3) - ((n + 3) AND 3)"
    unfolding round4_def by (simp only: eq_diff_eq)
  also have "unat \<dots> = (unat n + 3) - (unat n + 3) mod 4"
    by (subst unat_sub) (simp_all add: word_and_le2 low u)
  finally show ?thesis by (simp add: minus_mod_eq_div_mult)
qed

lemma kmalloc_refines:
  assumes "heap_rep bs s" and "n \<noteq> 0"
  shows "case h_alloc (unat (round4 n)) HEAP_BASE bs of
      None \<Rightarrow> kmalloc n s = Some (0, s)
    | Some (a, bs') \<Rightarrow> \<exists>s'. kmalloc n s = Some (of_nat a, s') \<and> heap_rep bs' s' \<and> heap_bytes_kept bs s s'"
proof -
  let ?P = "HEAP_BASE"
  have r: "heap_first s = HEAP_START" "bs \<noteq> []" "heap_at (vmem s) ?P bs" "no_adjacent_free bs"
    using assms(1) by (auto simp: heap_rep_def)
  note loop = kmalloc_loop_rep [OF r(3) _ round4_dvd [of n]]
  show ?thesis
  proof (cases "h_alloc (unat (round4 n)) ?P bs")
    case None
    with loop r assms(2) show ?thesis by (simp add: kmalloc_def)
  next
    case (Some x)
    then obtain a bs' where x: "h_alloc (unat (round4 n)) ?P bs = Some (a, bs')" by (cases x) auto
    let ?m' = "kmalloc_take (round4 n) (of_nat (a - 12)) (vmem s)"
    have k: "kmalloc n s = Some (of_nat a, s\<lparr>vmem := ?m'\<rparr>)"
      using loop x r assms(2) by (simp add: kmalloc_def)
    obtain xs sz ys where d: "bs = xs @ (sz, True) # ys" "a = ?P + span xs + 12" "unat (round4 n) \<le> sz"
      and bs': "bs' = xs @ (if sz > unat (round4 n) + 16 then (unat (round4 n), False) #
        (sz - unat (round4 n) - 12, True) # ys else (sz, False) # ys)"
      using h_alloc_Some [OF x] .
    let ?q = "?P + span xs"
    have q: "a - 12 = ?q" using d(2) by simp
    have pre: "heap_pre (vmem s) ?P xs" and at: "heap_at (vmem s) ?q ((sz, True) # ys)"
      using r(3) heap_at_append [of "(sz, True) # ys" "vmem s" ?P xs] by (auto simp: d(1))
    have sz: "?q + 12 + sz \<le> HEAP_END" "unat (hb_size (vmem s) (of_nat ?q)) = sz"
      using at by (auto simp: hdr_def)
    note out = kmalloc_take_out [OF sz d(3), folded q]
    have pre': "heap_pre ?m' ?P xs"
      by (rule heap_pre_cong [OF pre], rule out) (use sz(1) q in auto)
    have "heap_at ?m' ?P bs'"
      using kmalloc_take_rep [OF at d(3) round4_dvd] pre'
      by (simp add: bs' heap_at_append q split: if_splits)
    moreover have "no_adjacent_free bs'"
      using r(4) by (auto simp: bs' d(1) no_adj_append no_adj_Cons)
    moreover have "?m' (of_nat b) = vmem s (of_nat b)" if "b \<in> used_bytes ?P bs" for b
    proof (rule out)
      have "b \<in> {?P + 12..<?q} \<or> b \<in> {?q + 12 + sz + 12..<?q + 12 + sz + span ys}"
        using that used_bytes_range [of ?P xs] used_bytes_range [of "?q + 12 + sz" ys]
        by (auto simp: d(1) used_bytes_append)
      then show "b < a - 12 \<or> a - 12 + 12 + sz \<le> b" and "b < 2 ^ 32"
        using q heap_at_end [OF r(3)] by (auto simp: d(1))
    qed
    ultimately have "heap_rep bs' (s\<lparr>vmem := ?m'\<rparr>)" "heap_bytes_kept bs s (s\<lparr>vmem := ?m'\<rparr>)"
      using r(1) bs' by (auto simp: heap_rep_def heap_bytes_kept_def)
    with k x show ?thesis by auto
  qed
qed


section \<open>Release\<close>

text \<open>Absorbing the next block, as both halves of \<^verbatim>\<open>kfree\<close> do.\<close>

definition absorb :: "u32 \<Rightarrow> u32 \<Rightarrow> mem \<Rightarrow> mem" where
  "absorb c b m = (let m = set_size c (hb_size m c + (HB_SIZE + hb_size m b)) m in set_next c (hb_next m b) m)"

lemma absorb_rep:
  assumes "heap_at m c ((s1, f1) # (s2, f2) # ys)"
  shows "heap_at (absorb (of_nat c) (of_nat (c + 12 + s1)) m) c ((s1 + 12 + s2, f1) # ys)"
proof -
  let ?b = "c + 12 + s1" and ?m' = "absorb (of_nat c) (of_nat (c + 12 + s1)) m"
  let ?nx = "if ys = [] then 0 else ?b + 12 + s2"
  have h: "?b + 12 + s2 \<le> HEAP_END" "4 dvd s1" "4 dvd s2" "hdr m c s1 f1 ?b" "hdr m ?b s2 f2 ?nx"
    "heap_at m (?b + 12 + s2) ys"
    using assms by auto
  have sep: "c + 12 \<le> 2 ^ 32" "?b + 12 \<le> 2 ^ 32" "c + 12 \<le> ?b \<or> ?b + 12 \<le> c" using h(1) by auto
  note other = hb_other [OF sep]
  have "unat (hb_size m (of_nat c) + (HB_SIZE + hb_size m (of_nat ?b))) = s1 + 12 + s2"
    using h(1,4,5) by (simp add: hdr_def unat_word_ariths)
  then have "hdr ?m' c (s1 + 12 + s2) f1 ?nx"
    using h(4,5) by (simp add: absorb_def Let_def hdr_def other del: of_nat_add)
  moreover have "heap_at ?m' (?b + 12 + s2) ys"
  proof (rule heap_at_cong [OF h(6)])
    fix a assume "?b + 12 + s2 \<le> a" "a < HEAP_END"
    then show "?m' (of_nat a) = m (of_nat a)"
      using sep(1) by (simp add: absorb_def Let_def set_out del: of_nat_add)
  qed
  moreover have "4 dvd s1 + 12 + s2" using h(2,3) by simp
  ultimately show ?thesis using h(1) by (cases "ys = []") (simp_all add: ac_simps)
qed

lemma absorb_out:
  assumes "p + 12 \<le> 2 ^ 32" and "a < 2 ^ 32" and "a < p \<or> p + 12 \<le> a"
  shows "absorb (of_nat p) b m (of_nat a) = m (of_nat a)"
  using set_out [OF assms] by (simp add: absorb_def Let_def)

lemma kfree_next_eq:
  "kfree_next block m =
     (let m = set_free block 1 m
      in if hb_next m block \<noteq> 0 \<and> hb_free m (hb_next m block) \<noteq> 0
         then absorb block (hb_next m block) m else m)"
  by (simp add: kfree_next_def absorb_def Let_def)

lemma set_free_rep:
  assumes "heap_at m q ((sz, f) # ys)"
  shows "heap_at (set_free (of_nat q) 1 m) q ((sz, True) # ys)"
proof -
  have h: "q + 12 + sz \<le> HEAP_END" "hdr m q sz f (if ys = [] then 0 else q + 12 + sz)"
    "heap_at m (q + 12 + sz) ys" using assms by auto
  have "heap_at (set_free (of_nat q) 1 m) (q + 12 + sz) ys"
    by (rule heap_at_cong [OF h(3)]) (rule set_out, use h(1) in auto)
  with assms show ?thesis by (simp add: hdr_def)
qed

lemma heap_at_next:
  assumes "heap_at m q ((sz, f) # ys)"
  shows "hb_next m (of_nat q) = (if ys = [] then 0 else of_nat (q + 12 + sz))"
    and "ys \<noteq> [] \<Longrightarrow> (of_nat (q + 12 + sz) :: u32) \<noteq> 0"
proof -
  have h: "q + 12 + sz \<le> HEAP_END" "hdr m q sz f (if ys = [] then 0 else q + 12 + sz)"
    using assms by auto
  show "hb_next m (of_nat q) = (if ys = [] then 0 else of_nat (q + 12 + sz))"
    using h unat_addr [OF h(1)] by (auto simp: hdr_def word_unat_eq_iff simp del: of_nat_add)
  show "(of_nat (q + 12 + sz) :: u32) \<noteq> 0"
    using unat_addr [OF h(1)] by (metis add_is_0 unsigned_0 zero_neq_numeral)
qed

lemma kfree_next_rep:
  assumes "heap_at m q ((sz, f) # ys)"
  shows "heap_at (kfree_next (of_nat q) m) q (join_next sz ys)"
proof -
  let ?m1 = "set_free (of_nat q) 1 m"
  note r1 = set_free_rep [OF assms]
  note nx = heap_at_next [OF r1]
  show ?thesis
  proof (cases ys)
    case Nil
    with r1 nx show ?thesis by (simp add: kfree_next_eq join_next_def Let_def)
  next
    case (Cons y ys')
    obtain sz' f' where y: "y = (sz', f')" by (cases y)
    have "(hb_free ?m1 (of_nat (q + 12 + sz)) \<noteq> 0) = f'"
      using r1 by (simp add: Cons y hdr_def del: of_nat_add)
    then have "kfree_next (of_nat q) m =
        (if f' then absorb (of_nat q) (of_nat (q + 12 + sz)) ?m1 else ?m1)"
      using nx Cons by (simp add: kfree_next_eq Let_def del: of_nat_add)
    moreover have "f' \<Longrightarrow> heap_at (absorb (of_nat q) (of_nat (q + 12 + sz)) ?m1) q ((sz + 12 + sz', True) # ys')"
      using r1 absorb_rep [of ?m1 q sz True sz' True ys'] by (simp add: Cons y del: of_nat_add)
    ultimately show ?thesis using r1 by (cases f') (simp_all add: Cons y join_next_def)
  qed
qed

lemma kfree_next_out:
  assumes "p + 12 \<le> 2 ^ 32" and "a < 2 ^ 32" and "a < p \<or> p + 12 \<le> a"
  shows "kfree_next (of_nat p) m (of_nat a) = m (of_nat a)"
  using set_out [OF assms] absorb_out [OF assms] by (simp add: kfree_next_eq Let_def)

text \<open>The search for the predecessor.\<close>

lemma addr_nonzero: "0 < p \<Longrightarrow> p \<le> HEAP_END \<Longrightarrow> (of_nat p :: u32) \<noteq> 0"
  using unat_addr [of p] by auto

lemma addr_inj: "p \<le> HEAP_END \<Longrightarrow> q \<le> HEAP_END \<Longrightarrow> (of_nat p :: u32) = of_nat q \<longleftrightarrow> p = q"
  using unat_addr by metis

lemma kfree_prev_none:
  "heap_at m p bs \<Longrightarrow> 0 < t \<Longrightarrow> t \<le> p \<Longrightarrow> kfree_prev m (of_nat t) (if bs = [] then 0 else of_nat p) = Some 0"
proof (induction m p bs rule: heap_at.induct)
  case (1 m p)
  then show ?case by (simp add: kfree_prev.simps)
next
  case (2 m p sz f bs)
  note nx = heap_at_next [OF 2(2)]
  have p: "p + 12 + sz \<le> HEAP_END" "(of_nat p :: u32) \<noteq> 0" "(of_nat t :: u32) \<noteq> 0"
    using 2(2-4) addr_nonzero [of p] addr_nonzero [of t] by auto
  then have "hb_next m (of_nat p) \<noteq> of_nat t"
    using nx 2(4) addr_inj [of "p + 12 + sz" t] by (simp del: of_nat_add)
  then have "kfree_prev m (of_nat t) (of_nat p) = kfree_prev m (of_nat t) (if bs = [] then 0 else of_nat (p + 12 + sz))"
    using p(2) nx(1) by (subst kfree_prev.simps) simp
  with 2 show ?case by simp
qed

lemma heap_pre_end: "heap_pre m p xs \<Longrightarrow> xs \<noteq> [] \<Longrightarrow> p + span xs \<le> HEAP_END \<and> 12 \<le> span xs"
proof (induction m p xs rule: heap_pre.induct)
  case (2 m p sz f xs)
  then show ?case by (cases "xs = []") auto
qed simp

lemma kfree_prev_some:
  "heap_pre m p xs \<Longrightarrow> xs \<noteq> [] \<Longrightarrow> 0 < p \<Longrightarrow>
   kfree_prev m (of_nat (p + span xs)) (of_nat p) = Some (of_nat (p + span (butlast xs)))"
proof (induction m p xs rule: heap_pre.induct)
  case (2 m p sz f xs)
  have h: "p + 12 + sz \<le> HEAP_END" "hdr m p sz f (p + 12 + sz)" "heap_pre m (p + 12 + sz) xs"
    using 2(2) by auto
  have nx: "hb_next m (of_nat p) = of_nat (p + 12 + sz)" and p: "(of_nat p :: u32) \<noteq> 0"
    using h(1,2) unat_addr [OF h(1)] 2(4) addr_nonzero [of p]
    by (auto simp: hdr_def word_unat_eq_iff simp del: of_nat_add)
  show ?case
  proof (cases "xs = []")
    case True
    then show ?thesis using nx by (subst kfree_prev.simps) (simp add: ac_simps)
  next
    case False
    have "p + 12 + sz + span xs \<le> HEAP_END \<and> 12 \<le> span xs" by (rule heap_pre_end [OF h(3) False])
    then have "hb_next m (of_nat p) \<noteq> of_nat (p + 12 + sz + span xs)"
      using nx addr_inj [OF h(1), of "p + 12 + sz + span xs"] by (simp del: of_nat_add)
    then have "kfree_prev m (of_nat (p + 12 + sz + span xs)) (of_nat p) =
        kfree_prev m (of_nat (p + 12 + sz + span xs)) (of_nat (p + 12 + sz))"
      using p nx by (subst kfree_prev.simps) (simp del: of_nat_add)
    with 2(1) [OF h(3) False] False show ?thesis by (simp add: ac_simps del: of_nat_add)
  qed
qed simp

lemma kfree_eq:
  "kfree ptr s =
     (if ptr = 0 then Some s
      else let block = ptr - HB_SIZE; m = kfree_next block (vmem s)
           in map_option (\<lambda>cur. s\<lparr>vmem := if cur \<noteq> 0 \<and> hb_free m cur \<noteq> 0 then absorb cur block m else m\<rparr>)
              (kfree_prev m block (heap_first s)))"
  by (simp only: kfree_def absorb_def Let_def)

lemma join_next_facts:
  "join_next sz ys \<noteq> []" "snd (hd (join_next sz ys))" "span (join_next sz ys) = 12 + sz + span ys"
  "no_adjacent_free ys \<Longrightarrow> no_adjacent_free (join_next sz ys)"
  by (auto simp: join_next_def no_adj_Cons split: list.splits bool.splits)

lemma join_prev_last:
  "join_prev (xs @ [(s1, f1)]) (b # zs) = (if f1 then xs @ (s1 + 12 + fst b, True) # zs else xs @ (s1, f1) # b # zs)"
  by (simp add: join_prev_def)

lemma used_bytes_join_next: "used_bytes p (join_next sz ys) = used_bytes (p + 12 + sz) ys"
  by (auto simp: join_next_def add.assoc split: list.splits bool.splits)


lemma used_bytes_h_free:
  "used_bytes p (h_free xs sz ys) = used_bytes p xs \<union> used_bytes (p + span xs + 12 + sz) ys"
proof (cases xs rule: rev_cases)
  case Nil
  then show ?thesis by (simp add: h_free_def join_prev_def used_bytes_join_next)
next
  case (snoc xs0 y)
  obtain s1 f1 where y: "y = (s1, f1)" by (cases y)
  obtain b zs where j: "join_next sz ys = b # zs" "snd b"
    using join_next_facts(1,2) [of sz ys] by (cases "join_next sz ys") auto
  obtain sb where b: "b = (sb, True)" using j(2) by (cases b) auto
  have u: "used_bytes q (b # zs) = used_bytes (q + 12 + sz) ys" for q
    using used_bytes_join_next [of q sz ys] j(1) by simp
  have m: "used_bytes q ((s1 + 12 + sb, True) # zs) = used_bytes (q + 12 + s1) (b # zs)" for q
    by (simp add: b add.assoc)
  show ?thesis
    using u [of "p + span xs0 + 12 + s1"] m [of "p + span xs0"]
    by (simp add: snoc y h_free_def j(1) join_prev_last used_bytes_append b add.assoc Un_assoc)
qed

lemma no_adj_h_free:
  assumes "no_adjacent_free (xs @ (sz, False) # ys)"
  shows "no_adjacent_free (h_free xs sz ys)"
proof (cases xs rule: rev_cases)
  case Nil
  with assms show ?thesis by (simp add: h_free_def join_prev_def no_adj_Cons join_next_facts(4))
next
  case (snoc xs0 y)
  obtain s1 f1 where y: "y = (s1, f1)" by (cases y)
  obtain b zs where j: "join_next sz ys = b # zs" "snd b" "no_adjacent_free (b # zs)"
    using join_next_facts(1,2) [of sz ys] join_next_facts(4) [of ys sz] assms by (cases "join_next sz ys") (auto simp: no_adj_append no_adj_Cons)
  show ?thesis using assms j(2,3)
    by (auto simp: snoc y h_free_def j(1) join_prev_last no_adj_append no_adj_Cons)
qed

lemma kfree_rep_chain:
  assumes "heap_at m p (xs @ (sz, False) # ys)" and "0 < p"
  defines "t \<equiv> p + span xs" and "m1 \<equiv> kfree_next (of_nat (p + span xs)) m"
  shows "\<exists>c. kfree_prev m1 (of_nat t) (of_nat p) = Some c \<and>
    (let m2 = if c \<noteq> 0 \<and> hb_free m1 c \<noteq> 0 then absorb c (of_nat t) m1 else m1
     in heap_at m2 p (h_free xs sz ys) \<and>
        (\<forall>a \<in> used_bytes p (h_free xs sz ys). m2 (of_nat a) = m (of_nat a)))"
proof -
  have pre: "heap_pre m p xs" and at: "heap_at m t ((sz, False) # ys)"
    using assms(1) heap_at_append [of "(sz, False) # ys" m p xs] by (auto simp: t_def)
  have te: "t + 12 + sz + span ys = HEAP_END" using heap_at_end [OF at] by simp
  have out1: "m1 (of_nat a) = m (of_nat a)" if "a < 2 ^ 32" "a < t \<or> t + 12 \<le> a" for a
    unfolding m1_def t_def [symmetric] by (rule kfree_next_out) (use te that in auto)
  have at1: "heap_at m1 t (join_next sz ys)"
    unfolding m1_def t_def [symmetric] by (rule kfree_next_rep [OF at])
  have pre1: "heap_pre m1 p xs"
    by (rule heap_pre_cong [OF pre], rule out1) (use te in \<open>auto simp: t_def\<close>)
  have rng: "(a < t \<and> a \<in> used_bytes p xs) \<or> (t + 12 \<le> a \<and> a < 2 ^ 32)"
    if "a \<in> used_bytes p (h_free xs sz ys)" for a
    using that used_bytes_range [of p xs] used_bytes_range [of "t + 12 + sz" ys] te
    by (auto simp: used_bytes_h_free t_def)
  show ?thesis
  proof (cases xs rule: rev_cases)
    case Nil
    have "kfree_prev m1 (of_nat t) (of_nat p) = Some 0"
      using kfree_prev_none [OF at1, of t] join_next_facts(1) [of sz ys] assms(2) by (simp add: Nil t_def)
    moreover have "h_free xs sz ys = join_next sz ys" by (simp add: Nil h_free_def join_prev_def)
    ultimately show ?thesis using at1 out1 rng by (fastforce simp: Nil t_def Let_def)
  next
    case (snoc xs0 y)
    obtain s1 f1 where y: "y = (s1, f1)" by (cases y)
    let ?c = "p + span xs0"
    have t: "t = ?c + 12 + s1" by (simp add: t_def snoc y)
    have find: "kfree_prev m1 (of_nat t) (of_nat p) = Some (of_nat ?c)"
      using kfree_prev_some [OF pre1 _ assms(2)] by (simp add: snoc t_def del: of_nat_add)
    have pre0: "heap_pre m1 p xs0" and hc: "hdr m1 ?c s1 f1 t"
      using pre1 by (simp_all add: snoc y heap_pre_append t)
    have c0: "(of_nat ?c :: u32) \<noteq> 0" and ce: "?c + 12 \<le> 2 ^ 32"
      using addr_nonzero [of ?c] assms(2) t te by (auto simp del: of_nat_add)
    have fr: "(hb_free m1 (of_nat ?c) \<noteq> 0) = f1" using hc by (simp add: hdr_def)
    obtain sb zs where j: "join_next sz ys = (sb, True) # zs"
      using join_next_facts(1,2) [of sz ys] by (cases "join_next sz ys") auto
    have all: "heap_at m1 p (xs @ join_next sz ys)"
      using pre1 at1 by (simp add: heap_at_append j t_def)
    show ?thesis
    proof (cases f1)
      case False
      then have "h_free xs sz ys = xs @ join_next sz ys"
        by (simp add: h_free_def join_prev_def snoc y)
      then show ?thesis using find fr False all out1 rng te by (fastforce simp: Let_def)
    next
      case True
      let ?m2 = "absorb (of_nat ?c) (of_nat t) m1"
      have hf: "h_free xs sz ys = xs0 @ (s1 + 12 + sb, True) # zs"
        by (simp add: h_free_def j snoc y join_prev_last True)
      have "heap_at m1 ?c ((s1, True) # (sb, True) # zs)"
        using all heap_at_append [of "(s1, True) # (sb, True) # zs" m1 p xs0]
        by (simp add: snoc y True j)
      then have "heap_at ?m2 ?c ((s1 + 12 + sb, True) # zs)"
        unfolding t by (rule absorb_rep)
      moreover have "heap_pre ?m2 p xs0"
        by (rule heap_pre_cong [OF pre0], rule absorb_out [OF ce]) (use te t in auto)
      ultimately have "heap_at ?m2 p (h_free xs sz ys)" by (simp add: hf heap_at_append)
      moreover have "?m2 (of_nat a) = m (of_nat a)" if "a \<in> used_bytes p (h_free xs sz ys)" for a
      proof -
        have "a < ?c \<or> t + 12 \<le> a" "a < 2 ^ 32"
          using rng [OF that] used_bytes_range [of p xs0] te
          by (auto simp: snoc y True used_bytes_append t)
        then show ?thesis using absorb_out [OF ce, of a] out1 [of a] t by auto
      qed
      ultimately show ?thesis using find fr True c0 by (auto simp: Let_def)
    qed
  qed
qed


lemma kfree_refines:
  assumes "heap_rep (xs @ (sz, False) # ys) s"
  shows "\<exists>s'. kfree (of_nat (HEAP_BASE + span xs + 12)) s = Some s' \<and>
    heap_rep (h_free xs sz ys) s' \<and> heap_bytes_kept (h_free xs sz ys) s s'"
proof -
  let ?P = "HEAP_BASE" and ?t = "HEAP_BASE + span xs"
  have r: "heap_first s = HEAP_START" "heap_at (vmem s) ?P (xs @ (sz, False) # ys)"
    "no_adjacent_free (xs @ (sz, False) # ys)"
    using assms by (auto simp: heap_rep_def)
  have te: "?t + 12 \<le> HEAP_END" using heap_at_end [OF r(2)] by simp
  have ptr: "(of_nat (?t + 12) :: u32) - HB_SIZE = of_nat ?t" "(of_nat (?t + 12) :: u32) \<noteq> 0"
    using addr_nonzero [OF _ te] by simp_all
  have ne: "h_free xs sz ys \<noteq> []"
    using join_next_facts(1) [of sz ys] by (simp add: h_free_def join_prev_def)
  define m1 where "m1 = kfree_next (of_nat ?t) (vmem s)"
  obtain c m2 where c: "kfree_prev m1 (of_nat ?t) HEAP_START = Some c"
    and m2: "m2 = (if c \<noteq> 0 \<and> hb_free m1 c \<noteq> 0 then absorb c (of_nat ?t) m1 else m1)"
      "heap_at m2 ?P (h_free xs sz ys)"
      "\<forall>a \<in> used_bytes ?P (h_free xs sz ys). m2 (of_nat a) = vmem s (of_nat a)"
    using kfree_rep_chain [OF r(2), folded m1_def] unfolding Let_def by (auto simp del: of_nat_add)
  have "kfree (of_nat (?t + 12)) s = Some (s\<lparr>vmem := m2\<rparr>)"
    using ptr(2) r(1) by (simp only: kfree_eq Let_def ptr(1) m1_def [symmetric] c m2(1) if_False option.map)
  with m2(2,3) ne r(1) no_adj_h_free [OF r(3)] show ?thesis
    by (auto simp: heap_rep_def heap_bytes_kept_def simp del: of_nat_add)
qed

section \<open>Initial heap\<close>

lemma map_heap_page_fields:
  "heap_first (map_heap_page a s) = heap_first s" "vmem (map_heap_page a s) = vmem s"
  by (auto simp: map_heap_page_def ensure_table_def pmm_alloc_def pmm_set_def Let_def split: option.splits prod.splits)

lemma kheap_init_rep: "heap_rep [(unat (HEAP_INIT_SIZE - HB_SIZE), True)] (kheap_init s)"
  by (simp add: heap_rep_def kheap_init_def Let_def hdr_def)

section \<open>Reallocation\<close>

lemma h_alloc_append:
  "h_alloc n p (xs @ zs) =
     (case h_alloc n p xs of
        Some (a, xs') \<Rightarrow> Some (a, xs' @ zs)
      | None \<Rightarrow> map_option (\<lambda>(a, zs'). (a, xs @ zs')) (h_alloc n (p + span xs) zs))"
proof (induction xs arbitrary: p)
  case (Cons b xs)
  obtain sz f where b: "b = (sz, f)" by (cases b)
  show ?case
  proof (cases "f \<and> n \<le> sz")
    case False
    then show ?thesis using Cons [of "p + 12 + sz"]
      by (cases "h_alloc n (p + 12 + sz) xs"; cases "h_alloc n (p + 12 + sz + span xs) zs")
        (auto simp: b add.assoc)
  qed (simp add: b)
qed (simp add: case_prod_beta option.map_id)

lemma h_alloc_span:
  assumes "h_alloc n p bs = Some (a, bs')"
  shows "span bs' = span bs"
  by (rule h_alloc_Some [OF assms]) auto

text \<open>A block in use stays where it is when another one is allocated.\<close>

lemma h_alloc_keeps:
  assumes "h_alloc n p (xs @ (sz, False) # ys) = Some (a, bs')"
  obtains xs' ys' where "bs' = xs' @ (sz, False) # ys'" and "span xs' = span xs"
proof (cases "h_alloc n p xs")
  case None
  with assms that [of xs] show thesis by (auto simp: h_alloc_append)
next
  case (Some x)
  then obtain b xs' where "h_alloc n p xs = Some (b, xs')" by (cases x) auto
  with assms that [of xs' ys] h_alloc_span show thesis by (auto simp: h_alloc_append)
qed

text \<open>Writing into the payload of blocks in use does not affect the chain.\<close>

lemma heap_at_payload:
  "heap_at m p bs \<Longrightarrow> (\<And>a. p \<le> a \<Longrightarrow> a < HEAP_END \<Longrightarrow> a \<notin> used_bytes p bs \<Longrightarrow> m' (of_nat a) = m (of_nat a)) \<Longrightarrow>
   heap_at m' p bs"
proof (induction m p bs rule: heap_at.induct)
  case (2 m p sz f bs)
  have h: "p + 12 + sz \<le> HEAP_END" "heap_at m (p + 12 + sz) bs" using 2(2) by auto
  have "m' (of_nat a) = m (of_nat a)" if "p \<le> a" "a < p + 12" for a
  proof (rule 2(3))
    show "a \<notin> used_bytes p ((sz, f) # bs)"
      using that used_bytes_range [of "p + 12 + sz" bs] by auto
  qed (use that h(1) in auto)
  then have "hdr m' p sz f n = hdr m p sz f n" for n by (rule hdr_cong)
  moreover have "heap_at m' (p + 12 + sz) bs"
    by (rule 2(1) [OF h(2)], rule 2(3)) auto
  ultimately show ?case using 2(2) by simp
qed simp

lemma krealloc_copy_ok:
  assumes "b + 12 \<le> HEAP_END" and "d + sz \<le> HEAP_END" and "src + sz \<le> HEAP_END"
    and "d + sz \<le> b \<or> b + 12 \<le> d" and "d + sz \<le> src \<or> src + sz \<le> d"
    and "i \<le> sz" and "unat (hb_size m (of_nat b)) = sz"
  shows "\<exists>m'. krealloc_copy (of_nat b) (of_nat d) (of_nat src) (of_nat i) m = Some m' \<and>
    (\<forall>k. i \<le> k \<and> k < sz \<longrightarrow> m' (of_nat (d + k)) = m (of_nat (src + k))) \<and>
    (\<forall>a < 2 ^ 32. a < d + i \<or> d + sz \<le> a \<longrightarrow> m' (of_nat a) = m (of_nat a))"
  using assms(6,7)
proof (induction "sz - i" arbitrary: i m)
  case 0
  then have "\<not> of_nat i < hb_size m (of_nat b)" using assms(2) by (simp add: word_less_nat_alt unat_addr)
  then show ?case using 0 by (subst krealloc_copy.simps) auto
next
  case (Suc n)
  define m1 where "m1 = m(of_nat (d + i) := m (of_nat (src + i)))"
  have i: "i < sz" using Suc.hyps(2) by simp
  have other: "m1 (of_nat a) = m (of_nat a)" if "a < 2 ^ 32" "a \<noteq> d + i" for a
    using that i assms(2) word_of_nat_less_eq [of a, where 'a = 32] unat_addr [of "d + i"]
    by (auto simp: m1_def simp del: of_nat_add)
  have "hb_size m1 (of_nat b) = hb_size m (of_nat b)"
    by (rule hb_cong(1), rule other) (use i assms(1,4) in auto)
  then have sz1: "unat (hb_size m1 (of_nat b)) = sz" using Suc.prems(2) by simp
  have lt: "of_nat i < hb_size m (of_nat b)"
    using Suc.prems(2) i assms(2) by (simp add: word_less_nat_alt unat_addr)
  have "n = sz - Suc i" and "Suc i \<le> sz" using Suc.hyps(2) i by simp_all
  from Suc.hyps(1) [OF this sz1] obtain m' where m': "krealloc_copy (of_nat b) (of_nat d) (of_nat src) (of_nat (Suc i)) m1 = Some m'"
    "\<forall>k. Suc i \<le> k \<and> k < sz \<longrightarrow> m' (of_nat (d + k)) = m1 (of_nat (src + k))"
    "\<forall>a < 2 ^ 32. a < d + Suc i \<or> d + sz \<le> a \<longrightarrow> m' (of_nat a) = m1 (of_nat a)"
    by blast
  have "krealloc_copy (of_nat b) (of_nat d) (of_nat src) (of_nat i) m = Some m'"
    using lt m'(1) by (subst krealloc_copy.simps) (simp add: m1_def add.commute)
  moreover have "m' (of_nat (d + k)) = m (of_nat (src + k))" if "i \<le> k" "k < sz" for k
  proof (cases "k = i")
    case True
    have "m' (of_nat (d + i)) = m1 (of_nat (d + i))" using m'(3) assms(2) i by (simp del: of_nat_add)
    with True show ?thesis by (simp add: m1_def del: of_nat_add)
  next
    case False
    have "m1 (of_nat (src + k)) = m (of_nat (src + k))"
      by (rule other) (use assms(3,5) that i in auto)
    with m'(2) False that show ?thesis by (simp del: of_nat_add)
  qed
  moreover have "m' (of_nat a) = m (of_nat a)" if "a < 2 ^ 32" "a < d + i \<or> d + sz \<le> a" for a
    using m'(3) other [of a] that i by (auto simp del: of_nat_add)
  ultimately show ?case by blast
qed

lemma heap_pre_dvd: "heap_pre m p xs \<Longrightarrow> 4 dvd span xs"
  by (induction m p xs rule: heap_pre.induct) auto

lemma h_alloc_used:
  assumes "h_alloc n p bs = Some (a, bs')"
  shows "used_bytes p bs \<subseteq> used_bytes p bs'"
    and "{a..<a + n} \<subseteq> used_bytes p bs' - used_bytes p bs"
    and "a + n \<le> p + span bs"
proof -
  obtain xs sz ys where d: "bs = xs @ (sz, True) # ys" "a = p + span xs + 12" "n \<le> sz"
    "bs' = xs @ (if sz > n + 16 then (n, False) # (sz - n - 12, True) # ys else (sz, False) # ys)"
    using h_alloc_Some [OF assms] .
  show "used_bytes p bs \<subseteq> used_bytes p bs'" by (auto simp: d(1,4) used_bytes_append add.assoc)
  have "used_bytes p bs \<subseteq> {..<p + span xs} \<union> {p + span xs + 12 + sz..}"
    using used_bytes_range [of p xs] used_bytes_range [of "p + span xs + 12 + sz" ys]
    by (auto simp: d(1) used_bytes_append)
  then have "{a..<a + n} \<inter> used_bytes p bs = {}" using d(2,3) by auto
  moreover have "{a..<a + n} \<subseteq> used_bytes p bs'" using d(2,3) by (auto simp: d(4) used_bytes_append)
  ultimately show "{a..<a + n} \<subseteq> used_bytes p bs' - used_bytes p bs" by blast
  show "a + n \<le> p + span bs" using d(1,2,3) by simp
qed

text \<open>The copy of \<^verbatim>\<open>krealloc\<close> into a freshly allocated block.\<close>

lemma krealloc_move:
  assumes rep: "heap_rep (xs @ (sz, False) # ys) s"
    and al: "h_alloc r HEAP_BASE (xs @ (sz, False) # ys) = Some (a, bs1)" "sz < r"
    and s1: "heap_rep bs1 s1" "heap_bytes_kept (xs @ (sz, False) # ys) s s1"
  defines "t \<equiv> HEAP_BASE + span xs"
  shows "\<exists>m s' bs'. krealloc_copy (of_nat t) (of_nat a) (of_nat (t + 12)) 0 (vmem s1) = Some m \<and>
    kfree (of_nat (t + 12)) (s1\<lparr>vmem := m\<rparr>) = Some s' \<and> heap_rep bs' s' \<and>
    {a..<a + r} \<subseteq> used_bytes HEAP_BASE bs' \<and>
    (\<forall>k < sz. vmem s' (of_nat (a + k)) = vmem s (of_nat (t + 12 + k))) \<and>
    (\<forall>b \<in> used_bytes HEAP_BASE xs \<union> used_bytes (t + 12 + sz) ys. vmem s' (of_nat b) = vmem s (of_nat b))"
proof -
  let ?P = "HEAP_BASE" and ?bs = "xs @ (sz, False) # ys"
  note u = h_alloc_used [OF al(1)]
  obtain xs' ys' where d: "bs1 = xs' @ (sz, False) # ys'" "span xs' = span xs"
    using h_alloc_keeps [OF al(1)] .
  have at: "heap_at (vmem s) ?P ?bs" "heap_at (vmem s1) ?P bs1" using rep s1(1) by (auto simp: heap_rep_def)
  have ends: "t + 12 + sz + span ys = HEAP_END" "t + 12 + sz + span ys' = HEAP_END" "a + r \<le> HEAP_END"
    using heap_at_end [OF at(1)] heap_at_end [OF at(2)] u(3) d(2) by (auto simp: t_def d(1))
  have ub: "used_bytes ?P ?bs = used_bytes ?P xs \<union> {t + 12..<t + 12 + sz} \<union> used_bytes (t + 12 + sz) ys"
    "used_bytes ?P bs1 = used_bytes ?P xs' \<union> {t + 12..<t + 12 + sz} \<union> used_bytes (t + 12 + sz) ys'"
    "used_bytes ?P (h_free xs' sz ys') = used_bytes ?P xs' \<union> used_bytes (t + 12 + sz) ys'"
    using d(2) by (auto simp: d(1) used_bytes_append t_def used_bytes_h_free)
  have rng: "used_bytes ?P xs \<subseteq> {..<t}" "used_bytes (t + 12 + sz) ys \<subseteq> {t + 12 + sz..}"
    "used_bytes ?P xs' \<subseteq> {..<t}" "used_bytes (t + 12 + sz) ys' \<subseteq> {t + 12 + sz..}"
    using used_bytes_range [of ?P xs] used_bytes_range [of ?P xs'] d(2)
      used_bytes_range [of "t + 12 + sz" ys] used_bytes_range [of "t + 12 + sz" ys'] by (auto simp: t_def)
  have "{a..<a + r} \<inter> {t..<t + 12 + sz} = {}"
    using u(2) rng ub(1,2) by fastforce
  then have far: "a + r \<le> t \<or> t + 12 + sz \<le> a" using al(2) by (auto simp: disjoint_iff)
  have hs: "unat (hb_size (vmem s1) (of_nat t)) = sz"
    using at(2) heap_at_append [of "(sz, False) # ys'" "vmem s1" ?P xs'] d(2)
    by (simp add: d(1) t_def hdr_def del: of_nat_add)
  obtain m where m: "krealloc_copy (of_nat t) (of_nat a) (of_nat (t + 12)) 0 (vmem s1) = Some m"
    "\<forall>k < sz. m (of_nat (a + k)) = vmem s1 (of_nat (t + 12 + k))"
    "\<forall>b < 2 ^ 32. b < a \<or> a + sz \<le> b \<longrightarrow> m (of_nat b) = vmem s1 (of_nat b)"
    using krealloc_copy_ok [of t a sz "t + 12" 0 "vmem s1"] ends far hs al(2) by (auto simp del: of_nat_add)
  have "heap_at m ?P bs1"
  proof (rule heap_at_payload [OF at(2)])
    fix b assume "b < HEAP_END" "b \<notin> used_bytes ?P bs1"
    then have "b \<notin> {a..<a + r}" "b < 2 ^ 32" using u(2) by auto
    then show "m (of_nat b) = vmem s1 (of_nat b)" using m(3) al(2) by auto
  qed
  then have "heap_rep (xs' @ (sz, False) # ys') (s1\<lparr>vmem := m\<rparr>)"
    using s1(1) by (simp add: heap_rep_def d(1))
  from kfree_refines [OF this] obtain s' where s': "kfree (of_nat (t + 12)) (s1\<lparr>vmem := m\<rparr>) = Some s'"
    "heap_rep (h_free xs' sz ys') s'" "heap_bytes_kept (h_free xs' sz ys') (s1\<lparr>vmem := m\<rparr>) s'"
    using d(2) by (auto simp: t_def simp del: of_nat_add)
  have new: "{a..<a + r} \<subseteq> used_bytes ?P (h_free xs' sz ys')"
    using u(2) ub far by fastforce
  have kept1: "vmem s1 (of_nat b) = vmem s (of_nat b)" if "b \<in> used_bytes ?P ?bs" for b
    using s1(2) that by (simp add: heap_bytes_kept_def)
  have kept2: "vmem s' (of_nat b) = m (of_nat b)" if "b \<in> used_bytes ?P (h_free xs' sz ys')" for b
    using s'(3) that by (simp add: heap_bytes_kept_def)
  have "vmem s' (of_nat (a + k)) = vmem s (of_nat (t + 12 + k))" if "k < sz" for k
    using kept2 [of "a + k"] kept1 [of "t + 12 + k"] m(2) new al(2) that ub(1)
    by (auto simp: subset_iff simp del: of_nat_add)
  moreover have "vmem s' (of_nat b) = vmem s (of_nat b)"
    if b: "b \<in> used_bytes ?P xs \<union> used_bytes (t + 12 + sz) ys" for b
  proof -
    have b1: "b \<in> used_bytes ?P ?bs" using b ub(1) by blast
    have "b \<in> used_bytes ?P bs1" "b \<notin> {t + 12..<t + 12 + sz}" using b1 u(1) b rng by fastforce+
    then have "b \<in> used_bytes ?P (h_free xs' sz ys')" using ub by blast
    moreover have "b \<notin> {a..<a + r}" using b1 u(2) by blast
    moreover have "b < 2 ^ 32" using b1 used_bytes_range [of ?P ?bs] ends(1) by (auto simp: t_def)
    ultimately show ?thesis using kept2 [of b] kept1 [OF b1] m(3) al(2) by auto
  qed
  ultimately show ?thesis using m(1) s'(1,2) new by blast
qed

section \<open>Properties\<close>

text \<open>
  C1: \<^verbatim>\<open>kmalloc\<close> refines first fit on the list of blocks.  On a well-formed heap a request of \<open>n > 0\<close> bytes
  returns; it returns NULL, changing nothing, exactly when no free block has \<^verbatim>\<open>(n + 3) & ~3\<close> bytes;
  otherwise it returns a 4-aligned pointer to that many bytes, none of which belonged to a block in use, keeps
  the heap well formed (blocks tile the arena, no two free neighbours) and leaves the contents of
  all blocks in use untouched.
\<close>

theorem kmalloc_correct:
  assumes "heap_rep bs s" and "n \<noteq> 0"
  shows "case h_alloc (unat (round4 n)) HEAP_BASE bs of
      None \<Rightarrow> kmalloc n s = Some (0, s) \<and> (\<forall>(sz, f) \<in> set bs. f \<longrightarrow> sz < unat (round4 n))
    | Some (a, bs') \<Rightarrow> \<exists>s'. kmalloc n s = Some (of_nat a, s') \<and> heap_rep bs' s' \<and>
        heap_bytes_kept bs s s' \<and> 4 dvd a \<and>
        {a..<a + unat (round4 n)} \<subseteq> used_bytes HEAP_BASE bs' - used_bytes HEAP_BASE bs"
proof (cases "h_alloc (unat (round4 n)) HEAP_BASE bs")
  case None
  with kmalloc_refines [OF assms] h_alloc_None_iff [of "unat (round4 n)" HEAP_BASE bs]
  show ?thesis by simp
next
  case (Some x)
  then obtain a bs' where x: "h_alloc (unat (round4 n)) HEAP_BASE bs = Some (a, bs')"
    by (cases x) auto
  let ?P = "HEAP_BASE" and ?n = "unat (round4 n)"
  obtain xs sz ys where d: "bs = xs @ (sz, True) # ys" "a = ?P + span xs + 12" "?n \<le> sz"
    using h_alloc_Some [OF x] .
  have "heap_pre (vmem s) ?P xs"
    using assms(1) heap_at_append [of "(sz, True) # ys" "vmem s" ?P xs] by (simp add: heap_rep_def d(1))
  then have "4 dvd a" using heap_pre_dvd d(2) by simp
  with kmalloc_refines [OF assms] x h_alloc_used(2) [OF x] show ?thesis by auto
qed


lemma kheap_init_rep0: "heap_rep [(1048564, True)] (kheap_init bss_kheap)"
  using kheap_init_rep [of bss_kheap] by simp

lemma round4_100: "round4 100 = 100"
  by (simp add: round4_def)

theorem kmalloc_correct_witness:
  "\<exists>s'. kmalloc 100 (kheap_init bss_kheap) = Some (0x80000C, s') \<and>
     heap_rep [(100, False), (1048452, True)] s' \<and> {0x80000C..<0x800070} \<subseteq> used_bytes HEAP_BASE [(100, False), (1048452, True)]"
  using kmalloc_correct [OF kheap_init_rep0, of 100] by (auto simp: round4_100)

text \<open>
  C2: \<^verbatim>\<open>kfree\<close> refines coalescing.  Freeing the block in use at a list position returns, marks it
  free, merges it with a free successor and a free predecessor, keeps the heap well formed, and
  does not touch the contents of the blocks that are still in use.
\<close>

theorem kfree_correct:
  assumes "heap_rep (xs @ (sz, False) # ys) s"
  shows "\<exists>s'. kfree (of_nat (HEAP_BASE + span xs + 12)) s = Some s' \<and>
    heap_rep (h_free xs sz ys) s' \<and> heap_bytes_kept (h_free xs sz ys) s s' \<and>
    used_bytes HEAP_BASE (h_free xs sz ys) =
      used_bytes HEAP_BASE xs \<union> used_bytes (HEAP_BASE + span xs + 12 + sz) ys"
  using kfree_refines [OF assms] used_bytes_h_free by simp

lemma kmalloc_two_example:
  "\<exists>s. heap_rep ([(100, False)] @ (200, False) # [(1048240, True)]) (s :: kheap)"
proof -
  obtain s1 where "heap_rep [(100, False), (1048452, True)] (s1 :: kheap)"
    using kmalloc_refines [OF kheap_init_rep0, of 100] by (auto simp: round4_100)
  from kmalloc_refines [OF this, of 200] show ?thesis
    by (auto simp: round4_def)
qed

theorem kfree_correct_witness:
  "\<exists>s s'. heap_rep [(100, False), (200, False), (1048240, True)] (s :: kheap) \<and>
     kfree 0x80007C s = Some s' \<and> heap_rep [(100, False), (1048452, True)] s'"
proof -
  obtain s :: kheap where s: "heap_rep ([(100, False)] @ (200, False) # [(1048240, True)]) s"
    using kmalloc_two_example by blast
  from kfree_correct [OF s] s show ?thesis
    by (auto simp: h_free_def join_next_def join_prev_def)
qed

text \<open>
  Allocation and release cancel.  Freeing a block right after \<^verbatim>\<open>kmalloc\<close> returned it restores
  the heap to exactly the blocks it had before.
\<close>

theorem kfree_kmalloc_roundtrip:
  assumes "heap_rep bs s" and "kmalloc n s = Some (p, s')" and "p \<noteq> 0"
  shows "\<exists>s''. kfree p s' = Some s'' \<and> heap_rep bs s'' \<and> heap_bytes_kept bs s s''"
proof -
  have n: "n \<noteq> 0" using assms(2,3) by (auto simp: kmalloc_def)
  let ?n = "unat (round4 n)" and ?P = HEAP_BASE
  obtain a bs' where x: "h_alloc ?n ?P bs = Some (a, bs')"
    using kmalloc_refines [OF assms(1) n] assms(2,3) by (cases "h_alloc ?n ?P bs") auto
  then have r: "p = of_nat a" "heap_rep bs' s'" "heap_bytes_kept bs s s'"
    using kmalloc_refines [OF assms(1) n] assms(2) by auto
  obtain xs sz ys where d: "bs = xs @ (sz, True) # ys" "a = ?P + span xs + 12" "?n \<le> sz"
    "bs' = xs @ (if sz > ?n + 16 then (?n, False) # (sz - ?n - 12, True) # ys else (sz, False) # ys)"
    using h_alloc_Some [OF x] .
  have nf: "xs \<noteq> [] \<Longrightarrow> \<not> snd (last xs)" "ys \<noteq> [] \<Longrightarrow> \<not> snd (hd ys)"
    using assms(1) by (auto simp: heap_rep_def d(1) no_adj_append no_adj_Cons)
  have "\<exists>sz' ys'. bs' = xs @ (sz', False) # ys' \<and> h_free xs sz' ys' = bs"
  proof (cases "sz > ?n + 16")
    case True
    then show ?thesis using d(1,4) nf by (auto simp: h_free_def join_next_def join_prev_def)
  next
    case False
    then show ?thesis using d(1,4) nf
      by (cases ys) (auto simp: h_free_def join_next_def join_prev_def split: bool.splits)
  qed
  then obtain sz' ys' where e: "bs' = xs @ (sz', False) # ys'" "h_free xs sz' ys' = bs" by blast
  obtain s'' where s'': "kfree p s' = Some s''" "heap_rep bs s''" "heap_bytes_kept bs s' s''"
    using kfree_refines [of xs sz' ys' s'] r(1,2) e d(2) by auto
  have "heap_bytes_kept bs s s''"
    using heap_bytes_kept_trans r(3) s''(3) .
  with s'' show ?thesis by blast
qed

theorem kfree_kmalloc_roundtrip_witness:
  "\<exists>s1 s2. kmalloc 100 (kheap_init bss_kheap) = Some (0x80000C, s1) \<and> kfree 0x80000C s1 = Some s2 \<and>
     heap_rep [(1048564, True)] s2"
proof -
  obtain s1 where s1: "kmalloc 100 (kheap_init bss_kheap) = Some (0x80000C, s1)"
    using kmalloc_refines [OF kheap_init_rep0, of 100] by (auto simp: round4_100)
  with kfree_kmalloc_roundtrip [OF kheap_init_rep0 s1] show ?thesis by auto
qed

text \<open>
  C3: \<^verbatim>\<open>krealloc\<close> of a block in use.  For sizes up to \<^verbatim>\<open>0xFFFFFFFC\<close> it returns; NULL leaves everything
  as it was, otherwise the result points to at least the requested bytes of a block in use, holds
  the whole contents of the old block, and the contents of all other blocks are unchanged.
\<close>

theorem krealloc_correct:
  assumes "heap_rep (xs @ (sz, False) # ys) s" and "unat n \<le> 2 ^ 32 - 4"
  shows "\<exists>p s' bs'. krealloc (of_nat (HEAP_BASE + span xs + 12)) n s = Some (of_nat p, s') \<and> heap_rep bs' s' \<and>
    (if p = 0 then s' = s
     else {p..<p + unat n} \<subseteq> used_bytes HEAP_BASE bs' \<and>
       (\<forall>k < sz. vmem s' (of_nat (p + k)) = vmem s (of_nat (HEAP_BASE + span xs + 12 + k))) \<and>
       (\<forall>b \<in> used_bytes HEAP_BASE xs \<union> used_bytes (HEAP_BASE + span xs + 12 + sz) ys.
          vmem s' (of_nat b) = vmem s (of_nat b)))"
proof -
  let ?t = "HEAP_BASE + span xs" and ?bs = "xs @ (sz, False) # ys" and ?r = "unat (round4 n)"
  have at: "heap_at (vmem s) HEAP_BASE ?bs" using assms(1) by (simp add: heap_rep_def)
  have hs: "unat (hb_size (vmem s) (of_nat ?t)) = sz"
    using at heap_at_append [of "(sz, False) # ys" "vmem s" HEAP_BASE xs] by (simp add: hdr_def del: of_nat_add)
  have te: "?t + 12 + sz \<le> HEAP_END" using heap_at_end [OF at] by simp
  have ptr: "(of_nat (?t + 12) :: u32) - HB_SIZE = of_nat ?t" "(of_nat (?t + 12) :: u32) \<noteq> 0"
    using addr_nonzero [of "?t + 12"] te by simp_all
  have k: "krealloc (of_nat (?t + 12)) n s =
      (if unat n \<le> sz then Some (of_nat (?t + 12), s)
       else (case kmalloc n s of None \<Rightarrow> None
             | Some (q, s1) \<Rightarrow> if q \<noteq> 0
                 then (case krealloc_copy (of_nat ?t) q (of_nat (?t + 12)) 0 (vmem s1) of None \<Rightarrow> None
                       | Some m \<Rightarrow> map_option (\<lambda>s. (q, s)) (kfree (of_nat (?t + 12)) (s1\<lparr>vmem := m\<rparr>)))
                 else Some (q, s1)))"
    using ptr(2) hs by (simp only: krealloc_def Let_def ptr(1) word_le_nat_alt if_False)
  show ?thesis
  proof (cases "unat n \<le> sz")
    case True
    have "{?t + 12..<?t + 12 + unat n} \<subseteq> used_bytes HEAP_BASE ?bs"
      using True by (auto simp: used_bytes_append)
    with True k assms(1) show ?thesis
      by (intro exI [of _ "?t + 12"] exI [of _ s] exI [of _ ?bs]) simp
  next
    case False
    then have n: "n \<noteq> 0" by auto
    have r: "unat n \<le> ?r" using round4_eq [OF assms(2)] by simp
    show ?thesis
    proof (cases "h_alloc ?r HEAP_BASE ?bs")
      case None
      with kmalloc_refines [OF assms(1) n] k False assms(1) show ?thesis
        by (intro exI [of _ 0] exI [of _ s] exI [of _ ?bs]) simp
    next
      case (Some x)
      then obtain a bs1 where x: "h_alloc ?r HEAP_BASE ?bs = Some (a, bs1)" by (cases x) auto
      then obtain s1 where s1: "kmalloc n s = Some (of_nat a, s1)" "heap_rep bs1 s1" "heap_bytes_kept ?bs s s1"
        using kmalloc_refines [OF assms(1) n] by auto
      have a: "0 < a" "a \<le> HEAP_END"
        using h_alloc_used(3) [OF x] heap_at_end [OF at] h_alloc_Some [OF x] by force+
      have "sz < ?r" using False r by simp
      from krealloc_move [OF assms(1) x this s1(2,3)] obtain m s' bs' where
        "krealloc_copy (of_nat ?t) (of_nat a) (of_nat (?t + 12)) 0 (vmem s1) = Some m"
        "kfree (of_nat (?t + 12)) (s1\<lparr>vmem := m\<rparr>) = Some s'" and res: "heap_rep bs' s'"
        "{a..<a + ?r} \<subseteq> used_bytes HEAP_BASE bs'"
        "\<forall>k < sz. vmem s' (of_nat (a + k)) = vmem s (of_nat (?t + 12 + k))"
        "\<forall>b \<in> used_bytes HEAP_BASE xs \<union> used_bytes (?t + 12 + sz) ys. vmem s' (of_nat b) = vmem s (of_nat b)"
        by blast
      then have "krealloc (of_nat (?t + 12)) n s = Some (of_nat a, s')"
        using k False s1(1) addr_nonzero [OF a] by (simp del: of_nat_add)
      moreover have "{a..<a + unat n} \<subseteq> used_bytes HEAP_BASE bs'" using res(2) r by auto
      ultimately show ?thesis using res a(1)
        by (intro exI [of _ a] exI [of _ s'] exI [of _ bs']) simp
    qed
  qed
qed

theorem krealloc_correct_witness:
  "\<exists>s p s' bs'. heap_rep [(100, False), (200, False), (1048240, True)] (s :: kheap) \<and>
     krealloc 0x80000C 400 s = Some (of_nat p, s') \<and> heap_rep bs' s' \<and>
     (p \<noteq> 0 \<longrightarrow> (\<forall>k < 100. vmem s' (of_nat (p + k)) = vmem s (of_nat (0x80000C + k))))"
proof -
  obtain s :: kheap where s: "heap_rep ([(100, False)] @ (200, False) # [(1048240, True)]) s"
    using kmalloc_two_example by blast
  then have s0: "heap_rep ([] @ (100, False) # [(200, False), (1048240, True)]) s" by simp
  have "unat (400 :: u32) \<le> 2 ^ 32 - 4" by simp
  from krealloc_correct [OF s0 this] obtain p s' bs' where
    r: "krealloc (of_nat (HEAP_BASE + span [] + 12)) 400 s = Some (of_nat p, s')" "heap_rep bs' s'"
    and c: "p \<noteq> 0 \<longrightarrow> (\<forall>k < 100. vmem s' (of_nat (p + k)) = vmem s (of_nat (HEAP_BASE + span [] + 12 + k)))"
    by metis
  have "krealloc 0x80000C 400 s = Some (of_nat p, s')" using r(1) by simp
  moreover have "p \<noteq> 0 \<longrightarrow> (\<forall>k < 100. vmem s' (of_nat (p + k)) = vmem s (of_nat (0x80000C + k)))"
    using c by simp
  ultimately show ?thesis using r(2) s by auto
qed


text \<open>
  The rounding of the request wraps around for the three largest sizes: the allocator then hands
  out a block of no bytes at all.
\<close>

lemma kmalloc_size_wraps:
  "\<exists>s'. kmalloc 0xFFFFFFFF (kheap_init bss_kheap) = Some (0x80000C, s') \<and>
     heap_rep [(0, False), (1048552, True)] s'"
proof -
  have "round4 0xFFFFFFFF = 0" by (simp add: round4_def)
  with kmalloc_refines [OF kheap_init_rep0, of "0xFFFFFFFF"] show ?thesis by auto
qed

end
