(* ===== verification/Hexa_Process.thy ===== *)
theory Hexa_Process
  imports Hexa_Heap Hexa_Ring
begin

text \<open>
  Tasks (\<^verbatim>\<open>process.c\<close>): creation, exit, wait, kill, reaping, descriptors, the scheduler and the
  per-task event queues.  The table of 16 tasks is a list of records.  The stacks inside the table
  are memory: they are written at their addresses in \<open>vmem\<close>, where \<open>tasks_addr\<close> is the address
  that the linker gives the table.  A switch to another task does not return to its caller; the
  operations that switch return the task that runs next.
\<close>

section \<open>State\<close>

abbreviation MAX_TASKS :: nat where "MAX_TASKS \<equiv> 16"
abbreviation STACK_SIZE :: u32 where "STACK_SIZE \<equiv> 8192"
abbreviation MAX_FDS :: nat where "MAX_FDS \<equiv> 16"
abbreviation PROC_NAME_LEN :: nat where "PROC_NAME_LEN \<equiv> 24"
abbreviation EVENT_QUEUE_SIZE :: nat where "EVENT_QUEUE_SIZE \<equiv> 16"

datatype task_state = TASK_READY | TASK_RUNNING | TASK_BLOCKED | TASK_ZOMBIE | TASK_DEAD

record fd_entry =
  fd_type :: int
  fd_ref :: int
  fd_pos :: int
  fd_flags :: int

record event =
  event_type :: u32
  sender_pid :: u32
  sender_snap :: u32
  payload_hash :: u32
  ev_timestamp :: u32

record task =
  t_pid :: int
  t_state :: task_state
  t_exit_code :: int
  t_parent_pid :: int
  t_priority :: int
  t_esp :: u32
  t_ebp :: u32
  t_page_dir :: u32
  t_heap_brk :: u32
  t_kernel_esp :: u32
  t_name :: bytes
  t_fds :: "fd_entry list"
  t_event_queue :: "event list"
  t_event_head :: nat
  t_event_tail :: nat
  t_event_pending :: bool

record kproc = kheap +
  tasks :: "task list"
  current_task :: nat
  num_tasks :: int
  next_pid :: int
  tss :: "u32 list"
  tasks_addr :: u32
  system_ticks :: u32

text \<open>
  The counters \<^verbatim>\<open>num_tasks\<close> and \<^verbatim>\<open>next_pid\<close> are 32-bit \<^verbatim>\<open>int\<close>s: the increment and decrement
  instructions of the target wrap around.
\<close>

definition int32 :: "int \<Rightarrow> int" where
  "int32 x = to_int (of_int x)"

definition upd_task :: "nat \<Rightarrow> (task \<Rightarrow> task) \<Rightarrow> 'a kproc_scheme \<Rightarrow> 'a kproc_scheme" where
  "upd_task i f s = s\<lparr>tasks := (tasks s)[i := f (tasks s ! i)]\<rparr>"

text \<open>\<^verbatim>\<open>for (i = 0; i < MAX_TASKS; i++) if (P(i)) ...\<close> with an exit at the first match.\<close>

definition find_task :: "(nat \<Rightarrow> task \<Rightarrow> bool) \<Rightarrow> 'a kproc_scheme \<Rightarrow> nat option" where
  "find_task P s = find (\<lambda>i. P i (tasks s ! i)) [0..<MAX_TASKS]"

definition cur_task :: "'a kproc_scheme \<Rightarrow> task" where
  "cur_task s = tasks s ! current_task s"

section \<open>Creation\<close>

definition alloc_pid :: "'a kproc_scheme \<Rightarrow> nat option \<times> 'a kproc_scheme" where
  "alloc_pid s =
     (case find_task (\<lambda>i t. t_state t = TASK_DEAD) s of
        None \<Rightarrow> (None, s)
      | Some i \<Rightarrow> (Some i, (upd_task i (\<lambda>t. t\<lparr>t_pid := next_pid s\<rparr>) s)\<lparr>next_pid := int32 (next_pid s + 1)\<rparr>))"

definition init_task :: "task \<Rightarrow> task" where
  "init_task t = t\<lparr>t_pid := -1, t_state := TASK_DEAD, t_esp := 0, t_parent_pid := -1, t_priority := 1,
     t_page_dir := 0, t_heap_brk := 0, t_name := put_bytes 0 [0] (t_name t),
     t_event_head := 0, t_event_tail := 0, t_event_pending := False,
     t_fds := fold (\<lambda>i fs. fs[i := (fs ! i)\<lparr>fd_type := 3, fd_ref := 0\<rparr>]) [0, 1, 2]
       (map (\<lambda>f. f\<lparr>fd_type := 0, fd_ref := -1\<rparr>) (t_fds t)),
     t_event_queue := map (\<lambda>e. e\<lparr>event_type := 0, sender_pid := 0, payload_hash := 0, ev_timestamp := 0\<rparr>)
       (t_event_queue t)\<rparr>"

definition proc_init :: "'a kproc_scheme \<Rightarrow> 'a kproc_scheme" where
  "proc_init s = s\<lparr>tasks := map init_task (tasks s), tss := (replicate 26 0)[1 := 0x10],
     current_task := 0, num_tasks := 0\<rparr>"


text \<open>\<^verbatim>\<open>&tasks[i].stack\<close>; the offset and the size of the structure are those of \<^verbatim>\<open>struct task\<close>.\<close>

definition task_stack :: "nat \<Rightarrow> 'a kproc_scheme \<Rightarrow> u32" where
  "task_stack i s = tasks_addr s + of_nat i * 8844 + 40"

text \<open>A sequence of \<^verbatim>\<open>*--sp = w\<close>.\<close>

fun push_words :: "u32 list \<Rightarrow> u32 \<times> mem \<Rightarrow> u32 \<times> mem" where
  "push_words [] sm = sm"
| "push_words (w # ws) (sp, m) = push_words ws (sp - 4, wr32 (sp - 4) w m)"

definition first_frame :: "u32 \<Rightarrow> u32 \<Rightarrow> u32 \<Rightarrow> u32 \<Rightarrow> u32 list" where
  "first_frame ss stk code entry =
     [ss, stk, 0x202, code, entry, 0, 0, 0, 0, 0, 0, 0, 0, 0, 0, ss, ss, ss, ss]"

definition set_name :: "bytes \<Rightarrow> task \<Rightarrow> task" where
  "set_name name t = t\<lparr>t_name := put_bytes 0 (name_bytes PROC_NAME_LEN name) (t_name t)\<rparr>"

definition parent_of_new :: "'a kproc_scheme \<Rightarrow> int" where
  "parent_of_new s = (if current_task s < MAX_TASKS then t_pid (cur_task s) else -1)"

definition proc_create :: "u32 \<Rightarrow> bytes \<Rightarrow> int \<Rightarrow> 'a kproc_scheme \<Rightarrow> int \<times> 'a kproc_scheme" where
  "proc_create entry name priority s =
     (if num_tasks s \<ge> int MAX_TASKS then (-1, s)
      else case alloc_pid s of
        (None, s1) \<Rightarrow> (-1, s1)
      | (Some slot, s1) \<Rightarrow>
          let s2 = upd_task slot (\<lambda>t. set_name name (t\<lparr>t_state := TASK_READY,
                     t_priority := (if priority > 0 then priority else 1)\<rparr>)) s1;
              stk = task_stack slot s2 + STACK_SIZE;
              (sp, m) = push_words (first_frame 0x10 stk 0x08 entry) (stk, vmem s2);
              s3 = upd_task slot (\<lambda>t. t\<lparr>t_parent_pid := parent_of_new s2,
                     t_page_dir := get_kernel_page_dir s2, t_esp := sp, t_ebp := 0, t_kernel_esp := stk,
                     t_heap_brk := 0\<rparr>) (s2\<lparr>vmem := m\<rparr>)
          in (t_pid (tasks s3 ! slot), s3\<lparr>num_tasks := int32 (num_tasks s3 + 1)\<rparr>))"

definition proc_create_user :: "u32 \<Rightarrow> bytes \<Rightarrow> 'a kproc_scheme \<Rightarrow> int \<times> 'a kproc_scheme" where
  "proc_create_user entry name s =
     (if num_tasks s \<ge> int MAX_TASKS then (-1, s)
      else case alloc_pid s of
        (None, s1) \<Rightarrow> (-1, s1)
      | (Some slot, s1) \<Rightarrow>
          let s2 = upd_task slot (\<lambda>t. set_name name (t\<lparr>t_state := TASK_READY\<rparr>)) s1;
              s3 = upd_task slot (\<lambda>t. t\<lparr>t_parent_pid := parent_of_new s2, t_priority := 1\<rparr>) s2
          in case pmm_alloc s3 of (user_stack, s4) \<Rightarrow>
             if user_stack = 0 then (-1, s4)
             else let s5 = map_page user_stack user_stack 0x007 s4;
                      stk = user_stack + of_nat PAGE_SIZE;
                      (sp, m) = push_words (first_frame 0x20 stk 0x18 entry) (stk, vmem s5);
                      s6 = upd_task slot (\<lambda>t. t\<lparr>t_esp := sp, t_ebp := 0,
                             t_kernel_esp := task_stack slot s5 + STACK_SIZE\<rparr>) (s5\<lparr>vmem := m\<rparr>)
                  in case create_user_page_dir s6 of (pd, s7) \<Rightarrow>
                     let s8 = upd_task slot (\<lambda>t. t\<lparr>t_page_dir := pd, t_heap_brk := 0\<rparr>) s7
                     in (t_pid (tasks s8 ! slot), s8\<lparr>num_tasks := int32 (num_tasks s8 + 1)\<rparr>))"

section \<open>Termination and waiting\<close>

definition runnable :: "task \<Rightarrow> bool" where
  "runnable t \<longleftrightarrow> t_state t = TASK_READY \<or> t_state t = TASK_RUNNING"

text \<open>Operations that may end in \<^verbatim>\<open>proc_exit\<close>: the returned value, or where control went instead.\<close>

datatype 'r flow = Returns 'r | Exits "nat option"

text \<open>
  \<^verbatim>\<open>proc_exit\<close> never returns to its caller: the result is the task it switches to, or \<open>None\<close> if it
  halts the processor for lack of one.
\<close>

definition proc_exit :: "int \<Rightarrow> 'a kproc_scheme \<Rightarrow> nat option \<times> 'a kproc_scheme" where
  "proc_exit code s =
     (let c = current_task s;
          s1 = upd_task c (\<lambda>t. t\<lparr>t_exit_code := code, t_state := TASK_ZOMBIE, t_pid := -1\<rparr>) s;
          s2 = s1\<lparr>num_tasks := int32 (num_tasks s1 - 1)\<rparr>;
          s3 = s2\<lparr>tasks := map (\<lambda>t. if t_state t \<noteq> TASK_DEAD \<and> t_parent_pid t = t_pid (tasks s2 ! c)
                                   then t\<lparr>t_parent_pid := -1\<rparr> else t) (tasks s2)\<rparr>
      in case find (\<lambda>n. runnable (tasks s3 ! n)) (map (\<lambda>i. (c + 1 + i) mod MAX_TASKS) [0..<MAX_TASKS * 2]) of
           None \<Rightarrow> (None, s3)
         | Some n \<Rightarrow>
             (Some n, (upd_task n (\<lambda>t. t\<lparr>t_state := TASK_RUNNING\<rparr>) s3)
                \<lparr>current_task := n, tss := (tss s3)[0 := t_kernel_esp (tasks s3 ! n)]\<rparr>))"

text \<open>The result is the returned pid and the status stored through the pointer, if any.\<close>

definition proc_wait :: "'a kproc_scheme \<Rightarrow> (int \<times> int option) \<times> 'a kproc_scheme" where
  "proc_wait s =
     (case find_task (\<lambda>i t. t_parent_pid t = t_pid (cur_task s) \<and> t_state t = TASK_ZOMBIE) s of
        None \<Rightarrow> ((-1, None), s)
      | Some i \<Rightarrow> ((t_pid (tasks s ! i), Some (t_exit_code (tasks s ! i))),
                  upd_task i (\<lambda>t. t\<lparr>t_state := TASK_DEAD\<rparr>) s))"

definition proc_kill :: "int \<Rightarrow> 'a kproc_scheme \<Rightarrow> int flow \<times> 'a kproc_scheme" where
  "proc_kill pid s =
     (if pid \<le> 0 then (Returns (-1), s)
      else case find_task (\<lambda>i t. t_pid t = pid \<and> t_state t \<noteq> TASK_DEAD) s of
        None \<Rightarrow> (Returns (-1), s)
      | Some i \<Rightarrow>
          if i = current_task s then (case proc_exit (-1) s of (n, s1) \<Rightarrow> (Exits n, s1))
          else let s1 = upd_task i (\<lambda>t. t\<lparr>t_state := TASK_ZOMBIE, t_exit_code := -1\<rparr>) s
               in (Returns 0, s1\<lparr>num_tasks := int32 (num_tasks s1 - 1)\<rparr>))"

definition proc_reap_zombies :: "'a kproc_scheme \<Rightarrow> 'a kproc_scheme" where
  "proc_reap_zombies s =
     s\<lparr>tasks := map (\<lambda>t. if t_state t = TASK_ZOMBIE then t\<lparr>t_state := TASK_DEAD\<rparr> else t) (tasks s)\<rparr>"

section \<open>Descriptors\<close>

text \<open>The result stands for the pointer to the entry: the task and the descriptor.\<close>

definition proc_get_fd_entry :: "int \<Rightarrow> int \<Rightarrow> 'a kproc_scheme \<Rightarrow> (nat \<times> nat) option" where
  "proc_get_fd_entry pid fd s =
     (case find_task (\<lambda>i t. t_pid t = pid \<or> pid = -1) s of
        None \<Rightarrow> None
      | Some i \<Rightarrow> if 0 \<le> fd \<and> fd < int MAX_FDS \<and> fd_type (t_fds (tasks s ! i) ! nat fd) \<noteq> 0
                  then Some (i, nat fd) else None)"

definition proc_alloc_fd :: "int \<Rightarrow> int \<Rightarrow> int \<Rightarrow> 'a kproc_scheme \<Rightarrow> int \<times> 'a kproc_scheme" where
  "proc_alloc_fd pid type ref s =
     (case find_task (\<lambda>i t. t_pid t = pid) s of
        None \<Rightarrow> (-1, s)
      | Some i \<Rightarrow> (case find (\<lambda>f. fd_type (t_fds (tasks s ! i) ! f) = 0) [3..<MAX_FDS] of
            None \<Rightarrow> (-1, s)
          | Some f \<Rightarrow> (int f, upd_task i (\<lambda>t. t\<lparr>t_fds := (t_fds t)[f := (t_fds t ! f)
                \<lparr>fd_type := type, fd_ref := ref, fd_pos := 0, fd_flags := 0\<rparr>]\<rparr>) s)))"

definition proc_free_fd :: "int \<Rightarrow> int \<Rightarrow> 'a kproc_scheme \<Rightarrow> 'a kproc_scheme" where
  "proc_free_fd pid fd s =
     (case find_task (\<lambda>i t. t_pid t = pid) s of
        None \<Rightarrow> s
      | Some i \<Rightarrow> if 0 \<le> fd \<and> fd < int MAX_FDS
                  then upd_task i (\<lambda>t. t\<lparr>t_fds := (t_fds t)[nat fd := (t_fds t ! nat fd)
                         \<lparr>fd_type := 0, fd_ref := -1\<rparr>]\<rparr>) s
                  else s)"

section \<open>Scheduler\<close>

text \<open>The inner loop of one pass over the candidates \<^verbatim>\<open>(cur + 1) % 16, (cur + 2) % 16, ...\<close>\<close>

fun schedule_pass :: "nat \<Rightarrow> task list \<Rightarrow> nat \<Rightarrow> nat list \<Rightarrow> nat \<Rightarrow> nat" where
  "schedule_pass pass ts cur [] n = n"
| "schedule_pass pass ts cur (c # ds) n =
     (if runnable (ts ! c)
      then if pass = 0 \<and> t_priority (ts ! c) < t_priority (ts ! n) then schedule_pass pass ts cur ds n
           else if pass = 1 then c
           else if n = cur \<or> t_priority (ts ! c) > t_priority (ts ! n) then schedule_pass pass ts cur ds c
           else schedule_pass pass ts cur ds n
      else schedule_pass pass ts cur ds n)"

definition schedule_next :: "task list \<Rightarrow> nat \<Rightarrow> nat" where
  "schedule_next ts cur =
     (let cands = map (\<lambda>i. (cur + i) mod MAX_TASKS) [1..<MAX_TASKS];
          n = schedule_pass 0 ts cur cands cur
      in if n \<noteq> cur then n else schedule_pass 1 ts cur cands n)"

definition schedule :: "u32 \<Rightarrow> 'a kproc_scheme \<Rightarrow> nat option \<times> 'a kproc_scheme" where
  "schedule r s =
     (if num_tasks s \<le> 1 then (None, s)
      else let cur = current_task s;
               s1 = upd_task cur (\<lambda>t. t\<lparr>t_esp := r,
                      t_state := (if t_state t = TASK_RUNNING then TASK_READY else t_state t)\<rparr>) s;
               n = schedule_next (tasks s1) cur
           in if n = cur then (None, s1)
              else (Some n, switch_page_dir (t_page_dir (tasks s1 ! n))
                     ((upd_task n (\<lambda>t. t\<lparr>t_state := TASK_RUNNING\<rparr>) s1)
                        \<lparr>current_task := n, tss := (tss s1)[0 := t_kernel_esp (tasks s1 ! n)]\<rparr>)))"

text \<open>What the switch sequence (\<^verbatim>\<open>add $16, popa, add $8, iret\<close>) loads into eip, cs and eflags.\<close>

definition resume_frame :: "mem \<Rightarrow> u32 \<Rightarrow> u32 \<times> u32 \<times> u32" where
  "resume_frame m esp = (let sp = esp + 16 + 32 + 8 in (rd32 m sp, rd32 m (sp + 4), rd32 m (sp + 8)))"

section \<open>Events\<close>

definition event_put :: "event \<Rightarrow> task \<Rightarrow> task option" where
  "event_put ev t =
     (let nxt = (t_event_head t + 1) mod EVENT_QUEUE_SIZE
      in if nxt = t_event_tail t then None
         else Some (t\<lparr>t_event_queue := (t_event_queue t)[t_event_head t := ev],
                      t_event_head := nxt, t_event_pending := True\<rparr>))"

definition process_event_send :: "int \<Rightarrow> u32 \<Rightarrow> u32 \<Rightarrow> 'a kproc_scheme \<Rightarrow> int \<times> 'a kproc_scheme" where
  "process_event_send target type hash s =
     (case find_task (\<lambda>i t. t_pid t = target \<and> t_state t \<noteq> TASK_DEAD) s of
        None \<Rightarrow> (-1, s)
      | Some i \<Rightarrow>
          (case event_put \<lparr>event_type = type, sender_pid = of_int (t_pid (cur_task s)), sender_snap = 0,
                   payload_hash = hash, ev_timestamp = system_ticks s\<rparr> (tasks s ! i) of
             None \<Rightarrow> (-1, s)
           | Some t' \<Rightarrow> (0, upd_task i (\<lambda>_. t') s)))"

definition event_get :: "task \<Rightarrow> (event \<times> task) option" where
  "event_get t =
     (if t_event_tail t = t_event_head t then None
      else let tl' = (t_event_tail t + 1) mod EVENT_QUEUE_SIZE
           in Some (t_event_queue t ! t_event_tail t,
                t\<lparr>t_event_tail := tl',
                  t_event_pending := (if tl' = t_event_head t then False else t_event_pending t)\<rparr>))"

text \<open>The result is the returned value and the event stored through the pointer, if any.\<close>

definition process_event_poll :: "u32 \<Rightarrow> 'a kproc_scheme \<Rightarrow> (int \<times> event option) \<times> 'a kproc_scheme" where
  "process_event_poll type_mask s =
     (let t = cur_task s
      in case event_get t of
           None \<Rightarrow> ((-1, None), upd_task (current_task s) (\<lambda>t. t\<lparr>t_event_pending := False\<rparr>) s)
         | Some (ev, t') \<Rightarrow>
             if type_mask \<noteq> 0 \<and> event_type ev AND type_mask = 0 then ((-1, None), s)
             else ((to_int (event_type ev), Some ev), upd_task (current_task s) (\<lambda>_. t') s))"

definition page_fault_handler :: "u32 \<Rightarrow> u32 \<Rightarrow> u32 \<Rightarrow> 'a kproc_scheme \<Rightarrow> int flow \<times> 'a kproc_scheme" where
  "page_fault_handler cr2 err eip s =
     (if err AND 4 \<noteq> 0 \<or> cr2 \<ge> 0x40000000
      then (case proc_exit (-1) (log_write_hex LOG_LEVEL_WARN (cs ''PF killing task: addr='') cr2 s) of
              (n, s1) \<Rightarrow> (Exits n, s1))
      else (Returns 1, log_write_hex LOG_LEVEL_WARN (cs ''EIP='') eip
                 (log_write_hex LOG_LEVEL_WARN (cs ''Kernel PF at '') cr2 s)))"

definition bss_event :: event where
  "bss_event = \<lparr>event_type = 0, sender_pid = 0, sender_snap = 0, payload_hash = 0, ev_timestamp = 0\<rparr>"

definition bss_fd :: fd_entry where
  "bss_fd = \<lparr>fd_type = 0, fd_ref = 0, fd_pos = 0, fd_flags = 0\<rparr>"

definition bss_task :: task where
  "bss_task = \<lparr>t_pid = 0, t_state = TASK_READY, t_exit_code = 0, t_parent_pid = 0, t_priority = 0,
     t_esp = 0, t_ebp = 0, t_page_dir = 0, t_heap_brk = 0, t_kernel_esp = 0, t_name = zeros PROC_NAME_LEN,
     t_fds = replicate MAX_FDS bss_fd, t_event_queue = replicate EVENT_QUEUE_SIZE bss_event,
     t_event_head = 0, t_event_tail = 0, t_event_pending = False\<rparr>"

definition bss_kproc :: kproc where
  "bss_kproc = kheap.extend bss_kheap \<lparr>tasks = replicate MAX_TASKS bss_task, current_task = 0,
     num_tasks = 0, next_pid = 1, tss = replicate 26 0, tasks_addr = 0x200000, system_ticks = 0\<rparr>"

lemma log_write_kproc [simp]:
  "tasks (log_write l m s) = tasks s" "current_task (log_write l m s) = current_task s"
  "num_tasks (log_write l m s) = num_tasks s" "next_pid (log_write l m s) = next_pid s"
  "tss (log_write l m s) = tss s" "tasks_addr (log_write l m s) = tasks_addr s"
  "system_ticks (log_write l m s) = system_ticks s"
  by (subst log_write_frame, simp)+


section \<open>Invariant\<close>

definition task_ok :: "task \<Rightarrow> bool" where
  "task_ok t \<longleftrightarrow> length (t_fds t) = MAX_FDS \<and>
     ring_ok EVENT_QUEUE_SIZE (t_event_queue t) (t_event_tail t) (t_event_head t)"

definition live :: "task \<Rightarrow> bool" where
  "live t \<longleftrightarrow> t_state t \<noteq> TASK_ZOMBIE \<and> t_state t \<noteq> TASK_DEAD"

definition live_count :: "task list \<Rightarrow> int" where
  "live_count ts = int (length (filter live ts))"

text \<open>Every slot holds -1 or a pid handed out earlier, and no pid is in two slots.\<close>

definition pids_ok :: "task list \<Rightarrow> int \<Rightarrow> bool" where
  "pids_ok ts n \<longleftrightarrow> 0 < n \<and> (\<forall>t \<in> set ts. t_pid t = -1 \<or> (0 < t_pid t \<and> t_pid t < n)) \<and>
     (\<forall>i < length ts. \<forall>j < length ts. t_pid (ts ! i) = t_pid (ts ! j) \<longrightarrow> t_pid (ts ! i) \<noteq> -1 \<longrightarrow> i = j)"

definition proc_inv :: "'a kproc_scheme \<Rightarrow> bool" where
  "proc_inv s \<longleftrightarrow> length (tasks s) = MAX_TASKS \<and> (\<forall>t \<in> set (tasks s). task_ok t) \<and>
     pids_ok (tasks s) (next_pid s) \<and> current_task s < MAX_TASKS \<and> num_tasks s \<le> live_count (tasks s) \<and>
     length (tss s) = 26 \<and> tss s ! 1 = 0x10 \<and> tss s ! 2 = 0"

text \<open>
  The counters are \<open>k\<close> steps away from wrapping around: \<open>k\<close> more pids can be handed out, and
  \<open>num_tasks\<close>, which every kill decrements, also one of a zombie, can be decremented \<open>k\<close> more times.
\<close>

definition counters_room :: "nat \<Rightarrow> 'a kproc_scheme \<Rightarrow> bool" where
  "counters_room k s \<longleftrightarrow> next_pid s + int k < 2 ^ 31 \<and> int k - 2 ^ 31 \<le> num_tasks s"

lemma int32_id: "- (2 ^ 31) \<le> x \<Longrightarrow> x < 2 ^ 31 \<Longrightarrow> int32 x = x"
  by (simp add: int32_def to_int_def signed_of_int signed_take_bit_int_eq_self)

lemma counters_room_cong:
  "next_pid s' = next_pid s \<Longrightarrow> num_tasks s' = num_tasks s \<Longrightarrow> counters_room k s' = counters_room k s"
  by (simp add: counters_room_def)

lemma counters_room_Suc: "counters_room (Suc k) s \<Longrightarrow> counters_room k s"
  by (simp add: counters_room_def)

lemma live_count_le: "live_count ts \<le> int (length ts)"
  by (simp add: live_count_def)

text \<open>With room for a step, the counters move by one.\<close>

lemma counters_step:
  assumes "proc_inv s" and "counters_room (Suc k) s"
  shows "int32 (next_pid s + 1) = next_pid s + 1" and "int32 (num_tasks s + 1) = num_tasks s + 1"
    and "int32 (num_tasks s - 1) = num_tasks s - 1"
proof -
  have b: "0 < next_pid s" "next_pid s + 1 < 2 ^ 31" "1 - 2 ^ 31 \<le> num_tasks s" "num_tasks s \<le> 16"
    using assms live_count_le [of "tasks s"] by (auto simp: counters_room_def proc_inv_def pids_ok_def)
  show "int32 (next_pid s + 1) = next_pid s + 1" by (rule int32_id) (use b in simp_all)
  show "int32 (num_tasks s + 1) = num_tasks s + 1" by (rule int32_id) (use b in simp_all)
  show "int32 (num_tasks s - 1) = num_tasks s - 1" by (rule int32_id) (use b in simp_all)
qed

lemma find_task_Some:
  assumes "find_task P s = Some i"
  shows "i < MAX_TASKS" and "P i (tasks s ! i)" and "\<And>j. j < i \<Longrightarrow> \<not> P j (tasks s ! j)"
proof -
  obtain k where k: "k < MAX_TASKS" "[0..<MAX_TASKS] ! k = i" "P i (tasks s ! i)"
    "\<forall>j < k. \<not> P ([0..<MAX_TASKS] ! j) (tasks s ! ([0..<MAX_TASKS] ! j))"
    using assms unfolding find_task_def find_Some_iff by auto
  then have "i = k" by simp
  with k show "i < MAX_TASKS" "P i (tasks s ! i)" "\<And>j. j < i \<Longrightarrow> \<not> P j (tasks s ! j)" by auto
qed

lemma find_task_None: "find_task P s = None \<longleftrightarrow> (\<forall>i < MAX_TASKS. \<not> P i (tasks s ! i))"
  by (auto simp: find_task_def find_None_iff)

lemma count_update:
  "i < length xs \<Longrightarrow> int (length (filter P (xs[i := y]))) =
     int (length (filter P xs)) - of_bool (P (xs ! i)) + of_bool (P y)"
proof (induction xs arbitrary: i)
  case (Cons x xs)
  then show ?case by (cases i) auto
qed simp

lemma live_count_update:
  "i < length ts \<Longrightarrow> live_count (ts[i := t]) = live_count ts - of_bool (live (ts ! i)) + of_bool (live t)"
  by (simp add: live_count_def count_update)

lemma pids_ok_update:
  assumes "pids_ok ts n" and "t_pid t = t_pid (ts ! i) \<or> t_pid t = -1" and "i < length ts"
  shows "pids_ok (ts[i := t]) n"
  using assms unfolding pids_ok_def by (auto simp: nth_list_update all_set_conv_all_nth split: if_splits)

lemma pids_ok_fresh:
  assumes "pids_ok ts n" and "t_pid t = n" and "i < length ts"
  shows "pids_ok (ts[i := t]) (n + 1)"
proof -
  have old: "t_pid (ts ! j) < n" if "j < length ts" for j
    using assms(1) that by (auto simp: pids_ok_def all_set_conv_all_nth)
  have "t_pid (ts ! j) < n + 1" if "j < length ts" for j using old [OF that] by simp
  moreover have "t_pid (ts ! j) \<noteq> n" if "j < length ts" for j using old [OF that] by simp
  ultimately show ?thesis using assms unfolding pids_ok_def
    by (auto simp: nth_list_update all_set_conv_all_nth split: if_splits)
qed

lemma upd_task_fields [simp]:
  "tasks (upd_task i f s) = (tasks s)[i := f (tasks s ! i)]"
  "current_task (upd_task i f s) = current_task s" "num_tasks (upd_task i f s) = num_tasks s"
  "next_pid (upd_task i f s) = next_pid s" "tss (upd_task i f s) = tss s"
  "tasks_addr (upd_task i f s) = tasks_addr s" "vmem (upd_task i f s) = vmem s"
  "system_ticks (upd_task i f s) = system_ticks s"
  by (simp_all add: upd_task_def)

lemma proc_inv_upd:
  assumes "proc_inv s" and "i < MAX_TASKS"
    and "task_ok (f (tasks s ! i))" and "t_pid (f (tasks s ! i)) = t_pid (tasks s ! i) \<or> t_pid (f (tasks s ! i)) = -1"
    and "live (tasks s ! i) \<longrightarrow> live (f (tasks s ! i))"
  shows "proc_inv (upd_task i f s)"
proof -
  have l: "length (tasks s) = MAX_TASKS" using assms(1) by (simp add: proc_inv_def)
  have "pids_ok (tasks (upd_task i f s)) (next_pid s)"
    using pids_ok_update [of "tasks s" "next_pid s" "f (tasks s ! i)" i] assms l by (simp add: proc_inv_def)
  moreover have "\<forall>t \<in> set (tasks (upd_task i f s)). task_ok t"
    using assms(1,3) set_update_subset_insert [of "tasks s" i "f (tasks s ! i)"]
    by (auto simp: proc_inv_def)
  moreover have "live_count (tasks s) \<le> live_count (tasks (upd_task i f s))"
    using assms(2,5) l by (simp add: live_count_update)
  ultimately show ?thesis using assms(1) l by (auto simp: proc_inv_def)
qed

lemma proc_inv_task_ok: "proc_inv s \<Longrightarrow> i < MAX_TASKS \<Longrightarrow> task_ok (tasks s ! i)"
  by (auto simp: proc_inv_def)


subsection \<open>Memory operations do not touch the task table\<close>

lemma pmm_alloc_kproc [simp]:
  "tasks (snd (pmm_alloc s)) = tasks s" "current_task (snd (pmm_alloc s)) = current_task s"
  "num_tasks (snd (pmm_alloc s)) = num_tasks s" "next_pid (snd (pmm_alloc s)) = next_pid s"
  "tss (snd (pmm_alloc s)) = tss s" "tasks_addr (snd (pmm_alloc s)) = tasks_addr s"
  "vmem (snd (pmm_alloc s)) = vmem s"
  by (simp_all add: pmm_alloc_def pmm_set_def split: option.split)

lemma map_page_kproc [simp]:
  "tasks (map_page v p f s) = tasks s" "current_task (map_page v p f s) = current_task s"
  "num_tasks (map_page v p f s) = num_tasks s" "next_pid (map_page v p f s) = next_pid s"
  "tss (map_page v p f s) = tss s" "tasks_addr (map_page v p f s) = tasks_addr s"
  "vmem (map_page v p f s) = vmem s"
  by (simp_all add: map_page_def map_page_in_dir_def ensure_table_def Let_def case_prod_beta)

lemma create_user_page_dir_kproc [simp]:
  "tasks (snd (create_user_page_dir s)) = tasks s"
  "current_task (snd (create_user_page_dir s)) = current_task s"
  "num_tasks (snd (create_user_page_dir s)) = num_tasks s"
  "next_pid (snd (create_user_page_dir s)) = next_pid s"
  "tss (snd (create_user_page_dir s)) = tss s"
  "tasks_addr (snd (create_user_page_dir s)) = tasks_addr s"
  "vmem (snd (create_user_page_dir s)) = vmem s"
  by (simp_all add: create_user_page_dir_def Let_def case_prod_beta)

lemma switch_page_dir_kproc [simp]:
  "tasks (switch_page_dir pd s) = tasks s" "current_task (switch_page_dir pd s) = current_task s"
  "num_tasks (switch_page_dir pd s) = num_tasks s" "next_pid (switch_page_dir pd s) = next_pid s"
  "tss (switch_page_dir pd s) = tss s" "vmem (switch_page_dir pd s) = vmem s"
  by (simp_all add: switch_page_dir_def)


subsection \<open>Every operation keeps the invariant\<close>

lemma proc_inv_cong:
  "tasks s' = tasks s \<Longrightarrow> next_pid s' = next_pid s \<Longrightarrow> current_task s' = current_task s \<Longrightarrow>
   num_tasks s' = num_tasks s \<Longrightarrow> tss s' = tss s \<Longrightarrow> proc_inv s' = proc_inv s"
  by (simp add: proc_inv_def)

lemma task_ok_upd [simp]:
  "task_ok (t\<lparr>t_pid := p\<rparr>) = task_ok t" "task_ok (t\<lparr>t_state := st\<rparr>) = task_ok t"
  "task_ok (t\<lparr>t_exit_code := c\<rparr>) = task_ok t" "task_ok (t\<lparr>t_parent_pid := c\<rparr>) = task_ok t"
  "task_ok (t\<lparr>t_priority := c\<rparr>) = task_ok t" "task_ok (t\<lparr>t_esp := e\<rparr>) = task_ok t"
  "task_ok (t\<lparr>t_ebp := e\<rparr>) = task_ok t" "task_ok (t\<lparr>t_page_dir := e\<rparr>) = task_ok t"
  "task_ok (t\<lparr>t_heap_brk := e\<rparr>) = task_ok t" "task_ok (t\<lparr>t_kernel_esp := e\<rparr>) = task_ok t"
  "task_ok (t\<lparr>t_name := b\<rparr>) = task_ok t" "task_ok (t\<lparr>t_event_pending := q\<rparr>) = task_ok t"
  by (simp_all add: task_ok_def)

lemma task_ok_fds [simp]: "task_ok (t\<lparr>t_fds := (t_fds t)[f := x]\<rparr>) = task_ok t"
  by (simp add: task_ok_def)

lemma find_task_ok: "proc_inv s \<Longrightarrow> find_task P s = Some i \<Longrightarrow> task_ok (tasks s ! i)"
  by (rule proc_inv_task_ok) (auto dest: find_task_Some)

lemma set_name_fields [simp]:
  "task_ok (set_name n t) = task_ok t" "t_pid (set_name n t) = t_pid t" "t_state (set_name n t) = t_state t"
  "t_fds (set_name n t) = t_fds t" "t_priority (set_name n t) = t_priority t"
  by (simp_all add: set_name_def)

lemma proc_init_inv:
  assumes "length (tasks s) = MAX_TASKS" and "0 < next_pid s"
    and "\<forall>t \<in> set (tasks s). length (t_fds t) = MAX_FDS \<and> length (t_event_queue t) = EVENT_QUEUE_SIZE"
  shows "proc_inv (proc_init s)"
proof -
  have "task_ok (init_task t)" "t_pid (init_task t) = -1" "\<not> live (init_task t)" if "t \<in> set (tasks s)" for t
    using assms(3) that by (auto simp: init_task_def task_ok_def ring_ok_def live_def)
  moreover from this have "live_count (map init_task (tasks s)) = 0"
    by (auto simp: live_count_def filter_empty_conv)
  ultimately show ?thesis using assms(1,2)
    by (auto simp: proc_inv_def proc_init_def pids_ok_def)
qed

text \<open>Filling a dead slot with a task that has the next pid.\<close>

lemma proc_inv_fill:
  assumes "proc_inv s" and "i < MAX_TASKS" and "t_state (tasks s ! i) = TASK_DEAD"
    and "t_pid t = next_pid s" and "task_ok t" and "live t"
    and "tasks s' = (tasks s)[i := t]" and "next_pid s' = next_pid s + 1"
    and "current_task s' = current_task s" and "num_tasks s' \<le> num_tasks s + 1" and "tss s' = tss s"
  shows "proc_inv s'"
proof -
  have l: "length (tasks s) = MAX_TASKS" using assms(1) by (simp add: proc_inv_def)
  have "pids_ok (tasks s') (next_pid s')"
    using pids_ok_fresh [of "tasks s" "next_pid s" t i] assms l by (simp add: proc_inv_def)
  moreover have "live_count (tasks s') = live_count (tasks s) + 1"
    using assms(2,3,6,7) l by (simp add: live_count_update live_def)
  moreover have "\<forall>x \<in> set (tasks s'). task_ok x"
    using assms(1,5,7) set_update_subset_insert [of "tasks s" i t] by (auto simp: proc_inv_def)
  ultimately show ?thesis using assms l by (auto simp: proc_inv_def)
qed

lemma alloc_pid_cases:
  obtains (none) "alloc_pid s = (None, s)" and "\<forall>i < MAX_TASKS. t_state (tasks s ! i) \<noteq> TASK_DEAD"
  | (some) i where "i < MAX_TASKS" and "t_state (tasks s ! i) = TASK_DEAD"
      and "alloc_pid s = (Some i, (upd_task i (\<lambda>t. t\<lparr>t_pid := next_pid s\<rparr>) s)\<lparr>next_pid := int32 (next_pid s + 1)\<rparr>)"
proof (cases "find_task (\<lambda>i t. t_state t = TASK_DEAD) s")
  case None
  with none show ?thesis by (simp add: alloc_pid_def find_task_None)
next
  case (Some i)
  with some find_task_Some [OF Some] show ?thesis by (simp add: alloc_pid_def)
qed

lemma proc_create_inv:
  assumes "proc_inv s" and "counters_room (Suc k) s"
  shows "proc_inv (snd (proc_create entry name prio s))"
proof (cases rule: alloc_pid_cases [of s])
  case none
  with assms show ?thesis by (simp add: proc_create_def)
next
  case (some i)
  have l: "length (tasks s) = MAX_TASKS" using assms by (simp add: proc_inv_def)
  note cn = counters_step [OF assms]
  show ?thesis
  proof (cases "num_tasks s \<ge> int MAX_TASKS")
    case True
    with assms show ?thesis by (simp add: proc_create_def)
  next
    case False
    then show ?thesis
      using some(1,2) l proc_inv_task_ok [OF assms(1) some(1)]
      by (intro proc_inv_fill [OF assms(1) some(1,2), where t = "tasks (snd (proc_create entry name prio s)) ! i"])
        (simp_all add: proc_create_def some(3) Let_def case_prod_beta live_def cn)
  qed
qed

lemma proc_create_user_inv:
  assumes "proc_inv s" and "counters_room (Suc k) s"
  shows "proc_inv (snd (proc_create_user entry name s))"
proof (cases rule: alloc_pid_cases [of s])
  case none
  with assms show ?thesis by (simp add: proc_create_user_def)
next
  case (some i)
  have l: "length (tasks s) = MAX_TASKS" using assms by (simp add: proc_inv_def)
  note cn = counters_step [OF assms]
  show ?thesis
  proof (cases "num_tasks s \<ge> int MAX_TASKS")
    case True
    with assms show ?thesis by (simp add: proc_create_user_def)
  next
    case False
    then show ?thesis
      using some(1,2) l proc_inv_task_ok [OF assms(1) some(1)]
      by (intro proc_inv_fill [OF assms(1) some(1,2), where t = "tasks (snd (proc_create_user entry name s)) ! i"])
        (simp_all add: proc_create_user_def some(3) Let_def case_prod_beta live_def cn)
  qed
qed


text \<open>
  Reparenting in \<^verbatim>\<open>proc_exit\<close> compares with the pid of the exiting task after that pid has been set
  to -1, so it changes nothing.
\<close>

definition exit_mark :: "int \<Rightarrow> 'a kproc_scheme \<Rightarrow> 'a kproc_scheme" where
  "exit_mark code s =
     (upd_task (current_task s) (\<lambda>t. t\<lparr>t_exit_code := code, t_state := TASK_ZOMBIE, t_pid := -1\<rparr>) s)
       \<lparr>num_tasks := int32 (num_tasks s - 1)\<rparr>"

definition switch_to :: "nat \<Rightarrow> 'a kproc_scheme \<Rightarrow> 'a kproc_scheme" where
  "switch_to n s = (upd_task n (\<lambda>t. t\<lparr>t_state := TASK_RUNNING\<rparr>) s)
     \<lparr>current_task := n, tss := (tss s)[0 := t_kernel_esp (tasks s ! n)]\<rparr>"

lemma proc_exit_eq:
  assumes "current_task s < length (tasks s)"
  shows "proc_exit code s =
     (case find (\<lambda>n. runnable (tasks (exit_mark code s) ! n))
             (map (\<lambda>i. (current_task s + 1 + i) mod MAX_TASKS) [0..<MAX_TASKS * 2]) of
        None \<Rightarrow> (None, exit_mark code s)
      | Some n \<Rightarrow> (Some n, switch_to n (exit_mark code s)))"
proof -
  let ?s2 = "exit_mark code s"
  have pid: "t_pid (tasks ?s2 ! current_task s) = -1" using assms by (simp add: exit_mark_def)
  have "map (\<lambda>t. if t_state t \<noteq> TASK_DEAD \<and> t_parent_pid t = -1 then t\<lparr>t_parent_pid := -1\<rparr> else t) ts = ts"
    for ts by (rule map_idI) auto
  note id = this
  have "?s2\<lparr>tasks := map (\<lambda>t. if t_state t \<noteq> TASK_DEAD \<and> t_parent_pid t = t_pid (tasks ?s2 ! current_task s)
      then t\<lparr>t_parent_pid := -1\<rparr> else t) (tasks ?s2)\<rparr> = ?s2"
    unfolding pid id by simp
  note reparent = this
  let ?u = "upd_task (current_task s) (\<lambda>t. t\<lparr>t_exit_code := code, t_state := TASK_ZOMBIE, t_pid := -1\<rparr>) s"
  have em: "?u\<lparr>num_tasks := int32 (num_tasks ?u - 1)\<rparr> = exit_mark code s" by (simp add: exit_mark_def)
  show ?thesis unfolding proc_exit_def Let_def em reparent switch_to_def by (rule refl)
qed

lemma exit_mark_inv:
  assumes "proc_inv s" and "counters_room (Suc k) s"
  shows "proc_inv (exit_mark code s)"
proof -
  let ?t = "(cur_task s)\<lparr>t_exit_code := code, t_state := TASK_ZOMBIE, t_pid := -1\<rparr>"
  have c: "current_task s < MAX_TASKS" and l: "length (tasks s) = MAX_TASKS" using assms by (auto simp: proc_inv_def)
  have ts: "tasks (exit_mark code s) = (tasks s)[current_task s := ?t]"
    by (simp add: exit_mark_def cur_task_def)
  have "pids_ok ((tasks s)[current_task s := ?t]) (next_pid s)"
    by (rule pids_ok_update) (use assms c l in \<open>auto simp: proc_inv_def\<close>)
  moreover have "live_count (tasks s) - 1 \<le> live_count ((tasks s)[current_task s := ?t])"
    using c l by (simp add: live_count_update)
  moreover have "\<forall>x \<in> set ((tasks s)[current_task s := ?t]). task_ok x"
    using assms set_update_subset_insert [of "tasks s" "current_task s" ?t] proc_inv_task_ok [OF assms(1) c]
    by (auto simp: proc_inv_def cur_task_def)
  ultimately show ?thesis using assms(1) c l counters_step(3) [OF assms] unfolding proc_inv_def ts by (simp add: exit_mark_def)
qed

lemma switch_to_inv:
  assumes "proc_inv s" and "n < MAX_TASKS"
  shows "proc_inv (switch_to n s)"
proof -
  have "proc_inv (upd_task n (\<lambda>t. t\<lparr>t_state := TASK_RUNNING\<rparr>) s)"
    using assms by (intro proc_inv_upd) (simp_all add: proc_inv_task_ok live_def)
  then show ?thesis using assms(2) by (simp add: proc_inv_def switch_to_def)
qed

lemma find_SomeD: "find P xs = Some x \<Longrightarrow> x \<in> set xs \<and> P x"
  by (auto simp: find_Some_iff)

lemma proc_exit_target:
  assumes "proc_inv s" and "proc_exit code s = (Some n, s')"
  shows "n < MAX_TASKS" and "runnable (tasks s ! n)" and "n \<noteq> current_task s"
    and "s' = switch_to n (exit_mark code s)"
proof -
  have c: "current_task s < length (tasks s)" using assms(1) by (simp add: proc_inv_def)
  have f: "find (\<lambda>n. runnable (tasks (exit_mark code s) ! n))
      (map (\<lambda>i. (current_task s + 1 + i) mod MAX_TASKS) [0..<MAX_TASKS * 2]) = Some n"
    and s': "s' = switch_to n (exit_mark code s)"
    using assms(2) unfolding proc_exit_eq [OF c] by (auto split: option.splits)
  show "n < MAX_TASKS" using find_SomeD [OF f] by auto
  have r: "runnable (tasks (exit_mark code s) ! n)" using find_SomeD [OF f] by simp
  then show "n \<noteq> current_task s" using c by (auto simp: exit_mark_def runnable_def)
  then show "runnable (tasks s ! n)" using r by (simp add: exit_mark_def)
  show "s' = switch_to n (exit_mark code s)" by (rule s')
qed

lemma proc_exit_inv: "proc_inv s \<Longrightarrow> counters_room (Suc k) s \<Longrightarrow> proc_inv (snd (proc_exit code s))"
proof (cases "proc_exit code s")
  case (Pair r s')
  assume inv: "proc_inv s" and cr: "counters_room (Suc k) s"
  then have c: "current_task s < length (tasks s)" by (simp add: proc_inv_def)
  show ?thesis
  proof (cases r)
    case None
    then show ?thesis using Pair inv exit_mark_inv [OF inv cr]
      unfolding proc_exit_eq [OF c] by (auto split: option.splits)
  next
    case (Some n)
    with proc_exit_target [OF inv, of code n s'] Pair exit_mark_inv [OF inv cr] show ?thesis
      by (simp add: switch_to_inv)
  qed
qed

lemma proc_wait_inv:
  assumes "proc_inv s"
  shows "proc_inv (snd (proc_wait s))"
proof (cases "find_task (\<lambda>i t. t_parent_pid t = t_pid (cur_task s) \<and> t_state t = TASK_ZOMBIE) s")
  case (Some i)
  with assms find_task_Some(1,2) [OF Some] find_task_ok [OF assms Some] show ?thesis
    by (auto simp: proc_wait_def live_def intro!: proc_inv_upd)
qed (use assms in \<open>simp add: proc_wait_def\<close>)

lemma proc_kill_inv:
  assumes "proc_inv s" and "counters_room (Suc k) s"
  shows "proc_inv (snd (proc_kill pid s))"
proof (cases "find_task (\<lambda>i t. t_pid t = pid \<and> t_state t \<noteq> TASK_DEAD) s")
  case None
  with assms show ?thesis by (simp add: proc_kill_def)
next
  case (Some i)
  let ?f = "\<lambda>t. t\<lparr>t_state := TASK_ZOMBIE, t_exit_code := -1\<rparr>"
  have i: "i < MAX_TASKS" using find_task_Some(1) [OF Some] .
  have l: "length (tasks s) = MAX_TASKS" using assms by (simp add: proc_inv_def)
  have "pids_ok ((tasks s)[i := ?f (tasks s ! i)]) (next_pid s)"
    by (rule pids_ok_update) (use assms i l in \<open>auto simp: proc_inv_def\<close>)
  moreover have "live_count (tasks s) - 1 \<le> live_count ((tasks s)[i := ?f (tasks s ! i)])"
    using i l by (simp add: live_count_update)
  moreover have "\<forall>x \<in> set ((tasks s)[i := ?f (tasks s ! i)]). task_ok x"
    using assms set_update_subset_insert [of "tasks s" i "?f (tasks s ! i)"] proc_inv_task_ok [OF assms(1) i]
    by (auto simp: proc_inv_def)
  ultimately have "proc_inv ((upd_task i ?f s)\<lparr>num_tasks := num_tasks s - 1\<rparr>)"
    using assms by (simp add: proc_inv_def)
  then show ?thesis
    using Some assms(1) proc_exit_inv [OF assms, of "-1"] counters_step(3) [OF assms] by (simp add: proc_kill_def case_prod_beta Let_def)
qed

lemma proc_reap_inv:
  assumes "proc_inv s"
  shows "proc_inv (proc_reap_zombies s)"
proof -
  define r where "r = (\<lambda>t :: task. if t_state t = TASK_ZOMBIE then t\<lparr>t_state := TASK_DEAD\<rparr> else t)"
  have r: "live (r t) = live t" "t_pid (r t) = t_pid t" "task_ok (r t) = task_ok t" for t
    by (auto simp: live_def r_def)
  have "live_count (map r ts) = live_count ts" "pids_ok (map r ts) n = pids_ok ts n" for ts n
    by (simp_all add: live_count_def pids_ok_def filter_map comp_def r)
  then show ?thesis
    using assms unfolding proc_inv_def proc_reap_zombies_def r_def [symmetric] by (simp add: r)
qed

lemma proc_alloc_fd_inv:
  assumes "proc_inv s"
  shows "proc_inv (snd (proc_alloc_fd pid ty ref s))"
proof (cases "find_task (\<lambda>i t. t_pid t = pid) s")
  case (Some i)
  with assms find_task_Some(1) [OF Some] find_task_ok [OF assms Some] show ?thesis
    by (auto simp: proc_alloc_fd_def live_def intro!: proc_inv_upd split: option.split)
qed (use assms in \<open>simp add: proc_alloc_fd_def\<close>)

lemma proc_free_fd_inv:
  assumes "proc_inv s"
  shows "proc_inv (proc_free_fd pid fd s)"
proof (cases "find_task (\<lambda>i t. t_pid t = pid) s")
  case (Some i)
  with assms find_task_Some(1) [OF Some] find_task_ok [OF assms Some] show ?thesis
    by (auto simp: proc_free_fd_def live_def intro!: proc_inv_upd)
qed (use assms in \<open>simp add: proc_free_fd_def\<close>)


subsection \<open>Event queues\<close>

definition task_events :: "task \<Rightarrow> event list" where
  "task_events t = ring_list EVENT_QUEUE_SIZE (t_event_queue t) (t_event_tail t) (t_event_head t)"

interpretation evq: bounded_fifo task_ok task_events 15 event_put event_get
proof unfold_locales
  fix t :: task and x
  assume ok: "task_ok t"
  then have r: "ring_ok EVENT_QUEUE_SIZE (t_event_queue t) (t_event_tail t) (t_event_head t)"
    by (simp add: task_ok_def)
  show "length (task_events t) \<le> 15" using ring_length_le [OF r] by (simp add: task_events_def)
  { assume "length (task_events t) = 15"
    then show "event_put x t = None" using ring_full_iff [OF r] by (simp add: task_events_def event_put_def) }
  { assume "length (task_events t) < 15"
    then have room: "(t_event_head t + 1) mod EVENT_QUEUE_SIZE \<noteq> t_event_tail t"
      using ring_full_iff [OF r] by (auto simp: task_events_def)
    then show "\<exists>t'. event_put x t = Some t' \<and> task_ok t' \<and> task_events t' = task_events t @ [x]"
      using ring_list_put [OF r room] ring_ok_put [OF r] ok
      by (simp add: event_put_def task_ok_def task_events_def Let_def) }
  { assume "task_events t = []"
    then show "event_get t = None" using ring_list_empty_iff [OF r] by (simp add: task_events_def event_get_def) }
  { fix y ys assume e: "task_events t = y # ys"
    then have ne: "t_event_head t \<noteq> t_event_tail t" using ring_list_empty_iff [OF r] by (auto simp: task_events_def)
    then show "\<exists>t'. event_get t = Some (y, t') \<and> task_ok t' \<and> task_events t' = ys"
      using ring_list_get [OF r ne] ring_ok_get [OF r] ok e
      by (auto simp: event_get_def task_ok_def task_events_def Let_def) }
qed

lemma event_put_fields:
  "event_put e t = Some t' \<Longrightarrow> t_pid t' = t_pid t \<and> t_state t' = t_state t"
  by (auto simp: event_put_def Let_def split: if_splits)

lemma event_get_fields:
  "event_get t = Some (e, t') \<Longrightarrow> t_pid t' = t_pid t \<and> t_state t' = t_state t"
  by (auto simp: event_get_def Let_def split: if_splits)

lemma process_event_send_inv:
  assumes "proc_inv s"
  shows "proc_inv (snd (process_event_send pid ty h s))"
proof (cases "find_task (\<lambda>i t. t_pid t = pid \<and> t_state t \<noteq> TASK_DEAD) s")
  case (Some i)
  let ?ev = "\<lparr>event_type = ty, sender_pid = of_int (t_pid (cur_task s)), sender_snap = 0,
                   payload_hash = h, ev_timestamp = system_ticks s\<rparr>"
  show ?thesis
  proof (cases "event_put ?ev (tasks s ! i)")
    case None
    with Some assms show ?thesis by (simp add: process_event_send_def)
  next
    case (Some t')
    note ok = find_task_ok [OF assms \<open>find_task _ s = Some i\<close>]
    with \<open>find_task _ s = Some i\<close> Some assms find_task_Some(1) [OF \<open>find_task _ s = Some i\<close>]
      evq.enq_SomeD [OF ok Some] event_put_fields [OF Some]
    show ?thesis by (auto simp: process_event_send_def live_def intro!: proc_inv_upd)
  qed
qed (use assms in \<open>simp add: process_event_send_def\<close>)

lemma process_event_poll_inv:
  assumes "proc_inv s"
  shows "proc_inv (snd (process_event_poll m s))"
proof -
  have c: "current_task s < MAX_TASKS" using assms by (simp add: proc_inv_def)
  note ok = proc_inv_task_ok [OF assms c]
  show ?thesis
  proof (cases "event_get (cur_task s)")
    case None
    then show ?thesis using assms c ok
      by (auto simp: process_event_poll_def Let_def live_def intro!: proc_inv_upd)
  next
    case (Some et)
    obtain e t' where et: "et = (e, t')" by (cases et)
    with Some evq.deq_SomeD [OF ok, folded cur_task_def] event_get_fields show ?thesis
      using assms c by (auto simp: process_event_poll_def Let_def live_def cur_task_def intro!: proc_inv_upd)
  qed
qed

lemma schedule_pass_in:
  "schedule_pass p ts cur ds n \<in> insert n (set ds)"
  by (induction p ts cur ds n rule: schedule_pass.induct) auto

lemma schedule_next_less: "cur < MAX_TASKS \<Longrightarrow> schedule_next ts cur < MAX_TASKS"
  using schedule_pass_in [of 0 ts cur "map (\<lambda>i. (cur + i) mod MAX_TASKS) [1..<MAX_TASKS]" cur]
    schedule_pass_in [of 1 ts cur "map (\<lambda>i. (cur + i) mod MAX_TASKS) [1..<MAX_TASKS]" cur]
  by (auto simp: schedule_next_def Let_def)

definition sched_save :: "u32 \<Rightarrow> 'a kproc_scheme \<Rightarrow> 'a kproc_scheme" where
  "sched_save r s = upd_task (current_task s) (\<lambda>t. t\<lparr>t_esp := r,
     t_state := (if t_state t = TASK_RUNNING then TASK_READY else t_state t)\<rparr>) s"

lemma schedule_eq:
  "schedule r s =
     (if num_tasks s \<le> 1 then (None, s)
      else let s1 = sched_save r s; n = schedule_next (tasks s1) (current_task s)
           in if n = current_task s then (None, s1)
              else (Some n, switch_page_dir (t_page_dir (tasks s1 ! n)) (switch_to n s1)))"
  unfolding schedule_def sched_save_def switch_to_def Let_def by (rule refl)

lemma sched_save_inv: "proc_inv s \<Longrightarrow> proc_inv (sched_save r s)"
  unfolding sched_save_def by (rule proc_inv_upd) (auto simp: proc_inv_task_ok live_def proc_inv_def)

lemma sched_save_fields [simp]:
  "current_task (sched_save r s) = current_task s" "num_tasks (sched_save r s) = num_tasks s"
  by (simp_all add: sched_save_def)

lemma schedule_inv:
  assumes "proc_inv s"
  shows "proc_inv (snd (schedule r s))"
proof -
  let ?n = "schedule_next (tasks (sched_save r s)) (current_task s)"
  have "?n < MAX_TASKS" using assms by (intro schedule_next_less) (simp add: proc_inv_def)
  note switch_to_inv [OF sched_save_inv [OF assms] this, of r]
  moreover have "proc_inv (switch_page_dir pd s') = proc_inv s'" for pd and s' :: "'a kproc_scheme"
    by (rule proc_inv_cong) simp_all
  ultimately show ?thesis
    using assms sched_save_inv [OF assms, of r] by (simp add: schedule_eq Let_def)
qed

section \<open>Reachable states\<close>

inductive proc_step :: "'a kproc_scheme \<Rightarrow> 'a kproc_scheme \<Rightarrow> bool" where
  create: "proc_step s (snd (proc_create entry name prio s))"
| create_user: "proc_step s (snd (proc_create_user entry name s))"
| exit: "proc_step s (snd (proc_exit code s))"
| wait: "proc_step s (snd (proc_wait s))"
| kill: "proc_step s (snd (proc_kill pid s))"
| reap: "proc_step s (proc_reap_zombies s)"
| alloc_fd: "proc_step s (snd (proc_alloc_fd pid ty ref s))"
| free_fd: "proc_step s (proc_free_fd pid fd s)"
| sched: "proc_step s (snd (schedule r s))"
| send: "proc_step s (snd (process_event_send pid type hash s))"
| poll: "proc_step s (snd (process_event_poll m s))"
| fault: "proc_step s (snd (page_fault_handler a err eip s))"
| tick: "proc_step s (s\<lparr>system_ticks := system_ticks s + 1\<rparr>)"

text \<open>The states after \<^verbatim>\<open>proc_init\<close> and \<open>n\<close> operations.\<close>

inductive proc_reach :: "'a kproc_scheme \<Rightarrow> nat \<Rightarrow> 'a kproc_scheme \<Rightarrow> bool" for s0 where
  init: "proc_reach s0 0 (proc_init s0)"
| step: "proc_reach s0 n s \<Longrightarrow> proc_step s s' \<Longrightarrow> proc_reach s0 (Suc n) s'"

lemma page_fault_inv: "proc_inv s \<Longrightarrow> counters_room (Suc k) s \<Longrightarrow> proc_inv (snd (page_fault_handler a err eip s))"
proof -
  assume inv: "proc_inv s" and cr: "counters_room (Suc k) s"
  have "proc_inv (log_write_hex l p v t) = proc_inv t" "counters_room k (log_write_hex l p v t) = counters_room k t"
    for l p v k and t :: "'a kproc_scheme"
    by (rule proc_inv_cong counters_room_cong; simp add: log_write_hex_def)+
  with inv cr show ?thesis by (simp add: page_fault_handler_def case_prod_beta proc_exit_inv [of _ k])
qed

lemma proc_exit_counters:
  "current_task s < length (tasks s) \<Longrightarrow> next_pid (snd (proc_exit code s)) = next_pid s \<and> num_tasks (snd (proc_exit code s)) = int32 (num_tasks s - 1)"
  by (simp add: proc_exit_eq exit_mark_def switch_to_def split: option.split)

text \<open>No operation moves a counter by more than one.\<close>

lemma proc_step_counters:
  assumes "proc_step s s'" and "proc_inv s" and "counters_room (Suc k) s"
  shows "counters_room k s'"
proof -
  have c: "current_task s < length (tasks s)" using assms(2) by (simp add: proc_inv_def)
  note cn = counters_step [OF assms(2,3)] and ex = proc_exit_counters [of s, OF c]
  have "next_pid s' \<le> next_pid s + 1 \<and> num_tasks s - 1 \<le> num_tasks s'"
    using assms(1)
  proof (cases rule: proc_step.cases)
    case (create e nm p)
    then show ?thesis
      by (cases rule: alloc_pid_cases [of s]) (simp_all add: proc_create_def Let_def case_prod_beta cn)
  next
    case (create_user e nm)
    then show ?thesis
      by (cases rule: alloc_pid_cases [of s]) (simp_all add: proc_create_user_def Let_def case_prod_beta cn)
  next
    case (exit code)
    then show ?thesis using ex cn by simp
  next
    case (kill pid)
    then show ?thesis using ex cn by (simp add: proc_kill_def case_prod_beta Let_def split: option.split)
  next
    case (fault a err eip)
    then show ?thesis using cn proc_exit_counters [of "log_write_hex LOG_LEVEL_WARN (cs ''PF killing task: addr='') a s" "-1"] c
      by (simp add: page_fault_handler_def case_prod_beta log_write_hex_def)
  next
    case (sched r)
    then show ?thesis by (simp add: schedule_eq Let_def switch_to_def sched_save_def)
  qed (simp_all add: proc_wait_def proc_reap_zombies_def proc_alloc_fd_def proc_free_fd_def process_event_send_def
      process_event_poll_def Let_def split: option.split prod.split)
  then show ?thesis using assms(3) by (auto simp: counters_room_def)
qed

lemma proc_step_inv:
  assumes "proc_step s s'" and "proc_inv s" and "counters_room (Suc k) s"
  shows "proc_inv s'"
  using assms
proof (cases rule: proc_step.cases)
  case tick
  with assms(2) show ?thesis by (simp add: proc_inv_def)
qed (simp_all add: proc_create_inv [of _ k] proc_create_user_inv [of _ k] proc_exit_inv [of _ k] proc_wait_inv proc_kill_inv [of _ k]
    proc_reap_inv proc_alloc_fd_inv proc_free_fd_inv schedule_inv process_event_send_inv
    process_event_poll_inv page_fault_inv [of _ k])

lemma proc_reach_inv:
  "proc_reach s0 n s \<Longrightarrow> proc_inv (proc_init s0) \<Longrightarrow> counters_room (n + k) (proc_init s0) \<Longrightarrow> proc_inv s \<and> counters_room k s"
proof (induction arbitrary: k rule: proc_reach.induct)
  case (step n s s')
  then have "proc_inv s" "counters_room (Suc k) s" using step.IH [of "Suc k"] by simp_all
  with proc_step_inv [OF step.hyps(2)] proc_step_counters [OF step.hyps(2)] show ?case by simp
qed simp

section \<open>Properties\<close>

text \<open>The table before \<^verbatim>\<open>proc_init\<close>; the pids of the tasks that the kernel starts with do not wrap.\<close>

definition boot_proc :: "'a kproc_scheme \<Rightarrow> bool" where
  "boot_proc s \<longleftrightarrow> length (tasks s) = MAX_TASKS \<and> 0 < next_pid s \<and> next_pid s + 2 < 2 ^ 31 \<and>
     (\<forall>t \<in> set (tasks s). length (t_fds t) = MAX_FDS \<and> length (t_event_queue t) = EVENT_QUEUE_SIZE)"

lemma boot_proc_inv: "boot_proc s \<Longrightarrow> proc_inv (proc_init s)"
  by (rule proc_init_inv) (auto simp: boot_proc_def)

lemma proc_init_room: "0 < next_pid s \<Longrightarrow> next_pid s + int k < 2 ^ 31 \<Longrightarrow> counters_room k (proc_init s)"
  by (simp add: counters_room_def proc_init_def)

text \<open>
  C5: in every state that \<^verbatim>\<open>proc_init\<close> and \<open>n\<close> process operations in any order reach, the table has
  its 16 slots with intact descriptor tables and event rings, no pid is held by two slots, every
  pid is positive and was handed out before, the current task is a slot of the table, and
  \<^verbatim>\<open>num_tasks\<close> is at most the number of live tasks.  The counters are 32-bit integers that wrap
  around; the bound on \<open>n\<close>, which is 2147483646 for the first pid 1 of the source, says that the pids
  have not run out.
\<close>

theorem proc_reachable_inv:
  assumes "proc_reach s0 n s" and "boot_proc s0" and "next_pid s0 + int n < 2 ^ 31"
  shows "proc_inv s"
  using proc_reach_inv [OF assms(1) boot_proc_inv [OF assms(2)], of 0] proc_init_room [of s0 n] assms(2,3)
  by (simp add: boot_proc_def)

text \<open>
  The bound is needed: the task created with the largest pid is the last one with a new pid, the next
  one gets the smallest \<^verbatim>\<open>int\<close>, which \<^verbatim>\<open>proc_kill\<close> refuses.
\<close>

lemma next_pid_wraps:
  assumes "next_pid s = 2 ^ 31 - 1" and "alloc_pid s = (Some i, s')"
  shows "next_pid s' = - (2 ^ 31) \<and> proc_kill (next_pid s') u = (Returns (-1), u)"
proof -
  have "int32 (2 ^ 31) = - (2 ^ 31)" by (simp add: int32_def to_int_def)
  then show ?thesis using assms by (auto simp: alloc_pid_def proc_kill_def split: option.splits)
qed

lemma boot_proc_bss: "boot_proc bss_kproc"
  by (simp add: boot_proc_def bss_kproc_def bss_task_def kheap.defs)

theorem proc_reachable_inv_witness:
  "proc_inv (snd (schedule 0 (snd (proc_create 0x1000 (cs ''init'') 1 (proc_init bss_kproc)))))"
  by (rule proc_reachable_inv [OF _ boot_proc_bss, where n = 2])
    (simp_all add: numeral_2_eq_2 proc_reach.step [OF proc_reach.step [OF proc_reach.init proc_step.create] proc_step.sched]
      bss_kproc_def kheap.defs)


text \<open>The frame that creation pushes is what the switch sequence pops.\<close>

lemma push_frame:
  assumes "push_words (first_frame ss stk code entry) (stk, m) = (sp, m')"
  shows "sp = stk - 76" and "resume_frame m' sp = (entry, code, 0x202)"
proof -
  show "sp = stk - 76" using assms by (simp add: first_frame_def)
  then show "resume_frame m' sp = (entry, code, 0x202)"
    using assms by (auto simp: first_frame_def resume_frame_def rd32_wr32_far)
qed

lemma proc_create_slot:
  fixes s :: "'a kproc_scheme"
  assumes "\<not> num_tasks s \<ge> int MAX_TASKS" and "i < MAX_TASKS"
    and "alloc_pid s = (Some i, (upd_task i (\<lambda>t. t\<lparr>t_pid := next_pid s\<rparr>) s)\<lparr>next_pid := int32 (next_pid s + 1)\<rparr>)"
    and "length (tasks s) = MAX_TASKS"
    and "push_words (first_frame 0x10 (task_stack i s + STACK_SIZE) 0x08 entry) (task_stack i s + STACK_SIZE, vmem s) = (sp, m)"
  defines "new \<equiv> \<lambda>name prio. set_name name ((tasks s ! i)\<lparr>t_pid := next_pid s, t_state := TASK_READY,
      t_priority := (if prio > 0 then prio else 1)\<rparr>)\<lparr>
      t_parent_pid := (if current_task s < MAX_TASKS then
        (if current_task s = i then next_pid s else t_pid (tasks s ! current_task s)) else -1),
      t_page_dir := kernel_page_dir_phys s, t_esp := sp, t_ebp := 0,
      t_kernel_esp := task_stack i s + STACK_SIZE, t_heap_brk := 0\<rparr>"
  shows "fst (proc_create entry name prio s) = next_pid s"
    and "tasks (snd (proc_create entry name prio s)) = (tasks s)[i := new name prio]"
    and "vmem (snd (proc_create entry name prio s)) = m"
    and "num_tasks (snd (proc_create entry name prio s)) = int32 (num_tasks s + 1)"
proof -
  have st: "task_stack i (upd_task k f s2) = task_stack i s2" "task_stack i (s2\<lparr>next_pid := p\<rparr>) = task_stack i s2"
    for k f p and s2 :: "'a kproc_scheme"
    by (simp_all add: task_stack_def)
  have kd: "kernel_page_dir_phys (upd_task k f s2) = kernel_page_dir_phys s2" for k f and s2 :: "'a kproc_scheme"
    by (simp add: upd_task_def)
  note simps = proc_create_def assms(3) Let_def st assms(5) parent_of_new_def cur_task_def
    get_kernel_page_dir_def kd
  show "fst (proc_create entry name prio s) = next_pid s"
    using assms(1,2,4) by (simp add: simps)
  show "tasks (snd (proc_create entry name prio s)) = (tasks s)[i := new name prio]"
    using assms(1,2,4) by (simp add: simps new_def)
  show "vmem (snd (proc_create entry name prio s)) = m"
    using assms(1,2,4) by (simp add: simps)
  show "num_tasks (snd (proc_create entry name prio s)) = int32 (num_tasks s + 1)"
    using assms(1,2,4) by (simp add: simps)
qed

text \<open>
  \<^verbatim>\<open>proc_create\<close> fails, changing nothing, exactly when \<^verbatim>\<open>num_tasks\<close> has reached 16 or no slot is
  dead.  Otherwise it returns a pid that no slot holds, makes one dead slot ready with that pid
  and the caller as parent, leaves all other slots alone, and the saved context of the new task
  resumes at the given entry point with interrupts enabled.
\<close>

theorem proc_create_correct:
  assumes "proc_inv s" and "proc_create entry name prio s = (p, s')"
  shows "(p = -1 \<longleftrightarrow> num_tasks s \<ge> 16 \<or> (\<forall>i < 16. t_state (tasks s ! i) \<noteq> TASK_DEAD)) \<and>
    (if p = -1 then s' = s
     else p = next_pid s \<and> (\<forall>t \<in> set (tasks s). t_pid t \<noteq> p) \<and> num_tasks s' = int32 (num_tasks s + 1) \<and>
       (\<exists>i < 16. t_state (tasks s ! i) = TASK_DEAD \<and>
          (\<forall>j. j \<noteq> i \<longrightarrow> tasks s' ! j = tasks s ! j) \<and>
          t_pid (tasks s' ! i) = p \<and> t_state (tasks s' ! i) = TASK_READY \<and>
          (i \<noteq> current_task s \<longrightarrow> t_parent_pid (tasks s' ! i) = t_pid (cur_task s)) \<and>
          t_priority (tasks s' ! i) = max prio 1 \<and>
          resume_frame (vmem s') (t_esp (tasks s' ! i)) = (entry, 0x08, 0x202)))"
proof -
  have inv: "length (tasks s) = MAX_TASKS" "pids_ok (tasks s) (next_pid s)" "current_task s < MAX_TASKS"
    using assms(1) by (auto simp: proc_inv_def)
  have fresh: "\<forall>t \<in> set (tasks s). t_pid t \<noteq> next_pid s" "next_pid s \<noteq> -1"
    using inv(2) by (fastforce simp: pids_ok_def)+
  show ?thesis
  proof (cases rule: alloc_pid_cases [of s])
    case none
    with assms(2) show ?thesis by (auto simp: proc_create_def split: if_splits)
  next
    case (some i)
    show ?thesis
    proof (cases "num_tasks s \<ge> int MAX_TASKS")
      case True
      with assms(2) show ?thesis by (auto simp: proc_create_def)
    next
      case False
      let ?stk = "task_stack i s + STACK_SIZE"
      obtain sp m where pw: "push_words (first_frame 0x10 ?stk 0x08 entry) (?stk, vmem s) = (sp, m)"
        by (cases "push_words (first_frame 0x10 ?stk 0x08 entry) (?stk, vmem s)")
      note eq = proc_create_slot [OF False some(1,3) inv(1) pw]
      have "p = next_pid s" "num_tasks s' = int32 (num_tasks s + 1)" "vmem s' = m"
        "\<forall>j. j \<noteq> i \<longrightarrow> tasks s' ! j = tasks s ! j" "t_pid (tasks s' ! i) = next_pid s"
        "t_state (tasks s' ! i) = TASK_READY" "t_esp (tasks s' ! i) = sp"
        "t_priority (tasks s' ! i) = max prio 1"
        "i \<noteq> current_task s \<longrightarrow> t_parent_pid (tasks s' ! i) = t_pid (cur_task s)"
        using eq(1,3,4) [of name prio] eq(2) [of name prio] assms(2) some(1) inv(1,3)
        by (simp_all add: cur_task_def max_def)
      moreover have "\<exists>j < 16. t_state (tasks s ! j) = TASK_DEAD" using some(1,2) by auto
      ultimately show ?thesis using False some(1,2) fresh push_frame(2) [OF pw] by auto
    qed
  qed
qed

theorem proc_create_correct_witness:
  "let r = proc_create 0x1000 (cs ''init'') 5 (proc_init bss_kproc)
   in fst r = 1 \<and> num_tasks (snd r) = 1"
proof -
  obtain p s' where r: "proc_create 0x1000 (cs ''init'') 5 (proc_init bss_kproc) = (p, s')"
    by (cases "proc_create 0x1000 (cs ''init'') 5 (proc_init bss_kproc)")
  have inv: "proc_inv (proc_init bss_kproc)"
    using boot_proc_bss by (intro proc_init_inv) (auto simp: boot_proc_def)
  have z: "num_tasks (proc_init bss_kproc) = 0" "t_state (tasks (proc_init bss_kproc) ! 0) = TASK_DEAD"
    "next_pid (proc_init bss_kproc) = 1"
    by (simp_all add: proc_init_def bss_kproc_def kheap.defs init_task_def)
  have "\<not> (\<forall>i < 16. t_state (tasks (proc_init bss_kproc) ! i) \<noteq> TASK_DEAD)"
    using z(2) by (metis zero_less_numeral)
  with proc_create_correct [OF inv r] z r int32_id [of 1] show ?thesis by (auto split: if_splits)
qed


text \<open>The scheduler.\<close>

lemma schedule_pass_1:
  "schedule_pass 1 ts cur ds n = (case find (\<lambda>c. runnable (ts ! c)) ds of None \<Rightarrow> n | Some c \<Rightarrow> c)"
  by (induction ds) auto

lemma sp0_in: "schedule_pass 0 ts cur ds n = n \<or>
    (schedule_pass 0 ts cur ds n \<in> set ds \<and> runnable (ts ! schedule_pass 0 ts cur ds n))"
proof (induction ds arbitrary: n)
  case (Cons c ds)
  from Cons [of n] Cons [of c] show ?case by auto
qed simp

lemma sp0_mono: "t_priority (ts ! n) \<le> t_priority (ts ! schedule_pass 0 ts cur ds n)"
proof (induction ds arbitrary: n)
  case (Cons c ds)
  from Cons [of n] Cons [of c] show ?case by auto
qed simp

lemma sp0_max:
  "c \<in> set ds \<Longrightarrow> runnable (ts ! c) \<Longrightarrow>
   t_priority (ts ! c) \<le> t_priority (ts ! schedule_pass 0 ts cur ds n)"
proof (induction ds arbitrary: n)
  case (Cons d ds)
  from Cons.IH [of n] Cons.IH [of d] Cons.prems sp0_mono [of ts n cur ds] sp0_mono [of ts d cur ds]
  show ?case by auto
qed simp

lemma sp0_moves:
  assumes "cur \<notin> set ds" and "c \<in> set ds" and "runnable (ts ! c)"
    and "t_priority (ts ! cur) \<le> t_priority (ts ! c)"
  shows "schedule_pass 0 ts cur ds cur \<noteq> cur"
  using assms
proof (induction ds)
  case (Cons d ds)
  with sp0_in [of ts cur ds d] show ?case by auto
qed simp

lemma sched_cands:
  assumes "cur < MAX_TASKS"
  shows "set (map (\<lambda>i. (cur + i) mod MAX_TASKS) [1..<MAX_TASKS]) = {0..<MAX_TASKS} - {cur}"
proof -
  have "j \<in> (\<lambda>i. (cur + i) mod MAX_TASKS) ` {1..<MAX_TASKS}" if "j < MAX_TASKS" "j \<noteq> cur" for j
  proof (rule image_eqI)
    show "j = (cur + (if cur < j then j - cur else j + MAX_TASKS - cur)) mod MAX_TASKS"
      using that assms by auto
  qed (use that assms in auto)
  moreover have "(cur + i) mod MAX_TASKS \<noteq> cur" if "i \<in> {1..<MAX_TASKS}" for i
    using that assms by (auto simp: mod_once)
  moreover have "(cur + i) mod MAX_TASKS < MAX_TASKS" for i by simp
  ultimately have "(\<lambda>i. (cur + i) mod MAX_TASKS) ` {1..<MAX_TASKS} = {0..<MAX_TASKS} - {cur}"
    by fastforce
  then show ?thesis by (simp only: set_map set_upt)
qed


lemma schedule_next_choice:
  assumes "cur < MAX_TASKS"
  defines "others \<equiv> \<lambda>ts j. j < MAX_TASKS \<and> j \<noteq> cur \<and> runnable (ts ! j)"
  shows "schedule_next ts cur = cur \<longleftrightarrow> (\<forall>j. \<not> others ts j)"
    and "schedule_next ts cur \<noteq> cur \<Longrightarrow> others ts (schedule_next ts cur)"
    and "others ts j \<Longrightarrow> t_priority (ts ! cur) \<le> t_priority (ts ! j) \<Longrightarrow>
           t_priority (ts ! j) \<le> t_priority (ts ! schedule_next ts cur)"
proof -
  define ds where "ds = map (\<lambda>i. (cur + i) mod MAX_TASKS) [1..<MAX_TASKS]"
  have ds: "set ds = {0..<MAX_TASKS} - {cur}" unfolding ds_def by (rule sched_cands [OF assms(1)])
  let ?n = "schedule_pass 0 ts cur ds cur"
  have nx: "schedule_next ts cur = (if ?n \<noteq> cur then ?n else
      (case find (\<lambda>c. runnable (ts ! c)) ds of None \<Rightarrow> cur | Some c \<Rightarrow> c))"
    unfolding schedule_next_def ds_def [symmetric] schedule_pass_1 Let_def
    by (simp split: option.split)
  have fnd: "c < MAX_TASKS \<and> c \<noteq> cur \<and> runnable (ts ! c)"
    if "find (\<lambda>c. runnable (ts ! c)) ds = Some c" for c
    using find_SomeD [OF that] ds by auto
  show ne: "others ts (schedule_next ts cur)" if sn: "schedule_next ts cur \<noteq> cur"
  proof (cases "?n = cur")
    case True
    with sn fnd show ?thesis by (cases "find (\<lambda>c. runnable (ts ! c)) ds") (auto simp: nx others_def)
  next
    case False
    then have "?n \<in> set ds" "runnable (ts ! ?n)" using sp0_in [of ts cur ds cur] by blast+
    with False ds show ?thesis by (auto simp: nx others_def)
  qed
  show "schedule_next ts cur = cur \<longleftrightarrow> (\<forall>j. \<not> others ts j)"
  proof
    assume *: "schedule_next ts cur = cur"
    then have "find (\<lambda>c. runnable (ts ! c)) ds = None"
      using fnd by (cases "?n = cur"; cases "find (\<lambda>c. runnable (ts ! c)) ds") (auto simp: nx)
    then show "\<forall>j. \<not> others ts j" using ds by (auto simp: find_None_iff others_def)
  qed (use ne in blast)
  show "t_priority (ts ! j) \<le> t_priority (ts ! schedule_next ts cur)"
    if j: "others ts j" "t_priority (ts ! cur) \<le> t_priority (ts ! j)"
  proof -
    have "?n \<noteq> cur" using sp0_moves [of cur ds j ts] j ds by (auto simp: others_def)
    then show ?thesis using sp0_max [of j ds ts cur cur] j(1) ds by (auto simp: nx others_def)
  qed
qed

text \<open>
  C6: the scheduler, when more than one task is counted.  It stays with the current task exactly
  when no other task is runnable.  Otherwise it switches to another runnable task, marks it
  running, saves the interrupted context of the old one, and the choice respects priorities: no
  other runnable task of at least the current priority has a higher priority than the chosen one.
\<close>

theorem schedule_choice:
  assumes "proc_inv s" and "1 < num_tasks s" and "schedule r s = (res, s')"
  shows "(res = None \<longleftrightarrow> (\<forall>j < 16. j \<noteq> current_task s \<longrightarrow> \<not> runnable (tasks s ! j))) \<and>
    (case res of None \<Rightarrow> current_task s' = current_task s
     | Some n \<Rightarrow> n < 16 \<and> n \<noteq> current_task s \<and> runnable (tasks s ! n) \<and>
         current_task s' = n \<and> t_state (tasks s' ! n) = TASK_RUNNING \<and>
         t_esp (tasks s' ! current_task s) = r \<and>
         (\<forall>j < 16. j \<noteq> current_task s \<longrightarrow> runnable (tasks s ! j) \<longrightarrow>
            t_priority (tasks s ! current_task s) \<le> t_priority (tasks s ! j) \<longrightarrow>
            t_priority (tasks s ! j) \<le> t_priority (tasks s ! n)))"
proof -
  let ?c = "current_task s" and ?ts = "tasks (sched_save r s)"
  have c: "?c < MAX_TASKS" and l: "length (tasks s) = MAX_TASKS" using assms(1) by (auto simp: proc_inv_def)
  have old: "?ts ! j = tasks s ! j" if "j \<noteq> ?c" for j using that by (simp add: sched_save_def)
  have cur: "t_priority (?ts ! ?c) = t_priority (tasks s ! ?c)" "t_esp (?ts ! ?c) = r"
    using c l by (simp_all add: sched_save_def)
  note ch = schedule_next_choice [OF c, where ts = ?ts]
  show ?thesis
  proof (cases "schedule_next ?ts ?c = ?c")
    case True
    then show ?thesis using assms(2,3) ch(1) old by (auto simp: schedule_eq Let_def)
  next
    case False
    let ?n = "schedule_next ?ts ?c"
    have n: "?n < 16" "runnable (tasks s ! ?n)" using ch(2) [OF False] old [OF False] by auto
    have s': "res = Some ?n" "s' = switch_page_dir (t_page_dir (?ts ! ?n)) (switch_to ?n (sched_save r s))"
      using assms(2,3) False by (auto simp: schedule_eq Let_def)
    have "t_priority (tasks s ! j) \<le> t_priority (tasks s ! ?n)"
      if "j < 16" "j \<noteq> ?c" "runnable (tasks s ! j)" "t_priority (tasks s ! ?c) \<le> t_priority (tasks s ! j)" for j
      using ch(3) [of j] that old cur(1) False by auto
    moreover have "t_state (tasks s' ! ?n) = TASK_RUNNING" "t_esp (tasks s' ! ?c) = r" "current_task s' = ?n"
      using n(1) l False cur(2) by (auto simp: s'(2) switch_to_def sched_save_def)
    ultimately show ?thesis using s'(1) n False by auto
  qed
qed


lemma sched_example:
  defines "e \<equiv> (proc_init bss_kproc)\<lparr>num_tasks := 2,
    tasks := (tasks (proc_init bss_kproc))[0 := (tasks (proc_init bss_kproc) ! 0)\<lparr>t_state := TASK_RUNNING\<rparr>,
      1 := (tasks (proc_init bss_kproc) ! 1)\<lparr>t_state := TASK_READY\<rparr>]\<rparr>"
  shows "proc_inv e" and "num_tasks e = 2" and "runnable (tasks e ! 1)" and "current_task e = 0"
proof -
  have inv: "proc_inv (proc_init bss_kproc)"
    using boot_proc_bss by (intro proc_init_inv) (auto simp: boot_proc_def)
  have "proc_inv (upd_task 1 (\<lambda>t. t\<lparr>t_state := TASK_READY\<rparr>) (upd_task 0 (\<lambda>t. t\<lparr>t_state := TASK_RUNNING\<rparr>)
      (proc_init bss_kproc)))" (is "proc_inv ?u")
    using inv by (intro proc_inv_upd) (auto simp: proc_inv_task_ok live_def)
  moreover have "live_count (tasks ?u) = 2"
    by (simp add: proc_init_def bss_kproc_def kheap.defs init_task_def bss_task_def live_count_def
        numeral_eq_Suc live_def)
  moreover have "tasks e = tasks ?u" by (simp add: e_def upd_task_def)
  ultimately show "proc_inv e" by (simp add: proc_inv_def e_def)
  show "num_tasks e = 2" "current_task e = 0" by (simp_all add: e_def proc_init_def)
  show "runnable (tasks e ! 1)"
    by (simp add: e_def runnable_def proc_init_def bss_kproc_def kheap.defs)
qed

theorem schedule_choice_witness:
  "\<exists>s :: kproc. current_task s = 0 \<and> fst (schedule 0xFF00 s) \<noteq> None"
proof -
  define s where "s = (proc_init bss_kproc)\<lparr>num_tasks := 2,
    tasks := (tasks (proc_init bss_kproc))[0 := (tasks (proc_init bss_kproc) ! 0)\<lparr>t_state := TASK_RUNNING\<rparr>,
      1 := (tasks (proc_init bss_kproc) ! 1)\<lparr>t_state := TASK_READY\<rparr>]\<rparr>"
  note e = sched_example [folded s_def]
  obtain res s' where r: "schedule 0xFF00 s = (res, s')" by (cases "schedule 0xFF00 s")
  have "1 < num_tasks s" using e(2) by simp
  from schedule_choice [OF e(1) this r] e(3,4) have "res \<noteq> None" by fastforce
  with r e(4) show ?thesis by auto
qed

text \<open>
  Event queues are bounded FIFO queues.  Whatever the interleaving of sends and polls on a
  task's queue, the events delivered followed by the ones still queued are exactly the ones queued
  before followed by the ones accepted, in order; and a send is refused only when 15 events are
  waiting.
\<close>

theorem event_queue_fifo:
  assumes "task_ok t" and "fifo_run event_put event_get ops t = (accepted, delivered, t')"
  shows "task_events t @ accepted = delivered @ task_events t' \<and> task_ok t' \<and>
    (event_put e t' = None \<longleftrightarrow> length (task_events t') = 15)"
proof -
  note run = evq.run_fifo [OF assms]
  then have ok: "task_ok t'" by simp
  with run evq.enq_iff_room [OF ok, of e] evq.items_le [OF ok] show ?thesis by auto
qed

lemma bss_task_ok: "task_ok bss_task"
  by (simp add: bss_task_def task_ok_def ring_ok_def)

theorem event_queue_fifo_witness:
  "\<exists>accepted delivered t'. fifo_run event_put event_get [Enq bss_event, Deq, Deq] bss_task =
     (accepted, delivered, t') \<and> task_events bss_task @ accepted = delivered @ task_events t'"
proof -
  obtain a d t' where r: "fifo_run event_put event_get [Enq bss_event, Deq, Deq] bss_task = (a, d, t')"
    by (cases "fifo_run event_put event_get [Enq bss_event, Deq, Deq] bss_task")
  with event_queue_fifo [OF bss_task_ok r] show ?thesis by blast
qed

text \<open>Searching for a pid finds the slot that holds it.\<close>

lemma find_pid:
  assumes "proc_inv s" and "i < MAX_TASKS" and "t_pid (tasks s ! i) = pid" and "Q (tasks s ! i)" and "pid \<noteq> -1"
  shows "find_task (\<lambda>i t. t_pid t = pid \<and> Q t) s = Some i"
proof (cases "find_task (\<lambda>i t. t_pid t = pid \<and> Q t) s")
  case None
  with assms show ?thesis by (auto simp: find_task_None)
next
  case (Some k)
  then show ?thesis
    using find_task_Some(1,2) [OF Some] assms by (auto simp: proc_inv_def pids_ok_def)
qed

lemmas find_pid_plain = find_pid [where Q = "\<lambda>_. True", simplified]

text \<open>
  Sending an event.  \<^verbatim>\<open>process_event_send\<close> to a task that exists and has room appends one event,
  with the sender's pid and the tick count, to that task's queue and changes no other task;
  otherwise it returns -1 and changes nothing.
\<close>

theorem process_event_send_correct:
  assumes "proc_inv s" and "i < 16" and "t_pid (tasks s ! i) = pid" and "t_state (tasks s ! i) \<noteq> TASK_DEAD"
    and "pid \<noteq> -1"
  shows "if length (task_events (tasks s ! i)) < 15
    then fst (process_event_send pid type hash s) = 0 \<and>
      task_events (tasks (snd (process_event_send pid type hash s)) ! i) =
        task_events (tasks s ! i) @ [\<lparr>event_type = type, sender_pid = of_int (t_pid (cur_task s)),
          sender_snap = 0, payload_hash = hash, ev_timestamp = system_ticks s\<rparr>] \<and>
      (\<forall>j. j \<noteq> i \<longrightarrow> tasks (snd (process_event_send pid type hash s)) ! j = tasks s ! j)
    else process_event_send pid type hash s = (-1, s)"
proof -
  let ?P = "\<lambda>(i::nat) t. t_pid t = pid \<and> t_state t \<noteq> TASK_DEAD"
  have l: "length (tasks s) = MAX_TASKS" using assms(1) by (simp add: proc_inv_def)
  have f: "find_task ?P s = Some i" by (rule find_pid) (use assms in auto)
  let ?e = "\<lparr>event_type = type, sender_pid = of_int (t_pid (cur_task s)), sender_snap = 0,
      payload_hash = hash, ev_timestamp = system_ticks s\<rparr>"
  note ok = proc_inv_task_ok [OF assms(1,2)]
  show ?thesis
  proof (cases "length (task_events (tasks s ! i)) < 15")
    case True
    from evq.enq_room [OF ok True, of ?e] obtain t' where
      "event_put ?e (tasks s ! i) = Some t'" "task_events t' = task_events (tasks s ! i) @ [?e]" by auto
    with True f assms(2) l show ?thesis by (simp add: process_event_send_def)
  next
    case False
    then have "event_put ?e (tasks s ! i) = None" using evq.enq_iff_room [OF ok, of ?e] by auto
    with False f show ?thesis by (simp add: process_event_send_def)
  qed
qed


definition one_task :: kproc where
  "one_task = upd_task 0 (\<lambda>t. t\<lparr>t_pid := 7, t_state := TASK_READY\<rparr>) ((proc_init bss_kproc)\<lparr>next_pid := 8\<rparr>)"

lemma one_task:
  "proc_inv one_task" "tasks one_task ! 0 = (init_task bss_task)\<lparr>t_pid := 7, t_state := TASK_READY\<rparr>"
proof -
  have inv: "proc_inv (proc_init bss_kproc)"
    using boot_proc_bss by (intro proc_init_inv) (auto simp: boot_proc_def)
  have l: "length (tasks (proc_init bss_kproc)) = MAX_TASKS" and z: "next_pid (proc_init bss_kproc) = 1"
    using inv by (auto simp: proc_inv_def proc_init_def bss_kproc_def kheap.defs)
  have t0: "tasks (proc_init bss_kproc) ! 0 = init_task bss_task"
    by (simp add: proc_init_def bss_kproc_def kheap.defs)
  have dead: "t_state (tasks ((proc_init bss_kproc)\<lparr>next_pid := 7\<rparr>) ! 0) = TASK_DEAD"
    by (simp add: t0 init_task_def)
  have inv7: "proc_inv ((proc_init bss_kproc)\<lparr>next_pid := 7\<rparr>)"
    using inv z by (fastforce simp: proc_inv_def pids_ok_def)
  show "proc_inv one_task"
    by (rule proc_inv_fill [OF inv7 _ dead, where t = "(init_task bss_task)\<lparr>t_pid := 7, t_state := TASK_READY\<rparr>"])
      (use proc_inv_task_ok [OF inv, of 0] t0 in \<open>auto simp: one_task_def live_def upd_task_def\<close>)
  show "tasks one_task ! 0 = (init_task bss_task)\<lparr>t_pid := 7, t_state := TASK_READY\<rparr>"
    using l by (simp add: one_task_def t0)
qed

theorem process_event_send_correct_witness:
  "fst (process_event_send 7 3 9 one_task) = 0"
proof -
  have "task_events (tasks one_task ! 0) = []"
    by (simp add: one_task(2) task_events_def ring_list_def init_task_def)
  then show ?thesis
    using process_event_send_correct [OF one_task(1), of 0 7 3 9] by (simp add: one_task(2))
qed

text \<open>
  Descriptors.  \<^verbatim>\<open>proc_alloc_fd\<close> on a known pid returns the lowest closed descriptor from 3 on,
  or -1 exactly when descriptors 3 to 15 are all open; the entry it opened is the one
  \<^verbatim>\<open>proc_get_fd_entry\<close> then finds, and after \<^verbatim>\<open>proc_free_fd\<close> it is closed again.
\<close>

theorem proc_fd_lifecycle:
  assumes "proc_inv s" and "i < 16" and "t_pid (tasks s ! i) = pid" and "pid \<noteq> -1" and "type \<noteq> 0"
    and "proc_alloc_fd pid type ref s = (fd, s')"
  shows "(fd = -1 \<longleftrightarrow> (\<forall>f \<in> {3..<16}. fd_type (t_fds (tasks s ! i) ! f) \<noteq> 0)) \<and>
    (if fd = -1 then s' = s
     else 3 \<le> fd \<and> fd < 16 \<and> fd_type (t_fds (tasks s ! i) ! nat fd) = 0 \<and>
       (\<forall>f \<in> {3..<nat fd}. fd_type (t_fds (tasks s ! i) ! f) \<noteq> 0) \<and>
       t_fds (tasks s' ! i) ! nat fd = \<lparr>fd_type = type, fd_ref = ref, fd_pos = 0, fd_flags = 0\<rparr> \<and>
       proc_get_fd_entry pid fd s' = Some (i, nat fd) \<and>
       proc_get_fd_entry pid fd (proc_free_fd pid fd s') = None)"
proof -
  have l: "length (tasks s) = MAX_TASKS" and lf: "length (t_fds (tasks s ! i)) = MAX_FDS"
    using assms(1,2) proc_inv_task_ok [OF assms(1,2)] by (auto simp: proc_inv_def task_ok_def)
  show ?thesis
  proof (cases "find (\<lambda>f. fd_type (t_fds (tasks s ! i) ! f) = 0) [3..<MAX_FDS]")
    case None
    with assms(6) find_pid_plain [OF assms(1-4)] show ?thesis
      by (auto simp: proc_alloc_fd_def find_None_iff)
  next
    case (Some f)
    have s': "fd = int f" "s' = upd_task i (\<lambda>t. t\<lparr>t_fds := (t_fds t)[f := (t_fds t ! f)
        \<lparr>fd_type := type, fd_ref := ref, fd_pos := 0, fd_flags := 0\<rparr>]\<rparr>) s"
      using assms(6) find_pid_plain [OF assms(1-4)] Some by (auto simp: proc_alloc_fd_def)
    obtain k where k: "k < length [3..<MAX_FDS]" "fd_type (t_fds (tasks s ! i) ! ([3..<MAX_FDS] ! k)) = 0"
      "f = [3..<MAX_FDS] ! k" "\<forall>j < k. fd_type (t_fds (tasks s ! i) ! ([3..<MAX_FDS] ! j)) \<noteq> 0"
      using Some unfolding find_Some_iff by blast
    then have f: "f = 3 + k" "f < 16" "fd_type (t_fds (tasks s ! i) ! f) = 0" by simp_all
    have low: "fd_type (t_fds (tasks s ! i) ! g) \<noteq> 0" if "g \<in> {3..<f}" for g
      using k(1,4) f(1) that spec [OF k(4), of "g - 3"] by auto
    have inv': "proc_inv s'" using proc_alloc_fd_inv [OF assms(1), of pid type ref] assms(6) by simp
    have t': "tasks s' ! i = (tasks s ! i)\<lparr>t_fds := (t_fds (tasks s ! i))[f := (t_fds (tasks s ! i) ! f)
        \<lparr>fd_type := type, fd_ref := ref, fd_pos := 0, fd_flags := 0\<rparr>]\<rparr>"
      using s'(2) assms(2) l by simp
    have pid': "t_pid (tasks s' ! i) = pid" using assms(3) t' by simp
    note fi' = find_pid_plain [OF inv' assms(2) pid' assms(4)]
    have fr: "proc_free_fd pid fd s' = upd_task i (\<lambda>t. t\<lparr>t_fds := (t_fds t)[f := (t_fds t ! f)
        \<lparr>fd_type := 0, fd_ref := -1\<rparr>]\<rparr>) s'"
      using fi' f(2) s'(1) by (simp add: proc_free_fd_def)
    have inv'': "proc_inv (proc_free_fd pid fd s')" by (rule proc_free_fd_inv [OF inv'])
    have l': "length (tasks s') = MAX_TASKS" using inv' by (simp add: proc_inv_def)
    have "t_pid (tasks (proc_free_fd pid fd s') ! i) = pid"
      using fr pid' assms(2) l' by simp
    note fi'' = find_pid_plain [OF inv'' assms(2) this assms(4)]
    have "proc_get_fd_entry pid fd s' = Some (i, nat fd)"
      using fi' f(2) s'(1) t' lf assms(4,5) by (simp add: proc_get_fd_entry_def)
    moreover have "proc_get_fd_entry pid fd (proc_free_fd pid fd s') = None"
      using fi'' f(2) s'(1) t' lf assms(2,4) l' by (simp add: proc_get_fd_entry_def fr [unfolded s'(1)])
    moreover have "t_fds (tasks s' ! i) ! f = \<lparr>fd_type = type, fd_ref = ref, fd_pos = 0, fd_flags = 0\<rparr>"
      using t' lf f(2) by (simp add: fd_entry.equality)
    moreover have "3 \<le> f" using f(1) by simp
    ultimately show ?thesis using s'(1) f(2,3) low by auto
  qed
qed


theorem proc_fd_lifecycle_witness:
  "proc_get_fd_entry 7 3 (snd (proc_alloc_fd 7 1 5 one_task)) = Some (0, 3)"
proof -
  obtain fd s' where r: "proc_alloc_fd 7 1 5 one_task = (fd, s')" by (cases "proc_alloc_fd 7 1 5 one_task")
  have c: "fd_type (t_fds (tasks one_task ! 0) ! 3) = 0"
    by (simp add: one_task(2) init_task_def bss_task_def numeral_eq_Suc)
  have "fd \<noteq> -1 \<and> (fd \<noteq> -1 \<longrightarrow> \<not> 3 < nat fd \<and> 3 \<le> fd \<and> proc_get_fd_entry 7 fd s' = Some (0, nat fd))"
    using proc_fd_lifecycle [OF one_task(1) _ _ _ _ r, of 0] c by (auto simp: one_task(2) split: if_splits)
  then have "fd = 3" and "proc_get_fd_entry 7 fd s' = Some (0, nat fd)" by auto
  with r show ?thesis by simp
qed

section \<open>Deviations from the intended behaviour\<close>

text \<open>
  \<^verbatim>\<open>proc_exit\<close> is meant to give the children of the exiting task to init (parent -1); the parent of
  every other task stays as it was.
\<close>

lemma proc_exit_keeps_parents:
  assumes "proc_inv s" and "j \<noteq> current_task s"
  shows "t_parent_pid (tasks (snd (proc_exit code s)) ! j) = t_parent_pid (tasks s ! j)"
proof -
  have "current_task s < length (tasks s)" using assms(1) by (simp add: proc_inv_def)
  moreover have "t_parent_pid (tasks (switch_to n s1) ! j) = t_parent_pid (tasks s1 ! j)" for n and s1 :: "'a kproc_scheme"
    by (cases "n = j"; cases "n < length (tasks s1)") (simp_all add: switch_to_def list_update_beyond)
  moreover have "t_parent_pid (tasks (exit_mark code s) ! j) = t_parent_pid (tasks s ! j)"
    using assms(2) by (simp add: exit_mark_def)
  ultimately show ?thesis by (simp add: proc_exit_eq split: option.split)
qed

text \<open>A parent that waits for a child that exited gets -1, the value that also means failure.\<close>

lemma proc_wait_after_exit:
  assumes "find_task (\<lambda>i t. t_parent_pid t = t_pid (cur_task s) \<and> t_state t = TASK_ZOMBIE) s = Some i"
    and "t_pid (tasks s ! i) = -1"
  shows "fst (fst (proc_wait s)) = -1"
  using assms by (simp add: proc_wait_def)

text \<open>Killing a task that is already a zombie counts it as gone once more.\<close>

lemma proc_kill_twice:
  assumes "proc_inv s" and "i < 16" and "t_pid (tasks s ! i) = pid" and "0 < pid" and "i \<noteq> current_task s"
    and "t_state (tasks s ! i) = TASK_ZOMBIE"
  shows "fst (proc_kill pid s) = Returns 0 \<and> num_tasks (snd (proc_kill pid s)) = int32 (num_tasks s - 1) \<and>
    live_count (tasks (snd (proc_kill pid s))) = live_count (tasks s)"
proof -
  have f: "find_task (\<lambda>i t. t_pid t = pid \<and> t_state t \<noteq> TASK_DEAD) s = Some i"
    by (rule find_pid) (use assms in auto)
  have "length (tasks s) = MAX_TASKS" using assms(1) by (simp add: proc_inv_def)
  then show ?thesis using f assms(2-6)
    by (simp add: proc_kill_def Let_def live_count_update live_def)
qed

end
