(* ===== verification/Hexa_Pipe.thy ===== *)
theory Hexa_Pipe
  imports Hexa_Process
begin

text \<open>
  Pipes (\<^verbatim>\<open>pipe.c\<close>): sixteen byte pipes with a ring of 4096 bytes each, and typed pipes with a ring
  of sixteen forms.  The byte operations take or put one byte at a time inside a critical section
  and spin when the ring is empty or full while the other side is open; \<open>pipe_get\<close> and \<open>pipe_put\<close>
  are these critical sections.  \<open>pipe_read\<close> and \<open>pipe_write\<close> run the loop until it returns or would
  spin; what other tasks do to the pipe in between is a sequence of further critical sections, which
  the FIFO property covers.  Pipe numbers are the descriptor references that \<^verbatim>\<open>pipe_create\<close> stores.
\<close>

section \<open>State and operations\<close>

abbreviation MAX_PIPES :: nat where "MAX_PIPES \<equiv> 16"
abbreviation PIPE_BUF_SIZE :: nat where "PIPE_BUF_SIZE \<equiv> 4096"
abbreviation PIPE_TYPED_CAPACITY :: nat where "PIPE_TYPED_CAPACITY \<equiv> 16"

record pipe =
  p_buf :: bytes
  p_head :: nat
  p_tail :: nat
  p_readers :: int
  p_writers :: int
  p_closed :: int

record tform =
  tf_schema_hash :: u32
  tf_data_hash :: u32
  tf_data_size :: u32
  tf_data :: bytes

record typed_pipe =
  tp_schema_hash :: u32
  tp_producer_pid :: u32
  tp_consumer_pid :: u32
  tp_cap_token :: u32
  tp_ring :: "tform list"
  tp_head :: nat
  tp_tail :: nat
  tp_active :: bool

record kpipe = kproc +
  pipes :: "pipe list"
  pipe_allocated :: "bool list"
  typed_pipes :: "typed_pipe list"
  typed_pipe_count :: nat

definition upd_pipe :: "nat \<Rightarrow> (pipe \<Rightarrow> pipe) \<Rightarrow> 'a kpipe_scheme \<Rightarrow> 'a kpipe_scheme" where
  "upd_pipe i f s = s\<lparr>pipes := (pipes s)[i := f (pipes s ! i)]\<rparr>"

definition upd_typed :: "nat \<Rightarrow> (typed_pipe \<Rightarrow> typed_pipe) \<Rightarrow> 'a kpipe_scheme \<Rightarrow> 'a kpipe_scheme" where
  "upd_typed i f s = s\<lparr>typed_pipes := (typed_pipes s)[i := f (typed_pipes s ! i)]\<rparr>"

text \<open>The result is -1, or 0 with the descriptors stored through the two pointers.\<close>

definition pipe_create :: "'a kpipe_scheme \<Rightarrow> (int \<times> int) option \<times> 'a kpipe_scheme" where
  "pipe_create s =
     (case find (\<lambda>i. \<not> pipe_allocated s ! i) [0..<MAX_PIPES] of
        None \<Rightarrow> (None, s)
      | Some k \<Rightarrow>
          let s1 = s\<lparr>pipe_allocated := (pipe_allocated s)[k := True]\<rparr>;
              s2 = upd_pipe k (\<lambda>p. p\<lparr>p_head := 0, p_tail := 0, p_readers := 1, p_writers := 1, p_closed := 0\<rparr>) s1
          in case proc_alloc_fd (int (current_task s2)) 2 (int k) s2 of (rfd, s3) \<Rightarrow>
             (case proc_alloc_fd (int (current_task s3)) 2 (int (k + MAX_PIPES)) s3 of (wfd, s4) \<Rightarrow>
                (Some (rfd, wfd), s4)))"

definition pipe_get :: "pipe \<Rightarrow> (u8 \<times> pipe) option" where
  "pipe_get p =
     (if p_head p \<noteq> p_tail p
      then Some (p_buf p ! p_tail p, p\<lparr>p_tail := (p_tail p + 1) mod PIPE_BUF_SIZE\<rparr>) else None)"

definition pipe_put :: "u8 \<Rightarrow> pipe \<Rightarrow> pipe option" where
  "pipe_put b p =
     (let nxt = (p_head p + 1) mod PIPE_BUF_SIZE
      in if nxt \<noteq> p_tail p then Some (p\<lparr>p_buf := (p_buf p)[p_head p := b], p_head := nxt\<rparr>) else None)"

text \<open>How the loop of a blocking call ends: it returns, or it spins waiting for the other side.\<close>

datatype outcome = Done | Spins

fun pipe_read_loop :: "nat \<Rightarrow> pipe \<Rightarrow> bytes \<times> outcome \<times> pipe" where
  "pipe_read_loop 0 p = ([], Done, p)"
| "pipe_read_loop (Suc n) p =
     (case pipe_get p of
        Some (b, p') \<Rightarrow> (case pipe_read_loop n p' of (bs, r, q) \<Rightarrow> (b # bs, r, q))
      | None \<Rightarrow> if p_writers p = 0 then ([], Done, p) else ([], Spins, p))"

fun pipe_write_loop :: "bytes \<Rightarrow> pipe \<Rightarrow> nat \<times> outcome \<times> pipe" where
  "pipe_write_loop [] p = (0, Done, p)"
| "pipe_write_loop (b # bs) p =
     (case pipe_put b p of
        Some p' \<Rightarrow> (case pipe_write_loop bs p' of (n, r, q) \<Rightarrow> (n + 1, r, q))
      | None \<Rightarrow> if p_readers p = 0 then (0, Done, p) else (0, Spins, p))"

text \<open>\<^verbatim>\<open>pipe_read\<close> returns the number of bytes it stored in the buffer, here the bytes themselves.\<close>

definition pipe_read :: "nat \<Rightarrow> int \<Rightarrow> 'a kpipe_scheme \<Rightarrow> (bytes \<times> outcome) \<times> 'a kpipe_scheme" where
  "pipe_read pipe_id len s =
     (let k = pipe_id mod MAX_PIPES
      in case pipe_read_loop (nat len) (pipes s ! k) of (bs, r, p) \<Rightarrow> ((bs, r), upd_pipe k (\<lambda>_. p) s))"

text \<open>The data written are the first \<^verbatim>\<open>len\<close> bytes at \<^verbatim>\<open>buf\<close>.\<close>

definition pipe_write :: "nat \<Rightarrow> bytes \<Rightarrow> 'a kpipe_scheme \<Rightarrow> (nat \<times> outcome) \<times> 'a kpipe_scheme" where
  "pipe_write pipe_id data s =
     (let k = pipe_id mod MAX_PIPES
      in case pipe_write_loop data (pipes s ! k) of (n, r, p) \<Rightarrow> ((n, r), upd_pipe k (\<lambda>_. p) s))"

definition pipe_close :: "nat \<Rightarrow> bool \<Rightarrow> 'a kpipe_scheme \<Rightarrow> 'a kpipe_scheme" where
  "pipe_close pipe_id is_writer s =
     (let k = pipe_id mod MAX_PIPES;
          s1 = upd_pipe k (\<lambda>p. if is_writer then p\<lparr>p_writers := p_writers p - 1\<rparr>
                                else p\<lparr>p_readers := p_readers p - 1\<rparr>) s
      in if p_readers (pipes s1 ! k) = 0 \<and> p_writers (pipes s1 ! k) = 0
         then s1\<lparr>pipe_allocated := (pipe_allocated s1)[k := False]\<rparr> else s1)"

definition zero_form :: tform where
  "zero_form = \<lparr>tf_schema_hash = 0, tf_data_hash = 0, tf_data_size = 0, tf_data = zeros 64\<rparr>"

definition pipe_create_typed :: "u32 \<Rightarrow> u32 \<Rightarrow> u32 \<Rightarrow> u32 \<Rightarrow> 'a kpipe_scheme \<Rightarrow> int \<times> 'a kpipe_scheme" where
  "pipe_create_typed schema_hash producer consumer cap_token s =
     (if typed_pipe_count s \<ge> MAX_PIPES then (-1, s)
      else let k = typed_pipe_count s;
               s1 = upd_typed k (\<lambda>_. \<lparr>tp_schema_hash = schema_hash, tp_producer_pid = producer,
                      tp_consumer_pid = consumer, tp_cap_token = cap_token,
                      tp_ring = replicate PIPE_TYPED_CAPACITY zero_form, tp_head = 0, tp_tail = 0,
                      tp_active = True\<rparr>) s;
               s2 = s1\<lparr>typed_pipe_count := typed_pipe_count s1 + 1\<rparr>
           in (int k, log_write LOG_LEVEL_INFO (cs ''pipe: typed pipe created'') s2))"

definition typed_put :: "tform \<Rightarrow> typed_pipe \<Rightarrow> typed_pipe option" where
  "typed_put form tp =
     (let nxt = (tp_head tp + 1) mod PIPE_TYPED_CAPACITY
      in if nxt = tp_tail tp then None
         else Some (tp\<lparr>tp_ring := (tp_ring tp)[tp_head tp := form], tp_head := nxt\<rparr>))"

definition typed_get :: "typed_pipe \<Rightarrow> (tform \<times> typed_pipe) option" where
  "typed_get tp =
     (if tp_head tp = tp_tail tp then None
      else Some (tp_ring tp ! tp_tail tp, tp\<lparr>tp_tail := (tp_tail tp + 1) mod PIPE_TYPED_CAPACITY\<rparr>))"

definition typed_valid :: "int \<Rightarrow> 'a kpipe_scheme \<Rightarrow> bool" where
  "typed_valid tp_id s \<longleftrightarrow> 0 \<le> tp_id \<and> tp_id < int (typed_pipe_count s) \<and> tp_active (typed_pipes s ! nat tp_id)"

definition pipe_typed_write :: "int \<Rightarrow> tform \<Rightarrow> 'a kpipe_scheme \<Rightarrow> int \<times> 'a kpipe_scheme" where
  "pipe_typed_write tp_id form s =
     (if \<not> typed_valid tp_id s then (-1, s)
      else let tp = typed_pipes s ! nat tp_id
           in if tf_schema_hash form \<noteq> tp_schema_hash tp
              then (-1, log_write LOG_LEVEL_WARN (cs ''pipe: schema mismatch on typed write'') s)
              else case typed_put form tp of
                None \<Rightarrow> (-1, s)
              | Some tp' \<Rightarrow> (to_int (tf_data_size form), upd_typed (nat tp_id) (\<lambda>_. tp') s))"

text \<open>The result is the returned value and the form stored through the pointer.\<close>

definition pipe_typed_read :: "int \<Rightarrow> 'a kpipe_scheme \<Rightarrow> (int \<times> tform option) \<times> 'a kpipe_scheme" where
  "pipe_typed_read tp_id s =
     (if \<not> typed_valid tp_id s then ((-1, None), s)
      else case typed_get (typed_pipes s ! nat tp_id) of
        None \<Rightarrow> ((-1, None), s)
      | Some (form, tp') \<Rightarrow> ((to_int (tf_data_size form), Some form), upd_typed (nat tp_id) (\<lambda>_. tp') s))"

definition bss_pipe :: pipe where
  "bss_pipe = \<lparr>p_buf = zeros PIPE_BUF_SIZE, p_head = 0, p_tail = 0, p_readers = 0, p_writers = 0, p_closed = 0\<rparr>"

definition bss_typed :: typed_pipe where
  "bss_typed = \<lparr>tp_schema_hash = 0, tp_producer_pid = 0, tp_consumer_pid = 0, tp_cap_token = 0,
     tp_ring = replicate PIPE_TYPED_CAPACITY zero_form, tp_head = 0, tp_tail = 0, tp_active = False\<rparr>"

definition bss_kpipe :: kpipe where
  "bss_kpipe = kproc.extend bss_kproc \<lparr>pipes = replicate MAX_PIPES bss_pipe,
     pipe_allocated = replicate MAX_PIPES False, typed_pipes = replicate MAX_PIPES bss_typed,
     typed_pipe_count = 0\<rparr>"

lemma log_write_kpipe [simp]:
  "pipes (log_write l m s) = pipes s" "pipe_allocated (log_write l m s) = pipe_allocated s"
  "typed_pipes (log_write l m s) = typed_pipes s" "typed_pipe_count (log_write l m s) = typed_pipe_count s"
  by (subst log_write_frame, simp)+

section \<open>Invariant and queue contents\<close>

definition pipe_ok :: "pipe \<Rightarrow> bool" where
  "pipe_ok p \<longleftrightarrow> ring_ok PIPE_BUF_SIZE (p_buf p) (p_tail p) (p_head p)"

definition pipe_bytes :: "pipe \<Rightarrow> bytes" where
  "pipe_bytes p = ring_list PIPE_BUF_SIZE (p_buf p) (p_tail p) (p_head p)"

definition typed_ok :: "typed_pipe \<Rightarrow> bool" where
  "typed_ok tp \<longleftrightarrow> ring_ok PIPE_TYPED_CAPACITY (tp_ring tp) (tp_tail tp) (tp_head tp) \<and>
     (\<forall>f \<in> set (ring_list PIPE_TYPED_CAPACITY (tp_ring tp) (tp_tail tp) (tp_head tp)).
        tf_schema_hash f = tp_schema_hash tp)"

definition typed_forms :: "typed_pipe \<Rightarrow> tform list" where
  "typed_forms tp = ring_list PIPE_TYPED_CAPACITY (tp_ring tp) (tp_tail tp) (tp_head tp)"

definition kpipe_inv :: "'a kpipe_scheme \<Rightarrow> bool" where
  "kpipe_inv s \<longleftrightarrow> length (pipes s) = MAX_PIPES \<and> length (pipe_allocated s) = MAX_PIPES \<and>
     length (typed_pipes s) = MAX_PIPES \<and> typed_pipe_count s \<le> MAX_PIPES \<and>
     (\<forall>p \<in> set (pipes s). pipe_ok p) \<and> (\<forall>tp \<in> set (typed_pipes s). typed_ok tp)"


interpretation pipeq: bounded_fifo pipe_ok pipe_bytes 4095 pipe_put pipe_get
proof unfold_locales
  fix p :: pipe and x
  assume ok: "pipe_ok p"
  then have r: "ring_ok PIPE_BUF_SIZE (p_buf p) (p_tail p) (p_head p)" by (simp add: pipe_ok_def)
  show "length (pipe_bytes p) \<le> 4095" using ring_length_le [OF r] by (simp add: pipe_bytes_def)
  { assume "length (pipe_bytes p) = 4095"
    then show "pipe_put x p = None" using ring_full_iff [OF r] by (simp add: pipe_bytes_def pipe_put_def) }
  { assume "length (pipe_bytes p) < 4095"
    then have room: "(p_head p + 1) mod PIPE_BUF_SIZE \<noteq> p_tail p"
      using ring_full_iff [OF r] by (auto simp: pipe_bytes_def)
    then show "\<exists>p'. pipe_put x p = Some p' \<and> pipe_ok p' \<and> pipe_bytes p' = pipe_bytes p @ [x]"
      using ring_list_put [OF r room] ring_ok_put [OF r]
      by (simp add: pipe_put_def pipe_ok_def pipe_bytes_def Let_def) }
  { assume "pipe_bytes p = []"
    then show "pipe_get p = None" using ring_list_empty_iff [OF r] by (simp add: pipe_bytes_def pipe_get_def) }
  { fix y ys assume e: "pipe_bytes p = y # ys"
    then have ne: "p_head p \<noteq> p_tail p" using ring_list_empty_iff [OF r] by (auto simp: pipe_bytes_def)
    then show "\<exists>p'. pipe_get p = Some (y, p') \<and> pipe_ok p' \<and> pipe_bytes p' = ys"
      using ring_list_get [OF r ne] ring_ok_get [OF r] e
      by (auto simp: pipe_get_def pipe_ok_def pipe_bytes_def) }
qed

definition typed_ring_ok :: "typed_pipe \<Rightarrow> bool" where
  "typed_ring_ok tp \<longleftrightarrow> ring_ok PIPE_TYPED_CAPACITY (tp_ring tp) (tp_tail tp) (tp_head tp)"

interpretation typedq: bounded_fifo typed_ring_ok typed_forms 15 typed_put typed_get
proof unfold_locales
  fix p :: typed_pipe and x
  assume ok: "typed_ring_ok p"
  then have r: "ring_ok PIPE_TYPED_CAPACITY (tp_ring p) (tp_tail p) (tp_head p)" by (simp add: typed_ring_ok_def)
  show "length (typed_forms p) \<le> 15" using ring_length_le [OF r] by (simp add: typed_forms_def)
  { assume "length (typed_forms p) = 15"
    then show "typed_put x p = None" using ring_full_iff [OF r] by (simp add: typed_forms_def typed_put_def) }
  { assume "length (typed_forms p) < 15"
    then have room: "(tp_head p + 1) mod PIPE_TYPED_CAPACITY \<noteq> tp_tail p"
      using ring_full_iff [OF r] by (auto simp: typed_forms_def)
    then show "\<exists>p'. typed_put x p = Some p' \<and> typed_ring_ok p' \<and> typed_forms p' = typed_forms p @ [x]"
      using ring_list_put [OF r room] ring_ok_put [OF r]
      by (simp add: typed_put_def typed_ring_ok_def typed_forms_def Let_def) }
  { assume "typed_forms p = []"
    then show "typed_get p = None" using ring_list_empty_iff [OF r] by (simp add: typed_forms_def typed_get_def) }
  { fix y ys assume e: "typed_forms p = y # ys"
    then have ne: "tp_head p \<noteq> tp_tail p" using ring_list_empty_iff [OF r] by (auto simp: typed_forms_def)
    then show "\<exists>p'. typed_get p = Some (y, p') \<and> typed_ring_ok p' \<and> typed_forms p' = ys"
      using ring_list_get [OF r ne] ring_ok_get [OF r] e
      by (auto simp: typed_get_def typed_ring_ok_def typed_forms_def) }
qed

section \<open>The blocking loops\<close>

lemma pipe_get_fields: "pipe_get p = Some (b, p') \<Longrightarrow> p_writers p' = p_writers p \<and> p_readers p' = p_readers p"
  by (auto simp: pipe_get_def split: if_splits)

lemma pipe_put_fields: "pipe_put b p = Some p' \<Longrightarrow> p_writers p' = p_writers p \<and> p_readers p' = p_readers p"
  by (auto simp: pipe_put_def Let_def split: if_splits)

lemma pipe_read_loop_spec:
  "pipe_ok p \<Longrightarrow> \<exists>p'. pipe_read_loop n p =
     (take n (pipe_bytes p), if n \<le> length (pipe_bytes p) \<or> p_writers p = 0 then Done else Spins, p') \<and>
     pipe_ok p' \<and> pipe_bytes p' = drop n (pipe_bytes p) \<and> p_writers p' = p_writers p \<and> p_readers p' = p_readers p"
proof (induction n arbitrary: p)
  case (Suc n)
  show ?case
  proof (cases "pipe_bytes p")
    case Nil
    then show ?thesis using Suc.prems pipeq.deq_empty [OF Suc.prems Nil] by simp
  next
    case (Cons b bs)
    obtain p1 where p1: "pipe_get p = Some (b, p1)" "pipe_ok p1" "pipe_bytes p1 = bs"
      using pipeq.deq_nonempty [OF Suc.prems Cons] by blast
    from Suc.IH [OF p1(2)] p1 pipe_get_fields [OF p1(1)] Cons show ?thesis by auto
  qed
qed simp

lemma pipe_write_loop_spec:
  "pipe_ok p \<Longrightarrow> \<exists>p'. pipe_write_loop bs p =
     (min (length bs) (4095 - length (pipe_bytes p)),
      if length bs \<le> 4095 - length (pipe_bytes p) \<or> p_readers p = 0 then Done else Spins, p') \<and>
     pipe_ok p' \<and> pipe_bytes p' = pipe_bytes p @ take (4095 - length (pipe_bytes p)) bs \<and>
     p_writers p' = p_writers p \<and> p_readers p' = p_readers p"
proof (induction bs arbitrary: p)
  case (Cons b bs)
  show ?case
  proof (cases "length (pipe_bytes p) < 4095")
    case False
    then have "length (pipe_bytes p) = 4095" using pipeq.items_le [OF Cons.prems] by simp
    then show ?thesis using Cons.prems pipeq.enq_full [OF Cons.prems] by simp
  next
    case True
    obtain p1 where p1: "pipe_put b p = Some p1" "pipe_ok p1" "pipe_bytes p1 = pipe_bytes p @ [b]"
      using pipeq.enq_room [OF Cons.prems True] by blast
    have "4095 - length (pipe_bytes p) = Suc (4095 - length (pipe_bytes p1))" using True p1(3) by simp
    with Cons.IH [OF p1(2)] p1 pipe_put_fields [OF p1(1)] True show ?thesis by auto
  qed
qed simp

lemma kpipe_inv_upd_pipe: "kpipe_inv s \<Longrightarrow> pipe_ok (f (pipes s ! i)) \<Longrightarrow> kpipe_inv (upd_pipe i f s)"
  using set_update_subset_insert [of "pipes s" i "f (pipes s ! i)"]
  by (auto simp: kpipe_inv_def upd_pipe_def)

lemma kpipe_inv_upd_typed: "kpipe_inv s \<Longrightarrow> typed_ok (f (typed_pipes s ! i)) \<Longrightarrow> kpipe_inv (upd_typed i f s)"
  using set_update_subset_insert [of "typed_pipes s" i "f (typed_pipes s ! i)"]
  by (auto simp: kpipe_inv_def upd_typed_def)

lemma pipe_ok_nth: "kpipe_inv s \<Longrightarrow> i < MAX_PIPES \<Longrightarrow> pipe_ok (pipes s ! i)"
  by (auto simp: kpipe_inv_def)

lemma pipe_read_eq:
  fixes i :: nat
  assumes "kpipe_inv s"
  defines "p \<equiv> pipes s ! (i mod MAX_PIPES)"
  obtains p' where "pipe_read i len s = ((take (nat len) (pipe_bytes p),
      if nat len \<le> length (pipe_bytes p) \<or> p_writers p = 0 then Done else Spins), upd_pipe (i mod MAX_PIPES) (\<lambda>_. p') s)"
    and "pipe_ok p'" and "pipe_bytes p' = drop (nat len) (pipe_bytes p)"
    and "p_writers p' = p_writers p" and "p_readers p' = p_readers p"
  using pipe_read_loop_spec [OF pipe_ok_nth [OF assms(1), of "i mod MAX_PIPES"], of "nat len"]
  unfolding p_def pipe_read_def Let_def by auto

lemma pipe_write_eq:
  fixes i :: nat
  assumes "kpipe_inv s"
  defines "p \<equiv> pipes s ! (i mod MAX_PIPES)"
  obtains p' where "pipe_write i bs s = ((min (length bs) (4095 - length (pipe_bytes p)),
      if length bs \<le> 4095 - length (pipe_bytes p) \<or> p_readers p = 0 then Done else Spins), upd_pipe (i mod MAX_PIPES) (\<lambda>_. p') s)"
    and "pipe_ok p'" and "pipe_bytes p' = pipe_bytes p @ take (4095 - length (pipe_bytes p)) bs"
    and "p_writers p' = p_writers p" and "p_readers p' = p_readers p"
  using pipe_write_loop_spec [OF pipe_ok_nth [OF assms(1), of "i mod MAX_PIPES"], of bs]
  unfolding p_def pipe_write_def Let_def by auto


section \<open>Properties\<close>

text \<open>
  C7: byte pipes are bounded FIFO streams.  For any interleaving of the critical sections of readers
  and writers, the bytes delivered followed by the bytes still in the pipe are exactly the bytes
  in it before followed by the bytes accepted; a byte is refused only when 4095 are waiting.
\<close>

theorem pipe_stream_fifo:
  assumes "pipe_ok p" and "fifo_run pipe_put pipe_get ops p = (accepted, delivered, p')"
  shows "pipe_bytes p @ accepted = delivered @ pipe_bytes p' \<and> pipe_ok p' \<and>
    (pipe_put b p' = None \<longleftrightarrow> length (pipe_bytes p') = 4095)"
proof -
  note run = pipeq.run_fifo [OF assms]
  then have ok: "pipe_ok p'" by simp
  with run pipeq.enq_iff_room [OF ok, of b] pipeq.items_le [OF ok] show ?thesis by auto
qed

lemma bss_pipe_ok: "pipe_ok bss_pipe"
  by (simp add: bss_pipe_def pipe_ok_def ring_ok_def)

theorem pipe_stream_fifo_witness:
  "\<exists>a d p'. fifo_run pipe_put pipe_get [Enq 65, Enq 66, Deq] bss_pipe = (a, d, p') \<and>
     pipe_bytes bss_pipe @ a = d @ pipe_bytes p'"
proof -
  obtain a d p' where r: "fifo_run pipe_put pipe_get [Enq 65, Enq 66, Deq] bss_pipe = (a, d, p')"
    by (cases "fifo_run pipe_put pipe_get [Enq 65, Enq 66, Deq] bss_pipe")
  with pipe_stream_fifo [OF bss_pipe_ok r] show ?thesis by blast
qed

text \<open>
  Writing and reading back.  If the data fit into the pipe, \<^verbatim>\<open>pipe_write\<close> returns their length at
  once, and a following \<^verbatim>\<open>pipe_read\<close> of everything in the pipe returns what was there before followed
  by the data, leaving the pipe empty; no other pipe changes.
\<close>

theorem pipe_write_read:
  assumes "kpipe_inv s" and "length (pipe_bytes (pipes s ! (i mod 16))) + length data \<le> 4095"
    and "pipe_write i data s = (w, s1)"
    and "pipe_read i (int (length (pipe_bytes (pipes s ! (i mod 16))) + length data)) s1 = (r, s2)"
  shows "w = (length data, Done) \<and> r = (pipe_bytes (pipes s ! (i mod 16)) @ data, Done) \<and>
    pipe_bytes (pipes s2 ! (i mod 16)) = [] \<and> kpipe_inv s2 \<and>
    (\<forall>j. j \<noteq> i mod 16 \<longrightarrow> pipes s2 ! j = pipes s ! j)"
proof -
  let ?k = "i mod MAX_PIPES"
  have l: "length (pipes s) = MAX_PIPES" using assms(1) by (simp add: kpipe_inv_def)
  let ?p = "pipes s ! ?k"
  obtain p1 where w: "pipe_write i data s = ((min (length data) (4095 - length (pipe_bytes ?p)),
      if length data \<le> 4095 - length (pipe_bytes ?p) \<or> p_readers ?p = 0 then Done else Spins),
      upd_pipe ?k (\<lambda>_. p1) s)"
    and ok1: "pipe_ok p1" and b1: "pipe_bytes p1 = pipe_bytes ?p @ take (4095 - length (pipe_bytes ?p)) data"
    by (rule pipe_write_eq [OF assms(1), of i data])
  have room: "length data \<le> 4095 - length (pipe_bytes ?p)" using assms(2) by linarith
  have p1: "pipe_write i data s = ((length data, Done), upd_pipe ?k (\<lambda>_. p1) s)" "pipe_ok p1"
    "pipe_bytes p1 = pipe_bytes ?p @ data"
    using w ok1 b1 room by (simp_all only: min_absorb1 if_True take_all simp_thms)
  then have s1: "w = (length data, Done)" "s1 = upd_pipe ?k (\<lambda>_. p1) s" using assms(3) by auto
  have i1: "kpipe_inv s1" unfolding s1 by (rule kpipe_inv_upd_pipe [OF assms(1) p1(2)])
  have k1: "pipes s1 ! ?k = p1" using l by (simp add: s1 upd_pipe_def)
  let ?n = "int (length (pipe_bytes ?p) + length data)"
  have n: "nat ?n = length (pipe_bytes p1)" using p1(3) by simp
  obtain p2 where rd: "pipe_read i ?n s1 = ((take (nat ?n) (pipe_bytes p1),
      if nat ?n \<le> length (pipe_bytes p1) \<or> p_writers p1 = 0 then Done else Spins), upd_pipe ?k (\<lambda>_. p2) s1)"
    and ok2: "pipe_ok p2" and b2: "pipe_bytes p2 = drop (nat ?n) (pipe_bytes p1)"
    by (rule pipe_read_eq [OF i1, of i ?n, unfolded k1])
  have p2: "pipe_read i ?n s1 = ((pipe_bytes p1, Done), upd_pipe ?k (\<lambda>_. p2) s1)" "pipe_ok p2" "pipe_bytes p2 = []"
    using rd ok2 b2 unfolding n by simp_all
  then have s2: "r = (pipe_bytes p1, Done)" "s2 = upd_pipe ?k (\<lambda>_. p2) s1" using assms(4) by auto
  have "kpipe_inv s2" unfolding s2 by (rule kpipe_inv_upd_pipe [OF i1 p2(2)])
  with s1 s2 p1(3) p2(3) l show ?thesis by (simp add: upd_pipe_def)
qed

lemma bss_kpipe_inv: "kpipe_inv bss_kpipe"
  by (simp add: kpipe_inv_def bss_kpipe_def kproc.defs bss_pipe_def pipe_ok_def ring_ok_def bss_typed_def
      typed_ok_def ring_list_def)

theorem pipe_write_read_witness:
  "let (w, s1) = pipe_write 3 (cs ''hello'') bss_kpipe; (r, s2) = pipe_read 3 5 s1
   in w = (5, Done) \<and> r = (cs ''hello'', Done)"
proof -
  obtain w s1 where w: "pipe_write 3 (cs ''hello'') bss_kpipe = (w, s1)"
    by (cases "pipe_write 3 (cs ''hello'') bss_kpipe")
  obtain r s2 where r: "pipe_read 3 5 s1 = (r, s2)" by (cases "pipe_read 3 5 s1")
  have e: "pipe_bytes (pipes bss_kpipe ! 3) = []" and l: "length (cs ''hello'') = 5"
    by (simp_all add: bss_kpipe_def kproc.defs bss_pipe_def pipe_bytes_def ring_list_def cs_def)
  show ?thesis using pipe_write_read [OF bss_kpipe_inv _ w, of r s2] r e l w by simp
qed

text \<open>
  C8: a typed pipe only ever carries forms of its own schema.  Creating, writing and reading typed
  pipes keep the invariant that every queued form has the schema hash of its pipe; a form with
  another schema is refused, and every form that a read delivers has the schema of the pipe.
\<close>

theorem typed_pipe_schema_safe:
  assumes "kpipe_inv s"
  shows "kpipe_inv (snd (pipe_create_typed h producer consumer token s)) \<and>
    kpipe_inv (snd (pipe_typed_write i form s)) \<and> kpipe_inv (snd (pipe_typed_read i s)) \<and>
    (tf_schema_hash form \<noteq> tp_schema_hash (typed_pipes s ! nat i) \<longrightarrow>
       fst (pipe_typed_write i form s) = -1 \<and> typed_pipes (snd (pipe_typed_write i form s)) = typed_pipes s) \<and>
    (\<forall>f. snd (fst (pipe_typed_read i s)) = Some f \<longrightarrow> tf_schema_hash f = tp_schema_hash (typed_pipes s ! nat i))"
proof -
  have log: "kpipe_inv (log_write l m t) = kpipe_inv t" for l m and t :: "'a kpipe_scheme"
    by (simp add: kpipe_inv_def)
  have "kpipe_inv (snd (pipe_create_typed h producer consumer token s))"
    using assms by (auto simp: pipe_create_typed_def Let_def log kpipe_inv_def upd_typed_def typed_ok_def
        ring_ok_def ring_list_def dest!: set_update_subset_insert [THEN subsetD])
  moreover have valid: "typed_ring_ok (typed_pipes s ! nat i)" "typed_ok (typed_pipes s ! nat i)"
    if "typed_valid i s"
    using that assms by (auto simp: typed_valid_def kpipe_inv_def typed_ok_def typed_ring_ok_def)
  have "kpipe_inv (snd (pipe_typed_write i form s))"
  proof (cases "typed_valid i s \<and> tf_schema_hash form = tp_schema_hash (typed_pipes s ! nat i)")
    case True
    have "typed_ok tp'" if p: "typed_put form (typed_pipes s ! nat i) = Some tp'" for tp'
    proof -
      have "tp_schema_hash tp' = tp_schema_hash (typed_pipes s ! nat i)"
        using p by (auto simp: typed_put_def Let_def split: if_splits)
      with typedq.enq_SomeD [OF valid(1) p] valid(2) True show ?thesis
        by (auto simp: typed_ok_def typed_ring_ok_def typed_forms_def)
    qed
    with True assms show ?thesis
      by (auto simp: pipe_typed_write_def Let_def intro!: kpipe_inv_upd_typed split: option.split)
  next
    case False
    with assms show ?thesis by (auto simp: pipe_typed_write_def Let_def log)
  qed
  moreover have rd: "typed_ok tp' \<and> tf_schema_hash f = tp_schema_hash (typed_pipes s ! nat i)"
    if v: "typed_valid i s" and g: "typed_get (typed_pipes s ! nat i) = Some (f, tp')" for f tp'
  proof -
    have "tp_schema_hash tp' = tp_schema_hash (typed_pipes s ! nat i)"
      using g by (auto simp: typed_get_def split: if_splits)
    with typedq.deq_SomeD [OF valid(1) [OF v] g] valid(2) [OF v] show ?thesis
      by (auto simp: typed_ok_def typed_ring_ok_def typed_forms_def)
  qed
  have "kpipe_inv (snd (pipe_typed_read i s))"
    using assms rd by (auto simp: pipe_typed_read_def intro!: kpipe_inv_upd_typed split: option.split)
  moreover have "\<forall>f. snd (fst (pipe_typed_read i s)) = Some f \<longrightarrow> tf_schema_hash f = tp_schema_hash (typed_pipes s ! nat i)"
    using rd by (auto simp: pipe_typed_read_def split: option.split)
  moreover have "tf_schema_hash form \<noteq> tp_schema_hash (typed_pipes s ! nat i) \<longrightarrow>
      fst (pipe_typed_write i form s) = -1 \<and> typed_pipes (snd (pipe_typed_write i form s)) = typed_pipes s"
    by (simp add: pipe_typed_write_def Let_def)
  ultimately show ?thesis by blast
qed

theorem typed_pipe_schema_safe_witness:
  "kpipe_inv (snd (pipe_create_typed 0xABCD 1 2 0 bss_kpipe))"
  using typed_pipe_schema_safe [OF bss_kpipe_inv] by blast

text \<open>
  The reader and writer descriptors are requested for \<^verbatim>\<open>current_task\<close>, the index of the current task,
  where \<^verbatim>\<open>proc_alloc_fd\<close> expects its pid.  Before any task has the index as its pid, both requests fail
  and yet the call reports success.
\<close>

lemma pipe_create_fds_fail:
  assumes "kpipe_inv s" and "\<not> pipe_allocated s ! 0"
    and "\<forall>i < 16. t_pid (tasks s ! i) \<noteq> int (current_task s)"
  shows "fst (pipe_create s) = Some (-1, -1)"
proof -
  have "find (\<lambda>i. \<not> pipe_allocated s ! i) [0..<MAX_PIPES] = Some 0"
    using assms(2) by (simp add: upt_conv_Cons)
  moreover have "find_task (\<lambda>i t. t_pid t = int (current_task s)) t = None"
    if "tasks t = tasks s" for t :: "'a kpipe_scheme"
    using that assms(3) by (simp add: find_task_None)
  ultimately show ?thesis
    by (simp add: pipe_create_def Let_def proc_alloc_fd_def upd_pipe_def)
qed

end
