(* ===== verification/Hexa_Sync.thy ===== *)
theory Hexa_Sync
  imports Hexa_Prelude
begin

text \<open>
  Mutexes and semaphores (\<^verbatim>\<open>sync.c\<close>).  The waiting loops are split into their atomic rounds: the
  test-and-set of \<^verbatim>\<open>mutex_lock\<close> and the critical section of \<^verbatim>\<open>sem_wait\<close>.  A round says whether the
  caller got through or goes on spinning.  The step relations let any number of tasks call the
  operations, interleaved in any order.
\<close>

section \<open>Mutexes\<close>

record mutex =
  locked :: int
  owner :: u32

definition mutex_init :: "mutex \<Rightarrow> mutex" where
  "mutex_init m = m\<lparr>locked := 0, owner := 0xFFFFFFFF\<rparr>"

text \<open>\<^verbatim>\<open>__sync_lock_test_and_set(&m->locked, 1)\<close>: the old value, and the lock set.\<close>

definition test_and_set :: "mutex \<Rightarrow> int \<times> mutex" where
  "test_and_set m = (locked m, m\<lparr>locked := 1\<rparr>)"

text \<open>One round of \<^verbatim>\<open>mutex_lock\<close>: \<open>True\<close> when it returns to its caller.\<close>

definition mutex_lock_round :: "mutex \<Rightarrow> bool \<times> mutex" where
  "mutex_lock_round m =
     (case test_and_set m of (old, m') \<Rightarrow> if old \<noteq> 0 then (False, m') else (True, m'\<lparr>owner := 1\<rparr>))"

definition mutex_trylock :: "mutex \<Rightarrow> bool \<times> mutex" where
  "mutex_trylock m = (case test_and_set m of (old, m') \<Rightarrow> (old = 0, m'))"

definition mutex_unlock :: "mutex \<Rightarrow> mutex" where
  "mutex_unlock m = m\<lparr>owner := 0xFFFFFFFF, locked := 0\<rparr>"

text \<open>Tasks inside the critical section, and the lock.\<close>

inductive lock_step :: "mutex \<times> nat set \<Rightarrow> mutex \<times> nat set \<Rightarrow> bool" where
  lock: "t \<notin> C \<Longrightarrow> mutex_lock_round m = (True, m') \<Longrightarrow> lock_step (m, C) (m', insert t C)"
| spin: "t \<notin> C \<Longrightarrow> mutex_lock_round m = (False, m') \<Longrightarrow> lock_step (m, C) (m', C)"
| try_ok: "t \<notin> C \<Longrightarrow> mutex_trylock m = (True, m') \<Longrightarrow> lock_step (m, C) (m', insert t C)"
| try_fail: "t \<notin> C \<Longrightarrow> mutex_trylock m = (False, m') \<Longrightarrow> lock_step (m, C) (m', C)"
| unlock: "t \<in> C \<Longrightarrow> lock_step (m, C) (mutex_unlock m, C - {t})"

inductive lock_reach :: "mutex \<times> nat set \<Rightarrow> bool" where
  init: "lock_reach (mutex_init m, {})"
| step: "lock_reach c \<Longrightarrow> lock_step c c' \<Longrightarrow> lock_reach c'"

definition lock_inv :: "mutex \<times> nat set \<Rightarrow> bool" where
  "lock_inv c \<longleftrightarrow> (locked (fst c) = 0 \<and> snd c = {}) \<or> (locked (fst c) = 1 \<and> (\<exists>t. snd c = {t}))"

lemmas mutex_defs = mutex_lock_round_def mutex_trylock_def mutex_unlock_def test_and_set_def

lemma lock_step_inv: "lock_step c c' \<Longrightarrow> lock_inv c \<Longrightarrow> lock_inv c'"
proof (induction rule: lock_step.induct)
  case (unlock t C m)
  then have "C - {t} = {}" by (auto simp: lock_inv_def)
  then show ?case by (simp add: lock_inv_def mutex_defs)
qed (auto simp: lock_inv_def mutex_defs split: if_splits)

text \<open>
  C9: mutual exclusion.  However tasks interleave \<^verbatim>\<open>mutex_lock\<close>, \<^verbatim>\<open>mutex_trylock\<close> and, while they
  hold the mutex, \<^verbatim>\<open>mutex_unlock\<close>, at most one task holds it, and the lock word is 0 exactly when
  nobody does.
\<close>

theorem mutex_exclusion:
  assumes "lock_reach (m, C)"
  shows "(\<forall>t \<in> C. \<forall>u \<in> C. t = u) \<and> (locked m = 0 \<longleftrightarrow> C = {})"
proof -
  have "lock_inv c" if "lock_reach c" for c
    using that by induction (auto intro: lock_step_inv, simp add: lock_inv_def mutex_init_def)
  then have "lock_inv (m, C)" using assms by blast
  then show ?thesis by (auto simp: lock_inv_def)
qed

theorem mutex_exclusion_witness:
  "let m0 = mutex_init \<lparr>locked = 5, owner = 0\<rparr>; m1 = snd (mutex_lock_round m0)
   in fst (mutex_lock_round m0) \<and> \<not> fst (mutex_lock_round m1) \<and> locked m1 \<noteq> 0"
proof -
  let ?m0 = "mutex_init \<lparr>locked = 5, owner = 0\<rparr>"
  let ?m1 = "snd (mutex_lock_round ?m0)"
  have l: "mutex_lock_round ?m0 = (True, ?m1)" by (simp add: mutex_defs mutex_init_def)
  have "lock_reach (?m1, insert 3 {})"
    by (rule lock_reach.step [OF lock_reach.init lock_step.lock [OF _ l]]) simp
  from mutex_exclusion [OF this] have "locked ?m1 \<noteq> 0" by simp
  with l show ?thesis by (simp add: mutex_defs mutex_init_def)
qed

section \<open>Semaphores\<close>

record semaphore =
  sem_val :: int
  waiters :: int

definition sem_init :: "int \<Rightarrow> semaphore \<Rightarrow> semaphore" where
  "sem_init v s = s\<lparr>sem_val := v, waiters := 0\<rparr>"

text \<open>One round of \<^verbatim>\<open>sem_wait\<close>: \<open>True\<close> when it returns to its caller.\<close>

definition sem_wait_round :: "semaphore \<Rightarrow> bool \<times> semaphore" where
  "sem_wait_round s =
     (if sem_val s > 0 then (True, s\<lparr>sem_val := sem_val s - 1\<rparr>)
      else (False, s\<lparr>waiters := waiters s + 1\<rparr>))"

definition sem_signal :: "semaphore \<Rightarrow> semaphore" where
  "sem_signal s = s\<lparr>sem_val := sem_val s + 1, waiters := 0\<rparr>"

text \<open>The semaphore with the number of completed waits and of signals.\<close>

inductive sem_reach :: "int \<Rightarrow> semaphore \<Rightarrow> nat \<Rightarrow> nat \<Rightarrow> bool" for v where
  init: "sem_reach v (sem_init v s) 0 0"
| wait: "sem_reach v s w g \<Longrightarrow> sem_wait_round s = (True, s') \<Longrightarrow> sem_reach v s' (w + 1) g"
| spin: "sem_reach v s w g \<Longrightarrow> sem_wait_round s = (False, s') \<Longrightarrow> sem_reach v s' w g"
| signal: "sem_reach v s w g \<Longrightarrow> sem_reach v (sem_signal s) w (g + 1)"

text \<open>
  Semaphores count.  Starting from a nonnegative value, after any interleaving of waits and
  signals the value is the initial value plus the signals minus the completed waits, and never
  negative; so no more waits complete than the initial value and the signals allow.
\<close>

theorem semaphore_counts:
  assumes "sem_reach v s w g" and "0 \<le> v"
  shows "sem_val s = v + int g - int w \<and> 0 \<le> sem_val s \<and> int w \<le> v + int g"
  using assms
  by (induction rule: sem_reach.induct)
    (auto simp: sem_init_def sem_wait_round_def sem_signal_def split: if_splits)

theorem semaphore_counts_witness:
  "let s = snd (sem_wait_round (sem_init 1 \<lparr>sem_val = 0, waiters = 9\<rparr>))
   in sem_val s = 0 \<and> \<not> fst (sem_wait_round s)"
proof -
  let ?i = "sem_init 1 \<lparr>sem_val = 0, waiters = 9\<rparr>"
  have w: "sem_wait_round ?i = (True, snd (sem_wait_round ?i))" by (simp add: sem_init_def sem_wait_round_def)
  have "sem_reach 1 (snd (sem_wait_round ?i)) (0 + 1) 0" by (rule sem_reach.wait [OF sem_reach.init w])
  from semaphore_counts [OF this] show ?thesis by (simp add: sem_wait_round_def)
qed

end
