(* ===== verification/Hexa_Disk.thy ===== *)
theory Hexa_Disk
  imports Hexa_Pipe Hexa_Bitmap
begin

text \<open>
  The block layer of the form store: the ATA driver (\<^verbatim>\<open>hexa.c\<close>), the block cache, the block
  allocator, superblock, format and mount (\<^verbatim>\<open>hexafs_disk.c\<close>).  The drive is a device: \<open>drive\<close> maps the
  drive-select byte and a 28-bit sector number to the 512 bytes last written there, and
  \<open>ata_status n\<close> is the answer to the \<open>n\<close>-th read of the status port, an arbitrary function, so
  that every time-out and error the driver can see occurs in the model.  A packed structure is the
  list of its 512 bytes.
\<close>

section \<open>The interface of a block store\<close>

text \<open>
  What the layers above rely on: reading a valid block delivers its contents and changes no
  block, writing one changes exactly that block.
\<close>

locale block_store =
  fixes inv :: "'s \<Rightarrow> bool"
    and valid :: "'b \<Rightarrow> bool"
    and good :: "'d \<Rightarrow> bool"
    and blk :: "'s \<Rightarrow> 'b \<Rightarrow> 'd"
    and rd :: "'b \<Rightarrow> 's \<Rightarrow> 'd option \<times> 's"
    and wr :: "'b \<Rightarrow> 'd \<Rightarrow> 's \<Rightarrow> bool \<times> 's"
  assumes rd_law: "inv s \<Longrightarrow> valid a \<Longrightarrow> \<exists>s'. rd a s = (Some (blk s a), s') \<and> inv s' \<and> blk s' = blk s"
    and wr_law: "inv s \<Longrightarrow> valid a \<Longrightarrow> good d \<Longrightarrow>
          \<exists>s'. wr a d s = (True, s') \<and> inv s' \<and> blk s' = (blk s)(a := d)"
begin

lemma rd_cases:
  assumes "inv s" and "valid a"
  obtains s' where "rd a s = (Some (blk s a), s')" and "inv s'" and "blk s' = blk s"
  using rd_law [OF assms] by blast

lemma wr_cases:
  assumes "inv s" and "valid a" and "good d"
  obtains s' where "wr a d s = (True, s')" and "inv s'" and "blk s' = (blk s)(a := d)"
  using wr_law [OF assms] by blast

lemma rd_after_wr:
  assumes "inv s" and "valid a" and "valid b" and "good d"
  shows "fst (rd b (snd (wr a d s))) = Some (if b = a then d else blk s b)"
proof -
  obtain s1 where s1: "wr a d s = (True, s1)" "inv s1" "blk s1 = (blk s)(a := d)"
    using wr_cases [OF assms(1,2,4)] .
  obtain s2 where "rd b s1 = (Some (blk s1 b), s2)" using rd_cases [OF s1(2) assms(3)] .
  with s1 show ?thesis by simp
qed

end

section \<open>State\<close>

abbreviation HEXAFS_BLOCK_SIZE :: nat where "HEXAFS_BLOCK_SIZE \<equiv> 512"
abbreviation HEXAFS_DISK_BLOCKS :: nat where "HEXAFS_DISK_BLOCKS \<equiv> 4096"
abbreviation HEXAFS_SUPER_LBA :: u32 where "HEXAFS_SUPER_LBA \<equiv> 100"
abbreviation HEXAFS_ALLOC_LBA :: u32 where "HEXAFS_ALLOC_LBA \<equiv> 101"
abbreviation HEXAFS_OBJECT_LBA :: nat where "HEXAFS_OBJECT_LBA \<equiv> 109"
abbreviation HEXAFS_CACHE_SLOTS :: nat where "HEXAFS_CACHE_SLOTS \<equiv> 16"

record cache_slot =
  c_lba :: u32
  c_dirty :: bool
  c_data :: bytes

record hexafs_tx =
  tx_active :: bool
  tx_tid :: int
  tx_parent_snap_block :: u32
  tx_new_root_block :: u32
  tx_snap_block :: u32
  tx_journal_block :: u32
  tx_dirty :: bool

record kdisk = kpipe +
  ata_drv :: u8
  disk_ok :: bool
  drive :: "u8 \<Rightarrow> u32 \<Rightarrow> bytes"
  ata_status :: "nat \<Rightarrow> u8"
  ata_reads :: nat
  block_cache :: "cache_slot list"
  alloc_bitmap :: bytes
  alloc_bitmap_dirty :: bool
  next_alloc_hint :: nat
  hexafs_mounted :: bool
  sb_cache :: bytes
  sb_valid :: bool
  hexafs_current_tx :: hexafs_tx
  snap_timestamp :: u32

section \<open>ATA driver\<close>

definition inb_status :: "'a kdisk_scheme \<Rightarrow> u8 \<times> 'a kdisk_scheme" where
  "inb_status s = (ata_status s (ata_reads s), s\<lparr>ata_reads := ata_reads s + 1\<rparr>)"

fun ata_poll_loop :: "nat \<Rightarrow> 'a kdisk_scheme \<Rightarrow> bool \<times> 'a kdisk_scheme" where
  "ata_poll_loop 0 s = (False, s)"
| "ata_poll_loop (Suc t) s =
     (case inb_status s of (st, s1) \<Rightarrow> if st AND 0x80 = 0 then (True, s1) else ata_poll_loop t s1)"

definition ata_poll :: "'a kdisk_scheme \<Rightarrow> bool \<times> 'a kdisk_scheme" where
  "ata_poll s = ata_poll_loop 50000 s"

text \<open>Waiting for the drive to request data, or to report an error.\<close>

fun ata_drq_loop :: "nat \<Rightarrow> 'a kdisk_scheme \<Rightarrow> bool \<times> 'a kdisk_scheme" where
  "ata_drq_loop 0 s = (False, s)"
| "ata_drq_loop (Suc t) s =
     (case inb_status s of (st, s1) \<Rightarrow>
        if st AND 0x08 \<noteq> 0 then (True, s1) else if st AND 0x01 \<noteq> 0 then (False, s1) else ata_drq_loop t s1)"

text \<open>The drive and the sector that the four address registers select.\<close>

definition drive_select :: "u32 \<Rightarrow> 'a kdisk_scheme \<Rightarrow> u8" where
  "drive_select lba s = ata_drv s OR (ucast (drop_bit 24 lba) AND 0x0F)"

definition sector_no :: "u32 \<Rightarrow> u32" where
  "sector_no lba = lba AND 0xFFFFFF"

definition ata_read_sector :: "u32 \<Rightarrow> 'a kdisk_scheme \<Rightarrow> bytes option \<times> 'a kdisk_scheme" where
  "ata_read_sector lba s =
     (case ata_poll s of (ok, s1) \<Rightarrow>
        if \<not> ok then (None, s1)
        else (case ata_drq_loop 200000 s1 of (drq, s2) \<Rightarrow>
          if drq then (Some (drive s2 (drive_select lba s2) (sector_no lba)), s2) else (None, s2)))"

definition ata_write_sector :: "u32 \<Rightarrow> bytes \<Rightarrow> 'a kdisk_scheme \<Rightarrow> bool \<times> 'a kdisk_scheme" where
  "ata_write_sector lba buf s =
     (case ata_poll s of (ok, s1) \<Rightarrow>
        if \<not> ok then (False, s1)
        else (case ata_drq_loop 200000 s1 of (drq, s2) \<Rightarrow>
          if drq
          then ata_poll (s2\<lparr>drive := (drive s2)(drive_select lba s2 :=
                  (drive s2 (drive_select lba s2))(sector_no lba := buf))\<rparr>)
          else (False, s2)))"

definition ata_init :: "'a kdisk_scheme \<Rightarrow> 'a kdisk_scheme" where
  "ata_init s =
     (let s0 = s\<lparr>disk_ok := False, ata_reads := ata_reads s + 9999\<rparr>
      in case ata_read_sector 0 (s0\<lparr>ata_drv := 0xE0\<rparr>) of
           (Some _, s1) \<Rightarrow> s1\<lparr>disk_ok := True\<rparr>
         | (None, s1) \<Rightarrow>
             (case ata_read_sector 0 (s1\<lparr>ata_drv := 0xF0\<rparr>) of
                (Some _, s2) \<Rightarrow> s2\<lparr>disk_ok := True\<rparr>
              | (None, s2) \<Rightarrow> s2\<lparr>disk_ok := False\<rparr>))"

section \<open>Block cache\<close>

definition cache_find :: "u32 \<Rightarrow> 'a kdisk_scheme \<Rightarrow> nat option" where
  "cache_find lba s = find (\<lambda>i. c_lba (block_cache s ! i) = lba) [0..<HEXAFS_CACHE_SLOTS]"

definition cache_evict :: "'a kdisk_scheme \<Rightarrow> nat" where
  "cache_evict s =
     (case find (\<lambda>i. c_lba (block_cache s ! i) = 0) [0..<HEXAFS_CACHE_SLOTS] of Some i \<Rightarrow> i | None \<Rightarrow> 0)"

definition upd_slot :: "nat \<Rightarrow> (cache_slot \<Rightarrow> cache_slot) \<Rightarrow> 'a kdisk_scheme \<Rightarrow> 'a kdisk_scheme" where
  "upd_slot i f s = s\<lparr>block_cache := (block_cache s)[i := f (block_cache s ! i)]\<rparr>"

definition cache_flush_slot :: "nat \<Rightarrow> 'a kdisk_scheme \<Rightarrow> 'a kdisk_scheme" where
  "cache_flush_slot i s =
     (let c = block_cache s ! i
      in if c_lba c \<noteq> 0 \<and> c_dirty c
         then (case ata_write_sector (c_lba c) (c_data c) s of (_, s1) \<Rightarrow> upd_slot i (\<lambda>c. c\<lparr>c_dirty := False\<rparr>) s1)
         else s)"

definition cache_flush_dirty :: "'a kdisk_scheme \<Rightarrow> 'a kdisk_scheme" where
  "cache_flush_dirty s = fold cache_flush_slot [0..<HEXAFS_CACHE_SLOTS] s"

definition cache_read :: "u32 \<Rightarrow> 'a kdisk_scheme \<Rightarrow> bytes option \<times> 'a kdisk_scheme" where
  "cache_read lba s =
     (case cache_find lba s of
        Some i \<Rightarrow> (Some (c_data (block_cache s ! i)), s)
      | None \<Rightarrow>
          (case ata_read_sector lba s of
             (None, s1) \<Rightarrow> (None, s1)
           | (Some buf, s1) \<Rightarrow>
               (Some buf, upd_slot (cache_evict s1) (\<lambda>_. \<lparr>c_lba = lba, c_dirty = False, c_data = buf\<rparr>) s1)))"

definition cache_write :: "u32 \<Rightarrow> bytes \<Rightarrow> 'a kdisk_scheme \<Rightarrow> bool \<times> 'a kdisk_scheme" where
  "cache_write lba buf s =
     (let i = (case cache_find lba s of Some i \<Rightarrow> i | None \<Rightarrow> cache_evict s)
      in ata_write_sector lba buf (upd_slot i (\<lambda>_. \<lparr>c_lba = lba, c_dirty = True, c_data = buf\<rparr>) s))"

definition hexafs_block_read :: "u32 \<Rightarrow> 'a kdisk_scheme \<Rightarrow> bytes option \<times> 'a kdisk_scheme" where
  "hexafs_block_read lba s = cache_read lba s"

definition hexafs_block_write :: "u32 \<Rightarrow> bytes \<Rightarrow> 'a kdisk_scheme \<Rightarrow> bool \<times> 'a kdisk_scheme" where
  "hexafs_block_write lba buf s = cache_write lba buf s"

section \<open>Hashes\<close>

definition hexafs_content_hash :: "bytes \<Rightarrow> u32" where
  "hexafs_content_hash data = fold (\<lambda>b h. (push_bit 5 h + h) + ucast b) data 5381"

definition hexafs_block_verify :: "u32 \<Rightarrow> bytes \<Rightarrow> u32 \<Rightarrow> 'a kdisk_scheme \<Rightarrow> bool \<times> 'a kdisk_scheme" where
  "hexafs_block_verify lba buf stored_crc s =
     (if hexafs_content_hash buf \<noteq> stored_crc
      then (False, log_write LOG_LEVEL_WARN (cs ''HEXAFS: CRC mismatch on block'') s) else (True, s))"

section \<open>Block allocator\<close>

definition bitmap_test :: "nat \<Rightarrow> 'a kdisk_scheme \<Rightarrow> bool" where
  "bitmap_test block s \<longleftrightarrow> (if block div 8 \<ge> 1024 then True else bm_test (alloc_bitmap s) block)"

definition bitmap_set :: "nat \<Rightarrow> 'a kdisk_scheme \<Rightarrow> 'a kdisk_scheme" where
  "bitmap_set block s =
     (if block div 8 \<ge> 1024 then s
      else s\<lparr>alloc_bitmap := bm_set block (alloc_bitmap s), alloc_bitmap_dirty := True\<rparr>)"

definition bitmap_clear :: "nat \<Rightarrow> 'a kdisk_scheme \<Rightarrow> 'a kdisk_scheme" where
  "bitmap_clear block s =
     (if block div 8 \<ge> 1024 then s
      else s\<lparr>alloc_bitmap := bm_clear block (alloc_bitmap s), alloc_bitmap_dirty := True\<rparr>)"

text \<open>The two search loops; below block 8192 \<^verbatim>\<open>bitmap_test\<close> is the bit of the array.\<close>

definition hexafs_alloc_block :: "'a kdisk_scheme \<Rightarrow> u32 \<times> 'a kdisk_scheme" where
  "hexafs_alloc_block s =
     (case next_fit (alloc_bitmap s) HEXAFS_OBJECT_LBA (next_alloc_hint s) HEXAFS_DISK_BLOCKS of
        Some i \<Rightarrow>
          let s1 = bitmap_set i s
          in (case hexafs_block_write (of_nat i) (zeros HEXAFS_BLOCK_SIZE) s1 of (_, s2) \<Rightarrow>
                (of_nat i, s2\<lparr>next_alloc_hint := i + 1\<rparr>))
      | None \<Rightarrow> (0, log_write LOG_LEVEL_WARN (cs ''HEXAFS: out of disk blocks'') s))"

definition hexafs_free_block :: "u32 \<Rightarrow> 'a kdisk_scheme \<Rightarrow> 'a kdisk_scheme" where
  "hexafs_free_block lba s =
     (if unat lba < HEXAFS_OBJECT_LBA \<or> unat lba \<ge> HEXAFS_DISK_BLOCKS then s
      else let s1 = bitmap_clear (unat lba) s
           in if unat lba < next_alloc_hint s1 then s1\<lparr>next_alloc_hint := unat lba\<rparr> else s1)"

definition bitmap_init :: "'a kdisk_scheme \<Rightarrow> 'a kdisk_scheme" where
  "bitmap_init s =
     (let s1 = s\<lparr>alloc_bitmap := zeros 1024\<rparr>;
          s2 = fold bitmap_set [0..<HEXAFS_OBJECT_LBA] s1;
          s3 = fold bitmap_set [101..<103] s2
      in s3\<lparr>alloc_bitmap_dirty := True\<rparr>)"

definition hexafs_save_bitmap :: "'a kdisk_scheme \<Rightarrow> bool \<times> 'a kdisk_scheme" where
  "hexafs_save_bitmap s =
     (if \<not> alloc_bitmap_dirty s then (True, s)
      else case hexafs_block_write HEXAFS_ALLOC_LBA (get_bytes 0 512 (alloc_bitmap s)) s of
        (False, s1) \<Rightarrow> (False, s1)
      | (True, s1) \<Rightarrow>
          (case hexafs_block_write (HEXAFS_ALLOC_LBA + 1) (get_bytes 512 512 (alloc_bitmap s1)) s1 of
             (False, s2) \<Rightarrow> (False, s2)
           | (True, s2) \<Rightarrow> (True, s2\<lparr>alloc_bitmap_dirty := False\<rparr>)))"

definition bitmap_load :: "'a kdisk_scheme \<Rightarrow> bool \<times> 'a kdisk_scheme" where
  "bitmap_load s =
     (case hexafs_block_read HEXAFS_ALLOC_LBA s of
        (None, s1) \<Rightarrow> (False, s1)
      | (Some b0, s1) \<Rightarrow>
          let s1 = s1\<lparr>alloc_bitmap := put_bytes 0 b0 (alloc_bitmap s1)\<rparr>
          in case hexafs_block_read (HEXAFS_ALLOC_LBA + 1) s1 of
               (None, s2) \<Rightarrow> (False, s2)
             | (Some b1, s2) \<Rightarrow>
                 (True, s2\<lparr>alloc_bitmap := put_bytes 512 b1 (alloc_bitmap s2), alloc_bitmap_dirty := False\<rparr>))"

section \<open>Superblock, format, mount\<close>

definition super_magic :: bytes where
  "super_magic = cs ''HEXAFS0'' @ [0]"

definition sb_checksum :: "bytes \<Rightarrow> u32" where
  "sb_checksum sb = hexafs_content_hash (put32 32 0 sb)"

text \<open>The fields \<^verbatim>\<open>magic\<close> to \<^verbatim>\<open>object_store_lba\<close> as format and superblock write set them.\<close>

definition sb_fixed :: "bytes \<Rightarrow> bytes" where
  "sb_fixed sb = put32 24 (of_nat HEXAFS_OBJECT_LBA) (put32 20 2 (put32 16 HEXAFS_ALLOC_LBA
     (put32 12 (of_nat HEXAFS_DISK_BLOCKS) (put32 8 1 (put_bytes 0 super_magic sb)))))"

definition sb_root_snap_block :: "bytes \<Rightarrow> u32" where "sb_root_snap_block sb = get32 28 sb"
definition sb_timestamp :: "bytes \<Rightarrow> u32" where "sb_timestamp sb = get32 36 sb"
definition sb_format_gen :: "bytes \<Rightarrow> u32" where "sb_format_gen sb = get32 40 sb"

definition hexafs_write_superblock :: "'a kdisk_scheme \<Rightarrow> bool \<times> 'a kdisk_scheme" where
  "hexafs_write_superblock s =
     (let sb = sb_fixed (zeros 512);
          sb = put32 28 (sb_root_snap_block (sb_cache s)) sb;
          sb = put32 36 (sb_timestamp (sb_cache s)) sb;
          sb = put32 40 (sb_format_gen (sb_cache s) + 1) sb;
          sb = put32 32 (sb_checksum sb) sb
      in hexafs_block_write HEXAFS_SUPER_LBA sb (s\<lparr>sb_cache := sb, sb_valid := True\<rparr>))"

definition hexafs_read_superblock :: "'a kdisk_scheme \<Rightarrow> bool \<times> 'a kdisk_scheme" where
  "hexafs_read_superblock s =
     (case hexafs_block_read HEXAFS_SUPER_LBA s of
        (None, s1) \<Rightarrow> (False, s1)
      | (Some sb, s1) \<Rightarrow>
          if get_bytes 0 8 sb \<noteq> super_magic then (False, s1)
          else if sb_checksum sb \<noteq> get32 32 sb
          then (False, log_write LOG_LEVEL_WARN (cs ''HEXAFS: superblock CRC mismatch'') s1)
          else (True, s1\<lparr>sb_cache := sb, sb_valid := True\<rparr>))"

definition empty_slot :: cache_slot where
  "empty_slot = \<lparr>c_lba = 0, c_dirty = False, c_data = zeros 512\<rparr>"

definition hexafs_format :: "'a kdisk_scheme \<Rightarrow> bool \<times> 'a kdisk_scheme" where
  "hexafs_format s =
     (let s1 = s\<lparr>sb_cache := sb_fixed (put32 28 0 (put32 40 1 (put32 36 0 (zeros 512)))),
                 block_cache := replicate HEXAFS_CACHE_SLOTS empty_slot\<rparr>;
          s2 = bitmap_init s1
      in case hexafs_write_superblock s2 of
           (False, s3) \<Rightarrow> (False, s3)
         | (True, s3) \<Rightarrow>
             (case hexafs_save_bitmap s3 of
                (False, s4) \<Rightarrow> (False, s4)
              | (True, s4) \<Rightarrow>
                  (True, log_write LOG_LEVEL_INFO (cs ''HEXAFS: formatted'') (s4\<lparr>hexafs_mounted := True\<rparr>))))"

definition hexafs_mount_disk :: "'a kdisk_scheme \<Rightarrow> bool \<times> 'a kdisk_scheme" where
  "hexafs_mount_disk s =
     (let s1 = s\<lparr>block_cache := replicate HEXAFS_CACHE_SLOTS empty_slot\<rparr>
      in case hexafs_read_superblock s1 of
           (False, s2) \<Rightarrow> (False, log_write LOG_LEVEL_WARN (cs ''HEXAFS: no superblock, need format'') s2)
         | (True, s2) \<Rightarrow>
             (case bitmap_load s2 of
                (False, s3) \<Rightarrow> (False, log_write LOG_LEVEL_WARN (cs ''HEXAFS: bitmap load failed'') s3)
              | (True, s3) \<Rightarrow>
                  (True, log_write LOG_LEVEL_INFO (cs ''HEXAFS: mounted'') (s3\<lparr>hexafs_mounted := True\<rparr>))))"

definition hexafs_cache_flush_all :: "'a kdisk_scheme \<Rightarrow> bool \<times> 'a kdisk_scheme" where
  "hexafs_cache_flush_all s =
     (let s1 = cache_flush_dirty s
      in if alloc_bitmap_dirty s1 then hexafs_save_bitmap s1 else (True, s1))"

definition hexafs_get_timestamp :: "'a kdisk_scheme \<Rightarrow> u32 \<times> 'a kdisk_scheme" where
  "hexafs_get_timestamp s = (let t = snap_timestamp s + 1 in (t, s\<lparr>snap_timestamp := t\<rparr>))"

definition bss_tx :: hexafs_tx where
  "bss_tx = \<lparr>tx_active = False, tx_tid = 0, tx_parent_snap_block = 0, tx_new_root_block = 0,
     tx_snap_block = 0, tx_journal_block = 0, tx_dirty = False\<rparr>"

text \<open>A blank drive that is always ready, for examples.\<close>

definition bss_kdisk :: kdisk where
  "bss_kdisk = kpipe.extend bss_kpipe \<lparr>ata_drv = 0xE0, disk_ok = False, drive = \<lambda>_ _. zeros 512,
     ata_status = \<lambda>_. 0x58, ata_reads = 0, block_cache = replicate HEXAFS_CACHE_SLOTS empty_slot,
     alloc_bitmap = zeros 1024, alloc_bitmap_dirty = False, next_alloc_hint = HEXAFS_OBJECT_LBA,
     hexafs_mounted = False, sb_cache = zeros 512, sb_valid = False, hexafs_current_tx = bss_tx,
     snap_timestamp = 0\<rparr>"

lemma log_write_kdisk [simp]:
  "ata_drv (log_write l m s) = ata_drv s" "disk_ok (log_write l m s) = disk_ok s"
  "drive (log_write l m s) = drive s" "ata_status (log_write l m s) = ata_status s"
  "ata_reads (log_write l m s) = ata_reads s" "block_cache (log_write l m s) = block_cache s"
  "alloc_bitmap (log_write l m s) = alloc_bitmap s" "alloc_bitmap_dirty (log_write l m s) = alloc_bitmap_dirty s"
  "next_alloc_hint (log_write l m s) = next_alloc_hint s" "hexafs_mounted (log_write l m s) = hexafs_mounted s"
  "sb_cache (log_write l m s) = sb_cache s" "sb_valid (log_write l m s) = sb_valid s"
  "hexafs_current_tx (log_write l m s) = hexafs_current_tx s" "snap_timestamp (log_write l m s) = snap_timestamp s"
  by (subst log_write_frame, simp)+


section \<open>A responsive drive\<close>

text \<open>
  The drive answers in time: from any point on, within the time-out of \<^verbatim>\<open>ata_poll\<close>, some status read
  shows the drive not busy and requesting data, with no error reported before.
\<close>

definition ready_status :: "u8 \<Rightarrow> bool" where
  "ready_status st \<longleftrightarrow> st AND 0x80 = 0 \<and> st AND 0x08 \<noteq> 0"

definition drive_ok :: "'a kdisk_scheme \<Rightarrow> bool" where
  "drive_ok s \<longleftrightarrow> (\<forall>k \<ge> ata_reads s. \<exists>j. k \<le> j \<and> j < k + 50000 \<and> ready_status (ata_status s j) \<and>
     (\<forall>i. k \<le> i \<and> i < j \<longrightarrow> ata_status s i AND 0x01 = 0))"

lemma drive_ok_cong:
  "ata_status s' = ata_status s \<Longrightarrow> ata_reads s \<le> ata_reads s' \<Longrightarrow> drive_ok s \<Longrightarrow> drive_ok s'"
  unfolding drive_ok_def by (metis le_trans)

lemma ata_poll_loop_frame: "\<exists>n \<ge> ata_reads s. snd (ata_poll_loop t s) = s\<lparr>ata_reads := n\<rparr>"
proof (induction t arbitrary: s)
  case 0
  show ?case by (rule exI [of _ "ata_reads s"]) simp
next
  case (Suc t)
  obtain n where "ata_reads s + 1 \<le> n" "snd (ata_poll_loop t (s\<lparr>ata_reads := ata_reads s + 1\<rparr>)) = s\<lparr>ata_reads := n\<rparr>"
    using Suc [of "s\<lparr>ata_reads := ata_reads s + 1\<rparr>"] by auto
  then show ?case
    by (intro exI [of _ "if ata_status s (ata_reads s) AND 0x80 = 0 then Suc (ata_reads s) else n"])
      (simp add: inb_status_def)
qed

lemma ata_drq_loop_frame: "\<exists>n \<ge> ata_reads s. snd (ata_drq_loop t s) = s\<lparr>ata_reads := n\<rparr>"
proof (induction t arbitrary: s)
  case 0
  show ?case by (rule exI [of _ "ata_reads s"]) simp
next
  case (Suc t)
  obtain n where "ata_reads s + 1 \<le> n" "snd (ata_drq_loop t (s\<lparr>ata_reads := ata_reads s + 1\<rparr>)) = s\<lparr>ata_reads := n\<rparr>"
    using Suc [of "s\<lparr>ata_reads := ata_reads s + 1\<rparr>"] by auto
  then show ?case
    by (intro exI [of _ "if ata_status s (ata_reads s) AND 0x08 \<noteq> 0 \<or> ata_status s (ata_reads s) AND 0x01 \<noteq> 0
        then Suc (ata_reads s) else n"]) (simp add: inb_status_def)
qed

lemma ata_poll_loop_ok:
  "(\<exists>j < t. ata_status s (ata_reads s + j) AND 0x80 = 0) \<Longrightarrow> fst (ata_poll_loop t s)"
proof (induction t arbitrary: s)
  case (Suc t)
  show ?case
  proof (cases "ata_status s (ata_reads s) AND 0x80 = 0")
    case False
    obtain j where j: "j < Suc t" "ata_status s (ata_reads s + j) AND 0x80 = 0" using Suc.prems by blast
    with False obtain k where "j = Suc k" by (cases j) auto
    with j have "\<exists>j < t. ata_status s (Suc (ata_reads s) + j) AND 0x80 = 0" by auto
    with Suc.IH [of "s\<lparr>ata_reads := ata_reads s + 1\<rparr>"] False show ?thesis by (simp add: inb_status_def)
  qed (simp add: inb_status_def)
qed simp

lemma ata_drq_loop_ok:
  "(\<exists>j < t. ata_status s (ata_reads s + j) AND 0x08 \<noteq> 0 \<and>
     (\<forall>i < j. ata_status s (ata_reads s + i) AND 0x01 = 0)) \<Longrightarrow> fst (ata_drq_loop t s)"
proof (induction t arbitrary: s)
  case (Suc t)
  show ?case
  proof (cases "ata_status s (ata_reads s) AND 0x08 \<noteq> 0")
    case False
    obtain j where j: "j < Suc t" "ata_status s (ata_reads s + j) AND 0x08 \<noteq> 0"
      "\<forall>i < j. ata_status s (ata_reads s + i) AND 0x01 = 0" using Suc.prems by blast
    with False obtain k where k: "j = Suc k" by (cases j) auto
    have e: "ata_status s (ata_reads s) AND 0x01 = 0" using j(3) k by (metis add_0_right zero_less_Suc)
    have "\<forall>i < k. ata_status s (Suc (ata_reads s) + i) AND 0x01 = 0" using j(3) k by (metis Suc_mono add_Suc add_Suc_right)
    with j k have "\<exists>j < t. ata_status s (Suc (ata_reads s) + j) AND 0x08 \<noteq> 0 \<and>
      (\<forall>i < j. ata_status s (Suc (ata_reads s) + i) AND 0x01 = 0)" by auto
    with Suc.IH [of "s\<lparr>ata_reads := ata_reads s + 1\<rparr>"] False e show ?thesis by (simp add: inb_status_def)
  qed (simp add: inb_status_def)
qed simp

lemma ata_poll_ok:
  assumes "drive_ok s"
  obtains n where "ata_reads s \<le> n" and "ata_poll s = (True, s\<lparr>ata_reads := n\<rparr>)"
proof -
  obtain j where "ata_reads s \<le> j" "j < ata_reads s + 50000" "ready_status (ata_status s j)"
    using assms unfolding drive_ok_def by blast
  then have "\<exists>i < 50000. ata_status s (ata_reads s + i) AND 0x80 = 0"
    by (intro exI [of _ "j - ata_reads s"]) (auto simp: ready_status_def)
  then have "fst (ata_poll s)" unfolding ata_poll_def by (rule ata_poll_loop_ok)
  with ata_poll_loop_frame [of s 50000] that show thesis
    by (cases "ata_poll s") (auto simp: ata_poll_def)
qed

lemma ata_drq_ok:
  assumes "drive_ok s"
  obtains n where "ata_reads s \<le> n" and "ata_drq_loop 200000 s = (True, s\<lparr>ata_reads := n\<rparr>)"
proof -
  obtain j where j: "ata_reads s \<le> j" "j < ata_reads s + 50000" "ready_status (ata_status s j)"
    "\<forall>i. ata_reads s \<le> i \<and> i < j \<longrightarrow> ata_status s i AND 0x01 = 0"
    using assms unfolding drive_ok_def by blast
  then have "\<exists>i < 200000. ata_status s (ata_reads s + i) AND 0x08 \<noteq> 0 \<and>
      (\<forall>k < i. ata_status s (ata_reads s + k) AND 0x01 = 0)"
    by (intro exI [of _ "j - ata_reads s"]) (auto simp: ready_status_def)
  then have "fst (ata_drq_loop 200000 s)" by (rule ata_drq_loop_ok)
  with ata_drq_loop_frame [of s 200000] that show thesis
    by (cases "ata_drq_loop 200000 s") auto
qed

text \<open>The contents of a sector as the driver addresses it.\<close>

definition sector :: "'a kdisk_scheme \<Rightarrow> u32 \<Rightarrow> bytes" where
  "sector s lba = drive s (drive_select lba s) (sector_no lba)"

lemma ata_read_ok:
  assumes "drive_ok s"
  obtains n where "ata_reads s \<le> n" and "ata_read_sector lba s = (Some (sector s lba), s\<lparr>ata_reads := n\<rparr>)"
proof -
  obtain n1 where n1: "ata_reads s \<le> n1" "ata_poll s = (True, s\<lparr>ata_reads := n1\<rparr>)"
    using ata_poll_ok [OF assms] .
  have ok1: "drive_ok (s\<lparr>ata_reads := n1\<rparr>)" by (rule drive_ok_cong [OF _ _ assms]) (use n1 in auto)
  obtain n2 where "ata_reads (s\<lparr>ata_reads := n1\<rparr>) \<le> n2"
    "ata_drq_loop 200000 (s\<lparr>ata_reads := n1\<rparr>) = (True, s\<lparr>ata_reads := n1\<rparr>\<lparr>ata_reads := n2\<rparr>)"
    by (rule ata_drq_ok [OF ok1])
  then have n2: "n1 \<le> n2" "ata_drq_loop 200000 (s\<lparr>ata_reads := n1\<rparr>) = (True, s\<lparr>ata_reads := n2\<rparr>)" by simp_all
  have "ata_read_sector lba s = (Some (sector s lba), s\<lparr>ata_reads := n2\<rparr>)"
    using n1 n2 by (simp add: ata_read_sector_def sector_def drive_select_def)
  then show thesis by (rule that [rotated]) (use n1 n2 in simp)
qed

lemma ata_write_ok:
  assumes "drive_ok s"
  obtains n where "ata_reads s \<le> n" and "ata_write_sector lba buf s = (True, s\<lparr>ata_reads := n,
      drive := (drive s)(drive_select lba s := (drive s (drive_select lba s))(sector_no lba := buf))\<rparr>)"
proof -
  obtain n1 where n1: "ata_reads s \<le> n1" "ata_poll s = (True, s\<lparr>ata_reads := n1\<rparr>)"
    using ata_poll_ok [OF assms] .
  have ok1: "drive_ok (s\<lparr>ata_reads := n1\<rparr>)" by (rule drive_ok_cong [OF _ _ assms]) (use n1 in auto)
  obtain n2 where "ata_reads (s\<lparr>ata_reads := n1\<rparr>) \<le> n2"
    "ata_drq_loop 200000 (s\<lparr>ata_reads := n1\<rparr>) = (True, s\<lparr>ata_reads := n1\<rparr>\<lparr>ata_reads := n2\<rparr>)"
    by (rule ata_drq_ok [OF ok1])
  then have n2: "n1 \<le> n2" "ata_drq_loop 200000 (s\<lparr>ata_reads := n1\<rparr>) = (True, s\<lparr>ata_reads := n2\<rparr>)" by simp_all
  let ?d = "(drive s)(drive_select lba s := (drive s (drive_select lba s))(sector_no lba := buf))"
  have ok2: "drive_ok (s\<lparr>ata_reads := n2, drive := ?d\<rparr>)"
    by (rule drive_ok_cong [OF _ _ assms]) (use n1 n2 in auto)
  obtain n3 where "ata_reads (s\<lparr>ata_reads := n2, drive := ?d\<rparr>) \<le> n3"
    "ata_poll (s\<lparr>ata_reads := n2, drive := ?d\<rparr>) = (True, s\<lparr>ata_reads := n2, drive := ?d\<rparr>\<lparr>ata_reads := n3\<rparr>)"
    by (rule ata_poll_ok [OF ok2])
  then have n3: "n2 \<le> n3" "ata_poll (s\<lparr>ata_reads := n2, drive := ?d\<rparr>) = (True, s\<lparr>ata_reads := n3, drive := ?d\<rparr>)"
    by simp_all
  have "ata_write_sector lba buf s = (True, s\<lparr>ata_reads := n3, drive := ?d\<rparr>)"
    using n1 n2 n3 by (simp add: ata_write_sector_def drive_select_def)
  then show thesis by (rule that [rotated]) (use n1 n2 n3 in simp)
qed


section \<open>Coherence of the cache\<close>

definition valid_lba :: "u32 \<Rightarrow> bool" where
  "valid_lba lba \<longleftrightarrow> 0 < unat lba \<and> unat lba < HEXAFS_DISK_BLOCKS"

definition good_block :: "bytes \<Rightarrow> bool" where
  "good_block b \<longleftrightarrow> length b = HEXAFS_BLOCK_SIZE"

text \<open>The current contents of a block.\<close>

definition blk :: "'a kdisk_scheme \<Rightarrow> u32 \<Rightarrow> bytes" where
  "blk s lba = drive s (ata_drv s) lba"

definition cache_ok :: "'a kdisk_scheme \<Rightarrow> bool" where
  "cache_ok s \<longleftrightarrow> length (block_cache s) = HEXAFS_CACHE_SLOTS \<and>
     (\<forall>i < HEXAFS_CACHE_SLOTS. c_lba (block_cache s ! i) \<noteq> 0 \<longrightarrow>
        c_data (block_cache s ! i) = blk s (c_lba (block_cache s ! i))) \<and>
     (\<forall>i < HEXAFS_CACHE_SLOTS. \<forall>j < HEXAFS_CACHE_SLOTS. c_lba (block_cache s ! i) \<noteq> 0 \<longrightarrow>
        c_lba (block_cache s ! i) = c_lba (block_cache s ! j) \<longrightarrow> i = j)"

definition disk_inv :: "'a kdisk_scheme \<Rightarrow> bool" where
  "disk_inv s \<longleftrightarrow> drive_ok s \<and> cache_ok s \<and> (\<forall>lba. length (blk s lba) = HEXAFS_BLOCK_SIZE)"

lemma valid_lba_select:
  assumes "valid_lba lba"
  shows "drive_select lba s = ata_drv s" and "sector_no lba = lba"
proof -
  have lt: "unat lba < 2 ^ 24" using assms by (simp add: valid_lba_def)
  then have "unat (drop_bit 24 lba) = 0" by (simp only: unat_drop_bit_eq drop_bit_nat_def) simp
  then have "drop_bit 24 lba = 0" by (simp only: unat_eq_zero)
  then show "drive_select lba s = ata_drv s" by (simp add: drive_select_def)
  have "take_bit 24 (unat lba) = unat lba" using lt by (rule take_bit_nat_eq_self)
  then have "take_bit 24 lba = lba" by (metis unsigned_take_bit_eq word_eq_iff_unsigned)
  then show "sector_no lba = lba" by (simp add: sector_no_def take_bit_eq_mask mask_eq_exp_minus_1)
qed

lemma sector_valid: "valid_lba lba \<Longrightarrow> sector s lba = blk s lba"
  by (simp add: sector_def blk_def valid_lba_select)

lemma find_upt_Some:
  assumes "find P [0..<n] = Some i"
  shows "i < n" and "P i"
  using find_SomeD [OF assms] by auto

lemma cache_evict_less: "cache_evict s < HEXAFS_CACHE_SLOTS"
  by (auto simp: cache_evict_def dest: find_upt_Some split: option.split)

text \<open>Putting the contents of a block into one slot keeps the cache coherent.\<close>

lemma cache_ok_put:
  assumes "length (block_cache s) = HEXAFS_CACHE_SLOTS" and "i < HEXAFS_CACHE_SLOTS"
    and "c_data slot = blk s' (c_lba slot)"
    and "block_cache s' = (block_cache s)[i := slot]"
    and "\<And>j. j < HEXAFS_CACHE_SLOTS \<Longrightarrow> j \<noteq> i \<Longrightarrow> c_lba (block_cache s ! j) \<noteq> c_lba slot"
    and "\<And>j. j < HEXAFS_CACHE_SLOTS \<Longrightarrow> j \<noteq> i \<Longrightarrow> c_lba (block_cache s ! j) \<noteq> 0 \<Longrightarrow>
           c_data (block_cache s ! j) = blk s' (c_lba (block_cache s ! j))"
    and "cache_ok s"
  shows "cache_ok s'"
proof -
  have nth: "block_cache s' ! j = (if j = i then slot else block_cache s ! j)" if "j < HEXAFS_CACHE_SLOTS" for j
    using assms(1,2,4) that by simp
  have "c_data (block_cache s' ! j) = blk s' (c_lba (block_cache s' ! j))"
    if "j < HEXAFS_CACHE_SLOTS" "c_lba (block_cache s' ! j) \<noteq> 0" for j
    using nth [OF that(1)] that assms(3,6) by (cases "j = i") auto
  moreover have "j = k" if jk: "j < HEXAFS_CACHE_SLOTS" "k < HEXAFS_CACHE_SLOTS" and nz: "c_lba (block_cache s' ! j) \<noteq> 0"
    and eq: "c_lba (block_cache s' ! j) = c_lba (block_cache s' ! k)" for j k
  proof (cases "j = i")
    case True
    then have "k = i" using assms(5) [OF jk(2)] eq nth [OF jk(1)] nth [OF jk(2)] by (cases "k = i") auto
    with True show ?thesis by simp
  next
    case False
    then have "k \<noteq> i" using assms(5) [OF jk(1) False] eq nth [OF jk(1)] nth [OF jk(2)] by auto
    then have "c_lba (block_cache s ! j) \<noteq> 0" "c_lba (block_cache s ! j) = c_lba (block_cache s ! k)"
      using False nz eq nth [OF jk(1)] nth [OF jk(2)] by simp_all
    with assms(7) jk show ?thesis unfolding cache_ok_def by blast
  qed
  ultimately show ?thesis using assms(1,4) unfolding cache_ok_def by simp
qed

lemma cache_find_None: "cache_find lba s = None \<Longrightarrow> j < HEXAFS_CACHE_SLOTS \<Longrightarrow> c_lba (block_cache s ! j) \<noteq> lba"
  by (auto simp: cache_find_def find_None_iff)

lemma block_read_ok:
  assumes "disk_inv s" and "valid_lba lba"
  obtains s' where "hexafs_block_read lba s = (Some (blk s lba), s')" and "disk_inv s'" and "blk s' = blk s"
proof (cases "cache_find lba s")
  case (Some i)
  have i: "i < HEXAFS_CACHE_SLOTS" "c_lba (block_cache s ! i) = lba"
    using find_upt_Some [OF Some [unfolded cache_find_def]] by auto
  have "lba \<noteq> 0" using assms(2) by (auto simp: valid_lba_def)
  then have "c_data (block_cache s ! i) = blk s lba"
    using assms(1) i by (auto simp: disk_inv_def cache_ok_def)
  with Some assms(1) that show thesis by (simp add: hexafs_block_read_def cache_read_def)
next
  case None
  have ok: "drive_ok s" and c: "cache_ok s" and l: "length (block_cache s) = HEXAFS_CACHE_SLOTS"
    using assms(1) by (auto simp: disk_inv_def cache_ok_def)
  obtain n where n: "ata_reads s \<le> n" "ata_read_sector lba s = (Some (sector s lba), s\<lparr>ata_reads := n\<rparr>)"
    using ata_read_ok [OF ok] .
  let ?slot = "\<lparr>c_lba = lba, c_dirty = False, c_data = blk s lba\<rparr>"
  define s' where "s' = upd_slot (cache_evict (s\<lparr>ata_reads := n\<rparr>)) (\<lambda>_. ?slot) (s\<lparr>ata_reads := n\<rparr>)"
  have rd: "hexafs_block_read lba s = (Some (blk s lba), s')"
    using None n by (simp add: hexafs_block_read_def cache_read_def s'_def sector_valid [OF assms(2)])
  have b: "blk s' = blk s" by (simp add: s'_def upd_slot_def blk_def fun_eq_iff)
  have "cache_ok s'"
  proof (rule cache_ok_put [OF l cache_evict_less, of ?slot s'])
    show "block_cache s' = (block_cache s)[cache_evict (s\<lparr>ata_reads := n\<rparr>) := ?slot]"
      by (simp add: s'_def upd_slot_def)
  qed (use c cache_find_None [OF None] in \<open>auto simp: b cache_ok_def\<close>)
  moreover have "drive_ok s'" by (rule drive_ok_cong [OF _ _ ok]) (use n in \<open>auto simp: s'_def upd_slot_def\<close>)
  ultimately have "disk_inv s'" using assms(1) b by (simp add: disk_inv_def)
  with rd b that show thesis by blast
qed


lemma block_write_ok:
  assumes "disk_inv s" and "valid_lba lba" and "good_block buf"
  obtains s' where "hexafs_block_write lba buf s = (True, s')" and "disk_inv s'" and "blk s' = (blk s)(lba := buf)"
proof -
  define i where "i = (case cache_find lba s of Some i \<Rightarrow> i | None \<Rightarrow> cache_evict s)"
  let ?slot = "\<lparr>c_lba = lba, c_dirty = True, c_data = buf\<rparr>"
  define s1 where "s1 = upd_slot i (\<lambda>_. ?slot) s"
  have ok: "drive_ok s" and c: "cache_ok s" and l: "length (block_cache s) = HEXAFS_CACHE_SLOTS"
    and nz: "lba \<noteq> 0"
    using assms(1,2) by (auto simp: disk_inv_def cache_ok_def valid_lba_def)
  have i: "i < HEXAFS_CACHE_SLOTS"
    by (auto simp: i_def cache_evict_less cache_find_def dest: find_upt_Some split: option.split)
  have other: "c_lba (block_cache s ! j) \<noteq> lba" if "j < HEXAFS_CACHE_SLOTS" "j \<noteq> i" for j
  proof (cases "cache_find lba s")
    case None
    with cache_find_None [OF None that(1)] show ?thesis by simp
  next
    case (Some k)
    have "k < HEXAFS_CACHE_SLOTS" "c_lba (block_cache s ! k) = lba" "k = i"
      using find_upt_Some [OF Some [unfolded cache_find_def]] Some by (auto simp: i_def)
    with c that nz show ?thesis by (auto simp: cache_ok_def)
  qed
  have ok1: "drive_ok s1" by (rule drive_ok_cong [OF _ _ ok]) (auto simp: s1_def upd_slot_def)
  obtain n where n: "ata_reads s1 \<le> n" "ata_write_sector lba buf s1 = (True, s1\<lparr>ata_reads := n,
      drive := (drive s1)(drive_select lba s1 := (drive s1 (drive_select lba s1))(sector_no lba := buf))\<rparr>)"
    (is "_ = (True, ?s')")
    using ata_write_ok [OF ok1] .
  have w: "hexafs_block_write lba buf s = (True, ?s')"
    using n(2) by (simp add: hexafs_block_write_def cache_write_def i_def s1_def)
  have b: "blk ?s' = (blk s)(lba := buf)"
    using valid_lba_select(1) [OF assms(2), of s1] valid_lba_select(2) [OF assms(2)]
    by (auto simp: blk_def s1_def upd_slot_def fun_eq_iff)
  have "cache_ok ?s'"
  proof (rule cache_ok_put [OF l i, of ?slot ?s'])
    show "block_cache ?s' = (block_cache s)[i := ?slot]" by (simp add: s1_def upd_slot_def)
  qed (use c other in \<open>auto simp: b cache_ok_def\<close>)
  moreover have "drive_ok ?s'" by (rule drive_ok_cong [OF _ _ ok1]) (use n(1) in auto)
  ultimately have "disk_inv ?s'" using assms(1,3) b by (simp add: disk_inv_def good_block_def)
  from that [OF w this b] show thesis .
qed

interpretation store: block_store disk_inv valid_lba good_block blk hexafs_block_read hexafs_block_write
proof unfold_locales
  fix s :: "'a kdisk_scheme" and a d
  assume inv: "disk_inv s" and v: "valid_lba a"
  show "\<exists>s'. hexafs_block_read a s = (Some (blk s a), s') \<and> disk_inv s' \<and> blk s' = blk s"
    using block_read_ok [OF inv v] by metis
  assume "good_block d"
  then show "\<exists>s'. hexafs_block_write a d s = (True, s') \<and> disk_inv s' \<and> blk s' = (blk s)(a := d)"
    using block_write_ok [OF inv v] by metis
qed

subsection \<open>What the block layer leaves alone\<close>

lemma ata_read_frame: "\<exists>n \<ge> ata_reads s. snd (ata_read_sector lba s) = s\<lparr>ata_reads := n\<rparr>"
proof -
  obtain n where n: "ata_reads s \<le> n" "snd (ata_poll s) = s\<lparr>ata_reads := n\<rparr>"
    using ata_poll_loop_frame [of s 50000] by (auto simp: ata_poll_def)
  obtain m where m: "n \<le> m" "snd (ata_drq_loop 200000 (s\<lparr>ata_reads := n\<rparr>)) = s\<lparr>ata_reads := m\<rparr>"
    using ata_drq_loop_frame [of "s\<lparr>ata_reads := n\<rparr>" 200000] by auto
  show ?thesis
    using n m by (intro exI [of _ "if fst (ata_poll s) then m else n"])
      (simp add: ata_read_sector_def case_prod_beta)
qed

text \<open>A block operation changes the drive, the position in the status stream and the cache only.\<close>

definition io_frame :: "'a kdisk_scheme \<Rightarrow> 'a kdisk_scheme \<Rightarrow> bool" where
  "io_frame s s' \<longleftrightarrow> (\<exists>n d c. s' = s\<lparr>ata_reads := n, drive := d, block_cache := c\<rparr>)"

lemma io_frame_refl [simp]: "io_frame s s"
  unfolding io_frame_def
  by (intro exI [of _ "ata_reads s"] exI [of _ "drive s"] exI [of _ "block_cache s"]) simp

lemma io_frame_trans:
  assumes "io_frame s s1" and "io_frame s1 s2"
  shows "io_frame s s2"
proof -
  obtain n d c n' d' c' where "s1 = s\<lparr>ata_reads := n, drive := d, block_cache := c\<rparr>"
    "s2 = s1\<lparr>ata_reads := n', drive := d', block_cache := c'\<rparr>"
    using assms unfolding io_frame_def by blast
  then have "s2 = s\<lparr>ata_reads := n', drive := d', block_cache := c'\<rparr>" by simp
  then show ?thesis unfolding io_frame_def by blast
qed

lemma io_frame_reads: "io_frame s (s\<lparr>ata_reads := n\<rparr>)"
  unfolding io_frame_def by (intro exI [of _ n] exI [of _ "drive s"] exI [of _ "block_cache s"]) simp

lemma io_frame_drive: "io_frame s (s\<lparr>drive := d\<rparr>)"
  unfolding io_frame_def by (intro exI [of _ "ata_reads s"] exI [of _ d] exI [of _ "block_cache s"]) simp

lemma io_frame_slot: "io_frame s (upd_slot i f s)"
  unfolding io_frame_def upd_slot_def
  by (intro exI [of _ "ata_reads s"] exI [of _ "drive s"] exI [of _ "(block_cache s)[i := f (block_cache s ! i)]"]) simp

lemma io_frame_poll: "io_frame s (snd (ata_poll s))"
  using ata_poll_loop_frame [of s 50000] io_frame_reads [of s] by (auto simp: ata_poll_def)

lemma io_frame_drq: "io_frame s (snd (ata_drq_loop t s))"
  using ata_drq_loop_frame [of s t] io_frame_reads [of s] by auto

lemma block_read_frame: "io_frame s (snd (hexafs_block_read lba s))"
proof (cases "cache_find lba s")
  case None
  obtain n where n: "snd (ata_read_sector lba s) = s\<lparr>ata_reads := n\<rparr>" using ata_read_frame by blast
  then have "io_frame s (snd (ata_read_sector lba s))" using io_frame_reads by metis
  with None show ?thesis
    by (auto simp: hexafs_block_read_def cache_read_def case_prod_beta split: option.split prod.split
        intro: io_frame_trans [OF _ io_frame_slot])
qed (simp add: hexafs_block_read_def cache_read_def)

lemma ata_write_frame: "io_frame s (snd (ata_write_sector lba buf s))"
proof -
  let ?s1 = "snd (ata_poll s)" and ?s2 = "snd (ata_drq_loop 200000 (snd (ata_poll s)))"
  have 1: "io_frame s ?s1" by (rule io_frame_poll)
  then have 2: "io_frame s ?s2" by (rule io_frame_trans [OF _ io_frame_drq])
  have "io_frame s (snd (ata_poll (?s2\<lparr>drive := d\<rparr>)))" for d
    by (rule io_frame_trans [OF io_frame_trans [OF 2 io_frame_drive] io_frame_poll])
  with 1 2 show ?thesis by (simp add: ata_write_sector_def case_prod_beta)
qed

lemma block_write_frame: "io_frame s (snd (hexafs_block_write lba buf s))"
  unfolding hexafs_block_write_def cache_write_def Let_def
  by (rule io_frame_trans [OF io_frame_slot ata_write_frame])


lemma io_frame_fields:
  assumes "io_frame s s'"
  shows "alloc_bitmap s' = alloc_bitmap s" "alloc_bitmap_dirty s' = alloc_bitmap_dirty s"
    "next_alloc_hint s' = next_alloc_hint s" "hexafs_mounted s' = hexafs_mounted s" "sb_cache s' = sb_cache s"
    "sb_valid s' = sb_valid s" "hexafs_current_tx s' = hexafs_current_tx s" "ata_drv s' = ata_drv s"
    "ata_status s' = ata_status s" "snap_timestamp s' = snap_timestamp s"
  using assms by (auto simp: io_frame_def)

lemmas block_read_fields [simp] = io_frame_fields [OF block_read_frame]
lemmas block_write_fields [simp] = io_frame_fields [OF block_write_frame]

section \<open>The block allocator\<close>

definition alloc_inv :: "'a kdisk_scheme \<Rightarrow> bool" where
  "alloc_inv s \<longleftrightarrow> length (alloc_bitmap s) = 1024 \<and> HEXAFS_OBJECT_LBA \<le> next_alloc_hint s \<and>
     next_alloc_hint s \<le> HEXAFS_DISK_BLOCKS"

definition disk_used :: "'a kdisk_scheme \<Rightarrow> nat set" where
  "disk_used s = bm_used (alloc_bitmap s) HEXAFS_DISK_BLOCKS"

text \<open>The allocator with its result as a block number; 0 is the failure value.\<close>

definition disk_alloc :: "'a kdisk_scheme \<Rightarrow> nat option \<times> 'a kdisk_scheme" where
  "disk_alloc s = (case hexafs_alloc_block s of (b, s') \<Rightarrow> (if b = 0 then None else Some (unat b), s'))"

lemma unat_block: "i < HEXAFS_DISK_BLOCKS \<Longrightarrow> unat (of_nat i :: u32) = i"
  by (rule word_of_nat_less_eq) simp

lemma alloc_block_cases:
  assumes "alloc_inv s"
  obtains (none) "hexafs_alloc_block s = (0, log_write LOG_LEVEL_WARN (cs ''HEXAFS: out of disk blocks'') s)"
      and "{HEXAFS_OBJECT_LBA..<HEXAFS_DISK_BLOCKS} \<subseteq> disk_used s"
  | (some) i where "HEXAFS_OBJECT_LBA \<le> i" and "i < HEXAFS_DISK_BLOCKS" and "i \<notin> disk_used s"
      and "hexafs_alloc_block s = (of_nat i,
        (snd (hexafs_block_write (of_nat i) (zeros 512) (bitmap_set i s)))\<lparr>next_alloc_hint := i + 1\<rparr>)"
proof (cases "next_fit (alloc_bitmap s) HEXAFS_OBJECT_LBA (next_alloc_hint s) HEXAFS_DISK_BLOCKS")
  case None
  then have "{HEXAFS_OBJECT_LBA..<HEXAFS_DISK_BLOCKS} \<subseteq> disk_used s"
    using next_fit_NoneD [OF None] by (auto simp: disk_used_def bm_used_def)
  with None none show ?thesis by (simp add: hexafs_alloc_block_def)
next
  case (Some i)
  with next_fit_SomeD [OF Some] assms have "HEXAFS_OBJECT_LBA \<le> i" "i < HEXAFS_DISK_BLOCKS" "i \<notin> disk_used s"
    by (auto simp: alloc_inv_def disk_used_def bm_used_def)
  with Some some show ?thesis by (simp add: hexafs_alloc_block_def Let_def case_prod_beta)
qed

lemma bitmap_set_fields:
  "i < HEXAFS_DISK_BLOCKS \<Longrightarrow> alloc_bitmap (bitmap_set i s) = bm_set i (alloc_bitmap s)"
  "i < HEXAFS_DISK_BLOCKS \<Longrightarrow> alloc_bitmap_dirty (bitmap_set i s)"
  by (auto simp: bitmap_set_def)

interpretation dalloc: block_allocator alloc_inv "\<lambda>_. {HEXAFS_OBJECT_LBA..<HEXAFS_DISK_BLOCKS}" disk_used disk_alloc
  "\<lambda>b. hexafs_free_block (of_nat b)"
proof unfold_locales
  fix s s' :: "'a kdisk_scheme" and b
  assume inv: "alloc_inv s"
  { assume a: "disk_alloc s = (Some b, s')"
    from inv show "alloc_inv s' \<and> {HEXAFS_OBJECT_LBA..<HEXAFS_DISK_BLOCKS} = {HEXAFS_OBJECT_LBA..<HEXAFS_DISK_BLOCKS} \<and>
      b \<in> {HEXAFS_OBJECT_LBA..<HEXAFS_DISK_BLOCKS} \<and> b \<notin> disk_used s \<and> disk_used s' = insert b (disk_used s)"
    proof (cases rule: alloc_block_cases)
      case none
      with a show ?thesis by (simp add: disk_alloc_def)
    next
      case (some i)
      have u: "unat (of_nat i :: u32) = i" using some(2) by (rule unat_block)
      then have "(of_nat i :: u32) \<noteq> 0" using some(1) by auto
      with a some(4) u have b: "b = i"
        and s': "s' = (snd (hexafs_block_write (of_nat i) (zeros 512) (bitmap_set i s)))\<lparr>next_alloc_hint := i + 1\<rparr>"
        by (auto simp: disk_alloc_def)
      have "alloc_bitmap s' = bm_set i (alloc_bitmap s)" using some(2) by (simp add: s' bitmap_set_fields)
      moreover have "next_alloc_hint s' = i + 1" by (simp add: s')
      ultimately show ?thesis
        using inv some(1-3) b by (simp add: alloc_inv_def disk_used_def bm_used_set)
    qed }
  { assume a: "disk_alloc s = (None, s')"
    from inv show "alloc_inv s' \<and> {HEXAFS_OBJECT_LBA..<HEXAFS_DISK_BLOCKS} = {HEXAFS_OBJECT_LBA..<HEXAFS_DISK_BLOCKS} \<and>
      disk_used s' = disk_used s \<and> {HEXAFS_OBJECT_LBA..<HEXAFS_DISK_BLOCKS} \<subseteq> disk_used s"
    proof (cases rule: alloc_block_cases)
      case none
      with a inv show ?thesis by (auto simp: disk_alloc_def alloc_inv_def disk_used_def)
    next
      case (some i)
      then have "(of_nat i :: u32) \<noteq> 0" using unat_block [of i] by auto
      with a some(4) show ?thesis by (simp add: disk_alloc_def)
    qed }
  { assume b: "b \<in> {HEXAFS_OBJECT_LBA..<HEXAFS_DISK_BLOCKS}"
    then have u: "unat (of_nat b :: u32) = b" by (intro unat_block) simp
    have "b div 8 < 1024" using b by (simp add: div_less_iff_less_mult)
    with inv b u show "alloc_inv (hexafs_free_block (of_nat b) s) \<and>
      {HEXAFS_OBJECT_LBA..<HEXAFS_DISK_BLOCKS} = {HEXAFS_OBJECT_LBA..<HEXAFS_DISK_BLOCKS} \<and>
      disk_used (hexafs_free_block (of_nat b) s) = disk_used s - {b}"
      by (auto simp: hexafs_free_block_def bitmap_clear_def alloc_inv_def disk_used_def bm_used_clear Let_def) }
qed simp

section \<open>Superblock and bitmap on disk\<close>

lemma length_hash_fields:
  "length (sb_fixed (zeros 512)) = 512"
  by (simp add: sb_fixed_def super_magic_def cs_def bytes_simps)

definition superblock_of :: "bytes \<Rightarrow> bytes" where
  "superblock_of c =
     (let sb = put32 40 (sb_format_gen c + 1) (put32 36 (sb_timestamp c)
         (put32 28 (sb_root_snap_block c) (sb_fixed (zeros 512))))
      in put32 32 (sb_checksum sb) sb)"

lemma superblock_of_fields:
  "length (superblock_of c) = 512" "get_bytes 0 8 (superblock_of c) = super_magic"
  "sb_checksum (superblock_of c) = get32 32 (superblock_of c)"
  "sb_root_snap_block (superblock_of c) = sb_root_snap_block c"
  "sb_timestamp (superblock_of c) = sb_timestamp c"
  "sb_format_gen (superblock_of c) = sb_format_gen c + 1"
  by (simp_all add: superblock_of_def Let_def sb_fixed_def super_magic_def cs_def sb_checksum_def
      sb_root_snap_block_def sb_timestamp_def sb_format_gen_def bytes_simps)


text \<open>The invariant and the block contents do not depend on the other variables.\<close>

lemma disk_inv_cong:
  assumes "ata_drv s' = ata_drv s" and "drive s' = drive s" and "ata_status s' = ata_status s"
    and "ata_reads s' = ata_reads s" and "block_cache s' = block_cache s"
  shows "disk_inv s' = disk_inv s" and "blk s' = blk s"
  using assms by (simp_all add: disk_inv_def drive_ok_def cache_ok_def blk_def fun_eq_iff)

lemma disk_inv_upd [simp]:
  "disk_inv (s\<lparr>sb_cache := b, sb_valid := v\<rparr>) = disk_inv s" "blk (s\<lparr>sb_cache := b, sb_valid := v\<rparr>) = blk s"
  "disk_inv (s\<lparr>sb_cache := b\<rparr>) = disk_inv s" "blk (s\<lparr>sb_cache := b\<rparr>) = blk s"
  "disk_inv (s\<lparr>alloc_bitmap := b\<rparr>) = disk_inv s" "blk (s\<lparr>alloc_bitmap := b\<rparr>) = blk s"
  "disk_inv (s\<lparr>alloc_bitmap_dirty := v\<rparr>) = disk_inv s" "blk (s\<lparr>alloc_bitmap_dirty := v\<rparr>) = blk s"
  "disk_inv (s\<lparr>next_alloc_hint := n\<rparr>) = disk_inv s" "blk (s\<lparr>next_alloc_hint := n\<rparr>) = blk s"
  "disk_inv (s\<lparr>hexafs_mounted := v\<rparr>) = disk_inv s" "blk (s\<lparr>hexafs_mounted := v\<rparr>) = blk s"
  "disk_inv (s\<lparr>hexafs_current_tx := t\<rparr>) = disk_inv s" "blk (s\<lparr>hexafs_current_tx := t\<rparr>) = blk s"
  "disk_inv (log_write l m s) = disk_inv s" "blk (log_write l m s) = blk s"
  "disk_inv (bitmap_set i s) = disk_inv s" "blk (bitmap_set i s) = blk s"
  "disk_inv (bitmap_clear i s) = disk_inv s" "blk (bitmap_clear i s) = blk s"
  by ((rule disk_inv_cong; simp add: bitmap_set_def bitmap_clear_def))+

lemma valid_lba_reserved [simp]: "valid_lba 100" "valid_lba 101" "valid_lba 102"
  by (simp_all add: valid_lba_def)

lemma write_superblock_ok:
  assumes "disk_inv s"
  obtains s' where "hexafs_write_superblock s = (True, s')" and "disk_inv s'"
    and "blk s' = (blk s)(100 := superblock_of (sb_cache s))" and "sb_cache s' = superblock_of (sb_cache s)"
    and "alloc_bitmap s' = alloc_bitmap s" and "alloc_bitmap_dirty s' = alloc_bitmap_dirty s"
    and "next_alloc_hint s' = next_alloc_hint s" and "hexafs_current_tx s' = hexafs_current_tx s"
proof -
  let ?sb = "superblock_of (sb_cache s)"
  let ?s1 = "s\<lparr>sb_cache := ?sb, sb_valid := True\<rparr>"
  have w: "hexafs_write_superblock s = hexafs_block_write 100 ?sb ?s1"
    by (simp add: hexafs_write_superblock_def superblock_of_def Let_def)
  have "disk_inv ?s1" "good_block ?sb" using assms by (simp_all add: good_block_def superblock_of_fields)
  from store.wr_cases [OF this(1) valid_lba_reserved(1) this(2)] obtain s' where
    s': "hexafs_block_write 100 ?sb ?s1 = (True, s')" "disk_inv s'" "blk s' = (blk ?s1)(100 := ?sb)" .
  show thesis
    using that [of s'] s' w block_write_fields [of 100 ?sb ?s1] by simp
qed

lemma save_bitmap_ok:
  assumes "disk_inv s" and "length (alloc_bitmap s) = 1024" and "alloc_bitmap_dirty s"
  obtains s' where "hexafs_save_bitmap s = (True, s')" and "disk_inv s'"
    and "blk s' = (blk s)(101 := get_bytes 0 512 (alloc_bitmap s), 102 := get_bytes 512 512 (alloc_bitmap s))"
    and "alloc_bitmap s' = alloc_bitmap s" and "\<not> alloc_bitmap_dirty s'" and "sb_cache s' = sb_cache s"
    and "next_alloc_hint s' = next_alloc_hint s" and "hexafs_current_tx s' = hexafs_current_tx s"
proof -
  let ?b0 = "get_bytes 0 512 (alloc_bitmap s)" and ?b1 = "get_bytes 512 512 (alloc_bitmap s)"
  have g: "good_block ?b0" "good_block ?b1" using assms(2) by (simp_all add: good_block_def bytes_simps)
  obtain s1 where s1: "hexafs_block_write 101 ?b0 s = (True, s1)" "disk_inv s1" "blk s1 = (blk s)(101 := ?b0)"
    using store.wr_cases [OF assms(1) valid_lba_reserved(2) g(1)] .
  obtain s2 where s2: "hexafs_block_write 102 ?b1 s1 = (True, s2)" "disk_inv s2" "blk s2 = (blk s1)(102 := ?b1)"
    using store.wr_cases [OF s1(2) valid_lba_reserved(3) g(2)] .
  have f1: "alloc_bitmap s1 = alloc_bitmap s" "sb_cache s1 = sb_cache s" "next_alloc_hint s1 = next_alloc_hint s"
    "hexafs_current_tx s1 = hexafs_current_tx s"
    using block_write_fields [of 101 ?b0 s] s1(1) by simp_all
  have f2: "alloc_bitmap s2 = alloc_bitmap s1" "sb_cache s2 = sb_cache s1" "next_alloc_hint s2 = next_alloc_hint s1"
    "hexafs_current_tx s2 = hexafs_current_tx s1"
    using block_write_fields [of 102 ?b1 s1] s2(1) by simp_all
  have "hexafs_save_bitmap s = (True, s2\<lparr>alloc_bitmap_dirty := False\<rparr>)"
    using assms(3) s1(1) s2(1) f1(1) by (simp add: hexafs_save_bitmap_def)
  then show thesis using that [of "s2\<lparr>alloc_bitmap_dirty := False\<rparr>"] s1 s2 f1 f2 by simp
qed

lemma read_superblock_ok:
  assumes "disk_inv s" and "blk s 100 = superblock_of c"
  obtains s' where "hexafs_read_superblock s = (True, s')" and "disk_inv s'" and "blk s' = blk s"
    and "sb_cache s' = superblock_of c" and "alloc_bitmap s' = alloc_bitmap s"
    and "next_alloc_hint s' = next_alloc_hint s"
proof -
  obtain s1 where s1: "hexafs_block_read 100 s = (Some (blk s 100), s1)" "disk_inv s1" "blk s1 = blk s"
    using store.rd_cases [OF assms(1) valid_lba_reserved(1)] .
  have f: "alloc_bitmap s1 = alloc_bitmap s" "next_alloc_hint s1 = next_alloc_hint s"
    using block_read_fields [of 100 s] s1(1) by simp_all
  have "hexafs_read_superblock s = (True, s1\<lparr>sb_cache := superblock_of c, sb_valid := True\<rparr>)"
    using s1(1) by (simp add: hexafs_read_superblock_def assms(2) superblock_of_fields)
  then show thesis using that [of "s1\<lparr>sb_cache := superblock_of c, sb_valid := True\<rparr>"] s1 f by simp
qed

lemma bitmap_load_ok:
  assumes "disk_inv s" and "length (alloc_bitmap s) = 1024"
  obtains s' where "bitmap_load s = (True, s')" and "disk_inv s'" and "blk s' = blk s"
    and "alloc_bitmap s' = blk s 101 @ blk s 102" and "\<not> alloc_bitmap_dirty s'" and "sb_cache s' = sb_cache s"
    and "next_alloc_hint s' = next_alloc_hint s"
proof -
  obtain s1 where s1: "hexafs_block_read 101 s = (Some (blk s 101), s1)" "disk_inv s1" "blk s1 = blk s"
    using store.rd_cases [OF assms(1) valid_lba_reserved(2)] .
  define t where "t = s1\<lparr>alloc_bitmap := put_bytes 0 (blk s 101) (alloc_bitmap s1)\<rparr>"
  have it: "disk_inv t" "blk t = blk s" using s1 by (simp_all add: t_def)
  obtain s2 where s2: "hexafs_block_read 102 t = (Some (blk t 102), s2)" "disk_inv s2" "blk s2 = blk t"
    using store.rd_cases [OF it(1) valid_lba_reserved(3)] .
  have l: "length (blk s 101) = 512" "length (blk s 102) = 512" using assms(1) by (simp_all add: disk_inv_def)
  have f1: "alloc_bitmap s1 = alloc_bitmap s" "sb_cache s1 = sb_cache s" "next_alloc_hint s1 = next_alloc_hint s"
    using block_read_fields [of 101 s] s1(1) by simp_all
  have f2: "alloc_bitmap s2 = alloc_bitmap t" "sb_cache s2 = sb_cache t" "next_alloc_hint s2 = next_alloc_hint t"
    using block_read_fields [of 102 t] s2(1) by simp_all
  let ?s' = "s2\<lparr>alloc_bitmap := put_bytes 512 (blk s 102) (alloc_bitmap s2), alloc_bitmap_dirty := False\<rparr>"
  have "bitmap_load s = (True, ?s')"
    using s1(1) s2(1) it(2) by (simp add: bitmap_load_def Let_def t_def)
  moreover have "put_bytes 512 (blk s 102) (put_bytes 0 (blk s 101) (alloc_bitmap s)) = blk s 101 @ blk s 102"
    using l assms(2) by (simp add: put_bytes_def)
  moreover have "disk_inv ?s' = disk_inv s2" "blk ?s' = blk s2" by (intro disk_inv_cong; simp)+
  ultimately show thesis using that [of ?s'] s2 it f1 f2 by (simp add: t_def)
qed


text \<open>One allocation, on every branch.\<close>

lemma alloc_block_spec:
  assumes "disk_inv s" and "alloc_inv s" and "hexafs_alloc_block s = (b, s')"
  shows "disk_inv s' \<and> alloc_inv s' \<and>
    (b = 0 \<longleftrightarrow> {HEXAFS_OBJECT_LBA..<HEXAFS_DISK_BLOCKS} \<subseteq> disk_used s) \<and>
    (b = 0 \<longrightarrow> disk_used s' = disk_used s \<and> blk s' = blk s) \<and>
    (b \<noteq> 0 \<longrightarrow> unat b \<in> {HEXAFS_OBJECT_LBA..<HEXAFS_DISK_BLOCKS} - disk_used s \<and>
       disk_used s' = insert (unat b) (disk_used s) \<and> blk s' = (blk s)(b := zeros 512) \<and>
       disk_used (hexafs_free_block b s') = disk_used s)"
proof (cases "b = 0")
  case True
  then have d: "disk_alloc s = (None, s')" using assms(3) by (simp add: disk_alloc_def)
  from assms(2) have "s' = log_write LOG_LEVEL_WARN (cs ''HEXAFS: out of disk blocks'') s"
  proof (cases rule: alloc_block_cases)
    case (some i)
    with True assms(3) unat_block [of i] show ?thesis by auto
  qed (use assms(3) in simp)
  with True assms(1) dalloc.alloc_none [OF assms(2) d] show ?thesis by simp
next
  case False
  then have d: "disk_alloc s = (Some (unat b), s')" using assms(3) by (simp add: disk_alloc_def)
  note a = dalloc.alloc_some [OF assms(2) d]
  have fr: "disk_used (hexafs_free_block b s') = disk_used s"
    using dalloc.release_ok [of s' "unat b"] a by auto
  from assms(2) have "disk_inv s' \<and> blk s' = (blk s)(b := zeros 512)"
  proof (cases rule: alloc_block_cases)
    case (some i)
    then have b: "b = of_nat i"
      and s': "s' = (snd (hexafs_block_write b (zeros 512) (bitmap_set i s)))\<lparr>next_alloc_hint := i + 1\<rparr>"
      using assms(3) by auto
    have v: "valid_lba b" using some unat_block [OF some(2)] b by (simp add: valid_lba_def)
    have i: "disk_inv (bitmap_set i s)" and g: "good_block (zeros 512)" using assms(1) by (simp_all add: good_block_def)
    obtain t where "hexafs_block_write b (zeros 512) (bitmap_set i s) = (True, t)" "disk_inv t"
      "blk t = (blk (bitmap_set i s))(b := zeros 512)" using store.wr_cases [OF i v g] .
    then show ?thesis by (simp add: s')
  qed (use assms(3) False in simp)
  with False a fr show ?thesis by auto
qed

lemma alloc_block_fields [simp]:
  "sb_cache (snd (hexafs_alloc_block s)) = sb_cache s"
  "hexafs_current_tx (snd (hexafs_alloc_block s)) = hexafs_current_tx s"
  "hexafs_mounted (snd (hexafs_alloc_block s)) = hexafs_mounted s"
  by (simp_all add: hexafs_alloc_block_def Let_def bitmap_set_def case_prod_beta split: option.split)

definition free_blocks :: "'a kdisk_scheme \<Rightarrow> nat" where
  "free_blocks s = card ({HEXAFS_OBJECT_LBA..<HEXAFS_DISK_BLOCKS} - disk_used s)"

text \<open>A block number of the object area that is in use.\<close>

definition used_lba :: "u32 \<Rightarrow> 'a kdisk_scheme \<Rightarrow> bool" where
  "used_lba b s \<longleftrightarrow> HEXAFS_OBJECT_LBA \<le> unat b \<and> valid_lba b \<and> unat b \<in> disk_used s"

lemma alloc_block_ok:
  assumes "disk_inv s" and "alloc_inv s" and "Suc n \<le> free_blocks s"
  obtains b s' where "hexafs_alloc_block s = (b, s')" and "b \<noteq> 0" and "valid_lba b" and "unat b \<notin> disk_used s"
    and "disk_used s' = insert (unat b) (disk_used s)" and "blk s' = (blk s)(b := zeros 512)"
    and "disk_inv s'" and "alloc_inv s'" and "n \<le> free_blocks s'" and "used_lba b s'"
    and "sb_cache s' = sb_cache s" and "hexafs_current_tx s' = hexafs_current_tx s"
    and "hexafs_mounted s' = hexafs_mounted s" and "HEXAFS_OBJECT_LBA \<le> unat b"
proof -
  obtain b s' where a: "hexafs_alloc_block s = (b, s')" by (cases "hexafs_alloc_block s")
  note sp = alloc_block_spec [OF assms(1,2) a]
  have "\<not> {HEXAFS_OBJECT_LBA..<HEXAFS_DISK_BLOCKS} \<subseteq> disk_used s"
  proof
    assume "{HEXAFS_OBJECT_LBA..<HEXAFS_DISK_BLOCKS} \<subseteq> disk_used s"
    then have "{HEXAFS_OBJECT_LBA..<HEXAFS_DISK_BLOCKS} - disk_used s = {}" by blast
    with assms(3) show False by (simp add: free_blocks_def)
  qed
  with sp have nz: "b \<noteq> 0" by blast
  with sp have b: "unat b \<in> {HEXAFS_OBJECT_LBA..<HEXAFS_DISK_BLOCKS} - disk_used s"
    "disk_used s' = insert (unat b) (disk_used s)" "blk s' = (blk s)(b := zeros 512)" "disk_inv s'" "alloc_inv s'"
    by simp_all
  have "{HEXAFS_OBJECT_LBA..<HEXAFS_DISK_BLOCKS} - disk_used s' =
      ({HEXAFS_OBJECT_LBA..<HEXAFS_DISK_BLOCKS} - disk_used s) - {unat b}" using b(2) by blast
  then have "free_blocks s' = free_blocks s - 1" using b(1) by (simp add: free_blocks_def card_Diff_singleton)
  then have "n \<le> free_blocks s'" using assms(3) by simp
  moreover have "valid_lba b" using b(1) by (simp add: valid_lba_def)
  moreover from this have "used_lba b s'" using b(1,2) by (simp add: used_lba_def)
  moreover have "sb_cache s' = sb_cache s" "hexafs_current_tx s' = hexafs_current_tx s"
    "hexafs_mounted s' = hexafs_mounted s"
    using alloc_block_fields [of s] by (simp_all only: a snd_conv)
  ultimately show thesis using that [OF a nz] b by simp
qed

subsection \<open>A power cycle\<close>

text \<open>
  A power cycle keeps the drive and loses main memory: \<open>rebooted s r\<close> says that \<open>r\<close> is any kernel state
  with the drive contents of \<open>s\<close>, the same drive selected, and a drive that answers.
\<close>

definition rebooted :: "'a kdisk_scheme \<Rightarrow> 'b kdisk_scheme \<Rightarrow> bool" where
  "rebooted s r \<longleftrightarrow> drive r = drive s \<and> ata_drv r = ata_drv s \<and> drive_ok r \<and> length (alloc_bitmap r) = 1024"

lemma disk_inv_empty_cache:
  assumes "drive_ok s" and "\<And>lba. length (blk s lba) = HEXAFS_BLOCK_SIZE"
  shows "disk_inv (s\<lparr>block_cache := replicate HEXAFS_CACHE_SLOTS empty_slot\<rparr>)"
  using assms by (simp add: disk_inv_def drive_ok_def cache_ok_def blk_def empty_slot_def)

lemma blk_cache_upd [simp]: "blk (s\<lparr>block_cache := c\<rparr>) = blk s"
  by (simp add: blk_def fun_eq_iff)

lemma rebooted_inv:
  assumes "disk_inv s" and "rebooted s r"
  shows "disk_inv (r\<lparr>block_cache := replicate HEXAFS_CACHE_SLOTS empty_slot\<rparr>)" and "blk r = blk s"
proof -
  show b: "blk r = blk s" using assms(2) by (simp add: rebooted_def blk_def fun_eq_iff)
  show "disk_inv (r\<lparr>block_cache := replicate HEXAFS_CACHE_SLOTS empty_slot\<rparr>)"
    using assms b by (intro disk_inv_empty_cache) (auto simp: rebooted_def disk_inv_def)
qed

text \<open>Mounting reads back what the superblock and the bitmap blocks hold.\<close>

lemma mount_ok:
  assumes "disk_inv s" and "rebooted s r" and "blk s 100 = superblock_of c"
  obtains r' where "hexafs_mount_disk r = (True, r')" and "disk_inv r'" and "blk r' = blk s"
    and "sb_cache r' = superblock_of c" and "alloc_bitmap r' = blk s 101 @ blk s 102"
    and "hexafs_mounted r'" and "\<not> alloc_bitmap_dirty r'"
proof -
  define r1 where "r1 = r\<lparr>block_cache := replicate HEXAFS_CACHE_SLOTS empty_slot\<rparr>"
  have r1: "disk_inv r1" "blk r1 = blk s" "length (alloc_bitmap r1) = 1024"
    using rebooted_inv [OF assms(1,2)] assms(2) by (simp_all add: r1_def rebooted_def)
  obtain r2 where r2: "hexafs_read_superblock r1 = (True, r2)" "disk_inv r2" "blk r2 = blk r1"
    "sb_cache r2 = superblock_of c" "alloc_bitmap r2 = alloc_bitmap r1"
    using read_superblock_ok [OF r1(1), of c] r1(2) assms(3) by metis
  obtain r3 where r3: "bitmap_load r2 = (True, r3)" "disk_inv r3" "blk r3 = blk r2"
    "alloc_bitmap r3 = blk r2 101 @ blk r2 102" "\<not> alloc_bitmap_dirty r3" "sb_cache r3 = sb_cache r2"
    using bitmap_load_ok [OF r2(2)] r1(3) r2(5) by metis
  have "hexafs_mount_disk r = (True, log_write LOG_LEVEL_INFO (cs ''HEXAFS: mounted'') (r3\<lparr>hexafs_mounted := True\<rparr>))"
    using r2(1) r3(1) by (simp add: hexafs_mount_disk_def r1_def [symmetric])
  then show thesis by (rule that) (use r1 r2 r3 in simp_all)
qed

lemma bitmap_split: "length b = 1024 \<Longrightarrow> get_bytes 0 512 b @ get_bytes 512 512 b = b"
  by (simp add: get_bytes_def)

lemma bitmap_set_used:
  assumes "n < HEXAFS_DISK_BLOCKS" and "length (alloc_bitmap t) = 1024"
  shows "length (alloc_bitmap (bitmap_set n t)) = 1024" "disk_used (bitmap_set n t) = insert n (disk_used t)"
proof -
  have "n div 8 < 1024" using assms(1) by (simp add: div_less_iff_less_mult)
  then have "alloc_bitmap (bitmap_set n t) = bm_set n (alloc_bitmap t)" by (simp add: bitmap_set_def)
  then show "length (alloc_bitmap (bitmap_set n t)) = 1024" "disk_used (bitmap_set n t) = insert n (disk_used t)"
    using assms by (simp_all add: disk_used_def bm_used_set)
qed

lemma bitmap_set_shape: "\<exists>b v. bitmap_set n s = s\<lparr>alloc_bitmap := b, alloc_bitmap_dirty := v\<rparr>"
  by (intro exI [of _ "alloc_bitmap (bitmap_set n s)"] exI [of _ "alloc_bitmap_dirty (bitmap_set n s)"])
    (simp add: bitmap_set_def)

lemma fold_bitmap_set_shape: "\<exists>b v. fold bitmap_set ns s = s\<lparr>alloc_bitmap := b, alloc_bitmap_dirty := v\<rparr>"
proof (induction ns arbitrary: s)
  case Nil
  show ?case by (intro exI [of _ "alloc_bitmap s"] exI [of _ "alloc_bitmap_dirty s"]) simp
next
  case (Cons n ns)
  obtain b v where 1: "bitmap_set n s = s\<lparr>alloc_bitmap := b, alloc_bitmap_dirty := v\<rparr>"
    using bitmap_set_shape by blast
  obtain b' v' where "fold bitmap_set ns (bitmap_set n s) = (bitmap_set n s)\<lparr>alloc_bitmap := b', alloc_bitmap_dirty := v'\<rparr>"
    using Cons by blast
  then have "fold bitmap_set (n # ns) s = s\<lparr>alloc_bitmap := b', alloc_bitmap_dirty := v'\<rparr>" by (simp add: 1)
  then show ?case by blast
qed

lemma fold_bitmap_set_used:
  assumes "set ns \<subseteq> {..<HEXAFS_DISK_BLOCKS}" and "length (alloc_bitmap s) = 1024"
  shows "length (alloc_bitmap (fold bitmap_set ns s)) = 1024 \<and> disk_used (fold bitmap_set ns s) = disk_used s \<union> set ns"
  using assms
proof (induction ns arbitrary: s)
  case (Cons n ns)
  then show ?case using Cons.IH [of "bitmap_set n s"] bitmap_set_used [of n s] by simp
qed simp

lemma bm_test_zeros: "\<not> bm_test (zeros 1024) i" if "i < 8192"
proof -
  have "i div 8 < 1024" using that by (simp add: div_less_iff_less_mult)
  then show ?thesis by (simp add: bm_test_bit zeros_def)
qed

lemma bitmap_init_ok:
  obtains b where "bitmap_init s = s\<lparr>alloc_bitmap := b, alloc_bitmap_dirty := True\<rparr>" and "length b = 1024"
    and "bm_used b HEXAFS_DISK_BLOCKS = {..<HEXAFS_OBJECT_LBA}"
proof -
  define s1 where "s1 = s\<lparr>alloc_bitmap := zeros 1024\<rparr>"
  have z: "disk_used s1 = {}" using bm_test_zeros by (auto simp: disk_used_def bm_used_def s1_def)
  define ns where "ns = [0..<HEXAFS_OBJECT_LBA] @ [101..<103]"
  have f: "fold bitmap_set [101..<103] (fold bitmap_set [0..<HEXAFS_OBJECT_LBA] s1) = fold bitmap_set ns s1"
    (is "_ = ?t") by (simp only: ns_def fold_append comp_apply)
  have "set ns = {..<HEXAFS_OBJECT_LBA}" unfolding ns_def set_append set_upt by auto
  moreover from this have "set ns \<subseteq> {..<HEXAFS_DISK_BLOCKS}" by auto
  ultimately have t: "length (alloc_bitmap ?t) = 1024" "disk_used ?t = {..<HEXAFS_OBJECT_LBA}"
    using fold_bitmap_set_used [of ns s1] z by (simp_all add: s1_def)
  obtain b v where bv: "?t = s1\<lparr>alloc_bitmap := b, alloc_bitmap_dirty := v\<rparr>"
    using fold_bitmap_set_shape by blast
  have "bitmap_init s = ?t\<lparr>alloc_bitmap_dirty := True\<rparr>"
    by (simp only: bitmap_init_def Let_def s1_def [symmetric] f)
  also have "\<dots> = s\<lparr>alloc_bitmap := b, alloc_bitmap_dirty := True\<rparr>" by (simp only: bv) (simp add: s1_def)
  finally show thesis by (rule that) (use t in \<open>simp_all only: bv\<close>, simp_all add: disk_used_def)
qed

text \<open>Formatting writes a superblock with no snapshot and a bitmap with the reserved blocks in use.\<close>

lemma format_ok:
  assumes "drive_ok s" and "\<And>lba. length (blk s lba) = HEXAFS_BLOCK_SIZE"
  obtains s' c where "hexafs_format s = (True, s')" and "disk_inv s'" and "hexafs_mounted s'"
    and "blk s' 100 = superblock_of c" and "sb_root_snap_block c = 0"
    and "length (alloc_bitmap s') = 1024" and "disk_used s' = {..<HEXAFS_OBJECT_LBA}"
    and "blk s' 101 @ blk s' 102 = alloc_bitmap s'" and "sb_cache s' = superblock_of c"
    and "\<And>a. a \<notin> {100, 101, 102} \<Longrightarrow> blk s' a = blk s a"
    and "next_alloc_hint s' = next_alloc_hint s"
proof -
  define c where "c = sb_fixed (put32 28 0 (put32 40 1 (put32 36 0 (zeros 512))))"
  define s1 where "s1 = s\<lparr>sb_cache := c, block_cache := replicate HEXAFS_CACHE_SLOTS empty_slot\<rparr>"
  have s1: "disk_inv s1" "blk s1 = blk s"
    using disk_inv_empty_cache [of "s\<lparr>sb_cache := c\<rparr>"] assms by (simp_all add: s1_def drive_ok_def)
  have root: "sb_root_snap_block c = 0"
    by (simp add: c_def sb_root_snap_block_def sb_fixed_def super_magic_def cs_def bytes_simps)
  obtain b where b: "bitmap_init s1 = s1\<lparr>alloc_bitmap := b, alloc_bitmap_dirty := True\<rparr>" "length b = 1024"
    "bm_used b HEXAFS_DISK_BLOCKS = {..<HEXAFS_OBJECT_LBA}" by (rule bitmap_init_ok)
  have s2: "disk_inv (bitmap_init s1)" "blk (bitmap_init s1) = blk s" "sb_cache (bitmap_init s1) = c"
    "alloc_bitmap (bitmap_init s1) = b" "alloc_bitmap_dirty (bitmap_init s1)"
    "next_alloc_hint (bitmap_init s1) = next_alloc_hint s"
    using s1 disk_inv_cong [of "bitmap_init s1" s1] by (simp_all add: b(1)) (simp add: s1_def)+
  obtain s3 where s3: "hexafs_write_superblock (bitmap_init s1) = (True, s3)" "disk_inv s3"
    "blk s3 = (blk s)(100 := superblock_of c)" "sb_cache s3 = superblock_of c" "alloc_bitmap s3 = b"
    "alloc_bitmap_dirty s3 = True" "next_alloc_hint s3 = next_alloc_hint s"
    "hexafs_current_tx s3 = hexafs_current_tx (bitmap_init s1)"
    by (rule write_superblock_ok [OF s2(1), unfolded s2(2-4,6) eqTrueI [OF s2(5)]])
  have l3: "length (alloc_bitmap s3) = 1024" and d3: "alloc_bitmap_dirty s3" using s3 b(2) by simp_all
  obtain s4 where s4: "hexafs_save_bitmap s3 = (True, s4)" "disk_inv s4"
    "blk s4 = (blk s3)(101 := get_bytes 0 512 b, 102 := get_bytes 512 512 b)" "alloc_bitmap s4 = b"
    "\<not> alloc_bitmap_dirty s4" "sb_cache s4 = superblock_of c" "next_alloc_hint s4 = next_alloc_hint s"
    "hexafs_current_tx s4 = hexafs_current_tx s3"
    by (rule save_bitmap_ok [OF s3(2) l3 d3, unfolded s3(4,5,7)])
  have "hexafs_format s = (True, log_write LOG_LEVEL_INFO (cs ''HEXAFS: formatted'') (s4\<lparr>hexafs_mounted := True\<rparr>))"
    using s3(1) s4(1) by (simp add: hexafs_format_def c_def [symmetric] s1_def [symmetric])
  then show thesis
    by (rule that [where c = c]) (use s3(3) s4 b root in \<open>simp_all add: disk_used_def bitmap_split\<close>)
qed

section \<open>Properties of the block layer\<close>

text \<open>
  C12: the block layer is a coherent block store.  On a drive that answers, a block that is read
  after a write delivers the bytes last written to it, whether the cache still holds it or not;
  every other block keeps its contents; and the written bytes are on the drive, so that any later
  kernel that mounts the same drive with an empty cache reads them.
\<close>

theorem block_layer_coherent:
  assumes "disk_inv s" and "valid_lba a" and "valid_lba b" and "good_block d"
    and "rebooted (snd (hexafs_block_write a d s)) r"
  shows "fst (hexafs_block_write a d s) \<and>
    fst (hexafs_block_read b (snd (hexafs_block_write a d s))) = Some (if b = a then d else blk s b) \<and>
    fst (hexafs_block_read b (r\<lparr>block_cache := replicate HEXAFS_CACHE_SLOTS empty_slot\<rparr>)) =
      Some (if b = a then d else blk s b)"
proof -
  obtain s1 where s1: "hexafs_block_write a d s = (True, s1)" "disk_inv s1" "blk s1 = (blk s)(a := d)"
    using store.wr_cases [OF assms(1,2,4)] .
  have r: "disk_inv (r\<lparr>block_cache := replicate HEXAFS_CACHE_SLOTS empty_slot\<rparr>)" "blk r = (blk s)(a := d)"
    using rebooted_inv [of s1 r] s1 assms(5) by simp_all
  obtain r' where "hexafs_block_read b (r\<lparr>block_cache := replicate HEXAFS_CACHE_SLOTS empty_slot\<rparr>) =
      (Some (blk (r\<lparr>block_cache := replicate HEXAFS_CACHE_SLOTS empty_slot\<rparr>) b), r')"
    by (rule store.rd_cases [OF r(1) assms(3)])
  with r(2) s1(1) store.rd_after_wr [OF assms(1-4)] show ?thesis by simp
qed

lemma bss_drive_ok: "drive_ok bss_kdisk"
  by (auto simp: drive_ok_def bss_kdisk_def kpipe.defs ready_status_def intro: exI [of _ "_ :: nat"])

lemma bss_disk_inv: "disk_inv bss_kdisk"
  using bss_drive_ok by (simp add: disk_inv_def cache_ok_def bss_kdisk_def kpipe.defs blk_def empty_slot_def)

lemma bss_alloc_inv: "alloc_inv bss_kdisk"
  by (simp add: alloc_inv_def bss_kdisk_def kpipe.defs)

lemma write_rebooted:
  assumes "disk_inv s" and "valid_lba a" and "good_block d" and "length (alloc_bitmap s) = 1024"
  shows "rebooted (snd (hexafs_block_write a d s)) (snd (hexafs_block_write a d s))"
proof -
  obtain s1 where "hexafs_block_write a d s = (True, s1)" "disk_inv s1" "blk s1 = (blk s)(a := d)"
    using store.wr_cases [OF assms(1-3)] .
  with assms(4) block_write_fields(1) [of a d s] show ?thesis by (simp add: rebooted_def disk_inv_def)
qed

theorem block_layer_coherent_witness:
  "fst (hexafs_block_read 200 ((snd (hexafs_block_write 200 (replicate 512 7) bss_kdisk))
     \<lparr>block_cache := replicate HEXAFS_CACHE_SLOTS empty_slot\<rparr>)) = Some (replicate 512 7)"
proof -
  have v: "valid_lba 200" "good_block (replicate 512 7)" by (simp_all add: valid_lba_def good_block_def)
  have "length (alloc_bitmap bss_kdisk) = 1024" using bss_alloc_inv by (simp add: alloc_inv_def)
  from block_layer_coherent [OF bss_disk_inv v(1) v(1) v(2) write_rebooted [OF bss_disk_inv v this]]
  show ?thesis by simp
qed

text \<open>
  The block allocator is exact.  It fails only when every block of the object area is in use;
  otherwise it returns a block of that area that was free, marks exactly that block, clears its
  contents and changes no other block.  Freeing the block gives exactly it back.
\<close>

theorem hexafs_alloc_exact:
  assumes "disk_inv s" and "alloc_inv s" and "hexafs_alloc_block s = (b, s')"
  shows "disk_inv s' \<and> alloc_inv s' \<and>
    (b = 0 \<longleftrightarrow> {HEXAFS_OBJECT_LBA..<HEXAFS_DISK_BLOCKS} \<subseteq> disk_used s) \<and>
    (b = 0 \<longrightarrow> disk_used s' = disk_used s \<and> blk s' = blk s) \<and>
    (b \<noteq> 0 \<longrightarrow> unat b \<in> {HEXAFS_OBJECT_LBA..<HEXAFS_DISK_BLOCKS} - disk_used s \<and>
       disk_used s' = insert (unat b) (disk_used s) \<and> blk s' = (blk s)(b := zeros 512) \<and>
       disk_used (hexafs_free_block b s') = disk_used s)"
  using assms by (rule alloc_block_spec)

lemma bss_disk_used: "disk_used bss_kdisk = {}"
  using bm_test_zeros by (auto simp: disk_used_def bm_used_def bss_kdisk_def kpipe.defs)

theorem hexafs_alloc_exact_witness:
  "unat (fst (hexafs_alloc_block bss_kdisk)) \<in> {HEXAFS_OBJECT_LBA..<HEXAFS_DISK_BLOCKS} \<and>
   disk_used (hexafs_free_block (fst (hexafs_alloc_block bss_kdisk)) (snd (hexafs_alloc_block bss_kdisk))) = {}"
  using hexafs_alloc_exact [OF bss_disk_inv bss_alloc_inv prod.collapse [symmetric]]
  by (auto simp: bss_disk_used)

text \<open>
  C13: mounting accepts a drive exactly when block 100 carries the magic and a matching checksum, and
  then restores the allocation bitmap and the superblock of the drive; otherwise it reports failure
  and leaves the file system unmounted, the bitmap and the superblock in memory as they were.
\<close>

theorem mount_accepts_iff_valid:
  assumes "drive_ok s" and "\<forall>lba. length (blk s lba) = HEXAFS_BLOCK_SIZE" and "length (alloc_bitmap s) = 1024"
    and "hexafs_mount_disk s = (ok, s')"
  shows "blk s' = blk s \<and>
    (ok \<longleftrightarrow> get_bytes 0 8 (blk s 100) = super_magic \<and> sb_checksum (blk s 100) = get32 32 (blk s 100)) \<and>
    (ok \<longrightarrow> hexafs_mounted s' \<and> sb_cache s' = blk s 100 \<and> alloc_bitmap s' = blk s 101 @ blk s 102) \<and>
    (\<not> ok \<longrightarrow> hexafs_mounted s' = hexafs_mounted s \<and> sb_cache s' = sb_cache s \<and> alloc_bitmap s' = alloc_bitmap s)"
proof -
  define t where "t = s\<lparr>block_cache := replicate HEXAFS_CACHE_SLOTS empty_slot\<rparr>"
  have t: "disk_inv t" "blk t = blk s" using disk_inv_empty_cache [of s] assms(1,2) by (simp_all add: t_def)
  obtain s1 where s1: "hexafs_block_read 100 t = (Some (blk t 100), s1)" "disk_inv s1" "blk s1 = blk t"
    using store.rd_cases [OF t(1) valid_lba_reserved(1)] .
  have f: "alloc_bitmap s1 = alloc_bitmap s" "sb_cache s1 = sb_cache s" "hexafs_mounted s1 = hexafs_mounted s"
    using io_frame_fields [OF block_read_frame [of t 100]] by (simp_all add: s1(1)) (simp_all add: t_def)
  show ?thesis
  proof (cases "get_bytes 0 8 (blk s 100) = super_magic \<and> sb_checksum (blk s 100) = get32 32 (blk s 100)")
    case True
    define u where "u = s1\<lparr>sb_cache := blk s 100, sb_valid := True\<rparr>"
    have "hexafs_read_superblock t = (True, u)"
      using True s1(1) t(2) by (simp add: hexafs_read_superblock_def u_def)
    moreover have u: "disk_inv u" "length (alloc_bitmap u) = 1024" using s1 f assms(3) by (simp_all add: u_def)
    obtain s2 where s2: "bitmap_load u = (True, s2)" "disk_inv s2" "blk s2 = blk u"
      "alloc_bitmap s2 = blk u 101 @ blk u 102" "\<not> alloc_bitmap_dirty s2" "sb_cache s2 = sb_cache u"
      "next_alloc_hint s2 = next_alloc_hint u"
      by (rule bitmap_load_ok [OF u])
    ultimately have "ok \<and> s' = log_write LOG_LEVEL_INFO (cs ''HEXAFS: mounted'') (s2\<lparr>hexafs_mounted := True\<rparr>)"
      using assms(4) by (simp add: hexafs_mount_disk_def t_def [symmetric])
    with True s1 s2 t(2) show ?thesis by (simp add: u_def)
  next
    case False
    have "\<exists>m. snd (hexafs_read_superblock t) = s1 \<or> snd (hexafs_read_superblock t) = log_write LOG_LEVEL_WARN m s1"
      and "\<not> fst (hexafs_read_superblock t)"
      using False s1(1) t(2) by (auto simp: hexafs_read_superblock_def)
    then obtain m m' where "\<not> ok" "s' = log_write LOG_LEVEL_WARN m' s1 \<or> s' = log_write LOG_LEVEL_WARN m' (log_write LOG_LEVEL_WARN m s1)"
      using assms(4) by (cases "hexafs_read_superblock t") (auto simp: hexafs_mount_disk_def t_def [symmetric])
    with False s1 f t(2) show ?thesis by auto
  qed
qed

theorem mount_accepts_iff_valid_witness:
  "\<not> fst (hexafs_mount_disk bss_kdisk) \<and> \<not> hexafs_mounted (snd (hexafs_mount_disk bss_kdisk))"
proof -
  have "hd (zeros 8) = 0" "hd super_magic = 72" by (simp_all add: zeros_def super_magic_def cs_def)
  then have "zeros 8 \<noteq> super_magic" by auto
  then have "get_bytes 0 8 (blk bss_kdisk 100) \<noteq> super_magic"
    by (simp add: bss_kdisk_def kpipe.defs blk_def bytes_simps)
  moreover have "\<forall>lba. length (blk bss_kdisk lba) = HEXAFS_BLOCK_SIZE" "length (alloc_bitmap bss_kdisk) = 1024"
    "\<not> hexafs_mounted bss_kdisk" by (simp_all add: bss_kdisk_def kpipe.defs blk_def)
  ultimately show ?thesis
    using mount_accepts_iff_valid [OF bss_drive_ok _ _ prod.collapse [symmetric]] by simp
qed

text \<open>
  What is saved survives a power cycle.  After the superblock and the bitmap have been written,
  mounting the drive from any later memory contents succeeds and gives back the allocation bitmap,
  the root snapshot and the timestamp that were current, and the same block contents, with the
  format generation advanced by one.
\<close>

theorem save_mount_roundtrip:
  assumes "disk_inv s" and "length (alloc_bitmap s) = 1024" and "alloc_bitmap_dirty s"
    and "hexafs_write_superblock s = (ok1, s1)" and "hexafs_save_bitmap s1 = (ok2, s2)" and "rebooted s2 r"
    and "hexafs_mount_disk r = (ok3, r')"
  shows "ok1 \<and> ok2 \<and> ok3 \<and> hexafs_mounted r' \<and> alloc_bitmap r' = alloc_bitmap s \<and>
    sb_root_snap_block (sb_cache r') = sb_root_snap_block (sb_cache s) \<and>
    sb_timestamp (sb_cache r') = sb_timestamp (sb_cache s) \<and>
    sb_format_gen (sb_cache r') = sb_format_gen (sb_cache s) + 1 \<and>
    (\<forall>a. a \<notin> {100, 101, 102} \<longrightarrow> blk r' a = blk s a)"
proof -
  let ?b = "alloc_bitmap s"
  from assms(1) have s1: "ok1" "disk_inv s1" "blk s1 = (blk s)(100 := superblock_of (sb_cache s))"
    "alloc_bitmap s1 = ?b" "alloc_bitmap_dirty s1"
    by (rule write_superblock_ok, use assms(3,4) in simp)+
  have l1: "length (alloc_bitmap s1) = 1024" using s1(4) assms(2) by simp
  have s2: "ok2" "disk_inv s2" "blk s2 = (blk s1)(101 := get_bytes 0 512 ?b, 102 := get_bytes 512 512 ?b)"
    by (rule save_bitmap_ok [OF s1(2) l1 s1(5)], use assms(5) s1(4) in simp)+
  have "blk s2 100 = superblock_of (sb_cache s)" using s1(3) s2(3) by simp
  from mount_ok [OF s2(2) assms(6) this] obtain t where t: "hexafs_mount_disk r = (True, t)" "disk_inv t"
    "blk t = blk s2" "sb_cache t = superblock_of (sb_cache s)" "alloc_bitmap t = blk s2 101 @ blk s2 102"
    "hexafs_mounted t" "\<not> alloc_bitmap_dirty t" .
  then have r': "ok3" "r' = t" using assms(7) by simp_all
  show ?thesis using r' s1 s2 t assms(2) by (simp add: superblock_of_fields bitmap_split)
qed

definition dirty_disk :: kdisk where
  "dirty_disk = bss_kdisk\<lparr>alloc_bitmap_dirty := True\<rparr>"

theorem save_mount_roundtrip_witness:
  "alloc_bitmap (snd (hexafs_mount_disk (snd (hexafs_save_bitmap (snd (hexafs_write_superblock dirty_disk)))))) =
    zeros 1024"
proof -
  have i: "disk_inv dirty_disk" "length (alloc_bitmap dirty_disk) = 1024" "alloc_bitmap_dirty dirty_disk"
    and z: "alloc_bitmap dirty_disk = zeros 1024"
    using bss_disk_inv by (simp_all add: dirty_disk_def) (simp_all add: bss_kdisk_def kpipe.defs)
  define s1 where "s1 = snd (hexafs_write_superblock dirty_disk)"
  define s2 where "s2 = snd (hexafs_save_bitmap s1)"
  from i(1) have s1: "disk_inv s1" "length (alloc_bitmap s1) = 1024" "alloc_bitmap_dirty s1"
    by (rule write_superblock_ok, use i(2,3) in \<open>simp add: s1_def\<close>)+
  have "disk_inv s2" "length (alloc_bitmap s2) = 1024"
    by (rule save_bitmap_ok [OF s1], use s1(2) in \<open>simp add: s2_def\<close>)+
  then have "rebooted s2 s2" by (simp add: rebooted_def disk_inv_def)
  then show ?thesis
    using save_mount_roundtrip [OF i, of "fst (hexafs_write_superblock dirty_disk)" s1
        "fst (hexafs_save_bitmap s1)" s2 s2 "fst (hexafs_mount_disk s2)" "snd (hexafs_mount_disk s2)"]
    by (simp add: s1_def [symmetric] s2_def [symmetric] z prod.collapse) (simp add: s1_def s2_def z)
qed

text \<open>
  Formatting a drive and mounting it after a power cycle gives an empty store: the reserved
  blocks 0 to 108 are in use and nothing else is, there is no snapshot, and every block other than
  the superblock and the bitmap keeps its contents.
\<close>

theorem format_mount_empty:
  assumes "drive_ok s" and "\<forall>lba. length (blk s lba) = HEXAFS_BLOCK_SIZE"
    and "hexafs_format s = (ok, s')" and "rebooted s' r" and "hexafs_mount_disk r = (ok', r')"
  shows "ok \<and> ok' \<and> hexafs_mounted s' \<and> hexafs_mounted r' \<and> disk_used r' = {..<HEXAFS_OBJECT_LBA} \<and>
    alloc_bitmap r' = alloc_bitmap s' \<and> sb_root_snap_block (sb_cache r') = 0 \<and>
    (\<forall>a. a \<notin> {100, 101, 102} \<longrightarrow> blk r' a = blk s a)"
proof -
  obtain t c where t: "hexafs_format s = (True, t)" "disk_inv t" "hexafs_mounted t" "blk t 100 = superblock_of c"
    "sb_root_snap_block c = 0" "length (alloc_bitmap t) = 1024" "disk_used t = {..<HEXAFS_OBJECT_LBA}"
    "blk t 101 @ blk t 102 = alloc_bitmap t" "sb_cache t = superblock_of c"
    and o: "\<And>a. a \<notin> {100, 101, 102} \<Longrightarrow> blk t a = blk s a" and "next_alloc_hint t = next_alloc_hint s"
    by (rule format_ok [OF assms(1)]) (use assms(2) in auto)
  have s': "ok" "s' = t" using assms(3) t(1) by simp_all
  from mount_ok [OF t(2) assms(4) [unfolded s'(2)] t(4)] obtain u where u: "hexafs_mount_disk r = (True, u)"
    "disk_inv u" "blk u = blk t" "sb_cache u = superblock_of c" "alloc_bitmap u = blk t 101 @ blk t 102"
    "hexafs_mounted u" "\<not> alloc_bitmap_dirty u" .
  then have r': "ok'" "r' = u" using assms(5) by simp_all
  have "disk_used u = disk_used t" by (simp add: disk_used_def u(5) t(8))
  then show ?thesis using s' r' t(3,5,7,8) u o by (simp add: superblock_of_fields)
qed

theorem format_mount_empty_witness:
  "disk_used (snd (hexafs_mount_disk (snd (hexafs_format bss_kdisk)))) = {..<HEXAFS_OBJECT_LBA}"
proof -
  define t where "t = snd (hexafs_format bss_kdisk)"
  have l: "\<forall>lba. length (blk bss_kdisk lba) = HEXAFS_BLOCK_SIZE" by (simp add: bss_kdisk_def kpipe.defs blk_def)
  have "disk_inv t" "length (alloc_bitmap t) = 1024"
    by (rule format_ok [OF bss_drive_ok], use l in auto, simp add: t_def)+
  then have "rebooted t t" by (simp add: rebooted_def disk_inv_def)
  with format_mount_empty [OF bss_drive_ok l, of "fst (hexafs_format bss_kdisk)" t t]
  show ?thesis by (metis prod.collapse t_def)
qed

end
