(* ===== verification/Hexa_Object.thy ===== *)
theory Hexa_Object
  imports Hexa_Disk "HOL-Library.Monad_Syntax"
begin

text \<open>
  The object layer of the form store (\<^verbatim>\<open>hexafs_disk.c\<close>): objects with up to four content blocks, and
  snapshots.  Structures are the 512 bytes of their block, with the field offsets of
  \<^verbatim>\<open>hexafs_disk.h\<close>.  The walk along the snapshot chain follows block numbers on disk and need not end;
  it is a partial function, \<open>None\<close> meaning that the walk does not return.
\<close>

section \<open>Objects\<close>

abbreviation HEXAFS_OBJ_MAGIC_BASE :: u32 where "HEXAFS_OBJ_MAGIC_BASE \<equiv> 0x4F424A00"
abbreviation HEXAFS_SNAP_MAGIC :: u32 where "HEXAFS_SNAP_MAGIC \<equiv> 0x534E4150"
abbreviation HEXAFS_ABSTRACT_MAGIC :: u32 where "HEXAFS_ABSTRACT_MAGIC \<equiv> 0x42534241"
abbreviation HEXAFS_FORM :: u8 where "HEXAFS_FORM \<equiv> 1"
abbreviation HEXAFS_CONFIG :: u8 where "HEXAFS_CONFIG \<equiv> 5"
abbreviation HEXAFS_CAPABILITY :: u8 where "HEXAFS_CAPABILITY \<equiv> 7"
abbreviation HEXAFS_EVENT :: u8 where "HEXAFS_EVENT \<equiv> 8"

definition HEXAFS_OBJECT_TYPE :: "u8 \<Rightarrow> u32" where
  "HEXAFS_OBJECT_TYPE t = HEXAFS_OBJ_MAGIC_BASE OR (ucast t AND 0xFF)"

text \<open>Fields of \<^verbatim>\<open>hexafs_object_t\<close>; the four content block numbers are adjacent.\<close>

definition obj_magic :: "bytes \<Rightarrow> u32" where "obj_magic ob = get32 0 ob"
definition obj_type :: "bytes \<Rightarrow> u8" where "obj_type ob = get8 4 ob"
definition obj_size :: "bytes \<Rightarrow> u32" where "obj_size ob = get32 12 ob"
definition obj_block :: "nat \<Rightarrow> bytes \<Rightarrow> u32" where "obj_block i ob = get32 (16 + 4 * i) ob"
definition set_obj_block :: "nat \<Rightarrow> u32 \<Rightarrow> bytes \<Rightarrow> bytes" where "set_obj_block i b ob = put32 (16 + 4 * i) b ob"

definition obj_checksum :: "bytes \<Rightarrow> u32" where
  "obj_checksum ob = hexafs_content_hash (put32 60 0 ob)"

definition obj_magic_ok :: "bytes \<Rightarrow> bool" where
  "obj_magic_ok ob \<longleftrightarrow> obj_magic ob AND 0xFFFFFF00 = HEXAFS_OBJ_MAGIC_BASE"

definition new_object :: "u8 \<Rightarrow> u32 \<Rightarrow> bytes" where
  "new_object type stamp =
     (let ob = put32 56 stamp (put8 4 type (put32 0 (HEXAFS_OBJECT_TYPE type) (zeros 512)))
      in put32 60 (obj_checksum ob) ob)"

definition hexafs_object_alloc :: "u8 \<Rightarrow> 'a kdisk_scheme \<Rightarrow> u32 \<times> 'a kdisk_scheme" where
  "hexafs_object_alloc type s =
     (case hexafs_alloc_block s of (block, s1) \<Rightarrow>
        if block = 0 then (0, s1)
        else case hexafs_block_write block (new_object type (sb_timestamp (sb_cache s1))) s1 of
               (False, s2) \<Rightarrow> (0, hexafs_free_block block s2)
             | (True, s2) \<Rightarrow> (block, s2))"

text \<open>
  The loop over the content blocks: \<open>bs\<close> are the old block numbers still to visit, \<open>i\<close> the index of
  the first, \<open>data\<close> the bytes not yet written.
\<close>

fun object_write_loop :: "nat \<Rightarrow> u32 list \<Rightarrow> bytes \<Rightarrow> bytes \<Rightarrow> 'a kdisk_scheme \<Rightarrow> bytes option \<times> 'a kdisk_scheme" where
  "object_write_loop i [] data ob s = (Some ob, s)"
| "object_write_loop i (b # bs) data ob s =
     (case (if b = 0 then hexafs_alloc_block s else (b, s)) of (db, s1) \<Rightarrow>
        if db = 0 then (None, s1)
        else
          let copy = min HEXAFS_BLOCK_SIZE (length data);
              block_buf = take copy data @ zeros (HEXAFS_BLOCK_SIZE - copy)
          in case hexafs_block_write db block_buf s1 of
               (False, s2) \<Rightarrow> (None, if i > 0 \<and> db \<noteq> b then hexafs_free_block db s2 else s2)
             | (True, s2) \<Rightarrow> object_write_loop (i + 1) bs (drop copy data) (set_obj_block i db ob) s2)"

definition object_nblocks :: "u32 \<Rightarrow> nat" where
  "object_nblocks sz = min 4 (unat (sz + 511) div HEXAFS_BLOCK_SIZE)"

text \<open>\<open>data\<close> are the \<^verbatim>\<open>size\<close> bytes at the pointer.\<close>

definition hexafs_object_write_data :: "u32 \<Rightarrow> bytes \<Rightarrow> 'a kdisk_scheme \<Rightarrow> bool \<times> 'a kdisk_scheme" where
  "hexafs_object_write_data obj_blk data s =
     (case hexafs_block_read obj_blk s of
        (None, s1) \<Rightarrow> (False, s1)
      | (Some ob, s1) \<Rightarrow>
          if \<not> obj_magic_ok ob then (False, s1)
          else
            let ck = obj_checksum ob;
                healed = ck \<noteq> get32 60 ob;
                s2 = (if healed then log_write LOG_LEVEL_WARN (cs ''HEXAFS: object write CRC fail (self-healing)'') s1 else s1);
                ob1 = (if healed then put32 60 ck ob else ob);
                sz = of_nat (length data);
                nblocks = object_nblocks sz
            in case object_write_loop 0 (map (\<lambda>i. obj_block i ob1) [0..<nblocks]) data ob1 s2 of
                 (None, s3) \<Rightarrow> (False, s3)
               | (Some ob2, s3) \<Rightarrow>
                   let ob3 = fold (\<lambda>i. set_obj_block i 0) [nblocks..<4] ob2;
                       ob4 = put32 32 (hexafs_content_hash data) (put32 12 sz ob3);
                       ob5 = put32 60 (obj_checksum ob4) ob4
                   in hexafs_block_write obj_blk ob5 s3)"

fun object_read_loop :: "u32 list \<Rightarrow> nat \<Rightarrow> 'a kdisk_scheme \<Rightarrow> bytes option \<times> 'a kdisk_scheme" where
  "object_read_loop [] remaining s = (Some [], s)"
| "object_read_loop (b # bs) remaining s =
     (if remaining = 0 \<or> b = 0 then (Some [], s)
      else case hexafs_block_read b s of
        (None, s1) \<Rightarrow> (None, s1)
      | (Some buf, s1) \<Rightarrow>
          let copy = min HEXAFS_BLOCK_SIZE remaining
          in case object_read_loop bs (remaining - copy) s1 of
               (None, s2) \<Rightarrow> (None, s2)
             | (Some rest, s2) \<Rightarrow> (Some (take copy buf @ rest), s2))"

text \<open>
  The result on success: the bytes copied to the start of \<^verbatim>\<open>buf\<close>, \<^verbatim>\<open>*size\<close> and \<^verbatim>\<open>*type\<close>.  (The recomputed
  checksum is stored in the local copy only.)
\<close>

definition hexafs_object_read_data ::
    "u32 \<Rightarrow> 'a kdisk_scheme \<Rightarrow> (bytes \<times> u32 \<times> u8) option \<times> 'a kdisk_scheme" where
  "hexafs_object_read_data obj_blk s =
     (case hexafs_block_read obj_blk s of
        (None, s1) \<Rightarrow> (None, s1)
      | (Some ob, s1) \<Rightarrow>
          if \<not> obj_magic_ok ob then (None, s1)
          else if obj_block 0 ob \<noteq> 0 \<and> obj_size ob > 0
          then (case object_read_loop (map (\<lambda>i. obj_block i ob) [0..<4]) (unat (obj_size ob)) s1 of
                  (None, s2) \<Rightarrow> (None, s2)
                | (Some buf, s2) \<Rightarrow> (Some (buf, obj_size ob, obj_type ob), s2))
          else (Some ([], obj_size ob, obj_type ob), s1))"

section \<open>Snapshots\<close>

definition snap_magic :: "bytes \<Rightarrow> u32" where "snap_magic sn = get32 0 sn"
definition snap_parent :: "bytes \<Rightarrow> u32" where "snap_parent sn = get32 4 sn"
definition snap_root :: "bytes \<Rightarrow> u32" where "snap_root sn = get32 8 sn"
definition snap_name :: "bytes \<Rightarrow> bytes" where "snap_name sn = get_bytes 16 32 sn"

definition new_snap :: "bytes \<Rightarrow> u32 \<Rightarrow> u32 \<Rightarrow> u32 \<Rightarrow> bytes" where
  "new_snap name parent stamp root =
     (let sn = put_bytes 16 (name_bytes 32 name)
           (put32 8 root (put32 12 stamp (put32 4 parent (put32 0 HEXAFS_SNAP_MAGIC (zeros 512)))))
      in put32 48 (hexafs_content_hash sn) sn)"

definition hexafs_snap_create :: "bytes \<Rightarrow> 'a kdisk_scheme \<Rightarrow> u32 \<times> 'a kdisk_scheme" where
  "hexafs_snap_create name s =
     (if \<not> tx_active (hexafs_current_tx s) \<or> \<not> tx_dirty (hexafs_current_tx s) then (0, s)
      else case hexafs_alloc_block s of (snap_block, s1) \<Rightarrow>
        if snap_block = 0 then (0, s1)
        else
          let sn = new_snap name (sb_root_snap_block (sb_cache s1)) (sb_timestamp (sb_cache s1))
                     (tx_new_root_block (hexafs_current_tx s1))
          in case hexafs_block_write snap_block sn s1 of
               (False, s2) \<Rightarrow> (0, hexafs_free_block snap_block s2)
             | (True, s2) \<Rightarrow>
                 (snap_block, s2\<lparr>hexafs_current_tx := (hexafs_current_tx s2)\<lparr>tx_snap_block := snap_block\<rparr>,
                                 sb_cache := put32 28 snap_block (sb_cache s2)\<rparr>))"

partial_function (option) snap_find_loop :: "bytes \<Rightarrow> u32 \<Rightarrow> 'a kdisk_scheme \<Rightarrow> (u32 \<times> 'a kdisk_scheme) option" where
  "snap_find_loop name snap_block s =
     (if snap_block = 0 then Some (0, s)
      else case hexafs_block_read snap_block s of
        (None, s1) \<Rightarrow> Some (0, s1)
      | (Some sn, s1) \<Rightarrow>
          if snap_magic sn \<noteq> HEXAFS_SNAP_MAGIC then Some (0, s1)
          else if c_at name 0 \<noteq> 0 \<and> name_match 32 (snap_name sn) name then Some (snap_block, s1)
          else snap_find_loop name (snap_parent sn) s1)"

definition hexafs_snap_find :: "bytes \<Rightarrow> 'a kdisk_scheme \<Rightarrow> (u32 \<times> 'a kdisk_scheme) option" where
  "hexafs_snap_find name s = snap_find_loop name (sb_root_snap_block (sb_cache s)) s"

section \<open>Objects hold their data\<close>

text \<open>An object whose header and content blocks are allocated and do not overlap.\<close>

definition obj_wf :: "u32 \<Rightarrow> 'a kdisk_scheme \<Rightarrow> bool" where
  "obj_wf a s \<longleftrightarrow> used_lba a s \<and> obj_magic_ok (blk s a) \<and>
     (\<forall>i < 4. obj_block i (blk s a) \<noteq> 0 \<longrightarrow> used_lba (obj_block i (blk s a)) s \<and> obj_block i (blk s a) \<noteq> a) \<and>
     (\<forall>i < 4. \<forall>j < 4. obj_block i (blk s a) \<noteq> 0 \<longrightarrow> obj_block i (blk s a) = obj_block j (blk s a) \<longrightarrow> i = j)"

text \<open>The block images of data, zero filled.\<close>

definition chunk :: "bytes \<Rightarrow> bytes" where
  "chunk d = take HEXAFS_BLOCK_SIZE d @ zeros (HEXAFS_BLOCK_SIZE - min HEXAFS_BLOCK_SIZE (length d))"

fun chunks :: "nat \<Rightarrow> bytes \<Rightarrow> bytes list" where
  "chunks 0 d = []"
| "chunks (Suc n) d = chunk d # chunks n (drop HEXAFS_BLOCK_SIZE d)"

fun set_blocks :: "nat \<Rightarrow> u32 list \<Rightarrow> bytes \<Rightarrow> bytes" where
  "set_blocks i [] ob = ob"
| "set_blocks i (b # bs) ob = set_blocks (i + 1) bs (set_obj_block i b ob)"

lemma length_chunk [simp]: "length (chunk d) = HEXAFS_BLOCK_SIZE"
  by (simp add: chunk_def)

lemma chunk_eq:
  "take (min HEXAFS_BLOCK_SIZE (length d)) d @ zeros (HEXAFS_BLOCK_SIZE - min HEXAFS_BLOCK_SIZE (length d)) = chunk d"
  by (simp add: chunk_def min_def)

lemma drop_min: "drop (min n (length d)) d = drop n d"
  by (simp add: min_def)

lemma object_read_loop_chunks:
  assumes "disk_inv s" and "map (blk s) dbs = chunks (length dbs) data" and "\<forall>b \<in> set dbs. valid_lba b"
    and "length data \<le> HEXAFS_BLOCK_SIZE * length dbs" and "\<forall>z \<in> set zs. z = 0"
  shows "\<exists>s'. object_read_loop (dbs @ zs) (length data) s = (Some data, s') \<and> disk_inv s' \<and> blk s' = blk s"
  using assms
proof (induction dbs arbitrary: data s)
  case Nil
  then show ?case by (cases zs) auto
next
  case (Cons b dbs)
  show ?case
  proof (cases "data = []")
    case True
    with Cons.prems(1) show ?thesis by simp
  next
    case False
    have v: "valid_lba b" "b \<noteq> 0" using Cons.prems(3) by (auto simp: valid_lba_def)
    obtain s1 where s1: "hexafs_block_read b s = (Some (blk s b), s1)" "disk_inv s1" "blk s1 = blk s"
      using store.rd_cases [OF Cons.prems(1) v(1)] .
    let ?d = "drop HEXAFS_BLOCK_SIZE data"
    have b: "blk s b = chunk data" and m: "map (blk s1) dbs = chunks (length dbs) ?d"
      using Cons.prems(2) s1(3) by simp_all
    have l: "length data - min HEXAFS_BLOCK_SIZE (length data) = length ?d"
      "length ?d \<le> HEXAFS_BLOCK_SIZE * length dbs" using Cons.prems(4) by auto
    obtain s2 where s2: "object_read_loop (dbs @ zs) (length ?d) s1 = (Some ?d, s2)" "disk_inv s2" "blk s2 = blk s1"
      using Cons.IH [OF s1(2) m _ l(2) Cons.prems(5)] Cons.prems(3) by auto
    have "take (min HEXAFS_BLOCK_SIZE (length data)) (blk s b) @ ?d = data"
      by (simp add: b chunk_def min_def)
    with s1 s2 v(2) False l(1) show ?thesis by (simp add: Let_def)
  qed
qed

text \<open>What the write loop has done when it has visited the blocks \<open>bs\<close> and used \<open>dbs\<close>.\<close>

definition wrote :: "u32 list \<Rightarrow> u32 list \<Rightarrow> bytes \<Rightarrow> 'a kdisk_scheme \<Rightarrow> 'a kdisk_scheme \<Rightarrow> bool" where
  "wrote bs dbs data s s' \<longleftrightarrow> length dbs = length bs \<and> distinct dbs \<and> (\<forall>b \<in> set dbs. used_lba b s' \<and> b \<noteq> 0) \<and>
     map (blk s') dbs = chunks (length bs) data \<and> (\<forall>a. a \<notin> set dbs \<longrightarrow> blk s' a = blk s a) \<and>
     disk_used s \<subseteq> disk_used s' \<and> (\<forall>b \<in> set dbs. b \<in> set bs \<or> unat b \<notin> disk_used s) \<and>
     disk_inv s' \<and> alloc_inv s' \<and> sb_cache s' = sb_cache s \<and> hexafs_current_tx s' = hexafs_current_tx s \<and>
     hexafs_mounted s' = hexafs_mounted s"

lemma write_fields:
  assumes "hexafs_block_write a d s = (ok, s')"
  shows "alloc_inv s' = alloc_inv s" "disk_used s' = disk_used s" "sb_cache s' = sb_cache s"
    "hexafs_current_tx s' = hexafs_current_tx s" "hexafs_mounted s' = hexafs_mounted s" "free_blocks s' = free_blocks s"
    "snap_timestamp s' = snap_timestamp s" "used_lba b s' = used_lba b s"
proof -
  have s': "s' = snd (hexafs_block_write a d s)" by (simp add: assms)
  show "alloc_inv s' = alloc_inv s" "disk_used s' = disk_used s" "sb_cache s' = sb_cache s"
    "hexafs_current_tx s' = hexafs_current_tx s" "hexafs_mounted s' = hexafs_mounted s" "free_blocks s' = free_blocks s"
    "snap_timestamp s' = snap_timestamp s" "used_lba b s' = used_lba b s"
    by (simp_all add: s' alloc_inv_def disk_used_def free_blocks_def used_lba_def)
qed

lemma read_fields:
  assumes "hexafs_block_read a s = (r, s')"
  shows "alloc_inv s' = alloc_inv s" "disk_used s' = disk_used s" "sb_cache s' = sb_cache s"
    "hexafs_current_tx s' = hexafs_current_tx s" "hexafs_mounted s' = hexafs_mounted s" "free_blocks s' = free_blocks s"
    "snap_timestamp s' = snap_timestamp s" "used_lba b s' = used_lba b s"
proof -
  have s': "s' = snd (hexafs_block_read a s)" by (simp add: assms)
  show "alloc_inv s' = alloc_inv s" "disk_used s' = disk_used s" "sb_cache s' = sb_cache s"
    "hexafs_current_tx s' = hexafs_current_tx s" "hexafs_mounted s' = hexafs_mounted s" "free_blocks s' = free_blocks s"
    "snap_timestamp s' = snap_timestamp s" "used_lba b s' = used_lba b s"
    by (simp_all add: s' alloc_inv_def disk_used_def free_blocks_def used_lba_def)
qed

text \<open>The block for one chunk: the old one or a fresh one.\<close>

lemma chunk_block_ok:
  assumes "disk_inv s" and "alloc_inv s" and "Suc n \<le> free_blocks s" and "b \<noteq> 0 \<longrightarrow> used_lba b s"
  obtains db s1 where "(if b = 0 then hexafs_alloc_block s else (b, s)) = (db, s1)" and "db \<noteq> 0" and "used_lba db s1"
    and "db = b \<or> unat db \<notin> disk_used s" and "disk_used s1 = insert (unat db) (disk_used s)"
    and "\<And>a. a \<noteq> db \<Longrightarrow> blk s1 a = blk s a" and "disk_inv s1" and "alloc_inv s1" and "n \<le> free_blocks s1"
    and "sb_cache s1 = sb_cache s" and "hexafs_current_tx s1 = hexafs_current_tx s"
    and "hexafs_mounted s1 = hexafs_mounted s"
proof (cases "b = 0")
  case True
  from assms(1-3) show thesis
  proof (rule alloc_block_ok)
    fix b' s'
    assume "hexafs_alloc_block s = (b', s')" "b' \<noteq> 0" "unat b' \<notin> disk_used s" "used_lba b' s'"
      "disk_used s' = insert (unat b') (disk_used s)" "blk s' = (blk s)(b' := zeros 512)" "disk_inv s'" "alloc_inv s'"
      "n \<le> free_blocks s'" "sb_cache s' = sb_cache s" "hexafs_current_tx s' = hexafs_current_tx s"
      "hexafs_mounted s' = hexafs_mounted s"
    with True show thesis by (intro that [of b' s']) auto
  qed
next
  case False
  with assms show thesis by (intro that [of b s]) (auto simp: used_lba_def)
qed

lemma object_write_loop_ok:
  assumes "disk_inv s" and "alloc_inv s" and "length bs \<le> free_blocks s"
    and "\<forall>b \<in> set bs. b \<noteq> 0 \<longrightarrow> used_lba b s" and "distinct (filter (\<lambda>b. b \<noteq> 0) bs)"
  shows "\<exists>dbs s'. object_write_loop i bs data ob s = (Some (set_blocks i dbs ob), s') \<and> wrote bs dbs data s s'"
  using assms
proof (induction bs arbitrary: i data ob s)
  case Nil
  then show ?case by (intro exI [of _ "[]"] exI [of _ s]) (simp add: wrote_def)
next
  case (Cons b bs)
  have "Suc (length bs) \<le> free_blocks s" and "b \<noteq> 0 \<longrightarrow> used_lba b s" using Cons.prems by simp_all
  from chunk_block_ok [OF Cons.prems(1,2) this]
  obtain db s1 where d: "(if b = 0 then hexafs_alloc_block s else (b, s)) = (db, s1)" "db \<noteq> 0" "used_lba db s1"
    "db = b \<or> unat db \<notin> disk_used s" "disk_used s1 = insert (unat db) (disk_used s)"
    and o: "\<And>a. a \<noteq> db \<Longrightarrow> blk s1 a = blk s a" and s1: "disk_inv s1" "alloc_inv s1" "length bs \<le> free_blocks s1"
    "sb_cache s1 = sb_cache s" "hexafs_current_tx s1 = hexafs_current_tx s" "hexafs_mounted s1 = hexafs_mounted s"
    by metis
  have v: "valid_lba db" "good_block (chunk data)" using d(3) by (simp_all add: used_lba_def good_block_def)
  obtain s2 where s2: "hexafs_block_write db (chunk data) s1 = (True, s2)" "disk_inv s2" "blk s2 = (blk s1)(db := chunk data)"
    using store.wr_cases [OF s1(1) v] .
  note f = write_fields [OF s2(1)]
  have nb: "db \<notin> {x \<in> set bs. x \<noteq> 0}"
  proof
    assume "db \<in> {x \<in> set bs. x \<noteq> 0}"
    then have "db \<in> set bs" "unat db \<in> disk_used s" using Cons.prems(4) d(2) by (auto simp: used_lba_def)
    with d(4) have "db = b" by simp
    with \<open>db \<in> set bs\<close> Cons.prems(5) d(2) show False by auto
  qed
  have ub: "\<forall>x \<in> set bs. x \<noteq> 0 \<longrightarrow> used_lba x s2"
    using Cons.prems(4) d(5) f(2) by (auto simp: used_lba_def)
  have "distinct (filter (\<lambda>b. b \<noteq> 0) bs)" using Cons.prems(5) by (simp split: if_splits)
  from Cons.IH [OF s2(2) f(1) [THEN iffD2, OF s1(2)] _ ub this, of "Suc i" "drop HEXAFS_BLOCK_SIZE data" "set_obj_block i db ob"]
  obtain dbs s' where
    e: "object_write_loop (Suc i) bs (drop HEXAFS_BLOCK_SIZE data) (set_obj_block i db ob) s2 =
         (Some (set_blocks (Suc i) dbs (set_obj_block i db ob)), s')"
    and w: "wrote bs dbs (drop HEXAFS_BLOCK_SIZE data) s2 s'"
    using f(6) s1(3) by auto
  have db: "db \<notin> set dbs"
  proof
    assume a: "db \<in> set dbs"
    then have "db \<in> set bs \<or> unat db \<notin> disk_used s2" using w by (auto simp: wrote_def)
    with f(2) d(5) have "db \<in> set bs" by simp
    with nb d(2) show False by simp
  qed
  have "object_write_loop i (b # bs) data ob s = (Some (set_blocks i (db # dbs) ob), s')"
    using d(1,2) s2(1) e by (simp add: chunk_eq drop_min Let_def)
  moreover have "wrote (b # bs) (db # dbs) data s s'"
    using w db d s2(3) f o s1 unfolding wrote_def by (auto simp: used_lba_def)
  ultimately show ?case by blast
qed

lemma set_blocks_fields:
  assumes "length ob = 512" and "i + length dbs \<le> 4"
  shows "length (set_blocks i dbs ob) = 512"
    and "off + 4 \<le> 16 \<or> 32 \<le> off \<Longrightarrow> get32 off (set_blocks i dbs ob) = get32 off ob"
    and "get8 4 (set_blocks i dbs ob) = get8 4 ob"
    and "j < 4 \<Longrightarrow> obj_block j (set_blocks i dbs ob) = (if i \<le> j \<and> j < i + length dbs then dbs ! (j - i) else obj_block j ob)"
proof -
  have "length (set_blocks i dbs ob) = 512 \<and>
    (\<forall>off. off + 4 \<le> 16 \<or> 32 \<le> off \<longrightarrow> get32 off (set_blocks i dbs ob) = get32 off ob) \<and>
    get8 4 (set_blocks i dbs ob) = get8 4 ob \<and>
    (\<forall>j < 4. obj_block j (set_blocks i dbs ob) = (if i \<le> j \<and> j < i + length dbs then dbs ! (j - i) else obj_block j ob))"
    using assms
  proof (induction dbs arbitrary: i ob)
    case (Cons b dbs)
    let ?ob = "set_obj_block i b ob"
    have l: "length ?ob = 512" using Cons.prems by (simp add: set_obj_block_def bytes_simps)
    have g: "get32 off ?ob = get32 off ob" if "off + 4 \<le> 16 \<or> 32 \<le> off" for off
      using Cons.prems that by (auto simp: set_obj_block_def intro!: get32_put32_other)
    have t: "get8 4 ?ob = get8 4 ob" using Cons.prems by (simp add: set_obj_block_def bytes_simps)
    have b: "obj_block j ?ob = (if j = i then b else obj_block j ob)" if "j < 4" for j
      using Cons.prems that by (cases "j = i") (auto simp: set_obj_block_def obj_block_def bytes_simps intro!: get32_put32_other)
    note ih = Cons.IH [of ?ob "i + 1"]
    from ih l Cons.prems(2) have ih': "length (set_blocks (i + 1) dbs ?ob) = 512"
      "\<And>off. off + 4 \<le> 16 \<or> 32 \<le> off \<Longrightarrow> get32 off (set_blocks (i + 1) dbs ?ob) = get32 off ?ob"
      "get8 4 (set_blocks (i + 1) dbs ?ob) = get8 4 ?ob"
      "\<And>j. j < 4 \<Longrightarrow> obj_block j (set_blocks (i + 1) dbs ?ob) =
        (if i + 1 \<le> j \<and> j < i + 1 + length dbs then dbs ! (j - (i + 1)) else obj_block j ?ob)" by auto
    have "obj_block j (set_blocks i (b # dbs) ob) =
        (if i \<le> j \<and> j < i + length (b # dbs) then (b # dbs) ! (j - i) else obj_block j ob)" if "j < 4" for j
      using ih'(4) [OF that] b [OF that] by (auto simp: nth_Cons')
    then show ?case using ih'(1-3) g t by simp
  qed auto
  then show "length (set_blocks i dbs ob) = 512"
    and "off + 4 \<le> 16 \<or> 32 \<le> off \<Longrightarrow> get32 off (set_blocks i dbs ob) = get32 off ob"
    and "get8 4 (set_blocks i dbs ob) = get8 4 ob"
    and "j < 4 \<Longrightarrow> obj_block j (set_blocks i dbs ob) = (if i \<le> j \<and> j < i + length dbs then dbs ! (j - i) else obj_block j ob)"
    by blast+
qed

lemma fold_clear_blocks: "fold (\<lambda>i. set_obj_block i 0) [n..<m] ob = set_blocks n (replicate (m - n) 0) ob"
proof (induction "m - n" arbitrary: n ob)
  case (Suc k)
  then have "[n..<m] = n # [Suc n..<m]" "m - n = Suc (m - Suc n)" by (auto simp: upt_rec)
  with Suc show ?case by simp
qed simp

lemma set_blocks_append: "set_blocks i (xs @ ys) ob = set_blocks (i + length xs) ys (set_blocks i xs ob)"
  by (induction xs arbitrary: i ob) auto

text \<open>The header that a successful write stores.\<close>

definition sealed_object :: "u32 list \<Rightarrow> bytes \<Rightarrow> bytes \<Rightarrow> bytes" where
  "sealed_object bs data ob =
     (let ob4 = put32 32 (hexafs_content_hash data) (put32 12 (of_nat (length data)) (set_blocks 0 bs ob))
      in put32 60 (obj_checksum ob4) ob4)"

lemma sealed_object_fields:
  assumes "length ob = 512" and "length bs = 4"
  shows "length (sealed_object bs data ob) = 512" and "obj_size (sealed_object bs data ob) = of_nat (length data)"
    and "obj_magic (sealed_object bs data ob) = obj_magic ob" and "obj_type (sealed_object bs data ob) = obj_type ob"
    and "i < 4 \<Longrightarrow> obj_block i (sealed_object bs data ob) = bs ! i"
    and "get32 60 (sealed_object bs data ob) = obj_checksum (sealed_object bs data ob)"
proof -
  let ?s = "set_blocks 0 bs ob"
  have l: "length ?s = 512" using assms by (intro set_blocks_fields(1)) auto
  have m: "get32 0 ?s = get32 0 ob" using assms by (intro set_blocks_fields(2)) auto
  have t: "get8 4 ?s = get8 4 ob" using assms by (intro set_blocks_fields(3)) auto
  show "length (sealed_object bs data ob) = 512" "obj_size (sealed_object bs data ob) = of_nat (length data)"
    "obj_magic (sealed_object bs data ob) = obj_magic ob" "obj_type (sealed_object bs data ob) = obj_type ob"
    "get32 60 (sealed_object bs data ob) = obj_checksum (sealed_object bs data ob)"
    using l m t by (simp_all add: sealed_object_def Let_def obj_size_def obj_magic_def obj_type_def obj_checksum_def bytes_simps)
  assume i: "i < 4"
  have "obj_block i ?s = bs ! i" using set_blocks_fields(4) [OF assms(1), of 0 bs i] assms(2) i by simp
  moreover have "obj_block i (sealed_object bs data ob) = obj_block i ?s"
    using l i by (simp add: sealed_object_def Let_def obj_block_def) (simp add: get32_put32_other bytes_simps)
  ultimately show "obj_block i (sealed_object bs data ob) = bs ! i" by simp
qed

lemma object_nblocks_eq:
  assumes "length d \<le> 2048"
  shows "object_nblocks (of_nat (length d)) = (length d + 511) div 512"
    and "length d \<le> HEXAFS_BLOCK_SIZE * object_nblocks (of_nat (length d))" and "object_nblocks (of_nat (length d)) \<le> 4"
proof -
  have "of_nat (length d) + (511 :: u32) = of_nat (length d + 511)" by simp
  moreover have "unat (of_nat (length d + 511) :: u32) = length d + 511"
    using assms by (intro word_of_nat_less_eq) simp
  ultimately have "unat (of_nat (length d) + 511 :: u32) = length d + 511" by (simp only:)
  then show e: "object_nblocks (of_nat (length d)) = (length d + 511) div 512"
    using assms by (simp add: object_nblocks_def)
  show "length d \<le> HEXAFS_BLOCK_SIZE * object_nblocks (of_nat (length d))" "object_nblocks (of_nat (length d)) \<le> 4"
    using assms by (simp_all add: e)
qed

lemma obj_magic_seal: "length ob = 512 \<Longrightarrow> obj_magic (put32 60 c ob) = obj_magic ob"
    "length ob = 512 \<Longrightarrow> obj_block i (put32 60 c ob) = obj_block i ob" if "i < 4"
  using that by (auto simp: obj_magic_def obj_block_def bytes_simps intro!: get32_put32_other)

text \<open>A write of at most 2048 bytes, with room for the blocks it may need.\<close>

lemma object_write_ok:
  assumes inv: "disk_inv s" "alloc_inv s" and wf: "obj_wf a s" and len: "length data \<le> 2048"
    and room: "4 \<le> free_blocks s"
  obtains s' bs ob t where "hexafs_object_write_data a data s = (True, s')" and "disk_inv s'" and "alloc_inv s'"
    and "length bs = 4" and "length ob = 512" and "obj_magic ob = obj_magic (blk s a)" and "obj_type ob = obj_type (blk s a)"
    and "blk s' a = sealed_object bs data ob"
    and "\<exists>n dbs. bs = dbs @ replicate (4 - n) 0 \<and> length dbs = n \<and> n = object_nblocks (of_nat (length data)) \<and>
          a \<notin> set dbs \<and> wrote (map (\<lambda>i. obj_block i (blk s a)) [0..<n]) dbs data s t"
    and "disk_used s' = disk_used t" and "blk s' = (blk t)(a := sealed_object bs data ob)"
    and "sb_cache s' = sb_cache s" and "hexafs_current_tx s' = hexafs_current_tx s" and "hexafs_mounted s' = hexafs_mounted s"
proof -
  let ?ob = "blk s a" and ?n = "object_nblocks (of_nat (length data))"
  have va: "valid_lba a" using wf by (simp add: obj_wf_def used_lba_def)
  have l: "length ?ob = 512" using inv(1) by (simp add: disk_inv_def)
  have n: "?n \<le> 4" using object_nblocks_eq(3) [OF len] .
  obtain s1 where s1: "hexafs_block_read a s = (Some ?ob, s1)" "disk_inv s1" "blk s1 = blk s"
    using store.rd_cases [OF inv(1) va] .
  note f1 = read_fields [OF s1(1)]
  define ob1 where "ob1 = (if obj_checksum ?ob \<noteq> get32 60 ?ob then put32 60 (obj_checksum ?ob) ?ob else ?ob)"
  define s2 where "s2 = (if obj_checksum ?ob \<noteq> get32 60 ?ob
    then log_write LOG_LEVEL_WARN (cs ''HEXAFS: object write CRC fail (self-healing)'') s1 else s1)"
  have ob1: "length ob1 = 512" "obj_magic ob1 = obj_magic ?ob" "obj_type ob1 = obj_type ?ob"
    using l by (simp_all add: ob1_def obj_magic_def obj_type_def bytes_simps)
  have bl: "map (\<lambda>i. obj_block i ob1) [0..<?n] = map (\<lambda>i. obj_block i ?ob) [0..<?n]"
    using n l obj_magic_seal(2) [OF _ l] by (auto simp: ob1_def)
  have s2: "disk_inv s2" "alloc_inv s2" "blk s2 = blk s" "disk_used s2 = disk_used s" "free_blocks s2 = free_blocks s"
    "sb_cache s2 = sb_cache s" "hexafs_current_tx s2 = hexafs_current_tx s" "hexafs_mounted s2 = hexafs_mounted s"
    using s1 f1 inv(2) by (simp_all add: s2_def alloc_inv_def disk_used_def free_blocks_def)
  let ?bs = "map (\<lambda>i. obj_block i ?ob) [0..<?n]"
  have ub: "\<forall>b \<in> set ?bs. b \<noteq> 0 \<longrightarrow> used_lba b s2" using wf n s2(4) by (auto simp: obj_wf_def used_lba_def)
  have di: "distinct (filter (\<lambda>b. b \<noteq> 0) ?bs)"
    using wf n by (auto simp: obj_wf_def distinct_map filter_map inj_on_def)
  have "length ?bs \<le> free_blocks s2" using room n s2(5) by simp
  from object_write_loop_ok [OF s2(1,2) this ub di, of 0 data ob1]
  obtain dbs t where t: "object_write_loop 0 ?bs data ob1 s2 = (Some (set_blocks 0 dbs ob1), t)"
    and w2: "wrote ?bs dbs data s2 t" by blast
  have w: "wrote ?bs dbs data s t" using w2 s2(3,4,6-8) by (simp add: wrote_def)
  have ld: "length dbs = ?n" using w by (simp add: wrote_def)
  have na: "a \<notin> set dbs"
  proof
    assume "a \<in> set dbs"
    then have x: "a \<in> set ?bs \<or> unat a \<notin> disk_used s" using w by (auto simp: wrote_def)
    have "a \<noteq> 0" "unat a \<in> disk_used s" using wf by (auto simp: obj_wf_def used_lba_def valid_lba_def)
    with x obtain k where k: "k < ?n" "obj_block k ?ob = a" by auto
    then have "k < 4" using n by simp
    then have "obj_block k ?ob \<noteq> 0 \<longrightarrow> obj_block k ?ob \<noteq> a" using wf by (simp add: obj_wf_def)
    then show False using k(2) \<open>a \<noteq> 0\<close> by simp
  qed
  define bs where "bs = dbs @ replicate (4 - ?n) 0"
  have lb: "length bs = 4" using ld n by (simp add: bs_def)
  let ?so = "sealed_object bs data ob1"
  have fo: "fold (\<lambda>i. set_obj_block i 0) [?n..<4] (set_blocks 0 dbs ob1) = set_blocks 0 bs ob1"
    by (simp add: fold_clear_blocks bs_def set_blocks_append ld)
  have g: "good_block ?so" using sealed_object_fields(1) [OF ob1(1) lb] by (simp add: good_block_def)
  have it: "disk_inv t" "alloc_inv t" using w by (simp_all add: wrote_def)
  obtain s' where s': "hexafs_block_write a ?so t = (True, s')" "disk_inv s'" "blk s' = (blk t)(a := ?so)"
    using store.wr_cases [OF it(1) va g] .
  note f' = write_fields [OF s'(1)]
  have ok: "obj_magic_ok ?ob" using wf by (simp add: obj_wf_def)
  have wd: "hexafs_object_write_data a data s = (True, s')"
    using s1(1) ok s'(1) [unfolded sealed_object_def Let_def]
    by (simp add: hexafs_object_write_data_def Let_def ob1_def [symmetric] s2_def [symmetric] bl t fo)
  have ex: "\<exists>n dbs. bs = dbs @ replicate (4 - n) 0 \<and> length dbs = n \<and> n = ?n \<and> a \<notin> set dbs \<and>
      wrote (map (\<lambda>i. obj_block i ?ob) [0..<n]) dbs data s t"
    using w ld na bs_def by blast
  have ff: "sb_cache s' = sb_cache s" "hexafs_current_tx s' = hexafs_current_tx s" "hexafs_mounted s' = hexafs_mounted s"
    using f' w by (simp_all add: wrote_def)
  show thesis
    by (rule that [OF wd s'(2) _ lb ob1 _ ex f'(2) s'(3) ff]) (use f'(1) it(2) s'(3) in simp_all)
qed

text \<open>Reading an object whose header lists the blocks that hold the data.\<close>

lemma object_read_sealed:
  assumes inv: "disk_inv v" and va: "valid_lba a" and ob: "blk v a = sealed_object (dbs @ replicate (4 - length dbs) 0) data ob"
    and l: "length ob = 512" and mg: "obj_magic_ok ob" and m: "map (blk v) dbs = chunks (length dbs) data"
    and vd: "\<forall>b \<in> set dbs. valid_lba b \<and> b \<noteq> 0" and n: "length dbs \<le> 4"
    and len: "length data \<le> HEXAFS_BLOCK_SIZE * length dbs" "length data \<le> 2048"
  shows "\<exists>v'. hexafs_object_read_data a v = (Some (data, of_nat (length data), obj_type ob), v') \<and>
    disk_inv v' \<and> blk v' = blk v"
proof -
  let ?bs = "dbs @ replicate (4 - length dbs) 0"
  let ?ob = "sealed_object ?bs data ob"
  have lb: "length ?bs = 4" using n by simp
  note so = sealed_object_fields [OF l lb]
  obtain v1 where v1: "hexafs_block_read a v = (Some (blk v a), v1)" "disk_inv v1" "blk v1 = blk v"
    using store.rd_cases [OF inv va] .
  have mg': "obj_magic_ok ?ob" using mg so(3) by (simp add: obj_magic_ok_def)
  have sz: "unat (obj_size ?ob) = length data" using len(2) so(2) by (simp add: word_of_nat_less_eq)
  obtain v2 where v2: "object_read_loop ?bs (length data) v1 = (Some data, v2)" "disk_inv v2" "blk v2 = blk v1"
    using object_read_loop_chunks [OF v1(2), of dbs data "replicate (4 - length dbs) 0"] m v1(3) vd len(1) by auto
  have bl: "map (\<lambda>i. obj_block i ?ob) [0..<4] = ?bs" using so(5) lb by (auto intro: nth_equalityI)
  show ?thesis
  proof (cases "obj_block 0 ?ob \<noteq> 0 \<and> obj_size ?ob > 0")
    case True
    then show ?thesis using v1 v2 ob mg' sz bl so(2,4) by (simp add: hexafs_object_read_data_def)
  next
    case False
    have "data = []"
    proof (rule ccontr)
      assume "data \<noteq> []"
      then have "dbs \<noteq> []" "obj_size ?ob > 0" using len(1) sz by (auto simp: word_less_nat_alt intro: gr0I)
      moreover from this have "obj_block 0 ?ob = dbs ! 0" using so(5) by (simp add: nth_append)
      ultimately show False using False vd by auto
    qed
    with False show ?thesis using v1 ob mg' so(2,4) by (auto simp: hexafs_object_read_data_def)
  qed
qed

text \<open>After the write the object is well formed again and reads back.\<close>

lemma object_written:
  fixes s :: "'a kdisk_scheme"
  assumes "disk_inv s" and "alloc_inv s" and "obj_wf a s" and "length data \<le> 2048" and "4 \<le> free_blocks s"
  obtains s' where "hexafs_object_write_data a data s = (True, s')" and "disk_inv s'" and "alloc_inv s'"
    and "obj_wf a s'" and "disk_used s \<subseteq> disk_used s'"
    and "\<forall>b. b \<noteq> a \<and> used_lba b s \<and> (\<forall>i < 4. b \<noteq> obj_block i (blk s a)) \<longrightarrow> blk s' b = blk s b"
    and "\<forall>u :: 'a kdisk_scheme. disk_inv u \<and> (\<forall>b. used_lba b s' \<longrightarrow> blk u b = blk s' b) \<longrightarrow> (\<exists>u'. hexafs_object_read_data a u =
          (Some (data, of_nat (length data), obj_type (blk s a)), u') \<and> disk_inv u' \<and> blk u' = blk u)"
    and "sb_cache s' = sb_cache s" and "hexafs_current_tx s' = hexafs_current_tx s" and "hexafs_mounted s' = hexafs_mounted s"
proof -
  obtain s' bs ob t where w: "hexafs_object_write_data a data s = (True, s')" "disk_inv s'" "alloc_inv s'"
    "length bs = 4" "length ob = 512" "obj_magic ob = obj_magic (blk s a)" "obj_type ob = obj_type (blk s a)"
    "blk s' a = sealed_object bs data ob"
    and ex: "\<exists>n dbs. bs = dbs @ replicate (4 - n) 0 \<and> length dbs = n \<and> n = object_nblocks (of_nat (length data)) \<and>
          a \<notin> set dbs \<and> wrote (map (\<lambda>i. obj_block i (blk s a)) [0..<n]) dbs data s t"
    and u: "disk_used s' = disk_used t" "blk s' = (blk t)(a := sealed_object bs data ob)"
    and fr: "sb_cache s' = sb_cache s" "hexafs_current_tx s' = hexafs_current_tx s" "hexafs_mounted s' = hexafs_mounted s"
    by (rule object_write_ok [OF assms])
  obtain n dbs where n: "bs = dbs @ replicate (4 - n) 0" "length dbs = n" "n = object_nblocks (of_nat (length data))"
    "a \<notin> set dbs" and wr: "wrote (map (\<lambda>i. obj_block i (blk s a)) [0..<n]) dbs data s t" using ex by blast
  note so = sealed_object_fields [OF w(5,4)]
  have n4: "n \<le> 4" "length data \<le> HEXAFS_BLOCK_SIZE * n" using object_nblocks_eq [OF assms(4)] n(3) by simp_all
  have va: "valid_lba a" "unat a \<in> disk_used s" "HEXAFS_OBJECT_LBA \<le> unat a" using assms(3) by (simp_all add: obj_wf_def used_lba_def)
  have nth: "bs ! i = (if i < n then dbs ! i else 0)" if "i < 4" for i
    using that n by (simp add: nth_append)
  have "used_lba (bs ! i) s' \<and> bs ! i \<noteq> a" if "i < 4" "bs ! i \<noteq> 0" for i
  proof -
    from that nth have "bs ! i \<in> set dbs" using n(2) by (auto split: if_splits)
    then show ?thesis using wr n(4) u(1) by (auto simp: wrote_def used_lba_def)
  qed
  moreover have "i = j" if ij: "i < 4" "j < 4" "bs ! i \<noteq> 0" "bs ! i = bs ! j" for i j
  proof -
    from ij nth have "i < n" "j < n" "dbs ! i = dbs ! j" by (auto split: if_splits)
    then show ?thesis using wr n(2) by (simp add: wrote_def nth_eq_iff_index_eq)
  qed
  moreover have "used_lba a s'" using va wr u(1) by (auto simp: wrote_def used_lba_def)
  moreover have "obj_magic_ok (blk s' a)"
    using assms(3) w(6,8) so(3) by (simp add: obj_magic_ok_def obj_wf_def)
  ultimately have wf': "obj_wf a s'" using w(8) so(5) by (simp add: obj_wf_def)
  have oth: "blk s' b = blk s b" if b: "b \<noteq> a" "used_lba b s" "\<forall>i < 4. b \<noteq> obj_block i (blk s a)" for b
  proof -
    have "b \<notin> set dbs"
    proof
      assume "b \<in> set dbs"
      then have "b \<in> set (map (\<lambda>i. obj_block i (blk s a)) [0..<n]) \<or> unat b \<notin> disk_used s"
        using wr unfolding wrote_def by blast
      then obtain i where "i < n" "b = obj_block i (blk s a)" using b(2) by (auto simp: used_lba_def)
      then show False using b(3) n4(1) by auto
    qed
    then show ?thesis using wr u(2) b(1) by (simp add: wrote_def)
  qed
  have ma: "map (blk t) dbs = chunks (length dbs) data" "\<forall>b \<in> set dbs. valid_lba b \<and> b \<noteq> 0"
    and sub: "disk_used s \<subseteq> disk_used s'"
    using wr u(1) n(2) by (auto simp: wrote_def used_lba_def)
  have rd: "\<exists>v'. hexafs_object_read_data a v = (Some (data, of_nat (length data), obj_type (blk s a)), v') \<and>
      disk_inv v' \<and> blk v' = blk v" if v: "disk_inv v" "\<forall>b. used_lba b s' \<longrightarrow> blk v b = blk s' b" for v :: "'a kdisk_scheme"
  proof -
    have "blk v b = blk t b" if "b \<in> set dbs" for b
      using that v(2) u wr n(4) by (metis fun_upd_other wrote_def used_lba_def)
    then have "map (blk v) dbs = chunks (length dbs) data" using ma(1) by (metis map_cong)
    moreover have "blk v a = sealed_object (dbs @ replicate (4 - length dbs) 0) data ob" "length dbs \<le> 4"
      "length data \<le> HEXAFS_BLOCK_SIZE * length dbs" using v(2) wf' w(8) n n4 by (simp_all add: obj_wf_def)
    moreover have "obj_magic_ok ob" using assms(3) w(6) by (simp add: obj_magic_ok_def obj_wf_def)
    ultimately show ?thesis
      using object_read_sealed [OF v(1) va(1) _ w(5), of dbs data] ma(2) assms(4) w(7) by simp
  qed
  show thesis by (rule that [OF w(1-3) wf' sub _ _ fr]) (use oth rd in blast)+
qed

lemma object_type_magic: "HEXAFS_OBJECT_TYPE t AND 0xFFFFFF00 = HEXAFS_OBJ_MAGIC_BASE"
  by (simp add: HEXAFS_OBJECT_TYPE_def bit.conj_disj_distrib2 and.assoc)

lemma new_object_fields:
  "length (new_object ty ts) = 512" "obj_magic_ok (new_object ty ts)" "obj_type (new_object ty ts) = ty"
  "i < 4 \<Longrightarrow> obj_block i (new_object ty ts) = 0"
  by (simp_all add: new_object_def Let_def obj_magic_ok_def obj_magic_def obj_type_def obj_block_def object_type_magic bytes_simps)

lemma object_alloc_ok:
  assumes "disk_inv s" and "alloc_inv s" and "Suc n \<le> free_blocks s"
  obtains b s' where "hexafs_object_alloc ty s = (b, s')" and "b \<noteq> 0" and "disk_inv s'" and "alloc_inv s'"
    and "obj_wf b s'" and "obj_type (blk s' b) = ty" and "n \<le> free_blocks s'" and "unat b \<notin> disk_used s"
    and "disk_used s' = insert (unat b) (disk_used s)" and "\<forall>a. a \<noteq> b \<longrightarrow> blk s' a = blk s a"
    and "sb_cache s' = sb_cache s" and "hexafs_current_tx s' = hexafs_current_tx s" and "hexafs_mounted s' = hexafs_mounted s"
proof -
  obtain b s1 where a: "hexafs_alloc_block s = (b, s1)" "b \<noteq> 0" "valid_lba b" "unat b \<notin> disk_used s"
    "disk_used s1 = insert (unat b) (disk_used s)" "blk s1 = (blk s)(b := zeros 512)" "disk_inv s1" "alloc_inv s1"
    "n \<le> free_blocks s1" "used_lba b s1" "sb_cache s1 = sb_cache s" "hexafs_current_tx s1 = hexafs_current_tx s"
    "hexafs_mounted s1 = hexafs_mounted s" "HEXAFS_OBJECT_LBA \<le> unat b"
    by (rule alloc_block_ok [OF assms])
  let ?o = "new_object ty (sb_timestamp (sb_cache s1))"
  have "good_block ?o" by (simp add: good_block_def new_object_fields)
  then obtain s' where s': "hexafs_block_write b ?o s1 = (True, s')" "disk_inv s'" "blk s' = (blk s1)(b := ?o)"
    using store.wr_cases [OF a(7,3)] by blast
  note f = write_fields [OF s'(1)]
  have "hexafs_object_alloc ty s = (b, s')" using a(1,2) s'(1) by (simp add: hexafs_object_alloc_def)
  moreover have "obj_wf b s'" using s'(3) f(8) a(10) by (simp add: obj_wf_def new_object_fields)
  ultimately show thesis
    using that [of b s'] a s'(2,3) f by (simp add: new_object_fields)
qed

text \<open>
  C14: objects hold their data.  Writing at most 2048 bytes to a well-formed object succeeds when four
  blocks are free; reading the object then delivers exactly those bytes, their number and the type of
  the object, also for a later kernel on the same drive; the object stays well formed, and no allocated
  block that is neither its header nor one of its content blocks changes.
\<close>

theorem object_data_roundtrip:
  fixes s s' r :: "'a kdisk_scheme"
  assumes "disk_inv s" and "alloc_inv s" and "obj_wf a s" and "length data \<le> 2048" and "4 \<le> free_blocks s"
    and "hexafs_object_write_data a data s = (ok, s')"
  shows "ok \<and> disk_inv s' \<and> alloc_inv s' \<and> obj_wf a s' \<and>
    fst (hexafs_object_read_data a s') = Some (data, of_nat (length data), obj_type (blk s a)) \<and>
    (rebooted s' r \<longrightarrow> fst (hexafs_object_read_data a (r\<lparr>block_cache := replicate HEXAFS_CACHE_SLOTS empty_slot\<rparr>)) =
       Some (data, of_nat (length data), obj_type (blk s a))) \<and>
    (\<forall>b. b \<noteq> a \<and> used_lba b s \<and> (\<forall>i < 4. b \<noteq> obj_block i (blk s a)) \<longrightarrow> blk s' b = blk s b)"
proof -
  from assms(1-5) obtain t where t: "hexafs_object_write_data a data s = (True, t)" "disk_inv t" "alloc_inv t" "obj_wf a t"
      "disk_used s \<subseteq> disk_used t"
    and oth: "\<forall>b. b \<noteq> a \<and> used_lba b s \<and> (\<forall>i < 4. b \<noteq> obj_block i (blk s a)) \<longrightarrow> blk t b = blk s b"
    and rd: "\<forall>u :: 'a kdisk_scheme. disk_inv u \<and> (\<forall>b. used_lba b t \<longrightarrow> blk u b = blk t b) \<longrightarrow> (\<exists>u'. hexafs_object_read_data a u =
          (Some (data, of_nat (length data), obj_type (blk s a)), u') \<and> disk_inv u' \<and> blk u' = blk u)"
    and "sb_cache t = sb_cache s" and "hexafs_current_tx t = hexafs_current_tx s" and "hexafs_mounted t = hexafs_mounted s"
    by (rule object_written)
  have e: "ok" "s' = t" using t(1) assms(6) by simp_all
  have "fst (hexafs_object_read_data a t) = Some (data, of_nat (length data), obj_type (blk s a))"
    using rd t(2) by force
  moreover have "fst (hexafs_object_read_data a (r\<lparr>block_cache := replicate HEXAFS_CACHE_SLOTS empty_slot\<rparr>)) =
      Some (data, of_nat (length data), obj_type (blk s a))" if "rebooted t r"
    using rd rebooted_inv [OF t(2) that] by force
  ultimately show ?thesis using e t oth by simp
qed

lemma bss_free_blocks: "free_blocks bss_kdisk = 3987"
  by (simp add: free_blocks_def bss_disk_used)

theorem object_data_roundtrip_witness:
  "\<exists>b s. hexafs_object_alloc HEXAFS_FORM bss_kdisk = (b, s) \<and> b \<noteq> 0 \<and>
     fst (hexafs_object_read_data b (snd (hexafs_object_write_data b (replicate 700 9) s))) =
       Some (replicate 700 9, 700, HEXAFS_FORM)"
proof -
  have "Suc 4 \<le> free_blocks bss_kdisk" by (simp add: bss_free_blocks)
  then obtain b s where a: "hexafs_object_alloc HEXAFS_FORM bss_kdisk = (b, s)" "b \<noteq> 0" "disk_inv s" "alloc_inv s"
    "obj_wf b s" "obj_type (blk s b) = HEXAFS_FORM" "4 \<le> free_blocks s" "unat b \<notin> disk_used bss_kdisk"
    "disk_used s = insert (unat b) (disk_used bss_kdisk)" and "\<forall>a. a \<noteq> b \<longrightarrow> blk s a = blk bss_kdisk a"
    and "sb_cache s = sb_cache bss_kdisk" and "hexafs_current_tx s = hexafs_current_tx bss_kdisk"
    and "hexafs_mounted s = hexafs_mounted bss_kdisk"
    by (rule object_alloc_ok [OF bss_disk_inv bss_alloc_inv, where ty = HEXAFS_FORM])
  have "length (replicate 700 (9 :: u8)) \<le> 2048" by simp
  from object_data_roundtrip [OF a(3-5) this a(7) prod.collapse [symmetric]] a show ?thesis by auto
qed

end
