(* ===== verification/Hexa_Abstraction.thy ===== *)
theory Hexa_Abstraction
  imports Hexa_Object
begin

text \<open>
  Abstractions, the directories of the form store (\<^verbatim>\<open>hexafs_disk.c\<close>): a block with up to eleven named
  entries and the number of a continuation block.  The interface is the locale \<open>name_dir\<close>, an
  association list with first-match lookup; the operations on a single block implement it.  Chains
  may be cyclic on a damaged drive, so the walks are partial functions, \<open>None\<close> meaning no return.
\<close>

section \<open>Abstractions\<close>

abbreviation HEXAFS_ABS_MAX_ENTRIES :: u32 where "HEXAFS_ABS_MAX_ENTRIES \<equiv> 11"

text \<open>
  Fields of \<^verbatim>\<open>hexafs_abs_header_t\<close>.  Entry \<open>i\<close> starts at offset \<open>12 + 44 * i\<close>; the first four padding
  bytes hold the number of the next block of the chain.  (A count above 11 only occurs on a damaged
  block; the code then reads past the block, the model reads NUL bytes.)
\<close>

definition abs_magic :: "bytes \<Rightarrow> u32" where "abs_magic b = get32 0 b"
definition abs_count :: "bytes \<Rightarrow> u32" where "abs_count b = get32 4 b"
definition abs_chain :: "bytes \<Rightarrow> u32" where "abs_chain b = get32 496 b"
definition entry_name :: "nat \<Rightarrow> bytes \<Rightarrow> bytes" where "entry_name i b = get_bytes (12 + 44 * i) 32 b"
definition entry_object :: "nat \<Rightarrow> bytes \<Rightarrow> u32" where "entry_object i b = get32 (44 + 44 * i) b"
definition entry_type :: "nat \<Rightarrow> bytes \<Rightarrow> u8" where "entry_type i b = c_at b (48 + 44 * i)"

definition abs_checksum :: "bytes \<Rightarrow> u32" where
  "abs_checksum b = hexafs_content_hash (put32 8 0 b)"

definition abs_seal :: "bytes \<Rightarrow> bytes" where
  "abs_seal b = put32 8 (abs_checksum b) b"

definition new_abstraction :: bytes where
  "new_abstraction = abs_seal (put32 4 0 (put32 0 HEXAFS_ABSTRACT_MAGIC (zeros 512)))"

definition hexafs_abstraction_create :: "'a kdisk_scheme \<Rightarrow> u32 \<times> 'a kdisk_scheme" where
  "hexafs_abstraction_create s =
     (case hexafs_alloc_block s of (block, s1) \<Rightarrow>
        if block = 0 then (0, s1)
        else case hexafs_block_write block new_abstraction s1 of
               (False, s2) \<Rightarrow> (0, hexafs_free_block block s2)
             | (True, s2) \<Rightarrow> (block, s2))"

definition hexafs_abstraction_next_chain :: "u32 \<Rightarrow> 'a kdisk_scheme \<Rightarrow> u32 \<times> 'a kdisk_scheme" where
  "hexafs_abstraction_next_chain abs_block s =
     (case hexafs_block_read abs_block s of (None, s1) \<Rightarrow> (0, s1) | (Some b, s1) \<Rightarrow> (abs_chain b, s1))"

definition hexafs_abstraction_set_chain :: "u32 \<Rightarrow> u32 \<Rightarrow> 'a kdisk_scheme \<Rightarrow> 'a kdisk_scheme" where
  "hexafs_abstraction_set_chain abs_block next_block s =
     (case hexafs_block_read abs_block s of
        (None, s1) \<Rightarrow> s1
      | (Some b, s1) \<Rightarrow> snd (hexafs_block_write abs_block (put32 496 next_block b) s1))"

text \<open>Filling entry \<open>i\<close>, setting the count to \<open>i + 1\<close> and the checksum.\<close>

definition abs_put_entry :: "nat \<Rightarrow> bytes \<Rightarrow> u32 \<Rightarrow> u8 \<Rightarrow> bytes \<Rightarrow> bytes" where
  "abs_put_entry i name ob ty b =
     (let b = put_bytes (12 + 44 * i) (name_bytes 32 name) b;
          b = put32 (44 + 44 * i) ob b;
          b = put8 (48 + 44 * i) ty b
      in abs_seal (put32 4 (of_nat (i + 1)) b))"

text \<open>
  The walk to the first block with room: \<open>Inl\<close> is a \<^verbatim>\<open>return\<close> from inside the loop, \<open>Inr cur\<close> leaving
  the loop at block \<open>cur\<close>.
\<close>

partial_function (option) abs_add_loop ::
    "bytes \<Rightarrow> u32 \<Rightarrow> u8 \<Rightarrow> u32 \<Rightarrow> 'a kdisk_scheme \<Rightarrow> ((bool + u32) \<times> 'a kdisk_scheme) option" where
  "abs_add_loop name ob ty cur s =
     (if cur = 0 then Some (Inr 0, s)
      else case hexafs_block_read cur s of
        (None, s1) \<Rightarrow> Some (Inl False, s1)
      | (Some b, s1) \<Rightarrow>
          if abs_checksum b \<noteq> get32 8 b
          then Some (Inl False, log_write LOG_LEVEL_WARN (cs ''HEXAFS: abstraction CRC fail'') s1)
          else if abs_magic b \<noteq> HEXAFS_ABSTRACT_MAGIC then Some (Inl False, s1)
          else if abs_count b < HEXAFS_ABS_MAX_ENTRIES
          then Some (case hexafs_block_write cur (abs_put_entry (unat (abs_count b)) name ob ty b) s1 of
                       (ok, s2) \<Rightarrow> (Inl ok, s2))
          else case hexafs_abstraction_next_chain cur s1 of (nxt, s2) \<Rightarrow>
            if nxt = 0 then Some (Inr cur, s2) else abs_add_loop name ob ty nxt s2)"

definition hexafs_abstraction_add_entry ::
    "u32 \<Rightarrow> bytes \<Rightarrow> u32 \<Rightarrow> u8 \<Rightarrow> 'a kdisk_scheme \<Rightarrow> (bool \<times> 'a kdisk_scheme) option" where
  "hexafs_abstraction_add_entry abs_block name ob ty s =
     (case abs_add_loop name ob ty abs_block s of
        None \<Rightarrow> None
      | Some (Inl ok, s1) \<Rightarrow> Some (ok, s1)
      | Some (Inr cur, s1) \<Rightarrow> Some
          (case hexafs_abstraction_create s1 of (new_block, s2) \<Rightarrow>
             if new_block = 0 then (False, s2)
             else case hexafs_block_read new_block (hexafs_abstraction_set_chain cur new_block s2) of
               (None, s3) \<Rightarrow> (False, s3)
             | (Some b, s3) \<Rightarrow> hexafs_block_write new_block (abs_put_entry 0 name ob ty b) s3))"

definition abs_find_entry :: "bytes \<Rightarrow> bytes \<Rightarrow> nat option" where
  "abs_find_entry name b = find (\<lambda>i. name_match 32 (entry_name i b) name) [0..<nat (to_int (abs_count b))]"

partial_function (option) hexafs_abstraction_find ::
    "u32 \<Rightarrow> bytes \<Rightarrow> 'a kdisk_scheme \<Rightarrow> ((u32 \<times> u8) option \<times> 'a kdisk_scheme) option" where
  "hexafs_abstraction_find cur name s =
     (if cur = 0 then Some (None, s)
      else case hexafs_block_read cur s of
        (None, s1) \<Rightarrow> Some (None, s1)
      | (Some b, s1) \<Rightarrow>
          if abs_magic b \<noteq> HEXAFS_ABSTRACT_MAGIC then Some (None, s1)
          else case abs_find_entry name b of
            Some i \<Rightarrow> Some (Some (entry_object i b, entry_type i b), s1)
          | None \<Rightarrow> (case hexafs_abstraction_next_chain cur s1 of (nxt, s2) \<Rightarrow> hexafs_abstraction_find nxt name s2))"

definition abs_shift :: "nat \<Rightarrow> nat \<Rightarrow> bytes \<Rightarrow> bytes" where
  "abs_shift found n b =
     fold (\<lambda>i b. put_bytes (12 + 44 * i) (get_bytes (12 + 44 * (i + 1)) 44 b) b) [found..<n - 1] b"

definition abs_drop_entry :: "nat \<Rightarrow> bytes \<Rightarrow> bytes" where
  "abs_drop_entry found b =
     abs_seal (put32 4 (abs_count b - 1) (abs_shift found (nat (to_int (abs_count b))) b))"

partial_function (option) hexafs_abstraction_remove_entry ::
    "u32 \<Rightarrow> bytes \<Rightarrow> 'a kdisk_scheme \<Rightarrow> (bool \<times> 'a kdisk_scheme) option" where
  "hexafs_abstraction_remove_entry cur name s =
     (if cur = 0 then Some (False, s)
      else case hexafs_block_read cur s of
        (None, s1) \<Rightarrow> Some (False, s1)
      | (Some b, s1) \<Rightarrow>
          if abs_checksum b \<noteq> get32 8 b then Some (False, s1)
          else if abs_magic b \<noteq> HEXAFS_ABSTRACT_MAGIC then Some (False, s1)
          else case abs_find_entry name b of
            Some i \<Rightarrow> Some (hexafs_block_write cur (abs_drop_entry i b) s1)
          | None \<Rightarrow> (case hexafs_abstraction_next_chain cur s1 of (nxt, s2) \<Rightarrow>
                      hexafs_abstraction_remove_entry nxt name s2))"

text \<open>The callback is a parameter: a state transformer called for every entry in order.\<close>

partial_function (option) abs_list_loop ::
    "(bytes \<Rightarrow> u32 \<Rightarrow> u8 \<Rightarrow> 'a kdisk_scheme \<Rightarrow> 'a kdisk_scheme) \<Rightarrow> u32 \<Rightarrow> nat \<Rightarrow> 'a kdisk_scheme \<Rightarrow>
       (nat \<times> 'a kdisk_scheme) option" where
  "abs_list_loop cb cur cnt s =
     (if cur = 0 then Some (cnt, s)
      else case hexafs_block_read cur s of
        (None, s1) \<Rightarrow> Some (cnt, s1)
      | (Some b, s1) \<Rightarrow>
          if abs_magic b \<noteq> HEXAFS_ABSTRACT_MAGIC then Some (cnt, s1)
          else
            let n = nat (to_int (abs_count b));
                s2 = fold (\<lambda>i. cb (entry_name i b) (entry_object i b) (entry_type i b)) [0..<n] s1
            in case hexafs_abstraction_next_chain cur s2 of (nxt, s3) \<Rightarrow> abs_list_loop cb nxt (cnt + n) s3)"

definition hexafs_abstraction_list where
  "hexafs_abstraction_list abs_block cb s = abs_list_loop cb abs_block 0 s"

section \<open>The interface of a directory\<close>

fun del1 :: "'n \<Rightarrow> ('n \<times> 'v) list \<Rightarrow> ('n \<times> 'v) list" where
  "del1 n [] = []"
| "del1 n (e # es) = (if fst e = n then es else e # del1 n es)"

lemma del1_absent: "n \<notin> fst ` set es \<Longrightarrow> del1 n es = es"
  by (induction es) auto

lemma del1_append: "n \<notin> fst ` set es \<Longrightarrow> del1 n (es @ e # fs) = (if fst e = n then es @ fs else es @ e # del1 n fs)"
  by (induction es) auto

lemma map_of_del1_other: "m \<noteq> n \<Longrightarrow> map_of (del1 n es) m = map_of es m"
  by (induction es) auto

lemma del1_filter: "distinct (map fst es) \<Longrightarrow> del1 n es = filter (\<lambda>e. fst e \<noteq> n) es"
  by (induction es) (force intro!: filter_True [symmetric])+

lemma map_of_filter_fst: "map_of (filter (\<lambda>e. fst e \<noteq> n) es) = (map_of es)(n := None)"
  by (induction es) (auto simp: fun_eq_iff)

lemma map_of_snoc: "n \<notin> fst ` set es \<Longrightarrow> map_of (es @ [(n, v)]) = (map_of es)(n \<mapsto> v)"
  using map_of_eq_None_iff [of es n] by (auto simp: fun_eq_iff map_add_def split: option.split)

text \<open>
  The contract: every operation returns, its result is that of the list of entries, and what lies
  outside the directory (\<open>rest\<close>) is not touched.  With distinct names the list is a finite map.
\<close>

locale name_dir =
  fixes inv :: "'s \<Rightarrow> bool"
    and names :: "'n \<Rightarrow> bool"
    and room :: nat
    and entries :: "'s \<Rightarrow> ('n \<times> 'v) list"
    and lookup :: "'n \<Rightarrow> 's \<Rightarrow> ('v option \<times> 's) option"
    and insert_entry :: "'n \<Rightarrow> 'v \<Rightarrow> 's \<Rightarrow> (bool \<times> 's) option"
    and remove_entry :: "'n \<Rightarrow> 's \<Rightarrow> (bool \<times> 's) option"
    and rest :: "'s \<Rightarrow> 'r"
  assumes lookup_law: "inv s \<Longrightarrow> names n \<Longrightarrow>
        \<exists>s'. lookup n s = Some (map_of (entries s) n, s') \<and> inv s' \<and> entries s' = entries s \<and> rest s' = rest s"
    and insert_law: "inv s \<Longrightarrow> names n \<Longrightarrow> length (entries s) < room \<Longrightarrow>
        \<exists>s'. insert_entry n v s = Some (True, s') \<and> inv s' \<and> entries s' = entries s @ [(n, v)] \<and> rest s' = rest s"
    and remove_law: "inv s \<Longrightarrow> names n \<Longrightarrow>
        \<exists>s'. remove_entry n s = Some (n \<in> fst ` set (entries s), s') \<and> inv s' \<and> entries s' = del1 n (entries s) \<and> rest s' = rest s"
begin

lemma insert_is_update:
  assumes "inv s" and "names n" and "length (entries s) < room" and "distinct (map fst (entries s))"
    and "n \<notin> fst ` set (entries s)"
  shows "\<exists>s'. insert_entry n v s = Some (True, s') \<and> inv s' \<and> entries s' = entries s @ [(n, v)] \<and>
    distinct (map fst (entries s')) \<and> map_of (entries s') = (map_of (entries s))(n \<mapsto> v) \<and> rest s' = rest s"
  using insert_law [OF assms(1-3), of v] assms(4,5) map_of_snoc [OF assms(5), of v] by auto

lemma remove_is_delete:
  assumes "inv s" and "names n" and "distinct (map fst (entries s))"
  shows "\<exists>s'. remove_entry n s = Some (n \<in> fst ` set (entries s), s') \<and> inv s' \<and>
    entries s' = filter (\<lambda>e. fst e \<noteq> n) (entries s) \<and> distinct (map fst (entries s')) \<and>
    map_of (entries s') = (map_of (entries s))(n := None) \<and> rest s' = rest s"
  using remove_law [OF assms(1,2)] del1_filter [OF assms(3), of n] map_of_filter_fst [of n "entries s"]
    distinct_map_filter [OF assms(3), of "\<lambda>e. fst e \<noteq> n"] by auto

end

section \<open>One block as an association list\<close>

definition raw_entry :: "nat \<Rightarrow> bytes \<Rightarrow> bytes" where
  "raw_entry i b = get_bytes (12 + 44 * i) 44 b"

definition entry_of :: "bytes \<Rightarrow> bytes \<times> u32 \<times> u8" where
  "entry_of r = (c_str (get_bytes 0 32 r), get32 32 r, c_at r 36)"

definition abs_entries :: "bytes \<Rightarrow> (bytes \<times> u32 \<times> u8) list" where
  "abs_entries b = map (\<lambda>i. entry_of (raw_entry i b)) [0..<unat (abs_count b)]"

definition abs_ok :: "bytes \<Rightarrow> bool" where
  "abs_ok b \<longleftrightarrow> length b = 512 \<and> abs_magic b = HEXAFS_ABSTRACT_MAGIC \<and> abs_checksum b = get32 8 b \<and>
     unat (abs_count b) \<le> 11 \<and> abs_chain b = 0"

lemma entry_of_raw:
  assumes "length b = 512" and "i < 11"
  shows "entry_of (raw_entry i b) = (c_str (entry_name i b), entry_object i b, entry_type i b)"
proof -
  have "12 + 44 * i + 44 \<le> 512" using assms(2) by simp
  then have "c_at (raw_entry i b) 36 = c_at b (48 + 44 * i)" using assms(1)
    by (simp add: raw_entry_def c_at_def get_bytes_def)
  then show ?thesis
    by (simp add: entry_of_def raw_entry_def entry_name_def entry_object_def entry_type_def get32_def get_bytes_get_bytes)
qed

lemma raw_put32:
  "length b = 512 \<Longrightarrow> i < 11 \<Longrightarrow> off + 4 \<le> 12 \<or> 496 \<le> off \<and> off + 4 \<le> 512 \<Longrightarrow>
    raw_entry i (put32 off v b) = raw_entry i b"
  unfolding raw_entry_def by (rule get_bytes_put32_other) auto

lemma abs_seal_fields:
  assumes "length b = 512"
  shows "length (abs_seal b) = 512" "abs_magic (abs_seal b) = abs_magic b" "abs_count (abs_seal b) = abs_count b"
    "abs_chain (abs_seal b) = abs_chain b" "abs_checksum (abs_seal b) = get32 8 (abs_seal b)"
    "i < 11 \<Longrightarrow> raw_entry i (abs_seal b) = raw_entry i b"
  using assms
  by (simp_all add: abs_seal_def abs_magic_def abs_count_def abs_chain_def abs_checksum_def raw_put32 bytes_simps)

lemma new_abstraction_ok: "abs_ok new_abstraction" "abs_entries new_abstraction = []"
proof -
  let ?b = "put32 4 0 (put32 0 HEXAFS_ABSTRACT_MAGIC (zeros 512))"
  have l: "length ?b = 512" by (simp add: bytes_simps)
  have "abs_magic ?b = HEXAFS_ABSTRACT_MAGIC" "abs_count ?b = 0" "abs_chain ?b = 0"
    by (simp_all add: abs_magic_def abs_count_def abs_chain_def bytes_simps)
  with abs_seal_fields [OF l] show "abs_ok new_abstraction" "abs_entries new_abstraction = []"
    by (simp_all add: abs_ok_def abs_entries_def new_abstraction_def)
qed

lemma abs_put_entry_ok:
  assumes ok: "abs_ok b" and i: "unat (abs_count b) < 11" and nm: "0 \<notin> set name" "length name < 32"
  shows "abs_ok (abs_put_entry (unat (abs_count b)) name ob ty b)"
    and "abs_entries (abs_put_entry (unat (abs_count b)) name ob ty b) = abs_entries b @ [(name, ob, ty)]"
proof -
  let ?i = "unat (abs_count b)"
  define b1 where "b1 = put_bytes (12 + 44 * ?i) (name_bytes 32 name) b"
  define b2 where "b2 = put32 (44 + 44 * ?i) ob b1"
  define b3 where "b3 = put8 (48 + 44 * ?i) ty b2"
  define b4 where "b4 = put32 4 (of_nat (?i + 1)) b3"
  have l: "length b = 512" using ok by (simp add: abs_ok_def)
  have nb: "name_bytes 32 name = name @ [0]" using nm by (intro name_bytes_short) simp_all
  have l1: "length b1 = 512" using l i nm(2) by (simp add: b1_def nb bytes_simps)
  have l2: "length b2 = 512" using l1 i by (simp add: b2_def bytes_simps)
  have l3: "length b3 = 512" using l2 i by (simp add: b3_def bytes_simps)
  have l4: "length b4 = 512" using l3 by (simp add: b4_def bytes_simps)
  have g: "get32 off b3 = get32 off b" if "off + 4 \<le> 12 \<or> 496 \<le> off" for off
  proof -
    have "get32 off b3 = get32 off b2" unfolding b3_def using that i l2 by (intro get32_put8_other) auto
    also have "\<dots> = get32 off b1" unfolding b2_def using that i l1 by (intro get32_put32_other) auto
    also have "\<dots> = get32 off b" unfolding b1_def using that i l nm(2) by (intro get32_put_bytes_other) (auto simp: nb)
    finally show ?thesis .
  qed
  have raw: "raw_entry j b4 = raw_entry j b" if "j < 11" "j \<noteq> ?i" for j
  proof -
    have "raw_entry j b4 = raw_entry j b3" using raw_put32 [OF l3 that(1)] by (simp add: b4_def)
    also have "\<dots> = raw_entry j b2" unfolding b3_def raw_entry_def using that i l2 by (intro get_bytes_put8_other) auto
    also have "\<dots> = raw_entry j b1" unfolding b2_def raw_entry_def using that i l1 by (intro get_bytes_put32_other) auto
    also have "\<dots> = raw_entry j b" unfolding b1_def raw_entry_def using that i l nm(2) by (intro get_put_other) (auto simp: nb)
    finally show ?thesis .
  qed
  have "c_str (entry_name ?i b4) = name"
  proof -
    have "entry_name ?i b4 = entry_name ?i b1"
      using l1 l2 l3 i by (simp add: entry_name_def b4_def b3_def b2_def bytes_simps)
    also have "\<dots> = name @ 0 # get_bytes (12 + 44 * ?i + length name + 1) (31 - length name) b"
      using l i nm(2) by (simp add: entry_name_def b1_def nb get_bytes_def put_bytes_def min_def take_Cons')
    finally show ?thesis using c_str_append_nul [OF nm(1)] by simp
  qed
  moreover have "entry_object ?i b4 = ob"
    using l1 l2 l3 i by (simp add: entry_object_def b4_def b3_def b2_def bytes_simps)
  moreover have "entry_type ?i b4 = ty"
    using l2 l3 l4 i by (simp add: entry_type_def c_at_def get8_def [symmetric] b4_def b3_def bytes_simps)
  ultimately have e: "entry_of (raw_entry ?i b4) = (name, ob, ty)" using entry_of_raw [OF l4 i] by simp
  have p: "abs_put_entry ?i name ob ty b = abs_seal b4"
    by (simp add: abs_put_entry_def Let_def b1_def b2_def b3_def b4_def)
  have c: "unat (abs_count b4) = ?i + 1"
  proof -
    have "abs_count b4 = of_nat (?i + 1)" using l3 by (simp add: b4_def abs_count_def get32_put32_same)
    then show ?thesis using i by (simp only:) (intro word_of_nat_less_eq, simp)
  qed
  have m: "abs_magic b4 = abs_magic b" "abs_chain b4 = abs_chain b"
    using l3 g by (simp_all add: b4_def abs_magic_def abs_chain_def bytes_simps)
  note sf = abs_seal_fields [OF l4]
  show "abs_ok (abs_put_entry ?i name ob ty b)" using ok sf m c i by (simp add: abs_ok_def p)
  show "abs_entries (abs_put_entry ?i name ob ty b) = abs_entries b @ [(name, ob, ty)]"
    using sf(3,6) raw e i by (auto simp: abs_entries_def p c)
qed

text \<open>Lookup in a block is first match.\<close>

lemma count_int: "abs_ok b \<Longrightarrow> nat (to_int (abs_count b)) = unat (abs_count b)"
  by (subst to_int_small) (auto simp: abs_ok_def)

lemma find_map_of:
  assumes "\<And>i. i < n \<Longrightarrow> P i \<longleftrightarrow> fst (f i) = k"
  shows "(case find P [0..<n] of
      None \<Rightarrow> map_of (map f [0..<n]) k = None \<and> k \<notin> fst ` set (map f [0..<n])
    | Some i \<Rightarrow> i < n \<and> fst (f i) = k \<and> map_of (map f [0..<n]) k = Some (snd (f i)) \<and>
        k \<notin> fst ` set (map f [0..<i]))"
proof (cases "find P [0..<n]")
  case None
  then have "k \<notin> fst ` set (map f [0..<n])" using assms by (auto simp: find_None_iff)
  with None show ?thesis by (simp add: map_of_eq_None_iff del: set_map)
next
  case (Some i)
  then have i: "i < n" "P i" "\<forall>j < i. \<not> P j" by (auto simp: find_Some_iff)
  then have k: "fst (f i) = k" "k \<notin> fst ` set (map f [0..<i])" using assms by auto
  have "[0..<n] = [0..<i] @ i # [Suc i..<n]"
    using i(1) by (metis less_imp_le upt_add_eq_append le_add_diff_inverse upt_conv_Cons zero_le)
  then have "map_of (map f [0..<n]) k = (map_of (map f [0..<i]) ++ Map.empty(k \<mapsto> snd (f i))) k \<or>
      map_of (map f [0..<n]) k = Some (snd (f i))"
    using k map_of_eq_None_iff [of "map f [0..<i]" k] by (cases "f i") (auto simp: map_add_def)
  with Some i(1) k show ?thesis by auto
qed

lemma abs_find_entry_ok:
  assumes "abs_ok b" and "0 \<notin> set name" and "length name < 32"
  shows "(case abs_find_entry name b of
      None \<Rightarrow> map_of (abs_entries b) name = None \<and> name \<notin> fst ` set (abs_entries b)
    | Some i \<Rightarrow> i < unat (abs_count b) \<and> fst (entry_of (raw_entry i b)) = name \<and>
        map_of (abs_entries b) name = Some (entry_object i b, entry_type i b) \<and>
        name \<notin> fst ` set (take i (abs_entries b)))"
proof -
  let ?n = "unat (abs_count b)"
  have b: "length b = 512" "?n \<le> 11" using assms(1) by (simp_all add: abs_ok_def)
  have P: "name_match 32 (entry_name i b) name \<longleftrightarrow> fst (entry_of (raw_entry i b)) = name" if "i < ?n" for i
    using name_match_iff [OF assms(2,3)] entry_of_raw [OF b(1), of i] that b(2) by simp
  define f where "f = (\<lambda>i. entry_of (raw_entry i b))"
  have es: "abs_entries b = map f [0..<?n]" by (simp add: abs_entries_def f_def)
  have sn: "snd (f i) = (entry_object i b, entry_type i b)" if "i < ?n" for i
    using entry_of_raw [OF b(1), of i] that b(2) by (simp add: f_def)
  have t: "take i (map f [0..<?n]) = map f [0..<i]" if "i < ?n" for i
    using that by (simp add: take_map)
  have F: "case find (\<lambda>i. name_match 32 (entry_name i b) name) [0..<?n] of
      None \<Rightarrow> map_of (map f [0..<?n]) name = None \<and> name \<notin> fst ` set (map f [0..<?n])
    | Some i \<Rightarrow> i < ?n \<and> fst (f i) = name \<and> map_of (map f [0..<?n]) name = Some (snd (f i)) \<and>
        name \<notin> fst ` set (map f [0..<i])"
    by (rule find_map_of) (simp add: P f_def)
  show ?thesis
  proof (cases "find (\<lambda>i. name_match 32 (entry_name i b) name) [0..<?n]")
    case None
    with F show ?thesis by (simp add: abs_find_entry_def count_int [OF assms(1)] es del: set_map)
  next
    case (Some i)
    with F have "i < ?n" by simp
    with F Some sn t show ?thesis
      by (simp add: abs_find_entry_def count_int [OF assms(1)] es f_def [symmetric] del: set_map) (simp add: f_def)
  qed
qed

text \<open>Removal shifts the later entries down.\<close>

lemma raw_shift:
  assumes "length b = 512" and "n \<le> 11"
  shows "length (abs_shift f n b) = 512 \<and>
    (\<forall>off. off + 4 \<le> 12 \<or> 496 \<le> off \<and> off + 4 \<le> 512 \<longrightarrow> get32 off (abs_shift f n b) = get32 off b) \<and>
    (\<forall>j < 11. raw_entry j (abs_shift f n b) = raw_entry (if f \<le> j \<and> j < n - 1 then j + 1 else j) b)"
  using assms
proof (induction n)
  case 0
  then show ?case by (simp add: abs_shift_def)
next
  case (Suc n)
  show ?case
  proof (cases "f < n")
    case False
    with Suc.prems show ?thesis by (auto simp: abs_shift_def)
  next
    case True
    let ?c = "abs_shift f n b"
    have ih: "length ?c = 512" "\<And>off. off + 4 \<le> 12 \<or> 496 \<le> off \<and> off + 4 \<le> 512 \<Longrightarrow> get32 off ?c = get32 off b"
      "\<And>j. j < 11 \<Longrightarrow> raw_entry j ?c = raw_entry (if f \<le> j \<and> j < n - 1 then j + 1 else j) b"
      using Suc by auto
    obtain k where k: "n = Suc k" "k < 10" "f \<le> k" using True Suc.prems(2) by (cases n) auto
    have e: "abs_shift f (Suc n) b = put_bytes (12 + 44 * k) (raw_entry n ?c) ?c"
      using k by (simp add: abs_shift_def raw_entry_def)
    have lr: "length (raw_entry n ?c) = 44" using ih(1) Suc.prems(2) by (simp add: raw_entry_def bytes_simps)
    have "length (abs_shift f (Suc n) b) = 512" using ih(1) lr k(2) by (simp add: e bytes_simps)
    moreover have "get32 off (abs_shift f (Suc n) b) = get32 off b"
      if "off + 4 \<le> 12 \<or> 496 \<le> off \<and> off + 4 \<le> 512" for off
    proof -
      have "get32 off (abs_shift f (Suc n) b) = get32 off ?c"
        unfolding e using ih(1) lr k(2) that by (intro get32_put_bytes_other) auto
      then show ?thesis using ih(2) [OF that] by simp
    qed
    moreover have "raw_entry j (abs_shift f (Suc n) b) = raw_entry (if f \<le> j \<and> j < Suc n - 1 then j + 1 else j) b"
      if j: "j < 11" for j
    proof (cases "j = k")
      case True
      have "raw_entry j (abs_shift f (Suc n) b) = raw_entry n ?c"
        using ih(1) lr k(2) True by (simp add: e raw_entry_def bytes_simps)
      also have "\<dots> = raw_entry n b" using ih(3) [of n] Suc.prems(2) k(1) by simp
      finally show ?thesis using True k by auto
    next
      case False
      have "raw_entry j (abs_shift f (Suc n) b) = raw_entry j ?c"
        unfolding e raw_entry_def [of j] using ih(1) lr k(2) False by (intro get_put_other) auto
      then show ?thesis using ih(3) [OF j] False k by auto
    qed
    ultimately show ?thesis by blast
  qed
qed

lemma abs_drop_entry_ok:
  assumes ok: "abs_ok b" and i: "i < unat (abs_count b)"
  shows "abs_ok (abs_drop_entry i b)"
    and "abs_entries (abs_drop_entry i b) = take i (abs_entries b) @ drop (i + 1) (abs_entries b)"
proof -
  let ?n = "unat (abs_count b)"
  let ?c = "abs_shift i ?n b"
  have b: "length b = 512" "?n \<le> 11" using ok by (simp_all add: abs_ok_def)
  note sh = raw_shift [OF b, of i]
  have l: "length (put32 4 (abs_count b - 1) ?c) = 512" using sh by (simp add: bytes_simps)
  note sf = abs_seal_fields [OF l]
  have e: "abs_drop_entry i b = abs_seal (put32 4 (abs_count b - 1) ?c)"
    by (simp add: abs_drop_entry_def count_int [OF ok])
  have c: "unat (abs_count b - 1) = ?n - 1" using i by (intro unat_minus_one) auto
  then have c11: "unat (abs_count b - 1) \<le> 11" using b(2) by simp
  have m: "abs_magic (put32 4 (abs_count b - 1) ?c) = abs_magic b" "abs_chain (put32 4 (abs_count b - 1) ?c) = abs_chain b"
    "abs_count (put32 4 (abs_count b - 1) ?c) = abs_count b - 1"
    using sh by (simp_all add: abs_magic_def abs_chain_def abs_count_def bytes_simps)
  show "abs_ok (abs_drop_entry i b)" using ok sf m c11 by (simp add: abs_ok_def e)
  have r: "raw_entry j (abs_drop_entry i b) = raw_entry (if i \<le> j then j + 1 else j) b" if "j < ?n - 1" for j
    using sh sf(6) [of j] raw_put32 [of ?c j 4] that b(2) by (simp add: e)
  have "abs_count (abs_drop_entry i b) = abs_count b - 1" using sf(3) m(3) by (simp add: e)
  then have a: "abs_entries (abs_drop_entry i b) = map (\<lambda>j. entry_of (raw_entry (if i \<le> j then j + 1 else j) b)) [0..<?n - 1]"
    using r by (auto simp: abs_entries_def c)
  show "abs_entries (abs_drop_entry i b) = take i (abs_entries b) @ drop (i + 1) (abs_entries b)"
    unfolding a using i by (intro nth_equalityI) (auto simp: abs_entries_def nth_append)
qed

section \<open>Directories on the drive\<close>

definition dir_ok :: "u32 \<Rightarrow> 'a kdisk_scheme \<Rightarrow> bool" where
  "dir_ok a s \<longleftrightarrow> disk_inv s \<and> valid_lba a \<and> abs_ok (blk s a)"

definition dir_entries :: "u32 \<Rightarrow> 'a kdisk_scheme \<Rightarrow> (bytes \<times> u32 \<times> u8) list" where
  "dir_entries a s = abs_entries (blk s a)"

definition entry_name_ok :: "bytes \<Rightarrow> bool" where
  "entry_name_ok name \<longleftrightarrow> 0 \<notin> set name \<and> length name < 32"

lemma next_chain_end:
  assumes "disk_inv s" and "valid_lba a" and "abs_chain (blk s a) = 0"
  obtains s' where "hexafs_abstraction_next_chain a s = (0, s')" and "disk_inv s'" and "blk s' = blk s"
    and "io_frame s s'"
proof -
  obtain s1 where s1: "hexafs_block_read a s = (Some (blk s a), s1)" "disk_inv s1" "blk s1 = blk s"
    using store.rd_cases [OF assms(1,2)] .
  have "hexafs_abstraction_next_chain a s = (0, s1)"
    using s1(1) assms(3) by (simp add: hexafs_abstraction_next_chain_def)
  then show thesis by (rule that) (use s1 block_read_frame [of s a] in simp_all)
qed

lemma valid_nonzero: "valid_lba a \<Longrightarrow> a \<noteq> 0"
  by (auto simp: valid_lba_def)

lemma dir_find_ok:
  assumes "dir_ok a s" and "entry_name_ok name"
  obtains s' where "hexafs_abstraction_find a name s = Some (map_of (dir_entries a s) name, s')"
    and "disk_inv s'" and "blk s' = blk s" and "io_frame s s'"
proof -
  have d: "disk_inv s" "valid_lba a" "abs_ok (blk s a)" using assms(1) by (simp_all add: dir_ok_def)
  have nm: "0 \<notin> set name" "length name < 32" using assms(2) by (simp_all add: entry_name_ok_def)
  obtain s1 where s1: "hexafs_block_read a s = (Some (blk s a), s1)" "disk_inv s1" "blk s1 = blk s"
    using store.rd_cases [OF d(1,2)] .
  have fr: "io_frame s s1" using block_read_frame [of s a] s1(1) by simp
  have mg: "abs_magic (blk s a) = HEXAFS_ABSTRACT_MAGIC" "abs_chain (blk s1 a) = 0" using d(3) s1(3) by (simp_all add: abs_ok_def)
  note fe = abs_find_entry_ok [OF d(3) nm]
  show thesis
  proof (cases "abs_find_entry name (blk s a)")
    case None
    obtain s2 where s2: "hexafs_abstraction_next_chain a s1 = (0, s2)" "disk_inv s2" "blk s2 = blk s1" "io_frame s1 s2"
      using next_chain_end [OF s1(2) d(2) mg(2)] .
    have "hexafs_abstraction_find a name s = Some (None, s2)"
      using s1(1) s2(1) mg(1) None valid_nonzero [OF d(2)]
      by (simp add: hexafs_abstraction_find.simps [of a] hexafs_abstraction_find.simps [of 0])
    then show thesis using that [of s2] None fe s2 s1(3) io_frame_trans [OF fr] by (simp add: dir_entries_def)
  next
    case (Some i)
    have "hexafs_abstraction_find a name s = Some (Some (entry_object i (blk s a), entry_type i (blk s a)), s1)"
      using s1(1) mg(1) Some valid_nonzero [OF d(2)] by (simp add: hexafs_abstraction_find.simps [of a])
    then show thesis using that [of s1] Some fe s1 fr by (simp add: dir_entries_def)
  qed
qed

lemma dir_add_ok:
  assumes "dir_ok a s" and "entry_name_ok name" and "length (dir_entries a s) < 11"
  obtains s' where "hexafs_abstraction_add_entry a name ob ty s = Some (True, s')" and "dir_ok a s'"
    and "dir_entries a s' = dir_entries a s @ [(name, ob, ty)]" and "\<forall>b. b \<noteq> a \<longrightarrow> blk s' b = blk s b"
    and "io_frame s s'"
proof -
  have d: "disk_inv s" "valid_lba a" "abs_ok (blk s a)" using assms(1) by (simp_all add: dir_ok_def)
  have nm: "0 \<notin> set name" "length name < 32" using assms(2) by (simp_all add: entry_name_ok_def)
  let ?b = "blk s a"
  obtain s1 where s1: "hexafs_block_read a s = (Some ?b, s1)" "disk_inv s1" "blk s1 = blk s"
    using store.rd_cases [OF d(1,2)] .
  have fr: "io_frame s s1" using block_read_frame [of s a] s1(1) by simp
  have c: "unat (abs_count ?b) < 11" using assms(3) by (simp add: dir_entries_def abs_entries_def)
  let ?n = "abs_put_entry (unat (abs_count ?b)) name ob ty ?b"
  note pe = abs_put_entry_ok [OF d(3) c nm, of ob ty]
  have "good_block ?n" using pe(1) by (simp add: good_block_def abs_ok_def)
  then obtain s2 where s2: "hexafs_block_write a ?n s1 = (True, s2)" "disk_inv s2" "blk s2 = (blk s1)(a := ?n)"
    using store.wr_cases [OF s1(2) d(2)] by blast
  have "abs_count ?b < HEXAFS_ABS_MAX_ENTRIES" using c by (simp add: word_less_nat_alt)
  then have "hexafs_abstraction_add_entry a name ob ty s = Some (True, s2)"
    using s1(1) s2(1) d(3) valid_nonzero [OF d(2)]
    by (simp add: hexafs_abstraction_add_entry_def abs_add_loop.simps [of _ _ _ a] abs_ok_def)
  moreover have "io_frame s s2" using io_frame_trans [OF fr block_write_frame [of s1 a ?n]] s2(1) by simp
  ultimately show thesis
    using that [of s2] pe s1(3) s2(2,3) d(2) by (simp add: dir_ok_def dir_entries_def)
qed

lemma del1_first:
  assumes "i < length es" and "fst (es ! i) = n" and "n \<notin> fst ` set (take i es)"
  shows "del1 n es = take i es @ drop (i + 1) es" and "n \<in> fst ` set es"
proof -
  have e: "es = take i es @ es ! i # drop (i + 1) es" using assms(1) by (simp add: id_take_nth_drop [symmetric])
  show "del1 n es = take i es @ drop (i + 1) es"
    using del1_append [OF assms(3), of "es ! i" "drop (i + 1) es"] assms(2) e by simp
  show "n \<in> fst ` set es" using assms(1,2) nth_mem by blast
qed

lemma dir_remove_ok:
  assumes "dir_ok a s" and "entry_name_ok name"
  obtains s' where "hexafs_abstraction_remove_entry a name s = Some (name \<in> fst ` set (dir_entries a s), s')"
    and "dir_ok a s'" and "dir_entries a s' = del1 name (dir_entries a s)" and "\<forall>b. b \<noteq> a \<longrightarrow> blk s' b = blk s b"
    and "io_frame s s'"
proof -
  have d: "disk_inv s" "valid_lba a" "abs_ok (blk s a)" using assms(1) by (simp_all add: dir_ok_def)
  have nm: "0 \<notin> set name" "length name < 32" using assms(2) by (simp_all add: entry_name_ok_def)
  let ?b = "blk s a" and ?es = "dir_entries a s"
  obtain s1 where s1: "hexafs_block_read a s = (Some ?b, s1)" "disk_inv s1" "blk s1 = blk s"
    using store.rd_cases [OF d(1,2)] .
  have fr: "io_frame s s1" using block_read_frame [of s a] s1(1) by simp
  have mg: "abs_magic ?b = HEXAFS_ABSTRACT_MAGIC" "abs_checksum ?b = get32 8 ?b" "abs_chain (blk s1 a) = 0"
    using d(3) s1(3) by (simp_all add: abs_ok_def)
  note fe = abs_find_entry_ok [OF d(3) nm]
  show thesis
  proof (cases "abs_find_entry name ?b")
    case None
    obtain s2 where s2: "hexafs_abstraction_next_chain a s1 = (0, s2)" "disk_inv s2" "blk s2 = blk s1" "io_frame s1 s2"
      using next_chain_end [OF s1(2) d(2) mg(3)] .
    have "hexafs_abstraction_remove_entry a name s = Some (False, s2)"
      using s1(1) s2(1) mg(1,2) None valid_nonzero [OF d(2)]
      by (simp add: hexafs_abstraction_remove_entry.simps [of a] hexafs_abstraction_remove_entry.simps [of 0])
    moreover have "name \<notin> fst ` set ?es" using None fe by (simp add: dir_entries_def)
    ultimately show thesis
      using that [of s2] s2 s1(3) d io_frame_trans [OF fr s2(4)] del1_absent [of name ?es] by (simp add: dir_ok_def dir_entries_def)
  next
    case (Some i)
    then have i: "i < unat (abs_count ?b)" using fe by simp
    note dr = abs_drop_entry_ok [OF d(3) i]
    have "good_block (abs_drop_entry i ?b)" using dr(1) by (simp add: good_block_def abs_ok_def)
    then obtain s2 where s2: "hexafs_block_write a (abs_drop_entry i ?b) s1 = (True, s2)" "disk_inv s2"
      "blk s2 = (blk s1)(a := abs_drop_entry i ?b)"
      using store.wr_cases [OF s1(2) d(2)] by blast
    have "hexafs_abstraction_remove_entry a name s = Some (True, s2)"
      using s1(1) s2(1) mg(1,2) Some valid_nonzero [OF d(2)] by (simp add: hexafs_abstraction_remove_entry.simps [of a])
    moreover have "i < length ?es" "fst (?es ! i) = name" "name \<notin> fst ` set (take i ?es)"
      using Some fe i by (simp_all add: dir_entries_def abs_entries_def)
    moreover have "io_frame s s2" using io_frame_trans [OF fr block_write_frame [of s1 a "abs_drop_entry i ?b"]] s2(1) by simp
    ultimately show thesis
      using that [of s2] del1_first [of i ?es name] dr s1(3) s2(2,3) d(2) by (simp add: dir_ok_def dir_entries_def)
  qed
qed

interpretation absdir: name_dir "dir_ok a" entry_name_ok 11 "dir_entries a" "hexafs_abstraction_find a"
  "\<lambda>name (ob, ty). hexafs_abstraction_add_entry a name ob ty" "hexafs_abstraction_remove_entry a"
  "\<lambda>s. (blk s)(a := [])" for a
proof unfold_locales
  fix s :: "'a kdisk_scheme" and n v
  assume d: "dir_ok a s" and n: "entry_name_ok n"
  obtain s' where "hexafs_abstraction_find a n s = Some (map_of (dir_entries a s) n, s')" "disk_inv s'" "blk s' = blk s"
    "io_frame s s'" using dir_find_ok [OF d n] .
  with d show "\<exists>s'. hexafs_abstraction_find a n s = Some (map_of (dir_entries a s) n, s') \<and> dir_ok a s' \<and>
      dir_entries a s' = dir_entries a s \<and> (blk s')(a := []) = (blk s)(a := [])" by (simp add: dir_ok_def dir_entries_def)
  obtain s2 where "hexafs_abstraction_remove_entry a n s = Some (n \<in> fst ` set (dir_entries a s), s2)" "dir_ok a s2"
    "dir_entries a s2 = del1 n (dir_entries a s)" "\<forall>b. b \<noteq> a \<longrightarrow> blk s2 b = blk s b" using dir_remove_ok [OF d n] .
  then show "\<exists>s'. hexafs_abstraction_remove_entry a n s = Some (n \<in> fst ` set (dir_entries a s), s') \<and> dir_ok a s' \<and>
      dir_entries a s' = del1 n (dir_entries a s) \<and> (blk s')(a := []) = (blk s)(a := [])" by (auto simp: fun_eq_iff)
  assume "length (dir_entries a s) < 11"
  then obtain s3 where "hexafs_abstraction_add_entry a n (fst v) (snd v) s = Some (True, s3)" "dir_ok a s3"
    "dir_entries a s3 = dir_entries a s @ [(n, fst v, snd v)]" "\<forall>b. b \<noteq> a \<longrightarrow> blk s3 b = blk s b"
    by (rule dir_add_ok [OF d n])
  then show "\<exists>s'. (case v of (ob, ty) \<Rightarrow> hexafs_abstraction_add_entry a n ob ty) s = Some (True, s') \<and> dir_ok a s' \<and>
      dir_entries a s' = dir_entries a s @ [(n, v)] \<and> (blk s')(a := []) = (blk s)(a := [])"
    by (auto simp: fun_eq_iff split: prod.split)
qed

lemma others_same: "f(a := x) = g(a := x) \<longleftrightarrow> (\<forall>b. b \<noteq> a \<longrightarrow> f b = g b)"
  by (auto simp: fun_eq_iff)

section \<open>Properties\<close>

text \<open>
  C15: a directory block is a finite map under find, remove and add, for every block with distinct
  names, wherever the entry stands in it.  Find returns the value of the map and leaves every block
  as it is.  Remove tells whether the name was there, removes exactly its entry, keeps all the others
  in their order, so that the map loses only this name, and touches no other block.  Adding a name
  that is not there to a directory with room appends its entry and updates the map at that name only.
\<close>

theorem abstraction_is_map:
  assumes "dir_ok a s" and "entry_name_ok n" and "distinct (map fst (dir_entries a s))"
  shows "(\<exists>s1. hexafs_abstraction_find a n s = Some (map_of (dir_entries a s) n, s1) \<and> dir_ok a s1 \<and> blk s1 = blk s) \<and>
    (\<exists>s2. hexafs_abstraction_remove_entry a n s = Some (n \<in> fst ` set (dir_entries a s), s2) \<and> dir_ok a s2 \<and>
       dir_entries a s2 = filter (\<lambda>e. fst e \<noteq> n) (dir_entries a s) \<and> distinct (map fst (dir_entries a s2)) \<and>
       map_of (dir_entries a s2) = (map_of (dir_entries a s))(n := None) \<and> (\<forall>b. b \<noteq> a \<longrightarrow> blk s2 b = blk s b)) \<and>
    (length (dir_entries a s) < 11 \<longrightarrow> n \<notin> fst ` set (dir_entries a s) \<longrightarrow>
     (\<exists>s3. hexafs_abstraction_add_entry a n ob ty s = Some (True, s3) \<and> dir_ok a s3 \<and>
       dir_entries a s3 = dir_entries a s @ [(n, ob, ty)] \<and> distinct (map fst (dir_entries a s3)) \<and>
       map_of (dir_entries a s3) = (map_of (dir_entries a s))(n \<mapsto> (ob, ty)) \<and> (\<forall>b. b \<noteq> a \<longrightarrow> blk s3 b = blk s b)))"
    (is "?find \<and> ?remove \<and> (_ \<longrightarrow> _ \<longrightarrow> ?add)")
proof (intro conjI impI)
  obtain s1 where "hexafs_abstraction_find a n s = Some (map_of (dir_entries a s) n, s1)" "disk_inv s1" "blk s1 = blk s"
    by (rule dir_find_ok [OF assms(1,2)])
  with assms(1) show ?find by (auto simp: dir_ok_def)
next
  show ?remove using absdir.remove_is_delete [OF assms] unfolding others_same .
next
  assume "length (dir_entries a s) < 11" and "n \<notin> fst ` set (dir_entries a s)"
  from absdir.insert_is_update [OF assms(1,2) this(1) assms(3) this(2), of "(ob, ty)"]
  show ?add unfolding others_same prod.case .
qed

lemma abstraction_create_ok:
  assumes "disk_inv s" and "alloc_inv s" and "Suc n \<le> free_blocks s"
  obtains b s' where "hexafs_abstraction_create s = (b, s')" and "b \<noteq> 0" and "dir_ok b s'" and "dir_entries b s' = []"
    and "used_lba b s'" and "alloc_inv s'" and "n \<le> free_blocks s'" and "unat b \<notin> disk_used s"
    and "disk_used s' = insert (unat b) (disk_used s)" and "blk s' = (blk s)(b := new_abstraction)"
    and "sb_cache s' = sb_cache s" and "hexafs_current_tx s' = hexafs_current_tx s" and "hexafs_mounted s' = hexafs_mounted s"
proof -
  obtain b s1 where a: "hexafs_alloc_block s = (b, s1)" "b \<noteq> 0" "valid_lba b" "unat b \<notin> disk_used s"
    "disk_used s1 = insert (unat b) (disk_used s)" "blk s1 = (blk s)(b := zeros 512)" "disk_inv s1" "alloc_inv s1"
    "n \<le> free_blocks s1" "used_lba b s1" "sb_cache s1 = sb_cache s" "hexafs_current_tx s1 = hexafs_current_tx s"
    "hexafs_mounted s1 = hexafs_mounted s" "HEXAFS_OBJECT_LBA \<le> unat b"
    by (rule alloc_block_ok [OF assms])
  have "good_block new_abstraction" using new_abstraction_ok(1) by (simp add: good_block_def abs_ok_def)
  then obtain s' where s': "hexafs_block_write b new_abstraction s1 = (True, s')" "disk_inv s'"
    "blk s' = (blk s1)(b := new_abstraction)"
    using store.wr_cases [OF a(7,3)] by blast
  note f = write_fields [OF s'(1)]
  have "hexafs_abstraction_create s = (b, s')" using a(1,2) s'(1) by (simp add: hexafs_abstraction_create_def)
  then show thesis
    using that [of b s'] a s'(2,3) f new_abstraction_ok by (simp add: dir_ok_def dir_entries_def used_lba_def)
qed

text \<open>The witness removes the first of two entries and finds the second one, which the removal moved.\<close>

theorem abstraction_is_map_witness:
  "\<exists>a s s1 s2 s3 s4. hexafs_abstraction_create bss_kdisk = (a, s) \<and>
     hexafs_abstraction_add_entry a (cs ''readme'') 300 HEXAFS_FORM s = Some (True, s1) \<and>
     hexafs_abstraction_add_entry a (cs ''notes'') 301 HEXAFS_FORM s1 = Some (True, s2) \<and>
     hexafs_abstraction_remove_entry a (cs ''readme'') s2 = Some (True, s3) \<and>
     dir_entries a s3 = [(cs ''notes'', 301, HEXAFS_FORM)] \<and>
     hexafs_abstraction_find a (cs ''notes'') s3 = Some (Some (301, HEXAFS_FORM), s4)"
proof -
  have "Suc 0 \<le> free_blocks bss_kdisk" by (simp add: bss_free_blocks)
  then obtain a s where a: "hexafs_abstraction_create bss_kdisk = (a, s)" "dir_ok a s" "dir_entries a s = []"
    using abstraction_create_ok [OF bss_disk_inv bss_alloc_inv] by metis
  have n: "entry_name_ok (cs ''readme'')" "entry_name_ok (cs ''notes'')" "cs ''readme'' \<noteq> cs ''notes''"
    by (simp_all add: entry_name_ok_def cs_def)
  obtain s1 where s1: "hexafs_abstraction_add_entry a (cs ''readme'') 300 HEXAFS_FORM s = Some (True, s1)" "dir_ok a s1"
    "dir_entries a s1 = [(cs ''readme'', 300, HEXAFS_FORM)]"
    using abstraction_is_map [OF a(2) n(1), of 300 HEXAFS_FORM] a(3) by auto
  obtain s2 where s2: "hexafs_abstraction_add_entry a (cs ''notes'') 301 HEXAFS_FORM s1 = Some (True, s2)" "dir_ok a s2"
    "dir_entries a s2 = [(cs ''readme'', 300, HEXAFS_FORM), (cs ''notes'', 301, HEXAFS_FORM)]"
    using abstraction_is_map [OF s1(2) n(2), of 301 HEXAFS_FORM] s1(3) n(3) by auto
  obtain s3 where s3: "hexafs_abstraction_remove_entry a (cs ''readme'') s2 = Some (True, s3)" "dir_ok a s3"
    "dir_entries a s3 = [(cs ''notes'', 301, HEXAFS_FORM)]"
    using abstraction_is_map [OF s2(2) n(1)] s2(3) n(3) by auto
  obtain s4 where "hexafs_abstraction_find a (cs ''notes'') s3 = Some (Some (301, HEXAFS_FORM), s4)"
    using abstraction_is_map [OF s3(2) n(2)] s3(3) by auto
  with a(1) s1(1) s2(1) s3(1,3) show ?thesis by blast
qed

subsection \<open>A full directory\<close>

text \<open>The hash is linear, so a change of the chain bytes alone is always visible in the checksum.\<close>

definition hash_from :: "bytes \<Rightarrow> u32 \<Rightarrow> u32" where
  "hash_from d h = fold (\<lambda>b h. 33 * h + ucast b) d h"

lemma content_hash_from: "hexafs_content_hash d = hash_from d 5381"
  by (simp add: hexafs_content_hash_def hash_from_def push_bit_eq_mult)

lemma hash_from_append: "hash_from (xs @ ys) h = hash_from ys (hash_from xs h)"
  by (simp add: hash_from_def)

lemma hash_from_add: "hash_from d (h + e) = hash_from d h + 33 ^ length d * e"
proof (induction d arbitrary: h e)
  case (Cons b d)
  have "33 * (h + e) + ucast b = (33 * h + ucast b) + 33 * e" by (simp add: algebra_simps)
  with Cons.IH [of "33 * h + ucast b" "33 * e"] show ?case by (simp add: hash_from_def algebra_simps)
qed (simp add: hash_from_def)

lemma pow33_cancel: "33 ^ k * x = 0 \<Longrightarrow> x = (0 :: u32)"
proof (induction k)
  case (Suc k)
  have i: "(1041204193 * 33 :: u32) = 1" by simp
  have "1041204193 * (33 * (33 ^ k * x)) = (1041204193 * 33) * (33 ^ k * x)" by (simp only: mult.assoc)
  also have "\<dots> = 33 ^ k * x" by (simp only: i mult_1_left)
  finally have "1041204193 * (33 * (33 ^ k * x)) = 33 ^ k * x" .
  moreover have "33 * (33 ^ k * x) = 0" using Suc.prems by (simp add: mult.assoc)
  ultimately have "33 ^ k * x = 0" by simp
  with Suc.IH show ?case by simp
qed simp

lemma hash_patch:
  assumes "hash_from (A @ X @ B) h = hash_from (A @ Y @ B) h"
  shows "hash_from X (hash_from A h) = hash_from Y (hash_from A h)"
proof -
  let ?x = "hash_from X (hash_from A h)" and ?y = "hash_from Y (hash_from A h)"
  have "hash_from B ?x = hash_from B (?y + (?x - ?y))" by simp
  also have "\<dots> = hash_from B ?y + 33 ^ length B * (?x - ?y)" by (rule hash_from_add)
  finally have "33 ^ length B * (?x - ?y) = 0" using assms by (simp add: hash_from_append)
  then have "?x - ?y = 0" by (rule pow33_cancel)
  then show ?thesis by simp
qed

lemma hash_le32:
  assumes "hash_from (le32 n) h = hash_from (le32 0) h" and "unat n < HEXAFS_DISK_BLOCKS"
  shows "n = 0"
proof -
  let ?b0 = "ucast (ucast n :: u8) :: u32" and ?b1 = "ucast (ucast (drop_bit 8 n) :: u8) :: u32"
  have u: "unat ?b0 = unat n mod 256" "unat ?b1 = unat n div 256 mod 256"
    by (simp_all add: unsigned_ucast_eq unsigned_take_bit_eq unat_drop_bit_eq drop_bit_nat_def take_bit_nat_def)
  have "unat (drop_bit 16 n) = 0" "unat (drop_bit 24 n) = 0"
    using assms(2) by (simp_all add: unat_drop_bit_eq drop_bit_nat_def del: unat_eq_zero)
  then have d: "drop_bit 16 n = 0" "drop_bit 24 n = 0" by (simp_all only: unat_eq_zero)
  have "hash_from (le32 n) h = hash_from (le32 0) h + 33 ^ 2 * (33 * ?b0 + ?b1)"
    by (simp add: hash_from_def le32_def d algebra_simps)
  with assms(1) have "33 ^ 2 * (33 * ?b0 + ?b1) = 0" by simp
  then have z: "33 * ?b0 + ?b1 = 0" by (rule pow33_cancel)
  have e: "of_nat (33 * unat ?b0 + unat ?b1) = 33 * ?b0 + ?b1" by simp
  have "33 * unat ?b0 + unat ?b1 < 33 * 256 + 256" unfolding u by (intro add_strict_mono mult_strict_left_mono) simp_all
  then have "33 * unat ?b0 + unat ?b1 < 2 ^ LENGTH(32)" by simp
  then have "unat (33 * ?b0 + ?b1) = 33 * unat ?b0 + unat ?b1"
    using word_of_nat_less_eq [where 'a = 32] unfolding e [symmetric] by blast
  with z u have "33 * (unat n mod 256) + unat n div 256 mod 256 = 0" by simp
  then have "unat n mod 256 = 0" "unat n div 256 mod 256 = 0" by simp_all
  moreover have "unat n div 256 < 256" using assms(2) by simp
  ultimately have "unat n div 256 = 0" "unat n mod 256 = 0" by simp_all
  then have "unat n = 0" using div_mult_mod_eq [of "unat n" 256] by simp
  then show ?thesis by (simp only: unat_eq_zero)
qed

lemma le32_de32: "length bs = 4 \<Longrightarrow> le32 (de32 bs) = bs"
proof -
  assume "length bs = 4"
  then obtain a b c d where bs: "bs = [a, b, c, d]" by (auto simp: length_Suc_conv numeral_eq_Suc)
  have hi: "\<not> bit x n" if "8 \<le> n" for x :: u8 and n using that bit_imp_le_length [of x n] by auto
  have "ucast (de32 bs) = a" "ucast (drop_bit 8 (de32 bs)) = b" "ucast (drop_bit 16 (de32 bs)) = c"
    "ucast (drop_bit 24 (de32 bs)) = d"
    by (auto simp: bs de32_def bit_simps hi intro!: bit_word_eqI)
  then show ?thesis by (simp add: le32_def bs)
qed

text \<open>Setting the chain of a block that had none invalidates its checksum.\<close>

lemma set_chain_breaks:
  assumes ok: "abs_ok b" and n: "n \<noteq> 0" "unat n < HEXAFS_DISK_BLOCKS"
  shows "abs_checksum (put32 496 n b) \<noteq> get32 8 (put32 496 n b)"
proof
  assume eq: "abs_checksum (put32 496 n b) = get32 8 (put32 496 n b)"
  have l: "length b = 512" "abs_checksum b = get32 8 b" "abs_chain b = 0" using ok by (simp_all add: abs_ok_def)
  define c where "c = put32 8 0 b"
  have lc: "length c = 512" using l(1) by (simp add: c_def bytes_simps)
  have z: "get_bytes 496 4 c = le32 0"
    using le32_de32 [of "get_bytes 496 4 c"] l lc by (simp add: c_def abs_chain_def get32_def bytes_simps)
  have c: "c = take 496 c @ le32 0 @ drop 500 c"
    using z append_take_drop_id [of 496 c] append_take_drop_id [of 4 "drop 496 c"] by (simp add: get_bytes_def)
  have "put32 8 0 (put32 496 n b) = put32 496 n c"
    using l(1) by (simp add: c_def put32_def put_bytes_def drop_take)
  also have "\<dots> = take 496 c @ le32 n @ drop 500 c" by (simp add: put32_def put_bytes_def)
  finally have "abs_checksum (put32 496 n b) = hash_from (take 496 c @ le32 n @ drop 500 c) 5381"
    by (simp add: abs_checksum_def content_hash_from)
  moreover have "abs_checksum b = hash_from (take 496 c @ le32 0 @ drop 500 c) 5381"
    using c by (simp add: abs_checksum_def content_hash_from c_def [symmetric])
  moreover have "get32 8 (put32 496 n b) = get32 8 b" using l(1) by (simp add: bytes_simps)
  ultimately have "hash_from (take 496 c @ le32 n @ drop 500 c) 5381 = hash_from (take 496 c @ le32 0 @ drop 500 c) 5381"
    using eq l(2) by simp
  from hash_le32 [OF hash_patch [OF this] n(2)] n(1) show False by simp
qed

text \<open>Adding to a full block: the new entry goes to a fresh block, the full one is only re-chained.\<close>

lemma full_add:
  assumes "dir_ok a s" and "alloc_inv s" and "used_lba a s" and "length (dir_entries a s) = 11"
    and "entry_name_ok n" and "1 \<le> free_blocks s"
  obtains nb t where "hexafs_abstraction_add_entry a n ob ty s = Some (True, t)" and "disk_inv t"
    and "blk t a = put32 496 nb (blk s a)" and "valid_lba nb"
proof -
  let ?b = "blk s a"
  have d: "disk_inv s" "valid_lba a" "abs_ok ?b" "a \<noteq> 0"
    using assms(1) by (auto simp: dir_ok_def valid_lba_def)
  have b: "length ?b = 512" "abs_checksum ?b = get32 8 ?b" "abs_magic ?b = HEXAFS_ABSTRACT_MAGIC" "abs_chain ?b = 0"
    using d(3) by (simp_all add: abs_ok_def)
  have full: "\<not> abs_count ?b < HEXAFS_ABS_MAX_ENTRIES"
    using assms(4) by (simp add: dir_entries_def abs_entries_def word_less_nat_alt)
  obtain s1 where s1: "hexafs_block_read a s = (Some ?b, s1)" "disk_inv s1" "blk s1 = blk s"
    using store.rd_cases [OF d(1,2)] .
  note f1 = read_fields [OF s1(1)]
  obtain s2 where s2: "hexafs_abstraction_next_chain a s1 = (0, s2)" "disk_inv s2" "blk s2 = blk s1" "io_frame s1 s2"
    using next_chain_end [OF s1(2) d(2)] s1(3) b(4) by metis
  note f2 = io_frame_fields [OF s2(4)]
  have loop: "abs_add_loop n ob ty a s = Some (Inr a, s2)"
    using s1(1) s2(1) b(2,3) full d(4) by (simp add: abs_add_loop.simps [of n ob ty a])
  have ai: "alloc_inv s2" "disk_used s2 = disk_used s" "free_blocks s2 = free_blocks s"
    using f1 f2 assms(2) by (simp_all add: alloc_inv_def disk_used_def free_blocks_def)
  have "Suc 0 \<le> free_blocks s2" using assms(6) ai(3) by simp
  from abstraction_create_ok [OF s2(2) ai(1) this] obtain nb s3 where c: "hexafs_abstraction_create s2 = (nb, s3)" "nb \<noteq> 0"
    "dir_ok nb s3" "unat nb \<notin> disk_used s2" "blk s3 = (blk s2)(nb := new_abstraction)" by metis
  have na: "nb \<noteq> a" using c(4) assms(3) ai(2) by (auto simp: used_lba_def)
  have nv: "valid_lba nb" "disk_inv s3" using c(3) by (simp_all add: dir_ok_def)
  have b3: "blk s3 a = ?b" using c(5) na s2(3) s1(3) by simp
  obtain s4 where s4: "hexafs_block_read a s3 = (Some ?b, s4)" "disk_inv s4" "blk s4 = blk s3"
    using store.rd_cases [OF nv(2) d(2)] b3 by metis
  have g: "good_block (put32 496 nb ?b)" using b(1) by (simp add: good_block_def bytes_simps)
  obtain s5 where s5: "hexafs_block_write a (put32 496 nb ?b) s4 = (True, s5)" "disk_inv s5"
    "blk s5 = (blk s4)(a := put32 496 nb ?b)" using store.wr_cases [OF s4(2) d(2) g] .
  have ch: "hexafs_abstraction_set_chain a nb s3 = s5"
    using s4(1) s5(1) by (simp add: hexafs_abstraction_set_chain_def)
  have bn: "blk s5 nb = new_abstraction" using s5(3) s4(3) c(5) na by simp
  obtain s6 where s6: "hexafs_block_read nb s5 = (Some new_abstraction, s6)" "disk_inv s6" "blk s6 = blk s5"
    using store.rd_cases [OF s5(2) nv(1)] bn by metis
  have "unat (abs_count new_abstraction) = 0"
    using new_abstraction_ok(2) by (simp add: abs_entries_def)
  then have "abs_ok (abs_put_entry 0 n ob ty new_abstraction)"
    using abs_put_entry_ok(1) [OF new_abstraction_ok(1)] assms(5) by (simp add: entry_name_ok_def)
  then have "good_block (abs_put_entry 0 n ob ty new_abstraction)" by (simp add: abs_ok_def good_block_def)
  from store.wr_cases [OF s6(2) nv(1) this] obtain t where
    t: "hexafs_block_write nb (abs_put_entry 0 n ob ty new_abstraction) s6 = (True, t)" "disk_inv t"
    "blk t = (blk s6)(nb := abs_put_entry 0 n ob ty new_abstraction)" .
  have add: "hexafs_abstraction_add_entry a n ob ty s = Some (True, t)"
    using loop c(1,2) ch s6(1) t(1) by (simp add: hexafs_abstraction_add_entry_def)
  have bt: "blk t a = put32 496 nb ?b" using t(3) s6(3) s5(3) na by simp
  show thesis by (rule that [OF add t(2) bt nv(1)])
qed

text \<open>
  What the twelfth entry does.  Adding an entry to a directory whose block is full succeeds by
  chaining a new block, but it rewrites the first block without renewing its checksum: from then on
  every removal and every further addition through that directory is refused.
\<close>

theorem full_abstraction_locked:
  assumes "dir_ok a s" and "alloc_inv s" and "used_lba a s" and "length (dir_entries a s) = 11"
    and "entry_name_ok n" and "1 \<le> free_blocks s"
  shows "\<exists>s1. hexafs_abstraction_add_entry a n ob ty s = Some (True, s1) \<and>
    (\<forall>m. \<exists>s2. hexafs_abstraction_remove_entry a m s1 = Some (False, s2)) \<and>
    (\<forall>m ob' ty'. \<exists>s2. hexafs_abstraction_add_entry a m ob' ty' s1 = Some (False, s2))"
proof -
  have d: "valid_lba a" "abs_ok (blk s a)" "a \<noteq> 0" using assms(1) by (auto simp: dir_ok_def valid_lba_def)
  obtain nb t where t: "hexafs_abstraction_add_entry a n ob ty s = Some (True, t)" "disk_inv t"
    "blk t a = put32 496 nb (blk s a)" "valid_lba nb" by (rule full_add [OF assms])
  let ?b = "put32 496 nb (blk s a)"
  obtain u where u: "hexafs_block_read a t = (Some ?b, u)" using store.rd_cases [OF t(2) d(1)] t(3) by metis
  have bad: "abs_checksum ?b \<noteq> get32 8 ?b"
    using set_chain_breaks [OF d(2) valid_nonzero [OF t(4)]] t(4) by (simp add: valid_lba_def)
  have "hexafs_abstraction_remove_entry a m t = Some (False, u)" for m
    using u bad d(3) by (simp add: hexafs_abstraction_remove_entry.simps [of a])
  moreover have "\<exists>v. hexafs_abstraction_add_entry a m ob' ty' t = Some (False, v)" for m ob' ty'
    using u bad d(3) by (simp add: hexafs_abstraction_add_entry_def abs_add_loop.simps [of m ob' ty' a])
  ultimately show ?thesis using t(1) by blast
qed

lemma dir_of_length:
  "k \<le> 11 \<Longrightarrow> \<exists>a s. dir_ok a (s :: kdisk) \<and> alloc_inv s \<and> used_lba a s \<and> length (dir_entries a s) = k \<and> 1 \<le> free_blocks s"
proof (induction k)
  case 0
  have "Suc 1 \<le> free_blocks bss_kdisk" by (simp add: bss_free_blocks)
  from abstraction_create_ok [OF bss_disk_inv bss_alloc_inv this] obtain a and s :: kdisk where "dir_ok a s" "dir_entries a s = []"
    "used_lba a s" "alloc_inv s" "1 \<le> free_blocks s" by metis
  then show ?case by auto
next
  case (Suc k)
  then obtain a and s :: kdisk where s: "dir_ok a s" "alloc_inv s" "used_lba a s" "length (dir_entries a s) = k" "1 \<le> free_blocks s"
    by auto
  have "entry_name_ok (cs ''x'')" by (simp add: entry_name_ok_def cs_def)
  from dir_add_ok [OF s(1) this, of 1 1] obtain s' where s': "dir_ok a s'" "io_frame s s'"
    "dir_entries a s' = dir_entries a s @ [(cs ''x'', 1, 1)]" using s(4) Suc.prems by auto
  note f = io_frame_fields [OF s'(2)]
  have "alloc_inv s'" "used_lba a s'" "1 \<le> free_blocks s'"
    using s(2,3,5) f by (simp_all add: alloc_inv_def used_lba_def disk_used_def free_blocks_def)
  with s' s(4) show ?case by (intro exI [of _ a] exI [of _ s']) simp
qed

theorem full_abstraction_locked_witness:
  "\<exists>a (s :: kdisk) s1 s2. length (dir_entries a s) = 11 \<and>
     hexafs_abstraction_add_entry a (cs ''twelfth'') 300 HEXAFS_FORM s = Some (True, s1) \<and>
     hexafs_abstraction_remove_entry a (cs ''twelfth'') s1 = Some (False, s2)"
proof -
  obtain a and s :: kdisk where s: "dir_ok a s" "alloc_inv s" "used_lba a s" "length (dir_entries a s) = 11" "1 \<le> free_blocks s"
    using dir_of_length [of 11] by auto
  have "entry_name_ok (cs ''twelfth'')" by (simp add: entry_name_ok_def cs_def)
  from full_abstraction_locked [OF s(1-4) this s(5), of 300 HEXAFS_FORM] s(4) show ?thesis by blast
qed

end
