(* ===== verification/Hexa_Cstring.thy ===== *)
theory Hexa_Cstring
  imports Hexa_Memory
begin

text \<open>
  The string library and the password hashing of \<^verbatim>\<open>hexa.c\<close>.  A pointer into a string is the list of
  the bytes from there on; a character array that is written is a list of bytes of its length.
  Functions that work on untyped memory (\<^verbatim>\<open>memset\<close>, \<^verbatim>\<open>memcpy\<close>) run on byte memory.
\<close>

section \<open>Operations\<close>

lemma c_at_nonempty: "c_at str 0 \<noteq> 0 \<Longrightarrow> str \<noteq> []"
  by (auto simp: c_at_def)

function strcmp :: "bytes \<Rightarrow> bytes \<Rightarrow> int" where
  "strcmp s1 s2 =
     (if c_at s1 0 \<noteq> 0 \<and> c_at s1 0 = c_at s2 0 then strcmp (tl s1) (tl s2)
      else int (unat (c_at s1 0)) - int (unat (c_at s2 0)))"
  by pat_completeness auto
termination
  by (relation "measure (\<lambda>(s1, s2). length s1)") (auto dest: c_at_nonempty)

function strlen :: "bytes \<Rightarrow> nat" where
  "strlen str = (if c_at str 0 \<noteq> 0 then 1 + strlen (tl str) else 0)"
  by pat_completeness auto
termination
  by (relation "measure length") (auto dest: c_at_nonempty)

text \<open>\<^verbatim>\<open>while ((*dest++ = *src++));\<close> with \<^verbatim>\<open>dest\<close> at index \<open>i\<close> of its array.\<close>

function strcpy_at :: "nat \<Rightarrow> bytes \<Rightarrow> bytes \<Rightarrow> bytes" where
  "strcpy_at i dest src =
     (let c = c_at src 0; dest = dest[i := c]
      in if c \<noteq> 0 then strcpy_at (i + 1) dest (tl src) else dest)"
  by pat_completeness auto
termination
  by (relation "measure (\<lambda>(i, dest, src). length src)") (auto dest: c_at_nonempty)

declare strcmp.simps [simp del] strlen.simps [simp del] strcpy_at.simps [simp del]

definition strcpy :: "bytes \<Rightarrow> bytes \<Rightarrow> bytes" where
  "strcpy dest src = strcpy_at 0 dest src"

definition strcat :: "bytes \<Rightarrow> bytes \<Rightarrow> bytes" where
  "strcat dest src = strcpy_at (strlen dest) dest src"

fun memset :: "u32 \<Rightarrow> u8 \<Rightarrow> nat \<Rightarrow> mem \<Rightarrow> mem" where
  "memset dest v 0 m = m"
| "memset dest v (Suc len) m = memset (dest + 1) v len (m(dest := v))"

fun memcpy :: "u32 \<Rightarrow> u32 \<Rightarrow> nat \<Rightarrow> mem \<Rightarrow> mem" where
  "memcpy dest src 0 m = m"
| "memcpy dest src (Suc len) m = memcpy (dest + 1) (src + 1) len (m(dest := m src))"

fun memcmp :: "bytes \<Rightarrow> bytes \<Rightarrow> nat \<Rightarrow> int" where
  "memcmp a b 0 = 0"
| "memcmp a b (Suc n) =
     (if c_at a 0 \<noteq> c_at b 0 then int (unat (c_at a 0)) - int (unat (c_at b 0)) else memcmp (tl a) (tl b) n)"

text \<open>The accumulator is a 32-bit integer that wraps around.\<close>

function atoi_loop :: "u32 \<Rightarrow> bytes \<Rightarrow> u32" where
  "atoi_loop res str =
     (let c = c_at str 0
      in if c \<noteq> 0 \<and> 48 \<le> c \<and> c \<le> 57 then atoi_loop (res * 10 + ucast c - 48) (tl str) else res)"
  by pat_completeness auto
termination
  by (relation "measure (\<lambda>(res, str). length str)") (auto dest: c_at_nonempty)

declare atoi_loop.simps [simp del]

definition atoi :: "bytes \<Rightarrow> int" where
  "atoi str = to_int (if c_at str 0 = 45 then - atoi_loop 0 (tl str) else atoi_loop 0 str)"

definition digit_char :: "nat \<Rightarrow> u8" where
  "digit_char rem = (if rem > 9 then of_nat (rem - 10) + 65 else of_nat rem + 48)"

text \<open>
  The digits from the lowest up.  Every call in the kernel passes base 10 or 16; for base 0 the C
  code divides by zero and for base 1 it does not end, cases that are outside the model.
\<close>

function itoa_loop :: "nat \<Rightarrow> nat \<Rightarrow> bytes" where
  "itoa_loop base unum =
     (if unum \<noteq> 0 \<and> 2 \<le> base then digit_char (unum mod base) # itoa_loop base (unum div base) else [])"
  by pat_completeness auto
termination
  by (relation "measure snd") auto

declare itoa_loop.simps [simp del]

text \<open>The swap loop that reverses \<^verbatim>\<open>str[start..end]\<close> in place; \<open>stop\<close> is \<^verbatim>\<open>end + 1\<close>.\<close>

function swap_loop :: "nat \<Rightarrow> nat \<Rightarrow> bytes \<Rightarrow> bytes" where
  "swap_loop start stop str =
     (if start + 1 < stop
      then swap_loop (start + 1) (stop - 1) (str[start := str ! (stop - 1), stop - 1 := str ! start])
      else str)"
  by pat_completeness auto
termination
  by (relation "measure (\<lambda>(start, stop, str). stop - start)") auto

declare swap_loop.simps [simp del]

definition itoa :: "u32 \<Rightarrow> nat \<Rightarrow> bytes" where
  "itoa num base =
     (if num = 0 then [48]
      else
        let isNegative = (base = 10 \<and> to_int num < 0);
            unum = (if isNegative then - num else num);
            str = itoa_loop base (unat unum) @ (if isNegative then [45] else [])
        in swap_loop 0 (length str) str)"

section \<open>Passwords\<close>

definition pwd_round :: "u32 \<Rightarrow> u32" where
  "pwd_round h = (push_bit 5 h + h) + drop_bit 16 h + (h AND 0xFF)"

definition pwd_hash :: "bytes \<Rightarrow> u32 \<Rightarrow> nat \<Rightarrow> u32" where
  "pwd_hash str salt iters =
     (pwd_round ^^ (iters - 1)) (fold (\<lambda>c h. (push_bit 5 h + h) + ucast c) (c_str str) (5381 + salt))"

definition hex_val :: "u8 \<Rightarrow> u32" where
  "hex_val c =
     (if 48 \<le> c \<and> c \<le> 57 then ucast c - 48
      else if 97 \<le> c \<and> c \<le> 102 then ucast c - 97 + 10
      else if 65 \<le> c \<and> c \<le> 70 then ucast c - 65 + 10 else 0)"

definition encode_pwd :: "bytes \<Rightarrow> bytes \<Rightarrow> u32 \<Rightarrow> bytes" where
  "encode_pwd out pass salt =
     (let iters = 5;
          h = pwd_hash pass salt iters;
          tmp = itoa salt 16;
          sl = strlen tmp;
          out = out[0 := 48, 1 := 48, 2 := 48, 3 := 48];
          out = fold (\<lambda>i out. out[3 - i := tmp ! (sl - 1 - i)]) [0..<min sl 4] out;
          out = out[4 := 43, 5 := cs ''0123456789ABCDEF'' ! iters]
      in strcpy_at 6 out (itoa h 16))"

function hex_loop :: "u32 \<Rightarrow> bytes \<Rightarrow> u32" where
  "hex_loop sh hp = (if c_at hp 0 \<noteq> 0 then hex_loop (sh * 16 + hex_val (c_at hp 0)) (tl hp) else sh)"
  by pat_completeness auto
termination
  by (relation "measure (\<lambda>(sh, hp). length hp)") (auto dest: c_at_nonempty)

declare hex_loop.simps [simp del]

definition hex_field :: "nat \<Rightarrow> bytes \<Rightarrow> u32" where
  "hex_field n encoded = fold (\<lambda>i salt. salt * 16 + hex_val (c_at encoded i)) [0..<n] 0"

definition check_pwd :: "bytes \<Rightarrow> bytes \<Rightarrow> bool" where
  "check_pwd pass encoded \<longleftrightarrow>
     (if c_at encoded 4 = 43
      then pwd_hash pass (hex_field 4 encoded) (unat (hex_val (c_at encoded 5))) = hex_loop 0 (drop 6 encoded)
      else if c_at encoded 2 \<noteq> 32 then False
      else pwd_hash pass (hex_field 2 encoded) 1 = hex_loop 0 (drop 3 encoded))"

section \<open>The loops compute what their names say\<close>

lemma strlen_c_str: "strlen str = length (c_str str)"
proof (induction str)
  case Nil
  show ?case by (simp add: strlen.simps c_at_def c_str_def)
next
  case (Cons c str)
  then show ?case by (subst strlen.simps) (simp add: c_at_def c_str_def)
qed

lemma strcmp_zero_iff: "strcmp a b = 0 \<longleftrightarrow> c_str a = c_str b"
proof (induction a b rule: strcmp.induct)
  case (1 a b)
  show ?case
  proof (cases "c_at a 0 \<noteq> 0 \<and> c_at a 0 = c_at b 0")
    case True
    then have "a \<noteq> []" "b \<noteq> []" by (auto simp: c_at_def)
    with 1 True show ?thesis by (subst strcmp.simps) (cases a; cases b; simp add: c_at_def c_str_def)
  next
    case False
    have "strcmp a b = int (unat (c_at a 0)) - int (unat (c_at b 0))" using False by (subst strcmp.simps) auto
    then have "strcmp a b = 0 \<longleftrightarrow> c_at a 0 = c_at b 0" by (simp add: word_uint_eq_iff)
    also have "\<dots> \<longleftrightarrow> c_str a = c_str b"
      using False by (cases a; cases b) (auto simp: c_at_def c_str_def)
    finally show ?thesis .
  qed
qed

lemma strcpy_at_eq:
  "i + length (c_str src) < length dest \<Longrightarrow> strcpy_at i dest src = put_bytes i (c_str src @ [0]) dest"
proof (induction i dest src rule: strcpy_at.induct)
  case (1 i dest src)
  show ?case
  proof (cases "c_at src 0 = 0")
    case True
    then have "c_str src = []" by (cases src) (auto simp: c_at_def c_str_def)
    with True 1(2) show ?thesis by (subst strcpy_at.simps) (simp add: put_bytes_def upd_conv_take_nth_drop)
  next
    case False
    then obtain c str where src: "src = c # str" "c \<noteq> 0" by (cases src) (auto simp: c_at_def)
    have l: "Suc i + length (c_str str) < length (dest[i := c])" using 1(2) src by (simp add: c_str_def)
    have "strcpy_at i dest src = strcpy_at (Suc i) (dest[i := c]) str"
      using src by (subst strcpy_at.simps) (simp add: c_at_def)
    also have "\<dots> = put_bytes (Suc i) (c_str str @ [0]) (dest[i := c])"
      using 1(1) [of c "dest[i := c]"] src l by (simp add: c_at_def)
    also have "\<dots> = put_bytes i (c # c_str str @ [0]) dest"
      using l by (simp add: put_bytes_def take_Suc_conv_app_nth)
    finally show ?thesis using src by (simp add: c_str_def)
  qed
qed

lemma rev_short: "length xs \<le> 1 \<Longrightarrow> rev xs = xs"
  by (cases xs) auto

lemma swap_loop_rev:
  "start \<le> stop \<Longrightarrow> stop \<le> length str \<Longrightarrow>
   swap_loop start stop str = take start str @ rev (take (stop - start) (drop start str)) @ drop stop str"
proof (induction start stop str rule: swap_loop.induct)
  case (1 start stop str)
  show ?case
  proof (cases "start + 1 < stop")
    case False
    then have "length (take (stop - start) (drop start str)) \<le> 1" using 1(2) by auto
    then have "rev (take (stop - start) (drop start str)) = take (stop - start) (drop start str)" by (rule rev_short)
    moreover have "take start str @ take (stop - start) (drop start str) @ drop stop str = str"
      using 1(2) by (simp flip: take_add append_assoc)
    ultimately show ?thesis using False by (subst swap_loop.simps) simp
  next
    case True
    define mid where "mid = take (stop - start - 2) (drop (start + 1) str)"
    let ?x = "str ! start" and ?y = "str ! (stop - 1)"
    have seg: "take (stop - start) (drop start str) = ?x # mid @ [?y]"
    proof (rule nth_equalityI)
      show "length (take (stop - start) (drop start str)) = length (?x # mid @ [?y])"
        using True 1(3) by (simp add: mid_def)
      fix i assume "i < length (take (stop - start) (drop start str))"
      then have i: "i < stop - start" by simp
      show "take (stop - start) (drop start str) ! i = (?x # mid @ [?y]) ! i"
        using i True 1(3) by (cases i) (auto simp: mid_def nth_append intro!: arg_cong [where f = "nth str"])
    qed
    let ?s = "str[start := ?y, stop - 1 := ?x]"
    have ih: "swap_loop (start + 1) (stop - 1) ?s =
        take (start + 1) ?s @ rev (take (stop - 1 - (start + 1)) (drop (start + 1) ?s)) @ drop (stop - 1) ?s"
      using 1(1) [OF True] True 1(3) by simp
    have "take (stop - 1 - (start + 1)) (drop (start + 1) ?s) = mid"
      using True 1(3) by (auto simp: mid_def intro!: nth_equalityI)
    moreover have "take (start + 1) ?s = take start str @ [?y]"
      using True 1(3) by (auto simp: take_Suc_conv_app_nth nth_append intro!: nth_equalityI)
    moreover have "drop (stop - 1) ?s = ?x # drop stop str"
      using True 1(3) by (auto simp: Cons_nth_drop_Suc [symmetric])
    ultimately show ?thesis using True ih seg by (subst swap_loop.simps) simp
  qed
qed

text \<open>Reading a string of characters that are not NUL.\<close>

lemma atoi_loop_fold:
  "(\<forall>c \<in> set ds. 48 \<le> c \<and> c \<le> 57) \<Longrightarrow> atoi_loop r ds = fold (\<lambda>c r. r * 10 + ucast c - 48) ds r"
proof (induction ds arbitrary: r)
  case Nil
  show ?case by (simp add: atoi_loop.simps c_at_def)
next
  case (Cons c ds)
  then have "c \<noteq> 0" by auto
  with Cons show ?case by (subst atoi_loop.simps) (simp add: c_at_def)
qed

lemma hex_loop_fold: "0 \<notin> set ds \<Longrightarrow> hex_loop r (ds @ 0 # zs) = fold (\<lambda>c r. r * 16 + hex_val c) ds r"
proof (induction ds arbitrary: r)
  case Nil
  show ?case by (simp add: hex_loop.simps c_at_def)
next
  case (Cons c ds)
  then show ?case by (subst hex_loop.simps) (simp add: c_at_def)
qed

text \<open>The digits of a number, read back from the highest.\<close>

lemma digit_char_values:
  "d < 16 \<Longrightarrow> hex_val (digit_char d) = of_nat d \<and> digit_char d \<noteq> 0"
  "d < 10 \<Longrightarrow> ucast (digit_char d) - 48 = (of_nat d :: u32) \<and> 48 \<le> digit_char d \<and> digit_char d \<le> 57"
proof -
  assume "d < 16"
  then have "d = 0 \<or> d = 1 \<or> d = 2 \<or> d = 3 \<or> d = 4 \<or> d = 5 \<or> d = 6 \<or> d = 7 \<or>
    d = 8 \<or> d = 9 \<or> d = 10 \<or> d = 11 \<or> d = 12 \<or> d = 13 \<or> d = 14 \<or> d = 15"
    by presburger
  then show "hex_val (digit_char d) = of_nat d \<and> digit_char d \<noteq> 0"
    by (elim disjE) (simp_all add: hex_val_def digit_char_def)
next
  assume "d < 10"
  then have "d = 0 \<or> d = 1 \<or> d = 2 \<or> d = 3 \<or> d = 4 \<or> d = 5 \<or> d = 6 \<or> d = 7 \<or> d = 8 \<or> d = 9" by presburger
  then show "ucast (digit_char d) - 48 = (of_nat d :: u32) \<and> 48 \<le> digit_char d \<and> digit_char d \<le> 57"
    by (elim disjE) (simp_all add: digit_char_def)
qed

lemma itoa_loop_set: "c \<in> set (itoa_loop base n) \<Longrightarrow> \<exists>d < base. c = digit_char d"
proof (induction base n rule: itoa_loop.induct)
  case (1 base n)
  then have nz: "n \<noteq> 0 \<and> 2 \<le> base" by (subst (asm) (2) itoa_loop.simps) (simp split: if_splits)
  then have "n mod base < base" by simp
  moreover from 1(2) nz have "c = digit_char (n mod base) \<or> c \<in> set (itoa_loop base (n div base))"
    by (subst (asm) itoa_loop.simps) simp
  ultimately show ?case using 1(1) [OF nz] by blast
qed

lemma itoa_loop_value:
  assumes "2 \<le> base" and "\<And>d. d < base \<Longrightarrow> v (digit_char d) = (of_nat d :: u32)"
  shows "fold (\<lambda>c r. r * of_nat base + v c) (rev (itoa_loop base n)) 0 = of_nat n"
proof (induction n rule: less_induct)
  case (less n)
  show ?case
  proof (cases "n = 0")
    case True
    then show ?thesis by (subst itoa_loop.simps) simp
  next
    case False
    with less [of "n div base"] assms(1)
    have "fold (\<lambda>c r. r * of_nat base + v c) (rev (itoa_loop base (n div base))) 0 = of_nat (n div base)" by simp
    moreover have "v (digit_char (n mod base)) = of_nat (n mod base)" using assms by simp
    ultimately show ?thesis using False assms(1) by (subst itoa_loop.simps) (simp flip: of_nat_mult of_nat_add)
  qed
qed

lemma itoa_eq:
  "itoa num base = (if num = 0 then [48] else
     (if base = 10 \<and> to_int num < 0 then 45 # rev (itoa_loop base (unat (- num))) else rev (itoa_loop base (unat num))))"
  by (simp add: itoa_def Let_def swap_loop_rev)

lemma fold_cong_set: "(\<And>c r. c \<in> set ds \<Longrightarrow> f c r = g c r) \<Longrightarrow> fold f ds r = fold g ds r"
  by (rule fold_cong) auto

lemma atoi_digits: "atoi_loop 0 (rev (itoa_loop 10 n)) = of_nat n"
proof -
  have d: "\<forall>c \<in> set (rev (itoa_loop 10 n)). 48 \<le> c \<and> c \<le> 57"
    using itoa_loop_set [of _ 10 n] digit_char_values(2) by fastforce
  have "fold (\<lambda>c r. r * of_nat 10 + (ucast c - 48)) (rev (itoa_loop 10 n)) 0 = (of_nat n :: u32)"
    by (rule itoa_loop_value) (use digit_char_values(2) in auto)
  then show ?thesis by (simp add: atoi_loop_fold [OF d] add_diff_eq)
qed

lemma itoa_loop_nonempty: "n \<noteq> 0 \<Longrightarrow> 2 \<le> base \<Longrightarrow> itoa_loop base n \<noteq> []"
  by (subst itoa_loop.simps) simp

section \<open>Properties\<close>

text \<open>
  Decimal printing and parsing are inverse on all 32-bit integers: \<^verbatim>\<open>atoi\<close> of what \<^verbatim>\<open>itoa\<close> prints in
  base 10 is the number, the most negative one included.
\<close>

theorem atoi_itoa: "atoi (itoa num 10) = to_int num"
proof (cases "num = 0")
  case True
  have "atoi_loop 0 [48] = 0" using atoi_loop_fold [of "[48]" 0] by simp
  with True show ?thesis by (simp add: itoa_eq atoi_def c_at_def)
next
  case False
  show ?thesis
  proof (cases "to_int num < 0")
    case True
    have "atoi (itoa num 10) = to_int (- of_nat (unat (- num)))"
      using False True by (simp add: itoa_eq atoi_def c_at_def atoi_digits)
    then show ?thesis by simp
  next
    case nn: False
    let ?s = "rev (itoa_loop 10 (unat num))"
    have "?s \<noteq> []" using False itoa_loop_nonempty [of "unat num" 10] by (simp add: unat_eq_zero)
    then have "c_at ?s 0 \<in> set ?s" using nth_mem [of 0 ?s] by (auto simp: c_at_def)
    then have "c_at ?s 0 \<noteq> 45" using itoa_loop_set [of _ 10] digit_char_values(2) by fastforce
    then have "atoi (itoa num 10) = to_int (of_nat (unat num))"
      using False nn by (simp add: itoa_eq atoi_def atoi_digits)
    then show ?thesis by simp
  qed
qed

text \<open>
  The in-place reversal of \<^verbatim>\<open>itoa\<close> is list reversal, so \<^verbatim>\<open>itoa\<close> writes the digits from the highest
  to the lowest, after a minus sign exactly for negative numbers in base 10.
\<close>

theorem itoa_digits:
  "swap_loop 0 (length str) str = rev str \<and>
   itoa num base = (if num = 0 then [48] else
     (if base = 10 \<and> to_int num < 0 then [45] else []) @
     rev (itoa_loop base (unat (if base = 10 \<and> to_int num < 0 then - num else num))))"
  using itoa_eq [of num base] by (simp add: swap_loop_rev)

lemma length_itoa_loop: "n < base ^ k \<Longrightarrow> length (itoa_loop base n) \<le> k"
proof (induction k arbitrary: n)
  case 0
  then show ?case by (subst itoa_loop.simps) simp
next
  case (Suc k)
  show ?case
  proof (cases "n \<noteq> 0 \<and> 2 \<le> base")
    case True
    then have "n div base < base ^ k" using Suc.prems by (simp add: less_mult_imp_div_less mult.commute)
    with Suc.IH True show ?thesis by (subst itoa_loop.simps) simp
  next
    case False
    then have "itoa_loop base n = []" by (subst itoa_loop.simps) auto
    then show ?thesis by simp
  qed
qed

lemma itoa_hex:
  assumes "unat num < 16 ^ k" and "0 < k"
  shows "0 \<notin> set (itoa num 16)" and "itoa num 16 \<noteq> []" and "length (itoa num 16) \<le> k"
    and "fold (\<lambda>c r. r * 16 + hex_val c) (itoa num 16) 0 = num"
proof -
  let ?l = "itoa_loop 16 (unat num)"
  have e: "itoa num 16 = (if num = 0 then [48] else rev ?l)" by (simp add: itoa_eq)
  have "0 \<notin> set ?l" using itoa_loop_set [of 0 16 "unat num"] digit_char_values(1) by force
  then show "0 \<notin> set (itoa num 16)" by (simp add: e)
  have "num \<noteq> 0 \<Longrightarrow> ?l \<noteq> []" using itoa_loop_nonempty [of "unat num" 16] by (simp add: unat_eq_zero)
  then show "itoa num 16 \<noteq> []" by (simp add: e)
  show "length (itoa num 16) \<le> k" using length_itoa_loop [OF assms(1)] assms(2) by (simp add: e)
  have "fold (\<lambda>c r. r * of_nat 16 + hex_val c) (rev ?l) 0 = of_nat (unat num)"
    by (rule itoa_loop_value) (use digit_char_values(1) in auto)
  then show "fold (\<lambda>c r. r * 16 + hex_val c) (itoa num 16) 0 = num" by (simp add: e hex_val_def)
qed

text \<open>The salt field: the hexadecimal digits, filled up with zeros on the left.\<close>

lemma short_list_cases:
  assumes "xs \<noteq> []" and "length xs \<le> 4"
  obtains a where "xs = [a]" | a b where "xs = [a, b]" | a b c where "xs = [a, b, c]"
    | a b c d where "xs = [a, b, c, d]"
  using assms by (cases xs rule: list.exhaust; auto simp: le_Suc_eq length_Suc_conv numeral_eq_Suc)

definition salt_field :: "bytes \<Rightarrow> bytes" where
  "salt_field tmp = replicate (4 - length tmp) 48 @ tmp"

lemma salt_digits:
  assumes "tmp \<noteq> []" and "length tmp \<le> 4" and "4 \<le> length out"
  shows "fold (\<lambda>i out. out[3 - i := tmp ! (length tmp - 1 - i)]) [0..<min (length tmp) 4]
           (out[0 := 48, 1 := 48, 2 := 48, 3 := 48]) = salt_field tmp @ drop 4 out"
proof -
  obtain w x y z r where o: "out = w # x # y # z # r"
    using assms(3) by (auto simp: Suc_le_length_iff numeral_eq_Suc)
  from assms(1,2) show ?thesis
    by (cases rule: short_list_cases) (simp_all add: o salt_field_def upt_rec numeral_eq_Suc)
qed

lemma salt_field_value:
  assumes "tmp \<noteq> []" and "length tmp \<le> 4"
  shows "hex_field 4 (salt_field tmp @ r) = fold (\<lambda>c r. r * 16 + hex_val c) tmp 0"
proof -
  have e: "[0..<4] = [0, 1, 2, 3::nat]" by (simp add: upt_rec eval_nat_numeral)
  have z: "hex_val 48 = 0" by (simp add: hex_val_def)
  from assms show ?thesis
    by (cases rule: short_list_cases) (simp_all add: salt_field_def hex_field_def e z c_at_def nth_append)
qed

lemma length_salt_field: "length tmp \<le> 4 \<Longrightarrow> length (salt_field tmp) = 4"
  by (simp add: salt_field_def)

lemma encode_pwd_eq:
  assumes "unat salt < 65536" and "15 \<le> length out"
  shows "encode_pwd out pass salt =
    salt_field (itoa salt 16) @ 43 # 53 # itoa (pwd_hash pass salt 5) 16 @ 0 #
    drop (7 + length (itoa (pwd_hash pass salt 5) 16)) out"
proof -
  let ?tmp = "itoa salt 16" and ?h = "itoa (pwd_hash pass salt 5) 16"
  have s: "0 \<notin> set ?tmp" "?tmp \<noteq> []" "length ?tmp \<le> 4" using itoa_hex [of salt 4] assms(1) by simp_all
  have "unat (pwd_hash pass salt 5) < 16 ^ 8" using unsigned_less [of "pwd_hash pass salt 5", where 'a = nat] by simp
  then have h: "0 \<notin> set ?h" "length ?h \<le> 8" using itoa_hex [of "pwd_hash pass salt 5" 8] by simp_all
  let ?o = "(salt_field ?tmp @ drop 4 out)[4 := 43, 5 := 53]"
  have sl: "strlen ?tmp = length ?tmp" by (simp add: strlen_c_str c_str_id [OF s(1)])
  have "encode_pwd out pass salt = strcpy_at 6 ?o ?h"
    using salt_digits [OF s(2,3), of out] assms(2)
    by (simp add: encode_pwd_def Let_def sl cs_def of_char_def)
  also have "\<dots> = put_bytes 6 (?h @ [0]) ?o"
    using strcpy_at_eq [of 6 ?h ?o] h assms(2) by (simp add: c_str_id length_salt_field [OF s(3)])
  also have "?o = salt_field ?tmp @ 43 # 53 # drop 6 out"
    using assms(2) length_salt_field [OF s(3)]
    by (simp add: list_update_append Cons_nth_drop_Suc [symmetric] numeral_eq_Suc)
  also have "put_bytes 6 (?h @ [0]) \<dots> = salt_field ?tmp @ 43 # 53 # ?h @ 0 # drop (7 + length ?h) out"
    using length_salt_field [OF s(3)] by (simp add: put_bytes_def drop_Cons' add.commute)
  finally show ?thesis .
qed

lemma check_pwd_encode_pwd:
  assumes "unat salt < 65536" and "length out = 32"
  shows "check_pwd pass' (encode_pwd out pass salt) \<longleftrightarrow> pwd_hash pass' salt 5 = pwd_hash pass salt 5"
proof -
  let ?tmp = "itoa salt 16" and ?h = "itoa (pwd_hash pass salt 5) 16"
  have s: "?tmp \<noteq> []" "length ?tmp \<le> 4" "fold (\<lambda>c r. r * 16 + hex_val c) ?tmp 0 = salt"
    using itoa_hex [of salt 4] assms(1) by simp_all
  have "unat (pwd_hash pass salt 5) < 16 ^ 8" using unsigned_less [of "pwd_hash pass salt 5", where 'a = nat] by simp
  then have h: "0 \<notin> set ?h" "fold (\<lambda>c r. r * 16 + hex_val c) ?h 0 = pwd_hash pass salt 5"
    using itoa_hex [of "pwd_hash pass salt 5" 8] by simp_all
  have l: "length (salt_field ?tmp) = 4" by (rule length_salt_field [OF s(2)])
  obtain zs where e: "encode_pwd out pass salt = salt_field ?tmp @ 43 # 53 # ?h @ 0 # zs"
    using encode_pwd_eq [OF assms(1), of out pass] assms(2) by auto
  have "c_at (encode_pwd out pass salt) 4 = 43" "c_at (encode_pwd out pass salt) 5 = 53"
    "drop 6 (encode_pwd out pass salt) = ?h @ 0 # zs"
    by (simp_all add: e c_at_def nth_append l)
  moreover have "hex_field 4 (encode_pwd out pass salt) = salt"
    unfolding e using salt_field_value [OF s(1,2)] s(3) by simp
  moreover have "unat (hex_val 53) = 5" by (simp add: hex_val_def)
  ultimately show ?thesis using hex_loop_fold [OF h(1), of 0 zs] h(2) by (simp add: check_pwd_def)
qed

text \<open>
  A stored password accepts exactly the inputs with the stored hash: for every password, every
  16-bit salt and every previous content of the field, \<^verbatim>\<open>check_pwd\<close> on what \<^verbatim>\<open>encode_pwd\<close> wrote parses
  salt, iteration count and hash back from the text and succeeds iff the salted five-round hashes of the
  two passwords agree; in particular the right password is never refused.
\<close>

theorem check_encode_pwd:
  assumes "unat salt < 65536" and "length out = 32"
  shows "check_pwd pass' (encode_pwd out pass salt) \<longleftrightarrow> pwd_hash pass' salt 5 = pwd_hash pass salt 5"
  by (rule check_pwd_encode_pwd [OF assms])

lemma check_encode_pwd_witness:
  "check_pwd (cs ''root'') (encode_pwd (zeros 32) (cs ''root'') 0xABCD)"
  using check_encode_pwd [of "0xABCD" "zeros 32" "cs ''root''" "cs ''root''"] by simp

end
