(* ===== verification/Hexa_Console.thy ===== *)
theory Hexa_Console
  imports Hexa_Disk
begin

text \<open>
  The text console of \<^verbatim>\<open>hexa.c\<close>: the 80 x 25 cells of the VGA text buffer, the cursor, and the copy of
  every character on the serial port (\<open>serial_out\<close>, shared with the kernel log).  The text buffer at
  \<^verbatim>\<open>0xB8000\<close> is the list \<open>vga\<close> of its 2000 cells; \<open>crtc_cursor\<close> is the position that the four port
  writes of \<^verbatim>\<open>update_cursor\<close> give the display controller.  The status polling before each serial byte
  is bounded and the byte is sent in any case.
\<close>

section \<open>Operations\<close>

abbreviation VGA_WIDTH :: nat where "VGA_WIDTH \<equiv> 80"
abbreviation VGA_HEIGHT :: nat where "VGA_HEIGHT \<equiv> 25"

record kcon = kdisk +
  vga :: "u16 list"
  cursor_x :: nat
  cursor_y :: nat
  current_color :: u8
  crtc_cursor :: u16

definition vga_cell :: "u8 \<Rightarrow> u8 \<Rightarrow> u16" where
  "vga_cell color c = push_bit 8 (ucast color) OR ucast c"

text \<open>The cell index of the cursor.\<close>

definition cursor_cell :: "'a kcon_scheme \<Rightarrow> nat" where
  "cursor_cell s = cursor_y s * VGA_WIDTH + cursor_x s"

definition vga_put :: "u8 \<Rightarrow> u8 \<Rightarrow> 'a kcon_scheme \<Rightarrow> 'a kcon_scheme" where
  "vga_put color c s = s\<lparr>vga := (vga s)[cursor_cell s := vga_cell color c]\<rparr>"

definition update_cursor :: "'a kcon_scheme \<Rightarrow> 'a kcon_scheme" where
  "update_cursor s = s\<lparr>crtc_cursor := of_nat (cursor_cell s)\<rparr>"

definition serial_putc :: "u8 \<Rightarrow> 'a klog_scheme \<Rightarrow> 'a klog_scheme" where
  "serial_putc c s = s\<lparr>serial_out := serial_out s @ [c]\<rparr>"

definition backspace :: "'a kcon_scheme \<Rightarrow> 'a kcon_scheme" where
  "backspace s =
     (if cursor_x s > 0 then s\<lparr>cursor_x := cursor_x s - 1\<rparr>
      else if cursor_y s > 0 then s\<lparr>cursor_y := cursor_y s - 1, cursor_x := VGA_WIDTH - 1\<rparr>
      else s)"

definition advance :: "u8 \<Rightarrow> u8 \<Rightarrow> 'a kcon_scheme \<Rightarrow> 'a kcon_scheme" where
  "advance c color s =
     (if c = 10 then serial_putc 13 (s\<lparr>cursor_x := 0, cursor_y := cursor_y s + 1\<rparr>)
      else if c = 13 then s\<lparr>cursor_x := 0\<rparr>
      else (vga_put color c s)\<lparr>cursor_x := cursor_x s + 1\<rparr>)"

definition wrap_line :: "'a kcon_scheme \<Rightarrow> 'a kcon_scheme" where
  "wrap_line s = (if cursor_x s \<ge> VGA_WIDTH then s\<lparr>cursor_x := 0, cursor_y := cursor_y s + 1\<rparr> else s)"

definition scroll :: "u8 \<Rightarrow> 'a kcon_scheme \<Rightarrow> 'a kcon_scheme" where
  "scroll color s =
     (if cursor_y s \<ge> VGA_HEIGHT
      then s\<lparr>vga := drop VGA_WIDTH (vga s) @ replicate VGA_WIDTH (vga_cell color 32), cursor_y := VGA_HEIGHT - 1\<rparr>
      else s)"

definition put_char :: "u8 \<Rightarrow> u8 \<Rightarrow> 'a kcon_scheme \<Rightarrow> 'a kcon_scheme" where
  "put_char c color s =
     (if c = 8
      then update_cursor (serial_putc 8 (serial_putc 32 (serial_putc 8 (vga_put color 32 (backspace s)))))
      else update_cursor (scroll color (wrap_line (advance c color (serial_putc c s)))))"

definition print_string :: "bytes \<Rightarrow> 'a kcon_scheme \<Rightarrow> 'a kcon_scheme" where
  "print_string str s = fold (\<lambda>c s. put_char c (current_color s) s) (c_str str) s"

definition print_color :: "bytes \<Rightarrow> u8 \<Rightarrow> 'a kcon_scheme \<Rightarrow> 'a kcon_scheme" where
  "print_color str color s =
     (let old = current_color s in (print_string str (s\<lparr>current_color := color\<rparr>))\<lparr>current_color := old\<rparr>)"

definition clear_screen :: "'a kcon_scheme \<Rightarrow> 'a kcon_scheme" where
  "clear_screen s =
     fold serial_putc ([27] @ cs ''[2J'' @ [27] @ cs ''[H'')
       (s\<lparr>vga := replicate (VGA_WIDTH * VGA_HEIGHT) (vga_cell (current_color s) 32), cursor_x := 0, cursor_y := 0\<rparr>)"

definition bss_kcon :: kcon where
  "bss_kcon = kdisk.extend bss_kdisk \<lparr>vga = replicate 2000 0, cursor_x = 0, cursor_y = 0,
     current_color = 0x0F, crtc_cursor = 0\<rparr>"

lemma log_write_kcon [simp]:
  "vga (log_write l m s) = vga s" "cursor_x (log_write l m s) = cursor_x s" "cursor_y (log_write l m s) = cursor_y s"
  "current_color (log_write l m s) = current_color s" "crtc_cursor (log_write l m s) = crtc_cursor s"
  by (subst log_write_frame, simp)+

section \<open>The console stays within its buffer\<close>

definition con_ok :: "'a kcon_scheme \<Rightarrow> bool" where
  "con_ok s \<longleftrightarrow> cursor_x s < VGA_WIDTH \<and> cursor_y s < VGA_HEIGHT \<and> length (vga s) = VGA_WIDTH * VGA_HEIGHT"

lemma con_ok_cell: "con_ok s \<Longrightarrow> cursor_cell s < length (vga s)"
  by (simp add: con_ok_def cursor_cell_def)

lemma con_ok_backspace: "con_ok s \<Longrightarrow> con_ok (backspace s)"
  by (auto simp: con_ok_def backspace_def)

lemmas put_char_defs = put_char_def advance_def wrap_line_def scroll_def vga_put_def update_cursor_def serial_putc_def

lemma con_ok_put_char: "con_ok s \<Longrightarrow> con_ok (put_char c color s)"
proof (cases "c = 8")
  case True
  assume "con_ok s"
  then have "con_ok (backspace s)" by (rule con_ok_backspace)
  with True show ?thesis by (simp add: put_char_defs con_ok_def)
next
  case False
  assume "con_ok s"
  with False show ?thesis
    by (cases "c = 10"; cases "c = 13"; cases "cursor_x s = 79"; cases "cursor_y s = 24")
      (simp_all add: put_char_defs con_ok_def)
qed

lemma put_char_color [simp]: "current_color (put_char c color s) = current_color s"
  by (simp add: put_char_defs backspace_def)

lemma con_ok_fold: "con_ok s \<Longrightarrow> con_ok (fold (\<lambda>c s. put_char c (current_color s) s) str s)"
  by (induction str arbitrary: s) (simp_all add: con_ok_put_char)

lemma con_ok_print_string: "con_ok s \<Longrightarrow> con_ok (print_string str s)"
  by (simp add: print_string_def con_ok_fold)

lemma con_ok_color: "con_ok (s\<lparr>current_color := k\<rparr>) = con_ok s"
  by (simp add: con_ok_def)

lemma con_ok_print_color: "con_ok s \<Longrightarrow> con_ok (print_color str color s)"
  by (simp add: print_color_def Let_def con_ok_color con_ok_print_string)

lemma fold_serial_putc: "fold serial_putc xs s = s\<lparr>serial_out := serial_out s @ xs\<rparr>"
  by (induction xs arbitrary: s) (simp_all add: serial_putc_def)

section \<open>What is printed is on the screen\<close>

definition printable :: "u8 \<Rightarrow> bool" where
  "printable c \<longleftrightarrow> c \<noteq> 0 \<and> c \<noteq> 8 \<and> c \<noteq> 10 \<and> c \<noteq> 13"

definition show_cells :: "nat \<Rightarrow> u8 \<Rightarrow> bytes \<Rightarrow> u16 list \<Rightarrow> u16 list" where
  "show_cells p color str cells = take p cells @ map (vga_cell color) str @ drop (p + length str) cells"

lemma put_char_printable:
  assumes "con_ok s" and "printable c" and "cursor_cell s + 1 < VGA_WIDTH * VGA_HEIGHT"
  shows "cursor_cell (put_char c color s) = cursor_cell s + 1"
    and "vga (put_char c color s) = (vga s)[cursor_cell s := vga_cell color c]"
    and "serial_out (put_char c color s) = serial_out s @ [c]"
  using assms by (auto simp: put_char_defs printable_def con_ok_def cursor_cell_def)

lemma print_fold:
  assumes "con_ok s" and "\<forall>c \<in> set str. printable c" and "cursor_cell s + length str < VGA_WIDTH * VGA_HEIGHT"
  shows "let t = fold (\<lambda>c s. put_char c (current_color s) s) str s
    in vga t = show_cells (cursor_cell s) (current_color s) str (vga s) \<and> cursor_cell t = cursor_cell s + length str \<and>
       serial_out t = serial_out s @ str"
  using assms
proof (induction str arbitrary: s)
  case Nil
  then show ?case by (simp add: show_cells_def)
next
  case (Cons c str)
  let ?u = "put_char c (current_color s) s" and ?p = "cursor_cell s"
  have c: "printable c" "?p + 1 < VGA_WIDTH * VGA_HEIGHT" using Cons.prems by auto
  note u = put_char_printable [OF Cons.prems(1) c, of "current_color s"]
  have l: "?p < length (vga s)" using Cons.prems(1) by (rule con_ok_cell)
  have "show_cells (?p + 1) (current_color s) str ((vga s)[?p := vga_cell (current_color s) c]) =
    show_cells ?p (current_color s) (c # str) (vga s)"
    using l by (simp add: show_cells_def take_Suc_conv_app_nth)
  with Cons.IH [of ?u] con_ok_put_char [OF Cons.prems(1)] Cons.prems u show ?case by (simp add: Let_def)
qed

section \<open>Properties\<close>

text \<open>
  C16: whatever is printed, control characters included, in any colour and order, the console never
  addresses a cell outside the 80 x 25 text buffer: the cursor stays inside the screen before and after
  every single character, so both stores of \<^verbatim>\<open>put_char\<close> (at the cursor, and at the cursor after a
  backspace) hit one of the 2000 cells, and scrolling keeps the buffer's size.
\<close>

theorem console_in_bounds:
  assumes "con_ok s"
  shows "cursor_cell s < 2000 \<and> cursor_cell (backspace s) < 2000 \<and>
    con_ok (put_char c color s) \<and> con_ok (print_string str s) \<and> con_ok (print_color str color s) \<and>
    con_ok (clear_screen s)"
proof -
  have "length (vga (backspace s)) = length (vga s)" by (simp add: backspace_def)
  then have "cursor_cell s < 2000" "cursor_cell (backspace s) < 2000"
    using con_ok_cell [OF assms] con_ok_cell [OF con_ok_backspace [OF assms]] assms by (simp_all add: con_ok_def)
  moreover have "con_ok (clear_screen s)" by (simp add: clear_screen_def fold_serial_putc serial_putc_def con_ok_def)
  ultimately show ?thesis
    using assms by (simp add: con_ok_put_char con_ok_print_string con_ok_print_color)
qed

lemma bss_con_ok: "con_ok bss_kcon"
  by (simp add: con_ok_def bss_kcon_def kdisk.extend_def)

lemma console_in_bounds_witness:
  "con_ok (print_string (replicate 5000 65) bss_kcon)"
  using console_in_bounds [OF bss_con_ok, of 0 0 "replicate 5000 65"] by simp

text \<open>
  Text without control characters that fits on the rest of the screen appears in consecutive cells
  from the cursor on, in the current colour, with every other cell unchanged and the cursor behind it;
  the serial port receives the same characters.
\<close>

theorem print_string_shows:
  assumes "con_ok s" and "\<forall>c \<in> set str. printable c" and "cursor_cell s + length str < 2000"
  shows "vga (print_string str s) = show_cells (cursor_cell s) (current_color s) str (vga s) \<and>
    cursor_cell (print_string str s) = cursor_cell s + length str \<and>
    serial_out (print_string str s) = serial_out s @ str"
proof -
  have "c_str str = str" using assms(2) by (intro c_str_id) (auto simp: printable_def)
  then show ?thesis using print_fold [OF assms(1,2)] assms(3) by (simp add: print_string_def Let_def)
qed

lemma print_string_shows_witness:
  "cursor_cell (print_string (cs ''HexaOS'') bss_kcon) = 6"
  using print_string_shows [OF bss_con_ok, of "cs ''HexaOS''"]
  by (simp add: cs_def printable_def bss_kcon_def kdisk.extend_def cursor_cell_def)

end
