(* ===== verification/Hexa_Interrupt.thy ===== *)
theory Hexa_Interrupt
  imports Hexa_Console
begin

text \<open>
  Interrupts (\<^verbatim>\<open>interrupts.c\<close>): the descriptor tables, the programming of interrupt controller and
  timer, the exception and interrupt handlers, and the keyboard buffer.  Port output is the trace
  \<open>ports_out\<close>; the scan code that \<^verbatim>\<open>inb(0x60)\<close> delivers is an argument of the handler.  The addresses
  of the assembly stubs and of the tables are arguments.  The handlers return what happens to the
  interrupted task: it resumes, control goes to another task, or the processor halts.
\<close>

section \<open>State\<close>

abbreviation IDT_ENTRIES :: nat where "IDT_ENTRIES \<equiv> 256"
abbreviation KBUF_SIZE :: nat where "KBUF_SIZE \<equiv> 256"
abbreviation PIC1_CMD :: u16 where "PIC1_CMD \<equiv> 0x20"
abbreviation PIC1_DATA :: u16 where "PIC1_DATA \<equiv> 0x21"
abbreviation PIC2_CMD :: u16 where "PIC2_CMD \<equiv> 0xA0"
abbreviation PIC2_DATA :: u16 where "PIC2_DATA \<equiv> 0xA1"
abbreviation PIC_EOI :: u8 where "PIC_EOI \<equiv> 0x20"
abbreviation PIT_CH0 :: u16 where "PIT_CH0 \<equiv> 0x40"
abbreviation PIT_CMD :: u16 where "PIT_CMD \<equiv> 0x43"

record idt_entry =
  ie_base_lo :: u16
  ie_sel :: u16
  ie_always0 :: u8
  ie_flags :: u8
  ie_base_hi :: u16

record gdt_entry =
  ge_limit_lo :: u16
  ge_base_lo :: u16
  ge_base_mi :: u8
  ge_access :: u8
  ge_granularity :: u8
  ge_base_hi :: u8

record kint = kcon +
  idt :: "idt_entry list"
  idtr :: "u16 \<times> u32"
  gdt_entries :: "gdt_entry list"
  gdtr :: "u16 \<times> u32"
  kbuf :: bytes
  kbuf_head :: nat
  kbuf_tail :: nat
  shift_pressed :: bool
  ports_out :: "(u16 \<times> u8) list"

definition outb :: "u16 \<Rightarrow> u8 \<Rightarrow> 'a kint_scheme \<Rightarrow> 'a kint_scheme" where
  "outb port v s = s\<lparr>ports_out := ports_out s @ [(port, v)]\<rparr>"

section \<open>Descriptor tables\<close>

definition zero_idt :: idt_entry where
  "zero_idt = \<lparr>ie_base_lo = 0, ie_sel = 0, ie_always0 = 0, ie_flags = 0, ie_base_hi = 0\<rparr>"

definition idt_set_gate :: "nat \<Rightarrow> u32 \<Rightarrow> u16 \<Rightarrow> u8 \<Rightarrow> 'a kint_scheme \<Rightarrow> 'a kint_scheme" where
  "idt_set_gate num base sel flags s =
     s\<lparr>idt := (idt s)[num := \<lparr>ie_base_lo = ucast (base AND 0xFFFF), ie_sel = sel, ie_always0 = 0, ie_flags = flags,
        ie_base_hi = ucast (drop_bit 16 base AND 0xFFFF)\<rparr>]\<rparr>"

text \<open>The calls for the 32 exceptions, the 16 interrupt lines and the system call, in source order.\<close>

definition idt_init :: "u32 \<Rightarrow> (nat \<Rightarrow> u32) \<Rightarrow> (nat \<Rightarrow> u32) \<Rightarrow> u32 \<Rightarrow> 'a kint_scheme \<Rightarrow> 'a kint_scheme" where
  "idt_init idt_addr isr irq syscall_stub s =
     (let s0 = s\<lparr>idt := replicate IDT_ENTRIES zero_idt\<rparr>;
          s1 = fold (\<lambda>i. idt_set_gate i (isr i) 0x08 0x8E) [0..<32] s0;
          s2 = fold (\<lambda>i. idt_set_gate (32 + i) (irq i) 0x08 0x8E) [0..<16] s1;
          s3 = idt_set_gate 0x80 syscall_stub 0x08 0xEE s2
      in log_write LOG_LEVEL_INFO (cs ''IDT: initialized 256 entries'') (s3\<lparr>idtr := (8 * of_nat IDT_ENTRIES - 1, idt_addr)\<rparr>))"

definition zero_gdt :: gdt_entry where
  "zero_gdt = \<lparr>ge_limit_lo = 0, ge_base_lo = 0, ge_base_mi = 0, ge_access = 0, ge_granularity = 0, ge_base_hi = 0\<rparr>"

definition flat_segment :: "u8 \<Rightarrow> gdt_entry" where
  "flat_segment access = zero_gdt\<lparr>ge_limit_lo := 0xFFFF, ge_access := access, ge_granularity := 0xCF\<rparr>"

text \<open>Reloading the segment registers has no effect on the modelled state.\<close>

definition setup_gdt :: "u32 \<Rightarrow> 'a kint_scheme \<Rightarrow> 'a kint_scheme" where
  "setup_gdt gdt_addr s =
     log_write LOG_LEVEL_INFO (cs ''GDT: setup complete'')
       (s\<lparr>gdt_entries := (replicate 6 zero_gdt)[1 := flat_segment 0x9A, 2 := flat_segment 0x92,
            3 := flat_segment 0xFA, 4 := flat_segment 0xF2],
          gdtr := (8 * 6 - 1, gdt_addr)\<rparr>)"

definition setup_tss :: "u32 \<Rightarrow> 'a kint_scheme \<Rightarrow> 'a kint_scheme" where
  "setup_tss tss_addr s =
     (let limit = 4 * 26 :: u32
      in s\<lparr>gdt_entries := (gdt_entries s)[5 := \<lparr>ge_limit_lo = ucast (limit AND 0xFFFF), ge_base_lo = ucast (tss_addr AND 0xFFFF),
            ge_base_mi = ucast (drop_bit 16 tss_addr AND 0xFF), ge_access = 0x89,
            ge_granularity = ucast (drop_bit 16 limit AND 0x0F), ge_base_hi = ucast (drop_bit 24 tss_addr AND 0xFF)\<rparr>]\<rparr>)"

section \<open>Controllers\<close>

definition pic_remap :: "'a kint_scheme \<Rightarrow> 'a kint_scheme" where
  "pic_remap s =
     log_write LOG_LEVEL_INFO (cs ''PIC: remapped'')
       (fold (\<lambda>(p, v). outb p v)
         [(PIC1_CMD, 0x11), (PIC2_CMD, 0x11), (PIC1_DATA, 0x20), (PIC2_DATA, 0x28), (PIC1_DATA, 0x04), (PIC2_DATA, 0x02),
          (PIC1_DATA, 0x01), (PIC2_DATA, 0x01), (PIC1_DATA, 0x00), (PIC2_DATA, 0x00)] s)"

text \<open>The only caller passes 100; a zero frequency is a division error.\<close>

definition pit_init :: "u32 \<Rightarrow> 'a kint_scheme \<Rightarrow> 'a kint_scheme" where
  "pit_init freq s =
     (let divisor = 1193180 div freq
      in log_write LOG_LEVEL_INFO (cs ''PIT: 100Hz initialized'')
           (outb PIT_CH0 (ucast (drop_bit 8 divisor AND 0xFF)) (outb PIT_CH0 (ucast (divisor AND 0xFF)) (outb PIT_CMD 0x36 s))))"

section \<open>Keyboard\<close>

definition kbd_map :: bytes where
  "kbd_map = [0, 27] @ cs ''1234567890-='' @ [8, 9] @ cs ''qwertyuiop[]'' @ [10, 0] @ cs ''asdfghjkl;'' @ [39, 96, 0, 92] @
     cs ''zxcvbnm,./'' @ [0, 42, 0, 32] @ replicate 18 0 @ [45, 0, 0, 0, 43] @ replicate 47 0"

definition kbd_map_shift :: bytes where
  "kbd_map_shift = [0, 27] @ cs ''!@#$%^&*()_+'' @ [8, 9] @ cs ''QWERTYUIOP{}'' @ [10, 0] @ cs ''ASDFGHJKL:'' @ [34, 126, 0, 124] @
     cs ''ZXCVBNM<>?'' @ [0, 42, 0, 32] @ replicate 18 0 @ [45, 0, 0, 0, 43] @ replicate 47 0"

definition kb_put :: "u8 \<Rightarrow> 'a kint_scheme \<Rightarrow> 'a kint_scheme option" where
  "kb_put c s =
     (let nxt = (kbuf_head s + 1) mod KBUF_SIZE
      in if nxt \<noteq> kbuf_tail s then Some (s\<lparr>kbuf := (kbuf s)[kbuf_head s := c], kbuf_head := nxt\<rparr>) else None)"

definition kb_get :: "'a kint_scheme \<Rightarrow> (u8 \<times> 'a kint_scheme) option" where
  "kb_get s =
     (if kbuf_head s = kbuf_tail s then None
      else Some (kbuf s ! kbuf_tail s, s\<lparr>kbuf_tail := (kbuf_tail s + 1) mod KBUF_SIZE\<rparr>))"

text \<open>\<^verbatim>\<open>char\<close> is signed on the target: the byte is sign-extended to the result.\<close>

definition kb_getchar :: "'a kint_scheme \<Rightarrow> int \<times> 'a kint_scheme" where
  "kb_getchar s = (case kb_get s of None \<Rightarrow> (-1, s) | Some (c, s1) \<Rightarrow> (sint c, s1))"

text \<open>The character of a scan code; the arrow keys have codes above 127.\<close>

definition key_char :: "bool \<Rightarrow> u8 \<Rightarrow> u8" where
  "key_char shift sc =
     (if sc = 0x48 then 0x80 else if sc = 0x50 then 0x81
      else (if shift then kbd_map_shift else kbd_map) ! unat sc)"

definition kbd_irq :: "u8 \<Rightarrow> 'a kint_scheme \<Rightarrow> 'a kint_scheme" where
  "kbd_irq sc s =
     (if sc = 0x2A \<or> sc = 0x36 then s\<lparr>shift_pressed := True\<rparr>
      else if sc = 0xAA \<or> sc = 0xB6 then s\<lparr>shift_pressed := False\<rparr>
      else if sc AND 0x80 \<noteq> 0 then s
      else let c = key_char (shift_pressed s) sc
           in if c = 0 then s else (case kb_put c s of None \<Rightarrow> s | Some s1 \<Rightarrow> s1))"

section \<open>Handlers\<close>

definition irq_eoi :: "u32 \<Rightarrow> 'a kint_scheme \<Rightarrow> 'a kint_scheme" where
  "irq_eoi irq s = outb PIC1_CMD PIC_EOI (if irq \<ge> 8 then outb PIC2_CMD PIC_EOI s else s)"

text \<open>\<open>r\<close> is the address of the saved registers, \<open>sc\<close> what the keyboard port holds.\<close>

definition irq_handler :: "u32 \<Rightarrow> u8 \<Rightarrow> u32 \<Rightarrow> 'a kint_scheme \<Rightarrow> nat option \<times> 'a kint_scheme" where
  "irq_handler int_no sc r s =
     (let irq = int_no - 32;
          s1 = (if irq = 0 then s\<lparr>system_ticks := system_ticks s + 1\<rparr> else s);
          s2 = (if irq = 1 then kbd_irq sc s1 else s1);
          s3 = irq_eoi irq s2
      in if irq = 0 then schedule r s3 else (None, s3))"

text \<open>The digits are filled in from the last one.\<close>

definition put_hex32 :: "u32 \<Rightarrow> 'a kcon_scheme \<Rightarrow> 'a kcon_scheme" where
  "put_hex32 val s =
     print_string (fst (fold (\<lambda>i (buf, v). (buf[i := hex_digit (v AND 0xF)], drop_bit 4 v)) (rev [2..<10])
       (cs ''0x00000000'', val))) s"

definition exception_msgs :: "bytes list" where
  "exception_msgs = [cs ''Division By Zero'', cs ''Debug'', cs ''NMI'', cs ''Breakpoint'', cs ''Overflow'',
     cs ''BOUND Range'', cs ''Invalid Opcode'', cs ''Device NA'', cs ''Double Fault'', cs ''Coprocessor'',
     cs ''Invalid TSS'', cs ''Segment NP'', cs ''Stack Fault'', cs ''GPF'', cs ''Page Fault'', cs ''Reserved'',
     cs ''x87 FPU'', cs ''Alignment'', cs ''Machine Check'', cs ''SIMD FPU'', cs ''Virtualization'']"

datatype isr_result = Resumed | Killed "nat option" | Halted

definition isr_handler :: "u32 \<Rightarrow> u32 \<Rightarrow> u32 \<Rightarrow> u32 \<Rightarrow> 'a kint_scheme \<Rightarrow> isr_result \<times> 'a kint_scheme" where
  "isr_handler int_no err_code eip cr2 s =
     (if int_no = 14 then
        let s1 = log_write_hex LOG_LEVEL_WARN (cs ''Page fault at '') cr2 s
        in if err_code AND 4 \<noteq> 0 \<or> cr2 \<ge> 0x40000000
           then (case proc_exit (-1) (print_color (cs ''[PF] Killing task.'' @ [10]) 0x0C s1) of (n, s2) \<Rightarrow> (Killed n, s2))
           else (Resumed, print_color (cs '' (recovered)'' @ [10]) 0x0C (put_hex32 cr2 (print_color (cs ''[PF] at '') 0x0C s1)))
      else if int_no = 8 then
        (Halted, log_write LOG_LEVEL_FATAL (cs ''Double Fault - system halted'')
           (print_color (cs ''[FATAL] Double Fault! Halting.'' @ [10]) 0x4C s))
      else if int_no = 13 then
        (Resumed, log_write_hex LOG_LEVEL_WARN (cs ''GPF at EIP='') eip (print_color (cs ''[GPF] recovered'' @ [10]) 0x0C s))
      else if int_no < 32 then
        let s1 = print_color (cs ''[EXC] '') 0x0C s;
            s2 = (if int_no < 21 then print_color (exception_msgs ! unat int_no) 0x0C s1 else s1)
        in (Resumed, print_color (cs '' (recovered)'' @ [10]) 0x0C s2)
      else (Resumed, s))"

definition bss_kint :: kint where
  "bss_kint = kcon.extend bss_kcon \<lparr>idt = replicate IDT_ENTRIES zero_idt, idtr = (0, 0),
     gdt_entries = replicate 6 zero_gdt, gdtr = (0, 0), kbuf = zeros KBUF_SIZE, kbuf_head = 0, kbuf_tail = 0,
     shift_pressed = False, ports_out = []\<rparr>"

lemma log_write_kint [simp]:
  "idt (log_write l m s) = idt s" "idtr (log_write l m s) = idtr s" "gdt_entries (log_write l m s) = gdt_entries s"
  "gdtr (log_write l m s) = gdtr s" "kbuf (log_write l m s) = kbuf s" "kbuf_head (log_write l m s) = kbuf_head s"
  "kbuf_tail (log_write l m s) = kbuf_tail s" "shift_pressed (log_write l m s) = shift_pressed s"
  "ports_out (log_write l m s) = ports_out s"
  by (subst log_write_frame, simp)+

section \<open>The keyboard buffer is a bounded FIFO\<close>

definition kb_ok :: "'a kint_scheme \<Rightarrow> bool" where
  "kb_ok s \<longleftrightarrow> ring_ok KBUF_SIZE (kbuf s) (kbuf_tail s) (kbuf_head s)"

definition kb_chars :: "'a kint_scheme \<Rightarrow> bytes" where
  "kb_chars s = ring_list KBUF_SIZE (kbuf s) (kbuf_tail s) (kbuf_head s)"

interpretation kbq: bounded_fifo kb_ok kb_chars 255 kb_put kb_get
proof unfold_locales
  fix s :: "'a kint_scheme" and x
  assume ok: "kb_ok s"
  then have r: "ring_ok KBUF_SIZE (kbuf s) (kbuf_tail s) (kbuf_head s)" by (simp add: kb_ok_def)
  show "length (kb_chars s) \<le> 255" using ring_length_le [OF r] by (simp add: kb_chars_def)
  { assume "length (kb_chars s) = 255"
    then show "kb_put x s = None" using ring_full_iff [OF r] by (simp add: kb_chars_def kb_put_def) }
  { assume "length (kb_chars s) < 255"
    then have room: "(kbuf_head s + 1) mod KBUF_SIZE \<noteq> kbuf_tail s"
      using ring_full_iff [OF r] by (auto simp: kb_chars_def)
    then show "\<exists>s'. kb_put x s = Some s' \<and> kb_ok s' \<and> kb_chars s' = kb_chars s @ [x]"
      using ring_list_put [OF r room] ring_ok_put [OF r] by (simp add: kb_put_def kb_ok_def kb_chars_def Let_def) }
  { assume "kb_chars s = []"
    then show "kb_get s = None" using ring_list_empty_iff [OF r] by (simp add: kb_chars_def kb_get_def) }
  { fix y ys assume e: "kb_chars s = y # ys"
    then have ne: "kbuf_head s \<noteq> kbuf_tail s" using ring_list_empty_iff [OF r] by (auto simp: kb_chars_def)
    then show "\<exists>s'. kb_get s = Some (y, s') \<and> kb_ok s' \<and> kb_chars s' = ys"
      using ring_list_get [OF r ne] ring_ok_get [OF r] e by (auto simp: kb_get_def kb_ok_def kb_chars_def) }
qed

lemma kb_put_fields: "kb_put c s = Some s' \<Longrightarrow> system_ticks s' = system_ticks s \<and> ports_out s' = ports_out s \<and>
    shift_pressed s' = shift_pressed s \<and> num_tasks s' = num_tasks s"
  by (auto simp: kb_put_def Let_def split: if_splits)

lemma kbd_irq_fields: "system_ticks (kbd_irq sc s) = system_ticks s \<and> ports_out (kbd_irq sc s) = ports_out s"
  by (auto simp: kbd_irq_def Let_def split: option.split dest: kb_put_fields)

section \<open>Properties\<close>

text \<open>
  The keyboard buffer loses and reorders nothing: in every interleaving of key presses and reads the
  characters delivered, followed by those still buffered, are the characters accepted; a character is
  refused only when 255 are waiting.
\<close>

theorem keyboard_fifo:
  assumes "kb_ok s" and "fifo_run kb_put kb_get ops s = (a, d, t)"
  shows "kb_ok t \<and> kb_chars s @ a = d @ kb_chars t \<and> (kb_put c s = None \<longleftrightarrow> length (kb_chars s) = 255)"
  using kbq.run_fifo [OF assms] kbq.enq_iff_room [OF assms(1), of c] kbq.items_le [OF assms(1)] by auto

lemma bss_kb_ok: "kb_ok bss_kint" "kb_chars bss_kint = []"
  by (simp_all add: kb_ok_def kb_chars_def ring_ok_def ring_list_def bss_kint_def kcon.extend_def)

lemma keyboard_fifo_witness:
  "\<exists>a d t. fifo_run kb_put kb_get [Enq 65, Enq 66, Deq] bss_kint = (a, d, t) \<and> a = d @ kb_chars t"
proof -
  obtain a d t where r: "fifo_run kb_put kb_get [Enq 65, Enq 66, Deq] bss_kint = (a, d, t)"
    by (cases "fifo_run kb_put kb_get [Enq 65, Enq 66, Deq] bss_kint")
  with keyboard_fifo [OF bss_kb_ok(1) r] show ?thesis by (simp add: bss_kb_ok(2))
qed

text \<open>
  A key press is turned into its character under the current shift state and appended to the buffer
  when there is room; shift keys only change the shift state, and key releases and unmapped keys change
  nothing.
\<close>

theorem keyboard_press:
  assumes "kb_ok s"
  shows "kb_ok (kbd_irq sc s) \<and>
    kb_chars (kbd_irq sc s) =
      (if sc AND 0x80 = 0 \<and> sc \<noteq> 0x2A \<and> sc \<noteq> 0x36 \<and> key_char (shift_pressed s) sc \<noteq> 0 \<and> length (kb_chars s) < 255
       then kb_chars s @ [key_char (shift_pressed s) sc] else kb_chars s) \<and>
    shift_pressed (kbd_irq sc s) =
      (if sc = 0x2A \<or> sc = 0x36 then True else if sc = 0xAA \<or> sc = 0xB6 then False else shift_pressed s)"
proof -
  let ?c = "key_char (shift_pressed s) sc"
  consider (on) "sc = 0x2A \<or> sc = 0x36" | (off) "sc = 0xAA \<or> sc = 0xB6"
    | (up) "sc AND 0x80 \<noteq> 0" "sc \<noteq> 0x2A" "sc \<noteq> 0x36" "sc \<noteq> 0xAA" "sc \<noteq> 0xB6"
    | (down) "sc AND 0x80 = 0" "sc \<noteq> 0x2A" "sc \<noteq> 0x36" "sc \<noteq> 0xAA" "sc \<noteq> 0xB6" by blast
  then show ?thesis
  proof cases
    case down
    show ?thesis
    proof (cases "kb_put ?c s")
      case None
      then have "\<not> length (kb_chars s) < 255" using kbq.enq_iff_room [OF assms, of ?c] by simp
      with None down assms show ?thesis by (simp add: kbd_irq_def Let_def)
    next
      case (Some s')
      then have "length (kb_chars s) < 255" using kbq.enq_iff_room [OF assms, of ?c] by simp
      moreover have "kb_ok s'" "kb_chars s' = kb_chars s @ [?c]" using kbq.enq_SomeD [OF assms Some] by auto
      ultimately show ?thesis using Some down assms kb_put_fields [OF Some] by (simp add: kbd_irq_def Let_def)
    qed
  qed (use assms in \<open>auto simp: kbd_irq_def kb_ok_def kb_chars_def\<close>)
qed

lemma keyboard_press_witness:
  "kb_chars (kbd_irq 0x1E (kbd_irq 0x2A bss_kint)) = cs ''A''"
proof -
  have s: "kb_ok (kbd_irq 0x2A bss_kint)" "kb_chars (kbd_irq 0x2A bss_kint) = []" "shift_pressed (kbd_irq 0x2A bss_kint)"
    using keyboard_press [OF bss_kb_ok(1), of "0x2A"] by (auto simp: bss_kb_ok(2))
  have "key_char True 0x1E = 65" by code_simp
  with keyboard_press [OF s(1), of "0x1E"] s show ?thesis by (simp add: cs_def)
qed

text \<open>
  The arrow keys do not survive \<^verbatim>\<open>kb_getchar\<close>: their codes come back negative, and every caller
  takes a negative result for an empty buffer.  The keypad minus (scan code \<^verbatim>\<open>0x4A\<close>) is unmapped.
\<close>

lemma arrow_keys_negative: "kb_get s = Some (key_char shift 0x48, s') \<Longrightarrow> kb_getchar s = (-128, s')"
  by (simp add: kb_getchar_def key_char_def)

lemma keypad_minus_unmapped: "key_char shift 0x4A = 0"
  by (cases shift) (simp_all add: key_char_def kbd_map_def kbd_map_shift_def cs_def nth_append)

section \<open>Handlers and tables\<close>

lemma outb_fields [simp]:
  "system_ticks (outb p v s) = system_ticks s" "idt (outb p v s) = idt s" "tasks (outb p v s) = tasks s"
  "num_tasks (outb p v s) = num_tasks s" "ports_out (outb p v s) = ports_out s @ [(p, v)]"
  by (simp_all add: outb_def)

lemma schedule_frame:
  fixes s :: "'a kint_scheme"
  shows "ports_out (snd (schedule r s)) = ports_out s" "system_ticks (snd (schedule r s)) = system_ticks s"
  by (simp_all add: schedule_def Let_def upd_task_def switch_page_dir_def)

text \<open>
  C17: every hardware interrupt is acknowledged on every path through the handler, whatever key was
  pressed and whether or not a task switch follows: the end-of-interrupt command goes to the master
  controller exactly once, after one to the slave exactly for lines 8 to 15, so no line stays blocked;
  the tick count advances exactly on the timer interrupt.
\<close>

theorem irq_acknowledged:
  "ports_out (snd (irq_handler int_no sc r s)) =
     ports_out s @ (if int_no - 32 \<ge> 8 then [(PIC2_CMD, PIC_EOI)] else []) @ [(PIC1_CMD, PIC_EOI)] \<and>
   system_ticks (snd (irq_handler int_no sc r s)) = system_ticks s + (if int_no = 32 then 1 else 0)"
proof -
  have "ports_out (irq_eoi irq s) = ports_out s @ (if irq \<ge> 8 then [(PIC2_CMD, PIC_EOI)] else []) @ [(PIC1_CMD, PIC_EOI)] \<and>
      system_ticks (irq_eoi irq s) = system_ticks s" for irq :: u32 and s :: "'a kint_scheme"
    by (simp add: irq_eoi_def)
  then show ?thesis using kbd_irq_fields by (auto simp: irq_handler_def Let_def schedule_frame)
qed

text \<open>The stub that the processor enters for a vector: the gate's offset, if the gate is present.\<close>

definition gate_offset :: "idt_entry \<Rightarrow> u32" where
  "gate_offset g = push_bit 16 (ucast (ie_base_hi g)) OR ucast (ie_base_lo g)"

definition gate_present :: "idt_entry \<Rightarrow> bool" where
  "gate_present g \<longleftrightarrow> ie_flags g AND 0x80 \<noteq> 0"

definition gate_user :: "idt_entry \<Rightarrow> bool" where
  "gate_user g \<longleftrightarrow> ie_flags g AND 0x60 = 0x60"

lemma low_parts: "(ucast (w AND 0xFFFF) :: u16) = ucast (w :: u32)" "(ucast (w AND 0xFF) :: u8) = ucast (w :: u32)"
proof -
  have "(ucast (0xFFFF :: u32) :: u16) = -1" "(ucast (0xFF :: u32) :: u8) = -1" by simp_all
  then show "(ucast (w AND 0xFFFF) :: u16) = ucast w" "(ucast (w AND 0xFF) :: u8) = ucast w"
    by (simp_all only: unsigned_and_eq and.right_neutral)
qed

lemma split_halves: "push_bit 16 (ucast (ucast (drop_bit 16 b AND 0xFFFF :: u32) :: u16)) OR ucast (ucast (b AND 0xFFFF) :: u16) = (b :: u32)"
  unfolding low_parts by (rule bit_word_eqI) (auto simp: bit_simps)

lemma gate_offset_set:
  "num < length (idt s) \<Longrightarrow>
   idt (idt_set_gate num b sel flags s) = (idt s)[num := idt (idt_set_gate num b sel flags s) ! num] \<and>
   gate_offset (idt (idt_set_gate num b sel flags s) ! num) = b \<and> ie_flags (idt (idt_set_gate num b sel flags s) ! num) = flags \<and>
   ie_sel (idt (idt_set_gate num b sel flags s) ! num) = sel"
  by (simp add: idt_set_gate_def gate_offset_def split_halves)

lemma idt_set_gate_nth:
  "idt (idt_set_gate num b sel flags s) ! v = (if v = num \<and> num < length (idt s) then
     \<lparr>ie_base_lo = ucast (b AND 0xFFFF), ie_sel = sel, ie_always0 = 0, ie_flags = flags,
        ie_base_hi = ucast (drop_bit 16 b AND 0xFFFF)\<rparr> else idt s ! v)"
  "length (idt (idt_set_gate num b sel flags s)) = length (idt s)"
  by (cases "num < length (idt s)") (auto simp: idt_set_gate_def nth_list_update list_update_beyond not_less)

definition gate :: "u32 \<Rightarrow> u8 \<Rightarrow> idt_entry" where
  "gate b flags = \<lparr>ie_base_lo = ucast (b AND 0xFFFF), ie_sel = 0x08, ie_always0 = 0, ie_flags = flags,
        ie_base_hi = ucast (drop_bit 16 b AND 0xFFFF)\<rparr>"

lemma idt_fold:
  "k + n \<le> length (idt s) \<Longrightarrow>
   length (idt (fold (\<lambda>i. idt_set_gate (k + i) (f i) 0x08 flags) [0..<n] s)) = length (idt s) \<and>
   (\<forall>v. idt (fold (\<lambda>i. idt_set_gate (k + i) (f i) 0x08 flags) [0..<n] s) ! v =
      (if k \<le> v \<and> v < k + n then gate (f (v - k)) flags else idt s ! v))"
proof (induction n)
  case (Suc n)
  then show ?case by (auto simp: idt_set_gate_nth gate_def)
qed auto

text \<open>
  After \<^verbatim>\<open>idt_init\<close> each of the 256 vectors dispatches as intended: exceptions 0 to 31, interrupt
  lines 32 to 47 and the system call 128 enter their own stub in the kernel code segment, only the
  system call may be raised by user code, and all other vectors are absent; the processor is given the
  whole table.
\<close>

theorem idt_dispatch:
  "let t = idt_init idt_addr isr irq stub s
   in length (idt t) = 256 \<and> idtr t = (2047, idt_addr) \<and>
      (\<forall>v. v < 256 \<longrightarrow>
        (gate_present (idt t ! v) \<longleftrightarrow> v < 48 \<or> v = 128) \<and> (gate_user (idt t ! v) \<longleftrightarrow> v = 128) \<and>
        (gate_present (idt t ! v) \<longrightarrow> ie_sel (idt t ! v) = 0x08 \<and>
           gate_offset (idt t ! v) = (if v < 32 then isr v else if v < 48 then irq (v - 32) else stub)))"
proof -
  define s0 where "s0 = s\<lparr>idt := replicate IDT_ENTRIES zero_idt\<rparr>"
  define s1 where "s1 = fold (\<lambda>i. idt_set_gate (0 + i) (isr i) 0x08 0x8E) [0..<32] s0"
  define s2 where "s2 = fold (\<lambda>i. idt_set_gate (32 + i) (irq i) 0x08 0x8E) [0..<16] s1"
  have l0: "length (idt s0) = 256" by (simp add: s0_def)
  have s1: "length (idt s1) = 256" "idt s1 ! v = (if v < 32 then gate (isr v) 0x8E else idt s0 ! v)" for v
    using idt_fold [of 0 32 s0 isr "0x8E"] by (simp_all add: s1_def l0)
  have s2: "length (idt s2) = 256" "idt s2 ! v = (if 32 \<le> v \<and> v < 48 then gate (irq (v - 32)) 0x8E else idt s1 ! v)" for v
    using idt_fold [of 32 16 s1 irq "0x8E"] by (simp_all add: s2_def s1(1))
  have t: "idt (idt_init idt_addr isr irq stub s) = idt (idt_set_gate 0x80 stub 0x08 0xEE s2)"
    "idtr (idt_init idt_addr isr irq stub s) = (2047, idt_addr)"
    by (simp_all add: idt_init_def Let_def s2_def s1_def s0_def)
  have g: "idt (idt_set_gate 0x80 stub 0x08 0xEE s2) ! v = (if v = 128 then gate stub 0xEE else if v < 32 then gate (isr v) 0x8E
      else if v < 48 then gate (irq (v - 32)) 0x8E else zero_idt)" if "v < 256" for v
    using that by (auto simp: idt_set_gate_nth s2 s1 gate_def s0_def)
  have z: "\<not> gate_present zero_idt" "\<not> gate_user zero_idt" by (simp_all add: gate_present_def gate_user_def zero_idt_def)
  have p: "gate_present (gate b 0x8E)" "\<not> gate_user (gate b 0x8E)" "gate_present (gate b 0xEE)" "gate_user (gate b 0xEE)"
    "gate_offset (gate b fl) = b" "ie_sel (gate b fl) = 0x08" for b fl
    by (simp_all add: gate_present_def gate_user_def gate_def gate_offset_def split_halves)
  show ?thesis unfolding Let_def t by (auto simp: idt_set_gate_nth(2) s2(1) g z p)
qed

lemma idt_dispatch_witness:
  "gate_offset (idt (idt_init 0x1000 (\<lambda>i. of_nat i) (\<lambda>i. 0x100 + of_nat i) 0x500 bss_kint) ! 33) = 0x101"
  using idt_dispatch [of "0x1000" "\<lambda>i. of_nat i" "\<lambda>i. 0x100 + of_nat i" "0x500" bss_kint] by (simp add: Let_def)

text \<open>
  The 8259 controller as its data sheet gives it: a write of ICW1 (bit 4) to the command port starts the
  initialisation; the next three writes to the data port are the vector offset, the wiring and the mode;
  further writes to the data port set the interrupt mask.
\<close>

record pic =
  pic_stage :: nat
  pic_offset :: u8
  pic_wiring :: u8
  pic_mode :: u8
  pic_mask :: u8

fun pic_step :: "u16 \<Rightarrow> u16 \<Rightarrow> u16 \<times> u8 \<Rightarrow> pic \<Rightarrow> pic" where
  "pic_step cmd data (port, v) c =
     (if port = cmd then if v AND 0x10 \<noteq> 0 then c\<lparr>pic_stage := 1\<rparr> else c
      else if port = data then
        (if pic_stage c = 1 then c\<lparr>pic_offset := v, pic_stage := 2\<rparr>
         else if pic_stage c = 2 then c\<lparr>pic_wiring := v, pic_stage := 3\<rparr>
         else if pic_stage c = 3 then c\<lparr>pic_mode := v, pic_stage := 0\<rparr>
         else c\<lparr>pic_mask := v\<rparr>)
      else c)"

definition pic_run :: "u16 \<Rightarrow> u16 \<Rightarrow> (u16 \<times> u8) list \<Rightarrow> pic \<Rightarrow> pic" where
  "pic_run cmd data tr c = fold (pic_step cmd data) tr c"

text \<open>
  Programming of the interrupt controllers, whatever state they were in: \<^verbatim>\<open>pic_remap\<close> leaves the master
  at vectors 32 to 39 and the slave at 40 to 47, in 8086 mode, cascaded on line 2, with all lines
  enabled; so the lines arrive at the vectors that \<^verbatim>\<open>idt_init\<close> gives them.
\<close>

theorem pic_remap_programs:
  "\<exists>tr. ports_out (pic_remap s) = ports_out s @ tr \<and>
     pic_run PIC1_CMD PIC1_DATA tr c = \<lparr>pic_stage = 0, pic_offset = 32, pic_wiring = 4, pic_mode = 1, pic_mask = 0\<rparr> \<and>
     pic_run PIC2_CMD PIC2_DATA tr c = \<lparr>pic_stage = 0, pic_offset = 40, pic_wiring = 2, pic_mode = 1, pic_mask = 0\<rparr>"
  by (simp add: pic_remap_def pic_run_def)

text \<open>Base and limit of a segment descriptor; with granularity bit 7 the limit counts 4 KB pages.\<close>

text \<open>
  The processor's reading of the eight bytes of a descriptor: base and limit put together, the limit
  counted in pages when the granularity bit is set, and the single fields of the access byte and of
  the flags.
\<close>

definition seg_base :: "gdt_entry \<Rightarrow> u32" where
  "seg_base g = push_bit 24 (ucast (ge_base_hi g)) OR push_bit 16 (ucast (ge_base_mi g)) OR ucast (ge_base_lo g)"

definition seg_limit :: "gdt_entry \<Rightarrow> u32" where
  "seg_limit g =
     (let l = push_bit 16 (ucast (ge_granularity g AND 0x0F)) OR ucast (ge_limit_lo g)
      in if ge_granularity g AND 0x80 \<noteq> 0 then push_bit 12 l OR 0xFFF else l)"

definition seg_dpl :: "gdt_entry \<Rightarrow> u8" where
  "seg_dpl g = drop_bit 5 (ge_access g) AND 3"

datatype seg_kind = Code bool bool | Data bool bool | System u8

text \<open>
  \<^verbatim>\<open>Code readable conforming\<close>, \<^verbatim>\<open>Data writable expand_down\<close>, or a system descriptor with its type.
\<close>

definition seg_kind :: "gdt_entry \<Rightarrow> seg_kind" where
  "seg_kind g =
     (let a = ge_access g
      in if \<not> bit a 4 then System (a AND 0x0F)
         else if bit a 3 then Code (bit a 1) (bit a 2) else Data (bit a 1) (bit a 2))"

record segment =
  sg_present :: bool
  sg_kind :: seg_kind
  sg_dpl :: u8
  sg_base :: u32
  sg_limit :: u32
  sg_32bit :: bool
  sg_64bit :: bool

definition decode_segment :: "gdt_entry \<Rightarrow> segment" where
  "decode_segment g = \<lparr>sg_present = bit (ge_access g) 7, sg_kind = seg_kind g, sg_dpl = seg_dpl g,
     sg_base = seg_base g, sg_limit = seg_limit g, sg_32bit = bit (ge_granularity g) 6,
     sg_64bit = bit (ge_granularity g) 5\<rparr>"

lemma split_base:
  "push_bit 24 (ucast (ucast (drop_bit 24 b AND 0xFF :: u32) :: u8)) OR push_bit 16 (ucast (ucast (drop_bit 16 b AND 0xFF) :: u8))
     OR ucast (ucast (b AND 0xFFFF) :: u16) = (b :: u32)"
  unfolding low_parts
proof (rule bit_word_eqI)
  fix n assume "n < LENGTH(32)"
  then consider "n < 16" | "16 \<le> n" "n < 24" | "24 \<le> n" "n < 32" by fastforce
  then show "bit (push_bit 24 (ucast (ucast (drop_bit 24 b) :: u8)) OR push_bit 16 (ucast (ucast (drop_bit 16 b) :: u8)) OR
      ucast (ucast b :: u16) :: u32) n = bit b n"
    by cases (auto simp: bit_simps)
qed

lemma replicate_numeral_6: "replicate 6 x = [x, x, x, x, x, x]"
  by (simp add: eval_nat_numeral)

text \<open>
  C18: the descriptor table describes the memory model the kernel assumes.  After \<^verbatim>\<open>setup_gdt\<close> and
  \<^verbatim>\<open>setup_tss\<close> the table has six descriptors and its register covers exactly them.  Decoded as the
  processor does, they are: the null descriptor, all zero; for the selectors \<^verbatim>\<open>0x08\<close>, \<^verbatim>\<open>0x10\<close>, \<^verbatim>\<open>0x18\<close>
  and \<^verbatim>\<open>0x20\<close> present 32-bit segments over all 4 GB from 0, readable code and writable data for the
  kernel and the same for the user; and a present available 32-bit task segment of the kernel's
  level whose base is the given address, for every address, with the limit 104.
\<close>

theorem gdt_flat_model:
  "let t = setup_tss tss_addr (setup_gdt gdt_addr s); g = gdt_entries t;
       flat = (\<lambda>kind dpl. \<lparr>sg_present = True, sg_kind = kind, sg_dpl = dpl, sg_base = 0, sg_limit = 0xFFFFFFFF,
                           sg_32bit = True, sg_64bit = False\<rparr>)
   in gdtr t = (8 * of_nat (length g) - 1, gdt_addr) \<and> hd g = zero_gdt \<and>
      map decode_segment (tl g) =
        [flat (Code True False) 0, flat (Data True False) 0, flat (Code True False) 3, flat (Data True False) 3,
         \<lparr>sg_present = True, sg_kind = System 9, sg_dpl = 0, sg_base = tss_addr, sg_limit = 104,
          sg_32bit = False, sg_64bit = False\<rparr>]"
proof -
  define d where "d = \<lparr>ge_limit_lo = 104, ge_base_lo = ucast (tss_addr AND 0xFFFF),
      ge_base_mi = ucast (drop_bit 16 tss_addr AND 0xFF), ge_access = 0x89, ge_granularity = 0,
      ge_base_hi = ucast (drop_bit 24 tss_addr AND 0xFF)\<rparr>"
  have e: "gdt_entries (setup_tss tss_addr (setup_gdt gdt_addr s)) = [zero_gdt, flat_segment 0x9A, flat_segment 0x92,
      flat_segment 0xFA, flat_segment 0xF2, d]"
    by (simp add: setup_tss_def setup_gdt_def Let_def replicate_numeral_6 d_def)
  have "seg_base d = tss_addr" by (simp add: seg_base_def split_base d_def)
  then have "decode_segment d = \<lparr>sg_present = True, sg_kind = System 9, sg_dpl = 0, sg_base = tss_addr, sg_limit = 104,
      sg_32bit = False, sg_64bit = False\<rparr>"
    by (simp add: decode_segment_def seg_kind_def seg_dpl_def seg_limit_def d_def bit_numeral_rec)
  moreover have "gdtr (setup_tss tss_addr (setup_gdt gdt_addr s)) = (47, gdt_addr)"
    by (simp add: setup_tss_def setup_gdt_def)
  ultimately show ?thesis
    unfolding Let_def e
    by (simp add: flat_segment_def zero_gdt_def decode_segment_def seg_kind_def seg_base_def seg_limit_def seg_dpl_def)
qed

end
