(* ===== verification/Hexa_Report.thy ===== *)
theory Hexa_Report
  imports Hexa_Cstring Hexa_Pipe
begin

text \<open>
  Text reports.  The kernel's listing functions write into a caller's buffer \<^verbatim>\<open>out\<close> of \<^verbatim>\<open>out_len\<close> bytes
  with two kinds of step: a string is copied while \<^verbatim>\<open>pos < out_len - 1\<close>, and a single character is
  stored without a check.  A report is the sequence of its steps, in source order; \<open>render\<close> runs them on
  the text written so far.  The terminator is stored behind the text, so the buffer is overrun exactly
  if the text has \<^verbatim>\<open>out_len\<close> bytes or more.  The buffers are at least as long as the texts in the model's
  lists; the overrun shows in the length.
\<close>

section \<open>Writing\<close>

datatype piece = Txt bytes | Chr u8

fun write_piece :: "nat \<Rightarrow> piece \<Rightarrow> bytes \<Rightarrow> bytes" where
  "write_piece out_len (Txt t) w = w @ take (out_len - 1 - length w) (c_str t)"
| "write_piece out_len (Chr c) w = w @ [c]"

definition render :: "nat \<Rightarrow> piece list \<Rightarrow> bytes \<Rightarrow> bytes" where
  "render out_len ps w = fold (write_piece out_len) ps w"

fun plain :: "piece \<Rightarrow> bytes" where
  "plain (Txt t) = c_str t"
| "plain (Chr c) = [c]"

definition plain_text :: "piece list \<Rightarrow> bytes" where
  "plain_text ps = concat (map plain ps)"

fun is_chr :: "piece \<Rightarrow> bool" where
  "is_chr (Txt t) = False"
| "is_chr (Chr c) = True"

abbreviation chr_count :: "piece list \<Rightarrow> nat" where
  "chr_count ps \<equiv> length (filter is_chr ps)"

text \<open>A report that fits is written completely.\<close>

lemma render_fits: "length w + length (plain_text ps) < out_len \<Longrightarrow> render out_len ps w = w @ plain_text ps"
proof (induction ps arbitrary: w)
  case (Cons p ps)
  have "write_piece out_len p w = w @ plain p"
    using Cons.prems by (cases p) (auto simp: plain_text_def)
  with Cons show ?case by (simp add: render_def plain_text_def)
qed (simp add: render_def plain_text_def)

text \<open>In general only the unchecked characters can be written behind the limit.\<close>

lemma render_bound: "length (render out_len ps w) \<le> max (length w) (out_len - 1) + chr_count ps"
proof (induction ps arbitrary: w)
  case (Cons p ps)
  have "length (write_piece out_len p w) \<le> max (length w) (out_len - 1) + (if is_chr p then 1 else 0)"
    by (cases p) auto
  moreover have "render out_len (p # ps) w = render out_len ps (write_piece out_len p w)" by (simp add: render_def)
  ultimately show ?case using Cons.IH [of "write_piece out_len p w"] by (auto simp: max_def split: if_splits)
qed (simp add: render_def)

lemma render_unchecked: "chr_count ps \<le> length (render out_len ps w)"
proof (induction ps arbitrary: w rule: rev_induct)
  case (snoc p ps)
  have "length (write_piece out_len p v) \<ge> length v + (if is_chr p then 1 else 0)" for v by (cases p) auto
  from this [of "render out_len ps w"] snoc [of w] show ?case by (auto simp: render_def split: if_splits)
qed (simp add: render_def)

lemma plain_text_append [simp]: "plain_text (ps @ qs) = plain_text ps @ plain_text qs"
  by (simp add: plain_text_def)

lemma plain_text_Cons [simp]: "plain_text (p # ps) = plain p @ plain_text ps"
  by (simp add: plain_text_def)

lemma plain_text_Nil [simp]: "plain_text [] = []"
  by (simp add: plain_text_def)

lemma length_concat_le: "(\<And>x. x \<in> set xs \<Longrightarrow> length (f x) \<le> n) \<Longrightarrow> length (concat (map f xs)) \<le> length xs * n"
proof (induction xs)
  case (Cons x xs)
  then have "length (f x) \<le> n" "length (concat (map f xs)) \<le> length xs * n" by auto
  then show ?case by simp
qed simp

lemma plain_text_concat: "plain_text (concat (map f xs)) = concat (map (\<lambda>x. plain_text (f x)) xs)"
  by (induction xs) simp_all

lemma length_lines_le:
  "(\<And>x. x \<in> set xs \<Longrightarrow> length (plain_text (f x)) \<le> n) \<Longrightarrow> length (plain_text (concat (map f xs))) \<le> length xs * n"
  unfolding plain_text_concat by (rule length_concat_le)

lemma length_c_str: "length (c_str t) \<le> length t"
  by (simp add: c_str_def length_takeWhile_le)

section \<open>Numbers\<close>

text \<open>How long the decimal and hexadecimal texts can be.\<close>

lemma itoa_length:
  assumes "unat v < base ^ k" and "unat (- v) < base ^ k" and "0 < k" and "2 \<le> base"
  shows "length (itoa v base) \<le> Suc k"
  using length_itoa_loop [OF assms(1)] length_itoa_loop [OF assms(2)] assms(3) by (cases "base = 10") (simp_all add: itoa_eq)

lemma itoa_chars: "c \<in> set (itoa v 10) \<Longrightarrow> c \<noteq> 32 \<and> c \<noteq> 0"
proof -
  have "\<forall>d \<in> set [0..<10]. digit_char d \<noteq> 32 \<and> digit_char d \<noteq> 0" by code_simp
  then have d: "digit_char d \<noteq> 32 \<and> digit_char d \<noteq> 0" if "d < 10" for d using that by simp
  have l: "c \<noteq> 32 \<and> c \<noteq> 0" if m: "c \<in> set (itoa_loop 10 n)" for n
  proof -
    obtain dd where "dd < 10" "c = digit_char dd" using itoa_loop_set [OF m] by auto
    then show ?thesis using d [of dd] by simp
  qed
  assume "c \<in> set (itoa v 10)"
  then consider "c = 48" | "c = 45" | n where "c \<in> set (itoa_loop 10 n)"
    by (auto simp: itoa_eq split: if_splits)
  then show ?thesis
  proof cases
    case 3
    then show ?thesis by (rule l)
  qed simp_all
qed

lemma itoa_nonempty: "itoa v 10 \<noteq> []"
  using itoa_loop_nonempty [of "unat v" 10] by (auto simp: itoa_eq unat_eq_zero)

lemma length_itoa_10: "length (itoa v 10) \<le> 11"
proof (rule order_trans [OF itoa_length [of v 10 10]])
  show "unat v < 10 ^ 10" "unat (- v) < 10 ^ 10"
    using unsigned_less [of v, where 'a = nat] unsigned_less [of "- v", where 'a = nat] by simp_all
qed simp_all

lemma length_itoa_16: "length (itoa v 16) \<le> 8"
  using itoa_hex(3) [of v 8] unsigned_less [of v, where 'a = nat] by simp

lemma itoa_small:
  assumes "unat v < 10 ^ k" and "0 < k" and "k \<le> 9"
  shows "length (itoa v 10) \<le> k"
proof -
  have "(10 :: nat) ^ k \<le> 10 ^ 9" using assms(3) by (intro power_increasing) simp_all
  then have "\<not> to_int v < 0" using assms(1) to_int_small [of v] by simp
  then show ?thesis using length_itoa_loop [OF assms(1)] assms(2) by (simp add: itoa_eq)
qed

lemma byte_text: "length (itoa (v AND 0xFF) 10) \<le> 3"
proof (rule itoa_small)
  have "v AND 0xFF \<le> 0xFF" by (rule word_and_le1)
  then have "unat (v AND 0xFF) \<le> unat (0xFF :: u32)" by (simp only: word_le_nat_alt)
  then show "unat (v AND 0xFF) < 10 ^ 3" by simp
qed simp_all

section \<open>The list of typed pipes\<close>

definition typed_pipe_line :: "nat \<Rightarrow> typed_pipe \<Rightarrow> piece list" where
  "typed_pipe_line i tp =
     [Txt (itoa (of_nat i) 10), Chr 32, Txt (itoa (tp_schema_hash tp) 16), Chr 32,
      Txt (itoa (tp_producer_pid tp) 10), Chr 32, Txt (itoa (tp_consumer_pid tp) 10), Chr 10]"

definition pipe_typed_list :: "nat \<Rightarrow> 'a kpipe_scheme \<Rightarrow> bytes" where
  "pipe_typed_list out_len s =
     render out_len (concat (map (\<lambda>i. if tp_active (typed_pipes s ! i) then typed_pipe_line i (typed_pipes s ! i) else [])
       [0..<typed_pipe_count s])) []"

lemma length_typed_pipe_line: "length (plain_text (typed_pipe_line i tp)) \<le> 45"
proof -
  have "length (c_str (itoa v 10)) \<le> 11" for v using length_c_str [of "itoa v 10"] length_itoa_10 [of v] by simp
  moreover have "length (c_str (itoa v 16)) \<le> 8" for v using length_c_str [of "itoa v 16"] length_itoa_16 [of v] by simp
  ultimately have "length (c_str (itoa (of_nat i) 10)) \<le> 11" "length (c_str (itoa (tp_schema_hash tp) 16)) \<le> 8"
    "length (c_str (itoa (tp_producer_pid tp) 10)) \<le> 11" "length (c_str (itoa (tp_consumer_pid tp) 10)) \<le> 11" by blast+
  then show ?thesis by (simp add: typed_pipe_line_def)
qed

lemma pipe_typed_list_fits:
  assumes "typed_pipe_count s \<le> 11"
  shows "length (pipe_typed_list 512 s) < 512"
proof -
  let ?ps = "concat (map (\<lambda>i. if tp_active (typed_pipes s ! i) then typed_pipe_line i (typed_pipes s ! i) else [])
       [0..<typed_pipe_count s])"
  have "length (plain_text ?ps) \<le> length [0..<typed_pipe_count s] * 45"
    by (rule length_lines_le) (simp add: length_typed_pipe_line)
  then have "length (plain_text ?ps) < 512" using assms by simp
  then show ?thesis using render_fits [of "[]" ?ps 512] by (simp add: pipe_typed_list_def)
qed

end
