(* ===== verification/Hexa_Net.thy ===== *)
theory Hexa_Net
  imports Hexa_Interrupt Hexa_Report
begin

text \<open>
  The network layer (\<^verbatim>\<open>net.c\<close>): the tables of interfaces and connections, the loopback queue and the
  textual reports.  The loopback ring drops its oldest byte when it is full, like the kernel log.
\<close>

section \<open>State and operations\<close>

abbreviation NET_MAX_INTERFACES :: nat where "NET_MAX_INTERFACES \<equiv> 4"
abbreviation NET_MAX_CONNECTIONS :: nat where "NET_MAX_CONNECTIONS \<equiv> 16"
abbreviation LOOPBACK_SIZE :: nat where "LOOPBACK_SIZE \<equiv> 4096"
abbreviation NET_UP :: u32 where "NET_UP \<equiv> 1"
abbreviation NET_LOOPBACK :: u32 where "NET_LOOPBACK \<equiv> 2"
abbreviation NET_TCP :: u32 where "NET_TCP \<equiv> 6"
abbreviation NET_ESTABLISHED :: u32 where "NET_ESTABLISHED \<equiv> 1"
abbreviation NET_CLOSED :: u32 where "NET_CLOSED \<equiv> 2"
abbreviation NET_LISTEN :: u32 where "NET_LISTEN \<equiv> 3"

record net_interface =
  if_name :: bytes
  if_ip :: u32
  if_mask :: u32
  if_flags :: u32
  if_mtu :: u32

record net_connection =
  nc_local_ip :: u32
  nc_local_port :: u32
  nc_remote_ip :: u32
  nc_remote_port :: u32
  nc_proto :: u32
  nc_state :: u32
  nc_owner_pid :: u32
  nc_snap_id :: u32

record knet = kint +
  net_interfaces :: "net_interface list"
  net_if_count :: nat
  net_connections :: "net_connection list"
  net_conn_count :: nat
  loopback_ring :: bytes
  loopback_head :: nat
  loopback_tail :: nat
  net_history_count :: u32

definition zero_interface :: net_interface where
  "zero_interface = \<lparr>if_name = zeros 16, if_ip = 0, if_mask = 0, if_flags = 0, if_mtu = 0\<rparr>"

definition zero_connection :: net_connection where
  "zero_connection = \<lparr>nc_local_ip = 0, nc_local_port = 0, nc_remote_ip = 0, nc_remote_port = 0, nc_proto = 0,
     nc_state = 0, nc_owner_pid = 0, nc_snap_id = 0\<rparr>"

definition net_init :: "'a knet_scheme \<Rightarrow> 'a knet_scheme" where
  "net_init s =
     (let lo = zero_interface\<lparr>if_name := put_bytes 0 (name_bytes 16 (cs ''lo'')) (if_name zero_interface), if_ip := 0x7F000001,
                 if_mask := 0xFF000000, if_flags := NET_UP OR NET_LOOPBACK, if_mtu := 1500\<rparr>
      in log_write LOG_LEVEL_INFO (cs ''net: loopback initialized'')
           (s\<lparr>net_interfaces := (replicate NET_MAX_INTERFACES zero_interface)[0 := lo],
              net_connections := replicate NET_MAX_CONNECTIONS zero_connection, net_if_count := 1, net_conn_count := 0,
              loopback_head := 0, loopback_tail := 0, net_history_count := 0\<rparr>))"

definition net_interface_add :: "bytes \<Rightarrow> u32 \<Rightarrow> u32 \<Rightarrow> u32 \<Rightarrow> 'a knet_scheme \<Rightarrow> int \<times> 'a knet_scheme" where
  "net_interface_add name ip mask' mtu s =
     (if net_if_count s \<ge> NET_MAX_INTERFACES then (-1, s)
      else let k = net_if_count s; old = net_interfaces s ! k;
               iface = \<lparr>if_name = put_bytes 0 (name_bytes 16 name) (if_name old), if_ip = ip, if_mask = mask',
                        if_flags = NET_UP, if_mtu = mtu\<rparr>
           in (int k, s\<lparr>net_interfaces := (net_interfaces s)[k := iface], net_if_count := k + 1\<rparr>))"

definition net_connection_open :: "u32 \<Rightarrow> u32 \<Rightarrow> u32 \<Rightarrow> u32 \<Rightarrow> u32 \<Rightarrow> 'a knet_scheme \<Rightarrow> int \<times> 'a knet_scheme" where
  "net_connection_open local_ip local_port remote_ip remote_port proto s =
     (if net_conn_count s \<ge> NET_MAX_CONNECTIONS then (-1, s)
      else let k = net_conn_count s;
               conn = \<lparr>nc_local_ip = local_ip, nc_local_port = local_port, nc_remote_ip = remote_ip,
                       nc_remote_port = remote_port, nc_proto = proto, nc_state = NET_ESTABLISHED,
                       nc_owner_pid = of_int (t_pid (cur_task s)), nc_snap_id = 0\<rparr>
           in (int k, s\<lparr>net_connections := (net_connections s)[k := conn], net_conn_count := k + 1,
                        net_history_count := net_history_count s + 1\<rparr>))"

definition net_connection_close :: "int \<Rightarrow> 'a knet_scheme \<Rightarrow> int \<times> 'a knet_scheme" where
  "net_connection_close conn_id s =
     (if conn_id < 0 \<or> conn_id \<ge> int (net_conn_count s) then (-1, s)
      else (0, s\<lparr>net_connections := (net_connections s)[nat conn_id :=
                   (net_connections s ! nat conn_id)\<lparr>nc_state := NET_CLOSED\<rparr>]\<rparr>))"

definition net_get_interface_count :: "'a knet_scheme \<Rightarrow> nat" where
  "net_get_interface_count s = net_if_count s"

definition net_get_connection_count :: "'a knet_scheme \<Rightarrow> nat" where
  "net_get_connection_count s = net_conn_count s"

section \<open>Loopback\<close>

definition loopback_push :: "u8 \<Rightarrow> 'a knet_scheme \<Rightarrow> 'a knet_scheme" where
  "loopback_push c s =
     (let h = (loopback_head s + 1) mod LOOPBACK_SIZE
      in s\<lparr>loopback_ring := (loopback_ring s)[loopback_head s := c], loopback_head := h,
           loopback_tail := (if h = loopback_tail s then (loopback_tail s + 1) mod LOOPBACK_SIZE else loopback_tail s)\<rparr>)"

text \<open>The data are the \<^verbatim>\<open>len\<close> bytes at the pointer.\<close>

definition net_loopback_send :: "bytes \<Rightarrow> 'a knet_scheme \<Rightarrow> int \<times> 'a knet_scheme" where
  "net_loopback_send data s =
     (if length data > 4096 then (-1, s) else (int (length data), fold loopback_push data s))"

text \<open>The bytes stored in the buffer; their number is the result.\<close>

fun net_loopback_recv :: "nat \<Rightarrow> 'a knet_scheme \<Rightarrow> bytes \<times> 'a knet_scheme" where
  "net_loopback_recv 0 s = ([], s)"
| "net_loopback_recv (Suc maxlen) s =
     (if loopback_tail s \<noteq> loopback_head s
      then (case net_loopback_recv maxlen (s\<lparr>loopback_tail := (loopback_tail s + 1) mod LOOPBACK_SIZE\<rparr>) of
              (bs, t) \<Rightarrow> (loopback_ring s ! loopback_tail s # bs, t))
      else ([], s))"

section \<open>Reports\<close>

definition ip_pieces :: "u32 \<Rightarrow> piece list" where
  "ip_pieces ip =
     [Txt (itoa (ip AND 0xFF) 10), Chr 46, Txt (itoa (drop_bit 8 ip AND 0xFF) 10), Chr 46,
      Txt (itoa (drop_bit 16 ip AND 0xFF) 10), Chr 46, Txt (itoa (drop_bit 24 ip AND 0xFF) 10)]"

definition interface_line :: "net_interface \<Rightarrow> piece list" where
  "interface_line i =
     [Txt (if_name i), Chr 32] @ ip_pieces (if_ip i) @
     [Chr 32, Txt (itoa (if_mtu i) 10), Chr 32, Chr (if if_flags i AND NET_UP \<noteq> 0 then 85 else 68),
      Chr (if if_flags i AND NET_LOOPBACK \<noteq> 0 then 76 else 32), Chr 10]"

definition net_interface_list :: "nat \<Rightarrow> 'a knet_scheme \<Rightarrow> bytes" where
  "net_interface_list out_len s =
     render out_len (concat (map (\<lambda>i. interface_line (net_interfaces s ! i)) [0..<net_if_count s])) []"

definition connection_line :: "net_connection \<Rightarrow> piece list" where
  "connection_line c =
     [Chr (if nc_proto c = NET_TCP then 84 else 85), Chr 32, Txt (itoa (nc_local_ip c AND 0xFF) 10), Chr 58,
      Txt (itoa (nc_local_port c) 10), Chr 32, Txt (itoa (nc_remote_ip c AND 0xFF) 10), Chr 58,
      Txt (itoa (nc_remote_port c) 10), Chr 32,
      Txt (if nc_state c = NET_ESTABLISHED then cs ''EST'' else if nc_state c = NET_LISTEN then cs ''LST'' else cs ''CLS''), Chr 10]"

definition net_connection_list :: "nat \<Rightarrow> 'a knet_scheme \<Rightarrow> bytes" where
  "net_connection_list out_len s =
     render out_len
       (Txt (cs ''PROTO LOCAL REMOTE STATE'' @ [10] @ cs ''---- ----- ------ -----'' @ [10]) #
        concat (map (\<lambda>i. let c = net_connections s ! i in if nc_state c = NET_CLOSED then [] else connection_line c)
          [0..<net_conn_count s])) []"

definition net_history_list :: "nat \<Rightarrow> 'a knet_scheme \<Rightarrow> bytes" where
  "net_history_list out_len s =
     render out_len [Txt (cs ''Network History:'' @ [10]), Txt (itoa (net_history_count s) 10),
       Txt (cs '' state changes recorded'' @ [10])] []"

definition bss_knet :: knet where
  "bss_knet = kint.extend bss_kint \<lparr>net_interfaces = replicate NET_MAX_INTERFACES zero_interface, net_if_count = 0,
     net_connections = replicate NET_MAX_CONNECTIONS zero_connection, net_conn_count = 0, loopback_ring = zeros LOOPBACK_SIZE,
     loopback_head = 0, loopback_tail = 0, net_history_count = 0\<rparr>"

lemma log_write_knet [simp]:
  "net_interfaces (log_write l m s) = net_interfaces s" "net_if_count (log_write l m s) = net_if_count s"
  "net_connections (log_write l m s) = net_connections s" "net_conn_count (log_write l m s) = net_conn_count s"
  "loopback_ring (log_write l m s) = loopback_ring s" "loopback_head (log_write l m s) = loopback_head s"
  "loopback_tail (log_write l m s) = loopback_tail s" "net_history_count (log_write l m s) = net_history_count s"
  by (subst log_write_frame, simp)+

section \<open>The loopback queue keeps the most recent bytes\<close>

definition loopback_ok :: "'a knet_scheme \<Rightarrow> bool" where
  "loopback_ok s \<longleftrightarrow> ring_ok LOOPBACK_SIZE (loopback_ring s) (loopback_tail s) (loopback_head s)"

definition loopback_bytes :: "'a knet_scheme \<Rightarrow> bytes" where
  "loopback_bytes s = ring_list LOOPBACK_SIZE (loopback_ring s) (loopback_tail s) (loopback_head s)"

interpretation loopq: lossy_fifo loopback_ok loopback_bytes 4095 loopback_push
proof unfold_locales
  fix s :: "'a knet_scheme" and x
  assume ok: "loopback_ok s"
  then have r: "ring_ok LOOPBACK_SIZE (loopback_ring s) (loopback_tail s) (loopback_head s)" by (simp add: loopback_ok_def)
  show "loopback_ok (loopback_push x s)"
    using r by (simp add: loopback_ok_def loopback_push_def Let_def ring_ok_def)
  show "length (loopback_bytes s) \<le> 4095" using ring_length_le [OF r] by (simp add: loopback_bytes_def)
  show "loopback_bytes (loopback_push x s) =
      (if length (loopback_bytes s) < 4095 then loopback_bytes s @ [x] else tl (loopback_bytes s) @ [x])"
  proof (cases "(loopback_head s + 1) mod LOOPBACK_SIZE = loopback_tail s")
    case True
    then have "length (loopback_bytes s) = 4095" using ring_full_iff [OF r] by (simp add: loopback_bytes_def)
    with ring_list_put_over [OF r _ True, of x] True show ?thesis
      by (simp add: loopback_bytes_def loopback_push_def Let_def)
  next
    case False
    then have "length (loopback_bytes s) \<noteq> 4095" using ring_full_iff [OF r] by (simp add: loopback_bytes_def)
    then have "length (loopback_bytes s) < 4095" using ring_length_le [OF r] by (simp add: loopback_bytes_def)
    with ring_list_put [OF r False, of x] False show ?thesis
      by (simp add: loopback_bytes_def loopback_push_def Let_def)
  qed
qed simp

lemma loopback_recv_bytes:
  "loopback_ok s \<Longrightarrow> net_loopback_recv n s = (bs, t) \<Longrightarrow>
   bs = take n (loopback_bytes s) \<and> loopback_bytes t = drop n (loopback_bytes s) \<and> loopback_ok t"
proof (induction n arbitrary: s bs t)
  case (Suc n)
  have r: "ring_ok LOOPBACK_SIZE (loopback_ring s) (loopback_tail s) (loopback_head s)"
    using Suc.prems(1) by (simp add: loopback_ok_def)
  show ?case
  proof (cases "loopback_head s = loopback_tail s")
    case True
    then have "loopback_bytes s = []" using ring_list_empty_iff [OF r] by (simp add: loopback_bytes_def)
    with True Suc.prems show ?thesis by simp
  next
    case False
    let ?u = "s\<lparr>loopback_tail := (loopback_tail s + 1) mod LOOPBACK_SIZE\<rparr>"
    obtain cs' t' where c: "net_loopback_recv n ?u = (cs', t')" by (cases "net_loopback_recv n ?u")
    have u: "loopback_ok ?u" using ring_ok_get [OF r] by (simp add: loopback_ok_def)
    have "loopback_bytes s = loopback_ring s ! loopback_tail s # loopback_bytes ?u"
      using ring_list_get [OF r False] by (simp add: loopback_bytes_def)
    with Suc.IH [OF u c] c False Suc.prems(2) show ?thesis by auto
  qed
qed auto

section \<open>Properties\<close>

text \<open>
  The loopback device: a message of at most 4096 bytes is accepted, longer ones are refused without
  any effect; the queue then holds the most recent 4095 bytes sent and not yet received, and receiving
  delivers them in order and removes exactly what it delivers.
\<close>

theorem loopback_delivers:
  assumes "loopback_ok s" and "net_loopback_send data s = (r, s1)" and "net_loopback_recv n s1 = (bs, s2)"
  shows "(length data \<le> 4096 \<longrightarrow> r = int (length data) \<and>
      (let q = drop (length (loopback_bytes s @ data) - 4095) (loopback_bytes s @ data)
       in bs = take n q \<and> loopback_bytes s2 = drop n q)) \<and>
    (4096 < length data \<longrightarrow> r = -1 \<and> s1 = s) \<and> loopback_ok s2"
proof (cases "length data \<le> 4096")
  case True
  then have s1: "s1 = fold loopback_push data s" "r = int (length data)" using assms(2) by (auto simp: net_loopback_send_def)
  have "loopback_ok s1" unfolding s1 by (rule loopq.fold_push_inv [OF assms(1)])
  moreover have "loopback_bytes s1 = drop (length (loopback_bytes s @ data) - 4095) (loopback_bytes s @ data)"
    unfolding s1 by (rule loopq.fold_push_items [OF assms(1)])
  ultimately show ?thesis using loopback_recv_bytes [OF _ assms(3)] s1(2) True by (simp add: Let_def)
next
  case False
  then have "s1 = s" "r = -1" using assms(2) by (auto simp: net_loopback_send_def)
  then show ?thesis using loopback_recv_bytes [OF _ assms(3)] assms(1) False by simp
qed

lemma bss_loopback: "loopback_ok bss_knet" "loopback_bytes bss_knet = []"
  by (simp_all add: loopback_ok_def loopback_bytes_def ring_ok_def ring_list_def bss_knet_def kint.extend_def)

lemma loopback_delivers_witness:
  "fst (net_loopback_recv 10 (snd (net_loopback_send (cs ''ping'') bss_knet))) = cs ''ping''"
proof -
  obtain r s1 where s1: "net_loopback_send (cs ''ping'') bss_knet = (r, s1)" by (cases "net_loopback_send (cs ''ping'') bss_knet")
  obtain bs s2 where s2: "net_loopback_recv 10 s1 = (bs, s2)" by (cases "net_loopback_recv 10 s1")
  show ?thesis using loopback_delivers [OF bss_loopback(1) s1 s2] s1 s2 by (simp add: bss_loopback(2) cs_def)
qed

text \<open>
  The table invariant: counts within the arrays, stored interface names terminated within 16 bytes.
\<close>

definition net_inv :: "'a knet_scheme \<Rightarrow> bool" where
  "net_inv s \<longleftrightarrow> length (net_interfaces s) = NET_MAX_INTERFACES \<and> net_if_count s \<le> NET_MAX_INTERFACES \<and>
     length (net_connections s) = NET_MAX_CONNECTIONS \<and> net_conn_count s \<le> NET_MAX_CONNECTIONS \<and>
     (\<forall>i \<in> set (net_interfaces s). length (if_name i) = 16)"

lemma put_name_length: "length old = n \<Longrightarrow> 0 < n \<Longrightarrow> length (put_bytes 0 (name_bytes n name) old) = n"
  by (subst length_put_bytes) (auto simp: length_name_bytes)

text \<open>
  The network tables stay within their arrays under every operation, and opening a connection
  succeeds exactly while fewer than 16 have been opened since boot: it records the endpoints, the state
  and the owner under the next number and leaves the other entries alone; closing marks exactly the
  given connection.
\<close>

theorem connection_table:
  assumes "net_inv s"
  shows "net_inv (net_init s) \<and> net_inv (snd (net_interface_add name ip msk mtu s)) \<and>
    net_inv (snd (net_connection_open la lp ra rp proto s)) \<and> net_inv (snd (net_connection_close c s)) \<and>
    (fst (net_connection_open la lp ra rp proto s) = -1 \<longleftrightarrow> net_conn_count s = 16) \<and>
    (net_conn_count s < 16 \<longrightarrow>
      (let k = net_conn_count s; t = snd (net_connection_open la lp ra rp proto s); e = net_connections t ! k
       in fst (net_connection_open la lp ra rp proto s) = int k \<and> net_conn_count t = k + 1 \<and>
          nc_local_ip e = la \<and> nc_local_port e = lp \<and> nc_remote_ip e = ra \<and> nc_remote_port e = rp \<and> nc_proto e = proto \<and>
          nc_state e = NET_ESTABLISHED \<and> nc_owner_pid e = of_int (t_pid (cur_task s)) \<and>
          (\<forall>j. j \<noteq> k \<longrightarrow> net_connections t ! j = net_connections s ! j) \<and>
          fst (net_connection_close (int k) t) = 0 \<and>
          nc_state (net_connections (snd (net_connection_close (int k) t)) ! k) = NET_CLOSED \<and>
          (\<forall>j. j \<noteq> k \<longrightarrow> net_connections (snd (net_connection_close (int k) t)) ! j = net_connections s ! j)))"
proof -
  have "net_inv (net_init s)"
    by (auto simp: net_inv_def net_init_def Let_def zero_interface_def put_name_length eval_nat_numeral)
  moreover have "net_inv (snd (net_interface_add name ip msk mtu s))"
  proof (cases "net_if_count s \<ge> NET_MAX_INTERFACES")
    case False
    then have "length (if_name (net_interfaces s ! net_if_count s)) = 16" using assms by (auto simp: net_inv_def)
    then show ?thesis using False assms set_update_subset_insert
      by (fastforce simp: net_inv_def net_interface_add_def Let_def put_name_length)
  qed (use assms in \<open>simp add: net_interface_add_def\<close>)
  moreover have "net_inv (snd (net_connection_open la lp ra rp proto s))" "net_inv (snd (net_connection_close c s))"
    using assms by (auto simp: net_inv_def net_connection_open_def net_connection_close_def Let_def)
  ultimately show ?thesis
    using assms by (auto simp: net_inv_def net_connection_open_def net_connection_close_def Let_def)
qed

lemma bss_net_inv: "net_inv bss_knet"
  by (simp add: net_inv_def bss_knet_def kint.extend_def zero_interface_def)

lemma connection_table_witness:
  "fst (net_connection_open 1 80 2 81 NET_TCP bss_knet) = 0"
  using connection_table [OF bss_net_inv, of "[]" 0 0 0 1 80 2 81 NET_TCP 0]
  by (simp add: Let_def) (simp add: bss_knet_def kint.extend_def)

text \<open>Closed connections are not reused: once sixteen were opened, no further one can be.\<close>

lemma closed_connections_leak:
  assumes "net_conn_count s = 16"
  shows "fst (net_connection_open la lp ra rp proto (snd (net_connection_close c s))) = -1"
  using assms by (simp add: net_connection_open_def net_connection_close_def)

text \<open>
  The network reports never overrun the 1024-byte buffers that the shell passes, and they are
  complete: with any admissible table contents, numbers and names of any length included, the text is
  the concatenation of all its lines and leaves room for the terminator.
\<close>

theorem net_reports_fit:
  assumes "net_inv s"
  shows "length (net_interface_list 1024 s) < 1024 \<and> length (net_connection_list 1024 s) < 1024 \<and>
    length (net_history_list 1024 s) < 1024 \<and>
    net_interface_list 1024 s = concat (map (\<lambda>i. plain_text (interface_line (net_interfaces s ! i))) [0..<net_if_count s])"
proof -
  have d: "length (c_str (itoa v 10)) \<le> 11" for v using length_c_str [of "itoa v 10"] length_itoa_10 [of v] by simp
  have b: "length (c_str (itoa (v AND 0xFF) 10)) \<le> 3" for v using length_c_str [of "itoa (v AND 0xFF) 10"] byte_text [of v] by simp
  let ?is = "concat (map (\<lambda>i. interface_line (net_interfaces s ! i)) [0..<net_if_count s])"
  have "length (plain_text ?is) \<le> length [0..<net_if_count s] * 50"
  proof (rule length_lines_le)
    fix i assume "i \<in> set [0..<net_if_count s]"
    then have "length (if_name (net_interfaces s ! i)) = 16" using assms by (auto simp: net_inv_def)
    then have "length (c_str (if_name (net_interfaces s ! i))) \<le> 16" using length_c_str by metis
    then show "length (plain_text (interface_line (net_interfaces s ! i))) \<le> 50"
      using b [of "if_ip (net_interfaces s ! i)"] b [of "drop_bit 8 (if_ip (net_interfaces s ! i))"]
        b [of "drop_bit 16 (if_ip (net_interfaces s ! i))"] b [of "drop_bit 24 (if_ip (net_interfaces s ! i))"]
        d [of "if_mtu (net_interfaces s ! i)"]
      by (simp add: interface_line_def ip_pieces_def)
  qed
  then have il: "length (plain_text ?is) < 1024" using assms by (simp add: net_inv_def)
  have i: "net_interface_list 1024 s = plain_text ?is" using render_fits [of "[]" ?is 1024] il by (simp add: net_interface_list_def)
  let ?c = "concat (map (\<lambda>i. let c = net_connections s ! i in if nc_state c = NET_CLOSED then [] else connection_line c)
          [0..<net_conn_count s])"
  have "length (plain_text ?c) \<le> length [0..<net_conn_count s] * 40"
  proof (rule length_lines_le)
    fix i
    let ?n = "net_connections s ! i"
    have "length (c_str (if nc_state ?n = NET_ESTABLISHED then cs ''EST'' else if nc_state ?n = NET_LISTEN then cs ''LST'' else cs ''CLS'')) \<le> 3"
      by (rule order_trans [OF length_c_str]) (simp add: cs_def)
    then show "length (plain_text (let c = net_connections s ! i in if nc_state c = NET_CLOSED then [] else connection_line c)) \<le> 40"
      using b [of "nc_local_ip ?n"] b [of "nc_remote_ip ?n"] d [of "nc_local_port ?n"] d [of "nc_remote_port ?n"]
      by (simp add: Let_def connection_line_def)
  qed
  then have "length (plain_text ?c) \<le> 640" using assms by (simp add: net_inv_def)
  moreover have "length (c_str (cs ''PROTO LOCAL REMOTE STATE'' @ [10] @ cs ''---- ----- ------ -----'' @ [10])) \<le> 50"
    by (rule order_trans [OF length_c_str]) (simp add: cs_def)
  ultimately have "length (net_connection_list 1024 s) < 1024"
    using render_fits [of "[]" "Txt (cs ''PROTO LOCAL REMOTE STATE'' @ [10] @ cs ''---- ----- ------ -----'' @ [10]) # ?c" 1024]
    by (simp add: net_connection_list_def)
  moreover have "length (net_history_list 1024 s) < 1024"
    using render_bound [of 1024 "[Txt (cs ''Network History:'' @ [10]), Txt (itoa (net_history_count s) 10),
       Txt (cs '' state changes recorded'' @ [10])]" "[]"] by (simp add: net_history_list_def)
  ultimately show ?thesis using i il by (simp add: plain_text_concat)
qed

lemma net_reports_fit_witness:
  "length (net_connection_list 1024 bss_knet) < 1024"
  using net_reports_fit [OF bss_net_inv] by simp

end
