(* ===== verification/Hexa_Live.thy ===== *)
theory Hexa_Live
  imports Hexa_Heap Hexa_Cstring
begin

text \<open>
  The heap as its clients see it.  \<open>heap_live L s\<close> says that the heap is well formed and that \<open>L\<close> maps
  the address of every block in use to its size.  The laws of \<^verbatim>\<open>kmalloc\<close> and \<^verbatim>\<open>kfree\<close> in these terms are
  the assumptions of the locale \<open>byte_heap\<close>, in which the pattern of replacing a block by a larger one is
  proved once; the interpretation discharges them from the refinement of the block list.
\<close>

section \<open>Blocks in use\<close>

fun live :: "nat \<Rightarrow> blk list \<Rightarrow> nat \<rightharpoonup> nat" where
  "live p [] = Map.empty"
| "live p ((sz, f) # bs) = (if f then live (p + 12 + sz) bs else (live (p + 12 + sz) bs)(p + 12 \<mapsto> sz))"

lemma live_range: "live p bs a = Some n \<Longrightarrow> p + 12 \<le> a \<and> a + n \<le> p + span bs"
  by (induction p bs rule: live.induct) (fastforce split: if_splits)+

lemma live_append: "live p (xs @ ys) = live p xs ++ live (p + span xs) ys"
proof (induction p xs rule: live.induct)
  case (2 p sz f bs)
  have "live (p + (12 + sz + span bs)) ys (p + 12) = None"
    using live_range [of "p + (12 + sz + span bs)" ys "p + 12"] by fastforce
  with 2 show ?case by (auto simp: add.assoc map_add_upd_left [unfolded dom_def] fun_eq_iff map_add_def split: option.splits)
qed simp

lemma live_used: "live p bs a = Some n \<Longrightarrow> {a..<a + n} \<subseteq> used_bytes p bs"
  by (induction p bs rule: live.induct) (auto split: if_splits)

lemma live_disjoint:
  "live p bs a = Some m \<Longrightarrow> live p bs b = Some n \<Longrightarrow> a < b \<Longrightarrow> a + m < b"
proof (induction p bs rule: live.induct)
  case (2 p sz f bs)
  show ?case
  proof (cases "a = p + 12 \<and> \<not> f")
    case True
    then have "live (p + 12 + sz) bs b = Some n" "m = sz" using 2(3-5) by auto
    then show ?thesis using True live_range [of "p + 12 + sz" bs b n] by simp
  next
    case False
    then have a: "live (p + 12 + sz) bs a = Some m" using 2(3) by (auto split: if_splits)
    then have "p + 12 < a" using live_range by fastforce
    then have "live (p + 12 + sz) bs b = Some n" using 2(4,5) by (auto split: if_splits)
    then show ?thesis using 2(1,2) a 2(5) by blast
  qed
qed simp

lemma live_split:
  assumes "live p bs a = Some n"
  obtains xs ys where "bs = xs @ (n, False) # ys" and "a = p + span xs + 12"
proof -
  from assms have "\<exists>xs ys. bs = xs @ (n, False) # ys \<and> a = p + span xs + 12"
  proof (induction p bs rule: live.induct)
    case (2 p sz f bs)
    show ?case
    proof (cases "a = p + 12 \<and> \<not> f")
      case True
      then have "(sz, f) # bs = [] @ (n, False) # bs \<and> a = p + span [] + 12" using 2(3) by simp
      then show ?thesis by blast
    next
      case False
      then have "live (p + 12 + sz) bs a = Some n" using 2(3) by (auto split: if_splits)
      with 2(1,2) obtain xs ys where "bs = xs @ (n, False) # ys" "a = p + 12 + sz + span xs + 12" by blast
      then show ?thesis by (intro exI [of _ "(sz, f) # xs"] exI [of _ ys]) simp
    qed
  qed simp
  then show thesis using that by blast
qed

lemma live_alloc:
  assumes "h_alloc n p bs = Some (a, bs')"
  obtains sz where "live p bs' = (live p bs)(a \<mapsto> sz)" and "n \<le> sz" and "live p bs a = None" and "a + sz \<le> p + span bs"
proof -
  obtain xs sz ys where d: "bs = xs @ (sz, True) # ys" "a = p + span xs + 12" "n \<le> sz"
    "bs' = xs @ (if sz > n + 16 then (n, False) # (sz - n - 12, True) # ys else (sz, False) # ys)"
    using h_alloc_Some [OF assms] .
  have y: "live (a + sz) ys b = None" if "b \<le> a + sz" for b
    using live_range [of "a + sz" ys b] that by fastforce
  have x: "live p xs b = None" if "p + span xs < b" for b
    using live_range [of p xs b] that by (cases "live p xs b") auto
  have "live p bs a = None" using d(1,2) x [of a] y [of a] by (simp add: live_append map_add_None add.assoc)
  moreover have "live p bs' = (live p bs)(a \<mapsto> (if sz > n + 16 then n else sz))"
    using d(1,2,4) by (auto simp: live_append add.assoc)
  ultimately show thesis using d(1-3) that [of "if sz > n + 16 then n else sz"] by (auto split: if_splits)
qed

lemma live_join_next: "live p (join_next sz ys) = live (p + 12 + sz) ys"
  by (auto simp: join_next_def add.assoc split: list.splits bool.splits)

lemma live_free:
  "live p (h_free xs sz ys) = (live p (xs @ (sz, False) # ys))(p + span xs + 12 := None)"
proof -
  let ?a = "p + span xs + 12"
  have y: "live (?a + sz) ys ?a = None" using live_range [of "?a + sz" ys ?a] by fastforce
  have x: "live p xs ?a = None" using live_range [of p xs ?a] by fastforce
  have r: "(live p (xs @ (sz, False) # ys))(?a := None) = live p xs ++ live (?a + sz) ys"
    using x y by (auto simp: live_append add.assoc fun_eq_iff map_add_def split: option.splits)
  have "live p (h_free xs sz ys) = live p xs ++ live (?a + sz) ys"
  proof (cases xs rule: rev_cases)
    case Nil
    then show ?thesis by (simp add: h_free_def join_prev_def live_join_next)
  next
    case (snoc xs0 b)
    obtain s1 f1 where b: "b = (s1, f1)" by (cases b)
    obtain z zs where j: "join_next sz ys = z # zs" "snd z"
      using join_next_facts(1,2) [of sz ys] by (cases "join_next sz ys") auto
    have u: "live q (z # zs) = live (q + 12 + sz) ys" for q
      using live_join_next [of q sz ys] j(1) by simp
    show ?thesis
    proof (cases f1)
      case True
      have "live q ((s1 + 12 + fst z, True) # zs) = live (q + 12 + s1) (z # zs)" for q
        using j(2) by (cases z) (simp add: add.assoc)
      from this [of "p + span xs0"] u [of "p + span xs0 + 12 + s1"] True show ?thesis
        by (simp add: h_free_def j(1) snoc b join_prev_last live_append add.assoc)
    next
      case False
      then have "h_free xs sz ys = xs @ z # zs" by (simp add: h_free_def j(1) snoc b join_prev_last)
      with u [of "p + span xs"] show ?thesis by (simp add: live_append add.assoc del: live.simps)
    qed
  qed
  with r show ?thesis by simp
qed


section \<open>The interface of the heap\<close>

text \<open>
  A heap of bytes: \<open>inv L s\<close> with \<open>L\<close> the blocks in use, \<open>byte s a\<close> the byte at an address, \<open>sto\<close> a store.
  Blocks are disjoint; \<open>alloc\<close> fails without effect or adds a block; \<open>alloc\<close> and \<open>release\<close> keep the bytes
  of the other blocks in use; stores into blocks in use keep the heap.
\<close>

locale byte_heap =
  fixes inv :: "(nat \<rightharpoonup> nat) \<Rightarrow> 's \<Rightarrow> bool"
    and alloc :: "nat \<Rightarrow> 's \<Rightarrow> (nat \<times> 's) option"
    and release :: "nat \<Rightarrow> 's \<Rightarrow> 's option"
    and byte :: "'s \<Rightarrow> nat \<Rightarrow> 'b"
    and sto :: "nat \<Rightarrow> 'b \<Rightarrow> 's \<Rightarrow> 's"
    and size_ok :: "nat \<Rightarrow> bool"
  assumes disjoint: "inv L s \<Longrightarrow> L a = Some m \<Longrightarrow> L b = Some n \<Longrightarrow> a \<noteq> b \<Longrightarrow> a + m \<le> b \<or> b + n \<le> a"
    and alloc: "inv L s \<Longrightarrow> size_ok n \<Longrightarrow> alloc n s = Some (0, s) \<or>
      (\<exists>a sz s'. alloc n s = Some (a, s') \<and> a \<noteq> 0 \<and> L a = None \<and> n \<le> sz \<and> inv (L(a \<mapsto> sz)) s' \<and>
         (\<forall>b k i. L b = Some k \<and> i < k \<longrightarrow> byte s' (b + i) = byte s (b + i)))"
    and release: "inv L s \<Longrightarrow> L a = Some n \<Longrightarrow> \<exists>s'. release a s = Some s' \<and> inv (L(a := None)) s' \<and>
         (\<forall>b k i. b \<noteq> a \<and> L b = Some k \<and> i < k \<longrightarrow> byte s' (b + i) = byte s (b + i))"
    and sto: "inv L s \<Longrightarrow> L a = Some n \<Longrightarrow> i < n \<Longrightarrow> inv L (sto (a + i) v s) \<and>
         (\<forall>b k j. L b = Some k \<and> j < k \<longrightarrow> byte (sto (a + i) v s) (b + j) = (if b + j = a + i then v else byte s (b + j)))"
begin

text \<open>Storing a list of bytes at the start of a block.\<close>

fun sto_list :: "nat \<Rightarrow> 'b list \<Rightarrow> 's \<Rightarrow> 's" where
  "sto_list p [] s = s"
| "sto_list p (x # xs) s = sto_list (p + 1) xs (sto p x s)"

lemma sto_list_ok:
  assumes "inv L s" and "L a = Some n" and "i + length xs \<le> n"
  shows "inv L (sto_list (a + i) xs s) \<and> (\<forall>b k j. L b = Some k \<and> j < k \<longrightarrow> byte (sto_list (a + i) xs s) (b + j) =
     (if b = a \<and> i \<le> j \<and> j < i + length xs then xs ! (j - i) else byte s (b + j)))"
  using assms
proof (induction xs arbitrary: i s)
  case (Cons x xs)
  let ?s = "sto (a + i) x s"
  have i: "i < n" using Cons.prems(3) by simp
  note st = sto [OF Cons.prems(1,2) i, of x]
  have IH: "inv L (sto_list (a + Suc i) xs ?s) \<and> (\<forall>b k j. L b = Some k \<and> j < k \<longrightarrow> byte (sto_list (a + Suc i) xs ?s) (b + j) =
     (if b = a \<and> Suc i \<le> j \<and> j < Suc i + length xs then xs ! (j - Suc i) else byte ?s (b + j)))"
    by (rule Cons.IH) (use st Cons.prems in auto)
  have "byte (sto_list (a + Suc i) xs ?s) (b + j) =
     (if b = a \<and> i \<le> j \<and> j < i + length (x # xs) then (x # xs) ! (j - i) else byte s (b + j))" if "L b = Some k" "j < k" for b k j
  proof -
    have "b + j = a + i \<longleftrightarrow> b = a \<and> j = i"
      using disjoint [OF Cons.prems(1,2) that(1)] i that(2) by (cases "b = a") auto
    then show ?thesis using IH st that by (auto simp: nth_Cons')
  qed
  note key = this
  have "sto_list (a + i) (x # xs) s = sto_list (a + Suc i) xs ?s" by simp
  then show ?case
    by (simp only:) (intro conjI allI impI, rule IH [THEN conjunct1], elim conjE, rule key)
qed auto

lemma sto_list_start:
  assumes "inv L s" and "L a = Some n" and "length xs \<le> n"
  shows "inv L (sto_list a xs s) \<and> (\<forall>b k j. L b = Some k \<and> j < k \<longrightarrow> byte (sto_list a xs s) (b + j) =
     (if b = a \<and> j < length xs then xs ! j else byte s (b + j)))"
proof -
  have "0 + length xs \<le> n" using assms(3) by simp
  from sto_list_ok [OF assms(1,2) this] show ?thesis by (simp only: add_0_right add_0 minus_nat.diff_0 le0 simp_thms) blast
qed

text \<open>A fresh block is disjoint from the old ones, so growing a block keeps its contents.\<close>

lemma grow:
  assumes "inv L s" and "L a = Some n" and "size_ok m" and "length xs \<le> n" and "length xs \<le> m"
    and "\<forall>i < length xs. byte s (a + i) = xs ! i"
  obtains (full) "alloc m s = Some (0, s)"
  | (ok) c sz s1 s2 where "alloc m s = Some (c, s1)" and "c \<noteq> 0" and "L c = None" and "m \<le> sz" and "inv (L(c \<mapsto> sz)) s1"
      and "\<forall>i < length xs. byte s1 (a + i) = xs ! i"
      and "release a (sto_list c xs s1) = Some s2" and "inv (L(a := None, c \<mapsto> sz)) s2"
      and "\<forall>i < length xs. byte s2 (c + i) = xs ! i"
      and "\<forall>b k j. b \<noteq> a \<and> L b = Some k \<and> j < k \<longrightarrow> byte s2 (b + j) = byte s (b + j)"
proof (cases "alloc m s = Some (0, s)")
  case False
  then obtain c sz s1 where c: "alloc m s = Some (c, s1)" "c \<noteq> 0" "L c = None" "m \<le> sz" "inv (L(c \<mapsto> sz)) s1"
    "\<forall>b k i. L b = Some k \<and> i < k \<longrightarrow> byte s1 (b + i) = byte s (b + i)"
    using alloc [OF assms(1,3)] by blast
  let ?t = "sto_list c xs s1"
  have t: "inv (L(c \<mapsto> sz)) ?t \<and> (\<forall>b k j. (L(c \<mapsto> sz)) b = Some k \<and> j < k \<longrightarrow> byte ?t (b + j) =
     (if b = c \<and> j < length xs then xs ! j else byte s1 (b + j)))"
    by (rule sto_list_start [OF c(5), of c sz]) (use assms(5) c(4) in auto)
  have ca: "c \<noteq> a" using c(3) assms(2) by auto
  then have "(L(c \<mapsto> sz)) a = Some n" using assms(2) by simp
  from release [OF conjunct1 [OF t] this] obtain s2 where s2: "release a ?t = Some s2" "inv (L(c \<mapsto> sz, a := None)) s2"
    "\<forall>b k i. b \<noteq> a \<and> (L(c \<mapsto> sz)) b = Some k \<and> i < k \<longrightarrow> byte s2 (b + i) = byte ?t (b + i)" by blast
  have i2: "inv (L(a := None, c \<mapsto> sz)) s2" using s2(2) by (simp only: fun_upd_twist [OF ca])
  have p: "byte s2 (c + i) = xs ! i" if "i < length xs" for i
    using s2(3) t that ca c(4) assms(5) by (metis fun_upd_same order_less_le_trans)
  have q: "byte s2 (b + j) = byte s (b + j)" if "b \<noteq> a" "L b = Some k" "j < k" for b k j
  proof -
    have "b \<noteq> c" using that(2) c(3) by auto
    then show ?thesis using s2(3) t c(6) that by (metis fun_upd_other)
  qed
  have r: "byte s1 (a + i) = xs ! i" if "i < length xs" for i
    using c(6) [rule_format, of a n i] assms(2,4,6) that by simp
  have P: "\<forall>i < length xs. byte s2 (c + i) = xs ! i" using p by simp
  have Q: "\<forall>b k j. b \<noteq> a \<and> L b = Some k \<and> j < k \<longrightarrow> byte s2 (b + j) = byte s (b + j)"
    by (intro allI impI, elim conjE, rule q)
  have R: "\<forall>i < length xs. byte s1 (a + i) = xs ! i" using r by simp
  show thesis by (rule ok [OF c(1-5) R s2(1) i2 P Q])
qed (rule full)

end

section \<open>The kernel heap provides it\<close>

definition heap_live :: "(nat \<rightharpoonup> nat) \<Rightarrow> 'a kheap_scheme \<Rightarrow> bool" where
  "heap_live L s \<longleftrightarrow> (\<exists>bs. heap_rep bs s \<and> live HEAP_BASE bs = L)"

lemma heap_span: "heap_rep bs s \<Longrightarrow> HEAP_BASE + span bs = HEAP_END"
  using heap_at_end unfolding heap_rep_def by blast

lemma heap_live_range:
  assumes "heap_live L s" and "L a = Some n"
  shows "HEAP_BASE < a" and "a + n \<le> HEAP_END"
  using assms live_range heap_span unfolding heap_live_def by fastforce+

lemma heap_live_disjoint:
  assumes "heap_live L s" and "L a = Some m" and "L b = Some n" and "a \<noteq> b"
  shows "a + m \<le> b \<or> b + n \<le> a"
  using assms live_disjoint [of HEAP_BASE _ a m b n] live_disjoint [of HEAP_BASE _ b n a m]
  unfolding heap_live_def by (cases "a < b") fastforce+

lemma bytes_kept_live:
  assumes "heap_bytes_kept bs s s'" and "live HEAP_BASE bs b = Some k" and "i < k"
  shows "vmem s' (of_nat (b + i)) = vmem s (of_nat (b + i))"
proof -
  have "b + i \<in> used_bytes HEAP_BASE bs" using live_used [OF assms(2)] assms(3) by auto
  then show ?thesis using assms(1) unfolding heap_bytes_kept_def by blast
qed

lemma kmalloc_live:
  assumes "heap_live L s" and "0 < n" and "n \<le> 2 ^ 32 - 4"
  shows "kmalloc (of_nat n) s = Some (0, s) \<or>
    (\<exists>a sz m. kmalloc (of_nat n) s = Some (of_nat a, s\<lparr>vmem := m\<rparr>) \<and> L a = None \<and> n \<le> sz \<and>
       heap_live (L(a \<mapsto> sz)) (s\<lparr>vmem := m\<rparr>) \<and>
       (\<forall>b k i. L b = Some k \<and> i < k \<longrightarrow> m (of_nat (b + i)) = vmem s (of_nat (b + i))))"
proof -
  obtain bs where bs: "heap_rep bs s" "live HEAP_BASE bs = L" using assms(1) unfolding heap_live_def by blast
  have u: "unat (of_nat n :: u32) = n" using assms(3) by (intro word_of_nat_less_eq) simp
  have n0: "(of_nat n :: u32) \<noteq> 0" using u assms(2) by (metis neq0_conv unat_0)
  have r: "n \<le> unat (round4 (of_nat n))" using round4_eq [of "of_nat n"] assms(3) u by simp
  note k = kmalloc_refines [OF bs(1) n0]
  show ?thesis
  proof (cases "h_alloc (unat (round4 (of_nat n))) HEAP_BASE bs")
    case None
    with k show ?thesis by simp
  next
    case (Some x)
    then obtain a bs' where x: "h_alloc (unat (round4 (of_nat n))) HEAP_BASE bs = Some (a, bs')" by (cases x) auto
    from k x obtain s' where s': "kmalloc (of_nat n) s = Some (of_nat a, s')" "heap_rep bs' s'" "heap_bytes_kept bs s s'" by auto
    obtain sz where sz: "live HEAP_BASE bs' = (live HEAP_BASE bs)(a \<mapsto> sz)" "unat (round4 (of_nat n)) \<le> sz" "live HEAP_BASE bs a = None"
      using live_alloc [OF x] .
    have f: "s' = s\<lparr>vmem := vmem s'\<rparr>" using s'(3) unfolding heap_bytes_kept_def by blast
    have "heap_live (L(a \<mapsto> sz)) s'" using s'(2) sz(1) bs(2) unfolding heap_live_def by blast
    then show ?thesis
      using s'(1) f sz(2,3) r bs(2) bytes_kept_live [OF s'(3)]
      by (intro disjI2 exI [of _ a] exI [of _ sz] exI [of _ "vmem s'"]) auto
  qed
qed

lemma kfree_live:
  assumes "heap_live L s" and "L a = Some n"
  shows "\<exists>m. kfree (of_nat a) s = Some (s\<lparr>vmem := m\<rparr>) \<and> heap_live (L(a := None)) (s\<lparr>vmem := m\<rparr>) \<and>
    (\<forall>b k i. b \<noteq> a \<and> L b = Some k \<and> i < k \<longrightarrow> m (of_nat (b + i)) = vmem s (of_nat (b + i)))"
proof -
  obtain bs where bs: "heap_rep bs s" "live HEAP_BASE bs = L" using assms(1) unfolding heap_live_def by blast
  obtain xs ys where x: "bs = xs @ (n, False) # ys" "a = HEAP_BASE + span xs + 12"
    using live_split [of HEAP_BASE bs a n] assms(2) bs(2) by blast
  obtain s' where s': "kfree (of_nat a) s = Some s'" "heap_rep (h_free xs n ys) s'" "heap_bytes_kept (h_free xs n ys) s s'"
    using kfree_refines [of xs n ys s] bs(1) x by auto
  have l: "live HEAP_BASE (h_free xs n ys) = L(a := None)" using live_free [of HEAP_BASE xs n ys] x bs(2) by simp
  have f: "s' = s\<lparr>vmem := vmem s'\<rparr>" using s'(3) unfolding heap_bytes_kept_def by blast
  have "heap_live (L(a := None)) s'" using s'(2) l unfolding heap_live_def by blast
  moreover have "vmem s' (of_nat (b + i)) = vmem s (of_nat (b + i))" if "b \<noteq> a" "L b = Some k" "i < k" for b k i
    by (rule bytes_kept_live [OF s'(3)]) (use that l in auto)
  ultimately show ?thesis using s'(1) f by (intro exI [of _ "vmem s'"]) auto
qed

text \<open>The memory determines the list of blocks.\<close>

lemma heap_at_unique: "heap_at m p bs \<Longrightarrow> heap_at m p bs' \<Longrightarrow> bs = bs'"
proof (induction m p bs arbitrary: bs' rule: heap_at.induct)
  case (1 m p)
  then show ?case by (cases bs') auto
next
  case (2 m p sz f bs)
  show ?case
  proof (cases bs')
    case Nil
    then show ?thesis using 2 by simp
  next
    case (Cons b cs)
    obtain sz' f' where b: "b = (sz', f')" by (cases b)
    have "sz' = sz \<and> f' = f" using 2(2,3) Cons b by (auto simp: hdr_def)
    then show ?thesis using 2(1) [of cs] 2(2,3) Cons b by simp
  qed
qed

lemma heap_rep_unique: "heap_rep bs s \<Longrightarrow> heap_rep bs' s \<Longrightarrow> bs = bs'"
  using heap_at_unique unfolding heap_rep_def by blast

text \<open>
  When a request fails, and what is left after one that succeeds.  \<open>no_room n\<close> says that no free block of
  the heap has the rounded size; \<open>has_room k\<close> that some free block has \<open>k\<close> bytes.
\<close>

definition no_room :: "nat \<Rightarrow> 'a kheap_scheme \<Rightarrow> bool" where
  "no_room n s \<longleftrightarrow> (\<exists>bs. heap_rep bs s \<and> (\<forall>(sz, free) \<in> set bs. free \<longrightarrow> sz < (n + 3) div 4 * 4))"

definition has_room :: "nat \<Rightarrow> 'a kheap_scheme \<Rightarrow> bool" where
  "has_room k s \<longleftrightarrow> (\<exists>bs sz. heap_rep bs s \<and> (sz, True) \<in> set bs \<and> k \<le> sz)"

lemma room_cong:
  assumes "vmem s' = vmem s" and "heap_first s' = heap_first s"
  shows "no_room n s' = no_room n s" and "has_room n s' = has_room n s"
  using assms by (simp_all add: no_room_def has_room_def heap_rep_def)

lemma of_nat_request:
  assumes "0 < n" and "n \<le> 2 ^ 32 - 4"
  shows "(of_nat n :: u32) \<noteq> 0" and "unat (round4 (of_nat n)) = (n + 3) div 4 * 4"
proof -
  have u: "unat (of_nat n :: u32) = n" using assms(2) by (intro word_of_nat_less_eq) simp
  then show "(of_nat n :: u32) \<noteq> 0" using assms(1) by (metis neq0_conv unat_0)
  show "unat (round4 (of_nat n)) = (n + 3) div 4 * 4" using round4_eq [of "of_nat n"] u assms(2) by simp
qed

lemma kmalloc_null_iff:
  assumes "heap_live L s" and "0 < n" and "n \<le> 2 ^ 32 - 4"
  shows "no_room n s \<longleftrightarrow> kmalloc (of_nat n) s = Some (0, s)"
proof -
  note q = of_nat_request [OF assms(2,3)]
  have null: "kmalloc (of_nat n) s = Some (0, s) \<longleftrightarrow> (\<forall>(sz, free) \<in> set bs. free \<longrightarrow> sz < (n + 3) div 4 * 4)"
    if bs: "heap_rep bs s" for bs
  proof (cases "h_alloc (unat (round4 (of_nat n))) HEAP_BASE bs")
    case None
    then show ?thesis using kmalloc_refines [OF bs q(1)] h_alloc_None_iff [of "unat (round4 (of_nat n))" HEAP_BASE bs] q(2) by simp
  next
    case (Some x)
    then obtain a bs' where x: "h_alloc (unat (round4 (of_nat n))) HEAP_BASE bs = Some (a, bs')" by (cases x) auto
    obtain xs sz ys where d: "bs = xs @ (sz, True) # ys" "a = HEAP_BASE + span xs + 12" "unat (round4 (of_nat n)) \<le> sz"
      using h_alloc_Some [OF x] .
    have "a \<le> HEAP_END" using heap_span [OF bs] d(1,2) by simp
    then have "(of_nat a :: u32) \<noteq> 0" using addr_nonzero [of a] d(2) by simp
    then have "kmalloc (of_nat n) s \<noteq> Some (0, s)" using kmalloc_refines [OF bs q(1)] x by auto
    then show ?thesis using d(1,3) q(2) by auto
  qed
  obtain bs where bs: "heap_rep bs s" using assms(1) unfolding heap_live_def by blast
  show ?thesis unfolding no_room_def using null bs by blast
qed

lemma kmalloc_room:
  assumes "has_room k s" and "0 < n" and "n + 20 \<le> k" and "k \<le> 2 ^ 31"
  shows "\<exists>p s'. kmalloc (of_nat n) s = Some (p, s') \<and> p \<noteq> 0 \<and> has_room (k - (n + 15)) s'"
proof -
  have "n \<le> 2 ^ 32 - 4" using assms(3,4) by simp
  note q = of_nat_request [OF assms(2) this]
  let ?r = "(n + 3) div 4 * 4"
  have r: "?r \<le> n + 3" by simp
  obtain bs sz0 where bs: "heap_rep bs s" "(sz0, True) \<in> set bs" "k \<le> sz0" using assms(1) unfolding has_room_def by blast
  obtain a bs' where x: "h_alloc ?r HEAP_BASE bs = Some (a, bs')"
  proof (cases "h_alloc ?r HEAP_BASE bs")
    case None
    then show ?thesis using h_alloc_None_iff [of ?r HEAP_BASE bs] bs(2,3) r assms(3) by fastforce
  next
    case (Some x)
    then show ?thesis using that by (cases x) auto
  qed
  obtain s' where s': "kmalloc (of_nat n) s = Some (of_nat a, s')" "heap_rep bs' s'"
    using kmalloc_refines [OF bs(1) q(1)] x by (auto simp: q(2))
  obtain xs sz ys where d: "bs = xs @ (sz, True) # ys" "a = HEAP_BASE + span xs + 12" "?r \<le> sz"
    "bs' = xs @ (if sz > ?r + 16 then (?r, False) # (sz - ?r - 12, True) # ys else (sz, False) # ys)"
    using h_alloc_Some [OF x] .
  have "a \<le> HEAP_END" using heap_span [OF bs(1)] d(1,2) by simp
  then have "(of_nat a :: u32) \<noteq> 0" using addr_nonzero [of a] d(2) by simp
  moreover have "\<exists>sz1. (sz1, True) \<in> set bs' \<and> k - (n + 15) \<le> sz1"
  proof (cases "(sz0, True) \<in> set xs \<union> set ys")
    case True
    then have "(sz0, True) \<in> set bs'" using d(4) by auto
    then show ?thesis using bs(3) by (intro exI [of _ sz0]) simp
  next
    case False
    then have "sz0 = sz" using bs(2) d(1) by auto
    then have "sz > ?r + 16" using bs(3) assms(3) r by linarith
    then have "(sz - ?r - 12, True) \<in> set bs'" using d(4) by simp
    moreover have "k - (n + 15) \<le> sz - ?r - 12" using bs(3) \<open>sz0 = sz\<close> r by linarith
    ultimately show ?thesis by blast
  qed
  ultimately show ?thesis using s' unfolding has_room_def by blast
qed

text \<open>Headers are not written by stores into blocks in use.\<close>

lemma heap_at_store:
  assumes "heap_at m p bs" and "a \<in> used_bytes p bs"
  shows "heap_at (m(of_nat a := v)) p bs"
  using assms
proof (induction m p bs rule: heap_at.induct)
  case (2 m p sz f bs)
  have le: "p + 12 + sz + span bs = HEAP_END" using heap_at_end [of m "p + 12 + sz" bs] 2(2) by simp
  have a: "p + 12 \<le> a" "a < HEAP_END" using used_bytes_range [of p "(sz, f) # bs"] 2(3) le by auto
  have h: "hdr (m(of_nat a := v)) p sz f n = hdr m p sz f n" for n
  proof (rule hdr_cong)
    fix b assume "p \<le> b" "b < p + 12"
    then have "(of_nat b :: u32) \<noteq> of_nat a" using addr_inj [of b a] a by simp
    then show "(m(of_nat a := v)) (of_nat b) = m (of_nat b)" by simp
  qed
  show ?case
  proof (cases "a \<in> used_bytes (p + 12 + sz) bs")
    case True
    with 2 h show ?thesis by (simp del: fun_upd_apply)
  next
    case False
    then have "a < p + 12 + sz" using 2(3) by (auto split: if_splits)
    have "heap_at (m(of_nat a := v)) (p + 12 + sz) bs"
    proof (rule heap_at_cong)
      show "heap_at m (p + 12 + sz) bs" using 2(2) by simp
      fix b assume "p + 12 + sz \<le> b" "b < HEAP_END"
      then have "(of_nat b :: u32) \<noteq> of_nat a" using addr_inj [of b a] a \<open>a < p + 12 + sz\<close> by simp
      then show "(m(of_nat a := v)) (of_nat b) = m (of_nat b)" by simp
    qed
    with 2(2) h show ?thesis by (simp del: fun_upd_apply)
  qed
qed simp

lemma store_live:
  assumes "heap_live L s" and "L a = Some n" and "i < n"
  shows "heap_live L (s\<lparr>vmem := (vmem s)(of_nat (a + i) := v)\<rparr>)"
proof -
  obtain bs where bs: "heap_rep bs s" "live HEAP_BASE bs = L" using assms(1) unfolding heap_live_def by blast
  have "a + i \<in> used_bytes HEAP_BASE bs" using live_used [of HEAP_BASE bs a n] assms(2,3) bs(2) by auto
  then have "heap_rep bs (s\<lparr>vmem := (vmem s)(of_nat (a + i) := v)\<rparr>)"
    using bs(1) heap_at_store [of "vmem s" HEAP_BASE bs "a + i" v] by (simp add: heap_rep_def)
  then show ?thesis using bs(2) unfolding heap_live_def by blast
qed

lemma store_room:
  assumes "heap_live L s" and "L a = Some n" and "i < n" and "has_room k s"
  shows "has_room k (s\<lparr>vmem := (vmem s)(of_nat (a + i) := v)\<rparr>)"
proof -
  obtain bs where bs: "heap_rep bs s" "live HEAP_BASE bs = L" using assms(1) unfolding heap_live_def by blast
  obtain sz where sz: "(sz, True) \<in> set bs" "k \<le> sz"
    using assms(4) heap_rep_unique [OF bs(1)] unfolding has_room_def by blast
  have "a + i \<in> used_bytes HEAP_BASE bs" using live_used [of HEAP_BASE bs a n] assms(2,3) bs(2) by auto
  then have "heap_rep bs (s\<lparr>vmem := (vmem s)(of_nat (a + i) := v)\<rparr>)"
    using bs(1) heap_at_store [of "vmem s" HEAP_BASE bs "a + i" v] by (simp add: heap_rep_def)
  then show ?thesis using sz unfolding has_room_def by blast
qed

text \<open>The heap with the other fields of the state fixed.\<close>

definition heap_of :: "'a kheap_scheme \<Rightarrow> (nat \<rightharpoonup> nat) \<Rightarrow> 'a kheap_scheme \<Rightarrow> bool" where
  "heap_of s0 L s \<longleftrightarrow> heap_live L s \<and> s\<lparr>vmem := vmem s0\<rparr> = s0"

definition k_alloc :: "nat \<Rightarrow> 'a kheap_scheme \<Rightarrow> (nat \<times> 'a kheap_scheme) option" where
  "k_alloc n s = map_option (\<lambda>(p, s'). (unat p, s')) (kmalloc (of_nat n) s)"

definition k_byte :: "'a kheap_scheme \<Rightarrow> nat \<Rightarrow> u8" where
  "k_byte s a = vmem s (of_nat a)"

definition k_store :: "nat \<Rightarrow> u8 \<Rightarrow> 'a kheap_scheme \<Rightarrow> 'a kheap_scheme" where
  "k_store a v s = s\<lparr>vmem := (vmem s)(of_nat a := v)\<rparr>"

lemma unat_heap: "a \<le> HEAP_END \<Longrightarrow> unat (of_nat a :: u32) = a"
  by (rule unat_addr)

interpretation kheap: byte_heap "heap_of s0" k_alloc "\<lambda>a. kfree (of_nat a)" k_byte k_store "\<lambda>n. 0 < n \<and> n \<le> 2 ^ 32 - 4"
  for s0 :: "'a kheap_scheme"
proof unfold_locales
  fix L and s :: "'a kheap_scheme" and n
  assume h: "heap_of s0 L s"
  then have l: "heap_live L s" and f: "s\<lparr>vmem := vmem s0\<rparr> = s0" by (simp_all add: heap_of_def)
  have fm: "heap_of s0 L' (s\<lparr>vmem := m\<rparr>)" if "heap_live L' (s\<lparr>vmem := m\<rparr>)" for L' m
    using that f by (simp add: heap_of_def)
  {
    fix a m b n assume "L a = Some m" "L b = Some n" "a \<noteq> (b :: nat)"
    then show "a + m \<le> b \<or> b + n \<le> a" by (rule heap_live_disjoint [OF l])
  next
    assume n: "0 < n \<and> n \<le> 2 ^ 32 - (4::nat)"
    have "k_alloc n s = Some (0, s)" if "kmalloc (of_nat n) s = Some (0, s)" using that by (simp add: k_alloc_def)
    moreover have "\<exists>a sz s'. k_alloc n s = Some (a, s') \<and> a \<noteq> 0 \<and> L a = None \<and> n \<le> sz \<and> heap_of s0 (L(a \<mapsto> sz)) s' \<and>
        (\<forall>b k i. L b = Some k \<and> i < k \<longrightarrow> k_byte s' (b + i) = k_byte s (b + i))"
      if k: "kmalloc (of_nat n) s = Some (of_nat a, s\<lparr>vmem := m\<rparr>)" "L a = None" "n \<le> sz" "heap_live (L(a \<mapsto> sz)) (s\<lparr>vmem := m\<rparr>)"
        "\<forall>b k i. L b = Some k \<and> i < k \<longrightarrow> m (of_nat (b + i)) = vmem s (of_nat (b + i))" for a sz m
    proof -
      have "HEAP_BASE < a" "a + sz \<le> HEAP_END" using heap_live_range [OF k(4), of a sz] by simp_all
      then show ?thesis using k fm
        by (intro exI [of _ a] exI [of _ sz] exI [of _ "s\<lparr>vmem := m\<rparr>"]) (simp add: k_alloc_def k_byte_def unat_heap)
    qed
    ultimately show "k_alloc n s = Some (0, s) \<or> (\<exists>a sz s'. k_alloc n s = Some (a, s') \<and> a \<noteq> 0 \<and> L a = None \<and> n \<le> sz \<and>
        heap_of s0 (L(a \<mapsto> sz)) s' \<and> (\<forall>b k i. L b = Some k \<and> i < k \<longrightarrow> k_byte s' (b + i) = k_byte s (b + i)))"
      using kmalloc_live [OF l, of n] n by blast
  next
    fix a n assume "L a = Some n"
    from kfree_live [OF l this] fm show "\<exists>s'. kfree (of_nat a) s = Some s' \<and> heap_of s0 (L(a := None)) s' \<and>
        (\<forall>b k i. b \<noteq> a \<and> L b = Some k \<and> i < k \<longrightarrow> k_byte s' (b + i) = k_byte s (b + i))"
      by (auto simp: k_byte_def)
  next
    fix a n i and v assume a: "L a = Some n" "i < (n::nat)"
    have "k_byte (k_store (a + i) v s) (b + j) = (if b + j = a + i then v else k_byte s (b + j))" if "L b = Some k" "j < k" for b k j
      using addr_inj [of "b + j" "a + i"] heap_live_range [OF l a(1)] heap_live_range [OF l that(1)] a(2) that(2)
      by (auto simp: k_byte_def k_store_def)
    then show "heap_of s0 L (k_store (a + i) v s) \<and> (\<forall>b k j. L b = Some k \<and> j < k \<longrightarrow>
        k_byte (k_store (a + i) v s) (b + j) = (if b + j = a + i then v else k_byte s (b + j)))"
      using fm [OF store_live [OF l a, of v]] by (simp add: k_store_def)
  }
qed

lemma sto_list_room:
  assumes "heap_live L s" and "L a = Some n" and "i + length xs \<le> n" and "has_room k s"
  shows "has_room k (kheap.sto_list (a + i) xs s)"
  using assms
proof (induction xs arbitrary: i s)
  case (Cons x xs)
  have i: "i < n" using Cons.prems(3) by simp
  have "has_room k (k_store (a + i) x s)" "heap_live L (k_store (a + i) x s)"
    using store_room [OF Cons.prems(1,2) i Cons.prems(4)] store_live [OF Cons.prems(1,2) i] by (simp_all add: k_store_def)
  then show ?case using Cons.IH [of "k_store (a + i) x s" "i + 1"] Cons.prems(2,3) by simp
qed simp

text \<open>Copies between disjoint places are stores of the bytes read before.\<close>

fun poke :: "u32 \<Rightarrow> bytes \<Rightarrow> mem \<Rightarrow> mem" where
  "poke p [] m = m"
| "poke p (b # bs) m = poke (p + 1) bs (m(p := b))"

definition k_bytes :: "'a kheap_scheme \<Rightarrow> nat \<Rightarrow> nat \<Rightarrow> bytes" where
  "k_bytes s a n = map (\<lambda>i. k_byte s (a + i)) [0..<n]"

lemma length_k_bytes [simp]: "length (k_bytes s a n) = n"
  by (simp add: k_bytes_def)

lemma nth_k_bytes [simp]: "i < n \<Longrightarrow> k_bytes s a n ! i = k_byte s (a + i)"
  by (simp add: k_bytes_def)

lemma poke_sto_list: "s\<lparr>vmem := poke (of_nat p) xs (vmem s)\<rparr> = kheap.sto_list p xs s"
proof (induction xs arbitrary: p s)
  case (Cons x xs)
  have "(of_nat p + 1 :: u32) = of_nat (p + 1)" by simp
  moreover have "s\<lparr>vmem := y\<rparr> = (k_store p x s)\<lparr>vmem := y\<rparr>" for y by (simp add: k_store_def)
  moreover have "vmem (k_store p x s) = (vmem s)(of_nat p := x)" by (simp add: k_store_def)
  ultimately show ?case using Cons.IH [of "p + 1" "k_store p x s"] by (simp only: poke.simps kheap.sto_list.simps)
qed simp

lemma memcpy_poke:
  assumes "a + n \<le> HEAP_END" and "c + n \<le> HEAP_END" and "a + n \<le> c \<or> c + n \<le> a"
  shows "memcpy (of_nat c) (of_nat a) n m = poke (of_nat c) (map (\<lambda>i. m (of_nat (a + i))) [0..<n]) m"
  using assms
proof (induction n arbitrary: a c m)
  case (Suc n)
  let ?m = "m(of_nat c := m (of_nat a))"
  have e: "(of_nat c + 1 :: u32) = of_nat (c + 1)" "(of_nat a + 1 :: u32) = of_nat (a + 1)" by simp_all
  have "memcpy (of_nat (c + 1)) (of_nat (a + 1)) n ?m = poke (of_nat (c + 1)) (map (\<lambda>i. ?m (of_nat (a + 1 + i))) [0..<n]) ?m"
    using Suc.prems by (intro Suc.IH) auto
  moreover have "map (\<lambda>i. ?m (of_nat (a + 1 + i))) [0..<n] = map (\<lambda>i. m (of_nat (a + Suc i))) [0..<n]"
  proof (rule map_cong [OF refl])
    fix i assume "i \<in> set [0..<n]"
    then have "(of_nat (a + 1 + i) :: u32) \<noteq> of_nat c" using addr_inj [of "a + 1 + i" c] Suc.prems by auto
    then show "?m (of_nat (a + 1 + i)) = m (of_nat (a + Suc i))" by (simp add: add.assoc)
  qed
  moreover have "[0..<Suc n] = 0 # map Suc [0..<n]" by (simp add: map_Suc_upt upt_conv_Cons)
  ultimately show ?case by (simp only: memcpy.simps e list.map map_map comp_def poke.simps add_0_right)
qed simp

end
