(* ===== verification/Hexa_Fs.thy ===== *)
theory Hexa_Fs
  imports Hexa_Net Hexa_Abstraction Hexa_Live
begin

text \<open>
  The form store above the block and object layers (\<^verbatim>\<open>hexafs.c\<close>): transactions, mounting, saving and
  loading the form table, the rule table of the privilege command, the user table on disk, and
  capabilities.  Form contents are pointers into the kernel heap, as in the code.  Operations that use
  the heap or walk block chains return an option, \<open>None\<close> meaning that a walk does not return.
\<close>

section \<open>State\<close>

abbreviation MAX_FORMS :: nat where "MAX_FORMS \<equiv> 64"
abbreviation PIMP_RULE_MAX :: nat where "PIMP_RULE_MAX \<equiv> 32"
abbreviation CAP_GRANT_MAX :: nat where "CAP_GRANT_MAX \<equiv> 32"

record form =
  fm_name :: bytes
  fm_content :: u32
  fm_size :: int
  fm_cap :: int
  fm_owner :: int
  fm_mode :: u16

record pimp_rule =
  pr_user :: bytes
  pr_allowed_caps :: u32
  pr_no_pass :: u32
  pr_session_only :: u32

record kfs = knet +
  form_table :: "form list"
  form_count :: nat
  tx_gen :: int
  root_abs_block :: u32
  cap_grant_storage :: "u32 list"
  cap_grant_count :: nat
  pimp_rules :: "pimp_rule list"
  pimp_count :: nat
  pid_snap :: u32

definition upd_form :: "nat \<Rightarrow> (form \<Rightarrow> form) \<Rightarrow> 'a kfs_scheme \<Rightarrow> 'a kfs_scheme" where
  "upd_form i f s = s\<lparr>form_table := (form_table s)[i := f (form_table s ! i)]\<rparr>"

text \<open>Bytes in memory.\<close>

definition peek :: "mem \<Rightarrow> u32 \<Rightarrow> nat \<Rightarrow> bytes" where
  "peek m p n = map (\<lambda>i. m (p + of_nat i)) [0..<n]"

section \<open>Transactions\<close>

definition hexafs_tx_begin :: "'a kfs_scheme \<Rightarrow> bool \<times> 'a kfs_scheme" where
  "hexafs_tx_begin s =
     (if tx_active (hexafs_current_tx s) then (False, s)
      else (True, s\<lparr>tx_gen := tx_gen s + 1,
             hexafs_current_tx := bss_tx\<lparr>tx_active := True, tx_tid := tx_gen s + 1,
               tx_parent_snap_block := sb_root_snap_block (sb_cache s), tx_dirty := False\<rparr>\<rparr>))"

definition tx_close :: "'a kdisk_scheme \<Rightarrow> 'a kdisk_scheme" where
  "tx_close s = s\<lparr>hexafs_current_tx := (hexafs_current_tx s)\<lparr>tx_active := False\<rparr>\<rparr>"

definition hexafs_tx_commit :: "'a kfs_scheme \<Rightarrow> bool \<times> 'a kfs_scheme" where
  "hexafs_tx_commit s =
     (if \<not> tx_active (hexafs_current_tx s) then (False, s)
      else if \<not> tx_dirty (hexafs_current_tx s) then (True, tx_close s)
      else case hexafs_save_bitmap s of
        (False, s1) \<Rightarrow> (False, log_write LOG_LEVEL_WARN (cs ''HEXAFS: bitmap save failed on commit'') s1)
      | (True, s1) \<Rightarrow>
          (case hexafs_write_superblock s1 of
             (False, s2) \<Rightarrow> (False, log_write LOG_LEVEL_WARN (cs ''HEXAFS: superblock write failed on commit'') s2)
           | (True, s2) \<Rightarrow> (True, log_write LOG_LEVEL_INFO (cs ''HEXAFS: transaction committed'') (tx_close s2))))"

definition hexafs_tx_abort :: "'a kfs_scheme \<Rightarrow> bool \<times> 'a kfs_scheme" where
  "hexafs_tx_abort s =
     (if \<not> tx_active (hexafs_current_tx s) then (False, s)
      else (True, log_write LOG_LEVEL_INFO (cs ''HEXAFS: transaction aborted'') (tx_close s)))"

text \<open>The sequence that ends every update: new root, snapshot, commit.\<close>

definition tx_set_root :: "u32 \<Rightarrow> 'a kdisk_scheme \<Rightarrow> 'a kdisk_scheme" where
  "tx_set_root root s =
     s\<lparr>hexafs_current_tx := (hexafs_current_tx s)\<lparr>tx_new_root_block := root, tx_dirty := True\<rparr>\<rparr>"

definition snap_and_commit :: "u32 \<Rightarrow> bytes \<Rightarrow> 'a kfs_scheme \<Rightarrow> 'a kfs_scheme" where
  "snap_and_commit root name s =
     snd (hexafs_tx_commit (snd (hexafs_snap_create name (tx_set_root root s))))"

section \<open>Mounting\<close>

definition hexafs_mount :: "'a kfs_scheme \<Rightarrow> bool \<times> 'a kfs_scheme" where
  "hexafs_mount s =
     (case hexafs_mount_disk s of
        (True, s1) \<Rightarrow> (True, print_string (cs ''[HEXAFS] Mounted existing form store.'' @ [10]) s1)
      | (False, s1) \<Rightarrow>
          (case hexafs_format (print_string (cs ''[HEXAFS] No form store found, formatting...'' @ [10]) s1) of
             (False, s2) \<Rightarrow> (False, print_string (cs ''[HEXAFS] Format failed!'' @ [10]) s2)
           | (True, s2) \<Rightarrow>
               (case hexafs_abstraction_create s2 of (root_abs, s3) \<Rightarrow>
                  if root_abs = 0
                  then (False, print_string (cs ''[HEXAFS] Root abstraction create failed!'' @ [10]) s3)
                  else (True, print_string (cs ''[HEXAFS] Fresh form store created.'' @ [10])
                         (snap_and_commit root_abs (cs ''boot_ok'') (snd (hexafs_tx_begin s3)))))))"

definition hexafs_format_fs :: "'a kfs_scheme \<Rightarrow> bool \<times> 'a kfs_scheme" where
  "hexafs_format_fs s = hexafs_format s"

section \<open>Saving the form table\<close>

text \<open>The bytes behind a null pointer are not copied: the buffer then holds what the heap held.\<close>

definition form_from_fentry :: "form \<Rightarrow> 'a kfs_scheme \<Rightarrow> (u32 \<times> 'a kfs_scheme) option" where
  "form_from_fentry f s =
     (case hexafs_object_alloc HEXAFS_FORM s of (form_block, s1) \<Rightarrow>
        if form_block = 0 then Some (0, s1)
        else
          let total_len = min (10 + fm_size f) 2048
          in do {
            (buf, s2) \<leftarrow> kmalloc (of_int total_len) s1;
            if buf = 0 then Some (0, hexafs_free_block form_block s2)
            else
              let m = poke (buf + 6) (le32 0) (poke (buf + 4) (le16 (fm_mode f)) (poke buf (le32 (of_int (fm_owner f))) (vmem s2)));
                  copy = min (fm_size f) (total_len - 10);
                  m = (if copy > 0 \<and> fm_content f \<noteq> 0 then memcpy (buf + 10) (fm_content f) (nat copy) m else m);
                  total_size = of_int (10 + copy) :: u32
              in case hexafs_object_write_data form_block (peek m buf (unat total_size)) (s2\<lparr>vmem := m\<rparr>) of (ok, s3) \<Rightarrow>
                 do {
                   s4 \<leftarrow> kfree buf s3;
                   if \<not> ok then Some (0, hexafs_free_block form_block s4) else Some (form_block, s4)
                 }
          })"

fun save_forms :: "form list \<Rightarrow> u32 \<Rightarrow> 'a kfs_scheme \<Rightarrow> 'a kfs_scheme option" where
  "save_forms [] new_abs s = Some s"
| "save_forms (f # fs) new_abs s =
     do {
       (fb, s1) \<leftarrow> form_from_fentry f s;
       if fb \<noteq> 0
       then do {
         (ok, s2) \<leftarrow> hexafs_abstraction_add_entry new_abs (fm_name f) fb HEXAFS_FORM s1;
         save_forms fs new_abs s2
       }
       else save_forms fs new_abs s1
     }"

definition hexafs_save_all :: "'a kfs_scheme \<Rightarrow> 'a kfs_scheme option" where
  "hexafs_save_all s =
     (if \<not> hexafs_mounted s then Some s
      else case hexafs_abstraction_create (snd (hexafs_tx_begin s)) of (new_abs, s1) \<Rightarrow>
        if new_abs = 0 then Some (snd (hexafs_tx_abort s1))
        else do {
          s2 \<leftarrow> save_forms (take (form_count s1) (form_table s1)) new_abs s1;
          Some (snap_and_commit new_abs (cs ''live'') s2)
        })"

section \<open>Loading the form table\<close>

text \<open>Entry \<open>k\<close> of the form table, when no memory is left for its contents.\<close>

definition load_empty :: "nat \<Rightarrow> 'a kfs_scheme \<Rightarrow> 'a kfs_scheme option" where
  "load_empty k s =
     do {
       (c, s1) \<leftarrow> kmalloc 1 s;
       if c = 0 then Some (upd_form k (\<lambda>f. f\<lparr>fm_content := 0\<rparr>) s1)
       else Some (upd_form k (\<lambda>f. f\<lparr>fm_content := c, fm_size := 0, fm_cap := 1\<rparr>) (s1\<lparr>vmem := (vmem s1)(c := 0)\<rparr>))
     }"

text \<open>A form object whose data have been read to the buffer.\<close>

definition load_content :: "nat \<Rightarrow> u32 \<Rightarrow> u32 \<Rightarrow> 'a kfs_scheme \<Rightarrow> 'a kfs_scheme option" where
  "load_content k buf data_size s =
     (let owner = (if data_size \<ge> 4 then to_int (rd32 (vmem s) buf) else 0);
          off = (if data_size \<ge> 4 then 4 else 0);
          has_mode = data_size \<ge> off + 2;
          mode = (if has_mode then de16 (peek (vmem s) (buf + off) 2) else 0x1A4);
          off = (if has_mode then off + 2 else off);
          off = (if data_size \<ge> off + 4 then off + 4 else off);
          n = max 0 (to_int (data_size - off))
      in do {
        (c, s1) \<leftarrow> kmalloc (of_int (n + 1)) s;
        s2 \<leftarrow> (if c \<noteq> 0
               then let m = (if n > 0 then memcpy c (buf + off) (nat n) (vmem s1) else vmem s1)
                    in Some (upd_form k (\<lambda>f. f\<lparr>fm_content := c, fm_size := n, fm_cap := n + 1\<rparr>)
                              (s1\<lparr>vmem := m(c + of_int n := 0)\<rparr>))
               else load_empty k s1);
        Some (upd_form k (\<lambda>f. f\<lparr>fm_owner := (if 0 \<le> owner \<and> owner < 12 then owner else 0), fm_mode := mode\<rparr>) s2)
      })"

definition load_entry :: "bytes \<Rightarrow> u32 \<Rightarrow> 'a kfs_scheme \<Rightarrow> 'a kfs_scheme option" where
  "load_entry name object_block s =
     (let k = form_count s;
          s0 = upd_form k (\<lambda>f. f\<lparr>fm_name := put_bytes 0 (name_bytes 32 name) (fm_name f)\<rparr>) s
      in do {
        (buf, s1) \<leftarrow> kmalloc 2048 s0;
        if buf = 0
        then Some ((upd_form k (\<lambda>f. f\<lparr>fm_content := 0, fm_size := 0\<rparr>) s1)\<lparr>form_count := k + 1\<rparr>)
        else do {
          s3 \<leftarrow> (case hexafs_object_read_data object_block s1 of
                   (Some (data, data_size, rtype), s2) \<Rightarrow>
                     let s2 = s2\<lparr>vmem := poke buf data (vmem s2)\<rparr>
                     in if rtype = HEXAFS_FORM then load_content k buf data_size s2
                        else do {
                          s3 \<leftarrow> load_empty k s2;
                          Some (upd_form k (\<lambda>f. f\<lparr>fm_owner := 0, fm_mode := 0x1A4\<rparr>) s3)
                        }
                 | (None, s2) \<Rightarrow>
                     do {
                       s3 \<leftarrow> load_empty k s2;
                       Some (upd_form k (\<lambda>f. f\<lparr>fm_owner := 0, fm_mode := 0x1A4\<rparr>) s3)
                     });
          s4 \<leftarrow> kfree buf s3;
          Some (s4\<lparr>form_count := k + 1\<rparr>)
        }
      })"

fun load_entries :: "(bytes \<times> u32) list \<Rightarrow> 'a kfs_scheme \<Rightarrow> 'a kfs_scheme option" where
  "load_entries [] s = Some s"
| "load_entries ((name, ob) # es) s =
     (if form_count s < MAX_FORMS then do { s1 \<leftarrow> load_entry name ob s; load_entries es s1 } else Some s)"

definition hexafs_load_all :: "'a kfs_scheme \<Rightarrow> 'a kfs_scheme option" where
  "hexafs_load_all s =
     (let root = sb_root_snap_block (sb_cache s); s = s\<lparr>root_abs_block := root\<rparr>
      in if root = 0 then Some s
         else case hexafs_block_read root s of
           (None, s1) \<Rightarrow> Some s1
         | (Some sn, s1) \<Rightarrow>
             if snap_magic sn \<noteq> HEXAFS_SNAP_MAGIC then Some s1
             else let s1 = s1\<lparr>root_abs_block := snap_root sn\<rparr>
                  in if snap_root sn = 0 then Some s1
                     else case hexafs_block_read (snap_root sn) s1 of
                       (None, s2) \<Rightarrow> Some s2
                     | (Some b, s2) \<Rightarrow>
                         if abs_magic b \<noteq> HEXAFS_ABSTRACT_MAGIC then Some s2
                         else load_entries (map (\<lambda>i. (entry_name i b, entry_object i b)) [0..<nat (to_int (abs_count b))])
                                (s2\<lparr>form_count := 0\<rparr>))"

section \<open>The directory of the current snapshot\<close>

text \<open>
  The prologue shared by the operations on system files: the directory block of the current snapshot,
  or nothing if there is none.
\<close>

definition current_root :: "'a kdisk_scheme \<Rightarrow> u32 option \<times> 'a kdisk_scheme" where
  "current_root s =
     (let root = sb_root_snap_block (sb_cache s)
      in if root = 0 then (None, s)
         else case hexafs_block_read root s of
           (None, s1) \<Rightarrow> (None, s1)
         | (Some sn, s1) \<Rightarrow>
             if snap_magic sn \<noteq> HEXAFS_SNAP_MAGIC \<or> snap_root sn = 0 then (None, s1) else (Some (snap_root sn), s1))"

text \<open>Replacing the data of a system file, which is created on first use.\<close>

definition save_system_file :: "bytes \<Rightarrow> bytes \<Rightarrow> bytes \<Rightarrow> 'a kfs_scheme \<Rightarrow> (bool \<times> 'a kfs_scheme) option" where
  "save_system_file file snap data s =
     (if \<not> hexafs_mounted s then Some (False, s)
      else case current_root (snd (hexafs_tx_begin s)) of
        (None, s1) \<Rightarrow> Some (False, snd (hexafs_tx_abort s1))
      | (Some abs_block, s1) \<Rightarrow>
          do {
            (r, s2) \<leftarrow> hexafs_abstraction_find abs_block file s1;
            let found = (case r of Some (b, _) \<Rightarrow> b | None \<Rightarrow> 0);
            (blk, s3) \<leftarrow>
              (if found \<noteq> 0 then Some (found, s2)
               else case hexafs_object_alloc HEXAFS_CONFIG s2 of (b, s3) \<Rightarrow>
                 if b = 0 then Some (0, s3)
                 else do {
                   (ok, s4) \<leftarrow> hexafs_abstraction_add_entry abs_block file b HEXAFS_CONFIG s3;
                   Some (b, s4)
                 });
            if blk = 0 then Some (False, snd (hexafs_tx_abort s3))
            else case hexafs_object_write_data blk data s3 of
              (False, s4) \<Rightarrow> Some (False, snd (hexafs_tx_abort s4))
            | (True, s4) \<Rightarrow> Some (True, snap_and_commit abs_block snap s4)
          })"

definition load_system_file :: "bytes \<Rightarrow> 'a kfs_scheme \<Rightarrow> ((bytes \<times> u32) option \<times> 'a kfs_scheme) option" where
  "load_system_file file s =
     (case current_root s of
        (None, s1) \<Rightarrow> Some (None, s1)
      | (Some abs_block, s1) \<Rightarrow>
          do {
            (r, s2) \<leftarrow> hexafs_abstraction_find abs_block file s1;
            let found = (case r of Some (b, _) \<Rightarrow> b | None \<Rightarrow> 0);
            if found = 0 then Some (None, s2)
            else Some (case hexafs_object_read_data found s2 of
                         (None, s3) \<Rightarrow> (None, s3)
                       | (Some (data, size', _), s3) \<Rightarrow> (Some (data, size'), s3))
          })"

definition hexafs_users_save :: "bytes \<Rightarrow> 'a kfs_scheme \<Rightarrow> (bool \<times> 'a kfs_scheme) option" where
  "hexafs_users_save data s = save_system_file (cs ''.users'') (cs ''users_update'') data s"

text \<open>The result on success: the bytes stored in the buffer and \<^verbatim>\<open>*size\<close>.\<close>

definition hexafs_users_load :: "'a kfs_scheme \<Rightarrow> ((bytes \<times> u32) option \<times> 'a kfs_scheme) option" where
  "hexafs_users_load s = load_system_file (cs ''.users'') s"

section \<open>Rules of the privilege command\<close>

text \<open>The rule table as the bytes of its array; a rule has 44 bytes.\<close>

definition rule_bytes :: "pimp_rule \<Rightarrow> bytes" where
  "rule_bytes r = pr_user r @ le32 (pr_allowed_caps r) @ le32 (pr_no_pass r) @ le32 (pr_session_only r)"

definition rule_of_bytes :: "bytes \<Rightarrow> pimp_rule" where
  "rule_of_bytes b = \<lparr>pr_user = get_bytes 0 32 b, pr_allowed_caps = get32 32 b, pr_no_pass = get32 36 b, pr_session_only = get32 40 b\<rparr>"

definition rules_of_bytes :: "bytes \<Rightarrow> pimp_rule list" where
  "rules_of_bytes b = map (\<lambda>i. rule_of_bytes (get_bytes (44 * i) 44 b)) [0..<PIMP_RULE_MAX]"

definition zero_rule :: pimp_rule where
  "zero_rule = \<lparr>pr_user = zeros 32, pr_allowed_caps = 0, pr_no_pass = 0, pr_session_only = 0\<rparr>"

text \<open>The data read are copied over the array from its start.\<close>

definition pimp_load_rules :: "'a kfs_scheme \<Rightarrow> (bool \<times> 'a kfs_scheme) option" where
  "pimp_load_rules s =
     do {
       (r, s1) \<leftarrow> load_system_file (cs ''.pimp'') (s\<lparr>pimp_count := 0, pimp_rules := replicate PIMP_RULE_MAX zero_rule\<rparr>);
       Some (case r of
           None \<Rightarrow> (False, s1)
         | Some (data, dsize) \<Rightarrow>
             (True, s1\<lparr>pimp_rules := rules_of_bytes (put_bytes 0 data (concat (map rule_bytes (pimp_rules s1)))),
                       pimp_count := min PIMP_RULE_MAX (unat dsize div 44)\<rparr>))
     }"

definition pimp_save_rules :: "'a kfs_scheme \<Rightarrow> (bool \<times> 'a kfs_scheme) option" where
  "pimp_save_rules s =
     save_system_file (cs ''.pimp'') (cs ''pimp_update'') (concat (map rule_bytes (take (pimp_count s) (pimp_rules s)))) s"

definition rule_allows :: "u32 \<Rightarrow> pimp_rule \<Rightarrow> bool" where
  "rule_allows cap_type r \<longleftrightarrow> pr_allowed_caps r = 0xFFFFFFFF \<or> pr_allowed_caps r AND cap_type \<noteq> 0"

definition pimp_check :: "bytes \<Rightarrow> u32 \<Rightarrow> 'a kfs_scheme \<Rightarrow> bool" where
  "pimp_check username cap_type s \<longleftrightarrow>
     find (\<lambda>i. strcmp (pr_user (pimp_rules s ! i)) username = 0 \<and> rule_allows cap_type (pimp_rules s ! i)) [0..<pimp_count s] \<noteq> None"

definition find_rule :: "bytes \<Rightarrow> 'a kfs_scheme \<Rightarrow> nat option" where
  "find_rule username s = find (\<lambda>i. strcmp (pr_user (pimp_rules s ! i)) username = 0) [0..<pimp_count s]"

definition pimp_rule_add :: "bytes \<Rightarrow> u32 \<Rightarrow> u32 \<Rightarrow> u32 \<Rightarrow> 'a kfs_scheme \<Rightarrow> bool \<times> 'a kfs_scheme" where
  "pimp_rule_add username caps no_pass session_only s =
     (if pimp_count s \<ge> PIMP_RULE_MAX then (False, s)
      else case find_rule username s of
        Some i \<Rightarrow> (True, s\<lparr>pimp_rules := (pimp_rules s)[i := (pimp_rules s ! i)\<lparr>pr_allowed_caps := caps,
                             pr_no_pass := no_pass, pr_session_only := session_only\<rparr>]\<rparr>)
      | None \<Rightarrow> let k = pimp_count s
                in (True, s\<lparr>pimp_rules := (pimp_rules s)[k := \<lparr>pr_user = strcpy (pr_user (pimp_rules s ! k)) username,
                               pr_allowed_caps = caps, pr_no_pass = no_pass, pr_session_only = session_only\<rparr>],
                            pimp_count := k + 1\<rparr>))"

definition pimp_rule_remove :: "bytes \<Rightarrow> 'a kfs_scheme \<Rightarrow> bool \<times> 'a kfs_scheme" where
  "pimp_rule_remove username s =
     (case find_rule username s of
        None \<Rightarrow> (False, s)
      | Some i \<Rightarrow> (True, s\<lparr>pimp_rules := fold (\<lambda>j rs. rs[j := rs ! (j + 1)]) [i..<pimp_count s - 1] (pimp_rules s),
                         pimp_count := pimp_count s - 1\<rparr>))"

definition rule_line :: "pimp_rule \<Rightarrow> piece list" where
  "rule_line r =
     [Txt (pr_user r), Chr 58, Chr 32, Txt (itoa (pr_allowed_caps r) 16)] @
     (if pr_no_pass r \<noteq> 0 then [Txt (cs '' nopass'')] else []) @
     (if pr_session_only r \<noteq> 0 then [Txt (cs '' session'')] else []) @ [Chr 10]"

definition pimp_rule_list :: "nat \<Rightarrow> 'a kfs_scheme \<Rightarrow> bytes" where
  "pimp_rule_list out_len s =
     render out_len (Txt (cs ''Pimp rules (diese config):'' @ [10]) #
       concat (map (\<lambda>i. rule_line (pimp_rules s ! i)) [0..<pimp_count s])) []"

section \<open>Capabilities\<close>

definition hexafs_snap_for_pid :: "u32 \<Rightarrow> 'a kdisk_scheme \<Rightarrow> u32" where
  "hexafs_snap_for_pid pid s = sb_root_snap_block (sb_cache s)"

definition hexafs_set_pid_snap :: "u32 \<Rightarrow> u32 \<Rightarrow> 'a kfs_scheme \<Rightarrow> 'a kfs_scheme" where
  "hexafs_set_pid_snap pid snap_block s = s\<lparr>pid_snap := snap_block\<rparr>"

text \<open>
  The structure \<^verbatim>\<open>cap_grant_t\<close>: capability type, the two snapshots, expiry, delegation flag and hash,
  24 bytes.
\<close>

definition grant_type :: "bytes \<Rightarrow> u32" where "grant_type g = get32 0 g"
definition grant_expires :: "bytes \<Rightarrow> u32" where "grant_expires g = get32 12 g"
definition grant_delegatable :: "bytes \<Rightarrow> u32" where "grant_delegatable g = get32 16 g"

definition new_grant :: "u32 \<Rightarrow> u32 \<Rightarrow> u32 \<Rightarrow> u32 \<Rightarrow> bool \<Rightarrow> bytes" where
  "new_grant cap_type grantee grantor expires_tick delegatable =
     (let g = put32 16 (if delegatable then 1 else 0) (put32 12 expires_tick
                (put32 8 grantor (put32 4 grantee (put32 0 cap_type (zeros 24)))))
      in put32 20 (hexafs_content_hash g) g)"

definition hexafs_cap_grant :: "u32 \<Rightarrow> u32 \<Rightarrow> u32 \<Rightarrow> bool \<Rightarrow> 'a kfs_scheme \<Rightarrow> int \<times> 'a kfs_scheme" where
  "hexafs_cap_grant grantee_pid cap_type expires_tick delegatable s =
     (if cap_grant_count s \<ge> CAP_GRANT_MAX then (-1, s)
      else if \<not> tx_active (hexafs_current_tx s) then (-1, s)
      else case hexafs_object_alloc HEXAFS_CAPABILITY s of (grant_block, s1) \<Rightarrow>
        if grant_block = 0 then (-1, s1)
        else
          let g = new_grant cap_type (hexafs_snap_for_pid grantee_pid s1) (sb_root_snap_block (sb_cache s1)) expires_tick delegatable
          in case hexafs_object_write_data grant_block g s1 of
               (False, s2) \<Rightarrow> (-1, hexafs_free_block grant_block s2)
             | (True, s2) \<Rightarrow>
                 (to_int grant_block, s2\<lparr>cap_grant_storage := (cap_grant_storage s2)[cap_grant_count s2 := grant_block],
                                        cap_grant_count := cap_grant_count s2 + 1\<rparr>))"

text \<open>One stored grant: whether it allows \<open>cap_type\<close> to the process, and the state after reading it.\<close>

definition grant_allows :: "u32 \<Rightarrow> u32 \<Rightarrow> u32 \<Rightarrow> 'a kfs_scheme \<Rightarrow> bool \<times> 'a kfs_scheme" where
  "grant_allows pid cap_type block s =
     (if block = 0 then (False, s)
      else case hexafs_block_read block s of
        (None, s1) \<Rightarrow> (False, s1)
      | (Some ob, s1) \<Rightarrow>
          if \<not> obj_magic_ok ob \<or> obj_type ob \<noteq> HEXAFS_CAPABILITY then (False, s1)
          else case hexafs_object_read_data block s1 of
            (None, s2) \<Rightarrow> (False, s2)
          | (Some (data, dsz, _), s2) \<Rightarrow>
              if dsz < 24 then (False, s2)
              else if grant_type data = cap_type \<or> cap_type = 0
              then (hexafs_snap_for_pid pid s2 = 0 \<or> grant_expires data = 0 \<or> system_ticks s2 < grant_expires data, s2)
              else (False, s2))"

fun cap_check_loop :: "u32 \<Rightarrow> u32 \<Rightarrow> u32 list \<Rightarrow> 'a kfs_scheme \<Rightarrow> bool \<times> 'a kfs_scheme" where
  "cap_check_loop pid cap_type [] s = (False, s)"
| "cap_check_loop pid cap_type (b # bs) s =
     (case grant_allows pid cap_type b s of
        (True, s1) \<Rightarrow> (True, s1)
      | (False, s1) \<Rightarrow> cap_check_loop pid cap_type bs s1)"

definition hexafs_cap_check :: "u32 \<Rightarrow> u32 \<Rightarrow> 'a kfs_scheme \<Rightarrow> bool \<times> 'a kfs_scheme" where
  "hexafs_cap_check pid cap_type s =
     (if pid = 0 then (True, s) else cap_check_loop pid cap_type (take (cap_grant_count s) (cap_grant_storage s)) s)"

definition hexafs_cap_revoke :: "u32 \<Rightarrow> 'a kfs_scheme \<Rightarrow> int \<times> 'a kfs_scheme" where
  "hexafs_cap_revoke grant_hash s = (-1, s)"

definition cap_line :: "bytes \<Rightarrow> piece list" where
  "cap_line g = [Chr 32, Chr 48, Chr 120, Txt (itoa (grant_type g) 16),
     Txt (if grant_delegatable g \<noteq> 0 then cs '' (delegatable)'' else []), Chr 10]"

fun cap_lines :: "u32 list \<Rightarrow> 'a kfs_scheme \<Rightarrow> piece list \<times> 'a kfs_scheme" where
  "cap_lines [] s = ([], s)"
| "cap_lines (b # bs) s =
     (if b = 0 then cap_lines bs s
      else case hexafs_object_read_data b s of
        (None, s1) \<Rightarrow> cap_lines bs s1
      | (Some (data, dsz, _), s1) \<Rightarrow>
          if dsz < 24 then cap_lines bs s1
          else (case cap_lines bs s1 of (ps, s2) \<Rightarrow> (cap_line data @ ps, s2)))"

definition hexafs_cap_list_pid :: "u32 \<Rightarrow> nat \<Rightarrow> 'a kfs_scheme \<Rightarrow> bytes \<times> 'a kfs_scheme" where
  "hexafs_cap_list_pid pid out_len s =
     (case cap_lines (take (cap_grant_count s) (cap_grant_storage s)) s of (ps, s1) \<Rightarrow>
        (render out_len ([Txt (cs ''Caps for PID ''), Txt (itoa pid 10), Chr 58, Chr 10] @ ps) [], s1))"

definition bss_form :: form where
  "bss_form = \<lparr>fm_name = zeros 32, fm_content = 0, fm_size = 0, fm_cap = 0, fm_owner = 0, fm_mode = 0\<rparr>"

definition bss_kfs :: kfs where
  "bss_kfs = knet.extend bss_knet \<lparr>form_table = replicate MAX_FORMS bss_form, form_count = 0, tx_gen = 0, root_abs_block = 0,
     cap_grant_storage = replicate CAP_GRANT_MAX 0, cap_grant_count = 0, pimp_rules = replicate PIMP_RULE_MAX zero_rule,
     pimp_count = 0, pid_snap = 0\<rparr>"

lemma log_write_kfs [simp]:
  "form_table (log_write l m s) = form_table s" "form_count (log_write l m s) = form_count s"
  "tx_gen (log_write l m s) = tx_gen s" "root_abs_block (log_write l m s) = root_abs_block s"
  "cap_grant_storage (log_write l m s) = cap_grant_storage s" "cap_grant_count (log_write l m s) = cap_grant_count s"
  "pimp_rules (log_write l m s) = pimp_rules s" "pimp_count (log_write l m s) = pimp_count s" "pid_snap (log_write l m s) = pid_snap s"
  by (subst log_write_frame, simp)+

section \<open>The rule table is a map\<close>

text \<open>Shifting array elements down over a removed one.\<close>

lemma shift_down:
  assumes "n \<le> length xs"
  shows "length (fold (\<lambda>j rs. rs[j := rs ! (j + 1)]) [i..<n - 1] xs) = length xs \<and>
    (\<forall>j < length xs. fold (\<lambda>j rs. rs[j := rs ! (j + 1)]) [i..<n - 1] xs ! j = (if i \<le> j \<and> j < n - 1 then xs ! (j + 1) else xs ! j))"
  using assms
proof (induction n)
  case (Suc n)
  show ?case
  proof (cases "i < n")
    case True
    then obtain m where m: "n = Suc m" "i \<le> m" by (cases n) auto
    with Suc show ?thesis by (auto simp: nth_list_update)
  next
    case False
    then show ?thesis by auto
  qed
qed simp

lemma shift_down_take:
  assumes "i < n" and "n \<le> length xs"
  shows "take (n - 1) (fold (\<lambda>j rs. rs[j := rs ! (j + 1)]) [i..<n - 1] xs) = take i xs @ drop (i + 1) (take n xs)"
proof (rule nth_equalityI)
  show "length (take (n - 1) (fold (\<lambda>j rs. rs[j := rs ! (j + 1)]) [i..<n - 1] xs)) = length (take i xs @ drop (i + 1) (take n xs))"
    using shift_down [OF assms(2), of i] assms by simp
  fix j assume "j < length (take (n - 1) (fold (\<lambda>j rs. rs[j := rs ! (j + 1)]) [i..<n - 1] xs))"
  then have "j < n - 1" by simp
  then show "take (n - 1) (fold (\<lambda>j rs. rs[j := rs ! (j + 1)]) [i..<n - 1] xs) ! j = (take i xs @ drop (i + 1) (take n xs)) ! j"
    using shift_down [OF assms(2), of i] assms by (auto simp: nth_append)
qed

definition active_rules :: "'a kfs_scheme \<Rightarrow> pimp_rule list" where
  "active_rules s = take (pimp_count s) (pimp_rules s)"

definition rule_key :: "pimp_rule \<Rightarrow> bytes" where
  "rule_key r = c_str (pr_user r)"

definition rule_map :: "'a kfs_scheme \<Rightarrow> bytes \<rightharpoonup> u32" where
  "rule_map s = map_of (map (\<lambda>r. (rule_key r, pr_allowed_caps r)) (active_rules s))"

definition rules_inv :: "'a kfs_scheme \<Rightarrow> bool" where
  "rules_inv s \<longleftrightarrow> length (pimp_rules s) = PIMP_RULE_MAX \<and> pimp_count s \<le> PIMP_RULE_MAX \<and>
     (\<forall>r \<in> set (pimp_rules s). length (pr_user r) = 32) \<and> distinct (map rule_key (active_rules s))"

lemma find_rule_cases:
  assumes "rules_inv s"
  obtains (none) "find_rule u s = None" and "c_str u \<notin> rule_key ` set (active_rules s)"
  | (some) i where "find_rule u s = Some i" and "i < pimp_count s" and "rule_key (active_rules s ! i) = c_str u"
proof (cases "find_rule u s")
  case None
  then have "\<forall>i < pimp_count s. c_str u \<noteq> rule_key (pimp_rules s ! i)"
    by (auto simp: find_rule_def find_None_iff strcmp_zero_iff rule_key_def)
  then have "c_str u \<notin> rule_key ` set (active_rules s)"
    by (fastforce simp: active_rules_def in_set_conv_nth)
  then show thesis using none None by blast
next
  case (Some i)
  then have "i < pimp_count s" "strcmp (pr_user (pimp_rules s ! i)) u = 0"
    unfolding find_rule_def using find_upt_Some [of _ "pimp_count s" i] by auto
  with Some some [of i] show thesis by (simp add: active_rules_def rule_key_def strcmp_zero_iff)
qed

lemma pimp_check_map:
  assumes "rules_inv s"
  shows "pimp_check v cap s \<longleftrightarrow> (case rule_map s (c_str v) of None \<Rightarrow> False | Some c \<Rightarrow> c = 0xFFFFFFFF \<or> c AND cap \<noteq> 0)"
proof -
  let ?rs = "active_rules s"
  have "pimp_check v cap s \<longleftrightarrow> (\<exists>i < pimp_count s. rule_key (?rs ! i) = c_str v \<and> rule_allows cap (?rs ! i))"
    by (auto simp: pimp_check_def find_None_iff strcmp_zero_iff rule_key_def active_rules_def)
  also have "\<dots> \<longleftrightarrow> (\<exists>r \<in> set ?rs. rule_key r = c_str v \<and> rule_allows cap r)"
    using assms by (auto simp: in_set_conv_nth rules_inv_def active_rules_def Bex_def)
  finally have e: "pimp_check v cap s \<longleftrightarrow> (\<exists>r \<in> set ?rs. rule_key r = c_str v \<and> rule_allows cap r)" .
  have d: "distinct (map rule_key ?rs)" using assms by (simp add: rules_inv_def)
  show ?thesis
  proof (cases "rule_map s (c_str v)")
    case None
    then have "c_str v \<notin> rule_key ` set ?rs" by (simp add: rule_map_def map_of_eq_None_iff image_image)
    then have "\<forall>r \<in> set ?rs. rule_key r \<noteq> c_str v" by (metis imageI)
    with None e show ?thesis by simp
  next
    case (Some c)
    then obtain r where r: "r \<in> set ?rs" "rule_key r = c_str v" "pr_allowed_caps r = c"
      unfolding rule_map_def by (auto dest!: map_of_SomeD)
    then have "\<forall>r' \<in> set ?rs. rule_key r' = c_str v \<longrightarrow> r' = r" using d by (auto simp: distinct_map inj_on_def)
    then have "(\<exists>r \<in> set ?rs. rule_key r = c_str v \<and> rule_allows cap r) \<longleftrightarrow> rule_allows cap r" using r by blast
    with e r(3) Some show ?thesis by (simp add: rule_allows_def)
  qed
qed

lemma map_of_update_nth:
  assumes "distinct (map f xs)" and "i < length xs" and "f x = f (xs ! i)"
  shows "map_of (map (\<lambda>r. (f r, g r)) (xs[i := x])) = (map_of (map (\<lambda>r. (f r, g r)) xs))(f x \<mapsto> g x)"
  using assms
proof (induction xs arbitrary: i)
  case (Cons y ys)
  show ?case
  proof (cases i)
    case (Suc j)
    have "f (ys ! j) \<in> f ` set ys" using Cons.prems(2) Suc by simp
    then have "f y \<noteq> f x" using Cons.prems Suc by auto
    then show ?thesis using Cons.IH [of j] Cons.prems Suc by (auto simp: fun_upd_twist)
  qed (use Cons.prems in \<open>auto simp: fun_eq_iff\<close>)
qed simp

lemma map_of_delete_nth:
  assumes "distinct (map f xs)" and "i < length xs"
  shows "map_of (map (\<lambda>r. (f r, g r)) (take i xs @ drop (i + 1) xs)) = (map_of (map (\<lambda>r. (f r, g r)) xs))(f (xs ! i) := None)"
  using assms
proof (induction xs arbitrary: i)
  case (Cons y ys)
  show ?case
  proof (cases i)
    case 0
    then have "map_of (map (\<lambda>r. (f r, g r)) ys) (f y) = None" using Cons.prems by (simp add: map_of_eq_None_iff image_image)
    then show ?thesis using 0 by (auto simp: fun_eq_iff)
  next
    case (Suc j)
    have "f (ys ! j) \<in> f ` set ys" using Cons.prems(2) Suc by simp
    then have "f y \<noteq> f (ys ! j)" using Cons.prems Suc by auto
    then show ?thesis using Cons.IH [of j] Cons.prems Suc by (auto simp: fun_upd_twist)
  qed
qed simp

lemma rule_add_map:
  assumes inv: "rules_inv s" and u: "0 \<notin> set u" "length u < 32" and room: "pimp_count s < 32"
  shows "fst (pimp_rule_add u caps np so s)" and "rules_inv (snd (pimp_rule_add u caps np so s))"
    and "rule_map (snd (pimp_rule_add u caps np so s)) = (rule_map s)(u \<mapsto> caps)"
proof -
  let ?rs = "active_rules s" and ?t = "snd (pimp_rule_add u caps np so s)"
  have cu: "c_str u = u" using u(1) by (rule c_str_id)
  have l: "length ?rs = pimp_count s" "length (pimp_rules s) = 32" using inv by (simp_all add: rules_inv_def active_rules_def)
  have d: "distinct (map rule_key ?rs)" using inv by (simp add: rules_inv_def)
  from inv have "fst (pimp_rule_add u caps np so s) \<and> rules_inv ?t \<and> rule_map ?t = (rule_map s)(u \<mapsto> caps)"
  proof (cases rule: find_rule_cases [of s u])
    case none
    let ?k = "pimp_count s"
    let ?r = "\<lparr>pr_user = strcpy (pr_user (pimp_rules s ! ?k)) u, pr_allowed_caps = caps, pr_no_pass = np, pr_session_only = so\<rparr>"
    have ul: "length (pr_user (pimp_rules s ! ?k)) = 32" using inv room l(2) by (simp add: rules_inv_def)
    have "strcpy (pr_user (pimp_rules s ! ?k)) u = put_bytes 0 (u @ [0]) (pr_user (pimp_rules s ! ?k))"
      using strcpy_at_eq [of 0 u "pr_user (pimp_rules s ! ?k)"] ul u by (simp add: strcpy_def cu)
    then have k: "rule_key ?r = u" and len: "length (pr_user ?r) = 32"
      using ul u c_str_append_nul [OF u(1)] by (simp_all add: rule_key_def put_bytes_def)
    have a: "active_rules ?t = ?rs @ [?r]"
      using none room l by (simp add: pimp_rule_add_def Let_def active_rules_def take_Suc_conv_app_nth)
    have f: "fst (pimp_rule_add u caps np so s)" "length (pimp_rules ?t) = 32" "pimp_count ?t = ?k + 1"
      "set (pimp_rules ?t) \<subseteq> insert ?r (set (pimp_rules s))"
      using none room l set_update_subset_insert [of "pimp_rules s" ?k ?r] by (simp_all add: pimp_rule_add_def Let_def)
    have "u \<notin> rule_key ` set ?rs" using none(2) cu by simp
    then have "distinct (map rule_key (active_rules ?t))" "rule_map ?t = (rule_map s)(u \<mapsto> caps)"
      using d k map_of_snoc [of u "map (\<lambda>r. (rule_key r, pr_allowed_caps r)) ?rs" caps]
      by (simp_all add: a rule_map_def image_image)
    moreover have "\<forall>r \<in> set (pimp_rules ?t). length (pr_user r) = 32" using f(4) inv len by (auto simp: rules_inv_def)
    ultimately show ?thesis using f room by (simp add: rules_inv_def)
  next
    case (some i)
    let ?r = "(pimp_rules s ! i)\<lparr>pr_allowed_caps := caps, pr_no_pass := np, pr_session_only := so\<rparr>"
    have k: "rule_key ?r = u" "rule_key (?rs ! i) = u" using some cu by (simp_all add: rule_key_def active_rules_def)
    have t: "?t = s\<lparr>pimp_rules := (pimp_rules s)[i := ?r]\<rparr>" "fst (pimp_rule_add u caps np so s)"
      using some(1) room by (simp_all add: pimp_rule_add_def)
    have a: "active_rules ?t = ?rs[i := ?r]" by (simp add: t active_rules_def take_update_swap)
    have "map rule_key (?rs[i := ?r]) = map rule_key ?rs"
      using k some(2) l by (simp add: map_update) (metis length_map list_update_id nth_map)
    then have "distinct (map rule_key (active_rules ?t))" using d by (simp add: a)
    moreover have "rule_map ?t = (rule_map s)(u \<mapsto> caps)"
      using map_of_update_nth [OF d, of i ?r pr_allowed_caps] k some(2) l by (simp add: rule_map_def a)
    moreover have "\<forall>r \<in> set (pimp_rules ?t). length (pr_user r) = 32"
    proof -
      have "length (pr_user ?r) = 32" using inv some(2) l by (auto simp: rules_inv_def)
      then show ?thesis using inv set_update_subset_insert [of "pimp_rules s" i ?r] by (auto simp: t rules_inv_def)
    qed
    ultimately show ?thesis using inv t(2) by (simp add: rules_inv_def t(1))
  qed
  then show "fst (pimp_rule_add u caps np so s)" "rules_inv ?t" "rule_map ?t = (rule_map s)(u \<mapsto> caps)" by auto
qed

lemma rule_remove_map:
  assumes inv: "rules_inv s" and u: "0 \<notin> set u"
  shows "fst (pimp_rule_remove u s) \<longleftrightarrow> rule_map s u \<noteq> None" and "rules_inv (snd (pimp_rule_remove u s))"
    and "rule_map (snd (pimp_rule_remove u s)) = (rule_map s)(u := None)"
proof -
  let ?rs = "active_rules s" and ?t = "snd (pimp_rule_remove u s)"
  have cu: "c_str u = u" using u by (rule c_str_id)
  have l: "length ?rs = pimp_count s" "length (pimp_rules s) = 32" using inv by (simp_all add: rules_inv_def active_rules_def)
  have d: "distinct (map rule_key ?rs)" using inv by (simp add: rules_inv_def)
  have m: "rule_map s u = None \<longleftrightarrow> u \<notin> rule_key ` set ?rs" by (simp add: rule_map_def map_of_eq_None_iff image_image)
  from inv have "(fst (pimp_rule_remove u s) \<longleftrightarrow> rule_map s u \<noteq> None) \<and> rules_inv ?t \<and> rule_map ?t = (rule_map s)(u := None)"
  proof (cases rule: find_rule_cases [of s u])
    case none
    then have "rule_map s u = None" using m cu by simp
    then show ?thesis using none inv by (simp add: pimp_rule_remove_def fun_upd_idem)
  next
    case (some i)
    let ?n = "pimp_count s"
    let ?f = "fold (\<lambda>j rs. rs[j := rs ! (j + 1)]) [i..<?n - 1] (pimp_rules s)"
    have n: "?n \<le> length (pimp_rules s)" using inv by (simp add: rules_inv_def)
    have t: "?t = s\<lparr>pimp_rules := ?f, pimp_count := ?n - 1\<rparr>" "fst (pimp_rule_remove u s)"
      using some(1) by (simp_all add: pimp_rule_remove_def)
    have "take i ?rs = take i (pimp_rules s)" using some(2) by (simp add: active_rules_def min_def)
    then have a: "active_rules ?t = take i ?rs @ drop (i + 1) ?rs"
      using shift_down_take [OF some(2) n] by (simp add: t active_rules_def)
    have "set ?f \<subseteq> set (pimp_rules s)"
    proof
      fix r assume "r \<in> set ?f"
      then obtain j where j: "j < length (pimp_rules s)" "?f ! j = r" using shift_down [OF n, of i] by (auto simp: in_set_conv_nth)
      then have "?f ! j = (if i \<le> j \<and> j < ?n - 1 then pimp_rules s ! (j + 1) else pimp_rules s ! j)"
        using shift_down [OF n, of i] by blast
      then have "r = pimp_rules s ! j \<or> (j + 1 < length (pimp_rules s) \<and> r = pimp_rules s ! (j + 1))"
        using j(2) n by (cases "i \<le> j \<and> j < ?n - 1") auto
      then show "r \<in> set (pimp_rules s)" using j(1) by auto
    qed
    moreover have "distinct (map rule_key (take i ?rs @ drop (i + 1) ?rs))"
      using d distinct_take [OF d, of i] distinct_drop [OF d, of "i + 1"] set_take_disj_set_drop_if_distinct [OF d, of i "i + 1"]
      by (simp add: take_map drop_map)
    moreover have "rule_map ?t = (rule_map s)(u := None)"
      using map_of_delete_nth [OF d, of i pr_allowed_caps] some l cu by (simp add: rule_map_def a)
    moreover have "rule_map s u \<noteq> None" using m some l cu nth_mem [of i ?rs] by (metis imageI)
    moreover have "length ?f = 32" using shift_down [OF n, of i] l(2) by simp
    ultimately show ?thesis using inv t(2) a by (auto simp: rules_inv_def t(1))
  qed
  then show "fst (pimp_rule_remove u s) \<longleftrightarrow> rule_map s u \<noteq> None" "rules_inv ?t" "rule_map ?t = (rule_map s)(u := None)" by auto
qed

text \<open>
  C19: the privilege rules are a map from user names to capability masks: below the limit of 32 rules
  adding a rule updates exactly the entry of the named user, removing deletes exactly that entry and
  reports whether there was one, and a check allows a capability exactly if the user's mask is
  unrestricted or contains it.
\<close>

theorem pimp_rules_are_map:
  assumes "rules_inv s" and "0 \<notin> set u" and "length u < 32" and "pimp_count s < 32"
  shows "fst (pimp_rule_add u caps np so s) \<and> rules_inv (snd (pimp_rule_add u caps np so s)) \<and>
    rule_map (snd (pimp_rule_add u caps np so s)) = (rule_map s)(u \<mapsto> caps) \<and>
    (fst (pimp_rule_remove u s) \<longleftrightarrow> rule_map s u \<noteq> None) \<and> rules_inv (snd (pimp_rule_remove u s)) \<and>
    rule_map (snd (pimp_rule_remove u s)) = (rule_map s)(u := None) \<and>
    (pimp_check v cap s \<longleftrightarrow>
      (case rule_map s (c_str v) of None \<Rightarrow> False | Some c \<Rightarrow> c = 0xFFFFFFFF \<or> c AND cap \<noteq> 0))"
  using rule_add_map [OF assms] rule_remove_map [OF assms(1,2)] pimp_check_map [OF assms(1)] by blast

lemma bss_rules_inv: "rules_inv bss_kfs" "rule_map bss_kfs = Map.empty"
  by (simp_all add: rules_inv_def rule_map_def active_rules_def bss_kfs_def knet.extend_def zero_rule_def)

lemma pimp_rules_are_map_witness:
  "rule_map (snd (pimp_rule_add (cs ''alice'') 2 0 0 bss_kfs)) (cs ''alice'') = Some 2"
proof -
  have "pimp_count bss_kfs < 32" by (simp add: bss_kfs_def knet.extend_def)
  then show ?thesis using pimp_rules_are_map [OF bss_rules_inv(1), of "cs ''alice''" 2 0 0] by (simp add: cs_def)
qed

end
