(* ===== verification/Hexa_Forms.thy ===== *)
theory Hexa_Forms
  imports Hexa_Fs
begin

text \<open>
  The form table of the shell (\<^verbatim>\<open>hexa.c\<close>: \<^verbatim>\<open>find_form\<close>, \<^verbatim>\<open>form_ensure_cap\<close>, the commands on forms and the
  permission check).  The contents of a form are a pointer into the kernel heap; the commands return an
  option because the walks of the allocator and the printing of a string in memory may not end on a
  damaged heap.  A command whose result depends on lines typed by the user takes these lines as an
  argument.  The strings that \<^verbatim>\<open>strcpy\<close> stores into a name must fit their 32 bytes.
\<close>

section \<open>State\<close>

abbreviation MAX_USERS :: nat where "MAX_USERS \<equiv> 12"
abbreviation CONTENT_MAX :: int where "CONTENT_MAX \<equiv> 65528"
abbreviation PERM_OWNER_R :: u16 where "PERM_OWNER_R \<equiv> 0x100"
abbreviation PERM_OWNER_W :: u16 where "PERM_OWNER_W \<equiv> 0x080"
abbreviation PERM_OTH_R :: u16 where "PERM_OTH_R \<equiv> 0x004"
abbreviation PERM_OTH_W :: u16 where "PERM_OTH_W \<equiv> 0x002"
abbreviation PERM_DEFAULT :: u16 where "PERM_DEFAULT \<equiv> 0x1A4"

record user =
  us_name :: bytes
  us_pass_hash :: bytes
  us_is_root :: u32

record kusr = kfs +
  u_table :: "user list"
  u_count :: nat
  u_cur :: nat
  ticks :: u32

section \<open>Form table\<close>

definition find_form :: "bytes \<Rightarrow> 'a kfs_scheme \<Rightarrow> nat option" where
  "find_form name s = find (\<lambda>i. strcmp (fm_name (form_table s ! i)) name = 0) [0..<form_count s]"

definition form_ensure_cap :: "nat \<Rightarrow> int \<Rightarrow> 'a kfs_scheme \<Rightarrow> (bool \<times> 'a kfs_scheme) option" where
  "form_ensure_cap idx needed s =
     (let f = form_table s ! idx
      in if needed \<le> fm_cap f then Some (True, s)
         else do {
           (new, s1) \<leftarrow> kmalloc (of_int (needed + 1024)) s;
           if new = 0 then Some (False, s1)
           else do {
             s2 \<leftarrow> (if fm_content f \<noteq> 0
                    then kfree (fm_content f) (s1\<lparr>vmem := memcpy new (fm_content f) (unat (of_int (fm_size f) :: u32)) (vmem s1)\<rparr>)
                    else Some s1);
             Some (True, upd_form idx (\<lambda>f. f\<lparr>fm_content := new, fm_cap := needed + 1024\<rparr>) s2)
           }
         })"

definition cmd_mkform :: "bytes \<Rightarrow> 'a kusr_scheme \<Rightarrow> 'a kusr_scheme option" where
  "cmd_mkform name s =
     (if c_at name 0 = 0 then Some (print_string (cs ''Usage: mkform <formname>'' @ [10]) s)
      else if form_count s \<ge> MAX_FORMS then Some (print_string (cs ''Form store full.'' @ [10]) s)
      else if find_form name s \<noteq> None then Some (print_string (cs ''Form exists.'' @ [10]) s)
      else
        let k = form_count s; s = upd_form k (\<lambda>f. f\<lparr>fm_name := strcpy (fm_name f) name\<rparr>) s
        in do {
          (c, s1) \<leftarrow> kmalloc 1 s;
          let s1 = upd_form k (\<lambda>f. f\<lparr>fm_content := c\<rparr>) s1;
          if c = 0 then Some (print_string (cs ''Out of memory.'' @ [10]) s1)
          else Some (print_string (cs ''Created.'' @ [10])
                 ((upd_form k (\<lambda>f. f\<lparr>fm_size := 0, fm_cap := 1, fm_owner := int (u_cur s1), fm_mode := PERM_DEFAULT\<rparr>)
                    (s1\<lparr>vmem := (vmem s1)(c := 0)\<rparr>))\<lparr>form_count := k + 1\<rparr>))
        })"

definition print_mode :: "u16 \<Rightarrow> 'a kcon_scheme \<Rightarrow> 'a kcon_scheme" where
  "print_mode mode s =
     (let hi = unat (drop_bit 8 mode) mod 256; lo = unat mode mod 256
      in print_string (cs ''0x'' @ map digit_char [hi div 16, hi mod 16, lo div 16, lo mod 16]) s)"

definition list_line :: "nat \<Rightarrow> 'a kusr_scheme \<Rightarrow> 'a kusr_scheme" where
  "list_line i s =
     (let f = form_table s ! i;
          col = (if u_cur s \<noteq> 0 \<and> fm_owner f \<noteq> int (u_cur s) then 0x08 else 0x0F);
          owner = us_name (u_table s ! nat (fm_owner f));
          s = print_string (cs '' '') (print_mode (fm_mode f) s);
          s = print_string owner s;
          s = fold (\<lambda>_. put_char 32 col) [strlen owner..<8] s;
          s = print_color (cs ''B '') col (print_color (itoa (of_int (fm_size f)) 10) col s)
      in print_string [10] (print_string (fm_name f) s))"

definition cmd_list :: "'a kusr_scheme \<Rightarrow> 'a kusr_scheme" where
  "cmd_list s =
     (if form_count s = 0 then print_string (cs ''No forms.'' @ [10]) s
      else fold list_line [0..<form_count s] s)"

text \<open>\<^verbatim>\<open>check_perm\<close> answers whether the access is denied.\<close>

definition check_perm :: "int \<Rightarrow> bool \<Rightarrow> 'a kusr_scheme \<Rightarrow> bool" where
  "check_perm idx want_write s =
     (if idx < 0 \<or> idx \<ge> int (form_count s) then True
      else let f = form_table s ! nat idx
           in if u_cur s = 0 then False
              else if fm_owner f = int (u_cur s)
              then (want_write \<and> fm_mode f AND PERM_OWNER_W = 0) \<or> (\<not> want_write \<and> fm_mode f AND PERM_OWNER_R = 0)
              else if \<not> want_write \<and> fm_mode f AND PERM_OTH_R \<noteq> 0 then False
              else if want_write \<and> fm_mode f AND PERM_OTH_W \<noteq> 0 then False
              else True)"

text \<open>The bytes of a string in memory, before its NUL.\<close>

partial_function (option) mem_str :: "mem \<Rightarrow> u32 \<Rightarrow> bytes option" where
  "mem_str m p = (if m p = 0 then Some [] else do { t \<leftarrow> mem_str m (p + 1); Some (m p # t) })"

definition form_not_found :: "bytes" where "form_not_found = cs ''Form not found.'' @ [10]"
definition permission_denied :: "bytes" where "permission_denied = cs ''Permission denied.'' @ [10]"

definition cmd_view :: "bytes \<Rightarrow> 'a kusr_scheme \<Rightarrow> 'a kusr_scheme option" where
  "cmd_view name s =
     (case find_form name s of
        None \<Rightarrow> Some (print_string form_not_found s)
      | Some idx \<Rightarrow>
          if check_perm (int idx) False s then Some (print_color permission_denied 0x0C s)
          else do {
            t \<leftarrow> mem_str (vmem s) (fm_content (form_table s ! idx));
            Some (print_string [10] (print_string t s))
          })"

definition cmd_delete :: "bytes \<Rightarrow> 'a kusr_scheme \<Rightarrow> 'a kusr_scheme option" where
  "cmd_delete name s =
     (case find_form name s of
        None \<Rightarrow> Some (print_string form_not_found s)
      | Some idx \<Rightarrow>
          if check_perm (int idx) True s then Some (print_color permission_denied 0x0C s)
          else do {
            s1 \<leftarrow> (if fm_content (form_table s ! idx) \<noteq> 0 then kfree (fm_content (form_table s ! idx)) s else Some s);
            Some (print_string (cs ''Deleted.'' @ [10])
              (s1\<lparr>form_table := fold (\<lambda>i t. t[i := t ! (i + 1)]) [idx..<form_count s1 - 1] (form_table s1),
                  form_count := form_count s1 - 1\<rparr>))
          })"

text \<open>
  The commands split their arguments in the same way: a first word of at most \<open>n1\<close> characters up to a
  blank, then, behind blanks, a rest of at most \<open>n2\<close> characters.
\<close>

definition split_args :: "nat \<Rightarrow> nat \<Rightarrow> bytes \<Rightarrow> bytes \<times> bytes" where
  "split_args n1 n2 args =
     (let a = c_str args; w = take n1 (takeWhile (\<lambda>c. c \<noteq> 32) a)
      in (w, take n2 (dropWhile (\<lambda>c. c = 32) (drop (length w) a))))"

definition cmd_write :: "bytes \<Rightarrow> 'a kusr_scheme \<Rightarrow> 'a kusr_scheme option" where
  "cmd_write args s =
     (case split_args 31 2047 args of (fname, content) \<Rightarrow>
        if fname = [] then Some (print_string (cs ''Usage: write <form> <text>'' @ [10]) s)
        else case find_form fname s of
          None \<Rightarrow> Some (print_string (cs ''Form not found. Use mkform first.'' @ [10]) s)
        | Some idx \<Rightarrow>
            if check_perm (int idx) True s then Some (print_color permission_denied 0x0C s)
            else do {
              (ok, s1) \<leftarrow> form_ensure_cap idx (int (length content) + 1) s;
              if \<not> ok then Some (print_string (cs ''Out of memory.'' @ [10]) s1)
              else Some (print_string (cs ''Written.'' @ [10])
                     (upd_form idx (\<lambda>f. f\<lparr>fm_size := int (length content)\<rparr>)
                       (s1\<lparr>vmem := poke (fm_content (form_table s1 ! idx)) (content @ [0]) (vmem s1)\<rparr>)))
            })"

definition cmd_append :: "bytes \<Rightarrow> 'a kusr_scheme \<Rightarrow> 'a kusr_scheme option" where
  "cmd_append args s =
     (case split_args 31 2047 args of (fname, content) \<Rightarrow>
        if fname = [] then Some (print_string (cs ''Usage: append <form> <text>'' @ [10]) s)
        else case find_form fname s of
          None \<Rightarrow> Some (print_string form_not_found s)
        | Some idx \<Rightarrow>
            if check_perm (int idx) True s then Some (print_color permission_denied 0x0C s)
            else
              let cur = fm_size (form_table s ! idx)
              in do {
                (ok, s1) \<leftarrow> form_ensure_cap idx (cur + int (length content) + 1) s;
                if \<not> ok then Some (print_string (cs ''Out of memory.'' @ [10]) s1)
                else Some (print_string (cs ''Appended.'' @ [10])
                       (upd_form idx (\<lambda>f. f\<lparr>fm_size := cur + int (length content)\<rparr>)
                         (s1\<lparr>vmem := poke (fm_content (form_table s1 ! idx) + of_int cur) (content @ [0]) (vmem s1)\<rparr>)))
              })"

text \<open>
  The editor takes the lines that are typed.  It ends at the line \<^verbatim>\<open>.done\<close> or when the form is full; while
  it waits for a line that does not come it does not return.
\<close>

fun edit_loop :: "nat \<Rightarrow> int \<Rightarrow> bytes list \<Rightarrow> 'a kusr_scheme \<Rightarrow> 'a kusr_scheme option" where
  "edit_loop idx n [] s = None"
| "edit_loop idx n (line # lines) s =
     (let s = print_string (cs ''> '') s; l = c_str line; p = fm_content (form_table s ! idx)
      in if l = cs ''.done'' then Some s
         else if n + int (length l) + 2 \<ge> CONTENT_MAX then Some (print_string (cs ''Form full.'' @ [10]) s)
         else edit_loop idx (n + int (length l) + 1) lines
                (upd_form idx (\<lambda>f. f\<lparr>fm_size := n + int (length l) + 1\<rparr>)
                  (s\<lparr>vmem := poke (p + of_int n) (l @ [10]) (vmem s)\<rparr>)))"

definition cmd_edit :: "bytes \<Rightarrow> bytes list \<Rightarrow> 'a kusr_scheme \<Rightarrow> 'a kusr_scheme option" where
  "cmd_edit name lines s =
     (case find_form name s of
        None \<Rightarrow> Some (print_string form_not_found s)
      | Some idx \<Rightarrow>
          if check_perm (int idx) True s then Some (print_color permission_denied 0x0C s)
          else
            let p = fm_content (form_table s ! idx);
                s = print_string (10 # cs ''Type '' @ [39] @ cs ''.done'' @ [39] @ cs '' to finish.'' @ [10, 10])
                      (print_string name (print_string (cs ''Editing: '') s))
            in do {
              s1 \<leftarrow> (if fm_size (form_table s ! idx) > 0
                     then do {
                       t \<leftarrow> mem_str (vmem s) p;
                       Some (print_string (10 # cs ''---'' @ [10]) (print_string t (print_string (cs ''--- current ---'' @ [10]) s)))
                     }
                     else Some s);
              s2 \<leftarrow> edit_loop idx 0 lines (upd_form idx (\<lambda>f. f\<lparr>fm_size := 0\<rparr>) (s1\<lparr>vmem := (vmem s1)(p := 0)\<rparr>));
              Some (print_string (cs ''Saved.'' @ [10]) s2)
            })"

definition cmd_setmode :: "bytes \<Rightarrow> 'a kusr_scheme \<Rightarrow> 'a kusr_scheme" where
  "cmd_setmode args s =
     (case split_args 15 31 args of (mode_str, fname) \<Rightarrow>
        if mode_str = [] \<or> fname = [] then print_string (cs ''Usage: setmode <hex_mode> <form>'' @ [10]) s
        else case find_form fname s of
          None \<Rightarrow> print_string (cs ''Not found.'' @ [10]) s
        | Some idx \<Rightarrow>
            if u_cur s \<noteq> 0 \<and> fm_owner (form_table s ! idx) \<noteq> int (u_cur s) then print_color permission_denied 0x0C s
            else print_string (cs ''Mode changed.'' @ [10]) (upd_form idx (\<lambda>f. f\<lparr>fm_mode := of_int (atoi mode_str)\<rparr>) s))"

definition find_user :: "bytes \<Rightarrow> 'a kusr_scheme \<Rightarrow> nat option" where
  "find_user name s = find (\<lambda>i. strcmp (us_name (u_table s ! i)) name = 0) [0..<u_count s]"

definition cmd_setowner :: "bytes \<Rightarrow> 'a kusr_scheme \<Rightarrow> 'a kusr_scheme" where
  "cmd_setowner args s =
     (case split_args 15 31 args of (owner_str, fname) \<Rightarrow>
        if owner_str = [] \<or> fname = [] then print_string (cs ''Usage: setowner <user> <form>'' @ [10]) s
        else if u_cur s \<noteq> 0 then print_color (cs ''Only root.'' @ [10]) 0x0C s
        else case find_user owner_str s of
          None \<Rightarrow> print_string (cs ''User not found.'' @ [10]) s
        | Some nu \<Rightarrow>
            (case find_form fname s of
               None \<Rightarrow> print_string (cs ''Not found.'' @ [10]) s
             | Some idx \<Rightarrow> print_string (cs ''Owner changed.'' @ [10]) (upd_form idx (\<lambda>f. f\<lparr>fm_owner := int nu\<rparr>) s)))"

section \<open>Console output leaves the rest of the state alone\<close>

definition con_frame :: "'a kcon_scheme \<Rightarrow> 'a kcon_scheme \<Rightarrow> bool" where
  "con_frame s s' \<longleftrightarrow> (\<exists>a b c d e. s' = s\<lparr>serial_out := a, vga := b, cursor_x := c, cursor_y := d, crtc_cursor := e\<rparr>)"

lemma con_frame_refl: "con_frame s s"
  unfolding con_frame_def
  by (rule exI [of _ "serial_out s"], rule exI [of _ "vga s"], rule exI [of _ "cursor_x s"], rule exI [of _ "cursor_y s"],
      rule exI [of _ "crtc_cursor s"]) simp

lemma con_frameI:
  "con_frame s (s\<lparr>serial_out := a, vga := b, cursor_x := c, cursor_y := d, crtc_cursor := e\<rparr>)"
  unfolding con_frame_def by blast

lemma con_frame_trans:
  assumes "con_frame s s'" and "con_frame s' s''"
  shows "con_frame s s''"
proof -
  obtain a b c d e where 1: "s' = s\<lparr>serial_out := a, vga := b, cursor_x := c, cursor_y := d, crtc_cursor := e\<rparr>"
    using assms(1) unfolding con_frame_def by blast
  obtain a' b' c' d' e' where "s'' = s'\<lparr>serial_out := a', vga := b', cursor_x := c', cursor_y := d', crtc_cursor := e'\<rparr>"
    using assms(2) unfolding con_frame_def by blast
  then have "s'' = s\<lparr>serial_out := a', vga := b', cursor_x := c', cursor_y := d', crtc_cursor := e'\<rparr>"
    using 1 by simp
  then show ?thesis using con_frameI by metis
qed

lemma con_frame_put_char: "con_frame s (put_char c color s)"
  unfolding con_frame_def
  by (rule exI [of _ "serial_out (put_char c color s)"], rule exI [of _ "vga (put_char c color s)"],
      rule exI [of _ "cursor_x (put_char c color s)"], rule exI [of _ "cursor_y (put_char c color s)"],
      rule exI [of _ "crtc_cursor (put_char c color s)"])
    (cases "c = 8"; cases "c = 10"; cases "c = 13"; simp add: put_char_defs backspace_def)

lemma con_frame_print_string: "con_frame s (print_string t s)"
proof -
  have "con_frame s (fold (\<lambda>c s. put_char c (current_color s) s) xs s)" for xs
  proof (induction xs arbitrary: s)
    case Nil
    show ?case by (simp add: con_frame_refl)
  next
    case (Cons x xs)
    show ?case using con_frame_trans [OF con_frame_put_char Cons.IH] by simp
  qed
  then show ?thesis by (simp add: print_string_def)
qed

lemma con_frame_print_color: "con_frame s (print_color t color s)"
proof -
  obtain a b c d e where "print_string t (s\<lparr>current_color := color\<rparr>) =
      s\<lparr>current_color := color, serial_out := a, vga := b, cursor_x := c, cursor_y := d, crtc_cursor := e\<rparr>"
    using con_frame_print_string [of "s\<lparr>current_color := color\<rparr>" t] unfolding con_frame_def by blast
  then have "print_color t color s = s\<lparr>serial_out := a, vga := b, cursor_x := c, cursor_y := d, crtc_cursor := e\<rparr>"
    by (simp add: print_color_def)
  then show ?thesis using con_frameI by metis
qed

lemma con_frame_fields:
  fixes s :: "'a kusr_scheme"
  assumes "con_frame s s'"
  shows "form_table s' = form_table s" "form_count s' = form_count s" "vmem s' = vmem s" "heap_first s' = heap_first s"
    "u_table s' = u_table s" "u_count s' = u_count s" "u_cur s' = u_cur s" "ticks s' = ticks s" "disk_ok s' = disk_ok s"
    "hexafs_mounted s' = hexafs_mounted s" "current_color s' = current_color s"
  using assms unfolding con_frame_def by auto

lemmas print_string_fields [simp] = con_frame_fields [OF con_frame_print_string]
lemmas print_color_fields [simp] = con_frame_fields [OF con_frame_print_color]

section \<open>The form table as a map from names to texts\<close>

text \<open>
  A form is well formed if its contents are a block in use that is large enough for the text and its
  NUL.  \<open>forms_rep L s\<close>: the table is well formed over the heap blocks \<open>L\<close>; no two forms share a block
  or a name.
\<close>

abbreviation block_of :: "form \<Rightarrow> nat" where "block_of f \<equiv> unat (fm_content f)"

definition form_ok :: "(nat \<rightharpoonup> nat) \<Rightarrow> form \<Rightarrow> bool" where
  "form_ok L f \<longleftrightarrow> 0 \<le> fm_size f \<and> fm_size f < fm_cap f \<and> (\<exists>sz. L (block_of f) = Some sz \<and> fm_cap f \<le> int sz)"

definition form_text :: "'a kheap_scheme \<Rightarrow> form \<Rightarrow> bytes" where
  "form_text s f = k_bytes s (block_of f) (nat (fm_size f))"

definition form_view :: "'a kheap_scheme \<Rightarrow> form \<Rightarrow> bytes \<times> bytes \<times> int \<times> u16" where
  "form_view s f = (c_str (fm_name f), form_text s f, fm_owner f, fm_mode f)"

definition forms_list :: "form list \<Rightarrow> 'a kheap_scheme \<Rightarrow> (bytes \<times> bytes \<times> int \<times> u16) list" where
  "forms_list fs s = map (form_view s) fs"

abbreviation the_forms :: "'a kfs_scheme \<Rightarrow> form list" where
  "the_forms s \<equiv> take (form_count s) (form_table s)"

definition table_ok :: "(nat \<rightharpoonup> nat) \<Rightarrow> form list \<Rightarrow> bool" where
  "table_ok L fs \<longleftrightarrow> (\<forall>f \<in> set fs. form_ok L f) \<and> distinct (map block_of fs) \<and> distinct (map (c_str \<circ> fm_name) fs)"

definition forms_rep :: "(nat \<rightharpoonup> nat) \<Rightarrow> 'a kfs_scheme \<Rightarrow> bool" where
  "forms_rep L s \<longleftrightarrow> heap_live L s \<and> length (form_table s) = MAX_FORMS \<and> form_count s \<le> MAX_FORMS \<and>
     (\<forall>f \<in> set (form_table s). length (fm_name f) = 32) \<and> table_ok L (the_forms s)"

definition forms :: "'a kfs_scheme \<Rightarrow> (bytes \<times> bytes \<times> int \<times> u16) list" where
  "forms s = forms_list (the_forms s) s"

lemma length_forms: "forms_rep L s \<Longrightarrow> length (forms s) = form_count s"
  by (simp add: forms_def forms_list_def forms_rep_def)

lemma forms_nth:
  "forms_rep L s \<Longrightarrow> i < form_count s \<Longrightarrow> forms s ! i = form_view s (form_table s ! i)"
  by (simp add: forms_def forms_list_def forms_rep_def)

lemma forms_names: "map fst (forms s) = map (c_str \<circ> fm_name) (the_forms s)"
  by (simp add: forms_def forms_list_def form_view_def comp_def)

lemma forms_rep_ok: "forms_rep L s \<Longrightarrow> i < form_count s \<Longrightarrow> form_ok L (form_table s ! i)"
  unfolding forms_rep_def table_ok_def by (metis length_take min.absorb2 nth_mem nth_take)

lemma forms_rep_blocks:
  assumes "forms_rep L s" and "i < form_count s" and "j < form_count s"
    and "block_of (form_table s ! i) = block_of (form_table s ! j)"
  shows "i = j"
proof -
  have d: "distinct (map block_of (the_forms s))" and l: "length (the_forms s) = form_count s"
    using assms(1) by (simp_all add: forms_rep_def table_ok_def)
  show ?thesis
    using d assms(2-4) l nth_eq_iff_index_eq [of "map block_of (the_forms s)" i j] by simp
qed

lemma find_form_None: "forms_rep L s \<Longrightarrow> find_form name s = None \<longleftrightarrow> c_str name \<notin> fst ` set (forms s)"
proof -
  assume r: "forms_rep L s"
  have "find_form name s = None \<longleftrightarrow> (\<forall>i < form_count s. c_str (fm_name (form_table s ! i)) \<noteq> c_str name)"
    by (auto simp: find_form_def find_None_iff strcmp_zero_iff)
  also have "\<dots> \<longleftrightarrow> (\<forall>i < length (forms s). fst (forms s ! i) \<noteq> c_str name)"
    using forms_nth [OF r] length_forms [OF r] by (auto simp: form_view_def)
  finally show ?thesis by (metis (no_types, lifting) image_iff in_set_conv_nth)
qed

lemma find_form_Some:
  assumes "find_form name s = Some i"
  shows "i < form_count s" and "c_str (fm_name (form_table s ! i)) = c_str name"
  using assms by (auto simp: find_form_def find_Some_iff strcmp_zero_iff)

text \<open>Replacing one form of the table.\<close>

lemma table_ok_replace:
  assumes "table_ok L fs" and "i < length fs" and "form_ok L' f" and "c_str (fm_name f) = c_str (fm_name (fs ! i))"
    and "\<And>j. j < length fs \<Longrightarrow> j \<noteq> i \<Longrightarrow> L' (block_of (fs ! j)) = L (block_of (fs ! j)) \<and> block_of f \<noteq> block_of (fs ! j)"
  shows "table_ok L' (fs[i := f])"
proof -
  have ok: "form_ok L' (fs[i := f] ! j)" if "j < length fs" for j
    using assms(1,3,5) that by (cases "j = i") (auto simp: table_ok_def form_ok_def)
  have d: "distinct (map block_of fs)" using assms(1) by (simp add: table_ok_def)
  have "block_of f \<notin> set (map block_of fs) - {map block_of fs ! i}"
  proof
    assume "block_of f \<in> set (map block_of fs) - {map block_of fs ! i}"
    then obtain j where "j < length fs" "block_of f = block_of (fs ! j)" "block_of (fs ! j) \<noteq> block_of (fs ! i)"
      using assms(2) by (auto simp: in_set_conv_nth)
    then show False using assms(5) by metis
  qed
  then have "distinct (map block_of (fs[i := f]))" using distinct_list_update [OF d] by (simp add: map_update)
  moreover have "map (c_str \<circ> fm_name) (fs[i := f]) = map (c_str \<circ> fm_name) fs"
    using assms(2,4) by (simp add: map_update list_update_same_conv)
  ultimately show ?thesis using ok assms(1) by (auto simp: table_ok_def in_set_conv_nth)
qed

lemma upd_form_fields [simp]:
  fixes s :: "'a kfs_scheme"
  shows "form_table (upd_form i g s) = (form_table s)[i := g (form_table s ! i)]" "form_count (upd_form i g s) = form_count s"
    "vmem (upd_form i g s) = vmem s" "heap_first (upd_form i g s) = heap_first s"
  by (simp_all add: upd_form_def)

lemma k_byte_cong: "vmem s = vmem s' \<Longrightarrow> k_byte s = k_byte s'"
  by (simp add: k_byte_def fun_eq_iff)

lemma form_view_cong:
  assumes "fm_name g = fm_name f" and "fm_owner g = fm_owner f" and "fm_mode g = fm_mode f" and "form_text t g = form_text s f"
  shows "form_view t g = form_view s f"
  using assms by (simp add: form_view_def)

lemma form_text_cong:
  assumes "fm_content g = fm_content f" and "fm_size g = fm_size f"
    and "\<And>i. int i < fm_size f \<Longrightarrow> k_byte t (block_of f + i) = k_byte s (block_of f + i)"
  shows "form_text t g = form_text s f"
  using assms by (intro nth_equalityI) (auto simp: form_text_def)

lemma heap_live_cong: "heap_live L s \<Longrightarrow> vmem s' = vmem s \<Longrightarrow> heap_first s' = heap_first s \<Longrightarrow> heap_live L s'"
  by (simp add: heap_live_def heap_rep_def)

lemma forms_eqI:
  assumes "form_count s' = form_count s" and "length (form_table s') = length (form_table s)" "form_count s \<le> length (form_table s)"
    and "\<And>j. j < form_count s \<Longrightarrow> form_view s' (form_table s' ! j) = form_view s (form_table s ! j)"
  shows "forms s' = forms s"
  using assms unfolding forms_def forms_list_def by (intro nth_equalityI) auto

lemma names32_update:
  assumes "\<forall>f \<in> set fs. length (fm_name f) = 32" and "length (fm_name g) = 32"
  shows "\<forall>f \<in> set (fs[i := g]). length (fm_name f) = 32"
  using assms set_update_subset_insert [of fs i g] by blast

lemma form_ensure_cap_ok:
  fixes s :: "'a kfs_scheme"
  assumes r: "forms_rep L s" and i: "idx < form_count s" and le: "needed \<le> 2 ^ 31"
  obtains (full) "form_ensure_cap idx needed s = Some (False, s)" and "fm_cap (form_table s ! idx) < needed"
      and "no_room (nat (needed + 1024)) s"
  | (ok) L' s' where "form_ensure_cap idx needed s = Some (True, s')" and "forms_rep L' s'" and "forms s' = forms s"
      and "needed \<le> fm_cap (form_table s' ! idx)" and "fm_size (form_table s' ! idx) = fm_size (form_table s ! idx)"
      and "s' = s\<lparr>vmem := vmem s', form_table := form_table s'\<rparr>"
      and "needed \<le> fm_cap (form_table s ! idx) \<or> \<not> no_room (nat (needed + 1024)) s"
proof (cases "needed \<le> fm_cap (form_table s ! idx)")
  case True
  then have "form_ensure_cap idx needed s = Some (True, s)" by (simp add: form_ensure_cap_def)
  then show thesis using ok [of s L] r True by simp
next
  case False
  let ?f = "form_table s ! idx"
  let ?a = "block_of ?f" and ?m = "nat (needed + 1024)" and ?xs = "form_text s ?f"
  obtain sz where f: "0 \<le> fm_size ?f" "fm_size ?f < fm_cap ?f" "L ?a = Some sz" "fm_cap ?f \<le> int sz"
    using forms_rep_ok [OF r i] unfolding form_ok_def by blast
  have n: "fm_size ?f < needed" "needed \<le> 2 ^ 31" using f(2) False le by linarith+
  have hl: "heap_live L s" and hs: "heap_of s L s" using r by (simp_all add: forms_rep_def heap_of_def)
  note rng = heap_live_range [OF hl f(3)]
  have c0: "fm_content ?f \<noteq> 0" "of_nat ?a = fm_content ?f" using rng(1) by auto
  have lx: "length ?xs = nat (fm_size ?f)" "length ?xs \<le> sz" "length ?xs \<le> ?m"
    using f n(1) by (simp_all add: form_text_def)
  have ms: "0 < ?m \<and> ?m \<le> 2 ^ 32 - 4" using n f(1) by auto
  have oi: "(of_int k :: u32) = of_nat (nat k)" if "0 \<le> k" for k
    using that of_int_of_nat_eq [of "nat k"] by simp
  have kn: "(of_int (needed + 1024) :: u32) = of_nat ?m" using n f(1) by (intro oi) simp
  have us: "unat (of_int (fm_size ?f) :: u32) = nat (fm_size ?f)"
  proof -
    have "nat (fm_size ?f) < 2 ^ 32" using n f(1) by auto
    then have "unat (of_nat (nat (fm_size ?f)) :: u32) = nat (fm_size ?f)" by (intro word_of_nat_less_eq) simp
    then show ?thesis using oi [OF f(1)] by simp
  qed
  have b: "\<forall>k < length ?xs. k_byte s (?a + k) = ?xs ! k" by (simp add: form_text_def)
  show thesis
  proof (cases rule: kheap.grow [OF hs f(3) ms lx(2,3) b])
    case 1
    then have k: "kmalloc (of_nat ?m) s = Some (0, s)" by (auto simp: k_alloc_def unat_eq_zero)
    then have "no_room ?m s" using kmalloc_null_iff [OF hl, of ?m] ms by simp
    then show thesis using full False kn k by (simp add: form_ensure_cap_def Let_def)
  next
    case (2 c sz' s1 s2)
    obtain p where p: "kmalloc (of_nat ?m) s = Some (p, s1)" "unat p = c" using 2(1) by (auto simp: k_alloc_def)
    have pc: "p = of_nat c" "p \<noteq> 0" using p(2) 2(2) by auto
    have nr: "\<not> no_room ?m s" using kmalloc_null_iff [OF hl, of ?m] ms p(1) pc(2) by simp
    have h1: "heap_live (L(c \<mapsto> sz')) s1" using 2(5) by (simp add: heap_of_def)
    have ca: "c \<noteq> ?a" using 2(3) f(3) by auto
    note rc = heap_live_range [OF h1, of c sz', simplified]
    have dj: "?a + length ?xs \<le> c \<or> c + length ?xs \<le> ?a"
      using heap_live_disjoint [OF h1, of ?a sz c sz'] f(3) ca 2(4) lx by auto
    have "memcpy p (fm_content ?f) (nat (fm_size ?f)) (vmem s1) = poke (of_nat c) ?xs (vmem s1)"
    proof -
      have "map (\<lambda>k. vmem s1 (of_nat (?a + k))) [0..<nat (fm_size ?f)] = ?xs"
        using 2(6) lx(1) by (intro nth_equalityI) (auto simp: k_byte_def)
      then show ?thesis using memcpy_poke [of ?a "nat (fm_size ?f)" c "vmem s1"] dj lx rng(2) rc(2) 2(4) pc(1) c0(2) by simp
    qed
    then have mc: "s1\<lparr>vmem := memcpy p (fm_content ?f) (nat (fm_size ?f)) (vmem s1)\<rparr> = kheap.sto_list c ?xs s1"
      by (simp add: poke_sto_list)
    let ?g = "\<lambda>f. f\<lparr>fm_content := p, fm_cap := needed + 1024\<rparr>" and ?L = "L(?a := None, c \<mapsto> sz')"
    let ?s = "upd_form idx ?g s2"
    have fr: "s2 = s\<lparr>vmem := vmem s2\<rparr>" "heap_live ?L s2" using 2(8) by (simp_all add: heap_of_def) (metis kheap.surjective kheap.update_convs(4))
    have ft: "form_table s2 = form_table s" "form_count s2 = form_count s" by (subst fr(1), simp)+
    have e: "form_ensure_cap idx needed s = Some (True, ?s)"
      using False kn p(1) pc(2) c0 us mc 2(7) by (simp add: form_ensure_cap_def Let_def)
    have lt: "length (form_table s) = MAX_FORMS" "form_count s \<le> MAX_FORMS" using r by (simp_all add: forms_rep_def)
    have tk: "the_forms ?s = (the_forms s)[idx := ?g ?f]" using ft by (simp add: take_update_swap)
    have oth: "block_of (form_table s ! j) \<noteq> ?a \<and> block_of (form_table s ! j) \<noteq> c \<and> (\<exists>k. L (block_of (form_table s ! j)) = Some k \<and> fm_size (form_table s ! j) < int k)"
      if "j < form_count s" "j \<noteq> idx" for j
    proof -
      have o: "form_ok L (form_table s ! j)" using forms_rep_ok [OF r that(1)] .
      then have "block_of (form_table s ! j) \<noteq> c" using 2(3) by (auto simp: form_ok_def)
      moreover have "block_of (form_table s ! j) \<noteq> ?a" using forms_rep_blocks [OF r that(1) i] that(2) by auto
      ultimately show ?thesis using o by (auto simp: form_ok_def)
    qed
    have "table_ok ?L ((the_forms s)[idx := ?g ?f])"
    proof (rule table_ok_replace)
      show "table_ok L (the_forms s)" using r by (simp add: forms_rep_def)
      show "form_ok ?L (?g ?f)" using 2(4) ms n f(1) p(2) by (simp add: form_ok_def)
      fix j assume "j < length (the_forms s)" "j \<noteq> idx"
      then show "?L (block_of (the_forms s ! j)) = L (block_of (the_forms s ! j)) \<and> block_of (?g ?f) \<noteq> block_of (the_forms s ! j)"
        using oth [of j] p(2) lt by auto
    qed (use i lt in simp_all)
    moreover have "heap_live ?L ?s" by (rule heap_live_cong [OF fr(2)]) simp_all
    moreover have "\<forall>f \<in> set (form_table ?s). length (fm_name f) = 32"
      using names32_update [of "form_table s" "?g ?f" idx] r ft i lt by (simp add: forms_rep_def)
    ultimately have rep: "forms_rep ?L ?s" using tk ft lt by (simp add: forms_rep_def)
    have "form_view ?s (form_table ?s ! j) = form_view s (form_table s ! j)" if j: "j < form_count s" for j
    proof (rule form_view_cong)
      show "form_text ?s (form_table ?s ! j) = form_text s (form_table s ! j)"
      proof (cases "j = idx")
        case True
        have "k_byte ?s = k_byte s2" by (rule k_byte_cong) simp
        then show ?thesis using True 2(9) lx(1) ft i lt p(2)
          by (intro nth_equalityI) (auto simp: form_text_def)
      next
        case ne: False
        have "k_byte ?s = k_byte s2" by (rule k_byte_cong) simp
        moreover obtain k where k: "block_of (form_table s ! j) \<noteq> ?a" "L (block_of (form_table s ! j)) = Some k" "fm_size (form_table s ! j) < int k"
          using oth [OF j ne] by blast
        ultimately have "k_byte ?s (block_of (form_table s ! j) + i) = k_byte s (block_of (form_table s ! j) + i)"
          if "int i < fm_size (form_table s ! j)" for i
          using 2(10) [rule_format, of "block_of (form_table s ! j)" k i] that by simp
        then show ?thesis using ne ft by (intro form_text_cong) (simp_all add: nth_list_update)
      qed
    qed (use ft i lt in \<open>simp_all add: nth_list_update\<close>)
    then have "forms ?s = forms s" by (intro forms_eqI) (use ft lt in simp_all)
    moreover have "?s = s\<lparr>vmem := vmem ?s, form_table := form_table ?s\<rparr>" by (subst (1 2 3) fr(1)) (simp add: upd_form_def)
    ultimately show thesis using ok [OF e rep] ft i lt nr by simp
  qed
qed

text \<open>Storing bytes into the block of a form.\<close>

definition form_store :: "nat \<Rightarrow> int \<Rightarrow> bytes \<Rightarrow> int \<Rightarrow> 'a kfs_scheme \<Rightarrow> 'a kfs_scheme" where
  "form_store idx off bs n s =
     upd_form idx (\<lambda>f. f\<lparr>fm_size := n\<rparr>) (s\<lparr>vmem := poke (fm_content (form_table s ! idx) + of_int off) bs (vmem s)\<rparr>)"

lemma form_store_ok:
  fixes s :: "'a kfs_scheme"
  assumes r: "forms_rep L s" and i: "idx < form_count s" and off: "0 \<le> off" "off + int (length bs) \<le> fm_cap (form_table s ! idx)"
    and n: "0 \<le> n" "n < fm_cap (form_table s ! idx)"
  shows "forms_rep L (form_store idx off bs n s) \<and> forms (form_store idx off bs n s) = (forms s)[idx :=
    (case forms s ! idx of (nm, t, ow, md) \<Rightarrow> (nm, map (\<lambda>i. if off \<le> int i \<and> int i < off + int (length bs) then bs ! (i - nat off)
       else k_byte s (block_of (form_table s ! idx) + i)) [0..<nat n], ow, md))] \<and>
    (\<forall>i < length bs. k_byte (form_store idx off bs n s) (block_of (form_table s ! idx) + (nat off + i)) = bs ! i)"
proof -
  let ?f = "form_table s ! idx" and ?s = "form_store idx off bs n s"
  let ?a = "block_of ?f" and ?o = "nat off"
  obtain sz where f: "0 \<le> fm_size ?f" "fm_size ?f < fm_cap ?f" "L ?a = Some sz" "fm_cap ?f \<le> int sz"
    using forms_rep_ok [OF r i] unfolding form_ok_def by blast
  have hs: "heap_of s L s" using r by (simp add: forms_rep_def heap_of_def)
  have p: "fm_content ?f + of_int off = of_nat (?a + ?o)" using off(1) of_int_of_nat_eq [of ?o, where 'a = "32 word"] by simp
  let ?t = "kheap.sto_list (?a + ?o) bs s"
  have st: "?s = upd_form idx (\<lambda>f. f\<lparr>fm_size := n\<rparr>) ?t"
    unfolding form_store_def p poke_sto_list ..
  have fits: "?o + length bs \<le> sz" using off f(4) by linarith
  note so = kheap.sto_list_ok [OF hs f(3) fits]
  have hl: "heap_live L ?t" and fr: "?t\<lparr>vmem := vmem s\<rparr> = s" using so by (simp_all add: heap_of_def)
  have ft: "form_table ?t = form_table s" "form_count ?t = form_count s" by (subst (2) fr [symmetric], simp)+
  have lt: "length (form_table s) = MAX_FORMS" "form_count s \<le> MAX_FORMS" using r by (simp_all add: forms_rep_def)
  have kb: "k_byte ?s = k_byte ?t" by (rule k_byte_cong) (simp add: st)
  have tk: "the_forms ?s = (the_forms s)[idx := ?f\<lparr>fm_size := n\<rparr>]" using ft by (simp add: st take_update_swap)
  have oth: "block_of (form_table s ! j) \<noteq> ?a" if "j < form_count s" "j \<noteq> idx" for j
    using forms_rep_blocks [OF r that(1) i] that(2) by blast
  have "table_ok L ((the_forms s)[idx := ?f\<lparr>fm_size := n\<rparr>])"
  proof (rule table_ok_replace)
    show "table_ok L (the_forms s)" using r by (simp add: forms_rep_def)
    show "form_ok L (?f\<lparr>fm_size := n\<rparr>)" using f n by (simp add: form_ok_def)
    fix j assume "j < length (the_forms s)" "j \<noteq> idx"
    then show "L (block_of (the_forms s ! j)) = L (block_of (the_forms s ! j)) \<and> block_of (?f\<lparr>fm_size := n\<rparr>) \<noteq> block_of (the_forms s ! j)"
      using oth [of j] lt by auto
  qed (use i lt in simp_all)
  moreover have "heap_live L ?s" by (rule heap_live_cong [OF hl]) (simp_all add: st)
  moreover have "\<forall>f \<in> set (form_table ?s). length (fm_name f) = 32"
    using names32_update [of "form_table s" "?f\<lparr>fm_size := n\<rparr>" idx] r ft i lt by (simp add: forms_rep_def st)
  ultimately have rep: "forms_rep L ?s" using tk ft lt by (simp add: forms_rep_def st)
  have "form_view ?s (form_table ?s ! j) = ((forms s)[idx :=
    (case forms s ! idx of (nm, t, ow, md) \<Rightarrow> (nm, map (\<lambda>i. if off \<le> int i \<and> int i < off + int (length bs) then bs ! (i - nat off)
       else k_byte s (block_of (form_table s ! idx) + i)) [0..<nat n], ow, md))]) ! j" if j: "j < form_count s" for j
  proof (cases "j = idx")
    case True
    have "k_byte ?t (?a + i) = (if off \<le> int i \<and> int i < off + int (length bs) then bs ! (i - ?o) else k_byte s (?a + i))"
      if "i < nat n" for i
    proof -
      have "i < sz" using that n f(4) by linarith
      moreover have "?o \<le> i \<and> i < ?o + length bs \<longleftrightarrow> off \<le> int i \<and> int i < off + int (length bs)" using off(1) by auto
      ultimately show ?thesis using conjunct2 [OF so, rule_format, of ?a sz i] f(3) by simp
    qed
    then have "form_text ?s (?f\<lparr>fm_size := n\<rparr>) = map (\<lambda>i. if off \<le> int i \<and> int i < off + int (length bs) then bs ! (i - nat off)
       else k_byte s (?a + i)) [0..<nat n]" by (simp add: form_text_def kb k_bytes_def)
    then show ?thesis using True j ft i lt forms_nth [OF r i] length_forms [OF r] by (simp add: st form_view_def)
  next
    case False
    obtain k where k: "L (block_of (form_table s ! j)) = Some k" "fm_size (form_table s ! j) < int k"
      using forms_rep_ok [OF r j] unfolding form_ok_def by fastforce
    have "form_view ?s (form_table ?s ! j) = form_view s (form_table s ! j)"
    proof (rule form_view_cong)
      show "form_text ?s (form_table ?s ! j) = form_text s (form_table s ! j)"
      proof (rule form_text_cong)
        fix i assume "int i < fm_size (form_table s ! j)"
        then have "i < k" using k(2) by linarith
        then show "k_byte ?s (block_of (form_table s ! j) + i) = k_byte s (block_of (form_table s ! j) + i)"
          using conjunct2 [OF so, rule_format, of "block_of (form_table s ! j)" k i] k(1) oth [OF j False] kb by simp
      qed (use ft False in \<open>simp_all add: st\<close>)
    qed (use ft False in \<open>simp_all add: st\<close>)
    then show ?thesis using False forms_nth [OF r j] length_forms [OF r] j by simp
  qed
  then have "forms ?s = (forms s)[idx := (case forms s ! idx of (nm, t, ow, md) \<Rightarrow> (nm, map (\<lambda>i. if off \<le> int i \<and> int i < off + int (length bs)
       then bs ! (i - nat off) else k_byte s (block_of (form_table s ! idx) + i)) [0..<nat n], ow, md))]"
    using length_forms [OF rep] length_forms [OF r] forms_nth [OF rep] ft
    by (intro nth_equalityI) (simp_all add: st)
  moreover have "k_byte ?s (?a + (?o + i)) = bs ! i" if "i < length bs" for i
    using conjunct2 [OF so, rule_format, of ?a sz "?o + i"] f(3) fits that kb by simp
  ultimately show ?thesis using rep by blast
qed

section \<open>The commands\<close>

lemma forms_con_frame:
  fixes s :: "'a kusr_scheme"
  assumes "con_frame s s'"
  shows "forms_rep L s' = forms_rep L s" and "forms s' = forms s" and "check_perm i w s' = check_perm i w s" and "find_form nm s' = find_form nm s"
proof -
  note f = con_frame_fields [OF assms]
  have k: "k_byte s' = k_byte s" by (rule k_byte_cong) (simp add: f)
  show "forms_rep L s' = forms_rep L s" by (simp add: forms_rep_def heap_live_def heap_rep_def f)
  show "forms s' = forms s" by (simp add: forms_def forms_list_def form_view_def [abs_def] form_text_def [abs_def] k_bytes_def k f)
  show "check_perm i w s' = check_perm i w s" by (simp add: check_perm_def f)
  show "find_form nm s' = find_form nm s" by (simp add: find_form_def f)
qed

lemmas forms_print [simp] = forms_con_frame [OF con_frame_print_string] forms_con_frame [OF con_frame_print_color]

definition form_name_ok :: "bytes \<Rightarrow> bool" where
  "form_name_ok n \<longleftrightarrow> n \<noteq> [] \<and> length n < 32 \<and> 0 \<notin> set n \<and> 32 \<notin> set n"

definition form_text_ok :: "bytes \<Rightarrow> bool" where
  "form_text_ok t \<longleftrightarrow> length t \<le> 2047 \<and> 0 \<notin> set t \<and> (t = [] \<or> hd t \<noteq> 32)"

lemma form_name_ok_c: "form_name_ok n \<Longrightarrow> c_str n = n"
  by (simp add: form_name_ok_def c_str_id)

lemma split_args_ok:
  assumes "form_name_ok n" and "form_text_ok t"
  shows "split_args 31 2047 (n @ 32 # t) = (n, t)"
proof -
  have c: "c_str (n @ 32 # t) = n @ 32 # t" using assms by (intro c_str_id) (auto simp: form_name_ok_def form_text_ok_def)
  have "takeWhile (\<lambda>c. c \<noteq> 32) (n @ 32 # t) = n" using assms(1) by (subst takeWhile_append2) (auto simp: form_name_ok_def)
  moreover have "dropWhile (\<lambda>c. c = 32) (32 # t) = t" using assms(2) by (cases t) (auto simp: form_text_ok_def)
  ultimately show ?thesis using assms c by (simp add: split_args_def form_name_ok_def form_text_ok_def)
qed

lemma strcpy_name:
  assumes "form_name_ok n" and "length d = 32"
  shows "length (strcpy d n) = 32" and "c_str (strcpy d n) = n"
proof -
  have "strcpy d n = put_bytes 0 (n @ [0]) d"
    using strcpy_at_eq [of 0 n d] assms by (simp add: strcpy_def form_name_ok_c form_name_ok_def)
  then show "length (strcpy d n) = 32" "c_str (strcpy d n) = n"
    using assms c_str_append_nul [of n] by (simp_all add: put_bytes_def form_name_ok_def)
qed

lemma mem_str_eq:
  "(\<forall>i < length t. m (p + of_nat i) = t ! i) \<Longrightarrow> 0 \<notin> set t \<Longrightarrow> m (p + of_nat (length t)) = 0 \<Longrightarrow> mem_str m p = Some t"
proof (induction t arbitrary: p)
  case Nil
  then show ?case by (simp add: mem_str.simps)
next
  case (Cons x t)
  have "\<forall>i < length t. m (p + 1 + of_nat i) = t ! i"
  proof (intro allI impI)
    fix i assume "i < length t"
    then show "m (p + 1 + of_nat i) = t ! i" using Cons.prems(1) [rule_format, of "Suc i"] by (simp add: add.assoc)
  qed
  moreover have "m (p + 1 + of_nat (length t)) = 0" using Cons.prems(3) by (simp add: add.assoc)
  ultimately have "mem_str m (p + 1) = Some t" using Cons.IH Cons.prems(2) by simp
  moreover have "m p = x" "x \<noteq> 0" using Cons.prems(1,2) by (auto dest: spec [of _ 0])
  ultimately show ?case by (simp add: mem_str.simps [of m p])
qed

definition forms_inv :: "'a kfs_scheme \<Rightarrow> bool" where
  "forms_inv s \<longleftrightarrow> (\<exists>L. forms_rep L s)"

definition form_map :: "'a kfs_scheme \<Rightarrow> bytes \<rightharpoonup> bytes \<times> int \<times> u16" where
  "form_map s = map_of (forms s)"

lemma forms_distinct: "forms_rep L s \<Longrightarrow> distinct (map fst (forms s))"
  unfolding forms_names by (simp add: forms_rep_def table_ok_def)

lemma find_form_map:
  assumes r: "forms_rep L s" and n: "c_str n = n"
  shows "case find_form n s of None \<Rightarrow> form_map s n = None
    | Some i \<Rightarrow> i < form_count s \<and> fst (forms s ! i) = n \<and> form_map s n = Some (snd (forms s ! i))"
proof (cases "find_form n s")
  case None
  then show ?thesis using find_form_None [OF r, of n] n by (simp add: form_map_def map_of_eq_None_iff)
next
  case (Some i)
  note f = find_form_Some [OF Some]
  have "fst (forms s ! i) = n" using forms_nth [OF r f(1)] f(2) n by (simp add: form_view_def)
  moreover have "forms s ! i \<in> set (forms s)" using f(1) length_forms [OF r] by simp
  ultimately have "form_map s n = Some (snd (forms s ! i))"
    unfolding form_map_def by (intro map_of_is_SomeI [OF forms_distinct [OF r]]) (metis prod.collapse)
  then show ?thesis using Some f(1) \<open>fst (forms s ! i) = n\<close> by simp
qed

text \<open>Whether a user is denied an access to a form, from its owner and mode.\<close>

definition denied :: "nat \<Rightarrow> bool \<Rightarrow> int \<times> u16 \<Rightarrow> bool" where
  "denied u w = (\<lambda>(owner, mode). u \<noteq> 0 \<and>
     mode AND (if owner = int u then (if w then PERM_OWNER_W else PERM_OWNER_R) else (if w then PERM_OTH_W else PERM_OTH_R)) = 0)"

lemma check_perm_denied:
  "i < form_count s \<Longrightarrow> check_perm (int i) w s = denied (u_cur s) w (fm_owner (form_table s ! i), fm_mode (form_table s ! i))"
  by (simp add: check_perm_def denied_def Let_def)

lemma map_of_forms_update:
  assumes "distinct (map fst es)" and "i < length es" and "fst e = fst (es ! i)"
  shows "map_of (es[i := e]) = (map_of es)(fst e \<mapsto> snd e)"
  using map_of_update_nth [of fst es i e snd] assms by simp

lemma map_of_forms_delete:
  assumes "distinct (map fst es)" and "i < length es"
  shows "map_of (take i es @ drop (i + 1) es) = (map_of es)(fst (es ! i) := None)"
  using map_of_delete_nth [of fst es i snd] assms by simp

text \<open>
  A form behind the last one: the slot is filled in and its text is stored in a block that was not in
  use before.
\<close>

lemma forms_snoc:
  fixes s t s1 :: "'a kfs_scheme"
  assumes r: "forms_rep L s" and room: "form_count s < MAX_FORMS"
    and b: "L a = None" "heap_live (L(a \<mapsto> sz)) s1" "\<forall>b k i. L b = Some k \<and> i < k \<longrightarrow> k_byte s1 (b + i) = k_byte s (b + i)"
    and xs: "length xs \<le> sz"
    and t: "form_table t = (form_table s)[form_count s := f]" "form_count t = form_count s + 1"
      "vmem t = vmem (kheap.sto_list a xs s1)" "heap_first t = heap_first s1"
    and f: "length (fm_name f) = 32" "c_str (fm_name f) \<notin> fst ` set (forms s)" "block_of f = a" "0 \<le> fm_size f"
      "nat (fm_size f) \<le> length xs" "fm_size f < fm_cap f" "fm_cap f \<le> int sz"
  shows "forms_rep (L(a \<mapsto> sz)) t"
    and "forms t = forms s @ [(c_str (fm_name f), take (nat (fm_size f)) xs, fm_owner f, fm_mode f)]"
proof -
  let ?k = "form_count s" and ?L = "L(a \<mapsto> sz)" and ?s2 = "kheap.sto_list a xs s1"
  have lt: "length (form_table s) = MAX_FORMS" and n32: "\<forall>f \<in> set (form_table s). length (fm_name f) = 32"
    using r by (simp_all add: forms_rep_def)
  have ho: "heap_of s1 ?L s1" using b(2) by (simp add: heap_of_def)
  have La: "?L a = Some sz" by simp
  note st = kheap.sto_list_start [OF ho La xs]
  have "?s2\<lparr>vmem := vmem s1\<rparr> = s1" using conjunct1 [OF st] by (simp only: heap_of_def)
  then have "heap_first (?s2\<lparr>vmem := vmem s1\<rparr>) = heap_first s1" by (rule arg_cong)
  then have hf: "heap_first ?s2 = heap_first s1" by simp
  have hl2: "heap_live ?L ?s2" using conjunct1 [OF st] unfolding heap_of_def by (rule conjunct1)
  have kb: "k_byte t = k_byte ?s2" by (rule k_byte_cong [OF t(3)])
  have tk: "take (?k + 1) ((form_table s)[?k := f]) = the_forms s @ [f]"
    using lt room by (simp add: take_Suc_conv_app_nth take_update_cancel)
  have fo: "form_ok L g" if "g \<in> set (the_forms s)" for g using r that by (auto simp: forms_rep_def table_ok_def)
  have fa: "form_ok ?L g \<and> block_of g \<noteq> a" if "g \<in> set (the_forms s)" for g
    using fo [OF that] b(1) by (auto simp: form_ok_def)
  have "table_ok ?L (the_forms s @ [f])"
  proof -
    have "form_ok ?L f" using f by (simp add: form_ok_def)
    moreover have "a \<notin> block_of ` set (the_forms s)" using fa by blast
    then have "distinct (map block_of (the_forms s @ [f]))" using r f(3) by (simp add: forms_rep_def table_ok_def)
    moreover have "c_str (fm_name f) \<notin> set (map (c_str \<circ> fm_name) (the_forms s))"
      using f(2) unfolding forms_names [symmetric] by simp
    then have "distinct (map (c_str \<circ> fm_name) (the_forms s @ [f]))" using r by (simp add: forms_rep_def table_ok_def)
    ultimately show ?thesis using fa by (simp add: table_ok_def)
  qed
  moreover have "heap_live ?L t"
    by (rule heap_live_cong [OF hl2 t(3)]) (simp add: t(4) hf)
  moreover have "\<forall>f \<in> set ((form_table s)[?k := f]). length (fm_name f) = 32"
    by (rule names32_update [OF n32 f(1)])
  ultimately show rep: "forms_rep ?L t" using tk t(1,2) lt room by (simp add: forms_rep_def)
  have "form_view t g = form_view s g" if g: "g \<in> set (the_forms s)" for g
  proof (rule form_view_cong [OF refl refl refl], rule form_text_cong [OF refl refl])
    fix i assume i: "int i < fm_size g"
    obtain k where k: "L (block_of g) = Some k" "fm_size g < int k" using fo [OF g] by (auto simp: form_ok_def)
    have ik: "i < k" using i k(2) by linarith
    have ne: "block_of g \<noteq> a" using fa [OF g] by simp
    then have "?L (block_of g) = Some k" using k(1) by simp
    then have "k_byte ?s2 (block_of g + i) = k_byte s1 (block_of g + i)" using conjunct2 [OF st] ik ne by simp
    also have "\<dots> = k_byte s (block_of g + i)" using b(3) k(1) ik by blast
    finally show "k_byte t (block_of g + i) = k_byte s (block_of g + i)" using kb by simp
  qed
  then have "map (form_view t) (the_forms s) = map (form_view s) (the_forms s)" by simp
  moreover have "form_text t f = take (nat (fm_size f)) xs"
    using f(3,5) conjunct2 [OF st, rule_format, of a sz] xs
    by (intro nth_equalityI) (simp_all add: form_text_def kb)
  then have "form_view t f = (c_str (fm_name f), take (nat (fm_size f)) xs, fm_owner f, fm_mode f)"
    by (simp add: form_view_def)
  ultimately show "forms t = forms s @ [(c_str (fm_name f), take (nat (fm_size f)) xs, fm_owner f, fm_mode f)]"
    using tk t(1,2) by (simp add: forms_def forms_list_def)
qed

text \<open>Changing the slot behind the last form is not visible.\<close>

lemma forms_behind:
  fixes s t :: "'a kfs_scheme"
  assumes r: "forms_rep L s" and t: "form_table t = (form_table s)[form_count s := f]" "form_count t = form_count s"
    "vmem t = vmem s" "heap_first t = heap_first s" "length (fm_name f) = 32"
  shows "forms_rep L t" and "forms t = forms s"
proof -
  have hl: "heap_live L s" and n32: "\<forall>f \<in> set (form_table s). length (fm_name f) = 32" using r by (simp_all add: forms_rep_def)
  have "k_byte t = k_byte s" by (rule k_byte_cong) (simp add: t)
  then show "forms t = forms s"
    by (simp add: forms_def forms_list_def form_view_def [abs_def] form_text_def [abs_def] k_bytes_def t)
  show "forms_rep L t"
    using r names32_update [OF n32 t(5)] heap_live_cong [OF hl t(3,4)] by (simp add: forms_rep_def t)
qed

text \<open>Creating a form.\<close>

lemma mkform_new:
  fixes s :: "'a kusr_scheme"
  assumes r: "forms_rep L s" and n: "form_name_ok n" and new: "find_form n s = None" and room: "form_count s < MAX_FORMS"
  obtains s' where "cmd_mkform n s = Some s'" and "forms_inv s'" and "u_cur s' = u_cur s"
    and "forms s' = (if no_room 1 s then forms s else forms s @ [(n, [], int (u_cur s), PERM_DEFAULT)])"
proof -
  let ?k = "form_count s"
  let ?g = "\<lambda>f. f\<lparr>fm_name := strcpy (fm_name f) n\<rparr>"
  let ?s = "upd_form ?k ?g s"
  have lt: "length (form_table s) = MAX_FORMS" and hl: "heap_live L s" and n32: "\<forall>f \<in> set (form_table s). length (fm_name f) = 32"
    using r by (simp_all add: forms_rep_def)
  have nk: "length (strcpy (fm_name (form_table s ! ?k)) n) = 32" "c_str (strcpy (fm_name (form_table s ! ?k)) n) = n"
    using strcpy_name [OF n] n32 lt room by simp_all
  have c0: "c_at n 0 \<noteq> 0" using n by (cases n) (auto simp: form_name_ok_def c_at_def)
  have hl': "heap_live L ?s" by (rule heap_live_cong [OF hl]) simp_all
  then have hs: "heap_of ?s L ?s" by (simp add: heap_of_def)
  have one: "0 < (1::nat) \<and> (1::nat) \<le> 2 ^ 32 - 4" by simp
  have nr: "no_room 1 s \<longleftrightarrow> kmalloc 1 ?s = Some (0, ?s)"
    using kmalloc_null_iff [OF hl', of 1] room_cong(1) [of ?s s 1] by simp
  from kheap.alloc [OF hs one] show thesis
  proof (elim disjE exE conjE)
    assume "k_alloc 1 ?s = Some (0, ?s)"
    then have k: "kmalloc 1 ?s = Some (0, ?s)" by (auto simp: k_alloc_def unat_eq_zero)
    let ?t = "upd_form ?k (\<lambda>f. f\<lparr>fm_content := 0\<rparr>) ?s"
    have e: "cmd_mkform n s = Some (print_string (cs ''Out of memory.'' @ [10]) ?t)"
      using c0 room new k by (simp add: cmd_mkform_def Let_def)
    have "forms_rep L ?t" "forms ?t = forms s"
      by (rule forms_behind [OF r, of _ "(?g (form_table s ! ?k))\<lparr>fm_content := 0\<rparr>"]; use lt room nk in simp)+
    then show thesis using nr k by (intro that [OF e]) (auto simp: forms_inv_def upd_form_def)
  next
    fix a sz s1
    assume a: "k_alloc 1 ?s = Some (a, s1)" "a \<noteq> 0" "L a = None" "1 \<le> sz" "heap_of ?s (L(a \<mapsto> sz)) s1"
      "\<forall>b k i. L b = Some k \<and> i < k \<longrightarrow> k_byte s1 (b + i) = k_byte ?s (b + i)"
    obtain c where c: "kmalloc 1 ?s = Some (c, s1)" "unat c = a" using a(1) by (auto simp: k_alloc_def)
    have c34: "c \<noteq> 0" "c = of_nat a" using c(2) a(2) by auto
    have fr: "s1\<lparr>vmem := vmem ?s\<rparr> = ?s" using a(5) by (simp add: heap_of_def)
    have f1: "form_table s1 = (form_table s)[?k := ?g (form_table s ! ?k)]" "form_count s1 = ?k" "u_cur s1 = u_cur s"
      using arg_cong [OF fr, of form_table] arg_cong [OF fr, of form_count] arg_cong [OF fr, of u_cur]
      by (simp_all add: upd_form_def)
    let ?f = "(?g (form_table s ! ?k))\<lparr>fm_content := c, fm_size := 0, fm_cap := 1, fm_owner := int (u_cur s), fm_mode := PERM_DEFAULT\<rparr>"
    let ?t1 = "upd_form ?k (\<lambda>f. f\<lparr>fm_content := c\<rparr>) s1"
    let ?t = "(upd_form ?k (\<lambda>f. f\<lparr>fm_size := 0, fm_cap := 1, fm_owner := int (u_cur s), fm_mode := PERM_DEFAULT\<rparr>)
        (?t1\<lparr>vmem := (vmem ?t1)(c := 0)\<rparr>))\<lparr>form_count := ?k + 1\<rparr>"
    have e: "cmd_mkform n s = Some (print_string (cs ''Created.'' @ [10]) ?t)"
      using c0 room new c(1) c34(1) f1(3) by (simp add: cmd_mkform_def Let_def upd_form_def)
    have kb: "k_byte ?s = k_byte s" by (rule k_byte_cong) simp
    have hl1: "heap_live (L(a \<mapsto> sz)) s1" using a(5) by (simp add: heap_of_def)
    have nw: "n \<notin> fst ` set (forms s)" using find_form_None [OF r, of n] new form_name_ok_c [OF n] by simp
    have sn: "forms_rep (L(a \<mapsto> sz)) ?t" "forms ?t = forms s @ [(n, [], int (u_cur s), PERM_DEFAULT)]"
      using forms_snoc [OF r room a(3) hl1 _ _ _ _ _ _ , of "[0]" ?t ?f] a(4,6) kb f1 lt room c(2) c34 nk nw
      by (simp_all add: k_store_def)
    then show thesis using nr c(1) c34(1) f1(3) by (intro that [OF e]) (auto simp: forms_inv_def upd_form_def)
  qed
qed

text \<open>Writing and appending.\<close>

lemma kusr_frame:
  fixes s :: "'a kusr_scheme"
  assumes "s' = s\<lparr>vmem := m, form_table := ft\<rparr>"
  shows "u_cur s' = u_cur s" "form_count s' = form_count s" "u_table s' = u_table s"
  using assms by simp_all

lemma form_store_update:
  fixes s :: "'a kusr_scheme"
  assumes r: "forms_rep L s" and i: "idx < form_count s" and v: "forms s ! idx = (nm, t0, ow, md)"
    and k: "0 \<le> k" "k \<le> fm_size (form_table s ! idx)" and c: "k + int (length t) + 1 \<le> fm_cap (form_table s ! idx)"
  shows "forms_inv (form_store idx k (t @ [0]) (k + int (length t)) s)"
    and "forms (form_store idx k (t @ [0]) (k + int (length t)) s) = (forms s)[idx := (nm, take (nat k) t0 @ t, ow, md)]"
    and "u_cur (form_store idx k (t @ [0]) (k + int (length t)) s) = u_cur s"
    and "\<forall>i \<le> length t. vmem (form_store idx k (t @ [0]) (k + int (length t)) s) (fm_content (form_table s ! idx) + of_int k + of_nat i) = (t @ [0]) ! i"
proof -
  let ?s = "form_store idx k (t @ [0]) (k + int (length t)) s"
  let ?f = "form_table s ! idx"
  have f: "0 \<le> fm_size ?f" "fm_size ?f < fm_cap ?f" using forms_rep_ok [OF r i] unfolding form_ok_def by blast+
  have st: "forms_rep L ?s \<and> forms ?s = (forms s)[idx :=
    (case forms s ! idx of (nm, t1, ow, md) \<Rightarrow> (nm, map (\<lambda>i. if k \<le> int i \<and> int i < k + int (length (t @ [0])) then (t @ [0]) ! (i - nat k)
       else k_byte s (block_of ?f + i)) [0..<nat (k + int (length t))], ow, md))] \<and>
    (\<forall>i < length (t @ [0]). k_byte ?s (block_of ?f + (nat k + i)) = (t @ [0]) ! i)"
    by (rule form_store_ok [OF r i]) (use k c in simp_all)
  then show "forms_inv ?s" by (auto simp: forms_inv_def)
  have "t0 = form_text s ?f" using v forms_nth [OF r i] by (simp add: form_view_def)
  then have "map (\<lambda>i. if k \<le> int i \<and> int i < k + int (length (t @ [0])) then (t @ [0]) ! (i - nat k)
       else k_byte s (block_of ?f + i)) [0..<nat (k + int (length t))] = take (nat k) t0 @ t"
    using k by (intro nth_equalityI) (auto simp: form_text_def nth_append)
  with st v show "forms ?s = (forms s)[idx := (nm, take (nat k) t0 @ t, ow, md)]" by simp
  show "u_cur ?s = u_cur s" by (simp add: form_store_def upd_form_def)
  show "\<forall>i \<le> length t. vmem ?s (fm_content ?f + of_int k + of_nat i) = (t @ [0]) ! i"
  proof (intro allI impI)
    fix i assume "i \<le> length t"
    then have "k_byte ?s (block_of ?f + (nat k + i)) = (t @ [0]) ! i" using st by simp
    moreover have "(of_nat (block_of ?f + (nat k + i)) :: u32) = fm_content ?f + of_int k + of_nat i"
      using k(1) of_int_of_nat_eq [of "nat k", where 'a = "32 word"] by simp
    ultimately show "vmem ?s (fm_content ?f + of_int k + of_nat i) = (t @ [0]) ! i" by (simp add: k_byte_def add.assoc)
  qed
qed

lemma write_ok:
  fixes s :: "'a kusr_scheme"
  assumes r: "forms_rep L s" and n: "form_name_ok n" and t: "form_text_ok t" and fi: "find_form n s = Some idx"
    and pm: "\<not> check_perm (int idx) True s"
  obtains (full) "cmd_write (n @ 32 # t) s = Some (print_string (cs ''Out of memory.'' @ [10]) s)"
      and "fm_cap (form_table s ! idx) < int (length t) + 1 \<and> no_room (length t + 1025) s"
  | (ok) s' ow md t0 where "cmd_write (n @ 32 # t) s = Some (print_string (cs ''Written.'' @ [10]) s')" and "forms_inv s'" and "u_cur s' = u_cur s"
      and "forms s ! idx = (n, t0, ow, md)" and "forms s' = (forms s)[idx := (n, t, ow, md)]"
      and "mem_str (vmem s') (fm_content (form_table s' ! idx)) = Some t" and "form_count s' = form_count s"
      and "\<not> (fm_cap (form_table s ! idx) < int (length t) + 1 \<and> no_room (length t + 1025) s)"
proof -
  note i = find_form_Some [OF fi]
  have n0: "n \<noteq> []" using n by (simp add: form_name_ok_def)
  have t31: "int (length t) + 1 \<le> 2 ^ 31" using t by (simp add: form_text_ok_def)
  have need: "nat (int (length t) + 1 + 1024) = length t + 1025" by simp
  obtain t0 ow md where v: "forms s ! idx = (n, t0, ow, md)"
    using forms_nth [OF r i(1)] i(2) form_name_ok_c [OF n] by (simp add: form_view_def)
  show thesis
  proof (cases rule: form_ensure_cap_ok [OF r i(1) t31])
    case 1
    then have "cmd_write (n @ 32 # t) s = Some (print_string (cs ''Out of memory.'' @ [10]) s)"
      using split_args_ok [OF n t] n0 fi pm by (simp add: cmd_write_def)
    then show thesis by (rule full) (use 1 need in simp)
  next
    case (2 L' s1)
    note fr = kusr_frame [OF 2(6)]
    have i1: "idx < form_count s1" using i(1) fr by simp
    let ?s = "form_store idx 0 (t @ [0]) (0 + int (length t)) s1"
    have f0: "0 \<le> fm_size (form_table s1 ! idx)" using forms_rep_ok [OF 2(2) i1] by (simp add: form_ok_def)
    have c1: "0 + int (length t) + 1 \<le> fm_cap (form_table s1 ! idx)" using 2(4) by simp
    have v1: "forms s1 ! idx = (n, t0, ow, md)" using v 2(3) by simp
    note u = form_store_update [OF 2(2) i1 v1 order_refl f0 c1]
    have e: "cmd_write (n @ 32 # t) s = Some (print_string (cs ''Written.'' @ [10]) ?s)"
      using split_args_ok [OF n t] n0 fi pm 2(1) by (simp add: cmd_write_def form_store_def)
    have "fm_content (form_table ?s ! idx) = fm_content (form_table s1 ! idx)"
      using i1 2(2) by (simp add: form_store_def forms_rep_def)
    moreover have "mem_str (vmem ?s) (fm_content (form_table s1 ! idx)) = Some t"
    proof (rule mem_str_eq)
      show "\<forall>i < length t. vmem ?s (fm_content (form_table s1 ! idx) + of_nat i) = t ! i"
        using u(4) by (auto simp: nth_append)
      show "vmem ?s (fm_content (form_table s1 ! idx) + of_nat (length t)) = 0"
        using u(4) [rule_format, of "length t"] by simp
    qed (use t in \<open>simp add: form_text_ok_def\<close>)
    ultimately show thesis
      using ok [OF e u(1) _ v] u(2,3) fr 2(3,7) need by (auto simp: form_store_def)
  qed
qed

lemma append_ok:
  fixes s :: "'a kusr_scheme"
  assumes r: "forms_rep L s" and n: "form_name_ok n" and t: "form_text_ok t" and fi: "find_form n s = Some idx"
    and pm: "\<not> check_perm (int idx) True s"
  obtains (full) "cmd_append (n @ 32 # t) s = Some (print_string (cs ''Out of memory.'' @ [10]) s)"
      and "fm_cap (form_table s ! idx) < fm_size (form_table s ! idx) + int (length t) + 1 \<and>
        no_room (nat (fm_size (form_table s ! idx)) + length t + 1025) s"
  | (ok) s' ow md t0 where "cmd_append (n @ 32 # t) s = Some (print_string (cs ''Appended.'' @ [10]) s')" and "forms_inv s'" and "u_cur s' = u_cur s"
      and "forms s ! idx = (n, t0, ow, md)" and "forms s' = (forms s)[idx := (n, t0 @ t, ow, md)]" and "form_count s' = form_count s"
      and "\<not> (fm_cap (form_table s ! idx) < fm_size (form_table s ! idx) + int (length t) + 1 \<and>
        no_room (nat (fm_size (form_table s ! idx)) + length t + 1025) s)"
proof -
  note i = find_form_Some [OF fi]
  let ?f = "form_table s ! idx"
  have n0: "n \<noteq> []" using n by (simp add: form_name_ok_def)
  obtain sz where f: "0 \<le> fm_size ?f" "fm_size ?f < fm_cap ?f" "L (block_of ?f) = Some sz" "fm_cap ?f \<le> int sz"
    using forms_rep_ok [OF r i(1)] unfolding form_ok_def by blast
  have "heap_live L s" using r by (simp add: forms_rep_def)
  then have "int sz \<le> 0x900000" using heap_live_range(2) [of L s "block_of ?f" sz] f(3) by simp
  then have t31: "fm_size ?f + int (length t) + 1 \<le> 2 ^ 31" using t f by (simp add: form_text_ok_def)
  have need: "nat (fm_size ?f + int (length t) + 1 + 1024) = nat (fm_size ?f) + length t + 1025" using f(1) by simp
  obtain t0 ow md where v: "forms s ! idx = (n, t0, ow, md)" and l0: "length t0 = nat (fm_size ?f)"
    using forms_nth [OF r i(1)] i(2) form_name_ok_c [OF n] by (simp add: form_view_def form_text_def)
  show thesis
  proof (cases rule: form_ensure_cap_ok [OF r i(1) t31])
    case 1
    then have "cmd_append (n @ 32 # t) s = Some (print_string (cs ''Out of memory.'' @ [10]) s)"
      using split_args_ok [OF n t] n0 fi pm by (simp add: cmd_append_def Let_def)
    then show thesis by (rule full) (use 1 need in simp)
  next
    case (2 L' s1)
    note fr = kusr_frame [OF 2(6)]
    have i1: "idx < form_count s1" using i(1) fr by simp
    let ?s = "form_store idx (fm_size ?f) (t @ [0]) (fm_size ?f + int (length t)) s1"
    have fs: "fm_size ?f \<le> fm_size (form_table s1 ! idx)" using 2(5) by simp
    have v1: "forms s1 ! idx = (n, t0, ow, md)" using v 2(3) by simp
    note u = form_store_update [OF 2(2) i1 v1 f(1) fs 2(4)]
    have e: "cmd_append (n @ 32 # t) s = Some (print_string (cs ''Appended.'' @ [10]) ?s)"
      using split_args_ok [OF n t] n0 fi pm 2(1) by (simp add: cmd_append_def form_store_def Let_def)
    show thesis
      using ok [OF e u(1) _ v] u(2,3) fr 2(3,7) l0 need by (auto simp: form_store_def)
  qed
qed

text \<open>Deleting.\<close>

lemma table_ok_delete:
  assumes "table_ok L (xs @ f # ys)"
  shows "table_ok (L(block_of f := None)) (xs @ ys)" and "\<forall>g \<in> set (xs @ ys). block_of g \<noteq> block_of f \<and> form_ok L g"
proof -
  have "block_of f \<notin> block_of ` set (xs @ ys)" using assms by (simp add: table_ok_def image_Un)
  then have "\<forall>g \<in> set (xs @ ys). block_of g \<noteq> block_of f" by (metis image_eqI)
  then show nb: "\<forall>g \<in> set (xs @ ys). block_of g \<noteq> block_of f \<and> form_ok L g" using assms by (simp add: table_ok_def)
  then show "table_ok (L(block_of f := None)) (xs @ ys)"
    using assms by (auto simp: table_ok_def form_ok_def)
qed

lemma delete_ok:
  fixes s :: "'a kusr_scheme"
  assumes r: "forms_rep L s" and fi: "find_form n s = Some idx" and pm: "\<not> check_perm (int idx) True s"
  obtains s' where "cmd_delete n s = Some (print_string (cs ''Deleted.'' @ [10]) s')" and "forms_inv s'" and "u_cur s' = u_cur s"
    and "forms s' = take idx (forms s) @ drop (idx + 1) (forms s)" and "form_count s' = form_count s - 1"
proof -
  note i = find_form_Some [OF fi]
  let ?f = "form_table s ! idx"
  obtain sz where f: "L (block_of ?f) = Some sz" using forms_rep_ok [OF r i(1)] unfolding form_ok_def by blast
  have hl: "heap_live L s" and lt: "length (form_table s) = MAX_FORMS" "form_count s \<le> MAX_FORMS" using r by (simp_all add: forms_rep_def)
  have c0: "fm_content ?f \<noteq> 0" using heap_live_range(1) [OF hl f] by auto
  obtain m where m: "kfree (of_nat (block_of ?f)) s = Some (s\<lparr>vmem := m\<rparr>)" "heap_live (L(block_of ?f := None)) (s\<lparr>vmem := m\<rparr>)"
    "\<forall>b k i. b \<noteq> block_of ?f \<and> L b = Some k \<and> i < k \<longrightarrow> m (of_nat (b + i)) = vmem s (of_nat (b + i))"
    using kfree_live [OF hl f] by blast
  let ?t = "fold (\<lambda>i t. t[i := t ! (i + 1)]) [idx..<form_count s - 1] (form_table s)"
  let ?s = "s\<lparr>vmem := m, form_table := ?t, form_count := form_count s - 1\<rparr>"
  have e: "cmd_delete n s = Some (print_string (cs ''Deleted.'' @ [10]) ?s)"
    using fi pm m(1) c0 by (simp add: cmd_delete_def)
  have sh: "length ?t = MAX_FORMS" "take (form_count s - 1) ?t = take idx (the_forms s) @ drop (idx + 1) (the_forms s)"
    and nth: "?t ! j = (if idx \<le> j \<and> j < form_count s - 1 then form_table s ! (j + 1) else form_table s ! j)" if "j < MAX_FORMS" for j
    using shift_down [of "form_count s" "form_table s" idx] shift_down_take [of idx "form_count s" "form_table s"] i(1) lt that by auto
  have l1: "length ?t = MAX_FORMS" "take (form_count s - 1) ?t = take idx (the_forms s) @ drop (idx + 1) (the_forms s)"
    using sh [of 0] by simp_all
  have ia: "idx < length (the_forms s)" using i(1) lt by simp
  have split: "the_forms s = take idx (the_forms s) @ ?f # drop (idx + 1) (the_forms s)"
    using id_take_nth_drop [OF ia] i(1) by simp
  let ?r = "take idx (the_forms s) @ drop (idx + 1) (the_forms s)"
  have ok: "table_ok L (take idx (the_forms s) @ ?f # drop (idx + 1) (the_forms s))"
    using r split by (simp add: forms_rep_def)
  note del = table_ok_delete [OF ok]
  have nb: "block_of g \<noteq> block_of ?f" and okr: "form_ok L g" if "g \<in> set ?r" for g using del(2) that by blast+
  note del(1)
  moreover have "heap_live (L(block_of ?f := None)) ?s" by (rule heap_live_cong [OF m(2)]) simp_all
  moreover have "\<forall>g \<in> set ?t. length (fm_name g) = 32"
  proof
    fix g assume "g \<in> set ?t"
    then obtain j where "j < MAX_FORMS" "g = ?t ! j" using l1(1) by (auto simp: in_set_conv_nth)
    moreover from this have "?t ! j \<in> set (form_table s)" using nth [of j] lt by (auto split: if_splits)
    ultimately show "length (fm_name g) = 32" using r by (simp add: forms_rep_def)
  qed
  ultimately have rep: "forms_rep (L(block_of ?f := None)) ?s" using l1 lt by (simp add: forms_rep_def)
  have "form_view ?s g = form_view s g" if g: "g \<in> set ?r" for g
  proof (rule form_view_cong [OF refl refl refl], rule form_text_cong [OF refl refl])
    fix j assume j: "int j < fm_size g"
    obtain k where k: "L (block_of g) = Some k" "fm_size g < int k" using okr [OF g] by (auto simp: form_ok_def)
    then have "j < k" using j by linarith
    then show "k_byte ?s (block_of g + j) = k_byte s (block_of g + j)"
      using m(3) [rule_format, of "block_of g" k j] k(1) nb [OF g] by (simp add: k_byte_def)
  qed
  then have "map (form_view ?s) ?r = map (form_view s) ?r" by (rule map_cong [OF refl])
  then have fl: "forms ?s = take idx (forms s) @ drop (idx + 1) (forms s)"
    using l1(2) by (simp add: forms_def forms_list_def take_map drop_map)
  have "forms_inv ?s" using rep unfolding forms_inv_def by blast
  then show thesis by (rule that [OF e _ _ fl]) simp_all
qed

text \<open>Changing the mode of a form, given in decimal digits.\<close>

lemma setmode_args:
  assumes "form_name_ok n"
  shows "split_args 15 31 (itoa (ucast (m :: u16)) 10 @ 32 # n) = (itoa (ucast m) 10, n)" and "itoa (ucast m) 10 \<noteq> []"
proof -
  let ?d = "itoa (ucast m) 10"
  have d: "32 \<notin> set ?d" "0 \<notin> set ?d" using itoa_chars by blast+
  have c: "c_str (?d @ 32 # n) = ?d @ 32 # n" using assms d by (intro c_str_id) (auto simp: form_name_ok_def)
  have "takeWhile (\<lambda>c. c \<noteq> 32) (?d @ 32 # n) = ?d" using d by (subst takeWhile_append2) auto
  moreover have "dropWhile (\<lambda>c. c = 32) (32 # n) = n" using assms by (cases n) (auto simp: form_name_ok_def)
  ultimately show "split_args 15 31 (?d @ 32 # n) = (?d, n)"
    using assms c length_itoa_10 [of "ucast m"] by (simp add: split_args_def form_name_ok_def)
  show "?d \<noteq> []" by (rule itoa_nonempty)
qed

lemma setmode_ok:
  fixes s :: "'a kusr_scheme"
  assumes r: "forms_rep L s" and n: "form_name_ok n" and fi: "find_form n s = Some idx"
    and ow: "u_cur s = 0 \<or> fm_owner (form_table s ! idx) = int (u_cur s)"
  obtains s' where "cmd_setmode (itoa (ucast md) 10 @ 32 # n) s = print_string (cs ''Mode changed.'' @ [10]) s'" and "forms_inv s'"
    and "u_cur s' = u_cur s" and "forms s' = (forms s)[idx := (case forms s ! idx of (nm, t, ow, _) \<Rightarrow> (nm, t, ow, md))]"
proof -
  note i = find_form_Some [OF fi]
  let ?g = "\<lambda>f. f\<lparr>fm_mode := md\<rparr>" and ?f = "form_table s ! idx"
  let ?s = "upd_form idx ?g s"
  have lt: "length (form_table s) = MAX_FORMS" "form_count s \<le> MAX_FORMS" and hl: "heap_live L s" using r by (simp_all add: forms_rep_def)
  have m: "of_int (atoi (itoa (ucast md :: u32) 10)) = md"
  proof -
    have l: "unat md < 2 ^ 16" using unsigned_less [of md, where 'a = nat] by simp
    then have u: "unat (ucast md :: u32) = unat md" by (simp add: unsigned_ucast_eq take_bit_nat_eq_self)
    then have "to_int (ucast md :: u32) = int (unat md)" using l by (subst to_int_small) simp_all
    then show ?thesis by (simp add: atoi_itoa)
  qed
  have e: "cmd_setmode (itoa (ucast md) 10 @ 32 # n) s = print_string (cs ''Mode changed.'' @ [10]) ?s"
    using setmode_args [OF n] fi ow m n by (auto simp: cmd_setmode_def form_name_ok_def)
  have tk: "the_forms ?s = (the_forms s)[idx := ?g ?f]" by (simp add: take_update_swap)
  have "table_ok L ((the_forms s)[idx := ?g ?f])"
  proof (rule table_ok_replace)
    show "table_ok L (the_forms s)" using r by (simp add: forms_rep_def)
    show "form_ok L (?g ?f)" using forms_rep_ok [OF r i(1)] by (simp add: form_ok_def)
    fix j assume "j < length (the_forms s)" "j \<noteq> idx"
    then show "L (block_of (the_forms s ! j)) = L (block_of (the_forms s ! j)) \<and> block_of (?g ?f) \<noteq> block_of (the_forms s ! j)"
      using forms_rep_blocks [OF r _ i(1), of j] lt by auto
  qed (use i lt in simp_all)
  moreover have "heap_live L ?s" by (rule heap_live_cong [OF hl]) simp_all
  moreover have "\<forall>f \<in> set (form_table ?s). length (fm_name f) = 32"
    using names32_update [of "form_table s" "?g ?f" idx] r i lt by (simp add: forms_rep_def)
  ultimately have rep: "forms_rep L ?s" using tk lt by (simp add: forms_rep_def)
  have kb: "k_byte ?s = k_byte s" by (rule k_byte_cong) simp
  have fv: "form_view ?s = form_view s" by (rule ext) (simp add: form_view_def form_text_def k_bytes_def kb)
  have "form_view s (?g ?f) = (case form_view s ?f of (nm, t, ow, _) \<Rightarrow> (nm, t, ow, md))"
    by (simp add: form_view_def form_text_def)
  then have "forms ?s = (forms s)[idx := (case forms s ! idx of (nm, t, ow, _) \<Rightarrow> (nm, t, ow, md))]"
    using forms_nth [OF r i(1)] tk lt i(1) by (simp add: forms_def forms_list_def fv map_update)
  moreover have "u_cur ?s = u_cur s" by (simp add: upd_form_def)
  ultimately show thesis using that [OF e] rep unfolding forms_inv_def by auto
qed

text \<open>
  The commands that change the table, and what they mean for a map from names to texts, owners and
  modes.  The texts and names are typed words, the mode is typed in decimal digits.
\<close>

datatype form_cmd = Mkform bytes | Write bytes bytes | Append bytes bytes | Delete bytes | Setmode u16 bytes

fun form_cmd_ok :: "form_cmd \<Rightarrow> bool" where
  "form_cmd_ok (Mkform n) = form_name_ok n"
| "form_cmd_ok (Write n t) = (form_name_ok n \<and> form_text_ok t)"
| "form_cmd_ok (Append n t) = (form_name_ok n \<and> form_text_ok t)"
| "form_cmd_ok (Delete n) = form_name_ok n"
| "form_cmd_ok (Setmode m n) = form_name_ok n"

fun run_form :: "form_cmd \<Rightarrow> 'a kusr_scheme \<Rightarrow> 'a kusr_scheme option" where
  "run_form (Mkform n) s = cmd_mkform n s"
| "run_form (Write n t) s = cmd_write (n @ 32 # t) s"
| "run_form (Append n t) s = cmd_append (n @ 32 # t) s"
| "run_form (Delete n) s = cmd_delete n s"
| "run_form (Setmode m n) s = Some (cmd_setmode (itoa (ucast m) 10 @ 32 # n) s)"

type_synonym form_spec = "bytes \<rightharpoonup> bytes \<times> int \<times> u16"

definition spec_change :: "nat \<Rightarrow> bytes \<Rightarrow> (bytes \<Rightarrow> bytes option) \<Rightarrow> form_spec \<Rightarrow> form_spec" where
  "spec_change u n g M =
     (case M n of None \<Rightarrow> M
      | Some (t, om) \<Rightarrow> if denied u True om then M else M(n := map_option (\<lambda>t'. (t', om)) (g t)))"

fun spec_form :: "nat \<Rightarrow> bool \<Rightarrow> form_cmd \<Rightarrow> form_spec \<Rightarrow> form_spec" where
  "spec_form u room (Mkform n) M = (if M n \<noteq> None \<or> \<not> room then M else M(n \<mapsto> ([], int u, PERM_DEFAULT)))"
| "spec_form u room (Write n t) M = spec_change u n (\<lambda>_. Some t) M"
| "spec_form u room (Append n t) M = spec_change u n (\<lambda>t0. Some (t0 @ t)) M"
| "spec_form u room (Delete n) M = spec_change u n (\<lambda>_. None) M"
| "spec_form u room (Setmode m n) M =
     (case M n of None \<Rightarrow> M | Some (t, ow, _) \<Rightarrow> if u \<noteq> 0 \<and> ow \<noteq> int u then M else M(n \<mapsto> (t, ow, m)))"

text \<open>
  When a command is refused for lack of memory: a new form needs a block of one byte; a text that does
  not fit the capacity of its form, with its NUL, needs a block of 1024 bytes more than this.
\<close>

fun refused :: "form_cmd \<Rightarrow> 'a kfs_scheme \<Rightarrow> bool" where
  "refused (Mkform n) s = no_room 1 s"
| "refused (Write n t) s =
     (\<exists>f \<in> set (the_forms s). c_str (fm_name f) = n \<and> fm_cap f < int (length t) + 1 \<and> no_room (length t + 1025) s)"
| "refused (Append n t) s =
     (\<exists>f \<in> set (the_forms s). c_str (fm_name f) = n \<and> fm_cap f < fm_size f + int (length t) + 1 \<and>
        no_room (nat (fm_size f) + length t + 1025) s)"
| "refused (Delete n) s = False"
| "refused (Setmode m n) s = False"

text \<open>One command, started in a well-formed state, refines its abstract operation.\<close>

definition refines_form :: "form_cmd \<Rightarrow> 'a kusr_scheme \<Rightarrow> bool" where
  "refines_form c s \<longleftrightarrow> (\<exists>s'. run_form c s = Some s' \<and> forms_inv s' \<and> u_cur s' = u_cur s \<and>
    form_map s' = (if refused c s then form_map s else spec_form (u_cur s) (form_count s < 64) c (form_map s)))"

lemma forms_inv_print [simp]:
  fixes s :: "'a kusr_scheme"
  shows "forms_inv (print_string t s) = forms_inv s" "forms_inv (print_color t k s) = forms_inv s"
    "form_map (print_string t s) = form_map s" "form_map (print_color t k s) = form_map s"
  by (simp_all add: forms_inv_def form_map_def)

lemma refines_formI:
  fixes s :: "'a kusr_scheme"
  assumes "run_form c s = Some (print_string msg s')" and "forms_inv s'" and "u_cur s' = u_cur s" and "\<not> refused c s"
    and "form_map s' = spec_form (u_cur s) (form_count s < 64) c (form_map s)"
  shows "refines_form c s"
  using assms unfolding refines_form_def by simp

text \<open>A command that only prints, because it has nothing to do or is refused for lack of memory.\<close>

lemma refines_form_print:
  fixes s :: "'a kusr_scheme"
  assumes "forms_inv s" and "spec_form (u_cur s) (form_count s < 64) c (form_map s) = form_map s \<or> refused c s"
    and "run_form c s = Some s'" and "con_frame s s'"
  shows "refines_form c s"
  using assms forms_con_frame [OF assms(4)] con_frame_fields [OF assms(4)] unfolding refines_form_def
  by (auto simp: forms_inv_def form_map_def)

text \<open>The form that a name selects is the only one with this name.\<close>

lemma the_form_unique:
  assumes r: "forms_rep L s" and fi: "find_form n s = Some i" and n: "form_name_ok n"
  shows "(\<exists>f \<in> set (the_forms s). c_str (fm_name f) = n \<and> P f) \<longleftrightarrow> P (form_table s ! i)"
proof -
  note f = find_form_Some [OF fi]
  have l: "i < length (the_forms s)" using r f(1) by (simp add: forms_rep_def)
  have d: "distinct (map (c_str \<circ> fm_name) (the_forms s))" using r by (simp add: forms_rep_def table_ok_def)
  have cn: "c_str (fm_name (the_forms s ! i)) = n" using f form_name_ok_c [OF n] by simp
  have "g = the_forms s ! i" if "g \<in> set (the_forms s)" "c_str (fm_name g) = n" for g
    using d that cn nth_mem [OF l] by (auto simp: distinct_map inj_on_def)
  then show ?thesis using cn nth_mem [OF l] f(1) by (metis nth_take)
qed

lemma spec_change_None:
  assumes "forms_rep L s" and "find_form n s = None" and "form_name_ok n"
  shows "spec_change u n g (form_map s) = form_map s"
  using find_form_map [OF assms(1), of n] form_name_ok_c [OF assms(3)] assms(2) by (simp add: spec_change_def)

lemma spec_change_Some:
  assumes r: "forms_rep L s" and fi: "find_form n s = Some i" and n: "form_name_ok n"
  shows "spec_change (u_cur s) n g (form_map s) = (if check_perm (int i) True s then form_map s else
      (form_map s)(n := map_option (\<lambda>t'. (t', snd (snd (forms s ! i)))) (g (fst (snd (forms s ! i))))))"
    and "i < length (forms s)" and "fst (forms s ! i) = n"
proof -
  have f: "i < form_count s" "fst (forms s ! i) = n" "form_map s n = Some (snd (forms s ! i))"
    using find_form_map [OF r, of n] form_name_ok_c [OF n] fi by simp_all
  then show "i < length (forms s)" "fst (forms s ! i) = n" using length_forms [OF r] by simp_all
  have "snd (snd (forms s ! i)) = (fm_owner (form_table s ! i), fm_mode (form_table s ! i))"
    using forms_nth [OF r f(1)] by (simp add: form_view_def)
  then show "spec_change (u_cur s) n g (form_map s) = (if check_perm (int i) True s then form_map s else
      (form_map s)(n := map_option (\<lambda>t'. (t', snd (snd (forms s ! i)))) (g (fst (snd (forms s ! i))))))"
    using f(3) check_perm_denied [OF f(1), of True] by (auto simp: spec_change_def split: prod.splits)
qed

lemma refines_mkform:
  fixes s :: "'a kusr_scheme"
  assumes r: "forms_rep L s" and n: "form_name_ok n"
  shows "refines_form (Mkform n) s"
proof (cases "form_count s < 64 \<and> find_form n s = None")
  case True
  then have rm: "form_count s < MAX_FORMS" and fn: "find_form n s = None" by simp_all
  obtain s' where s': "cmd_mkform n s = Some s'" "forms_inv s'" "u_cur s' = u_cur s"
    "forms s' = (if no_room 1 s then forms s else forms s @ [(n, [], int (u_cur s), PERM_DEFAULT)])"
    by (rule mkform_new [OF r n fn rm])
  have nw: "n \<notin> fst ` set (forms s)" using find_form_None [OF r, of n] fn form_name_ok_c [OF n] by simp
  have "form_map s' = (if no_room 1 s then form_map s else (form_map s)(n \<mapsto> ([], int (u_cur s), PERM_DEFAULT)))"
    using s'(4) map_of_snoc [OF nw] by (simp add: form_map_def)
  then show ?thesis using s'(1-3) rm fn find_form_map [OF r, of n] form_name_ok_c [OF n] by (auto simp: refines_form_def)
next
  case False
  have "c_at n 0 \<noteq> 0" using n by (cases n) (auto simp: form_name_ok_def c_at_def)
  then have "\<exists>t. cmd_mkform n s = Some (print_string t s)" using False by (auto simp: cmd_mkform_def)
  moreover have "form_map s n \<noteq> None \<or> \<not> form_count s < 64"
    using False find_form_map [OF r, of n] form_name_ok_c [OF n] by (cases "find_form n s") auto
  then have "spec_form (u_cur s) (form_count s < 64) (Mkform n) (form_map s) = form_map s" by (simp only: spec_form.simps if_True)
  moreover have "forms_inv s" using r unfolding forms_inv_def by blast
  ultimately show ?thesis using refines_form_print [OF _ _ _ con_frame_print_string, of s "Mkform n"] by auto
qed

lemma refines_write:
  fixes s :: "'a kusr_scheme"
  assumes r: "forms_rep L s" and n: "form_name_ok n" and t: "form_text_ok t"
  shows "refines_form (Write n t) s"
proof -
  have sp: "split_args 31 2047 (n @ 32 # t) = (n, t)" "n \<noteq> []" using split_args_ok [OF n t] n by (simp_all add: form_name_ok_def)
  have inv: "forms_inv s" using r unfolding forms_inv_def by blast
  show ?thesis
  proof (cases "find_form n s")
    case None
    then have "run_form (Write n t) s = Some (print_string (cs ''Form not found. Use mkform first.'' @ [10]) s)" using sp by (simp add: cmd_write_def)
    then show ?thesis by (rule refines_form_print [OF inv _ _ con_frame_print_string, rotated]) (use spec_change_None [OF r None n] in simp)
  next
    case (Some i)
    note sc = spec_change_Some [OF r Some n] and rf = the_form_unique [OF r Some n]
    show ?thesis
    proof (cases "check_perm (int i) True s")
      case True
      then have "run_form (Write n t) s = Some (print_color permission_denied 0x0C s)" using sp Some by (simp add: cmd_write_def)
      then show ?thesis by (rule refines_form_print [OF inv _ _ con_frame_print_color, rotated]) (use sc(1) True in simp)
    next
      case False
      then show ?thesis
      proof (cases rule: write_ok [OF r n t Some False])
        case 1
        then show ?thesis by (intro refines_form_print [OF inv _ _ con_frame_print_string]) (simp_all add: rf)
      next
        case (2 s' ow md t0)
        have "form_map s' = (form_map s)(n \<mapsto> (t, ow, md))"
          using 2(4,5) map_of_forms_update [OF forms_distinct [OF r] sc(2), of "(n, t, ow, md)"] sc(3) by (simp add: form_map_def)
        then show ?thesis using 2 sc(1) False by (intro refines_formI) (simp_all add: rf)
      qed
    qed
  qed
qed

lemma refines_append:
  fixes s :: "'a kusr_scheme"
  assumes r: "forms_rep L s" and n: "form_name_ok n" and t: "form_text_ok t"
  shows "refines_form (Append n t) s"
proof -
  have sp: "split_args 31 2047 (n @ 32 # t) = (n, t)" "n \<noteq> []" using split_args_ok [OF n t] n by (simp_all add: form_name_ok_def)
  have inv: "forms_inv s" using r unfolding forms_inv_def by blast
  show ?thesis
  proof (cases "find_form n s")
    case None
    then have "run_form (Append n t) s = Some (print_string (form_not_found) s)" using sp by (simp add: cmd_append_def)
    then show ?thesis by (rule refines_form_print [OF inv _ _ con_frame_print_string, rotated]) (use spec_change_None [OF r None n] in simp)
  next
    case (Some i)
    note sc = spec_change_Some [OF r Some n] and rf = the_form_unique [OF r Some n]
    show ?thesis
    proof (cases "check_perm (int i) True s")
      case True
      then have "run_form (Append n t) s = Some (print_color permission_denied 0x0C s)" using sp Some by (simp add: cmd_append_def)
      then show ?thesis by (rule refines_form_print [OF inv _ _ con_frame_print_color, rotated]) (use sc(1) True in simp)
    next
      case False
      then show ?thesis
      proof (cases rule: append_ok [OF r n t Some False])
        case 1
        then show ?thesis by (intro refines_form_print [OF inv _ _ con_frame_print_string]) (simp_all add: rf)
      next
        case (2 s' ow md t0)
        have "form_map s' = (form_map s)(n \<mapsto> (t0 @ t, ow, md))"
          using 2(4,5) map_of_forms_update [OF forms_distinct [OF r] sc(2), of "(n, t0 @ t, ow, md)"] sc(3) by (simp add: form_map_def)
        then show ?thesis using 2 sc(1) False by (intro refines_formI) (simp_all add: rf)
      qed
    qed
  qed
qed

lemma refines_delete:
  fixes s :: "'a kusr_scheme"
  assumes r: "forms_rep L s" and n: "form_name_ok n"
  shows "refines_form (Delete n) s"
proof -
  have inv: "forms_inv s" using r unfolding forms_inv_def by blast
  show ?thesis
  proof (cases "find_form n s")
    case None
    then have "run_form (Delete n) s = Some (print_string form_not_found s)" by (simp add: cmd_delete_def)
    then show ?thesis using spec_change_None [OF r None n]
      by (intro refines_form_print [OF inv _ _ con_frame_print_string]) simp_all
  next
    case (Some i)
    note sc = spec_change_Some [OF r Some n]
    show ?thesis
    proof (cases "check_perm (int i) True s")
      case True
      then have "run_form (Delete n) s = Some (print_color permission_denied 0x0C s)" using Some by (simp add: cmd_delete_def)
      then show ?thesis using sc(1) True by (intro refines_form_print [OF inv _ _ con_frame_print_color]) simp_all
    next
      case False
      obtain s' where s': "cmd_delete n s = Some (print_string (cs ''Deleted.'' @ [10]) s')" "forms_inv s'" "u_cur s' = u_cur s"
        "forms s' = take i (forms s) @ drop (i + 1) (forms s)" by (rule delete_ok [OF r Some False])
      have "form_map s' = (form_map s)(n := None)"
        using s'(4) map_of_forms_delete [OF forms_distinct [OF r] sc(2)] sc(3) by (simp add: form_map_def)
      then show ?thesis using s' sc(1) False by (intro refines_formI) simp_all
    qed
  qed
qed

lemma refines_setmode:
  fixes s :: "'a kusr_scheme"
  assumes r: "forms_rep L s" and n: "form_name_ok n"
  shows "refines_form (Setmode m n) s"
proof -
  have inv: "forms_inv s" using r unfolding forms_inv_def by blast
  have ne: "itoa (ucast m :: u32) 10 \<noteq> []" "n \<noteq> []" using setmode_args(2) n by (simp_all add: form_name_ok_def)
  note sp = setmode_args(1) [OF n, of m]
  show ?thesis
  proof (cases "find_form n s")
    case None
    then have "run_form (Setmode m n) s = Some (print_string (cs ''Not found.'' @ [10]) s)" using sp ne by (simp add: cmd_setmode_def)
    moreover have "form_map s n = None" using find_form_map [OF r, of n] form_name_ok_c [OF n] None by simp
    ultimately show ?thesis by (intro refines_form_print [OF inv _ _ con_frame_print_string]) simp_all
  next
    case (Some i)
    have f: "i < form_count s" "fst (forms s ! i) = n" "form_map s n = Some (snd (forms s ! i))"
      using find_form_map [OF r, of n] form_name_ok_c [OF n] Some by simp_all
    obtain t ow md where v: "forms s ! i = (n, t, ow, md)" using f(2) by (cases "forms s ! i") auto
    have ow: "fm_owner (form_table s ! i) = ow" using v forms_nth [OF r f(1)] by (simp add: form_view_def)
    show ?thesis
    proof (cases "u_cur s \<noteq> 0 \<and> ow \<noteq> int (u_cur s)")
      case True
      then have "run_form (Setmode m n) s = Some (print_color permission_denied 0x0C s)" using sp ne Some ow by (simp add: cmd_setmode_def)
      then show ?thesis using f(3) v True by (intro refines_form_print [OF inv _ _ con_frame_print_color]) simp_all
    next
      case False
      then have "u_cur s = 0 \<or> fm_owner (form_table s ! i) = int (u_cur s)" using ow by blast
      from setmode_ok [OF r n Some this] obtain s' where
        s': "cmd_setmode (itoa (ucast m) 10 @ 32 # n) s = print_string (cs ''Mode changed.'' @ [10]) s'" "forms_inv s'" "u_cur s' = u_cur s"
        "forms s' = (forms s)[i := (n, t, ow, m)]" using v by auto
      have "i < length (forms s)" using f(1) length_forms [OF r] by simp
      then have "form_map s' = (form_map s)(n \<mapsto> (t, ow, m))"
        using s'(4) map_of_forms_update [OF forms_distinct [OF r], of i "(n, t, ow, m)"] v by (simp add: form_map_def)
      moreover have "run_form (Setmode m n) s = Some (print_string (cs ''Mode changed.'' @ [10]) s')" using s'(1) by simp
      ultimately show ?thesis using f(3) v False by (intro refines_formI [OF _ s'(2,3)]) auto
    qed
  qed
qed

text \<open>A state after start-up: an empty table and one free block of heap.\<close>

definition bss_user :: user where
  "bss_user = \<lparr>us_name = zeros 32, us_pass_hash = zeros 32, us_is_root = 0\<rparr>"

definition bss_kusr :: kusr where
  "bss_kusr = kfs.extend bss_kfs \<lparr>u_table = replicate MAX_USERS bss_user, u_count = 0, u_cur = 0, ticks = 0\<rparr>"

definition boot_kusr :: kusr where
  "boot_kusr = bss_kusr\<lparr>heap_first := HEAP_START, vmem := vmem (kheap_init bss_kheap)\<rparr>"

lemma boot_kusr_inv: "forms_inv boot_kusr" and boot_kusr_empty: "form_map boot_kusr = Map.empty"
  and boot_kusr_fields: "form_count boot_kusr = 0" "u_cur boot_kusr = 0"
proof -
  have "heap_rep [(1048564, True)] boot_kusr"
    using kheap_init_rep0 by (simp add: heap_rep_def boot_kusr_def)
  then have "heap_live Map.empty boot_kusr" unfolding heap_live_def by (intro exI [of _ "[(1048564, True)]"]) simp
  moreover show c: "form_count boot_kusr = 0" "u_cur boot_kusr = 0"
    by (simp_all add: boot_kusr_def bss_kusr_def bss_kfs_def kfs.defs knet.defs kusr.defs)
  moreover have "form_table boot_kusr = replicate MAX_FORMS bss_form"
    by (simp add: boot_kusr_def bss_kusr_def bss_kfs_def kfs.defs knet.defs kusr.defs)
  ultimately have "forms_rep Map.empty boot_kusr" by (simp add: forms_rep_def table_ok_def bss_form_def)
  then show "forms_inv boot_kusr" unfolding forms_inv_def by blast
  show "form_map boot_kusr = Map.empty" by (simp add: form_map_def forms_def forms_list_def c)
qed

text \<open>The index of a form is determined by its name.\<close>

lemma find_form_index:
  assumes r: "forms_rep L s" and i: "i < form_count s" and n: "fst (forms s ! i) = c_str n"
  shows "find_form n s = Some i"
proof (cases "find_form n s")
  case None
  have "forms s ! i \<in> set (forms s)" using i length_forms [OF r] by simp
  then show ?thesis using None find_form_None [OF r, of n] n by (metis image_eqI)
next
  case (Some j)
  note j = find_form_Some [OF Some]
  have "map fst (forms s) ! i = map fst (forms s) ! j"
    using n j forms_nth [OF r j(1)] i length_forms [OF r] by (simp add: form_view_def)
  then have "i = j" using nth_eq_iff_index_eq [OF forms_distinct [OF r]] i j(1) length_forms [OF r] by simp
  with Some show ?thesis by simp
qed

section \<open>Properties\<close>


lemma boot_has_room: "has_room 1048564 boot_kusr" "\<not> no_room 1 boot_kusr"
proof -
  have h: "heap_rep [(1048564, True)] boot_kusr" using kheap_init_rep0 by (simp add: heap_rep_def boot_kusr_def)
  then show "has_room 1048564 boot_kusr" unfolding has_room_def by (intro exI [of _ "[(1048564, True)]"]) auto
  show "\<not> no_room 1 boot_kusr" using heap_rep_unique [OF h] unfolding no_room_def by fastforce
qed


text \<open>
  What is written is what is shown.  Writing a text to a form and viewing the form prints exactly
  this text, whatever the form contained before; the only other outcome is the refusal for lack of
  memory.
\<close>

theorem write_then_view:
  fixes s :: "'a kusr_scheme"
  assumes "forms_inv s" and "form_name_ok n" and "form_text_ok t" and "form_map s n = Some (t0, om)"
    and "\<not> denied (u_cur s) True om" and "\<not> denied (u_cur s) False om"
  shows "cmd_write (n @ 32 # t) s = Some (print_string (cs ''Out of memory.'' @ [10]) s) \<or>
    (\<exists>s'. cmd_write (n @ 32 # t) s = Some s' \<and> cmd_view n s' = Some (print_string [10] (print_string t s')))"
proof -
  obtain L where r: "forms_rep L s" using assms(1) unfolding forms_inv_def by blast
  obtain i where fi: "find_form n s = Some i"
    using find_form_map [OF r form_name_ok_c [OF assms(2)]] assms(4) by (cases "find_form n s") auto
  have i: "i < form_count s" "snd (forms s ! i) = (t0, om)"
    using find_form_map [OF r form_name_ok_c [OF assms(2)]] fi assms(4) by simp_all
  have om: "om = (fm_owner (form_table s ! i), fm_mode (form_table s ! i))"
    using i(2) forms_nth [OF r i(1)] by (simp add: form_view_def)
  have pm: "\<not> check_perm (int i) True s" using check_perm_denied [OF i(1), of True] assms(5) om by simp
  show ?thesis
  proof (cases rule: write_ok [OF r assms(2,3) fi pm])
    case 1
    then show ?thesis by simp
  next
    case (2 s' ow md t1)
    let ?p = "print_string (cs ''Written.'' @ [10]) s'"
    obtain L' where r': "forms_rep L' s'" using 2(2) unfolding forms_inv_def by blast
    have i': "i < form_count s'" "i < length (forms s)" using i(1) 2(7) length_forms [OF r] by simp_all
    have v: "forms s' ! i = (n, t, ow, md)" using 2(5) i'(2) by simp
    have fi': "find_form n s' = Some i" using find_form_index [OF r' i'(1), of n] v form_name_ok_c [OF assms(2)] by simp
    have "(fm_owner (form_table s' ! i), fm_mode (form_table s' ! i)) = om"
      using v forms_nth [OF r' i'(1)] i(2) 2(4) by (simp add: form_view_def)
    then have "\<not> check_perm (int i) False s'" using check_perm_denied [OF i'(1), of False] assms(6) 2(3) by simp
    then have "cmd_view n ?p = Some (print_string [10] (print_string t ?p))"
      using fi' 2(6) by (simp add: cmd_view_def)
    then show ?thesis using 2(1) by blast
  qed
qed

lemma one_form_example:
  "\<exists>s :: kusr. forms_inv s \<and> form_map s (cs ''notes'') = Some ([], 0, PERM_DEFAULT) \<and> u_cur s = 0 \<and>
     form_count s = 1 \<and> fm_cap (form_table s ! 0) = 100"
proof -
  obtain k :: kheap where k: "heap_rep [(100, False), (1048452, True)] k"
    using kmalloc_refines [OF kheap_init_rep0, of 100] by (auto simp: round4_100)
  let ?f = "bss_form\<lparr>fm_name := put_bytes 0 (cs ''notes'') (zeros 32), fm_content := 0x80000C, fm_cap := 100, fm_mode := PERM_DEFAULT\<rparr>"
  let ?s = "boot_kusr\<lparr>vmem := vmem k, form_table := ?f # replicate 63 bss_form, form_count := 1\<rparr>"
  have "heap_rep [(100, False), (1048452, True)] ?s" using k by (simp add: heap_rep_def boot_kusr_def)
  then have h: "heap_live [0x80000C \<mapsto> 100] ?s" unfolding heap_live_def by (intro exI [of _ "[(100, False), (1048452, True)]"]) simp
  have nm: "length (fm_name ?f) = 32" "c_str (fm_name ?f) = cs ''notes''"
    by (simp_all add: put_bytes_def cs_def zeros_def c_str_def)
  have "form_ok [0x80000C \<mapsto> 100] ?f" by (simp add: form_ok_def bss_form_def)
  then have "forms_rep [0x80000C \<mapsto> 100] ?s" using h nm(1) by (simp add: forms_rep_def table_ok_def bss_form_def)
  then have "forms_inv ?s" unfolding forms_inv_def by blast
  moreover have "form_map ?s (cs ''notes'') = Some ([], 0, PERM_DEFAULT)"
    using nm(2) by (simp add: form_map_def forms_def forms_list_def form_view_def form_text_def k_bytes_def bss_form_def)
  ultimately show ?thesis using boot_kusr_fields by (intro exI [of _ ?s]) simp
qed

theorem write_then_view_witness:
  "\<exists>s :: kusr. form_map s (cs ''notes'') = Some ([], 0, PERM_DEFAULT) \<and>
     (cmd_write (cs ''notes'' @ 32 # cs ''hello'') s = Some (print_string (cs ''Out of memory.'' @ [10]) s) \<or>
      (\<exists>s'. cmd_write (cs ''notes'' @ 32 # cs ''hello'') s = Some s' \<and>
         cmd_view (cs ''notes'') s' = Some (print_string [10] (print_string (cs ''hello'') s'))))"
proof -
  have n: "form_name_ok (cs ''notes'')" "form_text_ok (cs ''hello'')" by (simp_all add: form_name_ok_def form_text_ok_def cs_def)
  obtain s :: kusr where s: "forms_inv s" "form_map s (cs ''notes'') = Some ([], 0, PERM_DEFAULT)" "u_cur s = 0"
    using one_form_example by blast
  have "\<not> denied (u_cur s) w (0, PERM_DEFAULT)" for w using s(3) by (simp add: denied_def)
  then show ?thesis using write_then_view [OF s(1) n s(2)] s(2) by blast
qed

text \<open>The editor stores lines without regard to the capacity of the form.\<close>

lemma edit_ignores_capacity:
  fixes s :: "'a kusr_scheme"
  assumes "idx < length (form_table s)" and "0 \<notin> set l" and "l \<noteq> cs ''.done''" and "length l < 65000"
  shows "\<exists>s'. edit_loop idx 0 [l, cs ''.done''] s = Some s' \<and> fm_size (form_table s' ! idx) = int (length l) + 1 \<and>
    fm_cap (form_table s' ! idx) = fm_cap (form_table s ! idx)"
proof -
  have "c_str (cs ''.done'') = cs ''.done''" by (intro c_str_id) (simp add: cs_def)
  then show ?thesis using assms by (simp add: c_str_id Let_def)
qed

text \<open>The mode of \<^verbatim>\<open>setmode\<close> is read as a decimal number.\<close>

lemma setmode_decimal: "of_int (atoi (cs ''1A4'')) = (1 :: u16)"
  by code_simp

end
