(* ===== verification/Hexa_Users.thy ===== *)
theory Hexa_Users
  imports Hexa_Forms
begin

text \<open>
  Users (\<^verbatim>\<open>hexa.c\<close>: \<^verbatim>\<open>init_users\<close>, \<^verbatim>\<open>load_users\<close>, \<^verbatim>\<open>save_data\<close>, \<^verbatim>\<open>load_data\<close>, \<^verbatim>\<open>do_login\<close> and the commands on
  users).  What is typed is a list of lines; an operation that waits for a line that does not come does
  not return, which is the result \<open>None\<close>, like a walk that does not end.
\<close>

section \<open>Operations\<close>

definition upd_user :: "nat \<Rightarrow> (user \<Rightarrow> user) \<Rightarrow> 'a kusr_scheme \<Rightarrow> 'a kusr_scheme" where
  "upd_user i f s = s\<lparr>u_table := (u_table s)[i := f (u_table s ! i)]\<rparr>"

definition init_users :: "'a kusr_scheme \<Rightarrow> 'a kusr_scheme" where
  "init_users s =
     (upd_user 0 (\<lambda>u. u\<lparr>us_name := strcpy (us_name u) (cs ''root''),
                       us_pass_hash := encode_pwd (us_pass_hash u) (cs ''root'') 0xA5, us_is_root := 1\<rparr>) s)
       \<lparr>u_count := 1, u_cur := 0\<rparr>"

text \<open>The record of a user on disk and the user file.\<close>

definition user_bytes :: "user \<Rightarrow> bytes" where
  "user_bytes u = us_name u @ us_pass_hash u @ [ucast (us_is_root u), 0, 0, 0]"

definition users_bytes :: "'a kusr_scheme \<Rightarrow> bytes" where
  "users_bytes s = le32 (of_nat (u_count s)) @ concat (map user_bytes (take (u_count s) (u_table s)))"

definition user_of_bytes :: "bytes \<Rightarrow> nat \<Rightarrow> user" where
  "user_of_bytes raw i =
     \<lparr>us_name = get_bytes (4 + i * 68) 32 raw, us_pass_hash = get_bytes (4 + i * 68 + 32) 32 raw,
      us_is_root = ucast (get8 (4 + i * 68 + 64) raw)\<rparr>"

definition users_of_bytes :: "bytes \<Rightarrow> u32 \<Rightarrow> 'a kusr_scheme \<Rightarrow> 'a kusr_scheme" where
  "users_of_bytes raw raw_sz s =
     (if raw_sz < 4 then s
      else let count = to_int (de32 (take 4 raw))
           in if count < 1 \<or> count > 12 \<or> raw_sz < 4 + of_int count * 68 then s
              else s\<lparr>u_table := fold (\<lambda>i t. t[i := user_of_bytes raw i]) [0..<nat count] (u_table s),
                     u_count := nat count, u_cur := 0\<rparr>)"

definition load_users :: "'a kusr_scheme \<Rightarrow> 'a kusr_scheme option" where
  "load_users s =
     do {
       (r, s1) \<leftarrow> hexafs_users_load s;
       Some (case r of None \<Rightarrow> s1 | Some (raw, raw_sz) \<Rightarrow> users_of_bytes raw raw_sz s1)
     }"

definition save_data :: "'a kusr_scheme \<Rightarrow> (bool \<times> 'a kusr_scheme) option" where
  "save_data s =
     (if \<not> disk_ok s then Some (False, s)
      else if \<not> hexafs_mounted s then Some (False, s)
      else do {
        s1 \<leftarrow> hexafs_save_all s;
        (ok, s2) \<leftarrow> hexafs_users_save (users_bytes s1) s1;
        Some (True, s2)
      })"

definition load_data :: "'a kusr_scheme \<Rightarrow> 'a kusr_scheme option" where
  "load_data s =
     do {
       s1 \<leftarrow> hexafs_load_all (s\<lparr>disk_ok := True\<rparr>);
       s2 \<leftarrow> load_users s1;
       (ok, s3) \<leftarrow> pimp_load_rules s2;
       Some s3
     }"

text \<open>\<^verbatim>\<open>do_tick\<close> in a loop up to a target that is computed modulo \<open>2 ^ 32\<close>.\<close>

definition sleep_ticks :: "u32 \<Rightarrow> 'a kusr_scheme \<Rightarrow> 'a kusr_scheme" where
  "sleep_ticks t s = (if ticks s < ticks s + t then s\<lparr>ticks := ticks s + t\<rparr> else s)"

definition add_user :: "bytes \<Rightarrow> bytes \<Rightarrow> 'a kusr_scheme \<Rightarrow> (bool \<times> 'a kusr_scheme) option" where
  "add_user name pass s =
     save_data ((upd_user (u_count s) (\<lambda>u. u\<lparr>us_name := strcpy (us_name u) name,
         us_pass_hash := encode_pwd (us_pass_hash u) pass (ticks s AND 0xFFFF), us_is_root := 0\<rparr>) s)\<lparr>u_count := u_count s + 1\<rparr>)"

text \<open>The login screen: the box-drawing characters are three bytes each.\<close>

definition box_line :: "nat \<Rightarrow> bytes" where "box_line n = concat (replicate n [0xE2, 0x94, 0x80])"
definition box_row :: "bytes \<Rightarrow> bytes" where "box_row t = [0xE2, 0x94, 0x82] @ t @ [0xE2, 0x94, 0x82, 10]"

definition login_banner :: bytes where
  "login_banner =
     [0xE2, 0x95, 0xAD] @ box_line 30 @ [0xE2, 0x95, 0xAE, 10] @
     box_row (cs ''         H E X A   O S        '') @ box_row (cs ''        Version 7.2           '') @
     box_row (cs ''   HEXAFSv2 '' @ [0xC2, 0xB7] @ cs '' Pimp '' @ [0xC2, 0xB7] @ cs '' 120+ Cmds'') @
     [0xE2, 0x95, 0xB0] @ box_line 30 @ [0xE2, 0x95, 0xAF, 10]"

text \<open>The user that a name and a password select, as in the loops of the login functions.\<close>

definition login_match :: "bytes \<Rightarrow> bytes \<Rightarrow> 'a kusr_scheme \<Rightarrow> nat option" where
  "login_match name pass s =
     find (\<lambda>i. strcmp (us_name (u_table s ! i)) name = 0 \<and> check_pwd pass (us_pass_hash (u_table s ! i))) [0..<u_count s]"

fun do_login :: "bytes list \<Rightarrow> 'a kusr_scheme \<Rightarrow> ('a kusr_scheme \<times> bytes list) option" where
  "do_login [] s = None"
| "do_login [name] s =
     (let s = print_string (cs ''login: '') (print_color login_banner 0x0B (clear_screen s))
      in if strcmp name (cs ''new'') = 0 \<and> u_count s \<ge> MAX_USERS
         then do_login [] (sleep_ticks 1000 (print_string (cs ''Max users.'' @ [10]) s)) else None)"
| "do_login (name # l2 # lines) s =
     (let s = print_string (cs ''login: '') (print_color login_banner 0x0B (clear_screen s))
      in if strcmp name (cs ''new'') = 0 then
           if u_count s \<ge> MAX_USERS
           then do_login (l2 # lines) (sleep_ticks 1000 (print_string (cs ''Max users.'' @ [10]) s))
           else let s = print_string (cs ''New username: '') s
                in if c_at l2 0 = 0 then do_login lines s
                   else if find_user l2 s \<noteq> None
                   then do_login lines (sleep_ticks 1000 (print_string (cs ''Exists.'' @ [10]) s))
                   else (case lines of
                           [] \<Rightarrow> None
                         | pass # lines' \<Rightarrow>
                             do {
                               (ok, s1) \<leftarrow> add_user l2 pass (print_string (cs ''Password: '') s);
                               do_login lines' (sleep_ticks 2000 (print_string (cs ''Created! Login now.'' @ [10]) s1))
                             })
         else
           let s = print_string (cs ''pass: '') s
           in case login_match name l2 s of
                Some i \<Rightarrow> Some (clear_screen (s\<lparr>u_cur := i\<rparr>), lines)
              | None \<Rightarrow> do_login lines (sleep_ticks 2000 (print_color (cs ''Login incorrect.'' @ [10, 10]) 0x0C s)))"

definition cmd_useradd :: "bytes \<Rightarrow> bytes list \<Rightarrow> 'a kusr_scheme \<Rightarrow> 'a kusr_scheme option" where
  "cmd_useradd name lines s =
     (if c_at name 0 = 0 then Some (print_string (cs ''Usage: useradd <username>'' @ [10]) s)
      else if u_cur s \<noteq> 0 then Some (print_color (cs ''Only root can add users.'' @ [10]) 0x0C s)
      else if u_count s \<ge> MAX_USERS then Some (print_string (cs ''Max users reached.'' @ [10]) s)
      else if find_user name s \<noteq> None then Some (print_string (cs ''User exists.'' @ [10]) s)
      else
        let s = upd_user (u_count s) (\<lambda>u. u\<lparr>us_name := strcpy (us_name u) name\<rparr>) s;
            s = print_string (cs '': '') (print_string name (print_string (cs ''Enter password for '') s))
        in case lines of
             [] \<Rightarrow> None
           | pw # _ \<Rightarrow>
               do {
                 (ok, s1) \<leftarrow> save_data ((upd_user (u_count s) (\<lambda>u. u\<lparr>us_pass_hash := encode_pwd (us_pass_hash u) pw (ticks s AND 0xFFFF),
                     us_is_root := 0\<rparr>) s)\<lparr>u_count := u_count s + 1\<rparr>);
                 Some (print_string (cs ''User created.'' @ [10]) s1)
               })"

definition cmd_passwd :: "bytes list \<Rightarrow> 'a kusr_scheme \<Rightarrow> 'a kusr_scheme option" where
  "cmd_passwd lines s =
     (let s = print_string (cs ''Current password: '') s
      in case lines of
           [] \<Rightarrow> None
         | old # lines1 \<Rightarrow>
             if \<not> check_pwd old (us_pass_hash (u_table s ! u_cur s)) then Some (print_color (cs ''Wrong password.'' @ [10]) 0x0C s)
             else
               let s = print_string (cs ''New password: '') s
               in case lines1 of
                    [] \<Rightarrow> None
                  | new # _ \<Rightarrow>
                      do {
                        (ok, s1) \<leftarrow> save_data (upd_user (u_cur s) (\<lambda>u. u\<lparr>us_pass_hash := encode_pwd (us_pass_hash u) new (ticks s AND 0xFFFF)\<rparr>) s);
                        Some (print_string (cs ''Password changed.'' @ [10]) s1)
                      })"

definition cmd_login :: "bytes \<Rightarrow> bytes list \<Rightarrow> 'a kusr_scheme \<Rightarrow> 'a kusr_scheme option" where
  "cmd_login args lines s =
     (if c_at args 0 = 0 then map_option fst (do_login lines s)
      else case find_user args s of
        None \<Rightarrow> Some (print_string (cs ''User not found.'' @ [10]) s)
      | Some i \<Rightarrow>
          let s = print_string (cs ''Password: '') s
          in case lines of
               [] \<Rightarrow> None
             | buf # _ \<Rightarrow>
                 if check_pwd buf (us_pass_hash (u_table s ! i))
                 then let s = print_string (cs ''Ok.'' @ [10]) (s\<lparr>u_cur := i\<rparr>)
                      in if c_at (us_pass_hash (u_table s ! i)) 2 = 32
                         then map_option snd (save_data (upd_user i (\<lambda>u. u\<lparr>us_pass_hash := encode_pwd (us_pass_hash u) buf (ticks s AND 0xFFFF)\<rparr>) s))
                         else Some s
                 else Some (print_color (cs ''Wrong password.'' @ [10]) 0x0C s))"

definition cmd_logout :: "bytes list \<Rightarrow> 'a kusr_scheme \<Rightarrow> 'a kusr_scheme option" where
  "cmd_logout lines s = map_option fst (do_login lines s)"

section \<open>The user file\<close>

definition user_ok :: "user \<Rightarrow> bool" where
  "user_ok u \<longleftrightarrow> length (us_name u) = 32 \<and> length (us_pass_hash u) = 32 \<and> unat (us_is_root u) < 256"

definition users_inv :: "'a kusr_scheme \<Rightarrow> bool" where
  "users_inv s \<longleftrightarrow> length (u_table s) = MAX_USERS \<and> u_count s \<le> MAX_USERS \<and> (\<forall>u \<in> set (u_table s). user_ok u)"

lemma length_user_bytes: "user_ok u \<Longrightarrow> length (user_bytes u) = 68"
  by (simp add: user_bytes_def user_ok_def)

lemma encode_pwd_length:
  assumes "unat salt < 65536" and "length out = 32"
  shows "length (encode_pwd out pass salt) = 32"
proof -
  have "length (itoa salt 16) \<le> 4" using itoa_hex [of salt 4] assms(1) by simp
  moreover have "length (itoa (pwd_hash pass salt 5) 16) \<le> 8"
    using itoa_hex [of "pwd_hash pass salt 5" 8] unsigned_less [of "pwd_hash pass salt 5", where 'a = nat] by simp
  ultimately show ?thesis using assms by (simp add: encode_pwd_eq length_salt_field)
qed

lemma concat_nth_bytes:
  assumes "\<forall>u \<in> set us. length (f u) = k" and "i < length us"
  shows "take k (drop (i * k) (concat (map f us) @ r)) = f (us ! i)"
  using assms
proof (induction us arbitrary: i)
  case (Cons u us)
  show ?case
  proof (cases i)
    case 0
    then show ?thesis using Cons.prems by simp
  next
    case (Suc j)
    have "drop (i * k) (concat (map f (u # us)) @ r) = drop (j * k) (concat (map f us) @ r)"
      using Cons.prems Suc by simp
    then show ?thesis using Cons.IH [of j] Cons.prems Suc by simp
  qed
qed simp

lemma nth_fold_update:
  "length t = n \<Longrightarrow> m \<le> n \<Longrightarrow> length (fold (\<lambda>i t. t[i := f i]) [0..<m] t) = n \<and>
    (\<forall>j < n. fold (\<lambda>i t. t[i := f i]) [0..<m] t ! j = (if j < m then f j else t ! j))"
  by (induction m) (auto simp: nth_list_update)

lemma get_bytes_skip4:
  assumes "length x = 4"
  shows "get_bytes (4 + off) n (x @ y) = get_bytes off n y"
  using assms by (simp add: get_bytes_def)

lemma user_of_user_bytes:
  assumes "\<forall>u \<in> set us. user_ok u" and "i < length us"
  shows "user_of_bytes (le32 v @ concat (map user_bytes us)) i = us ! i"
proof -
  let ?b = "concat (map user_bytes us)" and ?u = "us ! i"
  have u: "user_ok ?u" using assms by simp
  have t: "take 68 (drop (i * 68) ?b) = user_bytes ?u"
    using concat_nth_bytes [of us user_bytes 68 i "[]"] assms length_user_bytes by simp
  have f: "get_bytes (i * 68 + o') n ?b = get_bytes o' n (user_bytes ?u)" if "o' + n \<le> 68" for o' n
  proof -
    have "get_bytes o' n (take 68 (drop (i * 68) ?b)) = get_bytes (i * 68 + o') n ?b"
      using that by (simp add: get_bytes_def drop_take add.commute min_def)
    with t show ?thesis by simp
  qed
  have g: "get_bytes (4 + (i * 68 + o')) n (le32 v @ ?b) = get_bytes o' n (user_bytes ?u)" if "o' + n \<le> 68" for o' n
    using get_bytes_skip4 [of "le32 v" "i * 68 + o'" n ?b] f [OF that] by simp
  have l: "length ?b = 68 * length us" using assms(1) length_user_bytes
    by (induction us) simp_all
  have b8: "get8 (4 + i * 68 + 64) (le32 v @ ?b) = ucast (us_is_root ?u)"
  proof -
    have "get_bytes (4 + (i * 68 + 64)) 1 (le32 v @ ?b) = [ucast (us_is_root ?u)]"
      using g [of 64 1] u by (simp add: get_bytes_def user_bytes_def user_ok_def)
    then have "hd (get_bytes (4 + (i * 68 + 64)) 1 (le32 v @ ?b)) = ucast (us_is_root ?u)" by simp
    moreover have "4 + (i * 68 + 64) < length (le32 v @ ?b)" using assms(2) l by simp
    ultimately show ?thesis unfolding get8_def get_bytes_def by (simp del: nth_append_length add: hd_drop_conv_nth add.assoc hd_take nth_append)
  qed
  have "ucast (ucast (us_is_root ?u) :: u8) = us_is_root ?u"
    using u by (intro word_unat_eq_iff [THEN iffD2]) (simp add: user_ok_def unsigned_ucast_eq unsigned_take_bit_eq take_bit_nat_eq_self)
  then show ?thesis
    using g [of 0 32] g [of 32 32] b8 u
    by (simp add: user_of_bytes_def user_bytes_def user_ok_def get_bytes_def add.assoc)
qed

text \<open>
  C21: the user table survives the user file.  Reading the bytes that \<^verbatim>\<open>save_data\<close> writes restores the
  names, password hashes and privileges of all users, in order, into any table, and logs in nobody but
  the first user; the file is never larger than the buffer of 832 bytes.
\<close>

theorem users_file_roundtrip:
  fixes s t :: "'a kusr_scheme"
  assumes s: "users_inv s" and n: "0 < u_count s" and t: "users_inv t"
  shows "(let t' = users_of_bytes (users_bytes s) (of_nat (length (users_bytes s))) t
     in take (u_count s) (u_table t') = take (u_count s) (u_table s) \<and> u_count t' = u_count s \<and> u_cur t' = 0) \<and>
     length (users_bytes s) \<le> 832"
proof -
  let ?us = "take (u_count s) (u_table s)" and ?k = "u_count s"
  have us: "\<forall>u \<in> set ?us. user_ok u" "length ?us = ?k" "?k \<le> 12"
    using s by (auto simp: users_inv_def dest: in_set_takeD)
  have "length (concat (map user_bytes us)) = 68 * length us" if "\<forall>u \<in> set us. user_ok u" for us
    using that length_user_bytes by (induction us) simp_all
  then have l: "length (users_bytes s) = 4 + 68 * ?k" using us by (simp add: users_bytes_def)
  then have b: "length (users_bytes s) \<le> 832" using us(3) by simp
  have sz: "unat (of_nat (length (users_bytes s)) :: u32) = 4 + 68 * ?k"
    using us(3) by (subst l, intro word_of_nat_less_eq) simp
  have c: "to_int (de32 (take 4 (users_bytes s))) = int ?k"
  proof -
    have "unat (of_nat ?k :: u32) = ?k" using us(3) by (intro word_of_nat_less_eq) simp
    then show ?thesis using us(3) by (simp add: users_bytes_def to_int_small)
  qed
  have w: "4 + of_int (int ?k) * 68 = (of_nat (length (users_bytes s)) :: u32)"
    by (simp add: l)
  have g1: "\<not> (of_nat (length (users_bytes s)) :: u32) < 4"
    by (simp add: word_less_nat_alt sz)
  have g: "\<not> (of_nat (length (users_bytes s)) :: u32) < 4 + of_int (int ?k) * 68"
    unfolding w by (rule less_irrefl)
  have e: "users_of_bytes (users_bytes s) (of_nat (length (users_bytes s))) t =
      t\<lparr>u_table := fold (\<lambda>i t. t[i := user_of_bytes (users_bytes s) i]) [0..<?k] (u_table t), u_count := ?k, u_cur := 0\<rparr>"
    using g1 g n us(3) by (simp add: users_of_bytes_def c)
  have lt: "length (u_table t) = MAX_USERS" using t by (simp add: users_inv_def)
  note nf = nth_fold_update [OF lt us(3)]
  have "user_of_bytes (users_bytes s) i = ?us ! i" if "i < ?k" for i
    using user_of_user_bytes [OF us(1), of i] us(2) that by (simp add: users_bytes_def)
  then have "take ?k (u_table (users_of_bytes (users_bytes s) (of_nat (length (users_bytes s))) t)) = ?us"
    using nf us(2,3) by (intro nth_equalityI) (simp_all add: e)
  with b show ?thesis by (simp add: e)
qed

definition example_kusr :: kusr where
  "example_kusr = bss_kusr\<lparr>u_table := replicate MAX_USERS \<lparr>us_name = cs ''root'' @ zeros 28,
     us_pass_hash = encode_pwd (zeros 32) (cs ''root'') 0xA5, us_is_root = 1\<rparr>, u_count := 1\<rparr>"

lemma example_users_inv: "users_inv example_kusr" and example_count: "u_count example_kusr = 1"
proof -
  have "length (encode_pwd (zeros 32) (cs ''root'') 0xA5) = 32" by (intro encode_pwd_length) simp_all
  then show "users_inv example_kusr" by (simp add: users_inv_def example_kusr_def user_ok_def cs_def)
qed (simp add: example_kusr_def)

theorem users_file_roundtrip_witness:
  "u_count (users_of_bytes (users_bytes example_kusr) (of_nat (length (users_bytes example_kusr))) example_kusr) = 1 \<and>
   length (users_bytes example_kusr) \<le> 832"
  using users_file_roundtrip [OF example_users_inv _ example_users_inv] by (simp add: example_count Let_def)

section \<open>Logging in\<close>

lemma con_frame_clear_screen: "con_frame s (clear_screen s)"
proof -
  have "clear_screen s = s\<lparr>serial_out := serial_out s @ [27] @ cs ''[2J'' @ [27] @ cs ''[H'',
      vga := replicate (VGA_WIDTH * VGA_HEIGHT) (vga_cell (current_color s) 32),
      cursor_x := 0, cursor_y := 0, crtc_cursor := crtc_cursor s\<rparr>"
    unfolding clear_screen_def fold_serial_putc by simp
  then show ?thesis using con_frameI by metis
qed

lemmas clear_screen_fields [simp] = con_frame_fields [OF con_frame_clear_screen]

lemma login_match_Some:
  assumes "login_match name pass s = Some i"
  shows "i < u_count s" and "strcmp (us_name (u_table s ! i)) name = 0" and "check_pwd pass (us_pass_hash (u_table s ! i))"
    and "\<And>j. j < i \<Longrightarrow> \<not> (strcmp (us_name (u_table s ! j)) name = 0 \<and> check_pwd pass (us_pass_hash (u_table s ! j)))"
  using assms unfolding login_match_def find_Some_iff by auto

text \<open>
  What a stored password field means, independently of the code that checks it: a salt, a number of
  rounds and a hash, in hexadecimal digits, with four digits of salt before a \<^verbatim>\<open>+\<close> or two before a
  blank.  A user entry opens for the name it holds and for a password with this salted hash.
\<close>

definition hex_number :: "bytes \<Rightarrow> u32" where
  "hex_number ds = fold (\<lambda>c r. r * 16 + hex_val c) ds 0"

definition stored_password :: "bytes \<Rightarrow> (u32 \<times> nat \<times> u32) option" where
  "stored_password f =
     (if c_at f 4 = 43
      then Some (hex_number (map (c_at f) [0..<4]), unat (hex_val (c_at f 5)), hex_number (c_str (drop 6 f)))
      else if c_at f 2 = 32
      then Some (hex_number (map (c_at f) [0..<2]), 1, hex_number (c_str (drop 3 f)))
      else None)"

definition entry_opens :: "bytes \<Rightarrow> bytes \<Rightarrow> user \<Rightarrow> bool" where
  "entry_opens name pass u \<longleftrightarrow> c_str (us_name u) = c_str name \<and>
     (case stored_password (us_pass_hash u) of None \<Rightarrow> False | Some (salt, rounds, h) \<Rightarrow> pwd_hash pass salt rounds = h)"

definition logged_in :: "bytes \<Rightarrow> bytes \<Rightarrow> 'a kusr_scheme \<Rightarrow> bool" where
  "logged_in name pass s \<longleftrightarrow>
     u_cur s < u_count s \<and> entry_opens name pass (u_table s ! u_cur s) \<and>
     (\<forall>j < u_cur s. \<not> entry_opens name pass (u_table s ! j))"

lemma hex_loop_number: "hex_loop sh hp = fold (\<lambda>c r. r * 16 + hex_val c) (c_str hp) sh"
proof (induction hp arbitrary: sh)
  case Nil
  show ?case by (simp add: hex_loop.simps c_at_def c_str_def)
next
  case (Cons c hp)
  then show ?case by (subst hex_loop.simps) (simp add: c_at_def c_str_def)
qed

lemma hex_field_number: "hex_field n f = hex_number (map (c_at f) [0..<n])"
  by (simp add: hex_field_def hex_number_def fold_map comp_def)

lemma check_pwd_stored:
  "check_pwd pass f \<longleftrightarrow>
    (case stored_password f of None \<Rightarrow> False | Some (salt, rounds, h) \<Rightarrow> pwd_hash pass salt rounds = h)"
  by (simp add: check_pwd_def stored_password_def hex_field_number hex_loop_number hex_number_def [of "c_str _"])

lemma login_match_opens:
  assumes "login_match name pass s = Some (u_cur s)"
  shows "logged_in name pass s"
  using login_match_Some [OF assms]
  by (simp add: logged_in_def entry_opens_def strcmp_zero_iff [symmetric] check_pwd_stored [symmetric])

text \<open>The loop of the login screen ends with a match.\<close>

lemma do_login_match:
  fixes s :: "'a kusr_scheme"
  assumes "do_login lines s = Some (s', rest)"
  shows "\<exists>before name pass. lines = before @ name # pass # rest \<and> login_match name pass s' = Some (u_cur s')"
  using assms
proof (induction lines s rule: do_login.induct)
  case (3 name l2 lines s)
  let ?s1 = "print_string (cs ''login: '') (print_color login_banner 0x0B (clear_screen s))"
  have shift: "\<exists>before name pass. name0 # l @ ls = before @ name # pass # rest \<and> login_match name pass s' = Some (u_cur s')"
    if "\<exists>before name pass. ls = before @ name # pass # rest \<and> login_match name pass s' = Some (u_cur s')" for l ls and name0 :: bytes
    using that by (metis append.assoc append_Cons)
  note step = "3.prems" [unfolded do_login.simps(3) [of name l2 lines s] Let_def]
  show ?case
  proof (cases "strcmp name (cs ''new'') = 0")
    case new: True
    show ?thesis
    proof (cases "u_count ?s1 \<ge> MAX_USERS")
      case True
      then show ?thesis using step new "3.IH"(1) [OF refl new] shift [of "l2 # lines" name "[]"] by (simp del: do_login.simps)
    next
      case False
      show ?thesis
      proof (cases "c_at l2 0 = 0 \<or> find_user l2 (print_string (cs ''New username: '') ?s1) \<noteq> None")
        case True
        then show ?thesis
          using step new False "3.IH"(2) [OF refl new False refl] "3.IH"(3) [OF refl new False refl] shift [of lines name "[l2]"]
          by (cases "c_at l2 0 = 0") (simp_all del: do_login.simps)
      next
        case no: False
        let ?s2 = "print_string (cs ''New username: '') ?s1"
        obtain pass ls ok s3 where lines: "lines = pass # ls"
          and s3: "add_user l2 pass (print_string (cs ''Password: '') ?s2) = Some (ok, s3)"
          and d: "do_login ls (sleep_ticks 2000 (print_string (cs ''Created! Login now.'' @ [10]) s3)) = Some (s', rest)"
        proof -
          have "(case lines of [] \<Rightarrow> None
              | pass # lines' \<Rightarrow> do {
                  (ok, s1) \<leftarrow> add_user l2 pass (print_string (cs ''Password: '') ?s2);
                  do_login lines' (sleep_ticks 2000 (print_string (cs ''Created! Login now.'' @ [10]) s1))
                }) = Some (s', rest)"
            using step new False no
            by (simp del: do_login.simps)
          then show ?thesis using that by (cases lines) (auto simp del: do_login.simps simp add: bind_eq_Some_conv)
        qed
        have "\<exists>before name pass. ls = before @ name # pass # rest \<and> login_match name pass s' = Some (u_cur s')"
          using "3.IH"(4) [OF refl new _ refl _ _ lines s3 refl d] False no by (simp del: do_login.simps)
        then show ?thesis using shift [of ls name "[l2, pass]"] lines by simp
      qed
    qed
  next
    case False
    show ?thesis
    proof (cases "login_match name l2 (print_string (cs ''pass: '') ?s1)")
      case None
      then show ?thesis using step False "3.IH"(5) [OF refl False refl] shift [of lines name "[l2]"]
        by (simp del: do_login.simps)
    next
      case (Some i)
      then have "rest = lines" "s' = clear_screen ((print_string (cs ''pass: '') ?s1)\<lparr>u_cur := i\<rparr>)"
        using step False by (simp_all del: do_login.simps)
      then show ?thesis using Some
        by (intro exI [of _ "[]"] exI [of _ name] exI [of _ l2]) (simp add: login_match_def)
    qed
  qed
qed (simp_all add: Let_def split: if_splits)

text \<open>
  C22: nobody gets past the login screen without a password.  Whatever lines are typed, wrong passwords
  and newly created accounts included, when \<^verbatim>\<open>do_login\<close> returns, the last two lines it consumed are a name
  and a password, and the current user is the first entry of the user table that holds this name and
  whose stored salt, rounds and hash are those of the password.  In particular, where the field was
  written by \<^verbatim>\<open>encode_pwd\<close> for some password, the one that was typed has the same salted hash.
\<close>

theorem login_requires_password:
  fixes s :: "'a kusr_scheme"
  assumes "do_login lines s = Some (s', rest)"
  shows "\<exists>before name pass. lines = before @ name # pass # rest \<and> logged_in name pass s' \<and>
    (\<forall>out pw salt. length out = 32 \<longrightarrow> unat salt < 65536 \<longrightarrow>
       us_pass_hash (u_table s' ! u_cur s') = encode_pwd out pw salt \<longrightarrow> pwd_hash pass salt 5 = pwd_hash pw salt 5)"
proof -
  obtain before name pass where l: "lines = before @ name # pass # rest" "login_match name pass s' = Some (u_cur s')"
    using do_login_match [OF assms] by blast
  moreover note login_match_opens [OF l(2)]
  moreover have "pwd_hash pass salt 5 = pwd_hash pw salt 5"
    if "length out = 32" "unat salt < 65536" "us_pass_hash (u_table s' ! u_cur s') = encode_pwd out pw salt" for out pw salt
    using login_match_Some(3) [OF l(2)] check_pwd_encode_pwd [OF that(2,1), of pass pw] that(3) by simp
  ultimately show ?thesis by blast
qed

theorem login_requires_password_witness:
  "\<exists>s' :: kusr. do_login [cs ''nobody'', cs ''x'', cs ''root'', cs ''root''] example_kusr = Some (s', []) \<and>
     logged_in (cs ''root'') (cs ''root'') s'"
proof -
  have p: "check_pwd (cs ''root'') (encode_pwd (zeros 32) (cs ''root'') 0xA5)" by (simp add: check_pwd_encode_pwd)
  have z: "zeros 28 = 0 # zeros 27" by (simp add: zeros_def numeral_eq_Suc)
  have q: "strcmp (cs ''root'' @ zeros 28) (cs ''root'') = 0" "strcmp (cs ''root'' @ zeros 28) (cs ''nobody'') \<noteq> 0"
    "strcmp (cs ''root'') (cs ''new'') \<noteq> 0" "strcmp (cs ''nobody'') (cs ''new'') \<noteq> 0"
    by (simp_all add: strcmp_zero_iff c_str_def cs_def of_char_def z)
  have m: "login_match (cs ''nobody'') (cs ''x'') s = None" "login_match (cs ''root'') (cs ''root'') s = Some 0"
    if "u_table s = u_table example_kusr" "u_count s = 1" for s :: kusr
    using that p q by (simp_all add: login_match_def example_kusr_def)
  have t: "u_table (sleep_ticks k s) = u_table s" "u_count (sleep_ticks k s) = u_count s" for k and s :: kusr
    by (simp_all add: sleep_ticks_def)
  obtain s' :: kusr where "do_login [cs ''nobody'', cs ''x'', cs ''root'', cs ''root''] example_kusr = Some (s', [])"
    using q(3,4) by (simp add: Let_def m t example_count)
  moreover from login_requires_password [OF this] have "logged_in (cs ''root'') (cs ''root'') s'" by auto
  ultimately show ?thesis by blast
qed

end
