(* ===== verification/Hexa_Vfs.thy ===== *)
theory Hexa_Vfs
  imports Hexa_Users
begin

text \<open>
  File descriptors on forms (\<^verbatim>\<open>vfs.c\<close>, \<^verbatim>\<open>vfs.h\<close>).  A descriptor holds the index of a form in the form
  table and a position.  Buffers of the caller are lists of bytes: a read returns the bytes it stores,
  a write takes the bytes at the pointer.  A call that waits for a key or for the other end of a pipe
  that does not come has the result \<open>None\<close>.  Sums of C integers wrap at 32 bits as on the target.
\<close>

section \<open>State\<close>

abbreviation VFS_MAX_FDS :: nat where "VFS_MAX_FDS \<equiv> 128"
abbreviation (input) FORM_READ :: u32 where "FORM_READ \<equiv> 0"
abbreviation (input) FORM_WRITE :: u32 where "FORM_WRITE \<equiv> 1"
abbreviation (input) FORM_CREAT :: u32 where "FORM_CREAT \<equiv> 4"
abbreviation (input) FORM_APPEND :: u32 where "FORM_APPEND \<equiv> 16"
abbreviation (input) SEEK_SET :: int where "SEEK_SET \<equiv> 0"
abbreviation (input) SEEK_CUR :: int where "SEEK_CUR \<equiv> 1"
abbreviation (input) SEEK_END :: int where "SEEK_END \<equiv> 2"

record vfs_fd =
  vf_pid :: int
  vf_type :: int
  vf_ref :: int
  vf_pos :: int
  vf_flags :: u32

record vfs_node =
  vn_name :: bytes
  vn_type :: int
  vn_size :: int
  vn_owner :: int
  vn_mode :: u16
  vn_ref_count :: int

record kvfs = kusr +
  vfs_fds :: "vfs_fd list"

text \<open>A C \<^verbatim>\<open>int\<close> after an operation that may overflow.\<close>

definition i32 :: "int \<Rightarrow> int" where
  "i32 x = to_int (of_int x)"

definition upd_fd :: "nat \<Rightarrow> (vfs_fd \<Rightarrow> vfs_fd) \<Rightarrow> 'a kvfs_scheme \<Rightarrow> 'a kvfs_scheme" where
  "upd_fd i f s = s\<lparr>vfs_fds := (vfs_fds s)[i := f (vfs_fds s ! i)]\<rparr>"

section \<open>Operations\<close>

definition vfs_fd_alloc :: "int \<Rightarrow> 'a kvfs_scheme \<Rightarrow> int \<times> 'a kvfs_scheme" where
  "vfs_fd_alloc pid s =
     (case find (\<lambda>i. vf_type (vfs_fds s ! i) = 0) [3..<VFS_MAX_FDS] of
        None \<Rightarrow> (-1, s)
      | Some i \<Rightarrow> (int i, upd_fd i (\<lambda>d. d\<lparr>vf_pid := pid, vf_type := 1, vf_pos := 0, vf_flags := 0\<rparr>) s))"

definition vfs_init :: "'a kvfs_scheme \<Rightarrow> 'a kvfs_scheme" where
  "vfs_init s = s\<lparr>vfs_fds := map (\<lambda>d. d\<lparr>vf_type := 0\<rparr>) (vfs_fds s)\<rparr>"

text \<open>The part of \<^verbatim>\<open>vfs_open\<close> after the form has been found or created.\<close>

definition vfs_open_form :: "nat \<Rightarrow> u32 \<Rightarrow> 'a kvfs_scheme \<Rightarrow> int \<times> 'a kvfs_scheme" where
  "vfs_open_form idx flags s =
     (if check_perm (int idx) (flags AND FORM_WRITE \<noteq> 0) s then (-1, s)
      else case vfs_fd_alloc (int (current_task s)) s of (fd, s1) \<Rightarrow>
        if fd < 0 then (-1, s1)
        else (fd, upd_fd (nat fd) (\<lambda>d. d\<lparr>vf_type := 1, vf_ref := int idx,
               vf_pos := (if flags AND FORM_APPEND \<noteq> 0 then 0x7FFFFFFF else 0), vf_flags := flags\<rparr>) s1))"

definition vfs_open :: "bytes \<Rightarrow> u32 \<Rightarrow> 'a kvfs_scheme \<Rightarrow> (int \<times> 'a kvfs_scheme) option" where
  "vfs_open path flags s =
     (case find_form path s of
        Some idx \<Rightarrow> Some (vfs_open_form idx flags s)
      | None \<Rightarrow>
          if flags AND FORM_CREAT = 0 then Some (-1, s)
          else do {
            s1 \<leftarrow> cmd_mkform path s;
            Some (case find_form path s1 of None \<Rightarrow> (-1, s1) | Some idx \<Rightarrow> vfs_open_form idx flags s1)
          })"

definition fd_in_use :: "int \<Rightarrow> 'a kvfs_scheme \<Rightarrow> bool" where
  "fd_in_use fd s \<longleftrightarrow> \<not> (fd < 0 \<or> fd \<ge> int VFS_MAX_FDS) \<and> vf_type (vfs_fds s ! nat fd) \<noteq> 0"

definition vfs_close :: "int \<Rightarrow> 'a kvfs_scheme \<Rightarrow> int \<times> 'a kvfs_scheme" where
  "vfs_close fd s =
     (if \<not> fd_in_use fd s then (-1, s) else (0, upd_fd (nat fd) (\<lambda>d. d\<lparr>vf_type := 0\<rparr>) s))"

text \<open>Waiting for a key: negative characters are skipped.\<close>

partial_function (option) kb_wait :: "'a kint_scheme \<Rightarrow> (u8 \<times> 'a kint_scheme) option" where
  "kb_wait s =
     (case kb_get s of None \<Rightarrow> None | Some (c, s1) \<Rightarrow> if sint c < 0 then kb_wait s1 else Some (c, s1))"

fun kb_line :: "nat \<Rightarrow> 'a kint_scheme \<Rightarrow> (bytes \<times> 'a kint_scheme) option" where
  "kb_line 0 s = Some ([], s)"
| "kb_line (Suc n) s =
     do {
       (c, s1) \<leftarrow> kb_wait s;
       if c = 10 then Some ([c], s1)
       else do { (bs, s2) \<leftarrow> kb_line n s1; Some (c # bs, s2) }
     }"

text \<open>The result is the returned number and the bytes stored in the buffer.\<close>

definition vfs_read :: "int \<Rightarrow> int \<Rightarrow> 'a kvfs_scheme \<Rightarrow> ((int \<times> bytes) \<times> 'a kvfs_scheme) option" where
  "vfs_read fd count s =
     (if \<not> fd_in_use fd s then Some ((-1, []), s)
      else let d = vfs_fds s ! nat fd
           in if vf_type d = 2 then
                (case pipe_read (nat (vf_ref d)) count s of ((bs, r), s1) \<Rightarrow>
                   if r = Spins then None else Some ((int (length bs), bs), s1))
              else if vf_type d = 3 then
                do { (bs, s1) \<leftarrow> kb_line (nat count) s; Some ((if count < 0 then count else int (length bs), bs), s1) }
              else if vf_type d \<noteq> 1 then Some ((-1, []), s)
              else if vf_ref d < 0 \<or> vf_ref d \<ge> int (form_count s) then Some ((-1, []), s)
              else
                let f = form_table s ! nat (vf_ref d);
                    n = nat (min count (fm_size f - vf_pos d))
                in Some ((int n, peek (vmem s) (fm_content f + of_int (vf_pos d)) n),
                         upd_fd (nat fd) (\<lambda>d. d\<lparr>vf_pos := vf_pos d + int n\<rparr>) s))"

text \<open>The loop of \<^verbatim>\<open>vfs_write\<close> on a form, its NUL, and the update of size and position.\<close>

definition vfs_store :: "int \<Rightarrow> nat \<Rightarrow> int \<Rightarrow> nat \<Rightarrow> bytes \<Rightarrow> 'a kvfs_scheme \<Rightarrow> 'a kvfs_scheme" where
  "vfs_store fd idx pos n buf s =
     (let m = poke (fm_content (form_table s ! idx) + of_int pos) (take n buf @ [0]) (vmem s);
          s1 = upd_form idx (\<lambda>f. f\<lparr>fm_size := max (fm_size f) (pos + int n)\<rparr>) (s\<lparr>vmem := m\<rparr>)
      in upd_fd (nat fd) (\<lambda>d. d\<lparr>vf_pos := vf_pos d + int n\<rparr>) s1)"

definition vfs_write :: "int \<Rightarrow> bytes \<Rightarrow> int \<Rightarrow> 'a kvfs_scheme \<Rightarrow> (int \<times> 'a kvfs_scheme) option" where
  "vfs_write fd buf count s =
     (if \<not> fd_in_use fd s then Some (-1, s)
      else let d = vfs_fds s ! nat fd
           in if vf_type d = 2 then
                (case pipe_write (nat (vf_ref d)) (take (nat count) buf) s of ((n, r), s1) \<Rightarrow>
                   if r = Spins then None else Some (int n, s1))
              else if vf_type d = 3 then
                Some (count, fold (\<lambda>c. put_char c 0x0F) (take (nat count) buf) s)
              else if vf_type d \<noteq> 1 then Some (-1, s)
              else if vf_ref d < 0 \<or> vf_ref d \<ge> int (form_count s) then Some (-1, s)
              else
                let idx = nat (vf_ref d); pos = vf_pos d
                in do {
                  (ok, s1) \<leftarrow> form_ensure_cap idx (i32 (pos + count + 1)) s;
                  if \<not> ok then Some (-1, s1)
                  else
                    let n = nat (min count (65528 - pos))
                    in Some (int n, vfs_store fd idx pos n buf s1)
                })"

definition vfs_lseek :: "int \<Rightarrow> int \<Rightarrow> int \<Rightarrow> 'a kvfs_scheme \<Rightarrow> int \<times> 'a kvfs_scheme" where
  "vfs_lseek fd offset whence s =
     (if fd < 0 \<or> fd \<ge> int VFS_MAX_FDS \<or> vf_type (vfs_fds s ! nat fd) \<noteq> 1 then (-1, s)
      else let pos = (if whence = SEEK_SET then offset
                      else if whence = SEEK_CUR then i32 (vf_pos (vfs_fds s ! nat fd) + offset) else 0);
               pos = max pos 0
           in (pos, upd_fd (nat fd) (\<lambda>d. d\<lparr>vf_pos := pos\<rparr>) s))"

definition vfs_stat :: "bytes \<Rightarrow> vfs_node \<Rightarrow> 'a kvfs_scheme \<Rightarrow> int \<times> vfs_node" where
  "vfs_stat path node s =
     (case find_form path s of
        None \<Rightarrow> (-1, node)
      | Some idx \<Rightarrow>
          let f = form_table s ! idx; name = strcpy (vn_name node) (fm_name f); len = strlen name
          in (0, \<lparr>vn_name = name, vn_type = (if len > 0 \<and> name ! (len - 1) = 47 then 1 else 0), vn_size = fm_size f,
                  vn_owner = fm_owner f, vn_mode = fm_mode f, vn_ref_count = 1\<rparr>))"

definition vfs_dup :: "int \<Rightarrow> 'a kvfs_scheme \<Rightarrow> int \<times> 'a kvfs_scheme" where
  "vfs_dup old_fd s =
     (if \<not> fd_in_use old_fd s then (-1, s)
      else case vfs_fd_alloc (int (current_task s)) s of (new_fd, s1) \<Rightarrow>
        if new_fd < 0 then (-1, s1)
        else (new_fd, upd_fd (nat new_fd) (\<lambda>_. vfs_fds s1 ! nat old_fd) s1))"

section \<open>The descriptor table\<close>

text \<open>Only forms are ever opened: the branches for pipes and the console are not reached.\<close>

definition fds_inv :: "vfs_fd list \<Rightarrow> bool" where
  "fds_inv ds \<longleftrightarrow> length ds = VFS_MAX_FDS \<and>
     (\<forall>i < VFS_MAX_FDS. vf_type (ds ! i) = 0 \<or> (3 \<le> i \<and> vf_type (ds ! i) = 1 \<and> 0 \<le> vf_pos (ds ! i) \<and> 0 \<le> vf_ref (ds ! i)))"

lemma fds_inv_update:
  assumes "fds_inv ds" and "vf_type d = 0 \<or> 3 \<le> i \<and> vf_type d = 1 \<and> 0 \<le> vf_pos d \<and> 0 \<le> vf_ref d"
  shows "fds_inv (ds[i := d])"
proof (cases "i < length ds")
  case True
  then have "ds[i := d] ! j = (if j = i then d else ds ! j)" for j by (simp add: nth_list_update)
  then show ?thesis using assms by (auto simp: fds_inv_def)
qed (use assms in \<open>simp add: list_update_beyond\<close>)

lemma find_upt: "find P [m..<n] = Some i \<Longrightarrow> m \<le> i \<and> i < n \<and> P i"
  by (auto simp: find_Some_iff)

lemma vfs_fd_alloc_cases:
  obtains (none) "vfs_fd_alloc p s = (-1, s)"
  | (some) i where "3 \<le> i" and "i < VFS_MAX_FDS" and "vf_type (vfs_fds s ! i) = 0"
      and "vfs_fd_alloc p s = (int i, upd_fd i (\<lambda>d. d\<lparr>vf_pid := p, vf_type := 1, vf_pos := 0, vf_flags := 0\<rparr>) s)"
proof (cases "find (\<lambda>i. vf_type (vfs_fds s ! i) = 0) [3..<VFS_MAX_FDS]")
  case None
  then show thesis using none by (simp add: vfs_fd_alloc_def)
next
  case (Some i)
  then show thesis using some [of i] find_upt [OF Some] unfolding vfs_fd_alloc_def Some by simp
qed

lemma vfs_fds_con_frame:
  fixes s :: "'a kvfs_scheme"
  assumes "con_frame s s'"
  shows "vfs_fds s' = vfs_fds s"
  using assms unfolding con_frame_def by auto

lemma vfs_fds_frame [simp]:
  fixes s :: "'a kvfs_scheme"
  shows "vfs_fds (print_string t s) = vfs_fds s" "vfs_fds (print_color t c s) = vfs_fds s"
    "vfs_fds (upd_form i g s) = vfs_fds s"
  using vfs_fds_con_frame [OF con_frame_print_string] vfs_fds_con_frame [OF con_frame_print_color]
  by (auto simp: upd_form_def)

lemma kmalloc_frame:
  assumes "kmalloc n s = Some (p, s')"
  shows "s' = s\<lparr>vmem := vmem s'\<rparr>"
  using assms by (auto simp: kmalloc_def split: if_splits)

lemma kfree_frame:
  assumes "kfree p s = Some s'"
  shows "s' = s\<lparr>vmem := vmem s'\<rparr>"
proof (cases "p = 0")
  case False
  then obtain m where "s' = s\<lparr>vmem := m\<rparr>" using assms unfolding kfree_def Let_def if_not_P [OF False] map_option_eq_Some by blast
  then show ?thesis by simp
qed (use assms in \<open>simp add: kfree_def\<close>)

lemma form_ensure_cap_fds:
  fixes s :: "'a kvfs_scheme"
  assumes "form_ensure_cap i n s = Some (ok, s')"
  shows "vfs_fds s' = vfs_fds s" and "form_count s' = form_count s"
proof -
  have "vfs_fds s' = vfs_fds s \<and> form_count s' = form_count s"
  proof (cases "n \<le> fm_cap (form_table s ! i)")
    case True
    then show ?thesis using assms by (simp add: form_ensure_cap_def)
  next
    case False
    then obtain p s1 where k: "kmalloc (of_int (n + 1024)) s = Some (p, s1)" using assms
      by (auto simp: form_ensure_cap_def Let_def bind_eq_Some_conv)
    have f1: "vfs_fds s1 = vfs_fds s" "form_count s1 = form_count s" by (subst kmalloc_frame [OF k], simp)+
    have f2: "vfs_fds t' = vfs_fds t \<and> form_count t' = form_count t" if "kfree q t = Some t'" for q and t t' :: "'a kvfs_scheme"
      by (subst (1 2) kfree_frame [OF that]) simp
    show ?thesis using assms False k f1
      by (auto simp: form_ensure_cap_def Let_def bind_eq_Some_conv dest!: f2 split: if_splits)
  qed
  then show "vfs_fds s' = vfs_fds s" "form_count s' = form_count s" by simp_all
qed

lemma cmd_mkform_fds:
  fixes s :: "'a kvfs_scheme"
  assumes "cmd_mkform name s = Some s'"
  shows "vfs_fds s' = vfs_fds s"
proof -
  have k: "vfs_fds t' = vfs_fds t" if "kmalloc n t = Some (p, t')" for n p and t t' :: "'a kvfs_scheme"
    by (subst kmalloc_frame [OF that]) simp
  show ?thesis using assms by (auto simp: cmd_mkform_def Let_def bind_eq_Some_conv dest!: k split: if_splits)
qed

datatype vfs_call = Open bytes u32 | Close int | Read int int | Write int bytes int | Seek int int int | Dup int

fun run_vfs :: "vfs_call \<Rightarrow> 'a kvfs_scheme \<Rightarrow> (int \<times> 'a kvfs_scheme) option" where
  "run_vfs (Open path flags) s = vfs_open path flags s"
| "run_vfs (Close fd) s = Some (vfs_close fd s)"
| "run_vfs (Read fd count) s = map_option (\<lambda>((n, bs), s'). (n, s')) (vfs_read fd count s)"
| "run_vfs (Write fd buf count) s = vfs_write fd buf count s"
| "run_vfs (Seek fd off whence) s = Some (vfs_lseek fd off whence s)"
| "run_vfs (Dup fd) s = Some (vfs_dup fd s)"

lemma fds_inv_upd:
  assumes "fds_inv (vfs_fds s)" and "vf_type (f (vfs_fds s ! i)) = 0 \<or>
    3 \<le> i \<and> vf_type (f (vfs_fds s ! i)) = 1 \<and> 0 \<le> vf_pos (f (vfs_fds s ! i)) \<and> 0 \<le> vf_ref (f (vfs_fds s ! i))"
  shows "fds_inv (vfs_fds (upd_fd i f s))"
  using fds_inv_update [OF assms] by (simp add: upd_fd_def)

lemma fds_in_use:
  assumes "fds_inv (vfs_fds s)" and "fd_in_use fd s"
  shows "3 \<le> nat fd \<and> nat fd < VFS_MAX_FDS \<and> vf_type (vfs_fds s ! nat fd) = 1 \<and> 0 \<le> vf_pos (vfs_fds s ! nat fd) \<and> 0 \<le> vf_ref (vfs_fds s ! nat fd)"
proof -
  have "nat fd < VFS_MAX_FDS" "vf_type (vfs_fds s ! nat fd) \<noteq> 0" using assms(2) by (auto simp: fd_in_use_def)
  then show ?thesis using assms(1) unfolding fds_inv_def by blast
qed

lemma vfs_open_form_inv:
  assumes "fds_inv (vfs_fds s)"
  shows "fds_inv (vfs_fds (snd (vfs_open_form idx flags s)))"
proof (cases rule: vfs_fd_alloc_cases [of "int (current_task s)" s])
  case none
  then show ?thesis using assms by (simp add: vfs_open_form_def)
next
  case (some i)
  have "fds_inv (vfs_fds s) \<Longrightarrow> i < length (vfs_fds s)" using some by (simp add: fds_inv_def)
  then show ?thesis using some assms
    by (auto simp: vfs_open_form_def upd_fd_def intro!: fds_inv_update)
qed

lemma run_vfs_inv:
  fixes s :: "'a kvfs_scheme"
  assumes "fds_inv (vfs_fds s)" and "run_vfs c s = Some (r, s')"
  shows "fds_inv (vfs_fds s')"
proof (cases c)
  case (Open path flags)
  note i1 = vfs_open_form_inv [OF assms(1)]
  have i2: "fds_inv (vfs_fds (snd (vfs_open_form idx flags s1)))" if "cmd_mkform path s = Some s1" for idx s1
    using vfs_open_form_inv [of s1] cmd_mkform_fds [OF that] assms(1) by simp
  show ?thesis
  proof (cases "find_form path s")
    case (Some idx)
    then show ?thesis using assms(2) Open i1 [of idx flags] by (simp add: vfs_open_def)
  next
    case None
    show ?thesis
    proof (cases "flags AND FORM_CREAT = 0")
      case True
      then show ?thesis using assms Open None by (simp add: vfs_open_def)
    next
      case False
      then obtain s1 where s1: "cmd_mkform path s = Some s1"
        "(case find_form path s1 of None \<Rightarrow> (-1, s1) | Some idx \<Rightarrow> vfs_open_form idx flags s1) = (r, s')"
        using assms(2) Open None by (auto simp: vfs_open_def bind_eq_Some_conv)
      then show ?thesis using i2 [OF s1(1), of "the (find_form path s1)"] cmd_mkform_fds [OF s1(1)] assms(1)
        by (cases "find_form path s1") simp_all
    qed
  qed
next
  case (Close fd)
  then show ?thesis using assms fds_inv_upd [OF assms(1), of "\<lambda>d. d\<lparr>vf_type := 0\<rparr>" "nat fd"]
    by (simp add: vfs_close_def split: if_splits)
next
  case (Read fd n)
  show ?thesis
  proof (cases "fd_in_use fd s")
    case True
    note u = fds_in_use [OF assms(1) True]
    show ?thesis
    proof (cases "vf_ref (vfs_fds s ! nat fd) \<ge> int (form_count s)")
      case True
      then show ?thesis using assms Read u \<open>fd_in_use fd s\<close> by (simp add: vfs_read_def)
    next
      case False
      let ?k = "nat (min n (fm_size (form_table s ! nat (vf_ref (vfs_fds s ! nat fd))) - vf_pos (vfs_fds s ! nat fd)))"
      have "snd (the (run_vfs c s)) = upd_fd (nat fd) (\<lambda>d. d\<lparr>vf_pos := vf_pos d + int ?k\<rparr>) s"
        using Read True u False by (simp add: vfs_read_def Let_def)
      then show ?thesis using fds_inv_upd [OF assms(1), of "\<lambda>d. d\<lparr>vf_pos := vf_pos d + int ?k\<rparr>" "nat fd"] u assms(2) by simp
    qed
  qed (use assms Read in \<open>simp add: vfs_read_def\<close>)
next
  case (Write fd buf n)
  show ?thesis
  proof (cases "fd_in_use fd s")
    case True
    let ?d = "vfs_fds s ! nat fd"
    note u = fds_in_use [OF assms(1) True]
    show ?thesis
    proof (cases "vf_ref ?d \<ge> int (form_count s)")
      case True
      then show ?thesis using assms Write u by (auto simp: vfs_write_def Let_def split: if_splits)
    next
      case False
      then obtain ok s1 where e: "form_ensure_cap (nat (vf_ref ?d)) (i32 (vf_pos ?d + n + 1)) s = Some (ok, s1)"
        using assms(2) Write u True by (auto simp: vfs_write_def Let_def bind_eq_Some_conv)
      let ?n = "nat (min n (65528 - vf_pos ?d))"
      have w: "snd (the (run_vfs c s)) = (if ok then vfs_store fd (nat (vf_ref ?d)) (vf_pos ?d) ?n buf s1 else s1)"
        using Write u True False e by (simp add: vfs_write_def Let_def)
      have f: "vfs_fds s1 = vfs_fds s" using form_ensure_cap_fds [OF e] by simp
      have "fds_inv (vfs_fds (vfs_store fd i p k buf s1))" if "0 \<le> p" for i p k
        using fds_inv_upd [of s1 "\<lambda>d. d\<lparr>vf_pos := vf_pos d + int k\<rparr>" "nat fd"] assms(1) u f
        by (simp add: vfs_store_def Let_def upd_fd_def)
      then show ?thesis using assms w u f by (cases ok) simp_all
    qed
  qed (use assms Write in \<open>simp add: vfs_write_def\<close>)
next
  case (Seek fd off whence)
  show ?thesis
  proof (cases "fd < 0 \<or> fd \<ge> int VFS_MAX_FDS \<or> vf_type (vfs_fds s ! nat fd) \<noteq> 1")
    case True
    then show ?thesis using assms Seek by (simp add: vfs_lseek_def)
  next
    case False
    then have u: "3 \<le> nat fd" "0 \<le> vf_ref (vfs_fds s ! nat fd)" using fds_in_use [OF assms(1), of fd] by (simp_all add: fd_in_use_def)
    obtain k where "s' = upd_fd (nat fd) (\<lambda>d. d\<lparr>vf_pos := max k 0\<rparr>) s"
      using assms(2) Seek False by (auto simp: vfs_lseek_def Let_def)
    then show ?thesis using fds_inv_upd [OF assms(1), of "\<lambda>d. d\<lparr>vf_pos := max k 0\<rparr>" "nat fd"] u False by simp
  qed
next
  case (Dup fd)
  show ?thesis
  proof (cases rule: vfs_fd_alloc_cases [of "int (current_task s)" s])
    case none
    then show ?thesis using assms Dup by (auto simp: vfs_dup_def split: if_splits)
  next
    case (some i)
    show ?thesis
    proof (cases "fd_in_use fd s")
      case True
      note u = fds_in_use [OF assms(1) True]
      then have "i \<noteq> nat fd" using some(3) by auto
      then have "vfs_fds (snd (the (run_vfs c s))) = (vfs_fds s)[i := vfs_fds s ! nat fd]"
        using Dup some True by (simp add: vfs_dup_def upd_fd_def)
      then show ?thesis using fds_inv_update [OF assms(1), of "vfs_fds s ! nat fd" i] some(1) u assms(2) by simp
    qed (use assms Dup in \<open>simp add: vfs_dup_def\<close>)
  qed
qed

fun vfs_run :: "vfs_call list \<Rightarrow> 'a kvfs_scheme \<Rightarrow> 'a kvfs_scheme option" where
  "vfs_run [] s = Some s"
| "vfs_run (c # calls) s = do { (r, s1) \<leftarrow> run_vfs c s; vfs_run calls s1 }"

lemma fds_inv_init: "length (vfs_fds s) = VFS_MAX_FDS \<Longrightarrow> fds_inv (vfs_fds (vfs_init s))"
  by (simp add: fds_inv_def vfs_init_def)

lemma vfs_run_inv: "fds_inv (vfs_fds s) \<Longrightarrow> vfs_run calls s = Some s' \<Longrightarrow> fds_inv (vfs_fds s')"
proof (induction calls arbitrary: s)
  case (Cons c calls)
  then obtain r s1 where "run_vfs c s = Some (r, s1)" "vfs_run calls s1 = Some s'" by (auto simp: bind_eq_Some_conv)
  then show ?case using Cons.IH run_vfs_inv [OF Cons.prems(1)] by blast
qed simp

text \<open>
  Whatever calls are made, descriptors refer to forms.  Every sequence of calls of \<^verbatim>\<open>vfs.c\<close> after
  \<^verbatim>\<open>vfs_init\<close>, with any arguments and outcomes, leaves the three standard descriptors closed and every other
  one closed or open on a form with a position that is not negative; the branches of \<^verbatim>\<open>vfs_read\<close> and
  \<^verbatim>\<open>vfs_write\<close> for pipes and the console are dead code.
\<close>

theorem vfs_descriptors_are_forms:
  fixes s :: "'a kvfs_scheme"
  assumes "length (vfs_fds s) = VFS_MAX_FDS" and "vfs_run calls (vfs_init s) = Some s'" and "fd_in_use fd s'"
  shows "3 \<le> fd \<and> fd < 128 \<and> vf_type (vfs_fds s' ! nat fd) = 1 \<and> 0 \<le> vf_pos (vfs_fds s' ! nat fd) \<and> 0 \<le> vf_ref (vfs_fds s' ! nat fd)"
  using fds_in_use [OF vfs_run_inv [OF fds_inv_init [OF assms(1)] assms(2)] assms(3)] assms(3) by (auto simp: fd_in_use_def)

section \<open>A descriptor is a cursor on the text of a form\<close>

text \<open>What a write at position \<open>p\<close> does to a text: the byte after the data becomes NUL.\<close>

definition overwrite :: "nat \<Rightarrow> bytes \<Rightarrow> bytes \<Rightarrow> bytes" where
  "overwrite p d t = take p t @ d @ (case drop (p + length d) t of [] \<Rightarrow> [] | _ # r \<Rightarrow> 0 # r)"

definition fd_open :: "int \<Rightarrow> 'a kvfs_scheme \<Rightarrow> bool" where
  "fd_open fd s \<longleftrightarrow> 0 \<le> fd \<and> fd < int VFS_MAX_FDS \<and> length (vfs_fds s) = VFS_MAX_FDS \<and> vf_type (vfs_fds s ! nat fd) = 1 \<and>
     0 \<le> vf_ref (vfs_fds s ! nat fd) \<and> vf_ref (vfs_fds s ! nat fd) < int (form_count s) \<and> 0 \<le> vf_pos (vfs_fds s ! nat fd)"

abbreviation cur_form :: "int \<Rightarrow> 'a kvfs_scheme \<Rightarrow> nat" where "cur_form fd s \<equiv> nat (vf_ref (vfs_fds s ! nat fd))"
abbreviation cur_pos :: "int \<Rightarrow> 'a kvfs_scheme \<Rightarrow> int" where "cur_pos fd s \<equiv> vf_pos (vfs_fds s ! nat fd)"

text \<open>The text of the form a descriptor is on.\<close>

definition fd_text :: "int \<Rightarrow> 'a kvfs_scheme \<Rightarrow> bytes" where
  "fd_text fd s = fst (snd (forms s ! cur_form fd s))"

lemma fd_text_eq: "forms_rep L s \<Longrightarrow> fd_open fd s \<Longrightarrow> fd_text fd s = form_text s (form_table s ! cur_form fd s)"
  by (auto simp: fd_text_def fd_open_def form_view_def forms_nth)

lemma peek_form_text:
  assumes "forms_rep L s" and "i < form_count s" and "0 \<le> p" and "p + int n \<le> fm_size (form_table s ! i)"
  shows "peek (vmem s) (fm_content (form_table s ! i) + of_int p) n = take n (drop (nat p) (form_text s (form_table s ! i)))"
proof -
  let ?f = "form_table s ! i"
  have "fm_content ?f + of_int p + of_nat k = of_nat (block_of ?f + (nat p + k))" for k
    using assms(3) of_int_of_nat_eq [of "nat p", where 'a = "32 word"] by (simp add: add.assoc)
  then show ?thesis
    using assms(3,4) by (intro nth_equalityI) (auto simp: peek_def form_text_def k_byte_def add.assoc)
qed

text \<open>The conversion of sizes that stay small.\<close>

lemma i32_small:
  assumes "0 \<le> x" and "x < 2 ^ 31"
  shows "i32 x = x"
proof -
  have k: "x = int (nat x)" "nat x < 2 ^ 31" using assms by (simp_all add: nat_less_iff)
  have "unat (of_nat (nat x) :: u32) = nat x" by (rule word_of_nat_less_eq) (use k(2) in simp)
  then have "to_int (of_nat (nat x)) = int (nat x)" using to_int_small [of "of_nat (nat x)"] k(2) by simp
  moreover have "(of_int x :: u32) = of_nat (nat x)" by (subst k(1)) (rule of_int_of_nat_eq)
  ultimately show ?thesis using k(1) by (simp only: i32_def)
qed

lemma forms_cong:
  fixes s :: "'a kfs_scheme" and t :: "'b kfs_scheme"
  assumes "form_table t = form_table s" and "form_count t = form_count s" and "vmem t = vmem s" and "heap_first t = heap_first s"
  shows "forms_rep L t = forms_rep L s" and "forms t = forms s" and "forms_inv t = forms_inv s"
proof -
  have k: "k_byte t = k_byte s" by (simp add: k_byte_def fun_eq_iff assms)
  show r: "forms_rep L t = forms_rep L s" for L by (simp add: forms_rep_def heap_live_def heap_rep_def assms)
  show "forms t = forms s" unfolding forms_def forms_list_def form_view_def form_text_def k_bytes_def k assms ..
  show "forms_inv t = forms_inv s" by (simp add: forms_inv_def r)
qed

lemma upd_fd_fields [simp]:
  "vmem (upd_fd i g s) = vmem s" "heap_first (upd_fd i g s) = heap_first s" "form_table (upd_fd i g s) = form_table s"
  "form_count (upd_fd i g s) = form_count s" "vfs_fds (upd_fd i g s) = (vfs_fds s)[i := g (vfs_fds s ! i)]"
  by (simp_all add: upd_fd_def)

lemmas forms_upd_fd = forms_cong [OF upd_fd_fields(3,4,1,2)]

lemma min_sizes: "0 \<le> p \<Longrightarrow> 0 \<le> z \<Longrightarrow> min (nat z - nat p) (nat c) = nat (min c (z - p))"
  by linarith

lemma max_sizes: "0 \<le> p \<Longrightarrow> 0 \<le> z \<Longrightarrow> nat (max z (p + int l)) = max (nat z) (nat p + l)"
  by linarith

lemma room_le: "p \<le> z \<Longrightarrow> p + int (nat (min c (z - p))) \<le> z"
  by linarith

lemma vfs_read_text:
  fixes s :: "'a kvfs_scheme"
  assumes r: "forms_rep L s" and fd: "fd_open fd s"
  shows "vfs_read fd count s =
    (let bs = take (nat count) (drop (nat (cur_pos fd s)) (fd_text fd s))
     in Some ((int (length bs), bs), upd_fd (nat fd) (\<lambda>d. d\<lparr>vf_pos := vf_pos d + int (length bs)\<rparr>) s))"
proof -
  let ?f = "form_table s ! cur_form fd s" and ?p = "cur_pos fd s"
  let ?n = "nat (min count (fm_size ?f - ?p))" and ?bs = "take (nat count) (drop (nat ?p) (fd_text fd s))"
  have i: "cur_form fd s < form_count s" "0 \<le> ?p" using fd by (auto simp: fd_open_def)
  note t = fd_text_eq [OF r fd]
  have sz: "0 \<le> fm_size ?f" using forms_rep_ok [OF r i(1)] by (simp add: form_ok_def)
  have l: "length (fd_text fd s) = nat (fm_size ?f)" using t by (simp add: form_text_def)
  then have n: "length ?bs = ?n" using min_sizes [OF i(2) sz] by simp
  have "peek (vmem s) (fm_content ?f + of_int ?p) ?n = ?bs"
  proof (cases "?p \<le> fm_size ?f")
    case True
    then have "peek (vmem s) (fm_content ?f + of_int ?p) ?n = take ?n (drop (nat ?p) (fd_text fd s))"
      using peek_form_text [OF r i room_le [OF True]] t by simp
    also have "\<dots> = ?bs" unfolding n [symmetric] by (metis append_eq_conv_conj append_take_drop_id)
    finally show ?thesis .
  next
    case False
    then have "?n = 0" by simp
    then show ?thesis using n unfolding \<open>?n = 0\<close> peek_def by (simp only: length_0_conv upt_0 list.map)
  qed
  then show ?thesis using fd n by (simp add: vfs_read_def fd_in_use_def fd_open_def Let_def)
qed

lemma overwrite_map:
  assumes "p \<le> length t" and "\<forall>i < length t. g i = t ! i"
  shows "map (\<lambda>i. if int p \<le> int i \<and> int i < int p + int (length (d @ [0])) then (d @ [0]) ! (i - p) else g i)
     [0..<max (length t) (p + length d)] = overwrite p d t"
proof -
  obtain u v where t: "t = u @ v" "length u = p" using assms(1) by (metis append_take_drop_id length_take min.absorb2)
  have o: "overwrite p d t = u @ d @ (case drop (length d) v of [] \<Rightarrow> [] | _ # r \<Rightarrow> 0 # r)"
    using t by (simp add: overwrite_def add.commute)
  show ?thesis
  proof (cases "drop (length d) v")
    case Nil
    then have "max (length t) (p + length d) = p + length d" using t by simp
    then show ?thesis using Nil o t assms(2)
      by (intro nth_equalityI) (auto simp: nth_append)
  next
    case (Cons x r)
    then have v: "length v = length d + 1 + length r" proof -
      have "length (drop (length d) v) = Suc (length r)" unfolding Cons by simp
      then show ?thesis unfolding length_drop by linarith
    qed
    have vr: "v ! (length d + (1 + k)) = r ! k" for k using arg_cong [OF Cons, of "\<lambda>xs. xs ! (1 + k)"] v by simp
    obtain N where N: "max (length t) (p + length d) = N" "N = p + length d + 1 + length r" using t v by simp
    show ?thesis unfolding N(1)
    proof (rule nth_equalityI, goal_cases)
      case 1
      show ?case using o t Cons N(2) by simp
    next
      case (2 i)
      then have iN: "i < N" by simp
      then have i: "i < p + length d + 1 + length r" using N(2) by simp
      consider "i < p" | k where "i = p + k" "k < length d" | "i = p + length d" | k where "i = p + (length d + (1 + k))" "k < length r"
      proof (cases "i < p")
        case False
        then obtain k where k: "i = p + k" using le_Suc_ex not_less by metis
        show thesis
        proof (cases "k \<le> length d")
          case True
          then show thesis using that(2,3) k by (cases "k = length d") auto
        next
          case False
          then show thesis using that(4) [of "k - length d - 1"] k i by simp
        qed
      qed (use that in simp)
      then show ?case
      proof cases
        case 4
        then show ?thesis using i iN o t v vr [of k] Cons assms(2) by (simp add: nth_append)
      qed (use i iN o t v Cons assms(2) in \<open>simp_all add: nth_append\<close>)
    qed
  qed
qed

lemma vfs_write_text:
  fixes s :: "'a kvfs_scheme"
  assumes r: "forms_rep L s" and fd: "fd_open fd s"
    and p: "cur_pos fd s \<le> int (length (fd_text fd s))" "cur_pos fd s + int (length buf) \<le> 65528"
  obtains (full) "vfs_write fd buf (int (length buf)) s = Some (-1, s)"
  | (ok) L' s' where "vfs_write fd buf (int (length buf)) s = Some (int (length buf), s')" and "forms_rep L' s'"
      and "forms s' = (forms s)[cur_form fd s := (case forms s ! cur_form fd s of (nm, t, a) \<Rightarrow> (nm, overwrite (nat (cur_pos fd s)) buf t, a))]"
      and "vfs_fds s' = (vfs_fds s)[nat fd := (vfs_fds s ! nat fd)\<lparr>vf_pos := cur_pos fd s + int (length buf)\<rparr>]"
      and "form_count s' = form_count s"
proof -
  let ?i = "cur_form fd s" and ?p = "cur_pos fd s" and ?l = "int (length buf)"
  have i: "?i < form_count s" "0 \<le> ?p" using fd by (auto simp: fd_open_def)
  have nd: "i32 (?p + ?l + 1) = ?p + ?l + 1" using i(2) p(2) by (intro i32_small) auto
  have n: "min ?l (65528 - ?p) = ?l" using p(2) by simp
  have pl: "?p \<le> 65528" using p(2) by linarith
  have w: "vfs_write fd buf ?l s = do {
      (ok, s1) \<leftarrow> form_ensure_cap ?i (?p + ?l + 1) s;
      if \<not> ok then Some (-1, s1)
      else Some (?l, vfs_store fd ?i ?p (length buf) buf s1) }"
    using fd i pl by (simp add: vfs_write_def fd_in_use_def fd_open_def Let_def nd n cong: if_cong)
  show thesis
  proof (cases rule: form_ensure_cap_ok [OF r i(1), of "?p + ?l + 1"])
    case 1
    then show ?case using p(2) by simp
  next
    case 2
    then show ?thesis using full w by simp
  next
    case (3 L' s1)
    have f1: "vfs_fds s1 = vfs_fds s" "form_count s1 = form_count s"
      using form_ensure_cap_fds [OF 3(1)] by simp_all
    let ?sz = "fm_size (form_table s ! ?i)"
    have sz: "0 \<le> ?sz" "?sz < fm_cap (form_table s1 ! ?i)"
      using forms_rep_ok [OF 3(2), of ?i] i(1) f1 3(5) by (simp_all add: form_ok_def)
    obtain nm t ow md where e: "forms s ! ?i = (nm, t, ow, md)" using prod_cases4 by blast
    have t: "t = form_text s (form_table s ! ?i)" "t = form_text s1 (form_table s1 ! ?i)" "length t = nat ?sz"
      using forms_nth [OF r i(1)] forms_nth [OF 3(2), of ?i] i(1) f1 3(3,5) e by (simp_all add: form_view_def form_text_def)
    have f: "fm_size (form_table s1 ! ?i) = ?sz" using 3(5) .
    have ov: "map (\<lambda>k. if ?p \<le> int k \<and> int k < ?p + int (length (buf @ [0])) then (buf @ [0]) ! (k - nat ?p)
        else k_byte s1 (block_of (form_table s1 ! ?i) + k)) [0..<nat (max ?sz (?p + ?l))] = overwrite (nat ?p) buf t"
    proof -
      have "nat (max ?sz (?p + ?l)) = max (length t) (nat ?p + length buf)" unfolding t(3) by (rule max_sizes [OF i(2) sz(1)])
      moreover have "nat ?p \<le> length t" using p(1) e i(2) by (simp add: fd_text_def)
      moreover have "\<forall>k < length t. k_byte s1 (block_of (form_table s1 ! ?i) + k) = t ! k"
        using t(2,3) f by (auto simp: form_text_def)
      ultimately show ?thesis using overwrite_map [of "nat ?p" t "\<lambda>k. k_byte s1 (block_of (form_table s1 ! ?i) + k)" buf]
        unfolding int_nat_eq if_P [OF i(2)] by (simp only:)
    qed
    let ?s2 = "form_store ?i ?p (buf @ [0]) (max ?sz (?p + ?l)) s1"
    have c: "?p + int (length (buf @ [0])) \<le> fm_cap (form_table s1 ! ?i)" "0 \<le> max ?sz (?p + ?l)"
      "max ?sz (?p + ?l) < fm_cap (form_table s1 ! ?i)" "?i < form_count s1"
      using 3(4) sz i f1 by (simp_all add: max_def)
    note st = form_store_ok [OF 3(2) c(4) i(2) c(1-3), unfolded 3(3) e prod.case ov]
    let ?s3 = "upd_fd (nat fd) (\<lambda>d. d\<lparr>vf_pos := vf_pos d + ?l\<rparr>) ?s2"
    have s3: "vfs_store fd ?i ?p (length buf) buf s1 = ?s3"
      by (simp add: vfs_store_def form_store_def upd_form_def f)
    have "vfs_write fd buf ?l s = Some (?l, ?s3)" using w 3(1) s3 by simp
    moreover have "forms_rep L' ?s3" "forms ?s3 = (forms s)[?i := (nm, overwrite (nat ?p) buf t, ow, md)]"
      using st unfolding forms_upd_fd by blast+
    moreover have "vfs_fds ?s3 = (vfs_fds s)[nat fd := (vfs_fds s ! nat fd)\<lparr>vf_pos := ?p + ?l\<rparr>]" "form_count ?s3 = form_count s"
      using f1 by (simp_all add: form_store_def upd_fd_def)
    ultimately show thesis using ok [of ?s3 L'] unfolding e prod.case by blast
  qed
qed

lemma overwrite_read: "p \<le> length t \<Longrightarrow> take (length d) (drop p (overwrite p d t)) = d"
  by (simp add: overwrite_def)

text \<open>
  C23: what is written to a descriptor is read back.  On a well formed form table, writing at a position
  inside the text of an open form either fails for lack of memory and changes nothing, or stores exactly
  the given bytes at that position of the form the descriptor is on (followed by a NUL, also in the middle of
  a longer text), leaves every other form, its name, owner and mode alone and moves the position to the end
  of the data; after seeking back, reading returns exactly these bytes.
\<close>

theorem vfs_write_read:
  fixes s :: "'a kvfs_scheme"
  assumes inv: "forms_inv s" and fd: "fd_open fd s"
    and p: "cur_pos fd s \<le> int (length (fd_text fd s))" "cur_pos fd s + int (length buf) \<le> 65528"
  shows "vfs_write fd buf (int (length buf)) s = Some (-1, s) \<or>
    (\<exists>s' s''. vfs_write fd buf (int (length buf)) s = Some (int (length buf), s') \<and> forms_inv s' \<and>
       forms s' = (forms s)[cur_form fd s := (case forms s ! cur_form fd s of (nm, t, a) \<Rightarrow> (nm, overwrite (nat (cur_pos fd s)) buf t, a))] \<and>
       cur_pos fd s' = cur_pos fd s + int (length buf) \<and>
       vfs_read fd (int (length buf)) (snd (vfs_lseek fd (cur_pos fd s) SEEK_SET s')) = Some ((int (length buf), buf), s''))"
proof -
  obtain L where r: "forms_rep L s" using inv by (auto simp: forms_inv_def)
  show ?thesis
  proof (cases rule: vfs_write_text [OF r fd p])
    case (2 L' s')
    obtain nm t a where e: "forms s ! cur_form fd s = (nm, t, a)" using prod_cases3 by blast
    have i: "cur_form fd s < length (forms s)" "nat fd < length (vfs_fds s)" "0 \<le> cur_pos fd s"
      using fd length_forms [OF r] by (auto simp: fd_open_def)
    have fs: "vfs_fds s' ! nat fd = (vfs_fds s ! nat fd)\<lparr>vf_pos := cur_pos fd s + int (length buf)\<rparr>" using 2(4) i(2) by simp
    let ?s = "snd (vfs_lseek fd (cur_pos fd s) SEEK_SET s')"
    have sk: "?s = upd_fd (nat fd) (\<lambda>d. d\<lparr>vf_pos := cur_pos fd s\<rparr>) s'"
      using fd fs i(3) by (simp add: vfs_lseek_def fd_open_def max_def Let_def)
    have d: "vfs_fds ?s ! nat fd = vfs_fds s ! nat fd" using 2(4) i(2) fs sk by simp
    have o: "fd_open fd ?s" using fd d 2(4,5) sk by (simp add: fd_open_def)
    have rep: "forms_rep L' ?s" using 2(2) forms_upd_fd(1) [of L' _ _ s'] sk by simp
    have "forms ?s = forms s'" using forms_upd_fd(2) [of _ _ s'] sk by simp
    then have "fd_text fd ?s = overwrite (nat (cur_pos fd s)) buf t"
      using 2(3) d e i(1) by (simp add: fd_text_def)
    moreover have "nat (cur_pos fd s) \<le> length t" using p(1) e by (simp add: fd_text_def)
    ultimately have "take (length buf) (drop (nat (cur_pos fd ?s)) (fd_text fd ?s)) = buf" using overwrite_read d by simp
    then have "\<exists>s''. vfs_read fd (int (length buf)) ?s = Some ((int (length buf), buf), s'')"
      using vfs_read_text [OF rep o, of "int (length buf)"] by (simp add: Let_def)
    moreover have "forms_inv s'" using 2(2) by (auto simp: forms_inv_def)
    moreover have "cur_pos fd s' = cur_pos fd s + int (length buf)" using fs by simp
    ultimately show ?thesis using 2(1,3) by blast
  qed simp
qed

definition bss_fd :: vfs_fd where
  "bss_fd = \<lparr>vf_pid = 0, vf_type = 0, vf_ref = 0, vf_pos = 0, vf_flags = 0\<rparr>"

lemma one_form_vfs: "\<exists>s :: kvfs. forms_inv s \<and> fd_open 3 s \<and> cur_pos 3 s = 0"
proof -
  obtain s :: kusr where s: "forms_inv s" "form_map s (cs ''notes'') = Some ([], 0, PERM_DEFAULT)"
    using one_form_example by blast
  let ?s = "kusr.extend s \<lparr>vfs_fds = (replicate VFS_MAX_FDS bss_fd)[3 := bss_fd\<lparr>vf_type := 1\<rparr>]\<rparr> :: kvfs"
  have "0 < form_count s" using s by (cases "form_count s") (auto simp: form_map_def forms_def forms_list_def)
  then have "fd_open 3 ?s" by (simp add: fd_open_def kusr.defs bss_fd_def)
  moreover have "forms_inv ?s" using s(1) forms_cong(3) [of ?s s] by (simp add: kusr.defs)
  moreover have "cur_pos 3 ?s = 0" by (simp add: kusr.defs bss_fd_def)
  ultimately show ?thesis by blast
qed

theorem vfs_write_read_witness:
  "\<exists>s :: kvfs. fd_open 3 s \<and> (vfs_write 3 (cs ''hello'') (int (length (cs ''hello''))) s = Some (-1, s) \<or>
     (\<exists>s' s''. vfs_write 3 (cs ''hello'') (int (length (cs ''hello''))) s = Some (int (length (cs ''hello'')), s') \<and>
       vfs_read 3 (int (length (cs ''hello''))) (snd (vfs_lseek 3 (cur_pos 3 s) SEEK_SET s')) = Some ((int (length (cs ''hello'')), cs ''hello''), s'')))"
proof -
  obtain s :: kvfs where s: "forms_inv s" "fd_open 3 s" "cur_pos 3 s = 0" using one_form_vfs by blast
  then have p: "cur_pos 3 s \<le> int (length (fd_text 3 s))" "cur_pos 3 s + int (length (cs ''hello'')) \<le> 65528" by (simp_all add: cs_def)
  show ?thesis using vfs_write_read [OF s(1,2) p] s(2) by blast
qed

theorem vfs_descriptors_are_forms_witness:
  "\<exists>s :: kvfs. vfs_run [Open (cs ''x'') FORM_READ] (vfs_init (kusr.extend boot_kusr \<lparr>vfs_fds = replicate 128 bss_fd\<rparr>)) = Some s \<and>
     (fd_in_use 3 s \<longrightarrow> vf_type (vfs_fds s ! nat 3) = 1)"
proof -
  let ?s = "kusr.extend boot_kusr \<lparr>vfs_fds = replicate 128 bss_fd\<rparr> :: kvfs"
  have "form_count (vfs_init ?s) = 0" using boot_kusr_fields by (simp add: vfs_init_def kusr.defs)
  then have r: "vfs_run [Open (cs ''x'') FORM_READ] (vfs_init ?s) = Some (vfs_init ?s)"
    by (simp add: vfs_open_def find_form_def)
  have "length (vfs_fds ?s) = VFS_MAX_FDS" by (simp add: kusr.defs)
  then show ?thesis using vfs_descriptors_are_forms [OF _ r, of 3] r by blast
qed

section \<open>Behaviour a caller may not expect\<close>

text \<open>
  Neither the mode of a descriptor nor the permissions of its form limit a write (\<open>vfs_write_read\<close> has no such
  hypothesis), and \<^verbatim>\<open>FORM_RDWR\<close> (2) is granted whenever reading is.
\<close>

lemma rdwr_needs_read_only: "fst (vfs_open_form idx 2 s) = fst (vfs_open_form idx FORM_READ s)"
  by (simp add: vfs_open_form_def case_prod_beta)

text \<open>\<^verbatim>\<open>SEEK_END\<close> moves to the start of the form.\<close>

lemma seek_end_is_start:
  "fd_open fd s \<Longrightarrow> fst (vfs_lseek fd off SEEK_END s) = 0 \<and> cur_pos fd (snd (vfs_lseek fd off SEEK_END s)) = 0"
  by (auto simp: vfs_lseek_def fd_open_def)

text \<open>
  A descriptor opened with \<^verbatim>\<open>FORM_APPEND\<close> is positioned at \<open>2 ^ 31 - 1\<close>, where the needed capacity wraps to
  a negative number: a write stores nothing but a NUL 2 GB behind the text and sets the size to \<open>2 ^ 31 - 1\<close>.
\<close>

lemma append_corrupts_size:
  fixes s :: "'a kvfs_scheme"
  assumes "fd_open fd s" and "cur_pos fd s = 0x7FFFFFFF" and "0 \<le> fm_cap (form_table s ! cur_form fd s)"
    and "fm_size (form_table s ! cur_form fd s) < 2 ^ 31" and "length (form_table s) = MAX_FORMS" and "form_count s \<le> MAX_FORMS"
  shows "\<exists>s'. vfs_write fd [65] 1 s = Some (0, s') \<and> fm_size (form_table s' ! cur_form fd s) = 0x7FFFFFFF"
proof -
  have w: "i32 (0x7FFFFFFF + 1 + 1) \<le> 0" by (simp add: i32_def to_int_def)
  then have e: "form_ensure_cap (cur_form fd s) (i32 (0x7FFFFFFF + 1 + 1)) s = Some (True, s)"
    using assms(3) by (simp add: form_ensure_cap_def)
  have i: "cur_form fd s < length (form_table s)" using assms(1,5,6) by (auto simp: fd_open_def)
  have "vfs_write fd [65] 1 s = Some (0, vfs_store fd (cur_form fd s) 0x7FFFFFFF 0 [65] s)"
    using assms(1,2) e by (simp add: vfs_write_def fd_in_use_def fd_open_def)
  then show ?thesis using assms(4) i by (simp add: vfs_store_def)
qed

end
