(* ===== verification/Hexa_Intent.thy ===== *)
theory Hexa_Intent
  imports Hexa_Vfs
begin

text \<open>
  Intents (\<^verbatim>\<open>intent.c\<close>, \<^verbatim>\<open>intent.h\<close>): a table of 64 entries, each the declared wish of a process to consume,
  produce, observe or transform a form, addressed by a handle.  Buffers of the caller are lists of bytes, a
  null pointer is \<open>None\<close>; \<^verbatim>\<open>intent_fulfill\<close> returns its result, the bytes it stored in the buffer and the
  state.
\<close>

section \<open>State\<close>

abbreviation (input) INTENT_CONSUME :: u32 where "INTENT_CONSUME \<equiv> 1"
abbreviation (input) INTENT_PRODUCE :: u32 where "INTENT_PRODUCE \<equiv> 2"
abbreviation (input) INTENT_OBSERVE :: u32 where "INTENT_OBSERVE \<equiv> 3"
abbreviation (input) INTENT_TRANSFORM :: u32 where "INTENT_TRANSFORM \<equiv> 4"
abbreviation (input) INTENT_STREAM :: u32 where "INTENT_STREAM \<equiv> 1"
abbreviation (input) INTENT_ONCE :: u32 where "INTENT_ONCE \<equiv> 2"
abbreviation (input) MAX_INTENTS :: nat where "MAX_INTENTS \<equiv> 64"
abbreviation (input) CAP_TYPE_INTENT :: u32 where "CAP_TYPE_INTENT \<equiv> 2"

record intent =
  it_type :: u32
  it_target_hash :: u32
  it_schema_hash :: u32
  it_filter_offset :: u32
  it_flags :: u32

record intent_entry =
  en_active :: bool
  en_pid :: int
  en_intent :: intent
  en_handle :: u32
  en_buffer_block :: u32
  en_buffer_len :: int

record kintent = kvfs +
  intent_table :: "intent_entry list"
  next_handle :: u32

definition upd_entry :: "nat \<Rightarrow> (intent_entry \<Rightarrow> intent_entry) \<Rightarrow> 'a kintent_scheme \<Rightarrow> 'a kintent_scheme" where
  "upd_entry i f s = s\<lparr>intent_table := (intent_table s)[i := f (intent_table s ! i)]\<rparr>"

definition zero_entry :: intent_entry where
  "zero_entry = \<lparr>en_active = False, en_pid = 0, en_intent = \<lparr>it_type = 0, it_target_hash = 0, it_schema_hash = 0,
     it_filter_offset = 0, it_flags = 0\<rparr>, en_handle = 0, en_buffer_block = 0, en_buffer_len = 0\<rparr>"

section \<open>Operations\<close>

definition intent_init :: "'a kintent_scheme \<Rightarrow> 'a kintent_scheme" where
  "intent_init s =
     log_write LOG_LEVEL_INFO (cs ''intent: system initialized'')
       (s\<lparr>intent_table := replicate MAX_INTENTS zero_entry, next_handle := 1\<rparr>)"

definition intent_fill :: "int \<Rightarrow> intent \<Rightarrow> u32 \<Rightarrow> intent_entry \<Rightarrow> intent_entry" where
  "intent_fill pid it h e =
     e\<lparr>en_active := True, en_pid := pid, en_intent := it, en_handle := h, en_buffer_block := 0, en_buffer_len := 0\<rparr>"

definition intent_create :: "int \<Rightarrow> intent \<Rightarrow> 'a kintent_scheme \<Rightarrow> u32 option \<times> 'a kintent_scheme" where
  "intent_create pid it s =
     (case (if it_type it = INTENT_PRODUCE \<or> it_type it = INTENT_TRANSFORM
            then (case hexafs_cap_check (of_int pid) CAP_TYPE_INTENT s of (ok, s1) \<Rightarrow> (\<not> ok \<and> pid \<noteq> 0, s1))
            else (False, s)) of
        (True, s1) \<Rightarrow> (None, s1)
      | (False, s1) \<Rightarrow>
          (case find (\<lambda>i. \<not> en_active (intent_table s1 ! i)) [0..<MAX_INTENTS] of
             None \<Rightarrow> (None, s1)
           | Some i \<Rightarrow>
               let h = next_handle s1
               in (Some h, upd_entry i (intent_fill pid it h) (s1\<lparr>next_handle := h + 1\<rparr>))))"

definition find_handle :: "u32 \<Rightarrow> 'a kintent_scheme \<Rightarrow> nat option" where
  "find_handle h s = find (\<lambda>i. en_active (intent_table s ! i) \<and> en_handle (intent_table s ! i) = h) [0..<MAX_INTENTS]"

text \<open>The target of an intent, if it is a form.\<close>

definition target_form :: "intent_entry \<Rightarrow> 'a kfs_scheme \<Rightarrow> nat option" where
  "target_form e s =
     (let idx = to_int (it_target_hash (en_intent e))
      in if idx \<ge> 0 \<and> idx < int (form_count s) then Some (nat idx) else None)"

text \<open>\<^verbatim>\<open>memcpy\<close> of the caller's data into a form, the NUL and the new size; the capacity is not consulted.\<close>

definition form_produce :: "nat \<Rightarrow> bytes \<Rightarrow> int \<Rightarrow> 'a kfs_scheme \<Rightarrow> 'a kfs_scheme" where
  "form_produce idx data copy s =
     upd_form idx (\<lambda>f. f\<lparr>fm_size := max (fm_size f) copy\<rparr>)
       (s\<lparr>vmem := poke (fm_content (form_table s ! idx)) (take (nat copy) data @ [0]) (vmem s)\<rparr>)"

definition form_consume :: "nat \<Rightarrow> int \<Rightarrow> 'a kfs_scheme \<Rightarrow> int \<times> bytes" where
  "form_consume idx len s =
     (let f = form_table s ! idx; copy = min len (fm_size f)
      in (copy, peek (vmem s) (fm_content f) (unat (of_int copy :: u32))))"

text \<open>The bytes of the intent table from the field \<^verbatim>\<open>buffer_block\<close> of an entry on (40 bytes per entry).\<close>

definition entry_bytes :: "intent_entry \<Rightarrow> bytes" where
  "entry_bytes e = concat (map le32
     [if en_active e then 1 else 0, of_int (en_pid e), it_type (en_intent e), it_target_hash (en_intent e),
      it_schema_hash (en_intent e), it_filter_offset (en_intent e), it_flags (en_intent e), en_handle e,
      en_buffer_block e, of_int (en_buffer_len e)])"

definition block_bytes :: "nat \<Rightarrow> 'a kintent_scheme \<Rightarrow> bytes" where
  "block_bytes i s = drop (40 * i + 32) (concat (map entry_bytes (intent_table s)))"

text \<open>The data and the form of a producing or transforming intent, if there are both.\<close>

definition produce_target :: "intent_entry \<Rightarrow> bytes option \<Rightarrow> int \<Rightarrow> 'a kfs_scheme \<Rightarrow> (bytes \<times> nat) option" where
  "produce_target e buffer len s =
     (case buffer of
        None \<Rightarrow> None
      | Some data \<Rightarrow> if len > 0 then map_option (Pair data) (target_form e s) else None)"

text \<open>The schema check and the transfer to the form.\<close>

definition fulfill_form :: "nat \<Rightarrow> nat \<Rightarrow> bytes \<Rightarrow> int \<Rightarrow> 'a kintent_scheme \<Rightarrow> (int \<times> bytes) \<times> 'a kintent_scheme" where
  "fulfill_form i idx data len s =
     (let schema = it_schema_hash (en_intent (intent_table s ! i))
      in if schema \<noteq> 0 \<and> hexafs_content_hash (take (nat len) data) \<noteq> schema then ((-1, []), s)
         else let copy = (if len < 65528 then len else 65528)
              in ((copy, []), upd_entry i (\<lambda>e. e\<lparr>en_buffer_len := copy\<rparr>) (form_produce idx data copy s)))"

definition intent_fulfill :: "u32 \<Rightarrow> bytes option \<Rightarrow> int \<Rightarrow> 'a kintent_scheme \<Rightarrow> (int \<times> bytes) \<times> 'a kintent_scheme" where
  "intent_fulfill h buffer len s =
     (case find_handle h s of
        None \<Rightarrow> ((-1, []), s)
      | Some i \<Rightarrow>
          let e = intent_table s ! i; ty = it_type (en_intent e)
          in if ty = INTENT_PRODUCE then
               (case produce_target e buffer len s of
                  Some (data, idx) \<Rightarrow> fulfill_form i idx data len s
                | None \<Rightarrow> ((len, []), upd_entry i (\<lambda>e. e\<lparr>en_buffer_block := 0, en_buffer_len := len\<rparr>) s))
             else if ty = INTENT_CONSUME then
               (if len > 0 \<and> buffer \<noteq> None then
                  (case target_form e s of
                     Some idx \<Rightarrow> (form_consume idx len s, s)
                   | None \<Rightarrow> let copy = min len (en_buffer_len e) in ((copy, take (nat copy) (block_bytes i s)), s))
                else ((0, []), s))
             else if ty = INTENT_OBSERVE then
               (if len > 0 \<and> buffer \<noteq> None then
                  (case target_form e s of Some idx \<Rightarrow> (form_consume idx len s, s) | None \<Rightarrow> ((0, []), s))
                else ((0, []), s))
             else if ty = INTENT_TRANSFORM then
               (case produce_target e buffer len s of
                  Some (data, idx) \<Rightarrow> fulfill_form i idx data len s
                | None \<Rightarrow> ((0, []), s))
             else ((0, []), s))"

definition intent_close :: "u32 \<Rightarrow> 'a kintent_scheme \<Rightarrow> int \<times> 'a kintent_scheme" where
  "intent_close h s =
     (case find_handle h s of None \<Rightarrow> (-1, s) | Some i \<Rightarrow> (0, upd_entry i (\<lambda>e. e\<lparr>en_active := False\<rparr>) s))"

definition current_pid :: "'a kproc_scheme \<Rightarrow> int" where
  "current_pid s = t_pid (tasks s ! current_task s)"

definition open_intent :: "nat \<Rightarrow> u32 \<Rightarrow> 'a kintent_scheme \<Rightarrow> int \<times> 'a kintent_scheme" where
  "open_intent idx flags s =
     (let it = \<lparr>it_type = (if flags AND 1 \<noteq> 0 then INTENT_PRODUCE else INTENT_CONSUME), it_target_hash = of_nat idx,
            it_schema_hash = 0, it_filter_offset = 0, it_flags = (if flags AND 1 \<noteq> 0 then INTENT_ONCE else INTENT_STREAM)\<rparr>
      in case intent_create (current_pid s) it s of
           (None, s1) \<Rightarrow> (-1, s1)
         | (Some h, s1) \<Rightarrow> (to_int h, s1))"

definition intent_compat_open :: "bytes \<Rightarrow> u32 \<Rightarrow> 'a kintent_scheme \<Rightarrow> (int \<times> 'a kintent_scheme) option" where
  "intent_compat_open path flags s =
     (case find_form path s of
        Some idx \<Rightarrow> Some (open_intent idx flags s)
      | None \<Rightarrow>
          if flags AND 4 = 0 then Some (-1, s)
          else do {
            s1 \<leftarrow> cmd_mkform path s;
            Some (case find_form path s1 of None \<Rightarrow> (-1, s1) | Some idx \<Rightarrow> open_intent idx flags s1)
          })"

definition find_fd :: "int \<Rightarrow> 'a kintent_scheme \<Rightarrow> nat option" where
  "find_fd fd s = find (\<lambda>i. en_active (intent_table s ! i) \<and> to_int (en_handle (intent_table s ! i)) = fd) [0..<MAX_INTENTS]"

definition intent_compat_read :: "int \<Rightarrow> bytes option \<Rightarrow> int \<Rightarrow> 'a kintent_scheme \<Rightarrow> (int \<times> bytes) \<times> 'a kintent_scheme" where
  "intent_compat_read fd buf count s =
     (case find_fd fd s of
        None \<Rightarrow> ((-1, []), s)
      | Some i \<Rightarrow>
          let ty = it_type (en_intent (intent_table s ! i))
          in if ty \<noteq> INTENT_CONSUME \<and> ty \<noteq> INTENT_OBSERVE then ((-1, []), s)
             else intent_fulfill (of_int fd) buf count s)"

text \<open>Without an entry, \<^verbatim>\<open>intent_compat_write\<close> takes the descriptor for the address of a name.\<close>

definition intent_compat_write :: "int \<Rightarrow> bytes option \<Rightarrow> int \<Rightarrow> 'a kintent_scheme \<Rightarrow> (int \<times> 'a kintent_scheme) option" where
  "intent_compat_write fd buf count s =
     (case find_fd fd s of
        None \<Rightarrow>
          do {
            name \<leftarrow> mem_str (vmem s) (of_int fd);
            Some (case find_form name s of
                None \<Rightarrow> (-1, s)
              | Some idx \<Rightarrow>
                  (case intent_create (current_pid s) \<lparr>it_type = INTENT_PRODUCE, it_target_hash = of_nat idx,
                       it_schema_hash = 0, it_filter_offset = 0, it_flags = INTENT_ONCE\<rparr> s of
                     (None, s1) \<Rightarrow> (-1, s1)
                   | (Some h, s1) \<Rightarrow> (case intent_fulfill h buf count s1 of ((r, _), s2) \<Rightarrow> (r, s2))))
          }
      | Some i \<Rightarrow>
          if it_type (en_intent (intent_table s ! i)) \<noteq> INTENT_PRODUCE then Some (-1, s)
          else Some (case intent_fulfill (of_int fd) buf count s of ((r, _), s1) \<Rightarrow> (r, s1)))"

definition intent_compat_stat :: "bytes \<Rightarrow> vfs_node \<Rightarrow> 'a kfs_scheme \<Rightarrow> int \<times> vfs_node" where
  "intent_compat_stat path node s =
     (case find_form path s of
        None \<Rightarrow> (-1, node)
      | Some idx \<Rightarrow>
          let f = form_table s ! idx
          in (0, \<lparr>vn_name = put_bytes 0 (take 31 (c_str (fm_name f)) @ [0]) (vn_name node), vn_type = 0, vn_size = fm_size f,
                  vn_owner = fm_owner f, vn_mode = fm_mode f, vn_ref_count = 1\<rparr>))"

definition intent_table_active_count :: "'a kintent_scheme \<Rightarrow> nat" where
  "intent_table_active_count s = length (filter (\<lambda>i. en_active (intent_table s ! i)) [0..<MAX_INTENTS])"

definition intent_line :: "intent_entry \<Rightarrow> piece list" where
  "intent_line e =
     (let ty = it_type (en_intent e)
      in [Txt (itoa (en_handle e) 10), Chr 32, Txt (itoa (of_int (en_pid e)) 10), Chr 32,
          Txt (if ty = INTENT_PRODUCE then cs ''PROD'' else if ty = INTENT_OBSERVE then cs ''OBSV''
               else if ty = INTENT_TRANSFORM then cs ''XFrm'' else cs ''CONS''), Chr 10])"

definition intent_list_active :: "nat \<Rightarrow> 'a kintent_scheme \<Rightarrow> bytes" where
  "intent_list_active out_len s =
     render out_len (concat (map (\<lambda>i. let e = intent_table s ! i in if en_active e then intent_line e else []) [0..<MAX_INTENTS])) []"

section \<open>What a capability check leaves alone\<close>

lemma object_read_loop_frame: "io_frame s (snd (object_read_loop bs n s))"
proof (induction bs n s rule: object_read_loop.induct)
  case (2 b bs remaining s)
  show ?case
  proof (cases "remaining = 0 \<or> b = 0")
    case False
    obtain r s1 where r: "hexafs_block_read b s = (r, s1)" by fastforce
    then have f: "io_frame s s1" using block_read_frame [of s b] by simp
    show ?thesis
    proof (cases r)
      case (Some buf)
      then have "io_frame s1 (snd (object_read_loop bs (remaining - min HEXAFS_BLOCK_SIZE remaining) s1))"
        using "2.IH" False r by simp
      then show ?thesis using io_frame_trans [OF f] False r Some by (auto simp: Let_def split: prod.splits option.splits)
    qed (use False r f in simp)
  qed simp
qed simp

lemma object_read_frame: "io_frame s (snd (hexafs_object_read_data b s))"
proof -
  obtain r s1 where r: "hexafs_block_read b s = (r, s1)" by fastforce
  then have f: "io_frame s s1" using block_read_frame [of s b] by simp
  show ?thesis
    using f io_frame_trans [OF f object_read_loop_frame] r
    by (auto simp: hexafs_object_read_data_def split: option.splits prod.splits) (metis snd_conv)+
qed

lemma grant_allows_frame: "io_frame s (snd (grant_allows pid t b s))"
proof -
  obtain r s1 where r: "hexafs_block_read b s = (r, s1)" by fastforce
  then have f: "io_frame s s1" using block_read_frame [of s b] by simp
  obtain q s2 where q: "hexafs_object_read_data b s1 = (q, s2)" by fastforce
  then have "io_frame s s2" using io_frame_trans [OF f] object_read_frame [of s1 b] by simp
  then show ?thesis using f r q by (simp add: grant_allows_def split: option.splits prod.splits)
qed

lemma cap_check_frame: "io_frame s (snd (hexafs_cap_check pid t s))"
proof -
  have "io_frame s (snd (cap_check_loop pid t bs s))" for bs
  proof (induction bs arbitrary: s)
    case (Cons b bs)
    obtain r s1 where r: "grant_allows pid t b s = (r, s1)" by fastforce
    then have f: "io_frame s s1" using grant_allows_frame [of s pid t b] by simp
    then show ?case using r io_frame_trans [OF f Cons.IH] by (cases r) auto
  qed simp
  then show ?thesis by (simp add: hexafs_cap_check_def)
qed

lemma io_frame_intent:
  fixes s :: "'a kintent_scheme"
  assumes "io_frame s s'"
  shows "intent_table s' = intent_table s" and "next_handle s' = next_handle s" and "form_table s' = form_table s"
    and "form_count s' = form_count s" and "vmem s' = vmem s" and "heap_first s' = heap_first s"
  using assms unfolding io_frame_def by auto

lemma intent_create_cases:
  fixes s :: "'a kintent_scheme"
  obtains (refused) s1 where "intent_create p it s = (None, s1)" and "io_frame s s1"
  | (granted) i s1 where "intent_create p it s = (Some (next_handle s), upd_entry i (intent_fill p it (next_handle s)) (s1\<lparr>next_handle := next_handle s + 1\<rparr>))"
      and "io_frame s s1" and "i < MAX_INTENTS" and "\<not> en_active (intent_table s ! i)"
      and "p \<noteq> 0 \<and> (it_type it = INTENT_PRODUCE \<or> it_type it = INTENT_TRANSFORM) \<longrightarrow> fst (hexafs_cap_check (of_int p) CAP_TYPE_INTENT s)"
proof -
  let ?guard = "it_type it = INTENT_PRODUCE \<or> it_type it = INTENT_TRANSFORM"
  obtain ok s0 where c: "hexafs_cap_check (of_int p) CAP_TYPE_INTENT s = (ok, s0)" by fastforce
  obtain no s1 where g: "(if ?guard then (case hexafs_cap_check (of_int p) CAP_TYPE_INTENT s of (ok, s1) \<Rightarrow> (\<not> ok \<and> p \<noteq> 0, s1)) else (False, s)) = (no, s1)"
    by fastforce
  have f: "io_frame s s1" using g c cap_check_frame [of s "of_int p" CAP_TYPE_INTENT] by (cases ?guard) auto
  show thesis
  proof (cases no)
    case True
    then show thesis using refused [of s1] g f by (simp add: intent_create_def)
  next
    case False
    show thesis
    proof (cases "find (\<lambda>i. \<not> en_active (intent_table s1 ! i)) [0..<MAX_INTENTS]")
      case None
      then show thesis using refused [of s1] g False f unfolding intent_create_def g by simp
    next
      case (Some i)
      note fi = find_upt [OF Some]
      have "p \<noteq> 0 \<and> ?guard \<longrightarrow> fst (hexafs_cap_check (of_int p) CAP_TYPE_INTENT s)" using g c False by (auto split: if_splits)
      then show thesis using granted [of i s1] Some fi f io_frame_intent [OF f] False unfolding intent_create_def g by (simp add: Let_def)
    qed
  qed
qed

section \<open>Handles\<close>

text \<open>
  The entries in use have distinct handles that were given out before, and only producing and
  transforming entries have a buffer length.
\<close>

definition intents_inv :: "'a kintent_scheme \<Rightarrow> bool" where
  "intents_inv s \<longleftrightarrow> length (intent_table s) = MAX_INTENTS \<and> next_handle s \<noteq> 0 \<and>
     (\<forall>i < MAX_INTENTS. en_active (intent_table s ! i) \<longrightarrow>
        0 < en_handle (intent_table s ! i) \<and> en_handle (intent_table s ! i) < next_handle s \<and>
        (it_type (en_intent (intent_table s ! i)) = INTENT_CONSUME \<longrightarrow> en_buffer_len (intent_table s ! i) = 0) \<and>
        (\<forall>j < MAX_INTENTS. en_active (intent_table s ! j) \<and> en_handle (intent_table s ! j) = en_handle (intent_table s ! i) \<longrightarrow> j = i))"

definition entry_ok :: "u32 \<Rightarrow> intent_entry \<Rightarrow> bool" where
  "entry_ok nh e \<longleftrightarrow> 0 < en_handle e \<and> en_handle e < nh \<and> (it_type (en_intent e) = INTENT_CONSUME \<longrightarrow> en_buffer_len e = 0)"

lemma intents_inv_alt:
  "intents_inv s \<longleftrightarrow> length (intent_table s) = MAX_INTENTS \<and> next_handle s \<noteq> 0 \<and>
     (\<forall>i < MAX_INTENTS. en_active (intent_table s ! i) \<longrightarrow> entry_ok (next_handle s) (intent_table s ! i)) \<and>
     (\<forall>i < MAX_INTENTS. \<forall>j < MAX_INTENTS. en_active (intent_table s ! i) \<and> en_active (intent_table s ! j) \<and>
        en_handle (intent_table s ! j) = en_handle (intent_table s ! i) \<longrightarrow> j = i)"
  unfolding intents_inv_def entry_ok_def by blast

text \<open>Replacing an entry by one that is inactive, keeps its handle or has the new handle.\<close>

lemma intents_inv_update:
  assumes inv: "intents_inv s" and t: "intent_table s' = (intent_table s)[i := e]" and nh: "next_handle s \<le> next_handle s'"
    and i: "i < MAX_INTENTS" and ok: "en_active e \<longrightarrow> entry_ok (next_handle s') e"
    and h: "en_active e \<longrightarrow> en_handle e \<ge> next_handle s \<or> (en_active (intent_table s ! i) \<and> en_handle e = en_handle (intent_table s ! i))"
  shows "intents_inv s'"
proof -
  have l: "length (intent_table s) = MAX_INTENTS" using inv by (simp add: intents_inv_def)
  have nth: "intent_table s' ! j = (if j = i then e else intent_table s ! j)" for j
    using t i l by (simp add: nth_list_update)
  have ok': "en_active (intent_table s ! j) \<longrightarrow> entry_ok (next_handle s') (intent_table s ! j)" if "j < MAX_INTENTS" for j
    using inv that nh unfolding intents_inv_alt entry_ok_def by (meson order_less_le_trans)
  have old: "en_handle (intent_table s ! j) < next_handle s" if "j < MAX_INTENTS" "en_active (intent_table s ! j)" for j
    using inv that unfolding intents_inv_alt entry_ok_def by blast
  have one: "j = i" if "j < MAX_INTENTS" "en_active e" "en_active (intent_table s ! j)" "en_handle (intent_table s ! j) = en_handle e" for j
  proof (cases "en_handle e \<ge> next_handle s")
    case True
    then show ?thesis using old [OF that(1,3)] that(4) by simp
  next
    case False
    then show ?thesis using h that i inv unfolding intents_inv_alt by metis
  qed
  have "next_handle s' \<noteq> 0" using inv nh unfolding intents_inv_def by (metis word_coorder.extremum_uniqueI)
  moreover have "j = k" if "j < MAX_INTENTS" "k < MAX_INTENTS" "en_active (intent_table s' ! k)" "en_active (intent_table s' ! j)"
    "en_handle (intent_table s' ! j) = en_handle (intent_table s' ! k)" for j k
  proof (cases "j = i \<or> k = i")
    case True
    then show ?thesis using one that nth by (metis (full_types))
  next
    case False
    then show ?thesis using inv that nth unfolding intents_inv_alt by simp
  qed
  ultimately show ?thesis using t l ok ok' nth unfolding intents_inv_alt by auto
qed

lemma create_inv:
  assumes inv: "intents_inv s" and nh: "next_handle s + 1 \<noteq> 0"
  shows "intents_inv (snd (intent_create p it s))" and "unat (next_handle (snd (intent_create p it s))) \<le> unat (next_handle s) + 1"
proof -
  have u: "unat (next_handle s + 1) = unat (next_handle s) + 1" using nh by (metis Suc_eq_plus1 add.commute unatSuc)
  have "intents_inv (snd (intent_create p it s)) \<and> unat (next_handle (snd (intent_create p it s))) \<le> unat (next_handle s) + 1"
  proof (cases rule: intent_create_cases [of p it s])
    case (refused s1)
    then show ?thesis using inv io_frame_intent [OF refused(2)] by (simp add: intents_inv_def)
  next
    case (granted i s1)
    let ?s = "upd_entry i (intent_fill p it (next_handle s)) (s1\<lparr>next_handle := next_handle s + 1\<rparr>)"
    have t: "intent_table ?s = (intent_table s)[i := intent_fill p it (next_handle s) (intent_table s ! i)]"
      "next_handle ?s = next_handle s + 1" using io_frame_intent [OF granted(2)] by (simp_all add: upd_entry_def)
    have lt: "next_handle s < next_handle s + 1" "0 < next_handle s" using u inv by (simp_all add: word_less_nat_alt intents_inv_def unat_gt_0)
    have "intents_inv ?s"
      by (rule intents_inv_update [OF inv t(1) _ granted(3)]) (use t(2) lt in \<open>simp_all add: entry_ok_def intent_fill_def\<close>)
    then show ?thesis using granted(1) t(2) u by simp
  qed
  then show "intents_inv (snd (intent_create p it s))" "unat (next_handle (snd (intent_create p it s))) \<le> unat (next_handle s) + 1" by simp_all
qed

lemma find_handle_Some:
  assumes "find_handle h s = Some i"
  shows "i < MAX_INTENTS" and "en_active (intent_table s ! i)" and "en_handle (intent_table s ! i) = h"
  using find_upt [OF assms [unfolded find_handle_def]] by simp_all

lemma find_handle_eq:
  assumes "intents_inv s" and "i < MAX_INTENTS" and "en_active (intent_table s ! i)"
  shows "find_handle (en_handle (intent_table s ! i)) s = Some i"
proof (cases "find_handle (en_handle (intent_table s ! i)) s")
  case None
  then show ?thesis using assms(2,3) unfolding find_handle_def find_None_iff by auto
next
  case (Some j)
  then show ?thesis using find_handle_Some [OF Some] assms unfolding intents_inv_alt by metis
qed

lemma form_produce_fields [simp]:
  fixes s :: "'a kintent_scheme"
  shows "intent_table (form_produce idx data copy s) = intent_table s" "next_handle (form_produce idx data copy s) = next_handle s"
  by (simp_all add: form_produce_def upd_form_def)

definition fulfill_frame :: "nat \<Rightarrow> 'a kintent_scheme \<Rightarrow> 'a kintent_scheme \<Rightarrow> bool" where
  "fulfill_frame i s s' \<longleftrightarrow> next_handle s' = next_handle s \<and> (intent_table s' = intent_table s \<or>
     it_type (en_intent (intent_table s ! i)) \<noteq> INTENT_CONSUME \<and>
     (\<exists>b l. intent_table s' = (intent_table s)[i := (intent_table s ! i)\<lparr>en_buffer_block := b, en_buffer_len := l\<rparr>]))"

lemma fulfill_frame_same: "fulfill_frame i s s"
  by (simp add: fulfill_frame_def)

lemma fulfill_form_frame:
  assumes "it_type (en_intent (intent_table s ! i)) \<noteq> INTENT_CONSUME"
  shows "fulfill_frame i s (snd (fulfill_form i idx data len s))"
proof -
  have "fulfill_frame i s (upd_entry i (\<lambda>e. e\<lparr>en_buffer_len := c\<rparr>) (form_produce idx data c s))" for c
    unfolding fulfill_frame_def
    by (rule conjI, simp add: upd_entry_def, rule disjI2, rule conjI [OF assms],
        rule exI [of _ "en_buffer_block (intent_table s ! i)"], rule exI [of _ c]) (simp add: upd_entry_def)
  then show ?thesis by (simp add: fulfill_form_def Let_def fulfill_frame_same)
qed

lemma fulfill_frame:
  assumes "find_handle h s = Some i"
  shows "fulfill_frame i s (snd (intent_fulfill h buf len s))"
proof -
  let ?ty = "it_type (en_intent (intent_table s ! i))"
  have p: "fulfill_frame i s (upd_entry i (\<lambda>e. e\<lparr>en_buffer_block := 0, en_buffer_len := len\<rparr>) s)" if "?ty \<noteq> INTENT_CONSUME"
    unfolding fulfill_frame_def
    by (rule conjI, simp add: upd_entry_def, rule disjI2, rule conjI [OF that],
        rule exI [of _ 0], rule exI [of _ len]) (simp add: upd_entry_def)
  consider "?ty = INTENT_PRODUCE" | "?ty = INTENT_CONSUME" | "?ty = INTENT_OBSERVE" | "?ty = INTENT_TRANSFORM"
    | "?ty \<noteq> INTENT_PRODUCE" "?ty \<noteq> INTENT_CONSUME" "?ty \<noteq> INTENT_OBSERVE" "?ty \<noteq> INTENT_TRANSFORM" by blast
  then show ?thesis
  proof cases
    case 1
    then show ?thesis using assms fulfill_form_frame [of s i] p
      by (cases "produce_target (intent_table s ! i) buf len s") (auto simp: intent_fulfill_def Let_def)
  next
    case 2
    then show ?thesis using assms
      by (cases "target_form (intent_table s ! i) s") (simp_all add: intent_fulfill_def Let_def fulfill_frame_same)
  next
    case 3
    then show ?thesis using assms
      by (cases "target_form (intent_table s ! i) s") (simp_all add: intent_fulfill_def Let_def fulfill_frame_same)
  next
    case 4
    then show ?thesis using assms fulfill_form_frame [of s i]
      by (cases "produce_target (intent_table s ! i) buf len s") (auto simp: intent_fulfill_def Let_def fulfill_frame_same)
  next
    case 5
    then show ?thesis using assms by (simp add: intent_fulfill_def Let_def fulfill_frame_same)
  qed
qed

lemma fulfill_inv:
  assumes inv: "intents_inv s"
  shows "intents_inv (snd (intent_fulfill h buf len s))" and "next_handle (snd (intent_fulfill h buf len s)) = next_handle s"
proof -
  let ?s = "snd (intent_fulfill h buf len s)"
  have "intents_inv ?s \<and> next_handle ?s = next_handle s"
  proof (cases "find_handle h s")
    case None
    then show ?thesis using inv by (simp add: intent_fulfill_def)
  next
    case (Some i)
    note fi = find_handle_Some [OF Some]
    note fr = fulfill_frame [OF Some, of buf len]
    then have nh: "next_handle ?s = next_handle s" by (simp add: fulfill_frame_def)
    show ?thesis
    proof (cases "intent_table ?s = intent_table s")
      case True
      then show ?thesis using inv nh by (simp add: intents_inv_def)
    next
      case False
      then obtain b l where t: "intent_table ?s = (intent_table s)[i := (intent_table s ! i)\<lparr>en_buffer_block := b, en_buffer_len := l\<rparr>]"
        and ty: "it_type (en_intent (intent_table s ! i)) \<noteq> INTENT_CONSUME" using fr by (auto simp: fulfill_frame_def)
      have "entry_ok (next_handle s) (intent_table s ! i)" using inv fi unfolding intents_inv_alt by blast
      then have "intents_inv ?s"
        by (intro intents_inv_update [OF inv t _ fi(1)]) (use nh ty fi in \<open>simp_all add: entry_ok_def\<close>)
      then show ?thesis using nh by simp
    qed
  qed
  then show "intents_inv ?s" "next_handle ?s = next_handle s" by simp_all
qed

lemma close_inv:
  assumes inv: "intents_inv s"
  shows "intents_inv (snd (intent_close h s))" and "next_handle (snd (intent_close h s)) = next_handle s"
proof -
  let ?s = "snd (intent_close h s)"
  have "intents_inv ?s \<and> next_handle ?s = next_handle s"
  proof (cases "find_handle h s")
    case (Some i)
    then have t: "intent_table ?s = (intent_table s)[i := (intent_table s ! i)\<lparr>en_active := False\<rparr>]" "next_handle ?s = next_handle s"
      by (simp_all add: intent_close_def upd_entry_def)
    have "intents_inv ?s"
      by (intro intents_inv_update [OF inv t(1) _ find_handle_Some(1) [OF Some]]) (use t(2) in simp_all)
    then show ?thesis using t(2) by simp
  qed (use inv in \<open>simp add: intent_close_def\<close>)
  then show "intents_inv ?s" "next_handle ?s = next_handle s" by simp_all
qed

datatype intent_call = ICreate int intent | IFulfill u32 "bytes option" int | IClose u32

fun run_intent :: "intent_call \<Rightarrow> 'a kintent_scheme \<Rightarrow> 'a kintent_scheme" where
  "run_intent (ICreate p it) s = snd (intent_create p it s)"
| "run_intent (IFulfill h buf len) s = snd (intent_fulfill h buf len s)"
| "run_intent (IClose h) s = snd (intent_close h s)"

lemma run_intent_inv:
  assumes "intents_inv s" and "next_handle s + 1 \<noteq> 0"
  shows "intents_inv (run_intent c s) \<and> unat (next_handle (run_intent c s)) \<le> unat (next_handle s) + 1"
  using create_inv [OF assms] fulfill_inv [OF assms(1)] close_inv [OF assms(1)] by (cases c) simp_all

lemma no_wrap:
  fixes w :: u32
  assumes "unat w < 2 ^ 32 - 1"
  shows "w + 1 \<noteq> 0"
proof
  assume "w + 1 = 0"
  then have "w = -1" by (simp add: eq_neg_iff_add_eq_0)
  then have "unat w = 2 ^ 32 - 1" by (simp add: unsigned_minus_1_eq_mask mask_eq_exp_minus_1)
  then show False using assms by simp
qed

lemma run_intents_inv:
  "intents_inv s \<Longrightarrow> unat (next_handle s) + length calls < 2 ^ 32 \<Longrightarrow>
     intents_inv (fold run_intent calls s) \<and> unat (next_handle (fold run_intent calls s)) \<le> unat (next_handle s) + length calls"
proof (induction calls arbitrary: s)
  case (Cons c calls)
  have n: "next_handle s + 1 \<noteq> 0" using Cons.prems(2) by (intro no_wrap) simp
  note r = run_intent_inv [OF Cons.prems(1) n, of c]
  then show ?case using Cons.IH [of "run_intent c s"] Cons.prems(2) by simp
qed simp

lemma intent_init_inv: "intents_inv (intent_init s)" and intent_init_next: "next_handle (intent_init s) = 1"
proof -
  have f: "intent_table (log_write l m t) = intent_table t" "next_handle (log_write l m t) = next_handle t"
    for l m and t :: "'b kintent_scheme" by (subst log_write_frame, simp)+
  show "intents_inv (intent_init s)" by (simp add: intents_inv_def intent_init_def f zero_entry_def)
  show "next_handle (intent_init s) = 1" by (simp add: intent_init_def f)
qed

text \<open>
  A handle is the name of one intent.  In every state reached from \<^verbatim>\<open>intent_init\<close> by fewer than
  \<open>2 ^ 32 - 2\<close> calls (before the counter wraps), each intent in use is the one its handle finds, the handle of
  a new intent is not zero and not in use, so no process gets at the intent of another by accident, and a
  closed handle is not found any more.
\<close>

theorem intent_handles_unique:
  fixes s :: "'a kintent_scheme"
  assumes "length calls < 2 ^ 32 - 2" and "s' = fold run_intent calls (intent_init s)"
  shows "(\<forall>i < MAX_INTENTS. en_active (intent_table s' ! i) \<longrightarrow> find_handle (en_handle (intent_table s' ! i)) s' = Some i) \<and>
    (\<forall>p it h s''. intent_create p it s' = (Some h, s'') \<longrightarrow> h \<noteq> 0 \<and> find_handle h s' = None \<and> find_handle h s'' \<noteq> None) \<and>
    (\<forall>h. find_handle h (snd (intent_close h s')) = None)"
proof -
  have inv: "intents_inv s'" and "unat (next_handle s') \<le> 1 + length calls"
    using run_intents_inv [OF intent_init_inv, of s calls] assms by (simp_all add: intent_init_next)
  then have "unat (next_handle s') < 2 ^ 32 - 1" using assms(1) by simp
  then have n: "next_handle s' + 1 \<noteq> 0" by (rule no_wrap)
  have old: "find_handle (next_handle s') s' = None"
  proof (cases "find_handle (next_handle s') s'")
    case (Some i)
    then show ?thesis using find_handle_Some [OF Some] inv unfolding intents_inv_alt entry_ok_def by (metis less_irrefl)
  qed
  have new: "h \<noteq> 0 \<and> find_handle h s' = None \<and> find_handle h s'' \<noteq> None" if c: "intent_create p it s' = (Some h, s'')" for p it h s''
  proof (cases rule: intent_create_cases [of p it s'])
    case (refused s1)
    then show ?thesis using c by simp
  next
    case (granted i s1)
    have e: "h = next_handle s'" "intent_table s'' = (intent_table s')[i := intent_fill p it h (intent_table s' ! i)]"
      using granted(1) c io_frame_intent [OF granted(2)] by (auto simp: upd_entry_def)
    have "intents_inv s''" using create_inv(1) [OF inv n, of p it] c by simp
    moreover have "intent_table s'' ! i = intent_fill p it h (intent_table s' ! i)"
      using e(2) inv granted(3) by (simp add: intents_inv_def)
    ultimately have "find_handle h s'' = Some i"
      using find_handle_eq [of s'' i] granted(3) by (simp add: intent_fill_def)
    then show ?thesis using old e(1) inv by (simp add: intents_inv_def)
  qed
  have closed: "find_handle h (snd (intent_close h s')) = None" for h
  proof (cases "find_handle h s'")
    case None
    then show ?thesis by (simp add: intent_close_def)
  next
    case (Some i)
    note fi = find_handle_Some [OF Some]
    have t: "intent_table (snd (intent_close h s')) = (intent_table s')[i := (intent_table s' ! i)\<lparr>en_active := False\<rparr>]"
      using Some by (simp add: intent_close_def upd_entry_def)
    show ?thesis
    proof (cases "find_handle h (snd (intent_close h s'))")
      case (Some j)
      note fj = find_handle_Some [OF Some]
      have "j \<noteq> i" using fj(2) t fi(1) inv by (auto simp: intents_inv_def)
      then have "en_active (intent_table s' ! j)" "en_handle (intent_table s' ! j) = h" using fj t by simp_all
      then show ?thesis using inv fi fj(1) \<open>j \<noteq> i\<close> unfolding intents_inv_alt by metis
    qed
  qed
  show ?thesis using find_handle_eq [OF inv] new closed by blast
qed

section \<open>Producing and consuming a form\<close>

lemma forms_upd_entry:
  fixes s :: "'a kintent_scheme"
  shows "forms_rep L (upd_entry i g s) = forms_rep L s" and "forms (upd_entry i g s) = forms s" and "form_table (upd_entry i g s) = form_table s"
    and "form_count (upd_entry i g s) = form_count s" and "vmem (upd_entry i g s) = vmem s"
  by (rule forms_cong, simp_all add: upd_entry_def)+

lemma form_size_text: "forms_rep L s \<Longrightarrow> i < form_count s \<Longrightarrow> fm_size (form_table s ! i) = int (length (form_text s (form_table s ! i)))"
  using forms_rep_ok [of L s i] by (simp add: form_text_def form_ok_def)

lemma form_produce_text:
  fixes s :: "'a kfs_scheme"
  assumes r: "forms_rep L s" and i: "idx < form_count s" and cap: "int (length data) < fm_cap (form_table s ! idx)"
  shows "forms_rep L (form_produce idx data (int (length data)) s) \<and>
    forms (form_produce idx data (int (length data)) s) =
      (forms s)[idx := (case forms s ! idx of (nm, t, a) \<Rightarrow> (nm, overwrite 0 data t, a))]"
proof -
  let ?f = "form_table s ! idx"
  obtain nm t ow md where e: "forms s ! idx = (nm, t, ow, md)" using prod_cases4 by blast
  have sz: "0 \<le> fm_size ?f" "fm_size ?f < fm_cap ?f" using forms_rep_ok [OF r i] by (simp_all add: form_ok_def)
  have t: "t = form_text s ?f" "length t = nat (fm_size ?f)" using forms_nth [OF r i] e by (simp_all add: form_view_def form_text_def)
  have n: "nat (max (fm_size ?f) (int (length data))) = max (length t) (0 + length data)" using t(2) sz(1) by (simp add: max_def) linarith
  have k: "\<forall>k < length t. k_byte s (block_of ?f + k) = t ! k" using t by (auto simp: form_text_def)
  have ov: "map (\<lambda>k. if 0 \<le> int k \<and> int k < 0 + int (length (data @ [0])) then (data @ [0]) ! (k - nat 0) else k_byte s (block_of ?f + k))
      [0..<nat (max (fm_size ?f) (int (length data)))] = overwrite 0 data t"
    using overwrite_map [OF le0 k, of data] unfolding n by (simp cong del: if_weak_cong)
  have c: "0 + int (length (data @ [0])) \<le> fm_cap ?f" "0 \<le> max (fm_size ?f) (int (length data))" "max (fm_size ?f) (int (length data)) < fm_cap ?f"
    using cap sz by simp_all
  have p: "form_produce idx data (int (length data)) s = form_store idx 0 (data @ [0]) (max (fm_size ?f) (int (length data))) s"
    by (simp add: form_produce_def form_store_def upd_form_def)
  show ?thesis using form_store_ok [OF r i order_refl c] unfolding p e prod.case ov by simp
qed

definition intent_on :: "u32 \<Rightarrow> u32 \<Rightarrow> nat \<Rightarrow> 'a kintent_scheme \<Rightarrow> bool" where
  "intent_on ty h idx s \<longleftrightarrow> (\<exists>i. find_handle h s = Some i \<and> it_type (en_intent (intent_table s ! i)) = ty \<and>
     target_form (intent_table s ! i) s = Some idx)"

definition schema_of :: "u32 \<Rightarrow> 'a kintent_scheme \<Rightarrow> u32" where
  "schema_of h s = (case find_handle h s of None \<Rightarrow> 0 | Some i \<Rightarrow> it_schema_hash (en_intent (intent_table s ! i)))"

text \<open>
  A producing intent passes data on to a consuming one, under its schema.  On a well formed form table,
  data that do not have the declared content hash are refused and nothing changes; otherwise, if they fit
  the capacity of the form, they replace the start of its text and no other form changes, and fulfilling
  a consuming intent on the same form delivers exactly these bytes.
\<close>

theorem intent_produce_consume:
  fixes s :: "'a kintent_scheme"
  assumes inv: "forms_inv s" and prod: "intent_on INTENT_PRODUCE h idx s" and cons: "intent_on INTENT_CONSUME h' idx s"
    and len: "0 < length data" "length data < 65528" "int (length data) < fm_cap (form_table s ! idx)"
  shows "if schema_of h s \<noteq> 0 \<and> hexafs_content_hash data \<noteq> schema_of h s
    then intent_fulfill h (Some data) (int (length data)) s = ((-1, []), s)
    else \<exists>s'. intent_fulfill h (Some data) (int (length data)) s = ((int (length data), []), s') \<and> forms_inv s' \<and>
      forms s' = (forms s)[idx := (case forms s ! idx of (nm, t, a) \<Rightarrow> (nm, overwrite 0 data t, a))] \<and>
      intent_fulfill h' (Some buf) (int (length data)) s' = ((int (length data), data), s')"
proof -
  obtain L where r: "forms_rep L s" using inv by (auto simp: forms_inv_def)
  obtain i where p: "find_handle h s = Some i" "it_type (en_intent (intent_table s ! i)) = INTENT_PRODUCE"
    "target_form (intent_table s ! i) s = Some idx" using prod by (auto simp: intent_on_def)
  obtain j where c: "find_handle h' s = Some j" "it_type (en_intent (intent_table s ! j)) = INTENT_CONSUME"
    "target_form (intent_table s ! j) s = Some idx" using cons by (auto simp: intent_on_def)
  have idx: "idx < form_count s" using p(3) by (auto simp: target_form_def Let_def split: if_splits)
  have t: "produce_target (intent_table s ! i) (Some data) (int (length data)) s = Some (data, idx)"
    using p(3) len(1) by (simp add: produce_target_def)
  have f: "intent_fulfill h (Some data) (int (length data)) s = fulfill_form i idx data (int (length data)) s"
    using p t by (simp add: intent_fulfill_def)
  show ?thesis
  proof (cases "schema_of h s \<noteq> 0 \<and> hexafs_content_hash data \<noteq> schema_of h s")
    case True
    then show ?thesis using f p(1) by (simp add: fulfill_form_def schema_of_def)
  next
    case False
    let ?p = "form_produce idx data (int (length data)) s"
    let ?s = "upd_entry i (\<lambda>e. e\<lparr>en_buffer_len := int (length data)\<rparr>) ?p"
    have e: "intent_fulfill h (Some data) (int (length data)) s = ((int (length data), []), ?s)"
      using f False p(1) len(2) by (simp add: fulfill_form_def schema_of_def Let_def)
    note fp = form_produce_text [OF r idx len(3)]
    then have rep: "forms_rep L ?s" and fs: "forms ?s = (forms s)[idx := (case forms s ! idx of (nm, t, a) \<Rightarrow> (nm, overwrite 0 data t, a))]"
      by (simp_all add: forms_upd_entry)
    have ij: "j \<noteq> i" using p(2) c(2) by auto
    have tb: "intent_table ?s = (intent_table s)[i := (intent_table s ! i)\<lparr>en_buffer_len := int (length data)\<rparr>]"
      by (simp add: upd_entry_def)
    have ent: "en_active (intent_table ?s ! k) = en_active (intent_table s ! k) \<and> en_handle (intent_table ?s ! k) = en_handle (intent_table s ! k)" for k
      unfolding tb by (cases "k = i"; cases "i < length (intent_table s)") (simp_all add: list_update_beyond)
    have hh: "find_handle h' ?s = Some j" using c(1) by (simp add: find_handle_def ent)
    have ct: "form_count ?s = form_count s" by (simp add: forms_upd_entry form_produce_def)
    have cj: "intent_table ?s ! j = intent_table s ! j" using tb ij by simp
    have tj: "target_form (intent_table ?s ! j) ?s = Some idx" using c(3) ct cj by (simp add: target_form_def)
    obtain nm t a where n: "forms s ! idx = (nm, t, a)" using prod_cases3 by blast
    have tx: "form_text ?s (form_table ?s ! idx) = overwrite 0 data t"
      using forms_nth [OF rep, of idx] fs n idx ct length_forms [OF r] by (simp add: form_view_def)
    have sz: "fm_size (form_table ?s ! idx) = int (length (overwrite 0 data t))"
      using form_size_text [OF rep, of idx] idx ct unfolding tx by (simp only:)
    have ge: "length data \<le> length (overwrite 0 data t)" by (simp add: overwrite_def)
    have u: "unat (of_int (int (length data)) :: u32) = length data"
      unfolding of_int_of_nat_eq by (rule word_of_nat_less_eq) (use len(2) in simp)
    have "peek (vmem ?s) (fm_content (form_table ?s ! idx)) (length data) = data"
      using peek_form_text [OF rep, of idx 0 "length data"] idx ct sz ge tx overwrite_read [of 0 t data] by simp
    then have "form_consume idx (int (length data)) ?s = (int (length data), data)"
      using sz ge u by (simp add: form_consume_def min_def)
    then have "intent_fulfill h' (Some buf) (int (length data)) ?s = ((int (length data), data), ?s)"
      using hh cj c(2) tj len(1) by (simp add: intent_fulfill_def)
    moreover have "forms_inv ?s" using rep by (auto simp: forms_inv_def)
    ultimately show ?thesis using e fs False by auto
  qed
qed

text \<open>The capacity is not consulted: longer data are stored behind the block of the form.\<close>

lemma produce_ignores_capacity:
  "vmem (form_produce idx data (int (length data)) s) =
     poke (fm_content (form_table s ! idx)) (data @ [0]) (vmem s) \<and>
   fm_cap (form_table (form_produce idx data (int (length data)) s) ! idx) = fm_cap (form_table s ! idx)"
  by (cases "idx < length (form_table s)") (simp_all add: form_produce_def list_update_beyond)

text \<open>
  Producing needs a capability.  No process but the kernel (pid 0) gets an intent that produces or
  transforms a form unless the capability check grants it the intent capability; a refused request leaves the
  table of intents and all forms as they are.
\<close>

theorem intent_create_needs_capability:
  fixes s :: "'a kintent_scheme"
  assumes "p \<noteq> 0" and "it_type it = INTENT_PRODUCE \<or> it_type it = INTENT_TRANSFORM" and "\<not> fst (hexafs_cap_check (of_int p) CAP_TYPE_INTENT s)"
  shows "\<exists>s'. intent_create p it s = (None, s') \<and> intent_table s' = intent_table s \<and> next_handle s' = next_handle s \<and>
    form_table s' = form_table s \<and> vmem s' = vmem s"
proof (cases rule: intent_create_cases [of p it s])
  case (refused s1)
  then show ?thesis using io_frame_intent [OF refused(2)] by blast
qed (use assms in blast)

section \<open>Examples\<close>

definition bss_kvfs :: kvfs where
  "bss_kvfs = kusr.extend boot_kusr \<lparr>vfs_fds = replicate VFS_MAX_FDS bss_fd\<rparr>"

definition bss_kintent :: kintent where
  "bss_kintent = kvfs.extend bss_kvfs \<lparr>intent_table = replicate MAX_INTENTS zero_entry, next_handle = 0\<rparr>"

theorem intent_handles_unique_witness:
  "\<exists>s' :: kintent. s' = fold run_intent [ICreate 1 \<lparr>it_type = INTENT_CONSUME, it_target_hash = 0, it_schema_hash = 0,
     it_filter_offset = 0, it_flags = 0\<rparr>, IClose 1] (intent_init bss_kintent) \<and> (\<forall>h. find_handle h (snd (intent_close h s')) = None)"
proof -
  let ?cs = "[ICreate 1 \<lparr>it_type = INTENT_CONSUME, it_target_hash = 0, it_schema_hash = 0, it_filter_offset = 0, it_flags = 0\<rparr>, IClose 1]"
  have "length ?cs < 2 ^ 32 - 2" by simp
  from intent_handles_unique [OF this refl, of bss_kintent] show ?thesis by blast
qed

theorem intent_create_needs_capability_witness:
  "\<exists>s' :: kintent. intent_create 1 \<lparr>it_type = INTENT_PRODUCE, it_target_hash = 0, it_schema_hash = 0,
     it_filter_offset = 0, it_flags = 0\<rparr> bss_kintent = (None, s') \<and> intent_table s' = intent_table bss_kintent"
proof -
  have "cap_grant_count bss_kintent = 0"
    by (simp add: bss_kintent_def bss_kvfs_def boot_kusr_def bss_kusr_def bss_kfs_def kfs.defs knet.defs kusr.defs kvfs.defs)
  then have "\<not> fst (hexafs_cap_check (of_int 1) CAP_TYPE_INTENT bss_kintent)" by (simp add: hexafs_cap_check_def)
  then show ?thesis
    using intent_create_needs_capability [of 1 "\<lparr>it_type = INTENT_PRODUCE, it_target_hash = 0, it_schema_hash = 0,
      it_filter_offset = 0, it_flags = 0\<rparr>" bss_kintent] by auto
qed

lemma one_form_intents:
  "\<exists>s :: kintent. forms_inv s \<and> intent_on INTENT_PRODUCE 1 0 s \<and> intent_on INTENT_CONSUME 2 0 s \<and> schema_of 1 s = 0 \<and> fm_cap (form_table s ! 0) = 100"
proof -
  obtain s :: kusr where s: "forms_inv s" "form_count s = 1" "fm_cap (form_table s ! 0) = 100"
    using one_form_example by blast
  let ?e = "\<lambda>ty h. zero_entry\<lparr>en_active := True, en_handle := h, en_intent := (en_intent zero_entry)\<lparr>it_type := ty\<rparr>\<rparr>"
  let ?s = "kvfs.extend (kusr.extend s \<lparr>vfs_fds = []\<rparr>)
    \<lparr>intent_table = ?e INTENT_PRODUCE 1 # ?e INTENT_CONSUME 2 # replicate 62 zero_entry, next_handle = 3\<rparr> :: kintent"
  have e: "[0..<MAX_INTENTS] = 0 # 1 # [2..<64]" by (simp add: upt_rec)
  have h: "find_handle 1 ?s = Some 0" "find_handle 2 ?s = Some 1" unfolding find_handle_def e by (simp_all add: kvfs.defs)
  have t: "target_form (?e ty h) ?s = Some 0" for ty h using s(2) by (simp add: target_form_def zero_entry_def kvfs.defs kusr.defs to_int_def)
  have "intent_on INTENT_PRODUCE 1 0 ?s" "intent_on INTENT_CONSUME 2 0 ?s" "schema_of 1 ?s = 0"
    using h t by (simp_all add: intent_on_def schema_of_def kvfs.defs zero_entry_def)
  moreover have "forms_inv ?s" using s(1) forms_cong(3) [of ?s s] by (simp add: kvfs.defs kusr.defs)
  moreover have "fm_cap (form_table ?s ! 0) = 100" using s(3) by (simp add: kvfs.defs kusr.defs)
  ultimately show ?thesis by (intro exI [of _ ?s]) simp
qed

theorem intent_produce_consume_witness:
  "\<exists>s s' :: kintent. intent_fulfill 1 (Some (cs ''hello'')) (int (length (cs ''hello''))) s = ((int (length (cs ''hello'')), []), s') \<and>
     intent_fulfill 2 (Some []) (int (length (cs ''hello''))) s' = ((int (length (cs ''hello'')), cs ''hello''), s')"
proof -
  obtain s :: kintent where s: "forms_inv s" "intent_on INTENT_PRODUCE 1 0 s" "intent_on INTENT_CONSUME 2 0 s" "schema_of 1 s = 0"
    "fm_cap (form_table s ! 0) = 100" using one_form_intents by blast
  have l: "0 < length (cs ''hello'')" "length (cs ''hello'') < 65528" "int (length (cs ''hello'')) < fm_cap (form_table s ! 0)"
    using s(5) by (simp_all add: cs_def)
  show ?thesis using intent_produce_consume [OF s(1-3) l, of "[]"] s(4) by auto
qed

end
