(* ===== verification/Hexa_Store.thy ===== *)
theory Hexa_Store
  imports Hexa_Object
begin

text \<open>
  The chain of snapshots (\<^verbatim>\<open>hexafs_disk.c\<close>: \<^verbatim>\<open>hexafs_snap_create\<close>, \<^verbatim>\<open>hexafs_snap_find\<close>).  Each snapshot block
  names its parent, and the search follows these links without a bound.  It ends because the links form
  a finite path from the root, which creating snapshots and writing elsewhere preserve.
\<close>

section \<open>The path of snapshots\<close>

abbreviation root_snap :: "'a kdisk_scheme \<Rightarrow> u32" where "root_snap s \<equiv> sb_root_snap_block (sb_cache s)"

primrec snap_path :: "'a kdisk_scheme \<Rightarrow> u32 \<Rightarrow> u32 list \<Rightarrow> bool" where
  "snap_path s b [] \<longleftrightarrow> b = 0"
| "snap_path s b (x # xs) \<longleftrightarrow> b = x \<and> used_lba x s \<and> snap_magic (blk s x) = HEXAFS_SNAP_MAGIC \<and>
     snap_path s (snap_parent (blk s x)) xs"

definition snap_named :: "'a kdisk_scheme \<Rightarrow> bytes \<Rightarrow> u32 \<Rightarrow> bool" where
  "snap_named s name b \<longleftrightarrow> c_at name 0 \<noteq> 0 \<and> name_match 32 (snap_name (blk s b)) name"

definition first_named :: "'a kdisk_scheme \<Rightarrow> bytes \<Rightarrow> u32 list \<Rightarrow> u32" where
  "first_named s name bs = (case find (snap_named s name) bs of None \<Rightarrow> 0 | Some b \<Rightarrow> b)"

lemma used_lba_valid: "used_lba b s \<Longrightarrow> valid_lba b \<and> b \<noteq> 0"
  by (auto simp: used_lba_def valid_lba_def)

lemma snap_path_used: "snap_path s b bs \<Longrightarrow> x \<in> set bs \<Longrightarrow> used_lba x s"
  by (induction bs arbitrary: b) auto

lemma snap_path_frame:
  "snap_path s b bs \<Longrightarrow> \<forall>x \<in> set bs. blk s' x = blk s x \<and> used_lba x s' \<Longrightarrow> snap_path s' b bs"
  by (induction bs arbitrary: b) auto

lemma snap_path_io: "snap_path s b bs \<Longrightarrow> blk s' = blk s \<Longrightarrow> disk_used s' = disk_used s \<Longrightarrow> snap_path s' b bs"
  by (rule snap_path_frame) (auto simp: used_lba_def dest: snap_path_used)

text \<open>The search along a path: it ends with the first snapshot of the name, or 0.\<close>

lemma snap_find_loop_path:
  "snap_path s b bs \<Longrightarrow> disk_inv t \<Longrightarrow> blk t = blk s \<Longrightarrow>
    \<exists>t'. snap_find_loop name b t = Some (first_named s name bs, t') \<and> disk_inv t' \<and> blk t' = blk s \<and> io_frame t t'"
proof (induction bs arbitrary: b t)
  case (Cons x xs)
  then have x: "b = x" "used_lba x s" "snap_magic (blk t x) = HEXAFS_SNAP_MAGIC" and p: "snap_path s (snap_parent (blk t x)) xs"
    by simp_all
  obtain t1 where t1: "hexafs_block_read x t = (Some (blk t x), t1)" "disk_inv t1" "blk t1 = blk t"
    using store.rd_cases [OF Cons.prems(2)] used_lba_valid [OF x(2)] by blast
  have f: "io_frame t t1" using block_read_frame [of t x] t1(1) by simp
  show ?case
  proof (cases "snap_named s name x")
    case True
    then have "snap_find_loop name b t = Some (x, t1)"
      using x t1(1) used_lba_valid [OF x(2)] Cons.prems(3) by (simp add: snap_find_loop.simps [of name x t] snap_named_def)
    then show ?thesis using True t1 Cons.prems(3) f by (simp add: first_named_def)
  next
    case False
    then have "snap_find_loop name b t = snap_find_loop name (snap_parent (blk t x)) t1"
      using x t1(1) used_lba_valid [OF x(2)] Cons.prems(3) by (auto simp: snap_find_loop.simps [of name x t] snap_named_def)
    moreover have "first_named s name (x # xs) = first_named s name xs" using False by (simp add: first_named_def)
    ultimately show ?thesis using Cons.IH [OF p t1(2)] t1(3) Cons.prems(3) io_frame_trans [OF f] by fastforce
  qed
qed (auto simp: snap_find_loop.simps first_named_def)

lemma snap_find_path:
  assumes "snap_path s (root_snap s) bs" and "disk_inv s"
  obtains s' where "hexafs_snap_find name s = Some (first_named s name bs, s')" and "disk_inv s'" and "blk s' = blk s" and "io_frame s s'"
  using snap_find_loop_path [OF assms refl, of name] unfolding hexafs_snap_find_def by blast

section \<open>Creating a snapshot\<close>

lemma new_snap_fields:
  assumes "0 \<notin> set name" and "length name < 32"
  shows "snap_magic (new_snap name p stamp r) = HEXAFS_SNAP_MAGIC" and "snap_parent (new_snap name p stamp r) = p"
    and "snap_root (new_snap name p stamp r) = r" and "good_block (new_snap name p stamp r)"
    and "c_str (snap_name (new_snap name p stamp r)) = name"
proof -
  define b0 where "b0 = put32 8 r (put32 12 stamp (put32 4 p (put32 0 HEXAFS_SNAP_MAGIC (zeros 512))))"
  define b1 where "b1 = put_bytes 16 (name @ [0]) b0"
  have l0: "length b0 = 512" by (simp add: b0_def bytes_simps)
  have l1: "length b1 = 512" using assms(2) l0 by (simp add: b1_def bytes_simps)
  have n: "new_snap name p stamp r = put32 48 (hexafs_content_hash b1) b1"
    unfolding new_snap_def name_bytes_short [OF assms] b1_def b0_def Let_def ..
  have g: "get32 off (new_snap name p stamp r) = get32 off b0" if "off \<in> {0, 4, 8}" for off
  proof -
    have "get32 off (new_snap name p stamp r) = get32 off b1" unfolding n using that l1 by (intro get32_put32_other) auto
    also have "\<dots> = get32 off b0" unfolding b1_def using that l0 assms(2) by (intro get32_put_bytes_other) auto
    finally show ?thesis .
  qed
  show "snap_magic (new_snap name p stamp r) = HEXAFS_SNAP_MAGIC" "snap_parent (new_snap name p stamp r) = p"
    "snap_root (new_snap name p stamp r) = r"
    using g [of 0] g [of 4] g [of 8] by (simp_all add: snap_magic_def snap_parent_def snap_root_def b0_def bytes_simps)
  show "good_block (new_snap name p stamp r)" using n l1 by (simp add: good_block_def bytes_simps)
  have "snap_name (new_snap name p stamp r) = get_bytes 16 32 b1"
    unfolding snap_name_def n put32_def using l1 by (intro get_put_other) auto
  also have "\<dots> = name @ 0 # take (31 - length name) (drop (17 + length name) b0)"
    using l0 assms(2) take_Cons' [of "32 - length name" 0] by (simp add: b1_def get_bytes_def put_bytes_def)
  finally show "c_str (snap_name (new_snap name p stamp r)) = name"
    using assms(1) by (simp add: c_str_append_nul)
qed

lemma snap_create_cases:
  assumes "disk_inv s" and "alloc_inv s" and "0 \<notin> set name" and "length name < 32" and "hexafs_snap_create name s = (b, s')" and "b \<noteq> 0"
    and "length (sb_cache s) = 512"
  shows "disk_inv s'" and "alloc_inv s'" and "root_snap s' = b" and "\<not> used_lba b s" and "disk_used s' = insert (unat b) (disk_used s)"
    and "blk s' = (blk s)(b := new_snap name (root_snap s) (sb_timestamp (sb_cache s)) (tx_new_root_block (hexafs_current_tx s)))"
    and "used_lba b s'" and "length (sb_cache s') = 512"
proof -
  have tx: "tx_active (hexafs_current_tx s) \<and> tx_dirty (hexafs_current_tx s)"
    using assms(5,6) by (auto simp: hexafs_snap_create_def split: if_splits)
  obtain b1 s1 where a: "hexafs_alloc_block s = (b1, s1)" by fastforce
  have af: "sb_cache s1 = sb_cache s" "hexafs_current_tx s1 = hexafs_current_tx s"
    using alloc_block_fields [of s] by (simp_all only: a snd_conv)
  let ?sn = "new_snap name (root_snap s) (sb_timestamp (sb_cache s)) (tx_new_root_block (hexafs_current_tx s))"
  have nz: "b1 \<noteq> 0" using assms(5,6) tx a by (auto simp: hexafs_snap_create_def split: if_splits)
  note sp = alloc_block_spec [OF assms(1,2) a]
  have bd: "unat b1 \<in> {HEXAFS_OBJECT_LBA..<HEXAFS_DISK_BLOCKS} - disk_used s" "disk_used s1 = insert (unat b1) (disk_used s)"
    "blk s1 = (blk s)(b1 := zeros 512)" "disk_inv s1" "alloc_inv s1" using sp nz by blast+
  have v: "valid_lba b1" using bd(1) by (simp add: valid_lba_def)
  obtain s2 where s2: "hexafs_block_write b1 ?sn s1 = (True, s2)" "disk_inv s2" "blk s2 = (blk s1)(b1 := ?sn)"
    using store.wr_cases [OF bd(4) v new_snap_fields(4) [OF assms(3,4)]] .
  note wf = write_fields [OF s2(1)]
  have e: "b = b1" "s' = s2\<lparr>hexafs_current_tx := (hexafs_current_tx s2)\<lparr>tx_snap_block := b1\<rparr>, sb_cache := put32 28 b1 (sb_cache s2)\<rparr>"
    using assms(5) tx a nz s2(1) af by (auto simp: hexafs_snap_create_def)
  have c: "length (sb_cache s2) = 512" using wf(3) af(1) assms(7) by simp
  have d: "disk_used s' = disk_used s2" using e(2) by (simp add: disk_used_def)
  show "disk_inv s'" using s2(2) e(2) by simp
  show "alloc_inv s'" using wf(1) bd(5) e(2) by (simp add: alloc_inv_def)
  show "root_snap s' = b" "length (sb_cache s') = 512" using e c by (simp_all add: sb_root_snap_block_def bytes_simps)
  show "\<not> used_lba b s" using bd(1) e(1) by (simp add: used_lba_def)
  show "disk_used s' = insert (unat b) (disk_used s)" using d wf(2) bd(2) e(1) by simp
  then show "used_lba b s'" using bd(1) v e(1) by (simp add: used_lba_def)
  show "blk s' = (blk s)(b := ?sn)" using s2(3) bd(3) e by simp
qed

lemma snap_create_path:
  assumes inv: "disk_inv s" "alloc_inv s" and nm: "0 \<notin> set name" "length name < 32" and p: "snap_path s (root_snap s) bs"
    and c: "hexafs_snap_create name s = (b, s')" "b \<noteq> 0" and l: "length (sb_cache s) = 512"
  shows "snap_path s' (root_snap s') (b # bs)" and "b \<notin> set bs" and "\<forall>x \<in> set bs. blk s' x = blk s x"
proof -
  note k = snap_create_cases [OF inv nm c l] and f = new_snap_fields [OF nm]
  show nb: "b \<notin> set bs" using snap_path_used [OF p] k(4) by blast
  show same: "\<forall>x \<in> set bs. blk s' x = blk s x" using nb k(6) by auto
  have "\<forall>x \<in> set bs. used_lba x s'" using snap_path_used [OF p] k(5) by (auto simp: used_lba_def)
  then have "snap_path s' (root_snap s) bs" using snap_path_frame [OF p] same by blast
  then show "snap_path s' (root_snap s') (b # bs)" using k(3,6,7) f(1,2) by simp
qed

lemma snap_create_named:
  assumes "disk_inv s" "alloc_inv s" and nm: "0 \<notin> set name" "length name < 32"
    and "hexafs_snap_create name s = (b, s')" "b \<noteq> 0" and "length (sb_cache s) = 512" and n: "0 \<notin> set n" "n \<noteq> []" "length n < 32"
  shows "snap_named s' n b \<longleftrightarrow> n = name"
proof -
  note k = snap_create_cases [OF assms(1-7)]
  have "c_at n 0 \<noteq> 0" using n by (cases n) (auto simp: c_at_def)
  then show ?thesis
    using name_match_iff [OF n(1,3)] new_snap_fields(5) [OF nm] nm k(6) by (auto simp: snap_named_def)
qed

lemma snap_create_fails:
  assumes "disk_inv s" "alloc_inv s" and "hexafs_snap_create name s = (0, s')" and "tx_active (hexafs_current_tx s)"
    and "tx_dirty (hexafs_current_tx s)" and nm: "0 \<notin> set name" "length name < 32"
  shows "disk_inv s' \<and> alloc_inv s' \<and> blk s' = blk s \<and> disk_used s' = disk_used s \<and> sb_cache s' = sb_cache s \<and>
    hexafs_current_tx s' = hexafs_current_tx s"
proof -
  obtain b1 s1 where a: "hexafs_alloc_block s = (b1, s1)" by fastforce
  note sp = alloc_block_spec [OF assms(1,2) a]
  have af: "sb_cache s1 = sb_cache s" "hexafs_current_tx s1 = hexafs_current_tx s"
    using alloc_block_fields [of s] by (simp_all only: a snd_conv)
  show ?thesis
  proof (cases "b1 = 0")
    case True
    then show ?thesis using sp a af assms(3-5) by (auto simp: hexafs_snap_create_def)
  next
    case False
    have v: "valid_lba b1" "disk_inv s1" using sp False by (auto simp: valid_lba_def)
    from store.wr_cases [OF v(2,1) new_snap_fields(4) [OF nm]]
    obtain s2 where "hexafs_block_write b1 (new_snap name (root_snap s1) (sb_timestamp (sb_cache s1)) (tx_new_root_block (hexafs_current_tx s1))) s1 = (True, s2)"
      by blast
    then show ?thesis using False a assms(3-5) by (simp add: hexafs_snap_create_def)
  qed
qed

section \<open>Sequences of snapshots\<close>

text \<open>Creating snapshots one after the other, each for a new root in an open transaction.\<close>

definition make_snap :: "bytes \<times> u32 \<Rightarrow> 'a kdisk_scheme \<Rightarrow> u32 \<times> 'a kdisk_scheme" where
  "make_snap nr s = hexafs_snap_create (fst nr)
     (s\<lparr>hexafs_current_tx := (hexafs_current_tx s)\<lparr>tx_active := True, tx_new_root_block := snd nr, tx_dirty := True\<rparr>\<rparr>)"

primrec make_snaps :: "(bytes \<times> u32) list \<Rightarrow> 'a kdisk_scheme \<Rightarrow> (bytes \<times> u32) list \<times> 'a kdisk_scheme" where
  "make_snaps [] s = ([], s)"
| "make_snaps (nr # nrs) s =
     (case make_snap nr s of (b, s1) \<Rightarrow> case make_snaps nrs s1 of (made, s2) \<Rightarrow>
        (if b = 0 then made else (fst nr, b) # made, s2))"

definition snap_name_ok :: "bytes \<Rightarrow> bool" where
  "snap_name_ok n \<longleftrightarrow> 0 \<notin> set n \<and> length n < 32 \<and> n \<noteq> []"

text \<open>The names along a path, as a map from names to the newest block.\<close>

definition snap_map :: "'a kdisk_scheme \<Rightarrow> u32 list \<Rightarrow> bytes \<Rightarrow> u32 option" where
  "snap_map s bs n = find (snap_named s n) bs"

definition snaps_ok :: "'a kdisk_scheme \<Rightarrow> bool" where
  "snaps_ok s \<longleftrightarrow> disk_inv s \<and> alloc_inv s \<and> length (sb_cache s) = 512"

lemma find_cong_set: "(\<And>x. x \<in> set xs \<Longrightarrow> P x = Q x) \<Longrightarrow> find P xs = find Q xs"
  by (induction xs) auto

lemma make_snap_path:
  assumes "snaps_ok s" and "snap_path s (root_snap s) bs" and "snap_name_ok (fst nr)" and "make_snap nr s = (b, s')"
  obtains bs' where "snaps_ok s'" and "snap_path s' (root_snap s') bs'"
    and "\<And>n. snap_name_ok n \<Longrightarrow> snap_map s' bs' n = (if b \<noteq> 0 \<and> n = fst nr then Some b else snap_map s bs n)"
proof -
  let ?s = "s\<lparr>hexafs_current_tx := (hexafs_current_tx s)\<lparr>tx_active := True, tx_new_root_block := snd nr, tx_dirty := True\<rparr>\<rparr>"
  have i: "disk_inv ?s" "alloc_inv ?s" "length (sb_cache ?s) = 512" using assms(1) by (simp_all add: snaps_ok_def alloc_inv_def)
  have p: "snap_path ?s (root_snap ?s) bs" using snap_path_io [OF assms(2), of ?s] by (simp add: disk_used_def)
  have nm: "0 \<notin> set (fst nr)" "length (fst nr) < 32" using assms(3) by (simp_all add: snap_name_ok_def)
  have c: "hexafs_snap_create (fst nr) ?s = (b, s')" using assms(4) by (simp add: make_snap_def)
  show thesis
  proof (cases "b = 0")
    case True
    from snap_create_fails [OF i(1,2) c [unfolded True] _ _ nm]
    have k: "disk_inv s'" "alloc_inv s'" "blk s' = blk s" "disk_used s' = disk_used s" "sb_cache s' = sb_cache s"
      by (simp_all add: disk_used_def)
    have "snap_map s' bs n = snap_map s bs n" for n using k(3) by (simp add: snap_map_def snap_named_def [abs_def])
    moreover have "snap_path s' (root_snap s') bs" using snap_path_io [OF assms(2) k(3,4)] k(5) by simp
    ultimately show thesis using that [of bs] True k i(3) by (simp add: snaps_ok_def)
  next
    case False
    note k = snap_create_cases [OF i(1,2) nm c False i(3)] and q = snap_create_path [OF i(1,2) nm p c False i(3)]
    have "snap_map s' (b # bs) n = (if n = fst nr then Some b else snap_map s bs n)" if "snap_name_ok n" for n
    proof -
      have "find (snap_named s' n) bs = find (snap_named s n) bs"
        using q(3) by (intro find_cong_set) (simp add: snap_named_def)
      then show ?thesis
        using snap_create_named [OF i(1,2) nm c False i(3), of n] that by (simp add: snap_map_def snap_name_ok_def)
    qed
    then show thesis using that [of "b # bs"] False k q by (simp add: snaps_ok_def)
  qed
qed

lemma make_snaps_path:
  "snaps_ok s \<Longrightarrow> snap_path s (root_snap s) bs \<Longrightarrow> \<forall>nr \<in> set nrs. snap_name_ok (fst nr) \<Longrightarrow> make_snaps nrs s = (made, s') \<Longrightarrow>
    \<exists>bs'. snaps_ok s' \<and> snap_path s' (root_snap s') bs' \<and>
      (\<forall>n. snap_name_ok n \<longrightarrow> snap_map s' bs' n = (snap_map s bs ++ map_of (rev made)) n)"
proof (induction nrs arbitrary: s bs made)
  case (Cons nr nrs)
  obtain b s1 where m: "make_snap nr s = (b, s1)" by fastforce
  obtain made1 where ms: "make_snaps nrs s1 = (made1, s')" "made = (if b = 0 then made1 else (fst nr, b) # made1)"
    using Cons.prems(4) m by (auto split: prod.splits)
  obtain bs1 where 1: "snaps_ok s1" "snap_path s1 (root_snap s1) bs1"
    "\<And>n. snap_name_ok n \<Longrightarrow> snap_map s1 bs1 n = (if b \<noteq> 0 \<and> n = fst nr then Some b else snap_map s bs n)"
    using make_snap_path [OF Cons.prems(1,2) _ m] Cons.prems(3) by (metis list.set_intros(1))
  obtain bs' where 2: "snaps_ok s'" "snap_path s' (root_snap s') bs'"
    "\<forall>n. snap_name_ok n \<longrightarrow> snap_map s' bs' n = (snap_map s1 bs1 ++ map_of (rev made1)) n"
    using Cons.IH [OF 1(1,2) _ ms(1)] Cons.prems(3) by auto
  have "(snap_map s1 bs1 ++ map_of (rev made1)) n = (snap_map s bs ++ map_of (rev made)) n" if "snap_name_ok n" for n
    using 1(3) [OF that] ms(2) by (auto simp: map_add_def split: option.splits)
  then show ?case using 2 by auto
qed auto

text \<open>
  C24: the search for a snapshot ends, and finds the newest.  On a store without snapshots (as formatting
  leaves it), after any sequence of snapshot creations, successful or not, \<^verbatim>\<open>hexafs_snap_find\<close> returns for
  every name although its loop has no bound: its result is the block of the last successful creation under
  the name, and 0 if there was none.
\<close>

theorem snapshot_search_ends:
  assumes "snaps_ok s" and "root_snap s = 0" and "\<forall>nr \<in> set nrs. snap_name_ok (fst nr)" and "make_snaps nrs s = (made, s')"
    and "snap_name_ok name"
  shows "\<exists>s''. hexafs_snap_find name s' = Some (case map_of (rev made) name of None \<Rightarrow> 0 | Some b \<Rightarrow> b, s'') \<and> blk s'' = blk s'"
proof -
  have "snap_path s (root_snap s) []" using assms(2) by simp
  from make_snaps_path [OF assms(1) this assms(3,4)] obtain bs where bs: "snaps_ok s'" "snap_path s' (root_snap s') bs"
    "\<forall>n. snap_name_ok n \<longrightarrow> snap_map s' bs n = (snap_map s [] ++ map_of (rev made)) n" by blast
  then have "first_named s' name bs = (case map_of (rev made) name of None \<Rightarrow> 0 | Some b \<Rightarrow> b)"
    using assms(5) by (simp add: first_named_def snap_map_def map_add_def split: option.splits)
  then show ?thesis using snap_find_path [OF bs(2), of name] bs(1) unfolding snaps_ok_def by metis
qed

section \<open>Examples\<close>

lemma bss_snaps_ok: "snaps_ok (bss_kdisk\<lparr>next_alloc_hint := HEXAFS_OBJECT_LBA\<rparr>)" "root_snap (bss_kdisk\<lparr>next_alloc_hint := h\<rparr>) = 0"
proof -
  have "sb_cache bss_kdisk = zeros 512" by (simp add: bss_kdisk_def kpipe.defs)
  then show "snaps_ok (bss_kdisk\<lparr>next_alloc_hint := HEXAFS_OBJECT_LBA\<rparr>)" "root_snap (bss_kdisk\<lparr>next_alloc_hint := h\<rparr>) = 0"
    using bss_disk_inv bss_alloc_inv by (simp_all add: snaps_ok_def alloc_inv_def sb_root_snap_block_def bytes_simps)
qed

theorem snapshot_search_ends_witness:
  "\<exists>made s' s'' r. make_snaps [(cs ''boot_ok'', 20), (cs ''live'', 30), (cs ''boot_ok'', 40)] (bss_kdisk\<lparr>next_alloc_hint := HEXAFS_OBJECT_LBA\<rparr>) = (made, s') \<and>
     hexafs_snap_find (cs ''live'') s' = Some (r, s'') \<and> (r = 0 \<longleftrightarrow> map_of (rev made) (cs ''live'') \<in> {None, Some 0})"
proof -
  let ?nrs = "[(cs ''boot_ok'', 20), (cs ''live'', 30), (cs ''boot_ok'', 40)] :: (bytes \<times> u32) list"
  obtain made s' where m: "make_snaps ?nrs (bss_kdisk\<lparr>next_alloc_hint := HEXAFS_OBJECT_LBA\<rparr>) = (made, s')" by fastforce
  have n: "\<forall>nr \<in> set ?nrs. snap_name_ok (fst nr)" "snap_name_ok (cs ''live'')" by (simp_all add: snap_name_ok_def cs_def)
  show ?thesis using snapshot_search_ends [OF bss_snaps_ok n(1) m n(2)] m by (auto split: option.splits)
qed

end
