(* ===== verification/Hexa_Replay.thy ===== *)
theory Hexa_Replay
  imports Hexa_Intent Hexa_Store
begin

text \<open>
  Event recording (\<^verbatim>\<open>replay.c\<close>, \<^verbatim>\<open>replay.h\<close>): a buffer of 1024 system call events that stops recording when
  it is full, its copy in an object of the form store, and the listing that \<^verbatim>\<open>replay_execute\<close> prints.
\<close>

section \<open>State and operations\<close>

abbreviation (input) MAX_REPLAY_EVENTS :: nat where "MAX_REPLAY_EVENTS \<equiv> 1024"

record replay_event =
  re_tick :: u32
  re_pid :: u32
  re_syscall_num :: u32
  re_args :: "u32 list"
  re_snap_before :: u32
  re_snap_after :: u32

record kreplay = kintent +
  replay_buffer :: "replay_event list"
  replay_count :: nat
  replay_recording :: bool
  replay_session_complete :: bool
  replay_last_error_tick :: u32

definition zero_event :: replay_event where
  "zero_event = \<lparr>re_tick = 0, re_pid = 0, re_syscall_num = 0, re_args = [0, 0, 0, 0], re_snap_before = 0, re_snap_after = 0\<rparr>"

definition replay_init :: "'a kreplay_scheme \<Rightarrow> int \<times> 'a kreplay_scheme" where
  "replay_init s =
     (0, log_write LOG_LEVEL_INFO (cs ''replay: event recording started'')
        (s\<lparr>replay_buffer := replicate MAX_REPLAY_EVENTS zero_event, replay_count := 0, replay_recording := True,
           replay_session_complete := False\<rparr>))"

definition new_event :: "u32 \<Rightarrow> u32 \<Rightarrow> u32 \<Rightarrow> u32 \<Rightarrow> u32 \<Rightarrow> 'a kproc_scheme \<Rightarrow> replay_event" where
  "new_event num a0 a1 a2 a3 s =
     \<lparr>re_tick = system_ticks s, re_pid = of_int (t_pid (tasks s ! current_task s)), re_syscall_num = num,
      re_args = [a0, a1, a2, a3], re_snap_before = 0, re_snap_after = 0\<rparr>"

definition replay_record :: "u32 \<Rightarrow> u32 \<Rightarrow> u32 \<Rightarrow> u32 \<Rightarrow> u32 \<Rightarrow> 'a kreplay_scheme \<Rightarrow> int \<times> 'a kreplay_scheme" where
  "replay_record num a0 a1 a2 a3 s =
     (if \<not> replay_recording s then (0, s)
      else if replay_count s \<ge> MAX_REPLAY_EVENTS then (-1, s)
      else (int (replay_count s + 1),
            s\<lparr>replay_buffer := (replay_buffer s)[replay_count s := new_event num a0 a1 a2 a3 s],
              replay_count := replay_count s + 1\<rparr>))"

text \<open>The bytes of the events in memory, 36 for each.\<close>

definition event_bytes :: "replay_event \<Rightarrow> bytes" where
  "event_bytes e = concat (map le32 ([re_tick e, re_pid e, re_syscall_num e] @ re_args e @ [re_snap_before e, re_snap_after e]))"

definition replay_bytes :: "'a kreplay_scheme \<Rightarrow> bytes" where
  "replay_bytes s = concat (map event_bytes (take (replay_count s) (replay_buffer s)))"

text \<open>The entry for the log object is added to the block of the snapshot itself.\<close>

definition add_replay_entry :: "u32 \<Rightarrow> u32 \<Rightarrow> 'a kdisk_scheme \<Rightarrow> 'a kdisk_scheme option" where
  "add_replay_entry snap_block event_obj s =
     (if snap_block = 0 then Some s
      else map_option snd (hexafs_abstraction_add_entry snap_block (cs ''replay_log'') event_obj HEXAFS_CONFIG s))"

definition save_event_log_to_hexafs :: "'a kreplay_scheme \<Rightarrow> (bool \<times> 'a kreplay_scheme) option" where
  "save_event_log_to_hexafs s =
     (if \<not> hexafs_mounted s \<or> \<not> tx_active (hexafs_current_tx s) then Some (False, s)
      else case hexafs_object_alloc HEXAFS_CONFIG s of (event_obj, s1) \<Rightarrow>
        if event_obj = 0 then Some (False, s1)
        else case hexafs_object_write_data event_obj (replay_bytes s) s1 of
          (False, s2) \<Rightarrow> Some (False, hexafs_free_block event_obj s2)
        | (True, s2) \<Rightarrow>
            do {
              (live, s3) \<leftarrow> hexafs_snap_find (cs ''live'') s2;
              s4 \<leftarrow> add_replay_entry (if live = 0 then sb_root_snap_block (sb_cache s3) else live) event_obj s3;
              Some (True, s4)
            })"

definition replay_save_log :: "'a kreplay_scheme \<Rightarrow> 'a kreplay_scheme option" where
  "replay_save_log s = map_option snd (save_event_log_to_hexafs s)"

definition replay_event_line :: "nat \<Rightarrow> replay_event \<Rightarrow> bytes" where
  "replay_event_line i e =
     cs ''  event '' @ itoa (of_nat i) 10 @ cs '': syscall '' @ itoa (re_syscall_num e) 10 @ cs '' pid='' @ itoa (re_pid e) 10 @ [10]"

text \<open>The number of errors stays 0: nothing is executed.\<close>

definition replay_execute :: "u32 \<Rightarrow> u32 \<Rightarrow> 'a kreplay_scheme \<Rightarrow> u32 \<times> 'a kreplay_scheme" where
  "replay_execute snap_id event_count s =
     (let n = (if event_count > of_nat (replay_count s) then of_nat (replay_count s) else event_count);
          s1 = print_string (cs '' events'' @ [10]) (print_string (itoa n 10) (print_color (cs ''[REPLAY] Executing '') 0x0E s));
          s2 = fold (\<lambda>i s. print_string (replay_event_line i (replay_buffer s ! i)) s) [0..<unat n] s1
      in (n, log_write LOG_LEVEL_INFO (cs ''replay: execution complete'') (s2\<lparr>replay_session_complete := True\<rparr>)))"

definition replay_dry_run :: "u32 \<Rightarrow> u32 \<Rightarrow> 'a kreplay_scheme \<Rightarrow> u32 \<times> 'a kreplay_scheme" where
  "replay_dry_run snap_id event_count s =
     replay_execute snap_id event_count
       (print_string (cs '' events'' @ [10]) (print_string (itoa event_count 10)
          (print_color (cs ''[REPLAY] Dry run (read-only) for '') 0x0E s)))"

definition replay_get_count :: "'a kreplay_scheme \<Rightarrow> nat" where
  "replay_get_count s = replay_count s"

definition replay_get_errors :: "'a kreplay_scheme \<Rightarrow> int" where
  "replay_get_errors s = (if replay_session_complete s then 0 else -1)"

section \<open>The log is a bounded list\<close>

definition replay_log :: "'a kreplay_scheme \<Rightarrow> replay_event list" where
  "replay_log s = take (replay_count s) (replay_buffer s)"

text \<open>A system call with its number and arguments; before it the clock shows a tick.\<close>

type_synonym call = "u32 \<times> u32 \<times> u32 \<times> u32 \<times> u32 \<times> u32"

fun record_call :: "call \<Rightarrow> 'a kreplay_scheme \<Rightarrow> int \<times> 'a kreplay_scheme" where
  "record_call (t, num, a0, a1, a2, a3) s = replay_record num a0 a1 a2 a3 (s\<lparr>system_ticks := t\<rparr>)"

primrec record_calls :: "call list \<Rightarrow> 'a kreplay_scheme \<Rightarrow> int list \<times> 'a kreplay_scheme" where
  "record_calls [] s = ([], s)"
| "record_calls (c # calls) s = (case record_call c s of (r, s1) \<Rightarrow> case record_calls calls s1 of (rs, s2) \<Rightarrow> (r # rs, s2))"

fun event_of :: "int \<Rightarrow> call \<Rightarrow> replay_event" where
  "event_of pid (t, num, a0, a1, a2, a3) =
     \<lparr>re_tick = t, re_pid = of_int pid, re_syscall_num = num, re_args = [a0, a1, a2, a3], re_snap_before = 0, re_snap_after = 0\<rparr>"

definition replay_ok :: "'a kreplay_scheme \<Rightarrow> bool" where
  "replay_ok s \<longleftrightarrow> length (replay_buffer s) = MAX_REPLAY_EVENTS \<and> replay_count s \<le> MAX_REPLAY_EVENTS"

lemma log_write_kreplay [simp]:
  "replay_buffer (log_write l m s) = replay_buffer s" "replay_count (log_write l m s) = replay_count s"
  "replay_recording (log_write l m s) = replay_recording s"
  by (subst log_write_frame, simp)+

lemma take_append_take: "take n (take n xs @ ys) = take n (xs @ ys)"
  by (cases "length xs \<le> n") simp_all

lemma record_call_log:
  assumes "replay_ok s" and "replay_recording s" and "record_call c s = (r, s')"
  shows "replay_ok s'" and "replay_recording s'" and "current_pid s' = current_pid s"
    and "replay_log s' = take MAX_REPLAY_EVENTS (replay_log s @ [event_of (current_pid s) c])"
    and "r = (if replay_count s < MAX_REPLAY_EVENTS then int (replay_count s) + 1 else -1)"
    and "replay_count s' = min MAX_REPLAY_EVENTS (replay_count s + 1)"
proof -
  obtain t num a0 a1 a2 a3 where c: "c = (t, num, a0, a1, a2, a3)" by (cases c) auto
  have "replay_ok s' \<and> replay_recording s' \<and> current_pid s' = current_pid s \<and>
    replay_log s' = take MAX_REPLAY_EVENTS (replay_log s @ [event_of (current_pid s) c]) \<and>
    r = (if replay_count s < MAX_REPLAY_EVENTS then int (replay_count s) + 1 else -1) \<and>
    replay_count s' = min MAX_REPLAY_EVENTS (replay_count s + 1)"
  proof (cases "replay_count s < MAX_REPLAY_EVENTS")
    case True
    then have "r = int (replay_count s + 1)" and s': "s' = (s\<lparr>system_ticks := t\<rparr>)\<lparr>replay_buffer := (replay_buffer s)[replay_count s := event_of (current_pid s) c], replay_count := replay_count s + 1\<rparr>"
      using assms c by (simp_all add: replay_record_def new_event_def current_pid_def)
    moreover have "take (replay_count s + 1) ((replay_buffer s)[replay_count s := e]) = take (replay_count s) (replay_buffer s) @ [e]" for e
      using True assms(1) by (simp add: replay_ok_def take_Suc_conv_app_nth)
    ultimately show ?thesis using True assms(1,2) by (simp add: replay_ok_def replay_log_def current_pid_def)
  next
    case False
    then show ?thesis using assms c by (auto simp: replay_record_def replay_ok_def replay_log_def current_pid_def)
  qed
  then show "replay_ok s'" and "replay_recording s'" and "current_pid s' = current_pid s"
    and "replay_log s' = take MAX_REPLAY_EVENTS (replay_log s @ [event_of (current_pid s) c])"
    and "r = (if replay_count s < MAX_REPLAY_EVENTS then int (replay_count s) + 1 else -1)"
    and "replay_count s' = min MAX_REPLAY_EVENTS (replay_count s + 1)" by blast+
qed

lemma record_calls_log:
  "replay_ok s \<Longrightarrow> replay_recording s \<Longrightarrow>
    replay_log (snd (record_calls calls s)) = take MAX_REPLAY_EVENTS (replay_log s @ map (event_of (current_pid s)) calls) \<and>
    fst (record_calls calls s) = map (\<lambda>i. if replay_count s + i < MAX_REPLAY_EVENTS then int (replay_count s + i) + 1 else -1) [0..<length calls]"
proof (induction calls arbitrary: s)
  case Nil
  then show ?case by (simp add: replay_log_def replay_ok_def)
next
  case (Cons c calls)
  obtain r s1 where r: "record_call c s = (r, s1)" by fastforce
  note k = record_call_log [OF Cons.prems r]
  let ?f = "\<lambda>n i. if n + i < MAX_REPLAY_EVENTS then int (n + i) + 1 else -1 :: int"
  have ih: "replay_log (snd (record_calls calls s1)) = take MAX_REPLAY_EVENTS (replay_log s1 @ map (event_of (current_pid s1)) calls)"
    "fst (record_calls calls s1) = map (?f (replay_count s1)) [0..<length calls]"
    using Cons.IH [OF k(1,2)] by simp_all
  have t: "take MAX_REPLAY_EVENTS (take MAX_REPLAY_EVENTS (xs @ [e]) @ ys) = take MAX_REPLAY_EVENTS (xs @ e # ys)" for xs ys and e :: replay_event
    using take_append_take [of MAX_REPLAY_EVENTS "xs @ [e]" ys] by simp
  have lg: "replay_log (snd (record_calls calls s1)) = take MAX_REPLAY_EVENTS (replay_log s @ map (event_of (current_pid s)) (c # calls))"
    unfolding ih(1) k(3,4) t list.map ..
  have sh: "map (?f (replay_count s1)) [0..<length calls] = map (?f (replay_count s) \<circ> Suc) [0..<length calls]"
    using k(6) Cons.prems(1) by (auto simp: replay_ok_def)
  have "map g [0..<length (c # calls)] = g 0 # map (g \<circ> Suc) [0..<length calls]" for g :: "nat \<Rightarrow> int"
    by (simp add: upt_conv_Cons map_Suc_upt [symmetric] del: upt_Suc)
  then have rs: "r # fst (record_calls calls s1) = map (?f (replay_count s)) [0..<length (c # calls)]"
    unfolding ih(2) sh using k(5) by (simp only: add_0_right)
  have "record_calls (c # calls) s = (r # fst (record_calls calls s1), snd (record_calls calls s1))"
    using r by (simp add: case_prod_beta)
  then show ?case using lg rs by (simp only: fst_conv snd_conv)
qed

text \<open>
  Recording refines a bounded list.  After \<^verbatim>\<open>replay_init\<close>, whatever system calls are recorded, the log
  holds the first 1024 of them, in order, with their tick, caller, number and arguments; each of these
  calls returned its number, counted from 1, and every later one returned -1 and changed nothing.
\<close>

theorem replay_log_bounded:
  "replay_log (snd (record_calls calls (snd (replay_init s)))) = take MAX_REPLAY_EVENTS (map (event_of (current_pid s)) calls) \<and>
   fst (record_calls calls (snd (replay_init s))) = map (\<lambda>i. if i < MAX_REPLAY_EVENTS then int i + 1 else -1) [0..<length calls]"
proof -
  let ?s = "snd (replay_init s)"
  have "replay_ok ?s" "replay_recording ?s" "replay_log ?s = []" "replay_count ?s = 0" "current_pid ?s = current_pid s"
    by (simp_all add: replay_init_def replay_ok_def replay_log_def current_pid_def)
  then show ?thesis using record_calls_log [of ?s calls] by simp
qed

section \<open>Saving the log\<close>

definition event_at :: "bytes \<Rightarrow> nat \<Rightarrow> replay_event" where
  "event_at b i =
     (let w = (\<lambda>k. get32 (i * 36 + 4 * k) b)
      in \<lparr>re_tick = w 0, re_pid = w 1, re_syscall_num = w 2, re_args = [w 3, w 4, w 5, w 6], re_snap_before = w 7, re_snap_after = w 8\<rparr>)"

definition events_of_bytes :: "bytes \<Rightarrow> replay_event list" where
  "events_of_bytes b = map (event_at b) [0..<length b div 36]"

lemma event_words: "length (re_args e) = 4 \<Longrightarrow> \<exists>a0 a1 a2 a3. re_args e = [a0, a1, a2, a3]"
  by (auto simp: length_Suc_conv eval_nat_numeral)

lemma length_event_bytes: "length (re_args e) = 4 \<Longrightarrow> length (event_bytes e) = 36"
  by (drule event_words) (auto simp: event_bytes_def)

lemma event_at_bytes:
  assumes "\<forall>e \<in> set es. length (re_args e) = 4" and "i < length es"
  shows "event_at (concat (map event_bytes es)) i = es ! i"
proof -
  let ?b = "concat (map event_bytes es)" and ?e = "es ! i"
  have t: "take 36 (drop (i * 36) ?b) = event_bytes ?e"
    using concat_nth_bytes [of es event_bytes 36 i "[]"] assms length_event_bytes by simp
  have g: "get32 (i * 36 + o') ?b = get32 o' (event_bytes ?e)" if "o' + 4 \<le> 36" for o'
  proof -
    have "take 4 (drop o' (take 36 (drop (i * 36) ?b))) = take 4 (drop (i * 36 + o') ?b)"
      using that by (simp add: take_drop [symmetric] drop_take min_def add.commute)
    then show ?thesis using t by (simp add: get32_def get_bytes_def)
  qed
  obtain a0 a1 a2 a3 where a: "re_args ?e = [a0, a1, a2, a3]" using event_words assms by (metis nth_mem)
  have "get32 0 (event_bytes ?e) = re_tick ?e" "get32 4 (event_bytes ?e) = re_pid ?e" "get32 8 (event_bytes ?e) = re_syscall_num ?e"
    "get32 12 (event_bytes ?e) = a0" "get32 16 (event_bytes ?e) = a1" "get32 20 (event_bytes ?e) = a2" "get32 24 (event_bytes ?e) = a3"
    "get32 28 (event_bytes ?e) = re_snap_before ?e" "get32 32 (event_bytes ?e) = re_snap_after ?e"
    using a by (simp_all add: event_bytes_def get32_def get_bytes_def)
  then show ?thesis using g g [of 0] a by (intro replay_event.equality) (simp_all add: event_at_def)
qed

lemma events_of_concat:
  assumes "\<forall>e \<in> set es. length (re_args e) = 4"
  shows "events_of_bytes (concat (map event_bytes es)) = es" and "length (concat (map event_bytes es)) = 36 * length es"
proof -
  show l: "length (concat (map event_bytes es)) = 36 * length es"
    using assms length_event_bytes by (induction es) auto
  show "events_of_bytes (concat (map event_bytes es)) = es"
    by (rule nth_equalityI) (use l event_at_bytes [OF assms] in \<open>simp_all add: events_of_bytes_def\<close>)
qed

text \<open>A snapshot block takes no directory entry.\<close>

lemma add_replay_entry_refused:
  assumes "disk_inv s" and "used_lba b s" and "snap_magic (blk s b) = HEXAFS_SNAP_MAGIC \<or> b = 0"
  shows "\<exists>s'. add_replay_entry b ob s = Some s' \<and> disk_inv s' \<and> blk s' = blk s"
proof -
  obtain s1 where s1: "hexafs_block_read b s = (Some (blk s b), s1)" "disk_inv s1" "blk s1 = blk s"
    using store.rd_cases [OF assms(1)] used_lba_valid [OF assms(2)] by blast
  have "abs_magic (blk s b) \<noteq> HEXAFS_ABSTRACT_MAGIC" using assms(3) used_lba_valid [OF assms(2)] by (simp add: abs_magic_def snap_magic_def)
  then show ?thesis
    using s1 used_lba_valid [OF assms(2)]
    by (auto simp: add_replay_entry_def hexafs_abstraction_add_entry_def abs_add_loop.simps)
qed

lemma snap_path_props: "snap_path s b bs \<Longrightarrow> x \<in> set bs \<Longrightarrow> used_lba x s \<and> snap_magic (blk s x) = HEXAFS_SNAP_MAGIC"
  by (induction bs arbitrary: b) auto

lemma object_alloc_blank:
  assumes "hexafs_object_alloc ty s = (b, s')" and "b \<noteq> 0" and "disk_inv s" and "alloc_inv s" and "i < 4"
  shows "obj_block i (blk s' b) = 0"
proof -
  obtain b1 s1 where a: "hexafs_alloc_block s = (b1, s1)" by fastforce
  then have b1: "b1 \<noteq> 0" using assms(1,2) by (auto simp: hexafs_object_alloc_def)
  note sp = alloc_block_spec [OF assms(3,4) a]
  have v: "disk_inv s1" "valid_lba b1" using sp b1 by (auto simp: valid_lba_def)
  have "good_block (new_object ty (sb_timestamp (sb_cache s1)))" by (simp add: good_block_def new_object_fields)
  from store.wr_cases [OF v this] obtain s2 where
    s2: "hexafs_block_write b1 (new_object ty (sb_timestamp (sb_cache s1))) s1 = (True, s2)" "blk s2 = (blk s1)(b1 := new_object ty (sb_timestamp (sb_cache s1)))"
    by metis
  then have "b = b1" "s' = s2" using assms(1) a b1 by (simp_all add: hexafs_object_alloc_def)
  then show ?thesis using s2(2) assms(5) by (simp add: new_object_fields)
qed

text \<open>
  C25: the saved log holds the events.  In an open transaction on a mounted store with five free blocks, a
  log of at most 56 events is written to a new object, from which exactly these events are read back;
  and no block that was in use before changes, so no directory and no snapshot refers to the new object.
\<close>

theorem replay_log_saved:
  assumes "snaps_ok s" and "snap_path s (root_snap s) bs" and "hexafs_mounted s" and "tx_active (hexafs_current_tx s)"
    and "5 \<le> free_blocks s" and "replay_ok s" and "replay_count s \<le> 56" and "\<forall>e \<in> set (replay_log s). length (re_args e) = 4"
  shows "\<exists>s' b bytes. replay_save_log s = Some s' \<and> b \<noteq> 0 \<and> \<not> used_lba b s \<and>
    fst (hexafs_object_read_data b s') = Some (bytes, of_nat (length bytes), HEXAFS_CONFIG) \<and>
    events_of_bytes bytes = replay_log s \<and> (\<forall>a. used_lba a s \<longrightarrow> blk s' a = blk s a)"
proof -
  have i: "disk_inv s" "alloc_inv s" "Suc 4 \<le> free_blocks s" using assms(1,5) by (simp_all add: snaps_ok_def)
  obtain b s1 where a: "hexafs_object_alloc HEXAFS_CONFIG s = (b, s1)" "b \<noteq> 0" "disk_inv s1" "alloc_inv s1" "obj_wf b s1"
    "obj_type (blk s1 b) = HEXAFS_CONFIG" "4 \<le> free_blocks s1" "unat b \<notin> disk_used s" "disk_used s1 = insert (unat b) (disk_used s)"
    "\<forall>a. a \<noteq> b \<longrightarrow> blk s1 a = blk s a" "sb_cache s1 = sb_cache s" "hexafs_current_tx s1 = hexafs_current_tx s" "hexafs_mounted s1 = hexafs_mounted s"
    by (rule object_alloc_ok [OF i, where ty = HEXAFS_CONFIG])
  have bytes: "events_of_bytes (replay_bytes s) = replay_log s" "length (replay_bytes s) \<le> 2048"
    using events_of_concat [OF assms(8)] assms(6,7) by (simp_all add: replay_bytes_def replay_log_def replay_ok_def)
  obtain s2 where w: "hexafs_object_write_data b (replay_bytes s) s1 = (True, s2)" "disk_inv s2" "alloc_inv s2" "obj_wf b s2" "disk_used s1 \<subseteq> disk_used s2"
    and same: "\<forall>a. a \<noteq> b \<and> used_lba a s1 \<and> (\<forall>i < 4. a \<noteq> obj_block i (blk s1 b)) \<longrightarrow> blk s2 a = blk s1 a"
    and rd: "\<forall>u :: 'a kreplay_scheme. disk_inv u \<and> (\<forall>a. used_lba a s2 \<longrightarrow> blk u a = blk s2 a) \<longrightarrow> (\<exists>u'. hexafs_object_read_data b u =
          (Some (replay_bytes s, of_nat (length (replay_bytes s)), obj_type (blk s1 b)), u') \<and> disk_inv u' \<and> blk u' = blk u)"
    and sb: "sb_cache s2 = sb_cache s1" and "hexafs_current_tx s2 = hexafs_current_tx s1" and "hexafs_mounted s2 = hexafs_mounted s1"
    by (rule object_written [OF a(3-5) bytes(2) a(7)])
  have un: "used_lba x s2" if "used_lba x s" for x using that a(9) w(5) by (auto simp: used_lba_def)
  have keep: "blk s2 x = blk s x" if x: "used_lba x s" for x
  proof -
    have "x \<noteq> b" "used_lba x s1" "x \<noteq> 0" using x a(8,9) used_lba_valid [OF x] by (auto simp: used_lba_def)
    then show ?thesis using same object_alloc_blank [OF a(1,2) i(1,2)] a(10) by simp
  qed
  have p: "snap_path s2 (root_snap s2) bs"
    using snap_path_frame [OF assms(2), of s2] snap_path_used [OF assms(2)] keep un sb a(11) by simp
  obtain s3 where f: "hexafs_snap_find (cs ''live'') s2 = Some (first_named s2 (cs ''live'') bs, s3)" "disk_inv s3" "blk s3 = blk s2" "io_frame s2 s3"
    by (rule snap_find_path [OF p w(2)])
  define snap where "snap = (if first_named s2 (cs ''live'') bs = 0 then root_snap s3 else first_named s2 (cs ''live'') bs)"
  have "snap = 0 \<or> snap \<in> set bs"
  proof -
    have "root_snap s3 = root_snap s2" using io_frame_fields [OF f(4)] by simp
    moreover have "root_snap s2 = 0 \<or> root_snap s2 \<in> set bs" using p by (cases bs) auto
    moreover have "first_named s2 (cs ''live'') bs = 0 \<or> first_named s2 (cs ''live'') bs \<in> set bs"
      by (auto simp: first_named_def find_Some_iff split: option.splits)
    ultimately show ?thesis by (auto simp: snap_def)
  qed
  moreover have "used_lba x s3 \<and> snap_magic (blk s3 x) = HEXAFS_SNAP_MAGIC" if "x \<in> set bs" for x
    using snap_path_props [OF p that] io_frame_fields [OF f(4)] f(3) by (simp add: used_lba_def disk_used_def)
  ultimately obtain s4 where s4: "add_replay_entry snap b s3 = Some s4" "disk_inv s4" "blk s4 = blk s3"
    using add_replay_entry_refused [OF f(2), of snap b] f(2) by (cases "snap = 0") (auto simp: add_replay_entry_def)
  have "replay_save_log s = Some s4"
    using a(1,2) w(1) f(1) s4(1) assms(3,4) by (simp add: replay_save_log_def save_event_log_to_hexafs_def snap_def)
  moreover have "fst (hexafs_object_read_data b s4) = Some (replay_bytes s, of_nat (length (replay_bytes s)), HEXAFS_CONFIG)"
    using rd s4(2,3) f(3) a(6) by force
  ultimately show ?thesis using a(2,8) bytes(1) keep s4(3) f(3) by (intro exI [of _ s4] exI [of _ b]) (auto simp: used_lba_def)
qed

section \<open>Examples\<close>

definition bss_kreplay :: kreplay where
  "bss_kreplay = kintent.extend bss_kintent \<lparr>replay_buffer = replicate MAX_REPLAY_EVENTS zero_event, replay_count = 0,
     replay_recording = False, replay_session_complete = False, replay_last_error_tick = 0\<rparr>"

lemmas bss_all_defs = bss_kreplay_def bss_kintent_def bss_kvfs_def boot_kusr_def bss_kusr_def bss_kfs_def bss_knet_def bss_kint_def bss_kcon_def
  bss_kdisk_def kpipe.defs kdisk.defs kcon.defs kint.defs knet.defs kfs.defs kusr.defs kvfs.defs kintent.defs

lemma bss_kreplay_disk:
  "ata_drv bss_kreplay = 0xE0" "drive bss_kreplay = (\<lambda>_ _. zeros 512)" "ata_status bss_kreplay = (\<lambda>_. 0x58)" "ata_reads bss_kreplay = 0"
  "block_cache bss_kreplay = replicate HEXAFS_CACHE_SLOTS empty_slot" "alloc_bitmap bss_kreplay = zeros 1024"
  "next_alloc_hint bss_kreplay = HEXAFS_OBJECT_LBA" "sb_cache bss_kreplay = zeros 512"
  by (simp_all add: bss_all_defs)

lemma bss_kreplay_ok: "snaps_ok bss_kreplay" "root_snap bss_kreplay = 0" "disk_used bss_kreplay = {}"
proof -
  have "disk_inv bss_kreplay"
    by (auto simp: disk_inv_def drive_ok_def cache_ok_def blk_def bss_kreplay_disk empty_slot_def ready_status_def intro: exI [of _ "_ :: nat"])
  then show "snaps_ok bss_kreplay" by (simp add: snaps_ok_def alloc_inv_def bss_kreplay_disk)
  show "root_snap bss_kreplay = 0" by (simp add: sb_root_snap_block_def bss_kreplay_disk bytes_simps)
  show "disk_used bss_kreplay = {}" using bm_test_zeros by (auto simp: disk_used_def bm_used_def bss_kreplay_disk)
qed

definition store_with_log :: kreplay where
  "store_with_log = bss_kreplay\<lparr>hexafs_mounted := True, hexafs_current_tx := bss_tx\<lparr>tx_active := True\<rparr>,
     replay_buffer := replicate MAX_REPLAY_EVENTS (zero_event\<lparr>re_syscall_num := 4\<rparr>), replay_count := 2\<rparr>"

theorem replay_log_saved_witness:
  "\<exists>s' b bytes. replay_save_log store_with_log = Some s' \<and> fst (hexafs_object_read_data b s') = Some (bytes, of_nat (length bytes), HEXAFS_CONFIG) \<and>
     events_of_bytes bytes = [zero_event\<lparr>re_syscall_num := 4\<rparr>, zero_event\<lparr>re_syscall_num := 4\<rparr>]"
proof -
  have f: "ata_drv store_with_log = ata_drv bss_kreplay" "sb_cache store_with_log = sb_cache bss_kreplay" "disk_used store_with_log = disk_used bss_kreplay"
    "disk_inv store_with_log = disk_inv bss_kreplay" "alloc_inv store_with_log = alloc_inv bss_kreplay"
    by (simp_all add: store_with_log_def disk_used_def alloc_inv_def disk_inv_def drive_ok_def cache_ok_def blk_def)
  have p: "snaps_ok store_with_log" "snap_path store_with_log (root_snap store_with_log) []" using bss_kreplay_ok f by (simp_all add: snaps_ok_def)
  have m: "hexafs_mounted store_with_log" "tx_active (hexafs_current_tx store_with_log)" by (simp_all add: store_with_log_def)
  have r: "5 \<le> free_blocks store_with_log" using f(3) bss_kreplay_ok(3) by (simp add: free_blocks_def)
  have l: "replay_log store_with_log = [zero_event\<lparr>re_syscall_num := 4\<rparr>, zero_event\<lparr>re_syscall_num := 4\<rparr>]"
    by (simp add: replay_log_def store_with_log_def eval_nat_numeral)
  have k: "replay_ok store_with_log" "replay_count store_with_log \<le> 56" by (simp_all add: replay_ok_def store_with_log_def)
  have "\<forall>e \<in> set (replay_log store_with_log). length (re_args e) = 4" unfolding l by (simp add: zero_event_def)
  from replay_log_saved [OF p m r k this] l show ?thesis by metis
qed

end
