(* ===== verification/Hexa_Boot.thy ===== *)
theory Hexa_Boot
  imports Hexa_Replay
begin

text \<open>
  The boot policy (\<^verbatim>\<open>boot_policy.c\<close>, \<^verbatim>\<open>boot_policy.h\<close>): named stages that are run in order inside a
  transaction, a snapshot \<^verbatim>\<open>boot_ok\<close> at the end, and the fallback snapshot.
\<close>

section \<open>State and operations\<close>

record boot_stage =
  bs_name :: bytes
  bs_required_snap :: u32
  bs_produces_snap :: u32
  bs_verify_fn_hash :: u32

record boot_policy =
  bp_stage_count :: u32
  bp_stages :: "boot_stage list"
  bp_fallback_snap :: u32
  bp_timeout_ticks :: u32
  bp_policy_hash :: u32

record kboot = kreplay +
  g_policy :: boot_policy
  g_policy_loaded :: bool
  g_boot_failed :: bool
  g_failure_count :: u32

definition zero_stage :: boot_stage where
  "zero_stage = \<lparr>bs_name = zeros 32, bs_required_snap = 0, bs_produces_snap = 0, bs_verify_fn_hash = 0\<rparr>"

definition init_stage :: "bytes \<Rightarrow> boot_stage" where
  "init_stage n =
     \<lparr>bs_name = put_bytes 0 (take 31 n @ [0]) (zeros 32), bs_required_snap = 0, bs_produces_snap = 0, bs_verify_fn_hash = 0\<rparr>"

definition boot_policy_init :: "'a kboot_scheme \<Rightarrow> 'a kboot_scheme" where
  "boot_policy_init s =
     s\<lparr>g_policy := \<lparr>bp_stage_count = 4,
          bp_stages = [init_stage (cs ''hardware_ok''), init_stage (cs ''drivers_loaded''), init_stage (cs ''services_ready''),
             init_stage (cs ''shell_ready''), zero_stage, zero_stage, zero_stage, zero_stage],
          bp_fallback_snap = 0, bp_timeout_ticks = 5000, bp_policy_hash = 0\<rparr>,
       g_policy_loaded := True\<rparr>"

definition write_failure_log :: "bytes \<Rightarrow> 'a kboot_scheme \<Rightarrow> 'a kboot_scheme" where
  "write_failure_log stage_name s =
     (if \<not> hexafs_mounted s then s else log_write LOG_LEVEL_ERROR (take 31 (c_str stage_name)) s)"

definition boot_policy_write :: "'a kboot_scheme \<Rightarrow> int" where
  "boot_policy_write s = (if hexafs_mounted s then 1 else 0)"

definition boot_policy_read :: "'a kboot_scheme \<Rightarrow> (int \<times> 'a kboot_scheme) option" where
  "boot_policy_read s =
     do {
       (snap_block, s1) \<leftarrow> hexafs_snap_find (cs ''boot_policy'') s;
       Some (if snap_block = 0 then (0, boot_policy_init s1) else (1, s1\<lparr>g_policy_loaded := True\<rparr>))
     }"

text \<open>What follows a failed stage.\<close>

definition stage_failed :: "boot_stage \<Rightarrow> 'a kboot_scheme \<Rightarrow> 'a kboot_scheme" where
  "stage_failed stage s =
     (let s1 = print_string [10] (print_string (bs_name stage) (print_color (cs ''[BOOT] Stage FAILED: '') 0x0C s));
          s2 = write_failure_log (bs_name stage) s1;
          s3 = s2\<lparr>g_boot_failed := True, g_failure_count := g_failure_count s2 + 1\<rparr>
      in if bp_fallback_snap (g_policy s3) \<noteq> 0
         then print_color (cs ''[BOOT] Rolling back to fallback snapshot...'' @ [10]) 0x0E s3 else s3)"

text \<open>The result of a stage is the constant 1 in the code.\<close>

definition boot_policy_run_stage :: "int \<Rightarrow> 'a kboot_scheme \<Rightarrow> bool \<times> 'a kboot_scheme" where
  "boot_policy_run_stage stage_idx s =
     (if stage_idx < 0 \<or> stage_idx \<ge> to_int (bp_stage_count (g_policy s)) then (False, s)
      else
        let stage = bp_stages (g_policy s) ! nat stage_idx;
            s1 = print_string [10] (print_string (bs_name stage) (print_color (cs ''[BOOT] Stage: '') 0x0A s));
            result = True
        in if \<not> result then (False, stage_failed stage s1)
           else (True, log_write LOG_LEVEL_INFO (bs_name stage) s1))"

fun run_stages :: "nat list \<Rightarrow> 'a kboot_scheme \<Rightarrow> bool \<times> 'a kboot_scheme" where
  "run_stages [] s = (True, s)"
| "run_stages (i # is) s =
     (case boot_policy_run_stage (int i) s of
        (False, s1) \<Rightarrow> (False, log_write LOG_LEVEL_ERROR (cs ''boot policy stage failed'')
            (snd (hexafs_tx_abort (print_color (cs ''[BOOT] Stage failed, rolling back...'' @ [10]) 0x0C s1))))
      | (True, s1) \<Rightarrow> run_stages is s1)"

definition boot_policy_execute :: "'a kboot_scheme \<Rightarrow> bool \<times> 'a kboot_scheme" where
  "boot_policy_execute s =
     (let s1 = (if g_policy_loaded s then s else boot_policy_init s);
          s2 = snd (hexafs_tx_begin (print_string (cs ''[BOOT] Executing boot policy...'' @ [10]) s1))
      in case run_stages [0..<unat (bp_stage_count (g_policy s2))] s2 of
           (False, s3) \<Rightarrow> (False, s3)
         | (True, s3) \<Rightarrow>
             let s4 = s3\<lparr>hexafs_current_tx := (hexafs_current_tx s3)\<lparr>tx_dirty := True\<rparr>\<rparr>;
                 s5 = snd (hexafs_tx_commit (snd (hexafs_snap_create (cs ''boot_ok'') s4)))
             in (True, log_write LOG_LEVEL_INFO (cs ''boot policy completed'')
                   (print_color (cs ''[BOOT] Boot policy completed successfully.'' @ [10]) 0x0A s5)))"

definition boot_policy_set_fallback :: "bytes \<Rightarrow> 'a kboot_scheme \<Rightarrow> 'a kboot_scheme option" where
  "boot_policy_set_fallback snap s =
     do {
       (snap_block, s1) \<leftarrow> hexafs_snap_find snap s;
       Some (if snap_block \<noteq> 0
             then print_string (cs ''Fallback snapshot set.'' @ [10]) (s1\<lparr>g_policy := (g_policy s1)\<lparr>bp_fallback_snap := snap_block\<rparr>\<rparr>)
             else print_string (cs ''Snapshot not found.'' @ [10]) s1)
     }"

definition boot_policy_get_failure_count :: "'a kboot_scheme \<Rightarrow> u32" where
  "boot_policy_get_failure_count s = g_failure_count s"

definition boot_policy_get_stage_count :: "'a kboot_scheme \<Rightarrow> u32" where
  "boot_policy_get_stage_count s = bp_stage_count (g_policy s)"

definition boot_policy_get_stage_name :: "int \<Rightarrow> 'a kboot_scheme \<Rightarrow> bytes option" where
  "boot_policy_get_stage_name idx s =
     (if idx < 0 \<or> idx \<ge> to_int (bp_stage_count (g_policy s)) then None else Some (bs_name (bp_stages (g_policy s) ! nat idx)))"

section \<open>What messages leave alone\<close>

definition disk_view :: "'a kdisk_scheme \<Rightarrow> _" where
  "disk_view s = (ata_drv s, drive s, ata_status s, ata_reads s, block_cache s, alloc_bitmap s, alloc_bitmap_dirty s, next_alloc_hint s,
     hexafs_mounted s, sb_cache s, hexafs_current_tx s)"

lemma con_frame_view: "con_frame s s' \<Longrightarrow> disk_view s' = disk_view s"
  by (auto simp: con_frame_def disk_view_def)

lemmas disk_view_print [simp] = con_frame_view [OF con_frame_print_string] con_frame_view [OF con_frame_print_color]

lemma disk_view_log [simp]: "disk_view (log_write l t s) = disk_view s"
  by (simp add: disk_view_def)

lemma disk_view_eq:
  assumes "disk_view s' = disk_view s"
  shows "disk_inv s' = disk_inv s" "alloc_inv s' = alloc_inv s" "blk s' = blk s" "disk_used s' = disk_used s"
    "sb_cache s' = sb_cache s" "hexafs_current_tx s' = hexafs_current_tx s" "alloc_bitmap_dirty s' = alloc_bitmap_dirty s"
proof -
  have f: "ata_drv s' = ata_drv s" "drive s' = drive s" "ata_status s' = ata_status s" "ata_reads s' = ata_reads s"
    "block_cache s' = block_cache s" "alloc_bitmap s' = alloc_bitmap s" "next_alloc_hint s' = next_alloc_hint s"
    using assms by (simp_all add: disk_view_def)
  then show "disk_inv s' = disk_inv s" "blk s' = blk s" using disk_inv_cong by blast+
  show "alloc_inv s' = alloc_inv s" "disk_used s' = disk_used s" using f by (simp_all add: alloc_inv_def disk_used_def)
  show "sb_cache s' = sb_cache s" "hexafs_current_tx s' = hexafs_current_tx s" "alloc_bitmap_dirty s' = alloc_bitmap_dirty s"
    using assms by (simp_all add: disk_view_def)
qed

lemma boot_messages [simp]:
  fixes s :: "'a kboot_scheme"
  shows "g_policy (print_string t s) = g_policy s" "g_policy (print_color t c s) = g_policy s" "g_policy (log_write l t s) = g_policy s"
    "g_policy_loaded (print_string t s) = g_policy_loaded s"
proof -
  have "con_frame s s' \<Longrightarrow> g_policy s' = g_policy s \<and> g_policy_loaded s' = g_policy_loaded s" for s' by (auto simp: con_frame_def)
  from this [OF con_frame_print_string] this [OF con_frame_print_color]
  show "g_policy (print_string t s) = g_policy s" "g_policy (print_color t c s) = g_policy s" "g_policy_loaded (print_string t s) = g_policy_loaded s"
    by simp_all
  show "g_policy (log_write l t s) = g_policy s" by (subst log_write_frame) simp
qed

text \<open>Every stage in range succeeds, and only prints and logs.\<close>

lemma run_stage_ok:
  assumes "int i < to_int (bp_stage_count (g_policy s))" and "boot_policy_run_stage (int i) s = (ok, s')"
  shows "ok \<and> disk_view s' = disk_view s \<and> g_policy s' = g_policy s"
  using assms by (auto simp: boot_policy_run_stage_def Let_def)

lemma run_stages_ok:
  "\<forall>i \<in> set is. int i < to_int (bp_stage_count (g_policy s)) \<Longrightarrow> run_stages is s = (ok, s') \<Longrightarrow>
    ok \<and> disk_view s' = disk_view s \<and> g_policy s' = g_policy s"
proof (induction "is" arbitrary: s)
  case (Cons i "is")
  obtain r s1 where r: "boot_policy_run_stage (int i) s = (r, s1)" by fastforce
  have k: "r \<and> disk_view s1 = disk_view s \<and> g_policy s1 = g_policy s" using run_stage_ok [OF _ r] Cons.prems(1) by simp
  then show ?case using Cons.IH [of s1] Cons.prems r by simp
qed simp


section \<open>The snapshot of the boot\<close>

text \<open>Committing stores bitmap and superblock, closes the transaction and keeps the snapshots.\<close>

lemma commit_ok:
  assumes "snaps_ok s" and "snap_path s (root_snap s) bs" and "tx_active (hexafs_current_tx s)" and "tx_dirty (hexafs_current_tx s)"
    and "hexafs_tx_commit s = (ok, s')"
  shows "ok \<and> snaps_ok s' \<and> root_snap s' = root_snap s \<and> snap_path s' (root_snap s') bs \<and> \<not> tx_active (hexafs_current_tx s') \<and>
    blk s' 100 = superblock_of (sb_cache s) \<and> (\<forall>x \<in> set bs. blk s' x = blk s x)"
proof -
  have i: "disk_inv s" "length (alloc_bitmap s) = 1024" "length (sb_cache s) = 512" "alloc_inv s"
    using assms(1) by (simp_all add: snaps_ok_def alloc_inv_def)
  obtain s1 where s1: "hexafs_save_bitmap s = (True, s1)" "disk_inv s1" "alloc_bitmap s1 = alloc_bitmap s" "sb_cache s1 = sb_cache s"
    "next_alloc_hint s1 = next_alloc_hint s" "hexafs_current_tx s1 = hexafs_current_tx s" "\<forall>x. x \<noteq> 101 \<and> x \<noteq> 102 \<longrightarrow> blk s1 x = blk s x"
  proof (cases "alloc_bitmap_dirty s")
    case True
    obtain t where t: "hexafs_save_bitmap s = (True, t)" "disk_inv t"
      "blk t = (blk s)(101 := get_bytes 0 512 (alloc_bitmap s), 102 := get_bytes 512 512 (alloc_bitmap s))"
      "alloc_bitmap t = alloc_bitmap s" "\<not> alloc_bitmap_dirty t" "sb_cache t = sb_cache s"
      "next_alloc_hint t = next_alloc_hint s" "hexafs_current_tx t = hexafs_current_tx s"
      by (rule save_bitmap_ok [OF i(1,2) True])
    show thesis by (rule that [OF t(1,2,4,6,7,8)]) (simp add: t(3))
  next
    case False
    then show thesis using that [of s] i(1) by (simp add: hexafs_save_bitmap_def)
  qed
  obtain s2 where s2: "hexafs_write_superblock s1 = (True, s2)" "disk_inv s2" "blk s2 = (blk s1)(100 := superblock_of (sb_cache s1))"
    "sb_cache s2 = superblock_of (sb_cache s1)" "alloc_bitmap s2 = alloc_bitmap s1" "alloc_bitmap_dirty s2 = alloc_bitmap_dirty s1"
    "next_alloc_hint s2 = next_alloc_hint s1" "hexafs_current_tx s2 = hexafs_current_tx s1"
    by (rule write_superblock_ok [OF s1(2)])
  have e: "ok" "s' = log_write LOG_LEVEL_INFO (cs ''HEXAFS: transaction committed'') (tx_close s2)"
    using assms(3-5) s1(1) s2(1) by (simp_all add: hexafs_tx_commit_def)
  have b: "blk s' = blk s2" "disk_inv s'" using e(2) s2(2) by (simp_all add: tx_close_def)
  have f: "alloc_bitmap s' = alloc_bitmap s" "sb_cache s' = superblock_of (sb_cache s)" "next_alloc_hint s' = next_alloc_hint s"
    "\<not> tx_active (hexafs_current_tx s')"
    using e(2) s1 s2 by (simp_all add: tx_close_def)
  have u: "disk_used s' = disk_used s" using f(1) by (simp add: disk_used_def)
  have same: "blk s' x = blk s x" if "x \<in> set bs" for x
  proof -
    have "103 \<le> unat x" using snap_path_used [OF assms(2) that] by (simp add: used_lba_def)
    then have "x \<noteq> 100" "x \<noteq> 101" "x \<noteq> 102" by auto
    then show ?thesis using b(1) s1(7) s2(3) by simp
  qed
  have r: "root_snap s' = root_snap s" using f(2) by (simp add: superblock_of_fields)
  have "\<forall>x \<in> set bs. blk s' x = blk s x \<and> used_lba x s'"
    using same snap_path_used [OF assms(2)] u by (simp add: used_lba_def)
  then have "snap_path s' (root_snap s') bs" using snap_path_frame [OF assms(2)] r by simp
  moreover have "snaps_ok s'" using b(2) f i(4) by (simp add: snaps_ok_def alloc_inv_def superblock_of_fields)
  moreover have "blk s' 100 = superblock_of (sb_cache s)" using b(1) s2(3) s1(4) by simp
  ultimately show ?thesis using e(1) r f(4) same by blast
qed

lemma snap_create_free:
  assumes "snaps_ok s" and "1 \<le> free_blocks s" and "tx_active (hexafs_current_tx s)" and "tx_dirty (hexafs_current_tx s)"
    and nm: "0 \<notin> set name" "length name < 32"
  obtains b s' where "hexafs_snap_create name s = (b, s')" and "b \<noteq> 0"
proof -
  have i: "disk_inv s" "alloc_inv s" "Suc 0 \<le> free_blocks s" using assms(1,2) by (simp_all add: snaps_ok_def)
  obtain b s1 where a: "hexafs_alloc_block s = (b, s1)" "b \<noteq> 0" "valid_lba b" "unat b \<notin> disk_used s"
    "disk_used s1 = insert (unat b) (disk_used s)" "blk s1 = (blk s)(b := zeros 512)" "disk_inv s1" "alloc_inv s1"
    "0 \<le> free_blocks s1" "used_lba b s1" "sb_cache s1 = sb_cache s" "hexafs_current_tx s1 = hexafs_current_tx s"
    "hexafs_mounted s1 = hexafs_mounted s" "HEXAFS_OBJECT_LBA \<le> unat b"
    by (rule alloc_block_ok [OF i])
  from store.wr_cases [OF a(7,3) new_snap_fields(4) [OF nm]] obtain s2 where
    "hexafs_block_write b (new_snap name (root_snap s1) (sb_timestamp (sb_cache s1)) (tx_new_root_block (hexafs_current_tx s1))) s1 = (True, s2)"
    by blast
  then show thesis using that [of b] a(1,2) assms(3,4) by (simp add: hexafs_snap_create_def)
qed

lemma snap_create_tx:
  assumes "hexafs_snap_create name s = (b, s')" and "b \<noteq> 0"
  shows "tx_active (hexafs_current_tx s') = tx_active (hexafs_current_tx s)" "tx_dirty (hexafs_current_tx s') = tx_dirty (hexafs_current_tx s)"
proof -
  obtain b1 s1 where a: "hexafs_alloc_block s = (b1, s1)" by fastforce
  have t1: "hexafs_current_tx s1 = hexafs_current_tx s" using alloc_block_fields [of s] by (simp only: a snd_conv)
  let ?sn = "new_snap name (root_snap s1) (sb_timestamp (sb_cache s1)) (tx_new_root_block (hexafs_current_tx s1))"
  obtain w s2 where w: "hexafs_block_write b1 ?sn s1 = (w, s2)" by fastforce
  have t2: "hexafs_current_tx s2 = hexafs_current_tx s" using write_fields(4) [OF w] t1 by simp
  have "s' = s2\<lparr>hexafs_current_tx := (hexafs_current_tx s2)\<lparr>tx_snap_block := b1\<rparr>, sb_cache := put32 28 b1 (sb_cache s2)\<rparr>"
    using assms a w by (auto simp: hexafs_snap_create_def split: if_splits bool.splits)
  then show "tx_active (hexafs_current_tx s') = tx_active (hexafs_current_tx s)" "tx_dirty (hexafs_current_tx s') = tx_dirty (hexafs_current_tx s)"
    using t2 by simp_all
qed

lemma disk_inv_tx_gen [simp]:
  fixes s :: "'a kfs_scheme"
  shows "disk_inv (s\<lparr>tx_gen := n\<rparr>) = disk_inv s" "blk (s\<lparr>tx_gen := n\<rparr>) = blk s"
  by (rule disk_inv_cong; simp)+

text \<open>
  The boot policy leaves a \<^verbatim>\<open>boot_ok\<close> snapshot.  With the built-in stages, a free block and no open
  transaction, \<^verbatim>\<open>boot_policy_execute\<close> succeeds, commits and closes its transaction; the search for
  \<^verbatim>\<open>boot_ok\<close> then finds a new snapshot in front of the unchanged chain, and the superblock on the drive
  names it as the newest.  That snapshot, however, has root block 0: the transaction never sets one.
\<close>

theorem boot_policy_snapshot:
  assumes "snaps_ok s" and "snap_path s (root_snap s) bs" and "1 \<le> free_blocks s" and "\<not> tx_active (hexafs_current_tx s)"
    and "\<not> g_policy_loaded s" and "boot_policy_execute s = (ok, s')"
  shows "ok \<and> \<not> tx_active (hexafs_current_tx s') \<and> snaps_ok s' \<and>
    (\<exists>b s''. b \<noteq> 0 \<and> b \<notin> set bs \<and> snap_path s' (root_snap s') (b # bs) \<and> (\<forall>x \<in> set bs. blk s' x = blk s x) \<and>
       hexafs_snap_find (cs ''boot_ok'') s' = Some (b, s'') \<and> sb_root_snap_block (blk s' 100) = b \<and> snap_root (blk s' b) = 0)"
proof -
  let ?p = "print_string (cs ''[BOOT] Executing boot policy...'' @ [10]) (boot_policy_init s)"
  define s2 where "s2 = snd (hexafs_tx_begin ?p)"
  have vp: "disk_view ?p = disk_view s" by (simp add: disk_view_def [of s] boot_policy_init_def) (simp add: disk_view_def)
  note ep = disk_view_eq [OF vp]
  have s2e: "s2 = ?p\<lparr>tx_gen := tx_gen ?p + 1, hexafs_current_tx := bss_tx\<lparr>tx_active := True, tx_tid := tx_gen ?p + 1,
      tx_parent_snap_block := root_snap ?p, tx_dirty := False\<rparr>\<rparr>"
    using ep(6) assms(4) unfolding s2_def hexafs_tx_begin_def by simp
  have tx2: "tx_active (hexafs_current_tx s2)" "tx_new_root_block (hexafs_current_tx s2) = 0"
    and g2: "g_policy s2 = g_policy (boot_policy_init s)"
    and d2: "disk_inv s2 = disk_inv s" "alloc_inv s2 = alloc_inv s" "blk s2 = blk s" "disk_used s2 = disk_used s" "sb_cache s2 = sb_cache s"
    using ep by (simp_all add: s2e bss_tx_def alloc_inv_def disk_used_def)
  have c2: "bp_stage_count (g_policy s2) = 4" using g2 by (simp add: boot_policy_init_def)
  obtain r s3 where r: "run_stages [0..<unat (bp_stage_count (g_policy s2))] s2 = (r, s3)" by fastforce
  have "\<forall>i \<in> set [0..<unat (bp_stage_count (g_policy s2))]. int i < to_int (bp_stage_count (g_policy s2))"
    using c2 to_int_small [of "4 :: u32"] by simp
  from run_stages_ok [OF this r] have rs: "r" "disk_view s3 = disk_view s2" by simp_all
  note e3 = disk_view_eq [OF rs(2)]
  define s4 where "s4 = s3\<lparr>hexafs_current_tx := (hexafs_current_tx s3)\<lparr>tx_dirty := True\<rparr>\<rparr>"
  have tx4: "tx_active (hexafs_current_tx s4)" "tx_dirty (hexafs_current_tx s4)" "tx_new_root_block (hexafs_current_tx s4) = 0"
    using tx2 e3(6) by (simp_all add: s4_def)
  have d4: "blk s4 = blk s" "disk_used s4 = disk_used s" "sb_cache s4 = sb_cache s" "disk_inv s4 = disk_inv s" "alloc_inv s4 = alloc_inv s"
    using d2 e3 by (simp_all add: s4_def alloc_inv_def disk_used_def)
  have ok4: "snaps_ok s4" using assms(1) d4 by (simp add: snaps_ok_def)
  have p4: "snap_path s4 (root_snap s4) bs" using snap_path_io [OF assms(2) d4(1,2)] d4(3) by simp
  have f4: "1 \<le> free_blocks s4" using assms(3) d4(2) by (simp add: free_blocks_def)
  have nm: "0 \<notin> set (cs ''boot_ok'')" "length (cs ''boot_ok'') < 32" "cs ''boot_ok'' \<noteq> []" by (simp_all add: cs_def)
  obtain b s5 where sc: "hexafs_snap_create (cs ''boot_ok'') s4 = (b, s5)" "b \<noteq> 0"
    by (rule snap_create_free [OF ok4 f4 tx4(1,2) nm(1,2)])
  have i4: "disk_inv s4" "alloc_inv s4" "length (sb_cache s4) = 512" using ok4 by (simp_all add: snaps_ok_def)
  note k = snap_create_cases [OF i4(1,2) nm(1,2) sc i4(3)] and q = snap_create_path [OF i4(1,2) nm(1,2) p4 sc i4(3)]
  have ok5: "snaps_ok s5" using k by (simp add: snaps_ok_def)
  have tx5: "tx_active (hexafs_current_tx s5)" "tx_dirty (hexafs_current_tx s5)" using snap_create_tx [OF sc] tx4 by simp_all
  obtain ok6 s6 where c6: "hexafs_tx_commit s5 = (ok6, s6)" by fastforce
  note k6 = commit_ok [OF ok5 q(1) tx5 c6]
  have e': "ok" "s' = log_write LOG_LEVEL_INFO (cs ''boot policy completed'') (print_color (cs ''[BOOT] Boot policy completed successfully.'' @ [10]) 0x0A s6)"
    using assms(5,6) r rs(1) sc(1) c6 by (simp_all add: boot_policy_execute_def s2_def [symmetric] s4_def [symmetric] Let_def)
  have v': "disk_view s' = disk_view s6" using e'(2) by simp
  note e6 = disk_view_eq [OF v']
  have ok': "snaps_ok s'" using k6 e6 by (simp add: snaps_ok_def)
  have p6: "snap_path s6 (root_snap s6) (b # bs)" using k6 by blast
  have p': "snap_path s' (root_snap s') (b # bs)" unfolding e6(5) by (rule snap_path_io [OF p6 e6(3,4)])
  have nmd: "snap_named s' (cs ''boot_ok'') b"
    using snap_create_named [OF i4(1,2) nm(1,2) sc i4(3) nm(1,3,2)] k6 e6(3) by (simp add: snap_named_def)
  obtain s'' where "hexafs_snap_find (cs ''boot_ok'') s' = Some (first_named s' (cs ''boot_ok'') (b # bs), s'')"
    using snap_find_path [OF p'] ok' by (metis snaps_ok_def)
  then have fd: "hexafs_snap_find (cs ''boot_ok'') s' = Some (b, s'')" using nmd by (simp add: first_named_def)
  have rt: "snap_root (blk s' b) = 0" using k6 e6(3) k(6) new_snap_fields(3) [OF nm(1,2)] tx4(3) by simp
  have sb: "sb_root_snap_block (blk s' 100) = b" using k6 e6(3) k(3) by (simp add: superblock_of_fields)
  have same: "\<forall>x \<in> set bs. blk s' x = blk s x" using k6 e6(3) q(3) d4(1) by simp
  have tx': "\<not> tx_active (hexafs_current_tx s')" using k6 e6(6) by simp
  show ?thesis by (intro conjI exI [of _ b] exI [of _ s'']; fact e'(1) tx' ok' sc(2) q(2) p' same fd sb rt)
qed

section \<open>Examples\<close>

definition bss_kboot :: kboot where
  "bss_kboot = kreplay.extend bss_kreplay \<lparr>g_policy = \<lparr>bp_stage_count = 0, bp_stages = replicate 8 zero_stage, bp_fallback_snap = 0,
     bp_timeout_ticks = 0, bp_policy_hash = 0\<rparr>, g_policy_loaded = False, g_boot_failed = False, g_failure_count = 0\<rparr>"

lemma bss_kboot_disk:
  "ata_drv bss_kboot = 0xE0" "drive bss_kboot = (\<lambda>_ _. zeros 512)" "ata_status bss_kboot = (\<lambda>_. 0x58)" "ata_reads bss_kboot = 0"
  "block_cache bss_kboot = replicate HEXAFS_CACHE_SLOTS empty_slot" "alloc_bitmap bss_kboot = zeros 1024"
  "next_alloc_hint bss_kboot = HEXAFS_OBJECT_LBA" "sb_cache bss_kboot = zeros 512" "hexafs_current_tx bss_kboot = bss_tx"
  by (simp_all add: bss_kboot_def bss_all_defs kreplay.defs)

lemma bss_kboot_ok: "snaps_ok bss_kboot" "root_snap bss_kboot = 0" "disk_used bss_kboot = {}"
proof -
  have "disk_inv bss_kboot"
    by (auto simp: disk_inv_def drive_ok_def cache_ok_def blk_def bss_kboot_disk empty_slot_def ready_status_def intro: exI [of _ "_ :: nat"])
  then show "snaps_ok bss_kboot" by (simp add: snaps_ok_def alloc_inv_def bss_kboot_disk)
  show "root_snap bss_kboot = 0" by (simp add: sb_root_snap_block_def bss_kboot_disk bytes_simps)
  show "disk_used bss_kboot = {}" using bm_test_zeros by (auto simp: disk_used_def bm_used_def bss_kboot_disk)
qed

theorem boot_policy_snapshot_witness:
  "\<exists>s' b s''. boot_policy_execute bss_kboot = (True, s') \<and> hexafs_snap_find (cs ''boot_ok'') s' = Some (b, s'') \<and> b \<noteq> 0 \<and> snap_root (blk s' b) = 0"
proof -
  obtain ok s' where e: "boot_policy_execute bss_kboot = (ok, s')" by fastforce
  have p: "snap_path bss_kboot (root_snap bss_kboot) []" using bss_kboot_ok(2) by simp
  have f: "1 \<le> free_blocks bss_kboot" using bss_kboot_ok(3) by (simp add: free_blocks_def)
  have t: "\<not> tx_active (hexafs_current_tx bss_kboot)" by (simp add: bss_kboot_disk bss_tx_def)
  have g: "\<not> g_policy_loaded bss_kboot" by (simp add: bss_kboot_def kreplay.defs)
  from boot_policy_snapshot [OF bss_kboot_ok(1) p f t g e] obtain b s'' where
    "ok" "hexafs_snap_find (cs ''boot_ok'') s' = Some (b, s'')" "b \<noteq> 0" "snap_root (blk s' b) = 0" by blast
  then show ?thesis using e by (intro exI [of _ s'] exI [of _ b] exI [of _ s'']) simp
qed

end
