(* ===== verification/Hexa_Elf.thy ===== *)
theory Hexa_Elf
  imports Hexa_Cstring Hexa_Paging
begin

text \<open>
  The ELF loader (\<^verbatim>\<open>elf.c\<close>, \<^verbatim>\<open>elf.h\<close>): the image and the segments are in the byte memory, addresses are
  computed modulo \<open>2 ^ 32\<close>.  The headers are read through memory while the segments are written.
\<close>

section \<open>The loader\<close>

abbreviation (input) ELF_MAGIC :: u32 where "ELF_MAGIC \<equiv> 0x464C457F"
abbreviation (input) PT_LOAD :: u32 where "PT_LOAD \<equiv> 1"

definition rd16 :: "mem \<Rightarrow> u32 \<Rightarrow> u16" where
  "rd16 m a = de16 [m a, m (a + 1)]"

text \<open>The fields of \<^verbatim>\<open>struct elf_header\<close> and \<^verbatim>\<open>struct elf_prog_header\<close>.\<close>

definition eh_magic :: "mem \<Rightarrow> u32 \<Rightarrow> u32" where "eh_magic m h = rd32 m h"
definition eh_arch :: "mem \<Rightarrow> u32 \<Rightarrow> u8" where "eh_arch m h = m (h + 4)"
definition eh_type :: "mem \<Rightarrow> u32 \<Rightarrow> u16" where "eh_type m h = rd16 m (h + 16)"
definition eh_machine :: "mem \<Rightarrow> u32 \<Rightarrow> u16" where "eh_machine m h = rd16 m (h + 18)"
definition eh_entry :: "mem \<Rightarrow> u32 \<Rightarrow> u32" where "eh_entry m h = rd32 m (h + 24)"
definition eh_phoff :: "mem \<Rightarrow> u32 \<Rightarrow> u32" where "eh_phoff m h = rd32 m (h + 28)"
definition eh_phnum :: "mem \<Rightarrow> u32 \<Rightarrow> u16" where "eh_phnum m h = rd16 m (h + 44)"

definition ph_type :: "mem \<Rightarrow> u32 \<Rightarrow> u32" where "ph_type m p = rd32 m p"
definition ph_offset :: "mem \<Rightarrow> u32 \<Rightarrow> u32" where "ph_offset m p = rd32 m (p + 4)"
definition ph_vaddr :: "mem \<Rightarrow> u32 \<Rightarrow> u32" where "ph_vaddr m p = rd32 m (p + 8)"
definition ph_filesz :: "mem \<Rightarrow> u32 \<Rightarrow> u32" where "ph_filesz m p = rd32 m (p + 16)"
definition ph_memsz :: "mem \<Rightarrow> u32 \<Rightarrow> u32" where "ph_memsz m p = rd32 m (p + 20)"

definition elf_validate :: "u32 \<Rightarrow> mem \<Rightarrow> bool" where
  "elf_validate h m \<longleftrightarrow> eh_magic m h = ELF_MAGIC \<and> eh_arch m h = 1 \<and> eh_machine m h = 3 \<and> eh_type m h = 2"

text \<open>Copying one segment and clearing its rest: both loops go upwards byte by byte.\<close>

definition load_segment :: "u32 \<times> u32 \<times> u32 \<times> u32 \<Rightarrow> mem \<Rightarrow> mem" where
  "load_segment = (\<lambda>(dst, src, filesz, memsz) m.
     memset (dst + filesz) 0 (unat memsz - unat filesz) (memcpy dst src (unat filesz) m))"

definition seg_at :: "mem \<Rightarrow> u32 \<Rightarrow> u32 \<Rightarrow> u32 \<times> u32 \<times> u32 \<times> u32" where
  "seg_at m h p = (ph_vaddr m p, h + ph_offset m p, ph_filesz m p, ph_memsz m p)"

definition seg_end :: "u32 \<times> u32 \<times> u32 \<times> u32 \<Rightarrow> u32" where
  "seg_end = (\<lambda>(dst, src, filesz, memsz). dst + memsz)"

function elf_segments :: "u32 \<Rightarrow> u32 \<Rightarrow> nat \<Rightarrow> u32 \<Rightarrow> mem \<Rightarrow> u32 \<times> mem" where
  "elf_segments h ph i max_addr m =
     (if i < unat (eh_phnum m h) then
        let p = ph + 32 * of_nat i
        in if ph_type m p = PT_LOAD
           then elf_segments h ph (i + 1) (max max_addr (seg_end (seg_at m h p))) (load_segment (seg_at m h p) m)
           else elf_segments h ph (i + 1) max_addr m
      else (max_addr, m))"
  by pat_completeness auto

termination
proof (relation "measure (\<lambda>(h, ph, i, mx, m). 65536 - i)")
  fix h ph mx :: u32 and i :: nat and m :: mem
  assume "i < unat (eh_phnum m h)"
  moreover have "unat (eh_phnum m h) < 65536" using unsigned_less [of "eh_phnum m h", where 'a = nat] by simp
  ultimately show "((h, ph, i + 1, mx', m'), h, ph, i, mx, m) \<in> measure (\<lambda>(h, ph, i, mx, m). 65536 - i)" for mx' :: u32 and m' :: mem
    by simp
  then show "((h, ph, i + 1, mx', m'), h, ph, i, mx, m) \<in> measure (\<lambda>(h, ph, i, mx, m). 65536 - i)" for mx' :: u32 and m' :: mem .
qed simp

declare elf_segments.simps [simp del]

text \<open>The result on success: \<^verbatim>\<open>*entry\<close>, \<^verbatim>\<open>*heap_start\<close> (for a pointer that is not null) and the memory.\<close>

definition elf_load :: "u32 \<Rightarrow> mem \<Rightarrow> ((u32 \<times> u32) \<times> mem) option" where
  "elf_load h m =
     (if \<not> elf_validate h m then None
      else case elf_segments h (h + eh_phoff m h) 0 0 m of
        (max_addr, m') \<Rightarrow> Some ((eh_entry m h, (max_addr + 0xFFF) AND NOT 0xFFF), m'))"

section \<open>Regions\<close>

definition region :: "u32 \<Rightarrow> nat \<Rightarrow> u32 set" where
  "region a n = {x. unat (x - a) < n}"

lemma region_Suc:
  assumes "n < 2 ^ 32"
  shows "x \<in> region (a + 1) n \<longleftrightarrow> x \<noteq> a \<and> x \<in> region a (Suc n)"
proof (cases "x = a")
  case True
  have "unat (- 1 :: u32) = 2 ^ 32 - 1" by (simp add: unsigned_minus_1_eq_mask mask_eq_exp_minus_1)
  then show ?thesis using True assms by (simp add: region_def)
next
  case False
  then have "unat (x - a - 1) = unat (x - a) - 1" "0 < unat (x - a)"
    using unat_minus_one [of "x - a"] by (auto simp: unat_gt_0)
  then show ?thesis using False by (auto simp: region_def diff_diff_eq)
qed

lemma memcpy_region:
  "n \<le> 2 ^ 32 \<Longrightarrow> region d n \<inter> region s n = {} \<Longrightarrow> memcpy d s n m x = (if x \<in> region d n then m (s + (x - d)) else m x)"
proof (induction n arbitrary: d s m)
  case (Suc n)
  have n: "n < 2 ^ 32" using Suc.prems(1) by simp
  have dj: "region (d + 1) n \<inter> region (s + 1) n = {}" using Suc.prems(2) region_Suc [OF n] by blast
  have "s + 1 + (x - (d + 1)) = s + (x - d)" by simp
  then have "memcpy (d + 1) (s + 1) n m' x = (if x \<in> region (d + 1) n then m' (s + (x - d)) else m' x)" for m'
    using Suc.IH [OF _ dj, of m'] n by simp
  moreover define m1 where "m1 = m(d := m s)"
  ultimately have ih: "memcpy d s (Suc n) m x = (if x \<in> region (d + 1) n then m1 (s + (x - d)) else m1 x)"
    by (simp only: memcpy.simps)
  have dd: "d \<in> region d (Suc n)" by (simp add: region_def)
  show ?case
  proof (cases "x = d")
    case True
    then show ?thesis using ih dd region_Suc [OF n, of d d] by (simp add: m1_def)
  next
    case False
    show ?thesis
    proof (cases "x \<in> region d (Suc n)")
      case True
      then have "s + (x - d) \<in> region s (Suc n)" by (simp add: region_def)
      then have "s + (x - d) \<noteq> d" using Suc.prems(2) dd by (metis disjoint_iff)
      then show ?thesis using ih True False region_Suc [OF n, of x d] by (simp add: m1_def)
    next
      case out: False
      then show ?thesis using ih False region_Suc [OF n, of x d] by (simp add: m1_def)
    qed
  qed
qed (simp add: region_def)

lemma memset_region: "n \<le> 2 ^ 32 \<Longrightarrow> memset d v n m x = (if x \<in> region d n then v else m x)"
proof (induction n arbitrary: d m)
  case (Suc n)
  have n: "n < 2 ^ 32" using Suc.prems by simp
  have "d \<in> region d (Suc n)" by (simp add: region_def)
  moreover have "memset (d + 1) v n m' x = (if x \<in> region (d + 1) n then v else m' x)" for m' using Suc.IH n by simp
  ultimately show ?case using region_Suc [OF n, of x d] by (cases "x = d") (simp_all only: memset.simps fun_upd_apply simp_thms if_True if_False)
qed (simp add: region_def)

lemma region_sub:
  assumes "unat o' + n \<le> k"
  shows "region (a + o') n \<subseteq> region a k"
proof
  fix x assume "x \<in> region (a + o') n"
  then have "unat (x - (a + o')) < n" by (simp add: region_def)
  moreover have "unat (x - a) \<le> unat (x - (a + o')) + unat o'"
    using unat_plus_simple [of "x - (a + o')" o'] by (metis add_diff_cancel_right diff_add_cancel diff_diff_add unat_word_ariths(1) mod_less_eq_dividend)
  ultimately show "x \<in> region a k" using assms by (simp add: region_def)
qed

section \<open>Loading\<close>

type_synonym seg = "u32 \<times> u32 \<times> u32 \<times> u32"

text \<open>The addresses a segment occupies in memory and in the image.\<close>

fun seg_dst :: "seg \<Rightarrow> u32 set" where "seg_dst (d, s, f, z) = region d (unat z)"
fun seg_src :: "seg \<Rightarrow> u32 set" where "seg_src (d, s, f, z) = region s (unat f)"
fun seg_fits :: "seg \<Rightarrow> bool" where "seg_fits (d, s, f, z) \<longleftrightarrow> f \<le> z"

text \<open>The byte that belongs to an address of a segment, given the image.\<close>

fun seg_byte :: "seg \<Rightarrow> mem \<Rightarrow> u32 \<Rightarrow> u8" where
  "seg_byte (d, s, f, z) m x = (if x \<in> region d (unat f) then m (s + (x - d)) else 0)"

lemma unat_le: "unat (a :: u32) \<le> 2 ^ 32"
  using unsigned_less [of a, where 'a = nat] by simp

lemma load_segment_bytes:
  assumes "seg_fits g" and "seg_dst g \<inter> seg_src g = {}"
  shows "load_segment g m x = (if x \<in> seg_dst g then seg_byte g m x else m x)"
proof -
  obtain d s f z where g: "g = (d, s, f, z)" by (cases g) auto
  have fz: "unat f \<le> unat z" using assms(1) g by (simp add: word_le_nat_alt)
  have rf: "x \<in> region d (unat f) \<Longrightarrow> x \<in> region d (unat z)" for x using fz by (simp add: region_def)
  have rz: "x \<in> region (d + f) (unat z - unat f) \<longleftrightarrow> x \<in> region d (unat z) \<and> x \<notin> region d (unat f)"
  proof -
    have e: "x - (d + f) = (x - d) - f" by simp
    show ?thesis
    proof (cases "f \<le> x - d")
      case True
      then have "unat (x - (d + f)) = unat (x - d) - unat f" "unat f \<le> unat (x - d)"
        unfolding e by (simp_all add: unat_sub word_le_nat_alt)
      then show ?thesis using fz by (auto simp: region_def)
    next
      case False
      then have lt: "unat (x - d) < unat f" by (simp add: word_le_nat_alt)
      have "unat (x - (d + f)) = 2 ^ 32 + unat (x - d) - unat f" unfolding e
        using lt unat_sub_if_size [of "x - d" f] by (simp add: word_size)
      then show ?thesis using lt fz unsigned_less [of z, where 'a = nat] by (auto simp: region_def)
    qed
  qed
  have dj: "region d (unat f) \<inter> region s (unat f) = {}" using assms(2) g rf by auto
  have z: "unat z - unat f \<le> 2 ^ 32" using unat_le [of z] by simp
  show ?thesis
    unfolding g load_segment_def prod.case memset_region [OF z] memcpy_region [OF unat_le dj] rz using rf by auto
qed

definition load_all :: "seg list \<Rightarrow> u32 \<Rightarrow> mem \<Rightarrow> u32 \<times> mem" where
  "load_all gs mx m = foldl (\<lambda>(mx, m) g. (max mx (seg_end g), load_segment g m)) (mx, m) gs"

fun segs_disjoint :: "seg list \<Rightarrow> bool" where
  "segs_disjoint [] \<longleftrightarrow> True"
| "segs_disjoint (g # gs) \<longleftrightarrow> (\<forall>h \<in> set gs. seg_dst g \<inter> seg_dst h = {}) \<and> segs_disjoint gs"

definition outside :: "u32 set \<Rightarrow> seg list \<Rightarrow> bool" where
  "outside I gs \<longleftrightarrow> (\<forall>g \<in> set gs. seg_fits g \<and> seg_src g \<subseteq> I \<and> seg_dst g \<inter> I = {})"

lemma seg_byte_cong: "(\<And>a. a \<in> seg_src g \<Longrightarrow> m a = m' a) \<Longrightarrow> seg_byte g m x = seg_byte g m' x"
  by (cases g) (auto simp: region_def)

lemma load_all_bytes:
  "outside I gs \<Longrightarrow> segs_disjoint gs \<Longrightarrow> (\<forall>a \<in> I. m a = m0 a) \<Longrightarrow>
    (\<forall>x. (\<forall>g \<in> set gs. x \<notin> seg_dst g) \<longrightarrow> snd (load_all gs mx m) x = m x) \<and>
    (\<forall>g \<in> set gs. \<forall>x \<in> seg_dst g. snd (load_all gs mx m) x = seg_byte g m0 x) \<and>
    mx \<le> fst (load_all gs mx m) \<and> (\<forall>g \<in> set gs. seg_end g \<le> fst (load_all gs mx m)) \<and>
    (\<forall>b. mx \<le> b \<and> (\<forall>g \<in> set gs. seg_end g \<le> b) \<longrightarrow> fst (load_all gs mx m) \<le> b)"
proof (induction gs arbitrary: mx m)
  case (Cons g gs)
  let ?mx = "max mx (seg_end g)"
  define m1 where "m1 = load_segment g m"
  have g: "seg_fits g" "seg_src g \<subseteq> I" "seg_dst g \<inter> I = {}" using Cons.prems(1) by (simp_all add: outside_def)
  have gb: "seg_byte g m x = seg_byte g m0 x" for x using g(2) Cons.prems(3) by (intro seg_byte_cong) auto
  have "seg_dst g \<inter> seg_src g = {}" using g by blast
  note b = load_segment_bytes [OF g(1) this, of m, folded m1_def]
  have b1: "m1 x = seg_byte g m0 x" if "x \<in> seg_dst g" for x using b [of x] that gb by simp
  have b2: "m1 x = m x" if "x \<notin> seg_dst g" for x using b [of x] that by simp
  have i: "\<forall>a \<in> I. m1 a = m0 a" using b2 g(3) Cons.prems(3) by (metis disjoint_iff)
  have o': "outside I gs" "segs_disjoint gs" using Cons.prems(1,2) by (simp_all add: outside_def)
  note ih = Cons.IH [OF o' i, of ?mx]
  have e: "load_all (g # gs) mx m = load_all gs ?mx m1" by (simp add: load_all_def m1_def)
  have "snd (load_all gs ?mx m1) x = seg_byte g m0 x" if "x \<in> seg_dst g" for x
  proof -
    have "\<forall>h \<in> set gs. x \<notin> seg_dst h" using that Cons.prems(2) by auto
    then show ?thesis using ih b1 [OF that] by simp
  qed
  then show ?case unfolding e using ih b2 by auto
qed (simp add: load_all_def)

text \<open>Headers read the same through memories that agree on the image.\<close>

lemma region_numeral: "k < n \<Longrightarrow> k < 2 ^ 32 \<Longrightarrow> a + of_nat k \<in> region a n"
  using word_of_nat_less_eq [of k, where 'a = 32] by (simp add: region_def)

lemma rd_cong:
  assumes "\<forall>x \<in> I. m' x = m x"
  shows "region a 4 \<subseteq> I \<Longrightarrow> rd32 m' a = rd32 m a" and "region a 2 \<subseteq> I \<Longrightarrow> rd16 m' a = rd16 m a"
proof -
  assume r: "region a 4 \<subseteq> I"
  have "a \<in> region a 4" "a + 1 \<in> region a 4" "a + 2 \<in> region a 4" "a + 3 \<in> region a 4" by (simp_all add: region_def)
  then have "m' a = m a" "m' (a + 1) = m (a + 1)" "m' (a + 2) = m (a + 2)" "m' (a + 3) = m (a + 3)" using r assms by blast+
  then show "rd32 m' a = rd32 m a" by (simp only: rd32_def)
next
  assume r: "region a 2 \<subseteq> I"
  have "a \<in> region a 2" "a + 1 \<in> region a 2" by (simp_all add: region_def)
  then have "m' a = m a" "m' (a + 1) = m (a + 1)" using r assms by blast+
  then show "rd16 m' a = rd16 m a" by (simp only: rd16_def)
qed

definition loadable :: "mem \<Rightarrow> u32 \<Rightarrow> nat \<Rightarrow> seg list" where
  "loadable m h i =
     (let ph = (\<lambda>i. h + eh_phoff m h + 32 * of_nat i)
      in map (\<lambda>i. seg_at m h (ph i)) (filter (\<lambda>i. ph_type m (ph i) = PT_LOAD) [i..<unat (eh_phnum m h)]))"

definition image_ok :: "mem \<Rightarrow> u32 \<Rightarrow> nat \<Rightarrow> bool" where
  "image_ok m h n \<longleftrightarrow> 52 \<le> n \<and> n \<le> 2 ^ 32 \<and> unat (eh_phoff m h) + 32 * unat (eh_phnum m h) \<le> n"

lemma elf_segments_load_all:
  assumes "image_ok m h n" and "outside (region h n) (loadable m h 0)" and "\<forall>x \<in> region h n. m' x = m x"
  shows "elf_segments h (h + eh_phoff m h) i mx m' = load_all (loadable m h i) mx m'"
  using assms(3)
proof (induction "unat (eh_phnum m h) - i" arbitrary: i mx m')
  case 0
  have "eh_phnum m' h = eh_phnum m h" unfolding eh_phnum_def
    using region_sub [of "44 :: u32" 2 n h] assms(1) by (intro rd_cong(2) [OF 0(2)]) (auto simp: image_ok_def)
  then show ?case using 0 by (simp add: elf_segments.simps loadable_def load_all_def)
next
  case (Suc k)
  have n: "eh_phnum m' h = eh_phnum m h" unfolding eh_phnum_def
    using region_sub [of "44 :: u32" 2 n h] assms(1) by (intro rd_cong(2) [OF Suc.prems]) (auto simp: image_ok_def)
  define p where "p = h + eh_phoff m h + 32 * of_nat i"
  have i: "i < unat (eh_phnum m h)" "i < 65536" using Suc.hyps(2) unsigned_less [of "eh_phnum m h", where 'a = nat] by simp_all
  have pi: "region (p + of_nat k) 4 \<subseteq> region h n" if k: "k + 4 \<le> 32" for k
  proof -
    have "of_nat (32 * i + k) = (32 * of_nat i + of_nat k :: u32)" by simp
    moreover have "unat (of_nat (32 * i + k) :: u32) \<le> 32 * i + k" by (simp only: unsigned_of_nat of_nat_id take_bit_nat_less_eq_self)
    moreover have "unat (eh_phoff m h + of_nat (32 * i + k)) \<le> unat (eh_phoff m h) + unat (of_nat (32 * i + k) :: u32)"
      by (metis unat_word_ariths(1) mod_less_eq_dividend)
    ultimately have "unat (eh_phoff m h + (32 * of_nat i + of_nat k)) + 4 \<le> n"
      using assms(1) i(1) k by (simp add: image_ok_def)
    from region_sub [OF this] show ?thesis by (simp add: p_def add.assoc)
  qed
  have f: "ph_type m' p = ph_type m p" "seg_at m' h p = seg_at m h p"
    using rd_cong(1) [OF Suc.prems pi [of 0]] rd_cong(1) [OF Suc.prems pi [of 4]] rd_cong(1) [OF Suc.prems pi [of 8]]
      rd_cong(1) [OF Suc.prems pi [of 16]] rd_cong(1) [OF Suc.prems pi [of 20]]
    by (simp_all add: ph_type_def seg_at_def ph_offset_def ph_vaddr_def ph_filesz_def ph_memsz_def)
  have l: "loadable m h i = (if ph_type m p = PT_LOAD then [seg_at m h p] else []) @ loadable m h (i + 1)"
    using i by (simp add: loadable_def p_def upt_conv_Cons Let_def)
  have k: "k = unat (eh_phnum m h) - (i + 1)" using Suc.hyps(2) by simp
  note step = elf_segments.simps [of h "h + eh_phoff m h" i mx m', folded p_def, unfolded Let_def, folded p_def]
  show ?case
  proof (cases "ph_type m p = PT_LOAD")
    case True
    let ?g = "seg_at m h p"
    have "?g \<in> set (loadable m h 0)" using i True by (auto simp: loadable_def p_def)
    then have g: "seg_fits ?g" "seg_src ?g \<subseteq> region h n" "seg_dst ?g \<inter> region h n = {}"
      using assms(2) by (simp_all add: outside_def)
    then have "seg_dst ?g \<inter> seg_src ?g = {}" by blast
    note b = load_segment_bytes [OF g(1) this, of m']
    have "\<forall>x \<in> region h n. load_segment ?g m' x = m x"
    proof
      fix x assume x: "x \<in> region h n"
      then have "x \<notin> seg_dst ?g" using g(3) by blast
      then show "load_segment ?g m' x = m x" using b [of x] Suc.prems x by simp
    qed
    from Suc.hyps(1) [OF k this] show ?thesis using step True i(1) n f l by (simp add: load_all_def p_def [symmetric])
  next
    case False
    from Suc.hyps(1) [OF k Suc.prems] show ?thesis using step False i(1) n f l by (simp add: p_def [symmetric])
  qed
qed

lemma page_up:
  fixes a :: u32
  assumes "unat a \<le> 2 ^ 32 - 4096"
  shows "a \<le> (a + 0xFFF) AND NOT 0xFFF" and "page_aligned ((a + 0xFFF) AND NOT 0xFFF)"
proof -
  let ?x = "a + 0xFFF"
  have "(?x AND NOT 0xFFF) AND (?x AND 0xFFF) = 0" "(?x AND NOT 0xFFF) OR (?x AND 0xFFF) = ?x"
    by (rule bit_word_eqI, auto simp: bit_simps)+
  then have s: "(?x AND NOT 0xFFF) + (?x AND 0xFFF) = ?x"
    by (metis word_plus_and_or add_0_left)
  have u: "unat ?x = unat a + 4095" using assms by (simp add: unat_word_ariths)
  have "?x AND 0xFFF \<le> 0xFFF" by (rule word_and_le1)
  then have b: "unat (?x AND 0xFFF) \<le> 4095" by (simp add: word_le_nat_alt)
  have "?x AND NOT 0xFFF = ?x - (?x AND 0xFFF)" using s by (metis add_diff_cancel_right')
  moreover have "unat (?x - (?x AND 0xFFF)) = unat ?x - unat (?x AND 0xFFF)"
    by (intro unat_sub word_and_le2)
  ultimately show "a \<le> ?x AND NOT 0xFFF" using u b by (simp add: word_le_nat_alt)
  show "page_aligned (?x AND NOT 0xFFF)" using page_aligned_frame [of ?x] by (simp add: frame_of_def)
qed

text \<open>
  C26: the ELF loader places the segments.  For a valid image whose headers and file contents lie inside
  its \<open>n\<close> bytes and whose loadable segments overlap neither the image nor one another nor wrap around,
  loading succeeds: every byte of every segment is the byte of the file, and 0 behind the file's part;
  no other byte of memory changes; the entry point is that of the header, and the heap starts on a page
  boundary behind all segments.
\<close>

theorem elf_load_places:
  assumes "elf_validate h m" and "image_ok m h n" and "outside (region h n) (loadable m h 0)" and "segs_disjoint (loadable m h 0)"
    and "\<forall>g \<in> set (loadable m h 0). unat (seg_end g) \<le> 2 ^ 32 - 4096"
  shows "\<exists>heap m'. elf_load h m = Some ((eh_entry m h, heap), m') \<and>
    (\<forall>g \<in> set (loadable m h 0). \<forall>x \<in> seg_dst g. m' x = seg_byte g m x) \<and>
    (\<forall>x. (\<forall>g \<in> set (loadable m h 0). x \<notin> seg_dst g) \<longrightarrow> m' x = m x) \<and>
    page_aligned heap \<and> (\<forall>g \<in> set (loadable m h 0). seg_end g \<le> heap)"
proof -
  let ?gs = "loadable m h 0"
  obtain mx m' where l: "load_all ?gs 0 m = (mx, m')" by fastforce
  have e: "elf_load h m = Some ((eh_entry m h, (mx + 0xFFF) AND NOT 0xFFF), m')"
    using elf_segments_load_all [OF assms(2,3), of m 0 0] assms(1) l by (simp add: elf_load_def)
  note k = load_all_bytes [OF assms(3,4), of m m 0, unfolded l fst_conv snd_conv, simplified]
  have "(\<forall>g \<in> set ?gs. seg_end g \<le> 4294963200) \<longrightarrow> mx \<le> 4294963200" using k by blast
  then have "mx \<le> 4294963200" using assms(5) by (simp add: word_le_nat_alt)
  then have "unat mx \<le> 2 ^ 32 - 4096" by (simp add: word_le_nat_alt)
  note pu = page_up [OF this]
  show ?thesis
    using e k pu by (intro exI [of _ "(mx + 0xFFF) AND NOT 0xFFF"] exI [of _ m']) (auto intro: order_trans)
qed

section \<open>Example\<close>

lemma region_bounds:
  assumes "unat a + n \<le> 2 ^ 32" and "x \<in> region a n"
  shows "unat a \<le> unat x \<and> unat x < unat a + n"
proof -
  have d: "unat (x - a) < n" using assms(2) by (simp add: region_def)
  have "unat (a + (x - a)) = unat a + unat (x - a)" using d assms(1) by (subst unat_add_lem [symmetric]) simp_all
  then show ?thesis using d by simp
qed

text \<open>An image with one segment: the first four bytes of the file at \<^verbatim>\<open>0x40000000\<close>, eight bytes in memory.\<close>

definition tiny_mem :: mem where
  "tiny_mem = (\<lambda>_. 0)
     (0x1000 := 127, 0x1001 := 69, 0x1002 := 76, 0x1003 := 70, 0x1004 := 1, 0x1005 := 1, 0x1006 := 1, 0x1010 := 2, 0x1012 := 3, 0x1014 := 1, 0x101B := 64,
      0x101C := 52, 0x1028 := 52, 0x102A := 32, 0x102C := 1, 0x1034 := 1, 0x103F := 64, 0x1044 := 4, 0x1048 := 8, 0x104C := 5, 0x1051 := 16)"

lemma tiny_fields:
  "elf_validate 0x1000 tiny_mem" "eh_phoff tiny_mem 0x1000 = 52" "eh_phnum tiny_mem 0x1000 = 1"
  "ph_type tiny_mem 0x1034 = 1" "seg_at tiny_mem 0x1000 0x1034 = (0x40000000, 0x1000, 4, 8)"
  by (simp_all add: elf_validate_def eh_magic_def eh_arch_def eh_machine_def eh_type_def eh_phoff_def eh_phnum_def ph_type_def seg_at_def
      ph_offset_def ph_vaddr_def ph_filesz_def ph_memsz_def rd32_def rd16_def de32_def de16_def tiny_mem_def)

theorem elf_load_places_witness:
  "\<exists>entry heap m'. elf_load 0x1000 tiny_mem = Some ((entry, heap), m') \<and> m' 0x40000003 = 70 \<and> m' 0x40000004 = 0 \<and> 0x40000008 \<le> heap"
proof -
  have l: "loadable tiny_mem 0x1000 0 = [(0x40000000, 0x1000, 4, 8)]" by (simp add: loadable_def tiny_fields Let_def)
  have i: "image_ok tiny_mem 0x1000 84" by (simp add: image_ok_def tiny_fields)
  have "region 0x40000000 8 \<inter> region 0x1000 84 = {}"
    using region_bounds [of "0x40000000" 8] region_bounds [of "0x1000" 84] by fastforce
  moreover have "region 0x1000 4 \<subseteq> region 0x1000 84" by (auto simp: region_def)
  ultimately have o': "outside (region 0x1000 84) (loadable tiny_mem 0x1000 0)" by (simp add: l outside_def)
  have s: "segs_disjoint (loadable tiny_mem 0x1000 0)" "\<forall>g \<in> set (loadable tiny_mem 0x1000 0). unat (seg_end g) \<le> 2 ^ 32 - 4096"
    by (simp_all add: l seg_end_def)
  obtain heap m' where m': "elf_load 0x1000 tiny_mem = Some ((eh_entry tiny_mem 0x1000, heap), m')"
    "\<forall>x \<in> region 0x40000000 8. m' x = seg_byte (0x40000000, 0x1000, 4, 8) tiny_mem x" "0x40000008 \<le> heap"
    using elf_load_places [OF tiny_fields(1) i o' s] by (auto simp: l seg_end_def)
  have "m' 0x40000003 = 70" "m' 0x40000004 = 0"
    using m'(2) [THEN bspec, of "0x40000003"] m'(2) [THEN bspec, of "0x40000004"] by (simp_all add: region_def tiny_mem_def)
  then show ?thesis using m' by blast
qed

end
