(* ===== verification/Hexa_Binary.thy ===== *)
theory Hexa_Binary
  imports Hexa_Intent
begin

text \<open>
  Packed binaries (\<^verbatim>\<open>hex.c\<close>, \<^verbatim>\<open>hex.h\<close>): a 168-byte header with the required capabilities and a checksum in
  front of an executable.  A header is the list of its bytes.
\<close>

section \<open>Headers\<close>

abbreviation (input) HEX_MAGIC :: u32 where "HEX_MAGIC \<equiv> 0x48455841"
abbreviation (input) HEX_HEADER_SIZE :: nat where "HEX_HEADER_SIZE \<equiv> 168"

definition hh_magic :: "bytes \<Rightarrow> u32" where "hh_magic b = get32 0 b"
definition hh_entry_point :: "bytes \<Rightarrow> u32" where "hh_entry_point b = get32 8 b"
definition hh_code_offset :: "bytes \<Rightarrow> u32" where "hh_code_offset b = get32 12 b"
definition hh_code_size :: "bytes \<Rightarrow> u32" where "hh_code_size b = get32 16 b"
definition hh_cap_count :: "bytes \<Rightarrow> u32" where "hh_cap_count b = get32 28 b"
definition hh_cap :: "nat \<Rightarrow> bytes \<Rightarrow> u32" where "hh_cap i b = get32 (32 + 4 * i) b"
definition hh_checksum :: "bytes \<Rightarrow> u32" where "hh_checksum b = get32 164 b"

definition hex_checksum :: "bytes \<Rightarrow> u32" where
  "hex_checksum b = fold (\<lambda>c ck. (push_bit 5 ck + ck) + ucast c) (take (HEX_HEADER_SIZE - 4) b) 0"

definition hex_validate :: "bytes option \<Rightarrow> bool" where
  "hex_validate hp =
     (case hp of
        None \<Rightarrow> False
      | Some b \<Rightarrow> if hh_magic b \<noteq> HEX_MAGIC then False else hex_checksum b = hh_checksum b)"

text \<open>The loop over the required capabilities; it stops at the first that is missing.\<close>

fun hex_check_caps :: "u32 \<Rightarrow> u32 list \<Rightarrow> 'a kfs_scheme \<Rightarrow> bool \<times> 'a kfs_scheme" where
  "hex_check_caps pid [] s = (True, s)"
| "hex_check_caps pid (c # caps) s =
     (case hexafs_cap_check pid c s of
        (True, s1) \<Rightarrow> hex_check_caps pid caps s1
      | (False, s1) \<Rightarrow>
          (False, print_string (cs '' - refusing to load'' @ [10]) (print_string (itoa c 16)
             (print_color (cs ''[HEX] Missing cap 0x'') 0x0C (log_write LOG_LEVEL_WARN (cs ''hex: missing capability for binary'') s1)))))"

definition required_caps :: "bytes \<Rightarrow> u32 list" where
  "required_caps b = map (\<lambda>i. hh_cap i b) [0..<min (unat (hh_cap_count b)) 16]"

text \<open>The result on success: the entry point and the start of the heap.\<close>

definition hex_load :: "bytes option \<Rightarrow> 'a kfs_scheme \<Rightarrow> (u32 \<times> u32) option \<times> 'a kfs_scheme" where
  "hex_load hp s =
     (case hp of
        None \<Rightarrow> (None, s)
      | Some b \<Rightarrow>
          if \<not> hex_validate (Some b) then (None, s)
          else case hex_check_caps (of_int (current_pid s)) (required_caps b) s of
            (False, s1) \<Rightarrow> (None, s1)
          | (True, s1) \<Rightarrow> (Some (hh_entry_point b, 0x40000000), log_write LOG_LEVEL_INFO (cs ''hex: binary loaded'') s1))"

section \<open>Packing\<close>

definition is_digit :: "u8 \<Rightarrow> bool" where "is_digit c \<longleftrightarrow> 48 \<le> c \<and> c \<le> 57"

text \<open>The list of capabilities in a text; \<open>n\<close> is the room that is left in the header.\<close>

primrec parse_caps :: "nat \<Rightarrow> bytes \<Rightarrow> u32 list" where
  "parse_caps 0 = (\<lambda>str. [])"
| "parse_caps (Suc n) = (\<lambda>str.
     (let str1 = dropWhile (\<lambda>c. c = 32) str
      in if str1 = [] then []
         else
           let val = fold (\<lambda>c val. val * 10 + (ucast c - 48)) (takeWhile is_digit str1) 0;
               str2 = dropWhile (\<lambda>c. c = 32) (dropWhile is_digit str1)
           in val # parse_caps n (if str2 \<noteq> [] \<and> hd str2 = 44 then tl str2 else str2)))"

definition hex_words :: "u32 \<Rightarrow> u32 \<Rightarrow> u32 \<Rightarrow> u32 \<Rightarrow> u32 list \<Rightarrow> u32 list" where
  "hex_words entry csize in_schema out_schema caps =
     [HEX_MAGIC, 1, entry, of_nat HEX_HEADER_SIZE, csize, in_schema, out_schema, of_nat (length caps)] @
     caps @ replicate (16 - length caps) 0 @ [0] @ replicate 16 0"

definition new_hex_header :: "u32 \<Rightarrow> u32 \<Rightarrow> u32 \<Rightarrow> u32 \<Rightarrow> u32 list \<Rightarrow> bytes" where
  "new_hex_header entry csize in_schema out_schema caps =
     (let b = concat (map le32 (hex_words entry csize in_schema out_schema caps))
      in b @ le32 (hex_checksum b))"

definition hex_form_name :: "bytes \<Rightarrow> bytes" where
  "hex_form_name elf_name = take 24 (c_str elf_name) @ cs ''.hex''"

definition store_packed :: "bytes \<Rightarrow> u32 \<Rightarrow> int \<Rightarrow> 'a kusr_scheme \<Rightarrow> 'a kusr_scheme option" where
  "store_packed hex_name packed len s =
     do {
       s1 \<leftarrow> cmd_mkform hex_name s;
       (case find_form hex_name s1 of
          None \<Rightarrow> Some s1
        | Some h \<Rightarrow>
            do {
              s2 \<leftarrow> kfree (fm_content (form_table s1 ! h)) s1;
              Some (upd_form h (\<lambda>f. f\<lparr>fm_content := packed, fm_size := len, fm_cap := len\<rparr>) s2)
            })
     }"

definition hex_pack_elf :: "bytes option \<Rightarrow> bytes \<Rightarrow> u32 \<Rightarrow> u32 \<Rightarrow> 'a kusr_scheme \<Rightarrow> (int \<times> 'a kusr_scheme) option" where
  "hex_pack_elf elf_name caps_str in_schema out_schema s =
     (case elf_name of
        None \<Rightarrow> Some (-1, print_string (cs ''hexpack: no ELF name specified'' @ [10]) s)
      | Some name \<Rightarrow>
          if c_at name 0 = 0 then Some (-1, print_string (cs ''hexpack: no ELF name specified'' @ [10]) s)
          else case find_form name s of
            None \<Rightarrow> Some (-1, print_string ([39] @ cs '' not found'' @ [10]) (print_string name
                      (print_string (cs ''hexpack: ELF form '' @ [39]) s)))
          | Some idx \<Rightarrow>
              let f = form_table s ! idx;
                  entry = (if fm_content f \<noteq> 0 \<and> fm_size f \<ge> 4 then rd32 (vmem s) (fm_content f + 24) else 0);
                  hp = new_hex_header entry (of_int (fm_size f)) in_schema out_schema (parse_caps 16 (c_str caps_str));
                  len = to_int (of_nat HEX_HEADER_SIZE + of_int (fm_size f))
              in do {
                (packed, s1) \<leftarrow> kmalloc (of_int (len + 1)) s;
                if packed = 0 then Some (-1, print_string (cs ''hexpack: allocation failed'' @ [10]) s1)
                else
                  let m = poke packed hp (vmem s1);
                      m = (if fm_content f \<noteq> 0 \<and> fm_size f > 0
                           then memcpy (packed + of_nat HEX_HEADER_SIZE) (fm_content f) (unat (of_int (fm_size f) :: u32)) m else m)
                  in do {
                    s2 \<leftarrow> store_packed (hex_form_name name) packed len (s1\<lparr>vmem := m\<rparr>);
                    Some (0, print_string [10] (print_string (hex_form_name name) (print_string (cs '' -> '')
                      (print_string name (print_string (cs ''hexpack: wrapped '') s2)))))
                  }
              })"

section \<open>What a capability check answers\<close>

text \<open>
  The bytes of a stored object, from the contents of the blocks alone: the content blocks up to the first
  zero pointer, cut to the size.
\<close>

definition object_bytes :: "(u32 \<Rightarrow> bytes) \<Rightarrow> bytes \<Rightarrow> bytes" where
  "object_bytes B ob =
     take (unat (obj_size ob)) (concat (map B (takeWhile (\<lambda>b. b \<noteq> 0) (map (\<lambda>i. obj_block i ob) [0..<4]))))"

text \<open>
  A stored grant gives a capability when its block is an object of the right kind with at least the 24
  bytes of a grant, of this type (or any type, for the request 0), and not expired; expiry only counts once
  there is a root snapshot.  The kernel, pid 0, holds everything.
\<close>

definition grant_gives :: "u32 \<Rightarrow> 'a kfs_scheme \<Rightarrow> u32 \<Rightarrow> bool" where
  "grant_gives c s b \<longleftrightarrow>
     b \<noteq> 0 \<and> obj_magic_ok (blk s b) \<and> obj_type (blk s b) = HEXAFS_CAPABILITY \<and> 24 \<le> obj_size (blk s b) \<and>
     (let g = object_bytes (blk s) (blk s b)
      in (grant_type g = c \<or> c = 0) \<and>
         (sb_root_snap_block (sb_cache s) = 0 \<or> grant_expires g = 0 \<or> system_ticks s < grant_expires g))"

definition stored_grants :: "'a kfs_scheme \<Rightarrow> u32 list" where
  "stored_grants s = take (cap_grant_count s) (cap_grant_storage s)"

definition holds_cap :: "u32 \<Rightarrow> u32 \<Rightarrow> 'a kfs_scheme \<Rightarrow> bool" where
  "holds_cap pid c s \<longleftrightarrow> pid = 0 \<or> (\<exists>b \<in> set (stored_grants s). grant_gives c s b)"

text \<open>Every stored grant and its content lie on the drive.\<close>

definition on_drive :: "(u32 \<Rightarrow> bytes) \<Rightarrow> u32 \<Rightarrow> bool" where
  "on_drive B b \<longleftrightarrow> b = 0 \<or> valid_lba b \<and> (\<forall>i < 4. obj_block i (B b) = 0 \<or> valid_lba (obj_block i (B b)))"

lemma read_loop_bytes:
  assumes "disk_inv s" and "\<forall>b \<in> set bs. b = 0 \<or> valid_lba b"
  shows "\<exists>s'. object_read_loop bs n s = (Some (take n (concat (map (blk s) (takeWhile (\<lambda>b. b \<noteq> 0) bs)))), s') \<and>
    disk_inv s' \<and> blk s' = blk s"
  using assms
proof (induction bs arbitrary: n s)
  case (Cons b bs)
  show ?case
  proof (cases "n = 0 \<or> b = 0")
    case False
    then have "valid_lba b" using Cons.prems(2) by simp
    then obtain s1 where s1: "hexafs_block_read b s = (Some (blk s b), s1)" "disk_inv s1" "blk s1 = blk s"
      by (rule store.rd_cases [OF Cons.prems(1)])
    have l: "length (blk s b) = 512" using Cons.prems(1) by (simp add: disk_inv_def)
    obtain s' where s': "object_read_loop bs (n - min HEXAFS_BLOCK_SIZE n) s1 =
        (Some (take (n - min HEXAFS_BLOCK_SIZE n) (concat (map (blk s1) (takeWhile (\<lambda>b. b \<noteq> 0) bs)))), s')"
      "disk_inv s'" "blk s' = blk s1"
      using Cons.IH [OF s1(2)] Cons.prems(2) by (auto simp del: object_read_loop.simps)
    show ?thesis using s1 s' False l by (simp add: Let_def min_def)
  qed (use Cons.prems(1) in auto)
qed simp

lemma object_read_bytes:
  assumes "disk_inv s" and "b \<noteq> 0" and "on_drive (blk s) b"
  obtains s' where "hexafs_object_read_data b s =
      (if obj_magic_ok (blk s b) then Some (object_bytes (blk s) (blk s b), obj_size (blk s b), obj_type (blk s b)) else None, s')"
    and "disk_inv s'" and "blk s' = blk s"
proof -
  let ?ob = "blk s b" and ?bs = "map (\<lambda>i. obj_block i (blk s b)) [0..<4]"
  have v: "valid_lba b" "\<forall>d \<in> set ?bs. d = 0 \<or> valid_lba d" using assms(2,3) by (auto simp: on_drive_def)
  obtain s1 where s1: "hexafs_block_read b s = (Some ?ob, s1)" "disk_inv s1" "blk s1 = blk s"
    by (rule store.rd_cases [OF assms(1) v(1)])
  obtain s2 where s2: "object_read_loop ?bs (unat (obj_size ?ob)) s1 =
      (Some (take (unat (obj_size ?ob)) (concat (map (blk s1) (takeWhile (\<lambda>b. b \<noteq> 0) ?bs)))), s2)" "disk_inv s2" "blk s2 = blk s1"
    using read_loop_bytes [OF s1(2) v(2)] by blast
  have z: "object_bytes (blk s) ?ob = []" if "obj_block 0 ?ob = 0 \<or> obj_size ?ob = 0"
    using that by (auto simp: object_bytes_def upt_conv_Cons)
  show thesis
  proof (cases "obj_block 0 ?ob \<noteq> 0 \<and> 0 < obj_size ?ob")
    case True
    then show thesis using that [of "if obj_magic_ok ?ob then s2 else s1"] s1 s2
      by (simp add: hexafs_object_read_data_def object_bytes_def)
  next
    case False
    then show thesis using that [of s1] s1 z by (auto simp: hexafs_object_read_data_def word_greater_zero_iff)
  qed
qed

lemma grant_allows_gives:
  assumes "disk_inv s" and "on_drive (blk s) b"
  obtains s' where "grant_allows pid c b s = (grant_gives c s b, s')" and "disk_inv s'" and "blk s' = blk s" and "io_frame s s'"
proof (cases "b = 0")
  case True
  then show thesis using that [of s] assms(1) by (simp add: grant_allows_def grant_gives_def)
next
  case False
  let ?ob = "blk s b"
  have v: "valid_lba b" using assms(2) False by (simp add: on_drive_def)
  obtain s1 where s1: "hexafs_block_read b s = (Some ?ob, s1)" "disk_inv s1" "blk s1 = blk s"
    by (rule store.rd_cases [OF assms(1) v])
  have od: "on_drive (blk s1) b" using assms(2) s1(3) by simp
  obtain s2 where s2: "hexafs_object_read_data b s1 =
      (if obj_magic_ok (blk s1 b) then Some (object_bytes (blk s1) (blk s1 b), obj_size (blk s1 b), obj_type (blk s1 b)) else None, s2)"
    "disk_inv s2" "blk s2 = blk s1"
    by (rule object_read_bytes [OF s1(2) False od])
  have fr: "io_frame s s2" using io_frame_trans [of s s1 s2] block_read_frame [of s b] object_read_frame [of s1 b] s1(1) s2(1) by simp
  then have f: "sb_cache s2 = sb_cache s" "system_ticks s2 = system_ticks s" by (auto simp: io_frame_def)
  define s' where "s' = (if \<not> obj_magic_ok ?ob \<or> obj_type ?ob \<noteq> HEXAFS_CAPABILITY then s1 else s2)"
  have e: "grant_allows pid c b s = (grant_gives c s b, s')"
    using False s1(1,3) s2(1) f
    by (auto simp: grant_allows_def grant_gives_def hexafs_snap_for_pid_def s'_def Let_def not_less)
  show thesis
    by (rule that [OF e]) (use s1 s2 fr block_read_frame [of s b] in \<open>simp_all add: s'_def\<close>)
qed

text \<open>A check changes nothing that a later check depends on.\<close>

lemma grants_stable:
  assumes "io_frame s s'" and "blk s' = blk s"
  shows "grant_gives c s' b = grant_gives c s b" and "stored_grants s' = stored_grants s" and "holds_cap pid c s' = holds_cap pid c s"
proof -
  have f: "sb_cache s' = sb_cache s" "system_ticks s' = system_ticks s" "cap_grant_count s' = cap_grant_count s"
    "cap_grant_storage s' = cap_grant_storage s"
    using assms(1) by (auto simp: io_frame_def)
  show g: "grant_gives c s' b = grant_gives c s b" for b by (simp add: grant_gives_def f assms(2))
  show "stored_grants s' = stored_grants s" by (simp add: stored_grants_def f)
  then show "holds_cap pid c s' = holds_cap pid c s" by (simp add: holds_cap_def g)
qed

lemma cap_check_loop_gives:
  assumes "disk_inv s" and "\<forall>b \<in> set bs. on_drive (blk s) b"
  shows "\<exists>s'. cap_check_loop pid c bs s = ((\<exists>b \<in> set bs. grant_gives c s b), s') \<and> disk_inv s' \<and> blk s' = blk s \<and> io_frame s s'"
  using assms
proof (induction bs arbitrary: s)
  case (Cons b bs)
  have "on_drive (blk s) b" using Cons.prems(2) by simp
  then obtain s1 where s1: "grant_allows pid c b s = (grant_gives c s b, s1)" "disk_inv s1" "blk s1 = blk s" "io_frame s s1"
    by (rule grant_allows_gives [OF Cons.prems(1)])
  obtain s' where s': "cap_check_loop pid c bs s1 = ((\<exists>b \<in> set bs. grant_gives c s1 b), s')" "disk_inv s'" "blk s' = blk s1" "io_frame s1 s'"
    using Cons.IH [OF s1(2)] Cons.prems(2) s1(3) by auto
  show ?case
    using s1 s' io_frame_trans [OF s1(4) s'(4)] grants_stable(1) [OF s1(4,3)] by (cases "grant_gives c s b") auto
qed simp

lemma cap_check_holds:
  assumes "disk_inv s" and "\<forall>b \<in> set (stored_grants s). on_drive (blk s) b"
  obtains s' where "hexafs_cap_check pid c s = (holds_cap pid c s, s')" and "disk_inv s'" and "blk s' = blk s" and "io_frame s s'"
proof (cases "pid = 0")
  case True
  then show thesis using that [of s] assms(1) by (simp add: hexafs_cap_check_def holds_cap_def)
next
  case False
  obtain s' where "cap_check_loop pid c (stored_grants s) s = ((\<exists>b \<in> set (stored_grants s). grant_gives c s b), s')"
    "disk_inv s'" "blk s' = blk s" "io_frame s s'"
    using cap_check_loop_gives [OF assms] by blast
  then show thesis using that [of s'] False by (simp add: hexafs_cap_check_def holds_cap_def stored_grants_def)
qed

section \<open>Loading needs the capabilities\<close>

lemma blk_con_frame:
  assumes "con_frame s s'"
  shows "blk s' = blk s"
  using assms by (auto simp: con_frame_def blk_def)

lemma hex_check_caps_holds:
  assumes "disk_inv s" and "\<forall>b \<in> set (stored_grants s). on_drive (blk s) b"
  shows "\<exists>s'. hex_check_caps pid caps s = ((\<forall>c \<in> set caps. holds_cap pid c s), s') \<and> blk s' = blk s"
  using assms
proof (induction caps arbitrary: s)
  case (Cons c caps)
  obtain s1 where s1: "hexafs_cap_check pid c s = (holds_cap pid c s, s1)" "disk_inv s1" "blk s1 = blk s" "io_frame s s1"
    by (rule cap_check_holds [OF Cons.prems])
  note st = grants_stable [OF s1(4,3)]
  show ?case
  proof (cases "holds_cap pid c s")
    case True
    then show ?thesis using Cons.IH [OF s1(2)] Cons.prems(2) s1(1,3) st by auto
  next
    case False
    then show ?thesis using s1(1,3) by (simp add: blk_con_frame [OF con_frame_print_string] blk_con_frame [OF con_frame_print_color])
  qed
qed simp


section \<open>What packing writes is accepted\<close>

lemma hex_words_length: "length caps \<le> 16 \<Longrightarrow> length (hex_words e z i o' caps) = 41"
  by (simp add: hex_words_def)

lemma length_concat_le32: "length (concat (map le32 ws)) = 4 * length ws"
  by (induction ws) simp_all

lemma get32_concat_le32:
  assumes "k < length ws"
  shows "get32 (4 * k) (concat (map le32 ws) @ r) = ws ! k"
  using concat_nth_bytes [of ws le32 4 k r] assms by (simp add: get32_def get_bytes_def mult.commute)

lemma take_concat_le32: "take (4 * length ws) (concat (map le32 ws) @ r) = concat (map le32 ws)"
  by (simp add: length_concat_le32)

lemma hex_checksum_append: "length b = 164 \<Longrightarrow> hex_checksum (b @ r) = hex_checksum b"
  by (simp add: hex_checksum_def)

text \<open>The decimal text of a list of capabilities.\<close>

fun caps_text :: "u32 list \<Rightarrow> bytes" where
  "caps_text [] = []"
| "caps_text [c] = itoa c 10"
| "caps_text (c # d # ds) = itoa c 10 @ 44 # caps_text (d # ds)"

lemma itoa_is_digits:
  assumes "c < 0x80000000"
  shows "\<forall>x \<in> set (itoa c 10). is_digit x" and "itoa c 10 \<noteq> []" and "fold (\<lambda>c val. val * 10 + (ucast c - 48)) (itoa c 10) 0 = c"
proof -
  have nn: "\<not> to_int c < 0" using assms to_int_small [of c] by (simp add: word_less_nat_alt)
  have e: "itoa c 10 = (if c = 0 then [48] else rev (itoa_loop 10 (unat c)))" using nn by (simp add: itoa_eq)
  have "is_digit x" if "x \<in> set (itoa_loop 10 (unat c))" for x
    using itoa_loop_set [OF that] digit_char_values(2) by (auto simp: is_digit_def)
  then show "\<forall>x \<in> set (itoa c 10). is_digit x" by (auto simp: e is_digit_def)
  show "itoa c 10 \<noteq> []" unfolding e using itoa_loop_nonempty [of "unat c" 10] by (auto simp: unat_eq_0)
  have "fold (\<lambda>c r. r * of_nat 10 + (ucast c - 48)) (rev (itoa_loop 10 (unat c))) 0 = (of_nat (unat c) :: u32)"
    by (rule itoa_loop_value) (use digit_char_values(2) in auto)
  then show "fold (\<lambda>c val. val * 10 + (ucast c - 48)) (itoa c 10) 0 = c" unfolding e by simp
qed

lemma digits_split:
  assumes "\<forall>x \<in> set ds. is_digit x" and "ds \<noteq> []" and "r = [] \<or> \<not> is_digit (hd r)"
  shows "dropWhile (\<lambda>c. c = 32) (ds @ r) = ds @ r" and "takeWhile is_digit (ds @ r) = ds" and "dropWhile is_digit (ds @ r) = r"
proof -
  have "hd ds \<noteq> 32" using assms(1,2) by (cases ds) (auto simp: is_digit_def)
  then show "dropWhile (\<lambda>c. c = 32) (ds @ r) = ds @ r" using assms(2) by (cases ds) auto
  show "takeWhile is_digit (ds @ r) = ds" "dropWhile is_digit (ds @ r) = r" using assms(1,3) by (cases r; simp)+
qed

lemma parse_caps_step:
  assumes "\<forall>x \<in> set ds. is_digit x" and "ds \<noteq> []" and "r = [] \<or> hd r = 44"
  shows "parse_caps (Suc k) (ds @ r) = fold (\<lambda>c val. val * 10 + (ucast c - 48)) ds 0 # parse_caps k (tl r)"
proof -
  have "\<not> is_digit 44" by (simp add: is_digit_def)
  then have "r = [] \<or> \<not> is_digit (hd r)" using assms(3) by auto
  note sp = digits_split [OF assms(1,2) this]
  have w: "dropWhile (\<lambda>c. c = 32) r = r" using assms(3) by (cases r) auto
  have "(if r \<noteq> [] \<and> hd r = 44 then tl r else r) = tl r" using assms(3) by (cases r) auto
  then show ?thesis using assms(2) by (simp only: parse_caps.simps Let_def sp w append_is_Nil_conv simp_thms if_False)
qed

lemma parse_caps_text: "length caps \<le> n \<Longrightarrow> \<forall>c \<in> set caps. c < 0x80000000 \<Longrightarrow> parse_caps n (caps_text caps) = caps"
proof (induction caps arbitrary: n rule: caps_text.induct)
  case 1
  then show ?case by (cases n) simp_all
next
  case (2 c)
  then obtain k where n: "n = Suc k" by (cases n) auto
  have "c < 0x80000000" using 2 by simp
  note d = itoa_is_digits [OF this]
  have "parse_caps k [] = []" by (cases k) simp_all
  then show ?case using parse_caps_step [OF d(1,2), of "[]" k] by (simp add: n d(3) del: parse_caps.simps)
next
  case (3 c e ds)
  then obtain k where n: "n = Suc k" "length (e # ds) \<le> k" by (cases n) auto
  have "c < 0x80000000" using 3 by simp
  note d = itoa_is_digits [OF this]
  have "parse_caps k (caps_text (e # ds)) = e # ds" using 3 n(2) by simp
  then show ?case using parse_caps_step [OF d(1,2), of "44 # caps_text (e # ds)" k] by (simp add: n d(3) del: parse_caps.simps caps_text.simps(3))
      (simp add: d(3) del: parse_caps.simps)
qed

lemma packed_header_ok:
  assumes "length caps \<le> 16" and "\<forall>c \<in> set caps. c < 0x80000000"
  shows "\<exists>b. b = new_hex_header entry csize in_schema out_schema (parse_caps 16 (caps_text caps)) \<and> length b = HEX_HEADER_SIZE \<and>
    hex_validate (Some b) \<and> required_caps b = caps \<and> hh_entry_point b = entry \<and> hh_code_size b = csize \<and>
    unat (hh_code_offset b) = length b"
proof -
  let ?ws = "hex_words entry csize in_schema out_schema caps"
  let ?b = "concat (map le32 ?ws)"
  let ?h = "?b @ le32 (hex_checksum ?b)"
  have l: "length ?ws = 41" using hex_words_length [OF assms(1)] .
  have h: "new_hex_header entry csize in_schema out_schema (parse_caps 16 (caps_text caps)) = ?h"
    using parse_caps_text [OF assms] by (simp add: new_hex_header_def Let_def)
  have g: "get32 (4 * k) ?h = ?ws ! k" if "k < 41" for k using get32_concat_le32 [of k ?ws] that l by simp
  have ck: "hh_checksum ?h = hex_checksum ?b"
    using length_concat_le32 [of ?ws] l by (simp add: hh_checksum_def get32_def get_bytes_def)
  have lb: "length ?b = 164" unfolding length_concat_le32 l by simp
  then have "hex_checksum ?h = hex_checksum ?b" by (rule hex_checksum_append)
  moreover have f: "hh_magic ?h = HEX_MAGIC" "hh_entry_point ?h = entry" "hh_code_size ?h = csize" "hh_code_offset ?h = 168"
      "hh_cap_count ?h = of_nat (length caps)"
    using g [of 0] g [of 2] g [of 4] g [of 3] g [of 7]
    by (simp_all add: hh_magic_def hh_entry_point_def hh_code_size_def hh_code_offset_def hh_cap_count_def hex_words_def)
  ultimately have v: "hex_validate (Some ?h)" using ck by (simp add: hex_validate_def)
  have n: "unat (hh_cap_count ?h) = length caps" using f(5) assms(1) by (simp add: unsigned_of_nat take_bit_nat_eq_self)
  have c: "hh_cap i ?h = caps ! i" if i: "i < length caps" for i
    using g [of "8 + i"] i assms(1) by (simp add: hh_cap_def hex_words_def nth_append add.commute)
  have "required_caps ?h = caps"
    using n assms(1) c by (intro nth_equalityI) (simp_all add: required_caps_def)
  then show ?thesis using h v f length_concat_le32 [of ?ws] l by simp
qed

text \<open>
  Packed headers are accepted, and carry what was packed.  The header that \<^verbatim>\<open>hexpack\<close> builds has the
  right size, passes \<^verbatim>\<open>hex_validate\<close>, and gives back the entry point, the size of the code and its place
  behind the header; and up to 16 capabilities written as decimal numbers separated by commas are read
  from the text and required again when the binary is loaded.
\<close>

theorem packed_header_valid:
  assumes "length caps \<le> 16" and "\<forall>c \<in> set caps. c < 0x80000000"
  shows "\<exists>b. b = new_hex_header entry csize in_schema out_schema (parse_caps 16 (caps_text caps)) \<and> length b = HEX_HEADER_SIZE \<and>
    hex_validate (Some b) \<and> required_caps b = caps \<and> hh_entry_point b = entry \<and> hh_code_size b = csize \<and>
    unat (hh_code_offset b) = length b"
  using packed_header_ok [OF assms] .

theorem packed_header_valid_witness:
  "parse_caps 16 (caps_text [1, 2, 7]) = [1, 2, 7] \<and> hex_validate (Some (new_hex_header 0x40000000 300 0 0 (parse_caps 16 (caps_text [1, 2, 7]))))"
  using packed_header_valid [of "[1, 2, 7]" "0x40000000" 300 0 0] parse_caps_text [of "[1, 2, 7]" 16] by auto

section \<open>A granted capability\<close>

text \<open>A state in which process 7 runs and one grant, of capability 2 and without expiry, is on the drive.\<close>

lemmas bss_kintent_defs = bss_kintent_def bss_kvfs_def boot_kusr_def bss_kusr_def bss_kfs_def bss_knet_def bss_kint_def bss_kcon_def
  bss_kdisk_def kpipe.defs kdisk.defs kcon.defs kint.defs knet.defs kfs.defs kusr.defs kvfs.defs

lemma bss_kintent_disk: "disk_inv bss_kintent" "alloc_inv bss_kintent" "disk_used bss_kintent = {}"
proof -
  have d: "ata_drv bss_kintent = 0xE0" "drive bss_kintent = (\<lambda>_ _. zeros 512)" "ata_status bss_kintent = (\<lambda>_. 0x58)"
    "ata_reads bss_kintent = 0" "block_cache bss_kintent = replicate HEXAFS_CACHE_SLOTS empty_slot"
    "alloc_bitmap bss_kintent = zeros 1024" "next_alloc_hint bss_kintent = HEXAFS_OBJECT_LBA"
    by (simp_all add: bss_kintent_defs)
  show "disk_inv bss_kintent"
    by (auto simp: disk_inv_def drive_ok_def cache_ok_def blk_def d empty_slot_def ready_status_def intro: exI [of _ "_ :: nat"])
  show "alloc_inv bss_kintent" by (simp add: alloc_inv_def d)
  show "disk_used bss_kintent = {}" using bm_test_zeros by (auto simp: disk_used_def bm_used_def d)
qed

lemma granted_example:
  "\<exists>(s :: kintent) b. disk_inv s \<and> current_pid s = 7 \<and> stored_grants s = [b] \<and> on_drive (blk s) b \<and>
     (\<forall>c. grant_gives c s b \<longleftrightarrow> c = 2 \<or> c = 0)"
proof -
  have room: "Suc 4 \<le> free_blocks bss_kintent" using bss_kintent_disk(3) by (simp add: free_blocks_def)
  obtain b and s1 :: kintent where a: "hexafs_object_alloc HEXAFS_CAPABILITY bss_kintent = (b, s1)" "b \<noteq> 0" "disk_inv s1" "alloc_inv s1"
    "obj_wf b s1" "obj_type (blk s1 b) = HEXAFS_CAPABILITY" "4 \<le> free_blocks s1"
    by (rule object_alloc_ok [OF bss_kintent_disk(1,2) room, of HEXAFS_CAPABILITY])
  let ?g = "new_grant 2 0 0 0 False"
  have g: "length ?g = 24" "grant_type ?g = 2" "grant_expires ?g = 0"
    by (simp_all add: new_grant_def Let_def grant_type_def grant_expires_def bytes_simps)
  have l: "length ?g \<le> 2048" using g(1) by simp
  obtain s2 :: kintent where w: "hexafs_object_write_data b ?g s1 = (True, s2)" "disk_inv s2" "obj_wf b s2"
    and rd: "\<forall>u :: kintent. disk_inv u \<and> (\<forall>b'. used_lba b' s2 \<longrightarrow> blk u b' = blk s2 b') \<longrightarrow> (\<exists>u'. hexafs_object_read_data b u =
          (Some (?g, of_nat (length ?g), obj_type (blk s1 b)), u') \<and> disk_inv u' \<and> blk u' = blk u)"
    by (rule object_written [OF a(3-5) l a(7)])
  have od: "on_drive (blk s2) b" using w(3) by (auto simp: on_drive_def obj_wf_def used_lba_def)
  obtain s3 where "hexafs_object_read_data b s2 =
      (if obj_magic_ok (blk s2 b) then Some (object_bytes (blk s2) (blk s2 b), obj_size (blk s2 b), obj_type (blk s2 b)) else None, s3)"
    by (rule object_read_bytes [OF w(2) a(2) od])
  moreover obtain u' where "hexafs_object_read_data b s2 = (Some (?g, of_nat (length ?g), obj_type (blk s1 b)), u')"
    using rd w(2) by blast
  ultimately have o: "obj_magic_ok (blk s2 b)" "object_bytes (blk s2) (blk s2 b) = ?g" "obj_size (blk s2 b) = 24"
    "obj_type (blk s2 b) = HEXAFS_CAPABILITY"
    using a(6) g(1) by (simp_all split: if_splits)
  let ?s = "s2\<lparr>tasks := [bss_task\<lparr>t_pid := 7\<rparr>], current_task := 0, cap_grant_storage := [b], cap_grant_count := 1\<rparr>"
  have d: "disk_inv ?s" "blk ?s = blk s2" using w(2) disk_inv_cong [of ?s s2] by simp_all
  have "grant_gives c ?s b \<longleftrightarrow> c = 2 \<or> c = 0" for c using o a(2) g(2,3) d(2) by (auto simp: grant_gives_def)
  moreover have "current_pid ?s = 7" "stored_grants ?s = [b]" by (simp_all add: current_pid_def stored_grants_def)
  ultimately show ?thesis using d od by (intro exI [of _ ?s] exI [of _ b]) simp
qed


end
