(* ===== verification/Hexa_Device.thy ===== *)
theory Hexa_Device
  imports Hexa_Boot Hexa_Elf
begin

text \<open>
  The device tables (\<^verbatim>\<open>driver.c\<close>, \<^verbatim>\<open>driver.h\<close>) and the frame buffer (\<^verbatim>\<open>fb.c\<close>, \<^verbatim>\<open>vbe.h\<close>).  The display
  controller is the list \<open>vbe_out\<close> of the register writes; its identification register is a parameter.  The
  frame buffer and the back buffer are in the byte memory.
\<close>

section \<open>Device tables\<close>

record block_device =
  bd_name :: bytes
  bd_read :: u32
  bd_write :: u32
  bd_ioctl :: u32
  bd_num_blocks :: u32
  bd_present :: int

record char_device =
  cd_name :: bytes
  cd_read :: u32
  cd_write :: u32
  cd_present :: int

record kdev = kboot +
  drv_block_devices :: "block_device list"
  drv_char_devices :: "char_device list"
  block_count :: nat
  char_count :: nat

definition drv_register_block :: "block_device \<Rightarrow> 'a kdev_scheme \<Rightarrow> int \<times> 'a kdev_scheme" where
  "drv_register_block dev s =
     (if block_count s \<ge> 8 then (-1, s)
      else (0, s\<lparr>drv_block_devices := (drv_block_devices s)[block_count s := dev\<lparr>bd_present := 1\<rparr>],
                 block_count := block_count s + 1\<rparr>))"

definition drv_register_char :: "char_device \<Rightarrow> 'a kdev_scheme \<Rightarrow> int \<times> 'a kdev_scheme" where
  "drv_register_char dev s =
     (if char_count s \<ge> 8 then (-1, s)
      else (0, s\<lparr>drv_char_devices := (drv_char_devices s)[char_count s := dev\<lparr>cd_present := 1\<rparr>],
                 char_count := char_count s + 1\<rparr>))"

definition drv_get_block :: "int \<Rightarrow> 'a kdev_scheme \<Rightarrow> block_device option" where
  "drv_get_block idx s = (if idx < 0 \<or> idx \<ge> int (block_count s) then None else Some (drv_block_devices s ! nat idx))"

definition drv_get_char :: "int \<Rightarrow> 'a kdev_scheme \<Rightarrow> char_device option" where
  "drv_get_char idx s = (if idx < 0 \<or> idx \<ge> int (char_count s) then None else Some (drv_char_devices s ! nat idx))"

section \<open>Frame buffer\<close>

abbreviation (input) VBE_DISPI_LFB_PHYSICAL :: u32 where "VBE_DISPI_LFB_PHYSICAL \<equiv> 0xFD000000"

record fb_info =
  fb_phys_base :: u32
  fb_x_res :: u16
  fb_y_res :: u16
  fb_bpp :: u16
  fb_pitch :: u16
  fb_avail :: bool

record kfb = kdev +
  fb_info :: fb_info
  back_buf :: u32
  back_buf_pixels :: u32
  double_buf_enabled :: bool
  vbe_out :: "(u16 \<times> u16) list"

definition vbe_write :: "u16 \<Rightarrow> u16 \<Rightarrow> 'a kfb_scheme \<Rightarrow> 'a kfb_scheme" where
  "vbe_write index val s = s\<lparr>vbe_out := vbe_out s @ [(index, val)]\<rparr>"

text \<open>\<open>ident\<close> is what the controller's identification register delivers.\<close>

definition fb_init :: "u16 \<Rightarrow> 'a kfb_scheme \<Rightarrow> 'a kfb_scheme" where
  "fb_init ident s =
     (if ident = 0 \<or> ident = 0xFFFF
      then log_write LOG_LEVEL_INFO (cs ''FB: no VBE2/Bochs VBE detected'')
             (s\<lparr>fb_info := \<lparr>fb_phys_base = 0, fb_x_res = 0, fb_y_res = 0, fb_bpp = 0, fb_pitch = 0, fb_avail = False\<rparr>\<rparr>)
      else log_write LOG_LEVEL_INFO (cs ''FB: Bochs VBE detected'')
             (s\<lparr>fb_info := \<lparr>fb_phys_base = VBE_DISPI_LFB_PHYSICAL, fb_x_res = 800, fb_y_res = 600, fb_bpp = 32,
                            fb_pitch = 800 * 4, fb_avail = False\<rparr>\<rparr>))"

text \<open>\<^verbatim>\<open>fb_set_mode\<close> releases the back buffer, so it ends if \<^verbatim>\<open>kfree\<close> does.\<close>

definition drop_back_buf :: "'a kfb_scheme \<Rightarrow> 'a kfb_scheme option" where
  "drop_back_buf s = (if back_buf s \<noteq> 0 then map_option (\<lambda>s. s\<lparr>back_buf := 0\<rparr>) (kfree (back_buf s) s) else Some s)"

definition fb_set_mode :: "u16 \<Rightarrow> u16 \<Rightarrow> u16 \<Rightarrow> 'a kfb_scheme \<Rightarrow> 'a kfb_scheme option" where
  "fb_set_mode x y bpp s =
     (let s1 = fold (\<lambda>(i, v). vbe_write i v) [(4, 0), (1, x), (2, y), (3, bpp), (4, 0x41), (6, x), (7, y)] s
      in do {
        s2 \<leftarrow> drop_back_buf (s1\<lparr>fb_info := (fb_info s1)\<lparr>fb_x_res := x, fb_y_res := y, fb_bpp := bpp, fb_pitch := x * (bpp div 8),
                               fb_avail := True\<rparr>\<rparr>);
        Some (s2\<lparr>back_buf_pixels := ucast x * ucast y, double_buf_enabled := False\<rparr>)
      })"

definition fb_target :: "'a kfb_scheme \<Rightarrow> u32" where
  "fb_target s = (if double_buf_enabled s \<and> back_buf s \<noteq> 0 then back_buf s else fb_phys_base (fb_info s))"

text \<open>Storing the pixel number \<open>i\<close> of a buffer.\<close>

definition put_px :: "u32 \<Rightarrow> int \<Rightarrow> u32 \<Rightarrow> mem \<Rightarrow> mem" where
  "put_px base i color m = wr32 (base + 4 * of_int i) color m"

definition fb_clear :: "u32 \<Rightarrow> 'a kfb_scheme \<Rightarrow> 'a kfb_scheme" where
  "fb_clear color s =
     (if \<not> fb_avail (fb_info s) then s
      else s\<lparr>vmem := fold (\<lambda>i. put_px (fb_target s) (int i) color) [0..<unat (back_buf_pixels s)] (vmem s)\<rparr>)"

definition fb_put_pixel :: "int \<Rightarrow> int \<Rightarrow> u32 \<Rightarrow> 'a kfb_scheme \<Rightarrow> 'a kfb_scheme" where
  "fb_put_pixel x y color s =
     (let f = fb_info s
      in if \<not> fb_avail f then s
         else if x < 0 \<or> x \<ge> uint (fb_x_res f) \<or> y < 0 \<or> y \<ge> uint (fb_y_res f) then s
         else s\<lparr>vmem := put_px (fb_target s) (y * uint (fb_pitch f div 4) + x) color (vmem s)\<rparr>)"

text \<open>The rectangle is clipped on the right and at the bottom only.\<close>

definition fb_put_rect :: "int \<Rightarrow> int \<Rightarrow> int \<Rightarrow> int \<Rightarrow> u32 \<Rightarrow> 'a kfb_scheme \<Rightarrow> 'a kfb_scheme" where
  "fb_put_rect x y w h color s =
     (let f = fb_info s
      in if \<not> fb_avail f then s
         else s\<lparr>vmem :=
           fold (\<lambda>j. fold (\<lambda>i. put_px (fb_target s) (j * uint (fb_pitch f div 4) + i) color) [x..min (x + w) (uint (fb_x_res f)) - 1])
             [y..min (y + h) (uint (fb_y_res f)) - 1] (vmem s)\<rparr>)"

definition fb_double_buf :: "'a kfb_scheme \<Rightarrow> 'a kfb_scheme option" where
  "fb_double_buf s =
     (if \<not> fb_avail (fb_info s) then Some s
      else if back_buf s \<noteq> 0 then Some s
      else do {
        (b, s1) \<leftarrow> kmalloc (back_buf_pixels s * 4) s;
        if b = 0 then Some (log_write LOG_LEVEL_WARN (cs ''FB: double buffer alloc failed'') (s1\<lparr>back_buf := 0\<rparr>))
        else Some (log_write LOG_LEVEL_INFO (cs ''FB: double buffer enabled'')
               (s1\<lparr>back_buf := b, vmem := memcpy b (fb_phys_base (fb_info s1)) (unat (back_buf_pixels s1 * 4)) (vmem s1),
                   double_buf_enabled := True\<rparr>))
      })"

definition fb_swap :: "'a kfb_scheme \<Rightarrow> 'a kfb_scheme" where
  "fb_swap s =
     (if \<not> fb_avail (fb_info s) \<or> back_buf s = 0 then s
      else s\<lparr>vmem := memcpy (fb_phys_base (fb_info s)) (back_buf s) (unat (back_buf_pixels s * 4)) (vmem s)\<rparr>)"

definition fb_available :: "'a kfb_scheme \<Rightarrow> bool" where
  "fb_available s = fb_avail (fb_info s)"

section \<open>Pixels\<close>

text \<open>The buffer as a map from pixels to colours.\<close>

definition px :: "u32 \<Rightarrow> int \<Rightarrow> mem \<Rightarrow> u32" where
  "px base i m = rd32 m (base + 4 * of_int i)"

lemma px_same: "px base i (put_px base i c m) = c"
  by (simp add: px_def put_px_def)

lemma px_other:
  assumes "0 \<le> i" "i < 2 ^ 30" "0 \<le> k" "k < 2 ^ 30" "k \<noteq> i"
  shows "px base k (put_px base i c m) = px base k m"
proof -
  have e: "base + 4 * of_int k - (base + 4 * of_int i) = (of_int (4 * (k - i)) :: u32)"
    unfolding of_int_mult of_int_diff of_int_numeral by (simp only: right_diff_distrib add_diff_cancel_left)
  have u: "unat (of_int n :: u32) = nat (n mod 2 ^ 32)" for n
    by (simp only: unat_eq_nat_uint unsigned_of_int take_bit_eq_mod) simp
  have "(4 * (k - i)) mod 2 ^ 32 = (if i < k then 4 * (k - i) else 2 ^ 32 - 4 * (i - k))"
  proof (cases "i < k")
    case False
    then have "k < i" using assms(5) by simp
    have "(4 * (k - i)) mod 2 ^ 32 = (4 * (k - i) + 2 ^ 32) mod 2 ^ 32" by (simp only: mod_add_self2)
    also have "\<dots> = 4 * (k - i) + 2 ^ 32" using \<open>k < i\<close> assms(2,3) by (intro mod_pos_pos_trivial) simp_all
    finally show ?thesis using False by (simp add: right_diff_distrib)
  qed (use assms in simp)
  then have "4 \<le> unat (of_int (4 * (k - i)) :: u32) \<and> unat (of_int (4 * (k - i)) :: u32) \<le> 2 ^ 32 - 4"
    using assms unfolding u by (auto split: if_splits)
  then show ?thesis unfolding px_def put_px_def using rd32_wr32_far [of "base + 4 * of_int k" "base + 4 * of_int i" c m] e by metis
qed

lemma px_fold:
  "\<forall>i \<in> set is. 0 \<le> i \<and> i < 2 ^ 30 \<Longrightarrow> 0 \<le> k \<Longrightarrow> k < 2 ^ 30 \<Longrightarrow>
    px base k (fold (\<lambda>i. put_px base i c) is m) = (if k \<in> set is then c else px base k m)"
proof (induction "is" arbitrary: m)
  case (Cons i "is")
  then show ?case using px_same [of base i c m] px_other [of i k base c m] by (cases "k = i") simp_all
qed simp

lemma fold_nested: "fold (\<lambda>j. fold (\<lambda>i. f (g j i)) xs) ys m = fold f (concat (map (\<lambda>j. map (g j) xs) ys)) m"
  by (induction ys arbitrary: m) (simp_all add: fold_map comp_def)

lemma set_mode_fields:
  assumes "fb_set_mode X Y 32 s = Some s1" and "uint X < 16384"
  shows "fb_avail (fb_info s1)" and "fb_target s1 = fb_phys_base (fb_info s)" and "fb_x_res (fb_info s1) = X" and "fb_y_res (fb_info s1) = Y"
    and "uint (fb_pitch (fb_info s1) div 4) = uint X"
proof -
  have f: "fb_info (fold (\<lambda>(i, v). vbe_write i v) ws s) = fb_info s" "back_buf (fold (\<lambda>(i, v). vbe_write i v) ws s) = back_buf s" for ws
    by (induction ws arbitrary: s) (auto simp: vbe_write_def)
  have kf: "fb_info t' = fb_info t" if "kfree p t = Some t'" for p and t t' :: "'a kfb_scheme"
    using arg_cong [OF kfree_frame [OF that], of fb_info] by simp
  let ?w = "[(4, 0), (1, X), (2, Y), (3, 32), (4, 0x41), (6, X), (7, Y)] :: (u16 \<times> u16) list"
  let ?s1 = "fold (\<lambda>(i, v). vbe_write i v) ?w s"
  let ?s2 = "?s1\<lparr>fb_info := (fb_info ?s1)\<lparr>fb_x_res := X, fb_y_res := Y, fb_bpp := 32, fb_pitch := X * (32 div 8), fb_avail := True\<rparr>\<rparr>"
  obtain s3 where s3: "drop_back_buf ?s2 = Some s3" "s1 = s3\<lparr>back_buf_pixels := ucast X * ucast Y, double_buf_enabled := False\<rparr>"
    using assms(1) unfolding fb_set_mode_def Let_def by (auto split: bind_splits)
  have "fb_info t' = fb_info t" if "drop_back_buf t = Some t'" for t t' :: "'a kfb_scheme"
    using that kf by (auto simp: drop_back_buf_def split: if_splits)
  from this [OF s3(1)] have "fb_info s3 = fb_info ?s2" .
  then have "fb_avail (fb_info s1) \<and> fb_target s1 = fb_phys_base (fb_info s) \<and> fb_x_res (fb_info s1) = X \<and> fb_y_res (fb_info s1) = Y \<and>
    fb_pitch (fb_info s1) = X * 4"
    using s3(2) f(1) [of ?w] by (simp add: fb_target_def)
  moreover have "uint (X * 4 div 4) = uint X"
  proof -
    have "uint X * uint (4 :: u16) < 2 ^ LENGTH(16)" using assms(2) by simp
    then have "uint (X * 4) = uint X * uint (4 :: u16)" by (simp only: uint_mult_lem)
    then have "uint (X * 4) = uint X * 4" by simp
    then show ?thesis by (simp only: uint_div) simp
  qed
  ultimately show "fb_avail (fb_info s1)" and "fb_target s1 = fb_phys_base (fb_info s)" and "fb_x_res (fb_info s1) = X" and "fb_y_res (fb_info s1) = Y"
    and "uint (fb_pitch (fb_info s1) div 4) = uint X" by simp_all
qed

text \<open>Rows do not overlap: a pixel determines its column and row.\<close>

lemma row_col:
  fixes p :: int
  assumes "0 \<le> i" "i < p" "0 \<le> a" "a < p"
  shows "j * p + i = b * p + a \<longleftrightarrow> j = b \<and> i = a"
proof
  assume e: "j * p + i = b * p + a"
  have "(j * p + i) div p = j" "(b * p + a) div p = b" using assms by (simp_all add: div_add1_eq)
  then show "j = b \<and> i = a" using e by simp
qed simp

text \<open>
  Rectangles are drawn exactly.  After \<^verbatim>\<open>fb_set_mode\<close> with 32 bits per pixel and a width below 16384,
  drawing a rectangle at a visible place changes exactly its visible pixels, whatever its width and
  height: every pixel \<open>(a, b)\<close> of the screen has the new colour if it lies in the rectangle and its old
  one otherwise, and no pixel of the buffer beyond the screen changes.
\<close>

theorem rect_draws_visible:
  assumes "fb_set_mode X Y 32 s = Some s1" and "uint X < 16384" and "0 \<le> x" and "0 \<le> y"
  shows "(\<forall>a b. 0 \<le> a \<and> a < uint X \<and> 0 \<le> b \<and> b < uint Y \<longrightarrow>
      px (fb_phys_base (fb_info s)) (b * uint X + a) (vmem (fb_put_rect x y w h color s1)) =
        (if x \<le> a \<and> a < x + w \<and> y \<le> b \<and> b < y + h then color else px (fb_phys_base (fb_info s)) (b * uint X + a) (vmem s1))) \<and>
    (\<forall>k. uint X * uint Y \<le> k \<and> k < 2 ^ 30 \<longrightarrow>
      px (fb_phys_base (fb_info s)) k (vmem (fb_put_rect x y w h color s1)) = px (fb_phys_base (fb_info s)) k (vmem s1))"
proof -
  let ?X = "uint X" and ?Y = "uint Y" and ?B = "fb_phys_base (fb_info s)"
  note f = set_mode_fields [OF assms(1,2)]
  let ?xs = "[x..min (x + w) ?X - 1]" and ?ys = "[y..min (y + h) ?Y - 1]"
  let ?is = "concat (map (\<lambda>j. map (\<lambda>i. j * ?X + i) ?xs) ?ys)"
  have v: "vmem (fb_put_rect x y w h color s1) = fold (\<lambda>i. put_px ?B i color) ?is (vmem s1)"
    using f fold_nested [of "\<lambda>i. put_px ?B i color" "\<lambda>j i. j * ?X + i" ?xs ?ys "vmem s1"] by (simp add: fb_put_rect_def)
  have Y: "?Y < 65536" using unsigned_less [of Y, where 'a = int] by simp
  have b: "j * ?X + i < ?X * ?Y" if "0 \<le> i" "i < ?X" "0 \<le> j" "j < ?Y" for i j
  proof -
    have "(j + 1) * ?X \<le> ?Y * ?X" using that by (intro mult_right_mono) simp_all
    then show ?thesis using that by (simp add: algebra_simps)
  qed
  have XY: "?X * ?Y \<le> 2 ^ 30"
  proof -
    have "?X * ?Y \<le> 16384 * 65536" using assms(2) Y by (intro mult_mono) simp_all
    then show ?thesis by simp
  qed
  have m: "k \<in> set ?is \<longleftrightarrow> (\<exists>i j. x \<le> i \<and> i < min (x + w) ?X \<and> y \<le> j \<and> j < min (y + h) ?Y \<and> k = j * ?X + i)" for k
  proof -
    have "k \<in> set ?is \<longleftrightarrow> (\<exists>j \<in> set ?ys. \<exists>i \<in> set ?xs. k = j * ?X + i)" by (auto simp only: set_concat set_map UN_iff image_iff bex_simps)
    then show ?thesis by (simp only: set_upto Bex_def atLeastAtMost_iff zle_diff1_eq) blast
  qed
  have r: "\<forall>k \<in> set ?is. 0 \<le> k \<and> k < ?X * ?Y"
  proof
    fix k assume "k \<in> set ?is"
    then obtain i j where "x \<le> i" "i < min (x + w) ?X" "y \<le> j" "j < min (y + h) ?Y" and k: "k = j * ?X + i" unfolding m by blast
    then have ij: "0 \<le> i" "i < ?X" "0 \<le> j" "j < ?Y" using assms(3,4) by simp_all
    have "0 \<le> j * ?X" using ij by simp
    then show "0 \<le> k \<and> k < ?X * ?Y" using b [OF ij] ij k by simp
  qed
  then have "\<forall>k \<in> set ?is. 0 \<le> k \<and> k < 2 ^ 30" using XY by (meson order_less_le_trans)
  note pf = px_fold [OF this]
  show ?thesis unfolding v
  proof (intro conjI allI impI)
    fix a b' assume ab: "0 \<le> a \<and> a < ?X \<and> 0 \<le> b' \<and> b' < ?Y"
    have "0 \<le> b' * ?X + a" "b' * ?X + a < 2 ^ 30" using ab b [of a b'] XY by (simp_all add: add_nonneg_nonneg)
    moreover have "b' * ?X + a \<in> set ?is \<longleftrightarrow> x \<le> a \<and> a < x + w \<and> y \<le> b' \<and> b' < y + h"
    proof
      assume "b' * ?X + a \<in> set ?is"
      then obtain i j where ij: "x \<le> i" "i < min (x + w) ?X" "y \<le> j" "j < min (y + h) ?Y" "b' * ?X + a = j * ?X + i"
        unfolding m by blast
      then have "b' = j" "a = i" using row_col [of a ?X i b' j] ab assms(3) by auto
      then show "x \<le> a \<and> a < x + w \<and> y \<le> b' \<and> b' < y + h" using ij by simp
    next
      assume "x \<le> a \<and> a < x + w \<and> y \<le> b' \<and> b' < y + h"
      then show "b' * ?X + a \<in> set ?is" unfolding m using ab by (intro exI [of _ a] exI [of _ b']) simp
    qed
    ultimately show "px ?B (b' * ?X + a) (fold (\<lambda>i. put_px ?B i color) ?is (vmem s1)) =
        (if x \<le> a \<and> a < x + w \<and> y \<le> b' \<and> b' < y + h then color else px ?B (b' * ?X + a) (vmem s1))"
      using pf [of "b' * ?X + a"] by simp
  next
    fix k assume k: "?X * ?Y \<le> k \<and> k < 2 ^ 30"
    have "0 \<le> ?X * ?Y" by simp
    then have "0 \<le> k" "k \<notin> set ?is" using k r by (meson order_trans, meson linorder_not_le)
    then show "px ?B k (fold (\<lambda>i. put_px ?B i color) ?is (vmem s1)) = px ?B k (vmem s1)" using k by (simp only: pf [of k] if_False)
  qed
qed

text \<open>On the left and at the top there is no clipping: the pixel before the frame buffer is written.\<close>

lemma rect_left_of_buffer:
  assumes "fb_set_mode X Y 32 s = Some s1" and "uint X < 16384" and "0 < uint X" and "0 < uint Y"
  shows "px (fb_phys_base (fb_info s)) (- 1) (vmem (fb_put_rect (- 1) 0 1 1 color s1)) = color"
proof -
  note f = set_mode_fields [OF assms(1,2)]
  have "[- 1..min (- 1 + 1) (uint X) - 1] = [- 1]" "[0..min (0 + 1) (uint Y) - 1] = [0]" using assms(3,4) by (simp_all add: min_def)
  then show ?thesis using f px_same by (simp add: fb_put_rect_def)
qed

section \<open>Devices\<close>

text \<open>Registered devices are found under consecutive numbers, and a ninth is refused.\<close>

lemma register_block_get:
  assumes "length (drv_block_devices s) = 8" and "drv_register_block d s = (r, s')"
  shows "r = (if block_count s < 8 then 0 else -1)"
    and "drv_get_block i s' = (if r = 0 \<and> i = int (block_count s) then Some (d\<lparr>bd_present := 1\<rparr>) else drv_get_block i s)"
proof -
  have "r = (if block_count s < 8 then 0 else -1) \<and>
    drv_get_block i s' = (if r = 0 \<and> i = int (block_count s) then Some (d\<lparr>bd_present := 1\<rparr>) else drv_get_block i s)"
  proof (cases "block_count s < 8")
    case True
    then have "r = 0" "s' = s\<lparr>drv_block_devices := (drv_block_devices s)[block_count s := d\<lparr>bd_present := 1\<rparr>], block_count := block_count s + 1\<rparr>"
      using assms(2) by (simp_all add: drv_register_block_def)
    then show ?thesis using True assms(1) by (auto simp: drv_get_block_def nth_list_update)
  qed (use assms(2) in \<open>simp add: drv_register_block_def\<close>)
  then show "r = (if block_count s < 8 then 0 else -1)"
    and "drv_get_block i s' = (if r = 0 \<and> i = int (block_count s) then Some (d\<lparr>bd_present := 1\<rparr>) else drv_get_block i s)" by blast+
qed

section \<open>Example\<close>

definition bss_kfb :: kfb where
  "bss_kfb = kdev.extend (kboot.extend bss_kboot \<lparr>drv_block_devices = [], drv_char_devices = [], block_count = 0, char_count = 0\<rparr>)
     \<lparr>fb_info = \<lparr>fb_phys_base = VBE_DISPI_LFB_PHYSICAL, fb_x_res = 0, fb_y_res = 0, fb_bpp = 0, fb_pitch = 0, fb_avail = False\<rparr>,
      back_buf = 0, back_buf_pixels = 0, double_buf_enabled = False, vbe_out = []\<rparr>"

theorem rect_draws_visible_witness:
  "\<exists>s1. fb_set_mode 800 600 32 bss_kfb = Some s1 \<and> px 0xFD000000 (20 * 800 + 10) (vmem (fb_put_rect 10 20 5 5 7 s1)) = 7"
proof -
  have f: "back_buf (fold (\<lambda>(i, v). vbe_write i v) ws t) = back_buf t" for ws and t :: kfb
    by (induction ws arbitrary: t) (auto simp: vbe_write_def)
  have b: "back_buf bss_kfb = 0" "fb_phys_base (fb_info bss_kfb) = 0xFD000000" by (simp_all add: bss_kfb_def kdev.defs kboot.defs)
  have "fb_set_mode 800 600 32 bss_kfb \<noteq> None" unfolding fb_set_mode_def Let_def drop_back_buf_def by (simp add: f b del: fold.simps)
  then obtain s1 where s1: "fb_set_mode 800 600 32 bss_kfb = Some s1" by blast
  have "uint (800 :: u16) < 16384" by simp
  from rect_draws_visible [OF s1 this, of 10 20 5 5 7] b(2)
  have "\<forall>a c. 0 \<le> a \<and> a < uint (800 :: u16) \<and> 0 \<le> c \<and> c < uint (600 :: u16) \<longrightarrow>
      px 0xFD000000 (c * uint (800 :: u16) + a) (vmem (fb_put_rect 10 20 5 5 7 s1)) =
        (if 10 \<le> a \<and> a < 10 + 5 \<and> 20 \<le> c \<and> c < 20 + 5 then 7 else px 0xFD000000 (c * uint (800 :: u16) + a) (vmem s1))" by simp
  from this [rule_format, of 10 20] s1 show ?thesis by simp
qed

end
