(* ===== verification/Hexa_Syscall.thy ===== *)
theory Hexa_Syscall
  imports Hexa_Replay
begin

text \<open>
  The system calls (\<^verbatim>\<open>syscall.c\<close>, \<^verbatim>\<open>syscall.h\<close>).  Arguments are 32-bit words; pointers address the byte memory
  \<open>vmem\<close>.  The result is \<open>Returns r\<close>, or \<open>Exits n\<close> if the calling task was ended; a call that waits for
  something that does not come has the result \<open>None\<close>.  While \<open>sys_event_poll\<close> waits, time passes: the list
  \<open>clock\<close> gives the values of \<^verbatim>\<open>system_ticks\<close> it sees in its further rounds.
\<close>

section \<open>Arguments\<close>

abbreviation (input) SYS_EINVAL :: int where "SYS_EINVAL \<equiv> -1"
abbreviation (input) SYS_ENOMEM :: int where "SYS_ENOMEM \<equiv> -3"
abbreviation (input) SYS_EPERM :: int where "SYS_EPERM \<equiv> -4"
abbreviation (input) SYS_EAGAIN :: int where "SYS_EAGAIN \<equiv> -7"
abbreviation (input) SYS_ENOSYS :: int where "SYS_ENOSYS \<equiv> -8"
abbreviation (input) SYSCALL_MAX :: u32 where "SYSCALL_MAX \<equiv> 28"
abbreviation (input) EVENT_TERMINATE :: u32 where "EVENT_TERMINATE \<equiv> 1"

definition sys_validate_str :: "u32 \<Rightarrow> nat \<Rightarrow> mem \<Rightarrow> int" where
  "sys_validate_str p max_len m = (if p = 0 then -1 else if \<exists>i \<in> set [0..<max_len]. m (p + of_nat i) = 0 then 0 else -1)"

definition sys_validate_buf :: "u32 \<Rightarrow> int \<Rightarrow> int" where
  "sys_validate_buf p len = (if len \<le> 0 \<or> len > 4096 then -1 else if p = 0 then -1 else 0)"

text \<open>A string whose NUL is within the limit.\<close>

definition str_arg :: "u32 \<Rightarrow> nat \<Rightarrow> mem \<Rightarrow> bytes" where
  "str_arg p max_len m = c_str (peek m p max_len)"

section \<open>Handlers\<close>

definition sys_print :: "u32 \<Rightarrow> 'a kreplay_scheme \<Rightarrow> 'a kreplay_scheme" where
  "sys_print p s = (if sys_validate_str p 256 (vmem s) = 0 then print_string (str_arg p 256 (vmem s)) s else s)"

definition sys_read :: "u32 \<Rightarrow> int \<Rightarrow> 'a kreplay_scheme \<Rightarrow> (int \<times> 'a kreplay_scheme) option" where
  "sys_read buf len s =
     (if sys_validate_buf buf len < 0 then Some (SYS_EINVAL, s)
      else if len < 1 then Some (0, s)
      else do {
        (c, s1) \<leftarrow> kb_wait s;
        let s2 = s1\<lparr>vmem := (vmem s1)(buf := c)\<rparr>;
        Some (if len > 1 \<and> c \<noteq> 10 then (2, s2\<lparr>vmem := (vmem s2)(buf + 1 := 10)\<rparr>) else (1, s2))
      })"

definition sys_open :: "u32 \<Rightarrow> u32 \<Rightarrow> 'a kreplay_scheme \<Rightarrow> (int \<times> 'a kreplay_scheme) option" where
  "sys_open path flags s =
     (if sys_validate_str path 256 (vmem s) < 0 then Some (SYS_EINVAL, s)
      else intent_compat_open (str_arg path 256 (vmem s)) flags s)"

definition sys_write :: "int \<Rightarrow> u32 \<Rightarrow> int \<Rightarrow> 'a kreplay_scheme \<Rightarrow> (int \<times> 'a kreplay_scheme) option" where
  "sys_write fd buf len s =
     (if sys_validate_buf buf len < 0 then Some (SYS_EINVAL, s)
      else intent_compat_write fd (Some (peek (vmem s) buf (nat len))) len s)"

definition sys_waitpid :: "u32 \<Rightarrow> 'a kreplay_scheme \<Rightarrow> int \<times> 'a kreplay_scheme" where
  "sys_waitpid status s =
     (case proc_wait s of
        ((pid, Some code), s1) \<Rightarrow> (pid, if status \<noteq> 0 then s1\<lparr>vmem := wr32 status (of_int code) (vmem s1)\<rparr> else s1)
      | ((pid, None), s1) \<Rightarrow> (pid, s1))"

definition sys_kill :: "int \<Rightarrow> 'a kreplay_scheme \<Rightarrow> int \<times> 'a kreplay_scheme" where
  "sys_kill pid s = process_event_send pid EVENT_TERMINATE 0 s"

definition sys_pipe :: "u32 \<Rightarrow> 'a kreplay_scheme \<Rightarrow> int \<times> 'a kreplay_scheme" where
  "sys_pipe fds s =
     (if sys_validate_buf fds 8 < 0 then (SYS_EINVAL, s)
      else case pipe_create s of
        (None, s1) \<Rightarrow> (SYS_EAGAIN, s1)
      | (Some (rfd, wfd), s1) \<Rightarrow> (0, s1\<lparr>vmem := wr32 (fds + 4) (of_int wfd) (wr32 fds (of_int rfd) (vmem s1))\<rparr>))"

definition sys_brk :: "u32 \<Rightarrow> 'a kproc_scheme \<Rightarrow> int \<times> 'a kproc_scheme" where
  "sys_brk addr s =
     (if addr = 0 then (to_int (t_heap_brk (cur_task s)), s)
      else if addr < 0x40000000 \<or> addr > 0x80000000 then (SYS_EINVAL, s)
      else (to_int addr, upd_task (current_task s) (\<lambda>t. t\<lparr>t_heap_brk := addr\<rparr>) s))"

text \<open>No NUL is stored behind the name.\<close>

definition sys_sysname :: "u32 \<Rightarrow> 'a kreplay_scheme \<Rightarrow> int \<times> 'a kreplay_scheme" where
  "sys_sysname buf s =
     (if sys_validate_buf buf 64 < 0 then (SYS_EINVAL, s)
      else (0, s\<lparr>vmem := poke buf (take 63 (cs ''HexaOS'')) (vmem s)\<rparr>))"

partial_function (option) mmap_loop :: "u32 \<Rightarrow> u32 \<Rightarrow> 'a kmem_scheme \<Rightarrow> (bool \<times> 'a kmem_scheme) option" where
  "mmap_loop v stop s =
     (if v < stop
      then case pmm_alloc s of (phys, s1) \<Rightarrow>
        if phys = 0 then Some (False, s1) else mmap_loop (v + 4096) stop (map_page v phys 0x007 s1)
      else Some (True, s))"

definition page_round :: "u32 \<Rightarrow> u32" where
  "page_round len = (len + 0xFFF) AND NOT 0xFFF"

definition sys_mmap :: "u32 \<Rightarrow> u32 \<Rightarrow> 'a kmem_scheme \<Rightarrow> (int \<times> 'a kmem_scheme) option" where
  "sys_mmap addr0 len s =
     (if len = 0 then Some (SYS_EINVAL, s)
      else let addr = (if addr0 = 0 then 0x40000000 else addr0)
           in map_option (\<lambda>(ok, s1). (if ok then to_int addr else SYS_ENOMEM, s1)) (mmap_loop addr (addr + page_round len) s))"

partial_function (option) munmap_loop :: "u32 \<Rightarrow> u32 \<Rightarrow> 'a kmem_scheme \<Rightarrow> 'a kmem_scheme option" where
  "munmap_loop v stop s = (if v < stop then munmap_loop (v + 4096) stop (unmap_page v s) else Some s)"

definition sys_munmap :: "u32 \<Rightarrow> u32 \<Rightarrow> 'a kmem_scheme \<Rightarrow> (int \<times> 'a kmem_scheme) option" where
  "sys_munmap addr len s = map_option (Pair 0) (munmap_loop addr (addr + page_round len) s)"

text \<open>The structure \<^verbatim>\<open>hexaos_intent_t\<close> at an address.\<close>

definition intent_at :: "mem \<Rightarrow> u32 \<Rightarrow> intent" where
  "intent_at m p =
     \<lparr>it_type = rd32 m p, it_target_hash = rd32 m (p + 4), it_schema_hash = rd32 m (p + 8), it_filter_offset = rd32 m (p + 12),
      it_flags = rd32 m (p + 16)\<rparr>"

definition sys_intent :: "u32 \<Rightarrow> u32 \<Rightarrow> u32 \<Rightarrow> 'a kreplay_scheme \<Rightarrow> int \<times> 'a kreplay_scheme" where
  "sys_intent arg1 arg2 arg3 s =
     (if arg1 = 0 \<or> arg2 = 0 then (SYS_EINVAL, s)
      else case hexafs_cap_check (of_int (current_pid s)) CAP_TYPE_INTENT s of (ok, s1) \<Rightarrow>
        if \<not> ok \<and> it_type (intent_at (vmem s1) arg1) \<noteq> INTENT_CONSUME \<and> current_pid s1 \<noteq> 0 then (SYS_EPERM, s1)
        else case intent_create (current_pid s1) (intent_at (vmem s1) arg1) s1 of
          (None, s2) \<Rightarrow> (SYS_EAGAIN, s2)
        | (Some h, s2) \<Rightarrow> (0, snd (replay_record 21 arg1 arg2 arg3 0 (s2\<lparr>vmem := wr32 arg2 h (vmem s2)\<rparr>))))"

definition sys_fulfill :: "u32 \<Rightarrow> u32 \<Rightarrow> int \<Rightarrow> 'a kreplay_scheme \<Rightarrow> int \<times> 'a kreplay_scheme" where
  "sys_fulfill handle buffer len s =
     (let s1 = snd (replay_record 22 handle buffer (of_int len) 0 s);
          data = (if buffer = 0 then None else Some (peek (vmem s1) buffer (nat len)))
      in case intent_fulfill handle data len s1 of ((r, out), s2) \<Rightarrow> (r, s2\<lparr>vmem := poke buffer out (vmem s2)\<rparr>))"

definition sys_event_send :: "u32 \<Rightarrow> u32 \<Rightarrow> u32 \<Rightarrow> 'a kreplay_scheme \<Rightarrow> int \<times> 'a kreplay_scheme" where
  "sys_event_send target_pid ty payload s =
     (if target_pid = 0 then (SYS_EINVAL, s)
      else case process_event_send (to_int target_pid) ty payload s of (ret, s1) \<Rightarrow>
        (if ret < 0 then SYS_EAGAIN else 0, s1))"

text \<open>The rounds of the polling loop; \<open>start\<close> is the clock at the call.\<close>

fun event_poll_loop :: "u32 list \<Rightarrow> u32 \<Rightarrow> u32 \<Rightarrow> u32 \<Rightarrow> 'a kreplay_scheme \<Rightarrow> (int flow \<times> 'a kreplay_scheme) option" where
  "event_poll_loop clock evmask timeout start s =
     (case process_event_poll evmask s of ((ret, ev), s1) \<Rightarrow>
        if ret \<ge> 0 then
          (if map_option event_type ev = Some EVENT_TERMINATE
           then (case proc_exit 0 s1 of (n, s2) \<Rightarrow> Some (Exits n, s2))
           else Some (Returns ret, s1))
        else if timeout > 0 \<and> system_ticks s1 - start \<ge> timeout then Some (Returns 0, s1)
        else case clock of [] \<Rightarrow> None | t # ts \<Rightarrow> event_poll_loop ts evmask timeout start (s1\<lparr>system_ticks := t\<rparr>))"

definition sys_event_poll :: "u32 list \<Rightarrow> u32 \<Rightarrow> u32 \<Rightarrow> 'a kreplay_scheme \<Rightarrow> (int flow \<times> 'a kreplay_scheme) option" where
  "sys_event_poll clock evmask timeout s = event_poll_loop clock evmask timeout (system_ticks s) s"

declare event_poll_loop.simps [simp del]

definition sys_getcwd :: "u32 \<Rightarrow> int \<Rightarrow> 'a kreplay_scheme \<Rightarrow> int \<times> 'a kreplay_scheme" where
  "sys_getcwd buf len s =
     (if buf = 0 \<or> len \<le> 0 then (SYS_EINVAL, s)
      else let path = take (nat (len - 1)) (cs ''/home/'')
           in (int (length path), s\<lparr>vmem := poke buf (path @ [0]) (vmem s)\<rparr>))"

text \<open>The fields of \<^verbatim>\<open>struct vfs_node\<close> stored at an address; \<open>node\<close> is the uninitialised local variable.\<close>

definition store_node :: "u32 \<Rightarrow> vfs_node \<Rightarrow> mem \<Rightarrow> mem" where
  "store_node p n m =
     wr32 (p + 48) (of_int (vn_ref_count n)) (poke (p + 44) (le16 (vn_mode n))
       (poke p (vn_name n @ le32 (of_int (vn_type n)) @ le32 (of_int (vn_size n)) @ le32 (of_int (vn_owner n))) m))"

definition sys_stat :: "vfs_node \<Rightarrow> u32 \<Rightarrow> u32 \<Rightarrow> 'a kreplay_scheme \<Rightarrow> (int \<times> 'a kreplay_scheme) option" where
  "sys_stat node path out s =
     do {
       name \<leftarrow> mem_str (vmem s) path;
       Some (case intent_compat_stat name node s of (ret, n) \<Rightarrow>
         if ret < 0 then (ret, s)
         else (0, if out \<noteq> 0 then s\<lparr>vmem := store_node out n (vmem s)\<rparr> else s))
     }"

section \<open>Dispatch\<close>

definition ret :: "int \<times> 'a kreplay_scheme \<Rightarrow> (u32 flow \<times> 'a kreplay_scheme) option" where
  "ret = (\<lambda>(r, s). Some (Returns (of_int r), s))"

definition opt_ret :: "(int \<times> 'a kreplay_scheme) option \<Rightarrow> (u32 flow \<times> 'a kreplay_scheme) option" where
  "opt_ret x = do { r \<leftarrow> x; ret r }"

definition syscall_handler :: "vfs_node \<Rightarrow> u32 list \<Rightarrow> u32 \<times> u32 \<times> u32 \<times> u32 \<Rightarrow> 'a kreplay_scheme \<Rightarrow> (u32 flow \<times> 'a kreplay_scheme) option" where
  "syscall_handler node clock = (\<lambda>(num, arg1, arg2, arg3) s.
     if num \<ge> SYSCALL_MAX then ret (SYS_ENOSYS, s)
     else if num = 0 then ret (0, sys_print arg1 s)
     else if num = 1 then opt_ret (sys_read arg1 (to_int arg2) s)
     else if num = 2 then (case proc_exit (to_int arg1) s of (n, s1) \<Rightarrow> Some (Exits n, s1))
     else if num = 3 then ret (uint (system_ticks s), s)
     else if num = 4 then opt_ret (sys_open arg1 arg2 s)
     else if num = 5 then ret (vfs_close (to_int arg1) s)
     else if num = 6 then opt_ret (sys_write (to_int arg1) arg2 (to_int arg3) s)
     else if num = 7 then ret (t_pid (cur_task s), s)
     else if num = 8 then ret (0, sleep_ticks arg1 s)
     else if num = 9 then ret (sys_brk arg1 s)
     else if num = 10 then ret (sys_waitpid arg1 s)
     else if num = 11 then ret (sys_kill (to_int arg1) s)
     else if num = 12 then ret (sys_pipe arg1 s)
     else if num = 13 then ret (vfs_dup (to_int arg1) s)
     else if num = 14 then ret (t_parent_pid (cur_task s), s)
     else if num = 15 then ret (sys_sysname arg1 s)
     else if num = 16 then ret (vfs_lseek (to_int arg1) (to_int arg2) (to_int arg3) s)
     else if num = 17 then ret (sys_getcwd arg1 (to_int arg2) s)
     else if num = 18 then opt_ret (sys_stat node arg1 arg2 s)
     else if num = 19 then opt_ret (sys_mmap arg1 arg2 s)
     else if num = 20 then opt_ret (sys_munmap arg1 arg2 s)
     else if num = 21 then ret (sys_intent arg1 arg2 arg3 s)
     else if num = 22 then ret (sys_fulfill arg1 arg2 (to_int arg3) s)
     else if num = 23 then ret (SYS_ENOSYS, s)
     else if num = 24 then (case replay_execute arg1 arg2 s of (r, s1) \<Rightarrow> Some (Returns r, s1))
     else if num = 25 then ret (pipe_create_typed arg1 arg2 arg3 0 s)
     else if num = 26 then ret (sys_event_send arg1 arg2 arg3 s)
     else if num = 27 then
       map_option (\<lambda>(r, s1). (case r of Returns i \<Rightarrow> Returns (of_int i) | Exits n \<Rightarrow> Exits n, s1)) (sys_event_poll clock arg1 arg2 s)
     else ret (SYS_ENOSYS, s))"

section \<open>Memory calls return\<close>

lemma page_round_aligned: "4096 dvd unat (page_round len)"
proof -
  have "page_aligned (page_round len)" using page_aligned_frame [of "len + 0xFFF"] by (simp add: page_round_def frame_of_def)
  then have "take_bit 12 (page_round len) = 0" by (simp add: page_aligned_def take_bit_eq_mask mask_eq_exp_minus_1)
  moreover have "unat (take_bit 12 (page_round len)) = take_bit 12 (unat (page_round len))" by (rule unsigned_take_bit_eq)
  ultimately show ?thesis by (simp add: take_bit_eq_mod dvd_eq_mod_eq_0)
qed

lemma page_loop_step:
  fixes v stop :: u32
  assumes "unat (stop - v) = 4096 * Suc n"
  shows "unat (stop - (v + 4096)) = 4096 * n"
proof -
  have "4096 \<le> stop - v" using assms by (simp add: word_le_nat_alt)
  then have "unat ((stop - v) - 4096) = unat (stop - v) - unat (4096 :: u32)" by (rule unat_sub)
  then show ?thesis using assms by (simp add: diff_diff_eq)
qed

lemma mmap_loop_ends: "unat (stop - v) = 4096 * n \<Longrightarrow> mmap_loop v stop s \<noteq> None"
proof (induction n arbitrary: v s)
  case 0
  then have "stop = v" by (simp add: unat_eq_0)
  then show ?case by (simp add: mmap_loop.simps)
next
  case (Suc n)
  then show ?case using Suc.IH [OF page_loop_step [OF Suc.prems]] by (subst mmap_loop.simps) (auto split: prod.split)
qed

lemma munmap_loop_ends: "unat (stop - v) = 4096 * n \<Longrightarrow> munmap_loop v stop s \<noteq> None"
proof (induction n arbitrary: v s)
  case 0
  then have "stop = v" by (simp add: unat_eq_0)
  then show ?case by (simp add: munmap_loop.simps)
next
  case (Suc n)
  then show ?case using Suc.IH [OF page_loop_step [OF Suc.prems]] by (subst munmap_loop.simps) simp
qed

text \<open>
  The memory calls return.  For every address and length, aligned or not and also where the end of
  the range wraps around, \<^verbatim>\<open>sys_mmap\<close> and \<^verbatim>\<open>sys_munmap\<close> come back, although their loops compare wrapped
  addresses: with the address, \<^verbatim>\<open>SYS_ENOMEM\<close> or \<^verbatim>\<open>SYS_EINVAL\<close>, and with 0.
\<close>

theorem memory_calls_return:
  "(\<exists>r s'. sys_mmap addr len s = Some (r, s') \<and>
      r \<in> (if len = 0 then {SYS_EINVAL} else {SYS_ENOMEM, to_int (if addr = 0 then 0x40000000 else addr)})) \<and>
   (\<exists>s'. sys_munmap addr len s = Some (0, s'))"
proof -
  obtain n where n: "unat (page_round len) = 4096 * n" using page_round_aligned [of len] by (auto elim: dvdE)
  have l: "mmap_loop a (a + page_round len) s \<noteq> None" "munmap_loop a (a + page_round len) s \<noteq> None" for a
    using mmap_loop_ends [of "a + page_round len" a n s] munmap_loop_ends [of "a + page_round len" a n s] n by simp_all
  then obtain ok t u where "mmap_loop (if addr = 0 then 0x40000000 else addr) ((if addr = 0 then 0x40000000 else addr) + page_round len) s = Some (ok, t)"
    "munmap_loop addr (addr + page_round len) s = Some u" by fast
  then show ?thesis by (auto simp: sys_mmap_def sys_munmap_def Let_def)
qed

section \<open>Ending tasks\<close>

lemma to_int_of_int: "0 \<le> p \<Longrightarrow> p < 2 ^ 31 \<Longrightarrow> to_int (of_int p) = p"
proof -
  assume p: "0 \<le> p" "p < 2 ^ 31"
  have "uint (of_int p :: u32) = p" using p by (simp add: unsigned_of_int take_bit_int_eq_self)
  then have "unat (of_int p :: u32) = nat p" by (simp only: unat_eq_nat_uint)
  then show ?thesis using p to_int_small [of "of_int p"] by simp
qed

lemma kill_queues:
  assumes inv: "proc_inv s" and t: "find_task (\<lambda>i t. t_pid t = target \<and> t_state t \<noteq> TASK_DEAD) s = Some i" and e: "task_events (tasks s ! i) = []"
  obtains s1 where "sys_kill target s = (0, s1)" and "proc_inv s1" and "\<forall>k. k \<noteq> i \<longrightarrow> tasks s1 ! k = tasks s ! k"
    and "t_state (tasks s1 ! i) = t_state (tasks s ! i)" and "map event_type (task_events (tasks s1 ! i)) = [EVENT_TERMINATE]"
    and "current_task s1 = current_task s" and "i < MAX_TASKS"
proof -
  let ?ev = "\<lparr>event_type = EVENT_TERMINATE, sender_pid = of_int (t_pid (cur_task s)), sender_snap = 0, payload_hash = 0, ev_timestamp = system_ticks s\<rparr>"
  have ok: "task_ok (tasks s ! i)" and i: "i < MAX_TASKS" using find_task_ok [OF inv t] find_task_Some(1) [OF t] by simp_all
  have l: "length (tasks s) = MAX_TASKS" using inv by (simp add: proc_inv_def)
  obtain t' where t': "event_put ?ev (tasks s ! i) = Some t'" "task_ok t'" "task_events t' = [?ev]"
    using evq.enq_room [OF ok, of ?ev] e by auto
  have k: "sys_kill target s = (0, upd_task i (\<lambda>_. t') s)" using t t'(1) by (simp add: sys_kill_def process_event_send_def)
  have inv': "proc_inv (upd_task i (\<lambda>_. t') s)"
    using process_event_send_inv [OF inv, of target EVENT_TERMINATE 0] k by (simp add: sys_kill_def)
  show thesis
    by (rule that [OF k inv']) (use i l t'(3) event_put_fields [OF t'(1)] in \<open>auto simp: upd_task_def\<close>)
qed

lemma poll_terminate_exits:
  assumes inv: "proc_inv s" and c: "current_task s = i" and e: "map event_type (task_events (tasks s ! i)) = [EVENT_TERMINATE]"
  obtains n s2 where "sys_event_poll clock 0 timeout s = Some (Exits n, s2)" and "t_state (tasks s2 ! i) = TASK_ZOMBIE" and "t_exit_code (tasks s2 ! i) = 0"
    and "\<forall>k. n = Some k \<longrightarrow> k \<noteq> i"
proof -
  have i: "i < MAX_TASKS" "length (tasks s) = MAX_TASKS" using inv c by (simp_all add: proc_inv_def)
  have ok: "task_ok (tasks s ! i)" using inv i by (simp add: proc_inv_task_ok)
  obtain ev where ev: "task_events (tasks s ! i) = [ev]" "event_type ev = EVENT_TERMINATE" using e by (auto simp: map_eq_Cons_conv)
  obtain t' where t': "event_get (tasks s ! i) = Some (ev, t')" "task_ok t'" using evq.deq_nonempty [OF ok ev(1)] by blast
  let ?s1 = "upd_task i (\<lambda>_. t') s"
  have one: "to_int 1 = 1" using to_int_small [of 1] by simp
  have p: "process_event_poll 0 s = ((1, Some ev), ?s1)" using t'(1) ev(2) c one by (simp add: process_event_poll_def cur_task_def)
  obtain n s2 where x: "proc_exit 0 ?s1 = (n, s2)" by fastforce
  have r: "sys_event_poll clock 0 timeout s = Some (Exits n, s2)"
    using p ev(2) x by (simp add: sys_event_poll_def event_poll_loop.simps [of clock])
  have c1: "current_task ?s1 = i" "current_task ?s1 < length (tasks ?s1)" using c i by (simp_all add: upd_task_def)
  have z: "t_state (tasks (exit_mark 0 ?s1) ! i) = TASK_ZOMBIE" "t_exit_code (tasks (exit_mark 0 ?s1) ! i) = 0"
    using c1 by (simp_all add: exit_mark_def)
  show thesis
  proof (cases n)
    case None
    then have "s2 = exit_mark 0 ?s1" using x unfolding proc_exit_eq [OF c1(2)] by (auto split: option.splits)
    then show thesis using that [OF r] z None by simp
  next
    case (Some k)
    have inv1: "proc_inv ?s1"
      using process_event_poll_inv [OF inv, of 0] p by simp
    note tg = proc_exit_target [OF inv1 x [unfolded Some]]
    have "k \<noteq> i" using tg(3) c1(1) by simp
    then have "tasks s2 ! i = tasks (exit_mark 0 ?s1) ! i" using tg(4) by (simp add: switch_to_def upd_task_def)
    then show thesis using that [OF r] z Some \<open>k \<noteq> i\<close> by simp
  qed
qed

text \<open>
  C28: killing a task through the system call takes effect when the task polls.  \<^verbatim>\<open>SYS_KILL\<close> for a task
  with an empty event queue returns 0 and leaves every task as it was, the target too, except that the
  target now has the event; as soon as the target runs and calls \<^verbatim>\<open>SYS_EVENT_POLL\<close>, it is ended: the call
  does not return, the task is a zombie with exit code 0, and another task, if any, goes on.
\<close>

theorem syscall_kill:
  assumes "proc_inv s" and "0 < target" and "target < 2 ^ 31" and "find_task (\<lambda>i t. t_pid t = target \<and> t_state t \<noteq> TASK_DEAD) s = Some i"
    and "task_events (tasks s ! i) = []"
  shows "\<exists>s1. syscall_handler node clock (11, of_int target, b, c) s = Some (Returns 0, s1) \<and>
    (\<forall>k. k \<noteq> i \<longrightarrow> tasks s1 ! k = tasks s ! k) \<and> t_state (tasks s1 ! i) = t_state (tasks s ! i) \<and>
    (\<exists>n s2. syscall_handler node clock (27, 0, timeout, d) (s1\<lparr>current_task := i\<rparr>) = Some (Exits n, s2) \<and>
       t_state (tasks s2 ! i) = TASK_ZOMBIE \<and> t_exit_code (tasks s2 ! i) = 0 \<and> n \<noteq> Some i)"
proof -
  obtain s1 where s1: "sys_kill target s = (0, s1)" "proc_inv s1" "\<forall>k. k \<noteq> i \<longrightarrow> tasks s1 ! k = tasks s ! k"
    "t_state (tasks s1 ! i) = t_state (tasks s ! i)" "map event_type (task_events (tasks s1 ! i)) = [EVENT_TERMINATE]"
    "current_task s1 = current_task s" "i < MAX_TASKS"
    by (rule kill_queues [OF assms(1,4,5)])
  have inv: "proc_inv (s1\<lparr>current_task := i\<rparr>)" using s1(2,7) by (simp add: proc_inv_def)
  obtain n s2 where n: "sys_event_poll clock 0 timeout (s1\<lparr>current_task := i\<rparr>) = Some (Exits n, s2)"
    "t_state (tasks s2 ! i) = TASK_ZOMBIE" "t_exit_code (tasks s2 ! i) = 0" "\<forall>k. n = Some k \<longrightarrow> k \<noteq> i"
    by (rule poll_terminate_exits [OF inv, of i clock timeout]) (use s1(5) in simp_all)
  have "syscall_handler node clock (11, of_int target, b, c) s = Some (Returns 0, s1)"
    using s1(1) to_int_of_int [of target] assms(2,3) by (simp add: syscall_handler_def ret_def)
  moreover have "syscall_handler node clock (27, 0, timeout, d) (s1\<lparr>current_task := i\<rparr>) = Some (Exits n, s2)"
    using n(1) by (simp add: syscall_handler_def)
  ultimately show ?thesis using s1(3,4) n(2,3,4) by blast
qed

section \<open>Example\<close>

definition one_task_kernel :: kreplay where
  "one_task_kernel = bss_kreplay\<lparr>tasks := tasks one_task, current_task := current_task one_task, num_tasks := num_tasks one_task,
     next_pid := next_pid one_task, tss := tss one_task\<rparr>"

theorem syscall_kill_witness:
  "\<exists>s1 n s2. syscall_handler \<lparr>vn_name = [], vn_type = 0, vn_size = 0, vn_owner = 0, vn_mode = 0, vn_ref_count = 0\<rparr> [] (11, 7, 0, 0) one_task_kernel =
      Some (Returns 0, s1) \<and>
    syscall_handler \<lparr>vn_name = [], vn_type = 0, vn_size = 0, vn_owner = 0, vn_mode = 0, vn_ref_count = 0\<rparr> [] (27, 0, 0, 0) (s1\<lparr>current_task := 0\<rparr>) =
      Some (Exits n, s2) \<and> t_state (tasks s2 ! 0) = TASK_ZOMBIE"
proof -
  have inv: "proc_inv one_task_kernel" using one_task(1) by (simp add: one_task_kernel_def proc_inv_def)
  have t0: "tasks one_task_kernel ! 0 = (init_task bss_task)\<lparr>t_pid := 7, t_state := TASK_READY\<rparr>" using one_task(2) by (simp add: one_task_kernel_def)
  have f: "find_task (\<lambda>i t. t_pid t = 7 \<and> t_state t \<noteq> TASK_DEAD) one_task_kernel = Some 0"
    by (rule find_pid [OF inv]) (simp_all add: t0)
  have e: "task_events (tasks one_task_kernel ! 0) = []" by (simp add: t0 task_events_def ring_list_def init_task_def)
  have "(0 :: int) < 7" "(7 :: int) < 2 ^ 31" by simp_all
  from syscall_kill [OF inv this f e, of "\<lparr>vn_name = [], vn_type = 0, vn_size = 0, vn_owner = 0, vn_mode = 0, vn_ref_count = 0\<rparr>" "[]" 0 0 0 0]
  show ?thesis by auto
qed

end
