(* ===== verification/Hexa_Observe.thy ===== *)
theory Hexa_Observe
  imports Hexa_Device
begin

text \<open>
  The kernel observers (\<^verbatim>\<open>kobserve.c\<close>, and the three network observers of \<^verbatim>\<open>net.c\<close>): a table of paths
  such as \<^verbatim>\<open>/@kernel/memory/pages\<close> with a function each that writes a text into the caller's buffer.  The
  functions that the kernel registers are the constructors of \<open>observer\<close>; \<open>observe\<close> is the call through the
  function pointer.  A report is the text written, its result the length of this text; the buffer is
  overrun exactly if the text and its NUL are longer than \<^verbatim>\<open>out_len\<close>.
\<close>

section \<open>The table\<close>

abbreviation (input) KOBSERVE_MAX :: nat where "KOBSERVE_MAX \<equiv> 32"

datatype observer = Sched_tasks | Sched_history | Mem_pages | Mem_heap | Intr_log | Intr_stats | Vfs_mounts
  | Open_intents | Caps_grants | Caps_revoked | Pipes_active | Snapshots_tree | Replay_last
  | Net_ifaces | Net_conns | Net_history

record kernel_observer =
  ob_path :: bytes
  ob_query_fn :: "observer option"
  ob_update_interval_ticks :: u32
  ob_last_update_tick :: u32

record kobs = kfb +
  kobserve_table :: "kernel_observer list"
  kobserve_count :: nat

definition zero_observer :: kernel_observer where
  "zero_observer = \<lparr>ob_path = zeros 64, ob_query_fn = None, ob_update_interval_ticks = 0, ob_last_update_tick = 0\<rparr>"

definition kobserve_find :: "bytes \<Rightarrow> 'a kobs_scheme \<Rightarrow> nat option" where
  "kobserve_find path s = find (\<lambda>i. name_match 64 (ob_path (kobserve_table s ! i)) path) [0..<kobserve_count s]"

definition kobserve_register :: "bytes \<Rightarrow> observer option \<Rightarrow> u32 \<Rightarrow> 'a kobs_scheme \<Rightarrow> int \<times> 'a kobs_scheme" where
  "kobserve_register path query_fn interval s =
     (let k = kobserve_count s in
      if k \<ge> KOBSERVE_MAX then (-1, s)
      else (0, s\<lparr>kobserve_table := (kobserve_table s)[k :=
                   \<lparr>ob_path = put_bytes 0 (name_bytes 64 path) (ob_path (kobserve_table s ! k)), ob_query_fn = query_fn,
                    ob_update_interval_ticks = interval, ob_last_update_tick = 0\<rparr>],
                 kobserve_count := k + 1\<rparr>))"

section \<open>The reports\<close>

definition nl :: "bytes \<Rightarrow> bytes" where "nl t = t @ [10]"

definition state_text :: "task_state \<Rightarrow> bytes" where
  "state_text st = (case st of TASK_RUNNING \<Rightarrow> cs ''RUN'' | TASK_READY \<Rightarrow> cs ''RDY'' | TASK_BLOCKED \<Rightarrow> cs ''BLK''
     | TASK_ZOMBIE \<Rightarrow> cs ''ZOM'' | TASK_DEAD \<Rightarrow> cs ''DEAD'')"

definition task_line :: "task \<Rightarrow> piece list" where
  "task_line t =
     [Txt (itoa (of_int (t_pid t)) 10), Chr 32, Chr 32, Txt (itoa (of_int (t_parent_pid t)) 10), Chr 32, Chr 32,
      Txt (state_text (t_state t)), Chr 32, Txt (t_name t), Chr 10]"

definition kobserve_sched_tasks :: "nat \<Rightarrow> 'a kproc_scheme \<Rightarrow> bytes" where
  "kobserve_sched_tasks out_len s =
     render out_len
       (Txt (nl (cs ''PID  PPID STATE NAME'') @ nl (cs ''---  ---- ----- ----'')) #
        concat (map (\<lambda>i. let t = tasks s ! i in if t_state t = TASK_DEAD then [] else task_line t) [0..<MAX_TASKS])) []"

definition kobserve_sched_history :: "nat \<Rightarrow> bytes" where
  "kobserve_sched_history out_len = render out_len [Txt (nl (cs ''Scheduling history: recorded in snapshot events.''))] []"

definition kobserve_mem_pages :: "nat \<Rightarrow> 'a kmem_scheme \<Rightarrow> bytes" where
  "kobserve_mem_pages out_len s =
     (let total = of_nat (pmm_get_total_pages s) :: u32; free_p = of_nat (pmm_count_free s); used = total - free_p in
      render out_len
        [Txt (nl (cs ''Memory Page Info:'')), Txt (itoa (total * 4) 10), Txt (cs '' KB total (''), Txt (itoa total 10),
         Txt (nl (cs '' pages)'')), Txt (itoa (used * 4) 10), Txt (nl (cs '' KB used'')), Txt (itoa (free_p * 4) 10),
         Txt (nl (cs '' KB free''))] [])"

definition kobserve_mem_heap :: "nat \<Rightarrow> bytes" where
  "kobserve_mem_heap out_len = render out_len [Txt (nl (cs ''Kernel Heap: 0x800000 - 0x900000 (1MB)''))] []"

text \<open>\<^verbatim>\<open>log_get\<close> returns the address of its static buffer, so the branch for no log is never taken.\<close>

definition kobserve_intr_log :: "nat \<Rightarrow> 'a klog_scheme \<Rightarrow> bytes" where
  "kobserve_intr_log out_len s = render out_len [Txt (log_get s)] []"

definition kobserve_intr_stats :: "nat \<Rightarrow> 'a kproc_scheme \<Rightarrow> bytes" where
  "kobserve_intr_stats out_len s =
     render out_len
       [Txt (nl (cs ''Interrupt Statistics:'')),
        Txt (nl (cs ''  IRQ 0 (PIT): active'') @ nl (cs ''  IRQ 1 (Keyboard): active'') @
             nl (cs ''  Exception handlers: 0-31 registered'') @ nl (cs ''  Syscall (int 0x80): active'')),
        Txt (cs ''  Total timer ticks: ''), Txt (itoa (system_ticks s) 10), Chr 10] []"

definition kobserve_vfs_mounts :: "nat \<Rightarrow> bytes" where
  "kobserve_vfs_mounts out_len = render out_len [Txt (nl (cs ''VFS Mounts:'')), Txt (nl (cs ''  /  -> hexafs_disk (persistent)''))] []"

text \<open>
  A header, the text of another listing function in the rest of the buffer, and a line for the empty
  list, which is written unless the text so far ends with a newline.
\<close>

definition list_report :: "nat \<Rightarrow> bytes \<Rightarrow> (nat \<Rightarrow> bytes) \<Rightarrow> bytes" where
  "list_report out_len header listing =
     (let w = render out_len [Txt (nl header)] [];
          out = c_str (w @ listing (out_len - length w))
      in if out = [] \<or> last out \<noteq> 10 then render out_len [Txt (nl (cs ''  (none)''))] out else out)"

definition kobserve_open_intents :: "nat \<Rightarrow> 'a kintent_scheme \<Rightarrow> bytes" where
  "kobserve_open_intents out_len s = list_report out_len (cs ''Active Intent Handles:'') (\<lambda>n. intent_list_active n s)"

definition kobserve_caps_grants :: "nat \<Rightarrow> bytes" where
  "kobserve_caps_grants out_len = render out_len [Txt (nl (cs ''Capability Grants:'')), Txt (nl (cs ''  (no active grants)''))] []"

definition kobserve_caps_revoked :: "nat \<Rightarrow> bytes" where
  "kobserve_caps_revoked out_len = render out_len [Txt (nl (cs ''Revoked Capabilities:'')), Txt (nl (cs ''  (no revoked caps)''))] []"

definition kobserve_pipes_active :: "nat \<Rightarrow> 'a kpipe_scheme \<Rightarrow> bytes" where
  "kobserve_pipes_active out_len s = list_report out_len (cs ''Active Typed Pipes:'') (\<lambda>n. pipe_typed_list n s)"

text \<open>The snapshots from \<open>snap_block\<close> on; a chain that runs into itself is followed for ever.\<close>

definition snap_line :: "u32 \<Rightarrow> bytes \<Rightarrow> piece list" where
  "snap_line b sn = [Txt (itoa b 10), Chr 32, Txt (take 31 (c_str (snap_name sn))), Chr 10]"

partial_function (option) snapshots_loop :: "nat \<Rightarrow> u32 \<Rightarrow> bytes \<Rightarrow> 'a kdisk_scheme \<Rightarrow> (bytes \<times> 'a kdisk_scheme) option" where
  "snapshots_loop out_len snap_block w s =
     (if snap_block = 0 then Some (w, s)
      else case hexafs_block_read snap_block s of
        (None, s1) \<Rightarrow> Some (w, s1)
      | (Some sn, s1) \<Rightarrow>
          if snap_magic sn \<noteq> HEXAFS_SNAP_MAGIC then Some (w, s1)
          else snapshots_loop out_len (snap_parent sn) (render out_len (snap_line snap_block sn) w) s1)"

definition kobserve_snapshots_tree :: "nat \<Rightarrow> 'a kdisk_scheme \<Rightarrow> (bytes \<times> 'a kdisk_scheme) option" where
  "kobserve_snapshots_tree out_len s =
     (let w = render out_len [Txt (nl (cs ''Snapshot Tree:''))] [] in
      if root_snap s \<noteq> 0 then snapshots_loop out_len (root_snap s) w s
      else Some (render out_len [Txt (nl (cs ''  (no snapshots)''))] w, s))"

definition kobserve_replay_last :: "nat \<Rightarrow> bytes" where
  "kobserve_replay_last out_len =
     render out_len [Txt (nl (cs ''Last Replay Session:'') @ nl (cs ''  (no replay sessions recorded)''))] []"

definition kobserve_net_ifaces :: "nat \<Rightarrow> 'a knet_scheme \<Rightarrow> bytes" where
  "kobserve_net_ifaces out_len s = net_interface_list out_len s"

definition kobserve_net_conns :: "nat \<Rightarrow> 'a knet_scheme \<Rightarrow> bytes" where
  "kobserve_net_conns out_len s = net_connection_list out_len s"

definition kobserve_net_history :: "nat \<Rightarrow> 'a knet_scheme \<Rightarrow> bytes" where
  "kobserve_net_history out_len s = net_history_list out_len s"

section \<open>Queries\<close>

definition observe :: "observer \<Rightarrow> nat \<Rightarrow> 'a kobs_scheme \<Rightarrow> (bytes \<times> 'a kobs_scheme) option" where
  "observe f n s =
     (case f of
        Sched_tasks \<Rightarrow> Some (kobserve_sched_tasks n s, s)
      | Sched_history \<Rightarrow> Some (kobserve_sched_history n, s)
      | Mem_pages \<Rightarrow> Some (kobserve_mem_pages n s, s)
      | Mem_heap \<Rightarrow> Some (kobserve_mem_heap n, s)
      | Intr_log \<Rightarrow> Some (kobserve_intr_log n s, s)
      | Intr_stats \<Rightarrow> Some (kobserve_intr_stats n s, s)
      | Vfs_mounts \<Rightarrow> Some (kobserve_vfs_mounts n, s)
      | Open_intents \<Rightarrow> Some (kobserve_open_intents n s, s)
      | Caps_grants \<Rightarrow> Some (kobserve_caps_grants n, s)
      | Caps_revoked \<Rightarrow> Some (kobserve_caps_revoked n, s)
      | Pipes_active \<Rightarrow> Some (kobserve_pipes_active n s, s)
      | Snapshots_tree \<Rightarrow> kobserve_snapshots_tree n s
      | Replay_last \<Rightarrow> Some (kobserve_replay_last n, s)
      | Net_ifaces \<Rightarrow> Some (kobserve_net_ifaces n s, s)
      | Net_conns \<Rightarrow> Some (kobserve_net_conns n s, s)
      | Net_history \<Rightarrow> Some (kobserve_net_history n s, s))"

text \<open>\<open>None\<close> inside the result is the return value -1; otherwise it is the text.\<close>

definition kobserve_query :: "bytes \<Rightarrow> nat \<Rightarrow> 'a kobs_scheme \<Rightarrow> (bytes option \<times> 'a kobs_scheme) option" where
  "kobserve_query path out_len s =
     (case kobserve_find path s of
        None \<Rightarrow> Some (None, s)
      | Some idx \<Rightarrow>
          (case ob_query_fn (kobserve_table s ! idx) of
             None \<Rightarrow> Some (None, s)
           | Some f \<Rightarrow> (case observe f out_len s of None \<Rightarrow> None | Some (w, s1) \<Rightarrow> Some (Some w, s1))))"

definition kobserve_read_kernel_path :: "bytes \<Rightarrow> nat \<Rightarrow> 'a kobs_scheme \<Rightarrow> (bytes option \<times> 'a kobs_scheme) option" where
  "kobserve_read_kernel_path path out_len s = kobserve_query path out_len s"

primrec register_all :: "(bytes \<times> observer) list \<Rightarrow> 'a kobs_scheme \<Rightarrow> 'a kobs_scheme" where
  "register_all [] s = s"
| "register_all (r # rs) s = register_all rs (snd (kobserve_register (fst r) (Some (snd r)) 0 s))"

definition kernel_observers :: "(bytes \<times> observer) list" where
  "kernel_observers =
     [(cs ''/@kernel/scheduler/tasks'', Sched_tasks), (cs ''/@kernel/scheduler/history'', Sched_history),
      (cs ''/@kernel/memory/pages'', Mem_pages), (cs ''/@kernel/memory/heap'', Mem_heap),
      (cs ''/@kernel/interrupts/log'', Intr_log), (cs ''/@kernel/interrupts/stats'', Intr_stats),
      (cs ''/@kernel/vfs/mounts'', Vfs_mounts), (cs ''/@kernel/vfs/open_intents'', Open_intents),
      (cs ''/@kernel/capabilities/grants'', Caps_grants), (cs ''/@kernel/capabilities/revoked'', Caps_revoked),
      (cs ''/@kernel/pipes/active'', Pipes_active), (cs ''/@kernel/snapshots/tree'', Snapshots_tree),
      (cs ''/@kernel/replay/last'', Replay_last)]"

definition kobserve_init :: "'a kobs_scheme \<Rightarrow> 'a kobs_scheme" where
  "kobserve_init s =
     log_write LOG_LEVEL_INFO (cs ''kobserve: initialized 13 kernel observers'')
       (register_all kernel_observers (s\<lparr>kobserve_table := replicate KOBSERVE_MAX zero_observer, kobserve_count := 0\<rparr>))"

definition net_observers :: "(bytes \<times> observer) list" where
  "net_observers = [(cs ''/@net/interfaces'', Net_ifaces), (cs ''/@net/connections'', Net_conns), (cs ''/@net/history'', Net_history)]"

definition net_register_observers :: "'a kobs_scheme \<Rightarrow> 'a kobs_scheme" where
  "net_register_observers s = register_all net_observers s"

section \<open>The table as a map\<close>

text \<open>The table in use: well-formed slots, and the paths with their functions in the order of registration.\<close>

definition obs_ok :: "'a kobs_scheme \<Rightarrow> bool" where
  "obs_ok s \<longleftrightarrow> length (kobserve_table s) = KOBSERVE_MAX \<and> kobserve_count s \<le> KOBSERVE_MAX \<and>
     (\<forall>i < KOBSERVE_MAX. length (ob_path (kobserve_table s ! i)) = 64) \<and>
     (\<forall>i < kobserve_count s. length (c_str (ob_path (kobserve_table s ! i))) < 64)"

definition entries :: "'a kobs_scheme \<Rightarrow> (bytes \<times> observer option) list" where
  "entries s = map (\<lambda>i. (c_str (ob_path (kobserve_table s ! i)), ob_query_fn (kobserve_table s ! i))) [0..<kobserve_count s]"

lemma name_match_long: "n \<le> length (c_str b) \<Longrightarrow> length (c_str a) < n \<Longrightarrow> \<not> name_match n a b"
proof (induction n a b rule: name_match.induct)
  case (2 n a b)
  then obtain y ys where b: "b = y # ys" "y \<noteq> 0" by (cases b) (auto simp: c_str_def split: if_splits)
  show ?case
  proof (cases "c_at a 0 = c_at b 0")
    case True
    then obtain xs where a: "a = y # xs" using b by (cases a) (auto simp: c_at_def)
    with 2 b True show ?thesis by (simp add: c_str_def c_at_def)
  qed simp
qed simp

lemma find_index_map_of:
  "find (\<lambda>i. k = f i) [m..<n] = None \<and> map_of (map (\<lambda>i. (f i, g i)) [m..<n]) k = None \<or>
   (\<exists>i. find (\<lambda>i. k = f i) [m..<n] = Some i \<and> m \<le> i \<and> i < n \<and> map_of (map (\<lambda>i. (f i, g i)) [m..<n]) k = Some (g i))"
proof (induction "n - m" arbitrary: m)
  case (Suc d)
  then have *: "[m..<n] = m # [Suc m..<n]" "d = n - Suc m" by (simp_all add: upt_conv_Cons)
  show ?case
  proof (cases "k = f m")
    case True
    then show ?thesis using * Suc.hyps(2) by auto
  next
    case False
    then show ?thesis using Suc.hyps(1) [OF *(2)] * by auto
  qed
qed simp

text \<open>The search finds the first entry of a path.\<close>

lemma kobserve_find_cases:
  assumes "obs_ok s" and "0 \<notin> set path"
  obtains "kobserve_find path s = None" and "map_of (entries s) path = None"
  | i where "kobserve_find path s = Some i" and "i < kobserve_count s"
      and "map_of (entries s) path = Some (ob_query_fn (kobserve_table s ! i))"
proof -
  have e: "name_match 64 (ob_path (kobserve_table s ! i)) path \<longleftrightarrow> path = c_str (ob_path (kobserve_table s ! i))"
    if "i < kobserve_count s" for i
  proof (cases "length path < 64")
    case True
    then show ?thesis using name_match_iff [OF assms(2)] by auto
  next
    case False
    moreover have "length (c_str (ob_path (kobserve_table s ! i))) < 64" using assms(1) that by (simp add: obs_ok_def)
    ultimately show ?thesis using name_match_long [of 64 path] assms(2) by (auto simp: c_str_id)
  qed
  have "kobserve_find path s = find (\<lambda>i. path = c_str (ob_path (kobserve_table s ! i))) [0..<kobserve_count s]"
    unfolding kobserve_find_def using e by (intro find_cong) auto
  then show thesis
    using find_index_map_of [of path "\<lambda>i. c_str (ob_path (kobserve_table s ! i))" 0 "kobserve_count s"
        "\<lambda>i. ob_query_fn (kobserve_table s ! i)"] that
    by (auto simp: entries_def)
qed

lemma c_str_name_bytes: "c_str (put_bytes 0 (name_bytes n name) arr) = take (n - 1) (c_str name)"
proof -
  have "0 \<notin> set (take (n - 1) (c_str name))" using c_str_no_nul in_set_takeD by metis
  then show ?thesis by (simp add: name_bytes_def put_bytes_def c_str_append_nul)
qed

lemma length_name_array: "length arr = n \<Longrightarrow> 0 < n \<Longrightarrow> length (put_bytes 0 (name_bytes n name) arr) = n"
  by (simp add: name_bytes_def put_bytes_def)

lemma register_ok:
  assumes "obs_ok s"
  shows "obs_ok (snd (kobserve_register path f iv s))"
    and "entries (snd (kobserve_register path f iv s)) = take KOBSERVE_MAX (entries s @ [(take 63 (c_str path), f)])"
proof -
  let ?k = "kobserve_count s" and ?s' = "snd (kobserve_register path f iv s)"
  have *: "length (kobserve_table s) = KOBSERVE_MAX" "?k \<le> KOBSERVE_MAX" using assms by (simp_all add: obs_ok_def)
  have n: "c_str (put_bytes 0 (name_bytes 64 path) (ob_path (kobserve_table s ! ?k))) = take 63 (c_str path)"
    "length (put_bytes 0 (name_bytes 64 path) (ob_path (kobserve_table s ! ?k))) = 64" if "?k < KOBSERVE_MAX"
    using c_str_name_bytes [of 64 path] length_name_array [of "ob_path (kobserve_table s ! ?k)" 64]
      assms that by (simp_all add: obs_ok_def)
  show "obs_ok ?s'"
    using assms n by (auto simp: kobserve_register_def Let_def obs_ok_def nth_list_update less_Suc_eq)
  have same: "map (\<lambda>i. (c_str (ob_path ((kobserve_table s)[?k := x] ! i)), ob_query_fn ((kobserve_table s)[?k := x] ! i))) [0..<?k] = entries s" for x
    by (simp add: entries_def)
  show "entries ?s' = take KOBSERVE_MAX (entries s @ [(take 63 (c_str path), f)])"
  proof (cases "?k < KOBSERVE_MAX")
    case True
    then have "entries ?s' = entries s @ [(take 63 (c_str path), f)]"
      using n [OF True] * by (simp add: entries_def kobserve_register_def Let_def)
    then show ?thesis using True by (simp add: entries_def)
  next
    case False
    then show ?thesis using *(2) by (simp add: kobserve_register_def entries_def)
  qed
qed

definition registrations :: "(bytes \<times> observer) list \<Rightarrow> (bytes \<times> observer option) list" where
  "registrations rs = map (\<lambda>r. (take 63 (c_str (fst r)), Some (snd r))) rs"

lemma take_take_append: "take n (take n xs @ ys) = take n (xs @ ys)"
  by (cases "n \<le> length xs") simp_all

lemma register_all_ok:
  "obs_ok s \<Longrightarrow> obs_ok (register_all rs s) \<and> entries (register_all rs s) = take KOBSERVE_MAX (entries s @ registrations rs)"
proof (induction rs arbitrary: s)
  case Nil
  then show ?case by (simp add: registrations_def entries_def obs_ok_def)
next
  case (Cons r rs)
  let ?s = "snd (kobserve_register (fst r) (Some (snd r)) 0 s)"
  note k = register_ok [OF Cons.prems, of "fst r" "Some (snd r)" 0]
  have "take KOBSERVE_MAX (entries ?s @ registrations rs) = take KOBSERVE_MAX (entries s @ registrations (r # rs))"
    unfolding k(2) take_take_append by (simp add: registrations_def)
  then show ?case using Cons.IH [OF k(1)] by simp
qed

text \<open>
  C29: the observer table refines an association list of at most 32 paths.  Whatever observers are
  registered, in whatever order, a query runs the function of the first of the first 32 registrations
  whose path, cut to 63 bytes, is the queried one, and answers -1 for every other path, also for one of
  64 bytes or more.
\<close>

theorem kobserve_lookup:
  assumes "obs_ok s" and "kobserve_count s = 0" and "0 \<notin> set path"
  shows "kobserve_query path n (register_all rs s) =
    (case map_of (take KOBSERVE_MAX (registrations rs)) path of
       Some (Some f) \<Rightarrow> map_option (\<lambda>(w, t). (Some w, t)) (observe f n (register_all rs s))
     | _ \<Rightarrow> Some (None, register_all rs s))"
proof -
  let ?s = "register_all rs s"
  have ok: "obs_ok ?s" and e: "entries ?s = take KOBSERVE_MAX (registrations rs)"
    using register_all_ok [OF assms(1), of rs] assms(2) by (simp_all add: entries_def)
  show ?thesis
    by (rule kobserve_find_cases [OF ok assms(3)])
       (auto simp: kobserve_query_def e split: option.splits)
qed


section \<open>The snapshot tree\<close>

lemma render_Cons: "render n (p # ps) w = render n ps (write_piece n p w)"
  by (simp add: render_def)

lemma render_append: "render n (ps @ qs) w = render n qs (render n ps w)"
  by (simp add: render_def)

text \<open>Along a path of snapshots the loop writes their lines in order, and ends.\<close>

lemma snapshots_loop_path:
  "snap_path s b bs \<Longrightarrow> disk_inv t \<Longrightarrow> blk t = blk s \<Longrightarrow>
    \<exists>t'. snapshots_loop n b w t = Some (render n (concat (map (\<lambda>b. snap_line b (blk s b)) bs)) w, t') \<and>
      disk_inv t' \<and> blk t' = blk s \<and> io_frame t t'"
proof (induction bs arbitrary: b t w)
  case (Cons x xs)
  then have x: "b = x" "used_lba x s" "snap_magic (blk t x) = HEXAFS_SNAP_MAGIC" and p: "snap_path s (snap_parent (blk t x)) xs"
    by simp_all
  obtain t1 where t1: "hexafs_block_read x t = (Some (blk t x), t1)" "disk_inv t1" "blk t1 = blk t"
    using store.rd_cases [OF Cons.prems(2)] used_lba_valid [OF x(2)] by blast
  have f: "io_frame t t1" using block_read_frame [of t x] t1(1) by simp
  have "snapshots_loop n b w t = snapshots_loop n (snap_parent (blk t x)) (render n (snap_line x (blk t x)) w) t1"
    using x t1(1) used_lba_valid [OF x(2)] by (simp add: snapshots_loop.simps [of n x])
  then show ?case
    using Cons.IH [OF p t1(2), of "render n (snap_line x (blk t x)) w"] t1(3) Cons.prems(3) io_frame_trans [OF f]
    by (fastforce simp: render_append)
qed (auto simp: snapshots_loop.simps render_def)

lemma snapshots_tree_path:
  assumes "disk_inv s" and "snap_path s (root_snap s) (b # bs)"
  shows "\<exists>s'. kobserve_snapshots_tree n s =
      Some (render n (Txt (nl (cs ''Snapshot Tree:'')) # concat (map (\<lambda>b. snap_line b (blk s b)) (b # bs))) [], s') \<and>
    disk_inv s' \<and> blk s' = blk s"
proof -
  have "root_snap s \<noteq> 0" using assms(2) used_lba_valid [of "root_snap s" s] by auto
  then show ?thesis
    using snapshots_loop_path [OF assms(2,1) refl, of n "render n [Txt (nl (cs ''Snapshot Tree:''))] []"]
    by (auto simp: kobserve_snapshots_tree_def render_Cons render_def)
qed

text \<open>
  The snapshot report returns for every store whose snapshots form a chain, and lists the whole
  chain, newest first: the header, then one line with block number and name for every snapshot.
\<close>

theorem snapshots_tree_lists:
  assumes "disk_inv s" and "snap_path s (root_snap s) (b # bs)"
  shows "\<exists>s'. kobserve_snapshots_tree n s =
      Some (render n (Txt (nl (cs ''Snapshot Tree:'')) # concat (map (\<lambda>b. snap_line b (blk s b)) (b # bs))) [], s') \<and>
    disk_inv s' \<and> blk s' = blk s"
  by (rule snapshots_tree_path [OF assms])

text \<open>Every snapshot takes at least two bytes, whatever the length of the buffer.\<close>

lemma snapshots_tree_overruns:
  assumes "disk_inv s" and "snap_path s (root_snap s) (b # bs)" and "n \<le> 2 * length (b # bs)"
  shows "\<exists>w s'. kobserve_snapshots_tree n s = Some (w, s') \<and> n \<le> length w"
proof -
  let ?f = "\<lambda>b. snap_line b (blk s b)"
  let ?ps = "Txt (nl (cs ''Snapshot Tree:'')) # concat (map ?f (b # bs))"
  have "chr_count (concat (map ?f xs)) = 2 * length xs" for xs by (induction xs) (simp_all add: snap_line_def)
  then have "2 * length (b # bs) \<le> chr_count ?ps" by (simp add: snap_line_def)
  then have "n \<le> length (render n ?ps [])" using render_unchecked [of ?ps n "[]"] assms(3) by simp
  then show ?thesis using snapshots_tree_path [OF assms(1,2), of n] by auto
qed

section \<open>Reports fit\<close>

text \<open>The kernel variables that the reports read are in order.\<close>

definition reports_ok :: "'a kobs_scheme \<Rightarrow> bool" where
  "reports_ok s \<longleftrightarrow> log_inv s \<and> net_inv s \<and> disk_inv s \<and> length (tasks s) = MAX_TASKS \<and>
     (\<forall>t \<in> set (tasks s). length (t_name t) = PROC_NAME_LEN) \<and> typed_pipe_count s \<le> MAX_PIPES"

lemma decimal: "length (c_str (itoa v 10)) \<le> 11"
  using length_c_str [of "itoa v 10"] length_itoa_10 [of v] by simp

lemma lit_length: "length (c_str (cs t)) \<le> length t"
  using length_c_str [of "cs t"] by (simp add: cs_def)

lemma nl_length: "length (c_str (nl (cs t))) \<le> Suc (length t)"
  using length_c_str [of "nl (cs t)"] by (simp add: cs_def nl_def)

text \<open>A report of literal texts and numbers.\<close>

lemma report_fits: "length (plain_text ps) < n \<Longrightarrow> length (render n ps []) < n"
  using render_fits [of "[]" ps n] by simp


lemma plain_text_filtered:
  "(\<And>x. length (plain_text (f x)) \<le> k) \<Longrightarrow> length (plain_text (concat (map (\<lambda>x. if P x then f x else []) xs))) \<le> k * length (filter P xs)"
  by (induction xs) (auto intro: add_mono)

lemma list_report_fits:
  assumes "\<And>m. listing m = render m ps []" and "Suc (length h) + length (plain_text ps) < n"
  shows "length (list_report n (cs h) listing) < n"
proof -
  let ?w = "render n [Txt (nl (cs h))] []"
  let ?out = "c_str (?w @ listing (n - length ?w))"
  have "plain_text [Txt (nl (cs h))] = c_str (nl (cs h))" by simp
  then have w: "?w = c_str (nl (cs h))" using render_fits [of "[]" "[Txt (nl (cs h))]" n] nl_length [of h] assms(2) by simp
  then have "length (plain_text ps) < n - length ?w" using nl_length [of h] assms(2) by simp
  then have "length (listing (n - length ?w)) = length (plain_text ps)" using render_fits [of "[]" ps "n - length ?w"] assms(1) by simp
  then have "length ?out < n" using length_c_str [of "?w @ listing (n - length ?w)"] nl_length [of h] w assms(2) by simp
  moreover from this have "length (render n [Txt (nl (cs ''  (none)''))] ?out) < n"
    using render_bound [of n "[Txt (nl (cs ''  (none)''))]" ?out] by (simp add: max_def split: if_splits)
  ultimately show ?thesis unfolding list_report_def Let_def by (simp only: split: if_split) blast
qed

lemma sched_tasks_fits:
  assumes "reports_ok s"
  shows "length (kobserve_sched_tasks 1024 s) < 1024"
proof -
  let ?f = "\<lambda>i. let t = tasks s ! i in if t_state t = TASK_DEAD then [] else task_line t"
  have "length (plain_text (concat (map ?f [0..<MAX_TASKS]))) \<le> length [0..<MAX_TASKS] * 56"
  proof (rule length_lines_le)
    fix i assume "i \<in> set [0..<MAX_TASKS]"
    then have "length (c_str (t_name (tasks s ! i))) \<le> 24"
      using assms length_c_str [of "t_name (tasks s ! i)"] by (simp add: reports_ok_def)
    moreover have "length (c_str (state_text (t_state (tasks s ! i)))) \<le> 4"
      by (rule order_trans [OF length_c_str]) (cases "t_state (tasks s ! i)"; simp add: state_text_def cs_def)
    ultimately have "length (plain_text (task_line (tasks s ! i))) \<le> 56"
      using decimal [of "of_int (t_pid (tasks s ! i))"] decimal [of "of_int (t_parent_pid (tasks s ! i))"]
      by (simp add: task_line_def)
    then show "length (plain_text (?f i)) \<le> 56" by (simp add: Let_def)
  qed
  moreover have "length (c_str (nl (cs ''PID  PPID STATE NAME'') @ nl (cs ''---  ---- ----- ----''))) \<le> 44"
    by (rule order_trans [OF length_c_str]) (simp add: nl_def cs_def)
  ultimately show ?thesis unfolding kobserve_sched_tasks_def by (intro report_fits) simp
qed

lemma snapshots_tree_fits:
  assumes "disk_inv s" and "snap_path s (root_snap s) bs" and "length bs \<le> 22"
  shows "\<exists>w s'. kobserve_snapshots_tree 1024 s = Some (w, s') \<and> length w < 1024"
proof (cases bs)
  case Nil
  then have "root_snap s = 0" using assms(2) by simp
  then show ?thesis using nl_length [of "''Snapshot Tree:''"] nl_length [of "''  (no snapshots)''"]
    by (simp add: kobserve_snapshots_tree_def flip: render_append) (rule report_fits, simp)
next
  case (Cons b bs')
  let ?f = "\<lambda>b. snap_line b (blk s b)"
  let ?ps = "Txt (nl (cs ''Snapshot Tree:'')) # concat (map ?f bs)"
  have "length (plain_text (concat (map ?f bs))) \<le> length bs * 44"
  proof (rule length_lines_le)
    fix x
    have "length (c_str (take 31 (c_str (snap_name (blk s x))))) \<le> 31" by (rule order_trans [OF length_c_str]) simp
    then show "length (plain_text (?f x)) \<le> 44" using decimal [of x] by (simp add: snap_line_def)
  qed
  then have "length (plain_text ?ps) < 1024" using nl_length [of "''Snapshot Tree:''"] assms(3) by simp
  then have "length (render 1024 ?ps []) < 1024" by (rule report_fits)
  then show ?thesis using snapshots_tree_path [OF assms(1), of b bs' 1024] assms(2) Cons by auto
qed


lemma intents_report_fits:
  assumes "intent_table_active_count s \<le> 34"
  shows "length (kobserve_open_intents 1024 s) < 1024"
proof -
  let ?f = "\<lambda>i. if en_active (intent_table s ! i) then intent_line (intent_table s ! i) else []"
  have "length (plain_text (intent_line e)) \<le> 29" for e
  proof -
    let ?ty = "it_type (en_intent e)"
    have "length (c_str (if ?ty = INTENT_PRODUCE then cs ''PROD'' else if ?ty = INTENT_OBSERVE then cs ''OBSV''
               else if ?ty = INTENT_TRANSFORM then cs ''XFrm'' else cs ''CONS'')) \<le> 4"
      by (rule order_trans [OF length_c_str]) (simp add: cs_def)
    then show ?thesis using decimal [of "en_handle e"] decimal [of "of_int (en_pid e)"] by (simp add: intent_line_def Let_def)
  qed
  then have "length (plain_text (concat (map ?f [0..<MAX_INTENTS]))) \<le> 29 * length (filter (\<lambda>i. en_active (intent_table s ! i)) [0..<MAX_INTENTS])"
    by (rule plain_text_filtered)
  also have "\<dots> \<le> 29 * 34" using assms unfolding intent_table_active_count_def by (intro mult_le_mono2)
  finally have "length (plain_text (concat (map ?f [0..<MAX_INTENTS]))) \<le> 986" by simp
  then show ?thesis unfolding kobserve_open_intents_def
    by (intro list_report_fits [where ps = "concat (map ?f [0..<MAX_INTENTS])"]) (simp_all add: intent_list_active_def Let_def)
qed

lemma pipes_report_fits:
  assumes "typed_pipe_count s \<le> MAX_PIPES"
  shows "length (kobserve_pipes_active 1024 s) < 1024"
proof -
  let ?f = "\<lambda>i. if tp_active (typed_pipes s ! i) then typed_pipe_line i (typed_pipes s ! i) else []"
  have "length (plain_text (concat (map ?f [0..<typed_pipe_count s]))) \<le> length [0..<typed_pipe_count s] * 45"
    by (rule length_lines_le) (simp add: length_typed_pipe_line)
  then have "length (plain_text (concat (map ?f [0..<typed_pipe_count s]))) \<le> 720" using assms by simp
  then show ?thesis unfolding kobserve_pipes_active_def
    by (intro list_report_fits [where ps = "concat (map ?f [0..<typed_pipe_count s])"]) (simp_all add: pipe_typed_list_def)
qed

lemma fixed_reports_fit:
  "length (kobserve_sched_history 1024) < 1024" "length (kobserve_mem_pages 1024 s) < 1024" "length (kobserve_mem_heap 1024) < 1024"
  "length (kobserve_vfs_mounts 1024) < 1024" "length (kobserve_caps_grants 1024) < 1024" "length (kobserve_caps_revoked 1024) < 1024"
  "length (kobserve_replay_last 1024) < 1024"
proof -
  show "length (kobserve_mem_pages 1024 s) < 1024"
    using render_bound [of 1024 "[Txt (nl (cs ''Memory Page Info:''))]" "[]"]
    unfolding kobserve_mem_pages_def Let_def by (intro le_less_trans [OF render_bound]) simp
qed (unfold kobserve_sched_history_def kobserve_mem_heap_def kobserve_vfs_mounts_def kobserve_caps_grants_def kobserve_caps_revoked_def
  kobserve_replay_last_def, (rule le_less_trans [OF render_bound], simp)+)

lemma log_report_fits: "log_inv s \<Longrightarrow> length (kobserve_intr_log 1024 s) < 1024"
  unfolding kobserve_intr_log_def by (rule le_less_trans [OF render_bound]) simp

lemma stats_report_fits: "length (kobserve_intr_stats 1024 s) < 1024"
proof -
  have "length (c_str (nl (cs ''  IRQ 0 (PIT): active'') @ nl (cs ''  IRQ 1 (Keyboard): active'') @
             nl (cs ''  Exception handlers: 0-31 registered'') @ nl (cs ''  Syscall (int 0x80): active''))) \<le> 200"
    by (rule order_trans [OF length_c_str]) (simp add: nl_def cs_def)
  then show ?thesis unfolding kobserve_intr_stats_def
    using nl_length [of "''Interrupt Statistics:''"] lit_length [of "''  Total timer ticks: ''"] decimal [of "system_ticks s"]
    by (intro report_fits) simp
qed

text \<open>
  C30: \<^verbatim>\<open>kstat\<close> reads a report into 1024 bytes of its stack.  Every observer returns and its report fits,
  NUL included, as long as the store has at most 22 snapshots and at most 34 intents are
  open; beyond that the characters written without a check can leave the buffer.
\<close>

theorem kstat_reports_fit:
  assumes "reports_ok s" and "snap_path s (root_snap s) bs" and "length bs \<le> 22"
    and "intent_table_active_count s \<le> 34"
  shows "\<exists>w s'. observe f 1024 s = Some (w, s') \<and> length w < 1024"
proof -
  have ok: "disk_inv s" "log_inv s" "net_inv s" "typed_pipe_count s \<le> MAX_PIPES" using assms(1) by (simp_all add: reports_ok_def)
  have net: "length (kobserve_net_ifaces 1024 s) < 1024" "length (kobserve_net_conns 1024 s) < 1024" "length (kobserve_net_history 1024 s) < 1024"
    unfolding kobserve_net_ifaces_def kobserve_net_conns_def kobserve_net_history_def using net_reports_fit [OF ok(3)] by blast+
  show ?thesis
    using sched_tasks_fits [OF assms(1)] snapshots_tree_fits [OF ok(1) assms(2,3)] intents_report_fits [OF assms(4)]
      pipes_report_fits [OF ok(4)] fixed_reports_fit log_report_fits [OF ok(2)] stats_report_fits net
    by (cases f) (simp_all add: observe_def)
qed

text \<open>The line for the empty list is never written: the header already ends with a newline.\<close>

lemma none_line_dead:
  assumes "Suc (length h) < n" and "0 \<notin> set (cs h)" and "listing (n - Suc (length h)) = []"
  shows "list_report n (cs h) listing = cs h @ [10]"
proof -
  have c: "c_str (nl (cs h)) = cs h @ [10]" using assms(2) by (simp add: nl_def c_str_id)
  then have "render n [Txt (nl (cs h))] [] = cs h @ [10]"
    using render_fits [of "[]" "[Txt (nl (cs h))]" n] assms(1) by (simp add: cs_def)
  then show ?thesis using assms(2,3) by (simp add: list_report_def c_str_id Let_def cs_def)
qed

section \<open>Examples\<close>

definition bss_kobs :: kobs where
  "bss_kobs = kfb.extend bss_kfb \<lparr>kobserve_table = replicate KOBSERVE_MAX zero_observer, kobserve_count = 0\<rparr>"

lemma bss_kobs_ok: "obs_ok bss_kobs" "kobserve_count bss_kobs = 0"
  by (simp_all add: obs_ok_def bss_kobs_def kfb.defs zero_observer_def)

theorem kobserve_lookup_witness:
  "\<exists>s'. kobserve_query (cs ''/@net/history'') 64 (register_all net_observers bss_kobs) = Some (Some (net_history_list 64 s'), s')"
  using kobserve_lookup [OF bss_kobs_ok, of "cs ''/@net/history''" 64 net_observers]
  by (auto simp: net_observers_def registrations_def cs_def c_str_def observe_def kobserve_net_history_def)


lemma bss_kobs_disk:
  "ata_drv bss_kobs = 0xE0" "drive bss_kobs = (\<lambda>_ _. zeros 512)" "ata_status bss_kobs = (\<lambda>_. 0x58)" "ata_reads bss_kobs = 0"
  "block_cache bss_kobs = replicate HEXAFS_CACHE_SLOTS empty_slot" "sb_cache bss_kobs = zeros 512"
  using bss_kboot_disk by (simp_all add: bss_kobs_def bss_kfb_def kboot.defs kdev.defs kfb.defs)

lemmas bss_kobs_defs = bss_kobs_def bss_kfb_def bss_kboot_def bss_all_defs kreplay.defs kboot.defs kdev.defs kfb.defs

lemma bss_kobs_core: "tasks bss_kobs = replicate MAX_TASKS bss_task" "log_inv bss_kobs" "net_inv bss_kobs" "typed_pipe_count bss_kobs = 0"
proof -
  have "tasks bss_kpipe = replicate MAX_TASKS bss_task" "log_ring bss_kpipe = replicate LOG_RING_SIZE 0" "log_tail bss_kpipe = 0" "log_head bss_kpipe = 0"
    "typed_pipe_count bss_kpipe = 0"
    by (simp_all add: bss_kpipe_def bss_kproc_def bss_kheap_def bss_kmem_def kmem.defs kheap.defs kproc.defs)
  then show "tasks bss_kobs = replicate MAX_TASKS bss_task" "log_inv bss_kobs" "typed_pipe_count bss_kobs = 0"
    by (simp_all add: log_inv_def ring_ok_def bss_kobs_defs)
  show "net_inv bss_kobs"
    using bss_net_inv by (simp add: net_inv_def bss_kobs_defs)
qed

lemma bss_reports_ok: "reports_ok bss_kobs"
proof -
  have "disk_inv bss_kobs"
    by (auto simp: disk_inv_def drive_ok_def cache_ok_def blk_def bss_kobs_disk empty_slot_def ready_status_def intro: exI [of _ "_ :: nat"])
  then show ?thesis using bss_kobs_core by (simp add: reports_ok_def bss_task_def)
qed

theorem kstat_reports_fit_witness: "\<exists>w s'. observe Snapshots_tree 1024 bss_kobs = Some (w, s') \<and> length w < 1024"
proof -
  have "root_snap bss_kobs = 0" by (simp add: sb_root_snap_block_def bss_kobs_disk bytes_simps)
  moreover have "intent_table_active_count bss_kobs = 0"
    by (simp add: intent_table_active_count_def bss_kobs_defs zero_entry_def)
  ultimately show ?thesis using kstat_reports_fit [OF bss_reports_ok, of "[]" Snapshots_tree] by simp
qed

text \<open>A store with a snapshot in block 200.\<close>

definition store_with_snapshot :: kobs where
  "store_with_snapshot = bss_kobs\<lparr>sb_cache := put32 28 200 (zeros 512), alloc_bitmap := bm_set 200 (zeros 1024),
     drive := \<lambda>_ lba. if lba = 200 then new_snap (cs ''boot_ok'') 0 1 0 else zeros 512\<rparr>"

theorem snapshots_tree_lists_witness:
  "\<exists>s'. kobserve_snapshots_tree 64 store_with_snapshot = Some (cs ''Snapshot Tree:'' @ 10 # cs ''200 boot_ok'' @ [10], s')"
proof -
  let ?s = store_with_snapshot
  have n: "0 \<notin> set (cs ''boot_ok'')" "length (cs ''boot_ok'') < 32" by (simp_all add: cs_def)
  note sn = new_snap_fields [OF n, of 0 1 0]
  have b: "blk ?s 200 = new_snap (cs ''boot_ok'') 0 1 0" by (simp add: blk_def store_with_snapshot_def)
  have d: "disk_inv ?s"
    using sn(4) by (auto simp: disk_inv_def drive_ok_def cache_ok_def blk_def store_with_snapshot_def bss_kobs_disk empty_slot_def
      ready_status_def good_block_def intro: exI [of _ "_ :: nat"])
  have "used_lba 200 ?s"
    by (simp add: used_lba_def valid_lba_def disk_used_def store_with_snapshot_def bm_used_set)
  moreover have "root_snap ?s = 200" by (simp add: sb_root_snap_block_def store_with_snapshot_def bytes_simps)
  ultimately have p: "snap_path ?s (root_snap ?s) [200]" using sn(1,2) b by simp
  have i: "itoa 200 10 = cs ''200''" by code_simp
  have l: "plain_text (Txt (nl (cs ''Snapshot Tree:'')) # snap_line 200 (blk ?s 200)) = cs ''Snapshot Tree:'' @ 10 # cs ''200 boot_ok'' @ [10]"
    using sn(5) by (simp add: b snap_line_def nl_def i c_str_def cs_def)
  then have "render 64 (Txt (nl (cs ''Snapshot Tree:'')) # snap_line 200 (blk ?s 200)) [] = cs ''Snapshot Tree:'' @ 10 # cs ''200 boot_ok'' @ [10]"
    using render_fits [of "[]" "Txt (nl (cs ''Snapshot Tree:'')) # snap_line 200 (blk ?s 200)" 64] by (simp add: cs_def)
  then show ?thesis using snapshots_tree_lists [OF d p, of 64] by auto
qed

end
