(* ===== verification/Hexa_Input.thy ===== *)
theory Hexa_Input
  imports Hexa_Observe
begin

text \<open>
  The shell's input in \<^verbatim>\<open>hexa.c\<close>: \<^verbatim>\<open>get_char\<close> polls the serial port, the buffer of the keyboard interrupt and
  the keyboard port; \<^verbatim>\<open>get_line\<close> edits a line with a history; the loop of \<^verbatim>\<open>kernel_main\<close> keeps the history,
  splits the line into a command and its arguments and expands aliases.
  What the devices deliver is an argument: a list of rounds, one for each pass of the polling loop.  A wait
  for input that never comes has the result \<open>None\<close>.
\<close>

section \<open>State\<close>

abbreviation (input) HIST_MAX :: nat where "HIST_MAX \<equiv> 16"

record alias_entry =
  al_name :: bytes
  al_cmd :: bytes

record kshell = kobs +
  sh_shift :: bool
  hist_buf :: "bytes list"
  hist_idx :: nat
  hist_count :: nat
  hist_scroll :: int
  rseed :: u32
  hostname_str :: bytes
  alias_table :: "alias_entry list"
  alias_count :: nat

text \<open>
  One pass of the polling loop: the scan codes whose interrupts were handled before it, the bytes that reads
  of the serial port deliver in it (none if no byte is waiting), and what the keyboard port holds.
\<close>

record round =
  rd_irqs :: bytes
  rd_serial :: bytes
  rd_scan :: "u8 option"

section \<open>Characters\<close>

definition con_map :: bytes where
  "con_map = [0, 27] @ cs ''1234567890-='' @ [8, 9] @ cs ''qwertyuiop[]'' @ [10, 0] @ cs ''asdfghjkl;'' @ [39, 96, 0, 92] @
     cs ''zxcvbnm,./'' @ [0, 42, 0, 32] @ replicate 16 0 @ [45, 0, 0, 0, 43] @ replicate 49 0"

definition con_map_shift :: bytes where
  "con_map_shift = [0, 27] @ cs ''!@#$%^&*()_+'' @ [8, 9] @ cs ''QWERTYUIOP{}'' @ [10, 0] @ cs ''ASDFGHJKL:'' @ [34, 126, 0, 124] @
     cs ''ZXCVBNM<>?'' @ [0, 42, 0, 32] @ replicate 16 0 @ [45, 0, 0, 0, 43] @ replicate 49 0"

text \<open>A character and the special key: 1 is the upper, 2 the lower arrow; \<open>sp\<close> tells whether the caller asks for it.\<close>

definition serial_char :: "bool \<Rightarrow> bytes \<Rightarrow> u8 \<times> nat" where
  "serial_char sp rx =
     (let c = c_at rx 0;
          c = (if c = 13 then 10 else c);
          c = (if c = 127 then 8 else c)
      in if c = 27 \<and> c_at rx 1 = 91
         then if c_at rx 2 = 65 \<and> sp then (0, 1)
              else if c_at rx 2 = 66 \<and> sp then (0, 2)
              else (c, 0)
         else (c, 0))"

definition scan_key :: "bool \<Rightarrow> u8 \<Rightarrow> 'a kshell_scheme \<Rightarrow> (u8 \<times> nat) option \<times> 'a kshell_scheme" where
  "scan_key sp sc s =
     (if sc = 0x2A \<or> sc = 0x36 then (None, s\<lparr>sh_shift := True\<rparr>)
      else if sc = 0xAA \<or> sc = 0xB6 then (None, s\<lparr>sh_shift := False\<rparr>)
      else if sc = 0x48 \<and> sp then (Some (0, 1), s)
      else if sc = 0x50 \<and> sp then (Some (0, 2), s)
      else if sc AND 0x80 = 0 \<and> sc < 128
      then let c = (if sh_shift s then con_map_shift else con_map) ! unat sc
           in (if c \<noteq> 0 then Some (c, 0) else None, s)
      else (None, s))"

text \<open>One pass: a key, or none.\<close>

definition poll_round :: "bool \<Rightarrow> round \<Rightarrow> 'a kshell_scheme \<Rightarrow> (u8 \<times> nat) option \<times> 'a kshell_scheme" where
  "poll_round sp r s =
     (let s = fold kbd_irq (rd_irqs r) s in
      if rd_serial r \<noteq> [] then (Some (serial_char sp (rd_serial r)), s)
      else case kb_getchar s of (c, s) \<Rightarrow>
        if c > 0
        then (Some (if c = 0x80 \<and> sp then (0, 1) else if c = 0x81 \<and> sp then (0, 2) else (word_of_int c, 0)), s)
        else case rd_scan r of None \<Rightarrow> (None, s) | Some sc \<Rightarrow> scan_key sp sc s)"

fun get_char :: "bool \<Rightarrow> round list \<Rightarrow> 'a kshell_scheme \<Rightarrow> ((u8 \<times> nat) \<times> round list \<times> 'a kshell_scheme) option" where
  "get_char sp [] s = None"
| "get_char sp (r # rs) s =
     (case poll_round sp r s of
        (Some k, s) \<Rightarrow> Some (k, rs, s)
      | (None, s) \<Rightarrow> get_char sp rs s)"

lemma get_char_rounds: "get_char sp rs s = Some (k, rs', s') \<Longrightarrow> length rs' < length rs"
proof (induction sp rs s rule: get_char.induct)
  case (2 sp r rs s)
  obtain k1 s1 where "poll_round sp r s = (k1, s1)" by fastforce
  with 2 show ?case by (cases k1) fastforce+
qed simp

section \<open>Lines\<close>

text \<open>
  The line being edited: the caller's buffer and the position.  A store outside the buffer is the result
  \<open>Overrun\<close>.
\<close>

datatype 'a edit = Editing nat bytes 'a | Entered bytes 'a | Overrun

definition erase :: "nat \<Rightarrow> 'a kcon_scheme \<Rightarrow> 'a kcon_scheme" where
  "erase i s = ((\<lambda>s. put_char 8 (current_color s) s) ^^ i) s"

text \<open>A line of the history is copied into the buffer, as far as it fits, and terminated at its full length.\<close>

definition recall :: "nat \<Rightarrow> bytes \<Rightarrow> bytes \<Rightarrow> 'a kcon_scheme \<Rightarrow> 'a kcon_scheme edit" where
  "recall max_len buf line s =
     (let w = c_str line; n = min (length w) (max_len - 1);
          s = fold (\<lambda>c s. put_char c (current_color s) s) (take n w) s
      in if length w < max_len then Editing (length w) (put_bytes 0 (take n w @ [0]) buf) s else Overrun)"

definition hist_line :: "int \<Rightarrow> 'a kshell_scheme \<Rightarrow> bytes" where
  "hist_line n s = hist_buf s ! nat ((int (hist_idx s) - n - 1 + int HIST_MAX) mod int HIST_MAX)"

definition line_step :: "nat \<Rightarrow> nat \<Rightarrow> bytes \<Rightarrow> u8 \<times> nat \<Rightarrow> 'a kshell_scheme \<Rightarrow> 'a kshell_scheme edit" where
  "line_step max_len i buf key s =
     (case key of (c, special) \<Rightarrow>
        if special = 1 then
          if hist_count s = 0 \<or> hist_scroll s \<ge> int (hist_count s) - 1 then Editing i buf s
          else let s = s\<lparr>hist_scroll := hist_scroll s + 1\<rparr>
               in recall max_len buf (hist_line (hist_scroll s) s) (erase i s)
        else if special = 2 then
          let s = erase i s
          in if hist_scroll s > 0
             then let s = s\<lparr>hist_scroll := hist_scroll s - 1\<rparr> in recall max_len buf (hist_line (hist_scroll s) s) s
             else Editing 0 (buf[0 := 0]) (s\<lparr>hist_scroll := -1\<rparr>)
        else if c = 10 then
          let s = print_string [10] s
          in if i < max_len then Entered (buf[i := 0]) (if i > 0 then s\<lparr>hist_scroll := -1\<rparr> else s) else Overrun
        else if c = 8 then
          if i > 0 then Editing (i - 1) buf (put_char 8 (current_color s) s) else Editing i buf s
        else if i < max_len - 1 then Editing (i + 1) (buf[i := c]) (put_char c (current_color s) s)
        else Editing i buf s)"

text \<open>The result: the line entered, or \<open>None\<close> if a store left the buffer.\<close>

function get_line_loop :: "nat \<Rightarrow> nat \<Rightarrow> bytes \<Rightarrow> round list \<Rightarrow> 'a kshell_scheme \<Rightarrow> (bytes option \<times> round list \<times> 'a kshell_scheme) option" where
  "get_line_loop max_len i buf rs s =
     (case get_char True rs s of
        None \<Rightarrow> None
      | Some (key, rs, s) \<Rightarrow>
          (case line_step max_len i buf key s of
             Editing i buf s \<Rightarrow> get_line_loop max_len i buf rs s
           | Entered buf s \<Rightarrow> Some (Some buf, rs, s)
           | Overrun \<Rightarrow> Some (None, rs, s)))"
  by pat_completeness auto
termination
  by (relation "measure (\<lambda>(max_len, i, buf, rs, s). length rs)") (auto dest: get_char_rounds)

declare get_line_loop.simps [simp del]

definition get_line :: "bytes \<Rightarrow> round list \<Rightarrow> 'a kshell_scheme \<Rightarrow> (bytes option \<times> round list \<times> 'a kshell_scheme) option" where
  "get_line buf rs s = get_line_loop (length buf) 0 buf rs s"

section \<open>History\<close>

definition hist_push :: "bytes \<Rightarrow> 'a kshell_scheme \<Rightarrow> 'a kshell_scheme" where
  "hist_push line s =
     s\<lparr>hist_buf := (hist_buf s)[hist_idx s := strcpy (hist_buf s ! hist_idx s) line],
       hist_idx := (hist_idx s + 1) mod HIST_MAX,
       hist_count := (if hist_count s < HIST_MAX then hist_count s + 1 else hist_count s)\<rparr>"

definition hist_start :: "'a kshell_scheme \<Rightarrow> nat" where
  "hist_start s = (if hist_count s < HIST_MAX then 0 else hist_idx s)"

definition cmd_hist :: "'a kshell_scheme \<Rightarrow> 'a kshell_scheme" where
  "cmd_hist s =
     fold (\<lambda>i s. print_string [10] (print_string (hist_buf s ! ((hist_start s + i) mod HIST_MAX))
             (print_string (cs ''  '') (print_string (itoa (of_nat (i + 1)) 10) s))))
       [0..<if hist_count s < HIST_MAX then hist_count s else HIST_MAX] s"

section \<open>Words\<close>

text \<open>The command: at most 31 characters up to a blank; the arguments: at most 95 characters behind the blanks.\<close>

definition split_line :: "bytes \<Rightarrow> bytes \<times> bytes" where
  "split_line line = split_args 31 95 line"

definition expand_alias :: "bytes \<times> bytes \<Rightarrow> 'a kshell_scheme \<Rightarrow> bytes \<times> bytes" where
  "expand_alias ca s =
     (case ca of (cmd, args) \<Rightarrow>
        case find (\<lambda>i. strcmp cmd (al_name (alias_table s ! i)) = 0) [0..<alias_count s] of
          None \<Rightarrow> (cmd, args)
        | Some i \<Rightarrow>
            (let expanded = c_str (al_cmd (alias_table s ! i)) @ (if args \<noteq> [] then 32 # args else [])
             in split_line expanded))"

definition do_tick :: "'a kusr_scheme \<Rightarrow> 'a kusr_scheme" where
  "do_tick s = s\<lparr>ticks := ticks s + 1\<rparr>"

definition shell_prompt :: "'a kshell_scheme \<Rightarrow> 'a kshell_scheme" where
  "shell_prompt s =
     (let u = u_table s ! u_cur s;
          s = print_string (hostname_str s) (print_string (cs ''@'') (print_color (us_name u) 0x0B s))
      in if us_is_root u \<noteq> 0 then print_color (cs ''# '') 0x0C s else print_color (cs ''$ '') 0x0A s)"

text \<open>
  One round of the shell; \<open>execute_cmd\<close> is the dispatch of commands, whose result is whether the command is
  known.  An overrun of the buffer has no result.
\<close>

definition shell_round ::
    "(bytes \<Rightarrow> bytes \<Rightarrow> 'a kshell_scheme \<Rightarrow> (bool \<times> 'a kshell_scheme) option) \<Rightarrow> bytes \<Rightarrow> round list \<Rightarrow> 'a kshell_scheme \<Rightarrow>
      (round list \<times> 'a kshell_scheme) option" where
  "shell_round execute_cmd buf rs s =
     (case get_line buf rs (shell_prompt (do_tick s)) of
        Some (Some line, rs, s) \<Rightarrow>
          (let s = (if c_at line 0 \<noteq> 0 then hist_push line s else s);
               ca = split_line line
           in if fst ca = [] then Some (rs, s)
              else case expand_alias ca s of (cmd, args) \<Rightarrow>
                (case execute_cmd cmd args s of
                   None \<Rightarrow> None
                 | Some (True, s) \<Rightarrow> Some (rs, s)
                 | Some (False, s) \<Rightarrow> Some (rs, print_string [10] (print_color cmd 0x0C (print_color (cs ''Unknown: '') 0x0C s)))))
      | _ \<Rightarrow> None)"

text \<open>The pseudo-random numbers of the games.\<close>

definition rand :: "'a kshell_scheme \<Rightarrow> u32 \<times> 'a kshell_scheme" where
  "rand s = (let seed = rseed s * 1103515245 + 12345 in ((seed div 65536) mod 32768, s\<lparr>rseed := seed\<rparr>))"

section \<open>Editing a line\<close>

text \<open>What a key does to the text of the line.\<close>

definition type_key :: "nat \<Rightarrow> u8 \<Rightarrow> bytes \<Rightarrow> bytes" where
  "type_key n c w = (if c = 8 then butlast w else if length w < n - 1 then w @ [c] else w)"

definition serial_round :: "u8 \<Rightarrow> round" where
  "serial_round c = \<lparr>rd_irqs = [], rd_serial = [c], rd_scan = None\<rparr>"

definition serial_key :: "u8 \<Rightarrow> u8" where
  "serial_key c = (if c = 13 then 10 else if c = 127 then 8 else c)"

lemma get_char_serial: "get_char sp (serial_round c # rs) s = Some ((serial_key c, 0), rs, s)"
  by (simp add: poll_round_def serial_round_def serial_char_def serial_key_def c_at_def Let_def)

lemma type_key_length: "length w < n \<Longrightarrow> length (type_key n c w) < n"
  by (auto simp: type_key_def)

lemma line_step_typed:
  assumes "take i buf = w" and "i = length w" and "i < length buf" and "serial_key c \<noteq> 10"
  shows "\<exists>buf' s'. line_step (length buf) i buf (serial_key c, 0) s = Editing (length (type_key (length buf) (serial_key c) w)) buf' s' \<and>
    length buf' = length buf \<and> take (length (type_key (length buf) (serial_key c) w)) buf' = type_key (length buf) (serial_key c) w"
proof (cases "serial_key c = 8")
  case True
  have "take (length w - 1) buf = take (length w - 1) (take i buf)" using assms(2) by (simp add: min_def)
  then have "take (length w - 1) buf = butlast w" using assms(1) by (simp add: butlast_conv_take)
  then show ?thesis using True assms(2,3) by (auto simp: line_step_def type_key_def)
next
  case False
  then show ?thesis using assms by (auto simp: line_step_def type_key_def take_Suc_conv_app_nth)
qed

lemma get_line_loop_typed:
  "take i buf = w \<Longrightarrow> i = length w \<Longrightarrow> i < length buf \<Longrightarrow> \<forall>c \<in> set keys. serial_key c \<noteq> 10 \<Longrightarrow>
    \<exists>buf' s'. get_line_loop (length buf) i buf (map serial_round (keys @ [13]) @ rs) s = Some (Some buf', rs, s') \<and>
      length buf' = length buf \<and> (let w' = fold (type_key (length buf)) (map serial_key keys) w in
        length w' < length buf \<and> take (Suc (length w')) buf' = w' @ [0])"
proof (induction keys arbitrary: i buf w s)
  case Nil
  have "take (Suc i) (buf[i := 0]) = w @ [0]" using Nil by (simp add: take_Suc_conv_app_nth)
  then show ?case using Nil get_char_serial [of True 13 rs s]
    by (simp add: get_line_loop.simps [of "length buf"] serial_key_def line_step_def Let_def del: get_char.simps)
next
  case (Cons c keys)
  let ?n = "length buf" and ?w = "type_key (length buf) (serial_key c) w"
  obtain buf' s' where st: "line_step ?n i buf (serial_key c, 0) s = Editing (length ?w) buf' s'" "length buf' = ?n"
    "take (length ?w) buf' = ?w"
    using line_step_typed [OF Cons.prems(1-3), of c s] Cons.prems(4) by auto
  have "length ?w < length buf'" using type_key_length [of w ?n] Cons.prems(2,3) st(2) by simp
  from Cons.IH [OF st(3) refl this, of s'] Cons.prems(4) st(2)
  show ?case by (simp add: get_line_loop.simps [of _ i] get_char_serial st(1) del: get_char.simps)
qed

text \<open>
  C31: a line typed on the serial port is read as it is edited.  Whatever characters come before the carriage
  return, the buffer holds the text that results from them (a character is appended while there is room, the
  delete key removes the last one) with its NUL, and the rest of the input is left.
\<close>

theorem get_line_edits:
  assumes "0 < length buf" and "\<forall>c \<in> set keys. c \<noteq> 10 \<and> c \<noteq> 13"
  shows "\<exists>buf' s'. get_line buf (map serial_round (keys @ [13]) @ rs) s = Some (Some buf', rs, s') \<and>
    (let w = fold (type_key (length buf)) (map serial_key keys) [] in
      length w < length buf \<and> take (Suc (length w)) buf' = w @ [0])"
proof -
  have "\<forall>c \<in> set keys. serial_key c \<noteq> 10" using assms(2) by (auto simp: serial_key_def)
  from get_line_loop_typed [of 0 buf "[]" keys rs s, OF _ _ _ this] assms(1) show ?thesis
    by (auto simp: get_line_def Let_def)
qed

section \<open>The history\<close>

definition hist_ok :: "'a kshell_scheme \<Rightarrow> bool" where
  "hist_ok s \<longleftrightarrow> length (hist_buf s) = HIST_MAX \<and> hist_idx s < HIST_MAX \<and> hist_count s \<le> HIST_MAX \<and>
     (hist_count s < HIST_MAX \<longrightarrow> hist_idx s = hist_count s) \<and>
     (\<forall>l \<in> set (hist_buf s). length l = 128 \<and> length (c_str l) < 128)"

definition hist_store :: "bytes \<Rightarrow> 'a kshell_scheme \<Rightarrow> 'a kshell_scheme" where
  "hist_store arr s =
     s\<lparr>hist_buf := (hist_buf s)[hist_idx s := arr], hist_idx := (hist_idx s + 1) mod HIST_MAX,
       hist_count := (if hist_count s < HIST_MAX then hist_count s + 1 else hist_count s)\<rparr>"

definition hist_lines :: "'a kshell_scheme \<Rightarrow> bytes list" where
  "hist_lines s = map (\<lambda>i. hist_buf s ! ((hist_start s + i) mod HIST_MAX)) [0..<hist_count s]"

definition hist_ring :: "'a kshell_scheme \<Rightarrow> bool" where
  "hist_ring s \<longleftrightarrow> length (hist_buf s) = HIST_MAX \<and> hist_idx s < HIST_MAX \<and> hist_count s \<le> HIST_MAX \<and>
     (hist_count s < HIST_MAX \<longrightarrow> hist_idx s = hist_count s)"

lemma hist_store_ring: "hist_ring s \<Longrightarrow> hist_ring (hist_store arr s)"
  by (auto simp: hist_ring_def hist_store_def)

lemma hist_store_lines:
  assumes "hist_ring s"
  shows "hist_lines (hist_store arr s) = (if length (hist_lines s) < HIST_MAX then hist_lines s @ [arr] else tl (hist_lines s) @ [arr])"
proof (cases "hist_count s < HIST_MAX")
  case True
  then have i: "hist_idx s = hist_count s" using assms by (simp add: hist_ring_def)
  have "hist_lines (hist_store arr s) = map (\<lambda>i. (hist_buf s)[hist_count s := arr] ! i) [0..<Suc (hist_count s)]"
  proof (cases "Suc (hist_count s) < HIST_MAX")
    case True
    then show ?thesis by (auto simp: hist_lines_def hist_store_def hist_start_def i)
  next
    case False
    with \<open>hist_count s < HIST_MAX\<close> have "hist_count s = 15" by simp
    then show ?thesis using i by (auto simp: hist_lines_def hist_store_def hist_start_def)
  qed
  then show ?thesis using True i assms by (auto simp: hist_lines_def hist_start_def hist_ring_def)
next
  case False
  then have c: "hist_count s = HIST_MAX" using assms by (simp add: hist_ring_def)
  let ?k = "hist_idx s"
  have k: "?k < HIST_MAX" "length (hist_buf s) = HIST_MAX" using assms by (simp_all add: hist_ring_def)
  have *: "(hist_buf s)[?k := arr] ! (((?k + 1) mod HIST_MAX + i) mod HIST_MAX) = (if i = 15 then arr else hist_buf s ! ((?k + Suc i) mod HIST_MAX))"
    if "i < HIST_MAX" for i
  proof -
    have m: "((?k + 1) mod HIST_MAX + i) mod HIST_MAX = (?k + Suc i) mod HIST_MAX" by (simp add: mod_simps)
    have "(?k + Suc i) mod HIST_MAX = (if ?k + Suc i < HIST_MAX then ?k + Suc i else ?k + Suc i - HIST_MAX)"
      using that k(1) by (simp add: mod_if)
    then have "(?k + Suc i) mod HIST_MAX = ?k \<longleftrightarrow> i = 15" using that by (auto split: if_splits)
    then show ?thesis unfolding m using k by (auto simp: nth_list_update)
  qed
  let ?g = "\<lambda>i. hist_buf s ! ((?k + Suc i) mod HIST_MAX)"
  have u: "[0..<HIST_MAX] = [0..<15] @ [15]" "tl [0..<HIST_MAX] = map Suc [0..<15]"
    using upt_Suc_append [of 0 15] upt_Suc_append [of 1 15] by (simp_all add: map_Suc_upt tl_upt)
  have "hist_lines (hist_store arr s) = map (\<lambda>i. if i = 15 then arr else ?g i) [0..<HIST_MAX]"
    using c * by (auto simp: hist_lines_def hist_store_def hist_start_def)
  also have "\<dots> = map ?g [0..<15] @ [arr]" unfolding u(1) by simp
  also have "map ?g [0..<15] = tl (hist_lines s)"
    unfolding hist_lines_def hist_start_def map_tl [symmetric] using c by (simp only: u(2) map_map o_def) simp
  finally show ?thesis using c by (simp add: hist_lines_def)
qed

interpretation histq: lossy_fifo hist_ring hist_lines "HIST_MAX" hist_store
  by unfold_locales (fact hist_store_ring hist_store_lines | simp add: hist_lines_def hist_ring_def)+

lemma hist_ok_ring: "hist_ok s \<Longrightarrow> hist_ring s"
  by (simp add: hist_ok_def hist_ring_def)

text \<open>A line that fits is pushed as an array of its own.\<close>

lemma strcpy_fits:
  assumes "length (c_str src) < length dest"
  shows "length (strcpy dest src) = length dest" and "c_str (strcpy dest src) = c_str src"
proof -
  have e: "strcpy dest src = put_bytes 0 (c_str src @ [0]) dest" using strcpy_at_eq [of 0 src dest] assms by (simp add: strcpy_def)
  then show "length (strcpy dest src) = length dest" using assms by (simp add: put_bytes_def)
  show "c_str (strcpy dest src) = c_str src" unfolding e by (simp add: put_bytes_def c_str_append_nul)
qed

lemma hist_push_store:
  assumes "hist_ok s" and "length (c_str line) < 128"
  obtains arr where "hist_push line s = hist_store arr s" and "c_str arr = c_str line" and "hist_ok (hist_push line s)"
proof -
  let ?arr = "strcpy (hist_buf s ! hist_idx s) line"
  have "hist_buf s ! hist_idx s \<in> set (hist_buf s)" using assms(1) by (simp add: hist_ok_def)
  then have l: "length (hist_buf s ! hist_idx s) = 128" using assms(1) unfolding hist_ok_def by blast
  note f = strcpy_fits [of line "hist_buf s ! hist_idx s", unfolded l, OF assms(2)]
  have e: "hist_push line s = hist_store ?arr s" by (simp add: hist_push_def hist_store_def)
  have "set ((hist_buf s)[hist_idx s := ?arr]) \<subseteq> insert ?arr (set (hist_buf s))" by (rule set_update_subset_insert)
  then have "\<forall>l \<in> set ((hist_buf s)[hist_idx s := ?arr]). length l = 128 \<and> length (c_str l) < 128"
    using f assms by (auto simp: hist_ok_def)
  moreover have "hist_ring (hist_store ?arr s)" using hist_store_ring [OF hist_ok_ring [OF assms(1)]] .
  ultimately have "hist_ok (hist_push line s)" unfolding e by (simp add: hist_ok_def hist_ring_def hist_store_def)
  then show thesis using that e f(2) by blast
qed

lemma fold_hist_push:
  "hist_ok s \<Longrightarrow> \<forall>l \<in> set ls. length (c_str l) < 128 \<Longrightarrow>
    \<exists>arrs. fold hist_push ls s = fold hist_store arrs s \<and> map c_str arrs = map c_str ls \<and> hist_ok (fold hist_push ls s)"
proof (induction ls arbitrary: s)
  case (Cons l ls)
  obtain arr where a: "hist_push l s = hist_store arr s" "c_str arr = c_str l" "hist_ok (hist_push l s)"
    using hist_push_store [OF Cons.prems(1)] Cons.prems(2) by auto
  obtain arrs where "fold hist_push ls (hist_push l s) = fold hist_store arrs (hist_push l s)" "map c_str arrs = map c_str ls"
    "hist_ok (fold hist_push ls (hist_push l s))"
    using Cons.IH [OF a(3)] Cons.prems(2) by auto
  then show ?case using a by (intro exI [of _ "arr # arrs"]) simp
qed auto

text \<open>The line that the upper arrow shows after \<open>n\<close> others is the one entered \<open>n\<close> lines before the last.\<close>

lemma hist_line_rev:
  assumes "hist_ring s" and "n < hist_count s"
  shows "hist_line (int n) s = rev (hist_lines s) ! n"
proof -
  have k: "hist_idx s < HIST_MAX" "hist_count s \<le> HIST_MAX" using assms(1) by (simp_all add: hist_ring_def)
  have "rev (hist_lines s) ! n = hist_buf s ! ((hist_start s + (hist_count s - Suc n)) mod HIST_MAX)"
    using assms(2) by (simp add: rev_nth hist_lines_def)
  moreover have "nat ((int (hist_idx s) - int n - 1 + int HIST_MAX) mod int HIST_MAX) = (hist_start s + (hist_count s - Suc n)) mod HIST_MAX"
  proof (cases "hist_count s < HIST_MAX")
    case True
    then have "hist_idx s = hist_count s" using assms(1) by (simp add: hist_ring_def)
    then have "int (hist_idx s) - int n - 1 + int HIST_MAX = int (hist_count s - Suc n) + int HIST_MAX" using assms(2) by simp
    then show ?thesis using True by (simp only: mod_add_self2 zmod_int [symmetric] nat_int hist_start_def) simp
  next
    case False
    then have c: "hist_count s = HIST_MAX" using k(2) by simp
    then have "int (hist_idx s) - int n - 1 + int HIST_MAX = int (hist_idx s + (hist_count s - Suc n))" using assms(2) by simp
    then show ?thesis using c by (simp only: zmod_int [symmetric] nat_int hist_start_def) simp
  qed
  ultimately show ?thesis by (simp add: hist_line_def)
qed

text \<open>
  C32: the history keeps the last 16 lines.  After any lines of less than 128 characters were entered into an
  empty history, it holds the last 16 of them in order, and the arrow key recalls them newest first.
\<close>

theorem history_recalls:
  assumes "hist_ok s" and "hist_count s = 0" and "\<forall>l \<in> set ls. length (c_str l) < 128" and "n < min HIST_MAX (length ls)"
  shows "map c_str (hist_lines (fold hist_push ls s)) = map c_str (drop (length ls - HIST_MAX) ls) \<and>
    c_str (hist_line (int n) (fold hist_push ls s)) = c_str (rev ls ! n)"
proof -
  let ?s = "fold hist_push ls s"
  obtain arrs where a: "?s = fold hist_store arrs s" "map c_str arrs = map c_str ls" "hist_ok ?s"
    using fold_hist_push [OF assms(1,3)] by blast
  have len: "length arrs = length ls" using a(2) map_eq_imp_length_eq by blast
  have "hist_lines s = []" using assms(2) by (simp add: hist_lines_def)
  then have h: "hist_lines ?s = drop (length ls - HIST_MAX) arrs"
    using histq.fold_push_items [OF hist_ok_ring [OF assms(1)], of arrs] a(1) len by simp
  then have m: "map c_str (hist_lines ?s) = map c_str (drop (length ls - HIST_MAX) ls)"
    using a(2) by (simp add: drop_map [symmetric])
  have c: "hist_count ?s = length (hist_lines ?s)" by (simp add: hist_lines_def)
  then have n: "n < hist_count ?s" using h len assms(4) by auto
  have "hist_line (int n) ?s = rev (hist_lines ?s) ! n" using hist_line_rev [OF hist_ok_ring [OF a(3)] n] .
  then have "c_str (hist_line (int n) ?s) = rev (map c_str (hist_lines ?s)) ! n"
    using n c by (simp add: rev_map)
  also have "\<dots> = c_str (rev (drop (length ls - HIST_MAX) ls) ! n)"
    unfolding m using n c h len by (simp add: rev_map)
  also have "rev (drop (length ls - HIST_MAX) ls) ! n = rev ls ! n"
    unfolding rev_drop using assms(4) by (intro nth_take) linarith
  finally show ?thesis using m by simp
qed

section \<open>The line stays in its buffer\<close>

lemma scan_key_hist: "scan_key sp sc s = (k, s') \<Longrightarrow> hist_buf s' = hist_buf s \<and> hist_idx s' = hist_idx s \<and> hist_count s' = hist_count s"
  by (auto simp: scan_key_def Let_def split: if_splits)

lemma kbd_irq_hist [simp]:
  "hist_buf (kbd_irq sc s) = hist_buf s" "hist_idx (kbd_irq sc s) = hist_idx s" "hist_count (kbd_irq sc s) = hist_count s"
  by (simp_all add: kbd_irq_def kb_put_def Let_def)

lemma fold_kbd_irq_hist:
  "hist_buf (fold kbd_irq xs s) = hist_buf s \<and> hist_idx (fold kbd_irq xs s) = hist_idx s \<and> hist_count (fold kbd_irq xs s) = hist_count s"
  by (induction xs arbitrary: s) simp_all

lemma kb_getchar_hist: "kb_getchar s = (c, s') \<Longrightarrow> hist_buf s' = hist_buf s \<and> hist_idx s' = hist_idx s \<and> hist_count s' = hist_count s"
  by (auto simp: kb_getchar_def kb_get_def split: if_splits)

lemma poll_round_hist: "poll_round sp r s = (k, s') \<Longrightarrow> hist_buf s' = hist_buf s \<and> hist_idx s' = hist_idx s \<and> hist_count s' = hist_count s"
  using fold_kbd_irq_hist [of "rd_irqs r" s]
  by (auto simp: poll_round_def Let_def split: if_splits prod.splits option.splits dest!: scan_key_hist kb_getchar_hist)

lemma get_char_hist:
  "get_char sp rs s = Some (k, rs', s') \<Longrightarrow> hist_buf s' = hist_buf s \<and> hist_idx s' = hist_idx s \<and> hist_count s' = hist_count s"
proof (induction sp rs s rule: get_char.induct)
  case (2 sp r rs s)
  obtain k1 s1 where p: "poll_round sp r s = (k1, s1)" by fastforce
  show ?case
  proof (cases k1)
    case None
    then show ?thesis using 2 p poll_round_hist [OF p] by auto
  next
    case (Some k')
    then show ?thesis using 2 p poll_round_hist [OF p] by auto
  qed
qed simp

lemma con_frame_fold_put: "con_frame s (fold (\<lambda>c s. put_char c (current_color s) s) xs s)"
proof (induction xs arbitrary: s)
  case (Cons x xs)
  show ?case using con_frame_trans [OF con_frame_put_char Cons.IH] by simp
qed (simp add: con_frame_refl)

lemma con_frame_erase: "con_frame s (erase i s)"
  unfolding erase_def by (induction i) (auto simp: con_frame_refl intro: con_frame_trans con_frame_put_char)

lemma con_frame_hist:
  fixes s :: "'a kshell_scheme"
  assumes "con_frame s s'"
  shows "hist_buf s' = hist_buf s" "hist_idx s' = hist_idx s" "hist_count s' = hist_count s" "hist_scroll s' = hist_scroll s"
  using assms unfolding con_frame_def by auto

lemma hist_ok_cong: "hist_buf s' = hist_buf s \<Longrightarrow> hist_idx s' = hist_idx s \<Longrightarrow> hist_count s' = hist_count s \<Longrightarrow> hist_ok s' = hist_ok s"
  by (simp add: hist_ok_def)

lemma hist_line_length: "hist_ok s \<Longrightarrow> length (c_str (hist_line n s)) < 128"
proof -
  assume ok: "hist_ok s"
  have "nat ((int (hist_idx s) - n - 1 + int HIST_MAX) mod int HIST_MAX) < HIST_MAX" by simp
  then have "hist_line n s \<in> set (hist_buf s)" using ok unfolding hist_line_def hist_ok_def by simp
  then show ?thesis using ok unfolding hist_ok_def by blast
qed

text \<open>A step in a buffer that is as long as the lines of the history stays in the buffer.\<close>

definition in_line :: "nat \<Rightarrow> 'a kshell_scheme edit \<Rightarrow> bool" where
  "in_line n e \<longleftrightarrow> (case e of Editing i b s \<Rightarrow> i < n \<and> length b = n \<and> hist_ok s | Entered b s \<Rightarrow> length b = n \<and> length (c_str b) < n \<and> hist_ok s
     | Overrun \<Rightarrow> False)"

lemma recall_in_line:
  assumes "hist_ok s" and "length (c_str l) < 128" and "length b = 128"
  shows "in_line 128 (recall 128 b l s)"
proof -
  have "hist_ok (fold (\<lambda>c s. put_char c (current_color s) s) xs s)" for xs
    using con_frame_hist [OF con_frame_fold_put [of s xs]] assms(1) hist_ok_cong by blast
  then show ?thesis using assms(2,3) by (auto simp: recall_def in_line_def Let_def put_bytes_def min_def)
qed

lemma c_str_shorter: "i < length b \<Longrightarrow> b ! i = 0 \<Longrightarrow> length (c_str b) < length b"
proof -
  assume "i < length b" "b ! i = 0"
  then have "c_str b \<noteq> b" by (metis c_str_no_nul nth_mem)
  then show ?thesis using takeWhile_dropWhile_id [of "\<lambda>x. x \<noteq> 0" b] length_c_str [of b] unfolding c_str_def
    by (metis append_self_conv le_neq_implies_less length_append length_0_conv add_cancel_right_right)
qed

lemma hist_ok_scroll [simp]: "hist_ok (t\<lparr>hist_scroll := x\<rparr>) = hist_ok t"
  by (simp add: hist_ok_def)

lemma line_step_in_line:
  assumes "hist_ok s" and "i < 128" and "length b = 128"
  shows "in_line 128 (line_step 128 i b key s)"
proof -
  obtain c sp where k: "key = (c, sp)" by fastforce
  have er: "hist_ok (erase i s)" "hist_line n (erase i s) = hist_line n s" "hist_scroll (erase i s) = hist_scroll s" for n
    using con_frame_hist [OF con_frame_erase [of s i]] assms(1) hist_ok_cong [of "erase i s" s] by (simp_all add: hist_line_def)
  have pt: "hist_ok (put_char c (current_color s) s)" "hist_ok (put_char 8 (current_color s) s)" "hist_ok (print_string [10] s)"
    using con_frame_hist [OF con_frame_put_char] con_frame_hist [OF con_frame_print_string] assms(1) hist_ok_cong by metis+
  have z: "length (c_str (b[i := 0])) < 128" using c_str_shorter [of i "b[i := 0]"] assms by simp
  consider "sp = 1" | "sp = 2" | "sp \<noteq> 1" "sp \<noteq> 2" by blast
  then show ?thesis
  proof cases
    case 1
    let ?s = "s\<lparr>hist_scroll := hist_scroll s + 1\<rparr>"
    have "hist_ok (erase i ?s)" using con_frame_hist [OF con_frame_erase [of ?s i]] assms(1) hist_ok_cong [of "erase i ?s" ?s] by simp
    then have "in_line 128 (recall 128 b (hist_line (hist_scroll ?s) ?s) (erase i ?s))"
      using assms(1,3) by (intro recall_in_line hist_line_length) simp_all
    then show ?thesis using 1 k assms by (simp add: line_step_def Let_def in_line_def)
  next
    case 2
    let ?s = "(erase i s)\<lparr>hist_scroll := hist_scroll (erase i s) - 1\<rparr>"
    have "in_line 128 (recall 128 b (hist_line (hist_scroll ?s) ?s) ?s)"
      using er(1) assms(3) by (intro recall_in_line hist_line_length) simp_all
    then show ?thesis using 2 k assms er(1) by (simp add: line_step_def Let_def in_line_def)
  next
    case 3
    then show ?thesis using k assms pt z by (auto simp: line_step_def Let_def in_line_def)
  qed
qed

lemma get_line_loop_safe:
  "hist_ok s \<Longrightarrow> i < 128 \<Longrightarrow> length b = 128 \<Longrightarrow> get_line_loop 128 i b rs s = Some (r, rs', s') \<Longrightarrow>
    \<exists>line. r = Some line \<and> length line = 128 \<and> length (c_str line) < 128 \<and> hist_ok s'"
proof (induction "length rs" arbitrary: i b rs s rule: less_induct)
  case less
  obtain key rs1 s1 where g: "get_char True rs s = Some (key, rs1, s1)"
    using less.prems(4) by (auto simp: get_line_loop.simps [of _ i] split: option.splits)
  have ok: "hist_ok s1" using get_char_hist [OF g] less.prems(1) hist_ok_cong [of s1 s] by simp
  have st: "in_line 128 (line_step 128 i b key s1)" using line_step_in_line [OF ok less.prems(2,3)] .
  show ?case
  proof (cases "line_step 128 i b key s1")
    case (Editing i' b' s2)
    then show ?thesis using less.hyps [OF get_char_rounds [OF g], of s2 i' b'] less.prems(4) g st
      by (simp add: get_line_loop.simps [of _ i] in_line_def)
  next
    case (Entered b' s2)
    then show ?thesis using less.prems(4) g st by (auto simp: get_line_loop.simps [of _ i] in_line_def)
  next
    case Overrun
    then show ?thesis using st by (simp add: in_line_def)
  qed
qed

text \<open>
  C33: the shell's line never leaves its 128 bytes.  Whatever keys arrive, recalled lines included, the line
  that \<^verbatim>\<open>get_line\<close> returns to the shell is terminated within the buffer, and entering it keeps the history
  well formed, so the next line is safe as well.
\<close>

theorem shell_line_safe:
  assumes "hist_ok s" and "length buf = 128" and "get_line buf rs s = Some (r, rs', s')"
  shows "\<exists>line. r = Some line \<and> length (c_str line) < 128 \<and> hist_ok s' \<and> hist_ok (hist_push line s')"
proof -
  obtain line where l: "r = Some line" "length (c_str line) < 128" "hist_ok s'"
    using get_line_loop_safe [OF assms(1) _ assms(2), of 0 rs r rs' s'] assms(2,3) by (auto simp: get_line_def)
  moreover have "hist_ok (hist_push line s')" using hist_push_store [OF l(3,2)] by blast
  ultimately show ?thesis by blast
qed

text \<open>The 32-byte buffers for names and passwords are not: the recalled line is terminated behind them.\<close>

lemma recall_overruns:
  assumes "0 < hist_count s" and "hist_scroll s = -1" and "32 \<le> length (c_str (hist_line 0 s))"
  shows "line_step 32 0 buf (0, 1) s = Overrun"
  using assms by (simp add: line_step_def Let_def recall_def hist_line_def)

section \<open>Splitting a line\<close>

lemma takeWhile_blank: "\<forall>c \<in> set cmd. c \<noteq> 32 \<Longrightarrow> takeWhile (\<lambda>c. c \<noteq> 32) (cmd @ replicate k 32 @ xs) =
    (if k = 0 then cmd @ takeWhile (\<lambda>c. c \<noteq> 32) xs else cmd)"
  by (induction cmd) (auto simp: gr0_conv_Suc)

lemma dropWhile_blanks: "dropWhile (\<lambda>c. c = 32) (replicate k 32 @ xs) = dropWhile (\<lambda>c. c = 32) xs"
  by (induction k) simp_all

text \<open>
  A command line is split into the words it was made of.  A command of at most 31 characters, blanks, and
  arguments of at most 95 characters that do not start with a blank come back unchanged, so the shell passes
  exactly what was typed.
\<close>

theorem split_line_words:
  assumes "\<forall>c \<in> set cmd. c \<noteq> 32 \<and> c \<noteq> 0" and "length cmd \<le> 31" and "0 \<notin> set args" and "length args \<le> 95"
    and "args \<noteq> [] \<longrightarrow> hd args \<noteq> 32 \<and> 0 < k"
  shows "split_line (cmd @ replicate k 32 @ args @ 0 # rest) = (cmd, args)"
proof -
  let ?w = "cmd @ replicate k 32 @ args"
  have "0 \<notin> set ?w" using assms(1,3) by auto
  then have w: "c_str (cmd @ replicate k 32 @ args @ 0 # rest) = ?w" using c_str_append_nul [of ?w rest] by simp
  have "takeWhile (\<lambda>c. c \<noteq> 32) ?w = cmd" using takeWhile_blank [of cmd k args] assms(1,5) by auto
  then have c: "take 31 (takeWhile (\<lambda>c. c \<noteq> 32) ?w) = cmd" using assms(2) by simp
  have "dropWhile (\<lambda>c. c = 32) args = args" using assms(5) by (cases args) (auto simp:)
  then have "dropWhile (\<lambda>c. c = 32) (drop (length cmd) ?w) = args" by (simp add: dropWhile_blanks)
  then show ?thesis unfolding split_line_def split_args_def Let_def w c using assms(4) by simp
qed

text \<open>A command of more than 31 characters is cut, and what is cut off becomes its argument.\<close>

lemma split_line_long:
  assumes "\<forall>c \<in> set cmd. c \<noteq> 32 \<and> c \<noteq> 0" and "31 < length cmd"
  shows "split_line cmd = (take 31 cmd, take 95 (drop 31 cmd))"
proof -
  have w: "c_str cmd = cmd" "takeWhile (\<lambda>c. c \<noteq> 32) cmd = cmd" using assms(1) by (auto simp: c_str_id)
  have "dropWhile (\<lambda>c. c = 32) (drop 31 cmd) = drop 31 cmd"
  proof (cases "drop 31 cmd")
    case (Cons c cs')
    then have "c \<in> set cmd" using in_set_dropD [of c 31 cmd] by simp
    then show ?thesis using Cons assms(1) by (auto simp:)
  qed simp
  then show ?thesis unfolding split_line_def split_args_def Let_def w using assms(2) by (simp add: min_def)
qed

section \<open>Examples\<close>

definition bss_kshell :: kshell where
  "bss_kshell = kobs.extend bss_kobs \<lparr>sh_shift = False, hist_buf = replicate HIST_MAX (zeros 128), hist_idx = 0, hist_count = 0,
     hist_scroll = -1, rseed = 0, hostname_str = cs ''hexaos'', alias_table = [], alias_count = 0\<rparr>"

lemma bss_hist_ok: "hist_ok bss_kshell" "hist_count bss_kshell = 0"
proof -
  have "c_str (zeros 128) = []" using c_str_append_nul [of "[]" "zeros 127"] by (simp add: zeros_def flip: replicate_Suc)
  then show "hist_ok bss_kshell" "hist_count bss_kshell = 0" by (simp_all add: hist_ok_def bss_kshell_def kobs.defs)
qed

theorem get_line_edits_witness:
  "\<exists>buf s'. get_line (zeros 32) (map serial_round (cs ''lisz'' @ [127] @ cs ''t'' @ [13])) bss_kshell = Some (Some buf, [], s') \<and> c_str buf = cs ''list''"
proof -
  let ?ks = "cs ''lisz'' @ [127] @ cs ''t''"
  have k: "0 < length (zeros 32)" "\<forall>c \<in> set ?ks. c \<noteq> 10 \<and> c \<noteq> 13" by (simp_all add: cs_def)
  have f: "fold (type_key 32) (map serial_key ?ks) [] = cs ''list''" by (simp add: cs_def type_key_def serial_key_def)
  obtain buf s' where r: "get_line (zeros 32) (map serial_round (?ks @ [13]) @ []) bss_kshell = Some (Some buf, [], s')"
    "take 5 buf = cs ''list'' @ [0]"
    using get_line_edits [OF k, of "[]" bss_kshell, unfolded Let_def length_zeros f] by (auto simp: cs_def eval_nat_numeral)
  have "buf = (cs ''list'' @ [0]) @ drop 5 buf" using append_take_drop_id [of 5 buf] unfolding r(2) by simp
  then have "c_str buf = cs ''list''" using c_str_append_nul [of "cs ''list''" "drop 5 buf"] by (simp add: cs_def)
  then show ?thesis using r(1) by auto
qed

theorem history_recalls_witness:
  "c_str (hist_line 1 (fold hist_push [cs ''list'', cs ''mem'', cs ''ps''] bss_kshell)) = cs ''mem''"
  using history_recalls [OF bss_hist_ok, of "[cs ''list'', cs ''mem'', cs ''ps'']" 1] by (simp add: cs_def c_str_def)

theorem shell_line_safe_witness:
  "\<exists>line s'. get_line (zeros 128) [serial_round 13] bss_kshell = Some (Some line, [], s') \<and> hist_ok (hist_push line s')"
proof -
  obtain r s' where g: "get_line (zeros 128) [serial_round 13] bss_kshell = Some (r, [], s')"
    using get_line_loop_typed [of 0 "zeros 128" "[]" "[]" "[]" bss_kshell] by (auto simp: get_line_def)
  then show ?thesis using shell_line_safe [OF bss_hist_ok(1) _ g] by auto
qed

theorem split_line_words_witness:
  "split_line (cs ''move'' @ [32, 32] @ cs ''a b'' @ [0, 7]) = (cs ''move'', cs ''a b'')"
proof -
  have "\<forall>c \<in> set (cs ''move''). c \<noteq> 32 \<and> c \<noteq> 0" "length (cs ''move'') \<le> 31" "0 \<notin> set (cs ''a b'')" "length (cs ''a b'') \<le> 95"
    "cs ''a b'' \<noteq> [] \<longrightarrow> hd (cs ''a b'') \<noteq> 32 \<and> 0 < (2 :: nat)" by (simp_all add: cs_def)
  from split_line_words [OF this, of "[7]"] show ?thesis by (simp add: numeral_2_eq_2)
qed

end
