(* ===== verification/Hexa_Commands.thy ===== *)
theory Hexa_Commands
  imports Hexa_Input Hexa_Binary
begin

text \<open>
  The shell's commands on the kernel's components and the dispatch \<^verbatim>\<open>execute_cmd\<close> of \<^verbatim>\<open>hexa.c\<close>.  A command gets its
  arguments as a C string and, where it asks for further input, the lines typed; it changes the kernel state,
  the screen included.  The result \<open>None\<close> stands for a call that does not return.  Commands that only show
  hardware registers or animate the screen are an argument of the dispatch.
\<close>

section \<open>Output\<close>

definition puts :: "string \<Rightarrow> 'a kcon_scheme \<Rightarrow> 'a kcon_scheme" where
  "puts t s = print_string (cs t @ [10]) s"

definition print_denied :: "'a kcon_scheme \<Rightarrow> 'a kcon_scheme" where
  "print_denied s = print_color (cs ''Denied.'' @ [10]) 0x0C s"

definition print_num :: "u32 \<Rightarrow> 'a kcon_scheme \<Rightarrow> 'a kcon_scheme" where
  "print_num v s = print_string (itoa v 10) s"

definition put_text :: "u8 \<Rightarrow> bytes \<Rightarrow> 'a kcon_scheme \<Rightarrow> 'a kcon_scheme" where
  "put_text color t s = fold (\<lambda>c s. put_char c color s) t s"

section \<open>Observers and network\<close>

definition cmd_kstat :: "bytes \<Rightarrow> 'a kobs_scheme \<Rightarrow> 'a kobs_scheme option" where
  "cmd_kstat args s =
     (if c_at args 0 = 0 then Some (puts ''Usage: kstat </@kernel/...>'' s)
      else do {
        (r, s1) \<leftarrow> kobserve_read_kernel_path args 1024 s;
        Some (case r of Some (c # w) \<Rightarrow> print_string (c # w) s1 | _ \<Rightarrow> puts ''No such kernel observer path.'' s1)
      })"

definition cmd_netstat :: "'a knet_scheme \<Rightarrow> 'a knet_scheme" where
  "cmd_netstat s = print_string (net_connection_list 1024 s) s"

definition cmd_ifconfig :: "'a knet_scheme \<Rightarrow> 'a knet_scheme" where
  "cmd_ifconfig s = print_string (net_interface_list 1024 s) s"

definition cmd_netlog :: "'a kcon_scheme \<Rightarrow> 'a kcon_scheme" where
  "cmd_netlog s = puts ''Network history: snapshots track network state.'' s"

definition cmd_netrollback :: "bytes \<Rightarrow> 'a kcon_scheme \<Rightarrow> 'a kcon_scheme option" where
  "cmd_netrollback args s =
     (if c_at args 0 = 0 then Some (puts ''Usage: netrollback <snap_name>'' s)
      else do {
        (snap, s1) \<leftarrow> hexafs_snap_find args s;
        Some (if snap \<noteq> 0 then print_string [10] (print_string args (print_string (cs ''Network rollback to snapshot: '') s1))
              else puts ''Snapshot not found.'' s1)
      })"

section \<open>Replay, boot, capabilities\<close>

text \<open>The event count in the argument is never read: \<^verbatim>\<open>n\<close> stays 0.\<close>

definition cmd_replay_shell :: "bytes \<Rightarrow> 'a kreplay_scheme \<Rightarrow> 'a kreplay_scheme option" where
  "cmd_replay_shell args s =
     (let snap_name = take 31 (takeWhile (\<lambda>c. c \<noteq> 32) (c_str args)) in
      if snap_name = [] then Some (puts ''Usage: replay <snap_name> [event_count]'' s)
      else do {
        (snap, s1) \<leftarrow> hexafs_snap_find snap_name s;
        Some (if snap \<noteq> 0 then snd (replay_execute snap 100 s1) else puts ''Snapshot not found.'' s1)
      })"

text \<open>The observer is given a null buffer of length 0, where it stores its terminator.\<close>

definition cmd_bootlog :: "'a kobs_scheme \<Rightarrow> 'a kobs_scheme option" where
  "cmd_bootlog s =
     do {
       (r, s1) \<leftarrow> kobserve_read_kernel_path (cs ''/@kernel/interrupts/log'') 0 s;
       Some (puts ''Boot log: check dmesg for boot-stage messages.''
               (case r of None \<Rightarrow> s1 | Some w \<Rightarrow> s1\<lparr>vmem := poke 0 (w @ [0]) (vmem s1)\<rparr>))
     }"

definition cmd_bootpolicy :: "'a kcon_scheme \<Rightarrow> 'a kcon_scheme" where
  "cmd_bootpolicy s =
     print_string (nl (cs ''  1. hardware_ok'') @ nl (cs ''  2. drivers_loaded'') @ nl (cs ''  3. services_ready'') @
       nl (cs ''  4. shell_ready'')) (puts ''Boot Policy Stages (default):'' s)"

definition cmd_setfallback :: "bytes \<Rightarrow> 'a kboot_scheme \<Rightarrow> 'a kboot_scheme option" where
  "cmd_setfallback args s =
     (if c_at args 0 = 0 then Some (puts ''Usage: setfallback <snap_name>'' s) else boot_policy_set_fallback args s)"

definition cmd_caps :: "bytes \<Rightarrow> 'a kfs_scheme \<Rightarrow> 'a kfs_scheme" where
  "cmd_caps args s =
     (let pid = (if c_at args 0 \<noteq> 0 then atoi args else t_pid (cur_task s)) in
      case hexafs_cap_list_pid (of_int pid) 512 s of (t, s1) \<Rightarrow> print_string t s1)"

definition cmd_grantcap :: "bytes \<Rightarrow> 'a kfs_scheme \<Rightarrow> 'a kfs_scheme" where
  "cmd_grantcap args s =
     (case split_args 7 15 args of (pid_s, cap_s) \<Rightarrow>
        if pid_s = [] \<or> cap_s = [] then puts ''Usage: grantcap <pid> <cap_type>'' s
        else case hexafs_cap_grant (of_int (atoi pid_s)) (of_int (atoi cap_s)) 0 True s of (ret, s1) \<Rightarrow>
          if ret \<ge> 0 then puts ''Capability granted.'' s1 else puts ''Grant failed.'' s1)"

definition cmd_revokecap :: "'a kcon_scheme \<Rightarrow> 'a kcon_scheme" where
  "cmd_revokecap s = puts ''revokecap: capability revocation (stub)'' s"

definition cmd_hexpack :: "bytes \<Rightarrow> 'a kusr_scheme \<Rightarrow> 'a kusr_scheme option" where
  "cmd_hexpack args s =
     (case split_args 31 63 args of (elf_name, caps_str) \<Rightarrow> map_option snd (hex_pack_elf (Some elf_name) caps_str 0 0 s))"

section \<open>Events and pipes\<close>

text \<open>The events from \<open>t\<close> up to the head; a queue has at most 16.\<close>

primrec count_events :: "nat \<Rightarrow> nat \<Rightarrow> nat \<Rightarrow> nat" where
  "count_events 0 t h = 0"
| "count_events (Suc n) t h = (if t = h then 0 else Suc (count_events n ((t + 1) mod EVENT_QUEUE_SIZE) h))"

definition cmd_inbox :: "bytes \<Rightarrow> 'a kcon_scheme \<Rightarrow> 'a kcon_scheme" where
  "cmd_inbox args s =
     (if c_at args 0 = 0 then puts ''Usage: inbox <pid>'' s
      else case find_task (\<lambda>i t. t_pid t = atoi args \<and> t_state t \<noteq> TASK_DEAD) s of
        None \<Rightarrow> puts ''Process not found.'' s
      | Some i \<Rightarrow>
          let t = tasks s ! i
          in puts '' pending events'' (print_num (of_nat (count_events EVENT_QUEUE_SIZE (t_event_tail t) (t_event_head t)))
               (print_string (cs '': '') (print_string args (print_string (cs ''Inbox for PID '') s)))))"

definition cmd_sendevent :: "bytes \<Rightarrow> 'a kcon_scheme \<Rightarrow> 'a kcon_scheme" where
  "cmd_sendevent args s =
     (case split_args 7 7 args of (pid_s, type_s) \<Rightarrow>
        if pid_s = [] \<or> type_s = [] then puts ''Usage: sendevent <pid> <type>'' s
        else case process_event_send (atoi pid_s) (of_int (atoi type_s)) 0 s of (ret, s1) \<Rightarrow>
          if ret = 0 then print_string [10] (print_string pid_s (print_string (cs ''Event sent to PID '') s1))
          else puts ''Failed to send event (queue full or PID not found)'' s1)"

definition cmd_pipes_list :: "'a kcon_scheme \<Rightarrow> 'a kcon_scheme" where
  "cmd_pipes_list s =
     (let t = pipe_typed_list 512 s in
      if t \<noteq> [] then print_string t (print_string (nl (cs ''Active Typed Pipes:'') @ nl (cs ''  ID SCHEMA  PROD CONS'')) s)
      else puts ''Active typed pipes: none'' s)"

section \<open>Versions\<close>

definition version_line :: "u32 \<Rightarrow> bytes \<Rightarrow> 'a kcon_scheme \<Rightarrow> 'a kcon_scheme" where
  "version_line b sn s =
     print_string [10] (print_num b (print_string ([39] @ cs '' block='')
       (put_text 0x0F (take 31 (c_str (snap_name sn))) (print_string (cs ''  snap='' @ [39]) s))))"

text \<open>Whether the name is in the directory of a snapshot.\<close>

definition in_version :: "bytes \<Rightarrow> bytes \<Rightarrow> 'a kdisk_scheme \<Rightarrow> (bool \<times> 'a kdisk_scheme) option" where
  "in_version name sn s =
     (if snap_root sn = 0 then Some (False, s)
      else map_option (\<lambda>(r, s1). (r \<noteq> None, s1)) (hexafs_abstraction_find (snap_root sn) name s))"

partial_function (option) timels_loop :: "bytes \<Rightarrow> u32 \<Rightarrow> bool \<Rightarrow> 'a kcon_scheme \<Rightarrow> (bool \<times> 'a kcon_scheme) option" where
  "timels_loop name b found s =
     (if b = 0 then Some (found, s)
      else case hexafs_block_read b s of
        (None, s1) \<Rightarrow> Some (found, s1)
      | (Some sn, s1) \<Rightarrow>
          if snap_magic sn \<noteq> HEXAFS_SNAP_MAGIC then Some (found, s1)
          else Option.bind (in_version name sn s1) (\<lambda>r.
            timels_loop name (snap_parent sn) (found \<or> fst r) (if fst r then version_line b sn (snd r) else snd r)))"

definition cmd_timels :: "bytes \<Rightarrow> 'a kcon_scheme \<Rightarrow> 'a kcon_scheme option" where
  "cmd_timels args s =
     (if c_at args 0 = 0 then Some (puts ''Usage: timels <path>'' s)
      else map_option (\<lambda>(found, s1). if found then s1 else puts ''  (no versions found)'' s1)
        (timels_loop args (root_snap s) False
          (puts '' across snapshots:'' (print_string args (print_string (cs ''Versions of '') s)))))"

definition cmd_timediff :: "'a kcon_scheme \<Rightarrow> 'a kcon_scheme" where
  "cmd_timediff s = puts ''timediff: diff object state between two timestamps (stub)'' s"

definition cmd_timeat :: "bytes \<Rightarrow> 'a kfs_scheme \<Rightarrow> 'a kfs_scheme option" where
  "cmd_timeat args s =
     (if c_at args 0 = 0 then Some (puts ''Usage: timeat <timestamp> <path>'' s)
      else case split_args 31 31 args of (ts, path) \<Rightarrow>
        let s = puts ''...'' (print_string ts (print_string (cs '' at timestamp '') (print_string path (print_string (cs ''Reading '') s))))
        in case find_form path s of
             None \<Rightarrow> Some (puts ''Form not found in current snapshot.'' s)
           | Some idx \<Rightarrow>
               do {
                 t \<leftarrow> mem_str (vmem s) (fm_content (form_table s ! idx));
                 Some (print_string [10] (print_string t (puts ''Current content:'' s)))
               })"

section \<open>Privileges and the display\<close>

text \<open>
  The user name and the capabilities of \<^verbatim>\<open>pimp add\<close>: everything behind the first equals sign of the rest of the
  line is the number of the capabilities; without one the rule allows everything without a password.
\<close>

definition pimp_add_args :: "bytes \<Rightarrow> bytes \<times> u32 \<times> u32" where
  "pimp_add_args uname =
     (if 61 \<in> set uname then (takeWhile (\<lambda>c. c \<noteq> 61) uname, of_int (atoi (tl (dropWhile (\<lambda>c. c \<noteq> 61) uname))), 0)
      else (uname, 0xFFFFFFFF, 1))"

definition cmd_pimp :: "bytes \<Rightarrow> 'a kfs_scheme \<Rightarrow> 'a kfs_scheme option" where
  "cmd_pimp args s =
     (case split_args 15 31 args of (sub, uname) \<Rightarrow>
        if sub = cs ''list'' \<or> sub = [] then Some (print_string (pimp_rule_list 512 s) s)
        else if sub = cs ''add'' then
          if uname = [] then Some (puts ''Usage: pimp add <user> [caps=nopass]'' s)
          else case pimp_add_args uname of (name, caps, no_pass) \<Rightarrow>
            (case pimp_rule_add name caps no_pass 0 s of
               (False, s1) \<Rightarrow> Some (puts ''Failed.'' s1)
             | (True, s1) \<Rightarrow> do {
                 (ok, s2) \<leftarrow> pimp_save_rules s1;
                 Some (print_string [10] (print_string name (print_string (cs ''Pimp rule added for '') s2)))
               })
        else if sub = cs ''remove'' then
          if uname = [] then Some (puts ''Usage: pimp remove <user>'' s)
          else case pimp_rule_remove uname s of
            (False, s1) \<Rightarrow> Some (puts ''Not found.'' s1)
          | (True, s1) \<Rightarrow> do { (ok, s2) \<leftarrow> pimp_save_rules s1; Some (puts ''Removed.'' s2) }
        else Some (puts ''Usage: pimp [list|add|remove] [args]'' s))"

definition cmd_dieselist :: "'a kfs_scheme \<Rightarrow> 'a kfs_scheme" where
  "cmd_dieselist s = print_string (pimp_rule_list 512 s) s"

text \<open>\<open>args\<close> is the whole array here: numbers are read from behind the word, where the string has already ended.\<close>

definition three_words :: "bytes \<Rightarrow> bytes \<times> bytes \<times> bytes" where
  "three_words a =
     (case split_args 7 96 (dropWhile (\<lambda>c. c = 32) (c_str a)) of (x, a1) \<Rightarrow>
      case split_args 7 96 a1 of (y, a2) \<Rightarrow> (x, y, take 7 a2))"

definition mode_usage :: "'a kcon_scheme \<Rightarrow> 'a kcon_scheme" where
  "mode_usage s = puts ''Usage: mode [list|set|double|clear|color]'' s"

definition rgb :: "bytes \<Rightarrow> bytes \<Rightarrow> bytes \<Rightarrow> u32" where
  "rgb r g b =
     push_bit 16 (of_int (atoi r) AND 0xFF) OR push_bit 8 (of_int (atoi g) AND 0xFF) OR (of_int (atoi b) AND 0xFF)"

definition cmd_mode :: "bytes \<Rightarrow> 'a kfb_scheme \<Rightarrow> 'a kfb_scheme option" where
  "cmd_mode args s =
     (let w = c_str args in
      if w = cs ''list'' \<or> w = [] then
        Some (puts ''Usage: mode set <width> <height> <bpp>'' (puts ''  1024x768 32bpp'' (puts ''  800x600 32bpp (default)''
          (puts ''Available video modes:'' s))))
      else if w = cs ''set'' then
        (case three_words (drop 4 args) of (w_s, h_s, b_s) \<Rightarrow>
           if w_s = [] \<or> h_s = [] then Some (puts ''Usage: mode set <width> <height> [bpp]'' s)
           else
             let b = (if b_s \<noteq> [] then of_int (atoi b_s) else 32) :: u16
             in do {
                  s1 \<leftarrow> fb_set_mode (of_int (atoi w_s)) (of_int (atoi h_s)) b s;
                  Some (puts ''bpp'' (print_num (ucast b) (print_string (cs '' '') (print_string h_s (print_string (cs ''x'')
                    (print_string w_s (print_string (cs ''Mode set: '') s1)))))))
                })
      else if w = cs ''double'' then map_option (puts ''Double buffer enabled.'') (fb_double_buf s)
      else if w = cs ''clear'' then Some (puts ''Screen cleared.'' (fb_clear 0 s))
      else if w = cs ''color'' then
        (case three_words (drop 6 args) of (r_s, g_s, b_s) \<Rightarrow>
           if r_s = [] then Some (puts ''Usage: mode color <r> <g> <b>'' s)
           else Some (puts ''Screen filled.'' (fb_clear (rgb r_s g_s b_s) s)))
      else Some (mode_usage s))"

section \<open>Commands on forms in the dispatch\<close>

definition cmd_move :: "bytes \<Rightarrow> 'a kusr_scheme \<Rightarrow> 'a kusr_scheme option" where
  "cmd_move args s =
     (case split_args 31 31 args of (src, dst) \<Rightarrow>
        if src = [] \<or> dst = [] then Some (puts ''Usage: move <src> <dst>'' s)
        else case find_form src s of
          None \<Rightarrow> Some (puts ''Not found.'' s)
        | Some idx \<Rightarrow>
            if check_perm (int idx) True s then Some (print_denied s)
            else do {
              (ok, s1) \<leftarrow> save_data (upd_form idx (\<lambda>f. f\<lparr>fm_name := strcpy (fm_name f) dst\<rparr>) s);
              Some (puts ''Renamed.'' s1)
            })"

text \<open>The copy, without the check for a full table: the slot behind the last form is filled.\<close>

definition copy_form :: "nat \<Rightarrow> bytes \<Rightarrow> 'a kusr_scheme \<Rightarrow> 'a kusr_scheme option" where
  "copy_form si dst s =
     do {
       (ok, s1) \<leftarrow> form_ensure_cap (form_count s) (fm_size (form_table s ! si)) s;
       let k = form_count s1;
       let f = form_table s1 ! si;
       let s2 = upd_form k (\<lambda>g. g\<lparr>fm_name := strcpy (fm_name g) dst\<rparr>) s1;
       let s3 = s2\<lparr>vmem := memcpy (fm_content (form_table s2 ! k)) (fm_content f) (unat (of_int (fm_size f) :: u32)) (vmem s2)\<rparr>;
       Some ((upd_form k (\<lambda>g. g\<lparr>fm_size := fm_size f, fm_owner := int (u_cur s3), fm_mode := fm_mode f\<rparr>) s3)\<lparr>form_count := k + 1\<rparr>)
     }"

definition cmd_copy :: "bytes \<Rightarrow> 'a kusr_scheme \<Rightarrow> 'a kusr_scheme option" where
  "cmd_copy args s =
     (case split_args 31 31 args of (src, dst) \<Rightarrow>
        if src = [] \<or> dst = [] then Some (puts ''Usage: copy <src> <dst>'' s)
        else case find_form src s of
          None \<Rightarrow> Some (puts ''Not found.'' s)
        | Some si \<Rightarrow>
            if check_perm (int si) False s then Some (print_denied s)
            else if form_count s \<ge> MAX_FORMS then Some (puts ''Full.'' s)
            else do {
              s1 \<leftarrow> copy_form si dst s;
              (ok, s2) \<leftarrow> save_data s1;
              Some (puts ''Copied.'' s2)
            })"

definition cmd_cat :: "bytes \<Rightarrow> 'a kusr_scheme \<Rightarrow> 'a kusr_scheme option" where
  "cmd_cat args s =
     (if c_at args 0 = 0 then Some (puts ''Usage: cat <form>'' s)
      else case find_form args s of
        None \<Rightarrow> Some (puts ''Not found.'' s)
      | Some fi \<Rightarrow>
          if check_perm (int fi) False s then Some (print_denied s)
          else do {
            t \<leftarrow> mem_str (vmem s) (fm_content (form_table s ! fi));
            Some (print_string [10] (print_string t s))
          })"

text \<open>The characters up to the \<open>n\<close>-th newline.\<close>

fun head_text :: "nat \<Rightarrow> bytes \<Rightarrow> bytes" where
  "head_text 0 t = []"
| "head_text n [] = []"
| "head_text (Suc n) (c # t) = c # (if c = 10 then head_text n t else head_text (Suc n) t)"

definition cmd_head :: "bytes \<Rightarrow> 'a kusr_scheme \<Rightarrow> 'a kusr_scheme option" where
  "cmd_head args s =
     (case split_args 31 7 args of (fn, ln) \<Rightarrow>
        case find_form fn s of
          None \<Rightarrow> Some (puts ''Not found.'' s)
        | Some fi \<Rightarrow>
            if check_perm (int fi) False s then Some (print_denied s)
            else
              let n = (if ln \<noteq> [] then atoi ln else 10); n = (if n < 1 then 1 else n);
                  p = fm_content (form_table s ! fi)
              in do {
                t \<leftarrow> mem_str (vmem s) p;
                let h = head_text (nat n) t;
                let s1 = put_text (current_color s) h s;
                Some (if vmem s (p + of_nat (length h) - 1) \<noteq> 10 then print_string [10] s1 else s1)
              })"

section \<open>Small commands\<close>

definition ps_state :: "task_state \<Rightarrow> bytes" where
  "ps_state st = (case st of TASK_READY \<Rightarrow> cs ''READY'' | TASK_RUNNING \<Rightarrow> cs ''RUN'' | TASK_BLOCKED \<Rightarrow> cs ''BLKD''
     | TASK_ZOMBIE \<Rightarrow> cs ''ZOMB'' | TASK_DEAD \<Rightarrow> cs ''?'')"

definition ps_line :: "task \<Rightarrow> bytes" where
  "ps_line t =
     (if t_pid t < 0 then []
      else itoa (of_int (t_pid t)) 10 @ cs ''   '' @ c_str (t_name t) @ replicate (16 - length (c_str (t_name t))) 32 @
           ps_state (t_state t) @ [10])"

definition cmd_ps :: "'a kcon_scheme \<Rightarrow> 'a kcon_scheme" where
  "cmd_ps s =
     fold (\<lambda>i s. print_string (ps_line (tasks s ! i)) s) [0..<MAX_TASKS] (puts ''PID NAME             STATE'' s)"

definition cmd_df :: "'a kfs_scheme \<Rightarrow> 'a kfs_scheme" where
  "cmd_df s =
     puts ''KB free'' (print_num (of_nat (pmm_count_free s) * 4) (print_string (cs ''  Mem: '') (print_num (of_nat MAX_FORMS)
       (print_string (cs ''/'') (print_num (of_nat (form_count s)) (print_string (cs ''Forms: '') s))))))"

definition cmd_env :: "'a kusr_scheme \<Rightarrow> 'a kusr_scheme" where
  "cmd_env s =
     (let s = puts ''ARCH=i386'' (puts ''OS=HexaOS/7.2'' (puts ''SHELL=hexa'' s));
          s = print_string [10] (print_string (us_name (u_table s ! u_cur s)) (print_string (cs ''USER='') s));
          s = print_string [10] (print_num (of_nat (form_count s)) (print_string (cs ''FORMS='') s))
      in print_string [10] (print_num (ticks s) (print_string (cs ''TICKS='') s)))"

definition cmd_dmesg :: "'a kcon_scheme \<Rightarrow> 'a kcon_scheme" where
  "cmd_dmesg s =
     (let s = puts ''Kernel log (last entries):'' (log_write LOG_LEVEL_INFO (cs ''dmesg requested'') s);
          s = print_string [10] (print_string (log_get s) s)
      in puts '' total log entries'' (print_num (of_nat (log_get_count s)) s))"

definition cmd_uptime_fmt :: "'a kcon_scheme \<Rightarrow> 'a kcon_scheme" where
  "cmd_uptime_fmt s =
     (let total_sec = system_ticks s div 100;
          s1 = print_string (cs ''d '') (print_num (total_sec div 86400) (print_string (cs ''Uptime: '') s));
          s2 = print_string (cs ''h '') (print_num ((total_sec mod 86400) div 3600) s1);
          s3 = print_string (cs ''m '') (print_num ((total_sec mod 3600) div 60) s2);
          s4 = print_string (cs ''s'') (print_num (total_sec mod 60) s3)
      in puts '' ticks)'' (print_num (system_ticks s4) (print_string (cs ''  ('') s4)))"

definition cmd_dimpath :: "'a kusr_scheme \<Rightarrow> 'a kusr_scheme" where
  "cmd_dimpath s = print_string [10] (print_string (us_name (u_table s ! u_cur s)) (print_string (cs ''/home/'') s))"

definition cmd_hex :: "bytes \<Rightarrow> 'a kcon_scheme \<Rightarrow> 'a kcon_scheme" where
  "cmd_hex args s = print_string [10] (print_string (itoa (of_int (atoi args)) 16) (print_string (cs ''0x'') s))"

definition cmd_reverse :: "bytes \<Rightarrow> 'a kcon_scheme \<Rightarrow> 'a kcon_scheme" where
  "cmd_reverse args s = print_string [10] (put_text (current_color s) (rev (c_str args)) s)"

definition lower :: "u8 \<Rightarrow> u8" where "lower c = (if 65 \<le> c \<and> c \<le> 90 then c + 32 else c)"
definition upper :: "u8 \<Rightarrow> u8" where "upper c = (if 97 \<le> c \<and> c \<le> 122 then c - 32 else c)"

text \<open>
  The new form gets a name, owner, mode and an empty text, but no memory of its own: the NUL is stored where the
  unused slot's pointer happens to point.  \<open>None\<close> stands for a name that does not fit the array of 32 bytes.
\<close>

definition cmd_makedim :: "bytes \<Rightarrow> 'a kusr_scheme \<Rightarrow> 'a kusr_scheme option" where
  "cmd_makedim name s =
     (if c_at name 0 = 0 then Some (puts ''Usage: makedim <dimname>'' s)
      else
        let dname = (if last (c_str name) \<noteq> 47 then c_str name @ [47] else c_str name); k = form_count s in
        if length dname > 31 then None
        else if find_form dname s \<noteq> None then Some (puts ''Exists.'' s)
        else if k \<ge> MAX_FORMS then Some (puts ''Full.'' s)
        else Some (puts ''Created.''
          ((upd_form k (\<lambda>f. f\<lparr>fm_name := strcpy (fm_name f) dname, fm_size := 0, fm_owner := int (u_cur s),
              fm_mode := PERM_DEFAULT OR 0x040 OR 0x008 OR 0x001\<rparr>)
            (s\<lparr>vmem := (vmem s)(fm_content (form_table s ! k) := 0)\<rparr>))\<lparr>form_count := k + 1\<rparr>)))"

text \<open>
  The calculator: the words are copied into arrays of 16 bytes; the result is \<open>None\<close> when a word does not fit
  with its terminator, and when the least number is divided by -1, an exception of the processor.  The operator
  is stepped over without a test: where the argument ends before it, the second word is what the array has
  behind the terminator.  The bytes there are the ones of \<open>args\<close> behind its first NUL; the dispatch passes a
  string without them.
\<close>

definition calc_args :: "bytes \<Rightarrow> bytes \<times> u8 \<times> bytes" where
  "calc_args args =
     (let a = c_str args; a1 = takeWhile (\<lambda>c. c \<noteq> 32) a;
          r = dropWhile (\<lambda>c. c = 32) (drop (length a1) a)
      in (a1, c_at r 0, c_str (dropWhile (\<lambda>c. c = 32) (if r = [] then drop (length a + 1) args else drop 1 r))))"

definition calc_result :: "u8 \<Rightarrow> int \<Rightarrow> int \<Rightarrow> u32" where
  "calc_result op n1 n2 =
     (if op = 43 then of_int (n1 + n2) else if op = 45 then of_int (n1 - n2) else if op = 42 then of_int (n1 * n2)
      else of_int (n1 sdiv n2))"

definition cmd_calc :: "bytes \<Rightarrow> 'a kcon_scheme \<Rightarrow> 'a kcon_scheme option" where
  "cmd_calc args s =
     (case calc_args args of (a1, op, a2) \<Rightarrow>
        if length a1 > 15 \<or> length a2 > 15 then None
        else if op = 0 \<or> a1 = [] \<or> a2 = [] then Some (puts ''Usage: calc <num> <+|-|*|/> <num>'' s)
        else if op \<notin> {43, 45, 42, 47} then Some (puts ''Invalid op'' s)
        else if op = 47 \<and> atoi a2 = 0 then Some (puts ''Div by zero!'' s)
        else if op = 47 \<and> atoi a1 = - (2 ^ 31) \<and> atoi a2 = -1 then None
        else Some (print_string [10] (print_num (calc_result op (atoi a1) (atoi a2)) (print_string (cs ''= '') s))))"

section \<open>Hexadecimal dump\<close>

definition dump_byte :: "u8 \<Rightarrow> bytes" where
  "dump_byte c = (let t = itoa (ucast c) 16 in if length t < 2 then 48 # t else t)"

text \<open>One row: the address with at least four digits, sixteen columns, and the characters.\<close>

definition dump_row :: "nat \<Rightarrow> bytes \<Rightarrow> 'a kcon_scheme \<Rightarrow> 'a kcon_scheme" where
  "dump_row pos content s =
     (let a = itoa (of_nat pos) 16; row = take 16 (drop pos content);
          s = print_string (cs '': '') (print_string a (put_text 0x0F (replicate (4 - length a) 48) s));
          s = fold (\<lambda>i s. put_char 32 0x0F ((if i = 7 then put_char 32 0x0F else (\<lambda>s. s))
                 (print_string (if i < length row then dump_byte (row ! i) else cs ''  '') s))) [0..<16] s;
          s = put_text 0x0F (map (\<lambda>c. if 32 \<le> c \<and> c < 127 then c else 46) row) (print_string (cs '' |'') s)
      in puts ''|'' s)"

definition cmd_hexdump :: "bytes \<Rightarrow> 'a kusr_scheme \<Rightarrow> 'a kusr_scheme" where
  "cmd_hexdump name s =
     (if c_at name 0 = 0 then puts ''Usage: hexdump <form>'' s
      else case find_form name s of
        None \<Rightarrow> puts ''Not found.'' s
      | Some idx \<Rightarrow>
          if check_perm (int idx) False s then print_denied s
          else
            let n = nat (fm_size (form_table s ! idx)); content = peek (vmem s) (fm_content (form_table s ! idx)) n;
                s = fold (\<lambda>k s. dump_row (16 * k) content s) [0..<(n + 15) div 16] s
            in puts '' bytes'' (print_num (of_int (fm_size (form_table s ! idx))) s))"

section \<open>Names\<close>

definition known_commands :: "bytes list" where
  "known_commands =
     [cs ''help'', cs ''echo'', cs ''clear'', cs ''reboot'', cs ''uptime'', cs ''color'', cs ''about'', cs ''mem'',
      cs ''beep'', cs ''halt'', cs ''date'', cs ''cpuinfo'', cs ''lspci'', cs ''calc'', cs ''ascii'', cs ''palette'',
      cs ''matrix'', cs ''guess'', cs ''snake'', cs ''tictactoe'', cs ''hangman'', cs ''memory'', cs ''tetris'',
      cs ''neofetch'', cs ''banner'', cs ''yes'', cs ''time'', cs ''fortune'', cs ''shutdown'', cs ''rand'',
      cs ''hex'', cs ''reverse'', cs ''len'', cs ''tolower'', cs ''toupper'', cs ''sysname'', cs ''uname'',
      cs ''whoami'', cs ''mkform'', cs ''list'', cs ''view'', cs ''delete'', cs ''write'', cs ''append'', cs ''edit'',
      cs ''useradd'', cs ''passwd'', cs ''login'', cs ''logout'', cs ''sleep'', cs ''panic'', cs ''outb'', cs ''inb'',
      cs ''history'', cs ''cowsay'', cs ''cmatrix'', cs ''dice'', cs ''8ball'', cs ''logo'', cs ''pimp'',
      cs ''dieselist'', cs ''mode'', cs ''sl'', cs ''morse'', cs ''russian'', cs ''insult'', cs ''excuse'',
      cs ''compliment'', cs ''hack'', cs ''bsod'', cs ''ayo'', cs ''dimpath'', cs ''makedim'', cs ''setmode'',
      cs ''setowner'', cs ''dmesg'', cs ''clock'', cs ''exec'', cs ''hexdump'', cs ''sysinfo'', cs ''kstat'',
      cs ''netstat'', cs ''ifconfig'', cs ''netlog'', cs ''netrollback'', cs ''replay'', cs ''bootlog'',
      cs ''bootpolicy'', cs ''setfallback'', cs ''caps'', cs ''grantcap'', cs ''revokecap'', cs ''hexpack'',
      cs ''inbox'', cs ''sendevent'', cs ''pipes'', cs ''timels'', cs ''timediff'', cs ''timeat'', cs ''move'',
      cs ''copy'', cs ''diese'', cs ''ps'', cs ''df'', cs ''which'', cs ''cat'', cs ''head'', cs ''true'',
      cs ''false'', cs ''env'']"

definition cmd_which :: "bytes \<Rightarrow> 'a kusr_scheme \<Rightarrow> 'a kusr_scheme" where
  "cmd_which args s =
     (if c_at args 0 = 0 then puts ''Usage: which <name>'' s
      else if find_form args s \<noteq> None then puts '': form'' (print_string args s)
      else if find_user args s \<noteq> None then puts '': user'' (print_string args s)
      else if \<exists>k \<in> set known_commands. strcmp k args = 0 then puts '': command'' (print_string args s)
      else puts '': not found'' (print_string args s))"

section \<open>The dispatch\<close>

text \<open>
  \<^verbatim>\<open>diese\<close> runs a command as root and makes the user current again that was so when it was called.  \<open>exec\<close> is the dispatch itself; \<open>lines\<close> are the lines typed, the first of them
  the password if one is asked.
\<close>

definition diese ::
    "(bytes \<Rightarrow> bytes \<Rightarrow> bytes list \<Rightarrow> 'a kshell_scheme \<Rightarrow> (bool \<times> 'a kshell_scheme) option) \<Rightarrow> bytes \<Rightarrow> bytes list \<Rightarrow> 'a kshell_scheme \<Rightarrow>
      (bool \<times> 'a kshell_scheme) option" where
  "diese exec args lines s =
     (if c_at args 0 = 0 then Some (True, puts ''Usage: diese <command> [args]'' s)
      else if u_cur s = 0 then Some (True, puts ''Already root.'' s)
      else
        let no_pass = pimp_check (us_name (u_table s ! u_cur s)) 0xFFFFFFFF s;
            run = (\<lambda>lines t.
              case split_args 31 95 args of (c, a) \<Rightarrow>
                (case exec c a lines (if no_pass then print_color (cs ''[diese] (pimped) '') 0x0A (t\<lparr>u_cur := 0\<rparr>)
                       else print_color (cs ''[diese] '') 0x0C (t\<lparr>u_cur := 0\<rparr>)) of
                   None \<Rightarrow> None
                 | Some (_, s1) \<Rightarrow> Some (True, s1\<lparr>u_cur := u_cur s\<rparr>)))
        in if no_pass then run lines s
           else
             let s = print_string (cs ''password: '') s
             in case lines of
                  [] \<Rightarrow> None
                | pw # lines \<Rightarrow>
                    (let hash = us_pass_hash (u_table s ! u_cur s) in
                     if \<not> check_pwd pw hash then Some (True, print_color (cs ''Access denied.'' @ [10]) 0x0C s)
                     else if c_at hash 2 = 32 then
                       (case save_data (upd_user (u_cur s) (\<lambda>u. u\<lparr>us_pass_hash := encode_pwd (us_pass_hash u) pw (ticks s AND 0xFFFF)\<rparr>) s) of
                          None \<Rightarrow> None
                        | Some (ok, s) \<Rightarrow> run lines s)
                     else run lines s))"

text \<open>A command on the state alone, and one that may not return; commands that change forms save them.\<close>

definition known :: "'a kshell_scheme \<Rightarrow> (bool \<times> 'a kshell_scheme) option" where
  "known s = Some (True, s)"

definition opt_known :: "'a kshell_scheme option \<Rightarrow> (bool \<times> 'a kshell_scheme) option" where
  "opt_known r = map_option (Pair True) r"

definition saved :: "'a kshell_scheme option \<Rightarrow> (bool \<times> 'a kshell_scheme) option" where
  "saved r = (case r of None \<Rightarrow> None | Some s \<Rightarrow> (case save_data s of None \<Rightarrow> None | Some (ok, s1) \<Rightarrow> Some (True, s1)))"

text \<open>
  The branches of \<^verbatim>\<open>execute_cmd\<close> but \<^verbatim>\<open>diese\<close>.  \<open>others\<close> stands for the commands that are not modelled (display of
  hardware registers, halting, toys and games) and for unknown ones.
\<close>

definition plain_cmd ::
    "(bytes \<Rightarrow> bytes \<Rightarrow> bytes list \<Rightarrow> 'a kshell_scheme \<Rightarrow> (bool \<times> 'a kshell_scheme) option) \<Rightarrow>
      bytes \<Rightarrow> bytes \<Rightarrow> bytes list \<Rightarrow> 'a kshell_scheme \<Rightarrow> (bool \<times> 'a kshell_scheme) option" where
  "plain_cmd others cmd args lines s =
     (if cmd = cs ''echo'' then known (print_string [10] (print_string args s))
      else if cmd = cs ''clear'' then known (clear_screen s)
      else if cmd = cs ''uptime'' then known (puts '' ticks'' (print_num (ticks s) s))
      else if cmd = cs ''color'' then known (s\<lparr>current_color := of_int (atoi args) AND 0x0F\<rparr>)
      else if cmd = cs ''about'' then
        known (puts ''HEXA OS 7.2 - 32-bit hobby OS with HEXAFSv2, block cache, pimp ACLs, persistence.'' s)
      else if cmd = cs ''mem'' then known (puts ''VGA: 4000B'' s)
      else if cmd = cs ''beep'' then known (serial_putc 7 s)
      else if cmd = cs ''calc'' then opt_known (cmd_calc args s)
      else if cmd = cs ''rand'' then known (case rand s of (v, s) \<Rightarrow> print_string [10] (print_num v s))
      else if cmd = cs ''hex'' then known (cmd_hex args s)
      else if cmd = cs ''reverse'' then known (cmd_reverse args s)
      else if cmd = cs ''len'' then known (print_string [10] (print_num (of_nat (strlen args)) s))
      else if cmd = cs ''tolower'' then known (print_string [10] (print_string (map lower (c_str args)) s))
      else if cmd = cs ''toupper'' then known (print_string [10] (print_string (map upper (c_str args)) s))
      else if cmd = cs ''sysname'' \<or> cmd = cs ''uname'' then known (puts ''HEXA OS 7.2 i386'' s)
      else if cmd = cs ''whoami'' then known (print_string [10] (print_string (us_name (u_table s ! u_cur s)) s))
      else if cmd = cs ''mkform'' then saved (cmd_mkform args s)
      else if cmd = cs ''list'' then known (cmd_list s)
      else if cmd = cs ''view'' then opt_known (cmd_view args s)
      else if cmd = cs ''delete'' then saved (cmd_delete args s)
      else if cmd = cs ''write'' then saved (cmd_write args s)
      else if cmd = cs ''append'' then saved (cmd_append args s)
      else if cmd = cs ''edit'' then saved (cmd_edit args lines s)
      else if cmd = cs ''useradd'' then saved (cmd_useradd args lines s)
      else if cmd = cs ''passwd'' then saved (cmd_passwd lines s)
      else if cmd = cs ''login'' then opt_known (cmd_login args lines s)
      else if cmd = cs ''logout'' then opt_known (cmd_logout lines s)
      else if cmd = cs ''sleep'' then known (sleep_ticks (of_int (atoi args) * 1000) s)
      else if cmd = cs ''history'' then known (cmd_hist s)
      else if cmd = cs ''pimp'' then opt_known (cmd_pimp args s)
      else if cmd = cs ''dieselist'' then known (cmd_dieselist s)
      else if cmd = cs ''mode'' then opt_known (cmd_mode args s)
      else if cmd = cs ''dimpath'' then known (cmd_dimpath s)
      else if cmd = cs ''makedim'' then opt_known (cmd_makedim args s)
      else if cmd = cs ''setmode'' then saved (Some (cmd_setmode args s))
      else if cmd = cs ''setowner'' then saved (Some (cmd_setowner args s))
      else if cmd = cs ''dmesg'' then known (cmd_dmesg s)
      else if cmd = cs ''hexdump'' then known (cmd_hexdump args s)
      else if cmd = cs ''kstat'' then opt_known (cmd_kstat args s)
      else if cmd = cs ''netstat'' then known (cmd_netstat s)
      else if cmd = cs ''ifconfig'' then known (cmd_ifconfig s)
      else if cmd = cs ''netlog'' then known (cmd_netlog s)
      else if cmd = cs ''netrollback'' then opt_known (cmd_netrollback args s)
      else if cmd = cs ''replay'' then opt_known (cmd_replay_shell args s)
      else if cmd = cs ''bootlog'' then opt_known (cmd_bootlog s)
      else if cmd = cs ''bootpolicy'' then known (cmd_bootpolicy s)
      else if cmd = cs ''setfallback'' then opt_known (cmd_setfallback args s)
      else if cmd = cs ''caps'' then known (cmd_caps args s)
      else if cmd = cs ''grantcap'' then known (cmd_grantcap args s)
      else if cmd = cs ''revokecap'' then known (cmd_revokecap s)
      else if cmd = cs ''hexpack'' then opt_known (cmd_hexpack args s)
      else if cmd = cs ''inbox'' then known (cmd_inbox args s)
      else if cmd = cs ''sendevent'' then known (cmd_sendevent args s)
      else if cmd = cs ''pipes'' then known (cmd_pipes_list s)
      else if cmd = cs ''timels'' then opt_known (cmd_timels args s)
      else if cmd = cs ''timediff'' then known (cmd_timediff s)
      else if cmd = cs ''timeat'' then opt_known (cmd_timeat args s)
      else if cmd = cs ''move'' then opt_known (cmd_move args s)
      else if cmd = cs ''copy'' then opt_known (cmd_copy args s)
      else if cmd = cs ''ps'' then known (cmd_ps s)
      else if cmd = cs ''df'' then known (cmd_df s)
      else if cmd = cs ''which'' then known (cmd_which args s)
      else if cmd = cs ''cat'' then opt_known (cmd_cat args s)
      else if cmd = cs ''head'' then opt_known (cmd_head args s)
      else if cmd = cs ''true'' \<or> cmd = cs ''false'' then known s
      else if cmd = cs ''env'' then known (cmd_env s)
      else others cmd args lines s)"

text \<open>The recursion through \<^verbatim>\<open>diese\<close>, with a bound on its depth.\<close>

primrec execute_cmd ::
    "(bytes \<Rightarrow> bytes \<Rightarrow> bytes list \<Rightarrow> 'a kshell_scheme \<Rightarrow> (bool \<times> 'a kshell_scheme) option) \<Rightarrow>
      nat \<Rightarrow> bytes \<Rightarrow> bytes \<Rightarrow> bytes list \<Rightarrow> 'a kshell_scheme \<Rightarrow> (bool \<times> 'a kshell_scheme) option" where
  "execute_cmd others 0 cmd args lines s = None"
| "execute_cmd others (Suc n) cmd args lines s =
     (if cmd = cs ''diese'' then diese (execute_cmd others n) args lines s else plain_cmd others cmd args lines s)"

section \<open>Running as root\<close>

text \<open>As root, \<^verbatim>\<open>diese\<close> does not call the dispatch, and otherwise it calls it as root only.\<close>

lemma diese_root: "u_cur s = 0 \<Longrightarrow> diese exec args lines s = diese exec' args lines s"
  by (simp add: diese_def)

lemma diese_cong:
  assumes "\<And>c a l t. u_cur t = 0 \<Longrightarrow> exec c a l t = exec' c a l t"
  shows "diese exec args lines s = diese exec' args lines s"
proof -
  have r: "u_cur (print_color x k (t\<lparr>u_cur := 0\<rparr>)) = 0" for x k and t :: "'a kshell_scheme" by simp
  show ?thesis unfolding diese_def Let_def using assms [OF r] by (simp split: prod.split option.split list.split)
qed

lemma execute_cmd_root: "u_cur t = 0 \<Longrightarrow> execute_cmd others (Suc n) c a l t = execute_cmd others (Suc 0) c a l t"
  using diese_root [of t "execute_cmd others n" a l "execute_cmd others 0"] by simp

text \<open>
  C34: commands nest at most once.  The dispatch calls itself through \<^verbatim>\<open>diese\<close>, but inside it the user is root and
  a further \<^verbatim>\<open>diese\<close> only says so: a depth of two is enough for every command line, whatever it contains.
\<close>

theorem execute_cmd_depth: "execute_cmd others (Suc (Suc n)) cmd args lines s = execute_cmd others 2 cmd args lines s"
proof -
  have "diese (execute_cmd others (Suc n)) args lines s = diese (execute_cmd others (Suc 0)) args lines s"
    by (rule diese_cong) (rule execute_cmd_root)
  then show ?thesis by (simp only: execute_cmd.simps numeral_2_eq_2)
qed

text \<open>Whether the user may run commands as root: a rule allows it, or the first line typed is his password.\<close>

definition diese_authorised :: "bytes list \<Rightarrow> 'a kshell_scheme \<Rightarrow> bool" where
  "diese_authorised lines s \<longleftrightarrow> pimp_check (us_name (u_table s ! u_cur s)) 0xFFFFFFFF s \<or>
     (\<exists>pw rest. lines = pw # rest \<and> check_pwd pw (us_pass_hash (u_table s ! u_cur s)))"

lemma diese_refused:
  assumes "\<not> diese_authorised lines s" and "diese exec args lines s = Some (r, s')"
  shows "con_frame s s'"
proof -
  have f: "con_frame s (puts t s)" "con_frame s (print_color u k (print_string v s))" for t u v k
    unfolding puts_def by (rule con_frame_print_string, rule con_frame_trans [OF con_frame_print_string con_frame_print_color])
  show ?thesis using assms f
    by (cases lines) (auto simp: diese_def Let_def diese_authorised_def split: if_splits)
qed

lemma diese_restores:
  assumes "diese exec args lines s = Some (r, s')"
  shows "u_cur s' = u_cur s"
proof -
  have p: "u_cur (puts t x) = u_cur x" for t and x :: "'a kshell_scheme" by (simp add: puts_def)
  show ?thesis using assms
    by (auto simp: diese_def Let_def p split: if_splits list.splits option.splits prod.splits)
qed

text \<open>
  C35: root rights are lent for one command.  After \<^verbatim>\<open>diese\<close> the user is again the one before, whatever command
  was run; and unless a rule allows the user to run everything without a password, or the line he types is his
  own password, nothing but the screen has changed.
\<close>

theorem diese_safe:
  assumes "execute_cmd others n (cs ''diese'') args lines s = Some (r, s')"
  shows "u_cur s' = u_cur s \<and> (diese_authorised lines s \<or> con_frame s s')"
proof (cases n)
  case (Suc m)
  then have "diese (execute_cmd others m) args lines s = Some (r, s')" using assms by simp
  then show ?thesis using diese_restores diese_refused by blast
qed (use assms in simp)

section \<open>Reading text\<close>

text \<open>
  \<^verbatim>\<open>head\<close> shows the first lines.  Of a text that consists of lines it prints exactly the first \<open>n\<close>.
\<close>

theorem head_first_lines:
  assumes "\<forall>l \<in> set ls. 10 \<notin> set l"
  shows "head_text n (concat (map (\<lambda>l. l @ [10]) ls)) = concat (map (\<lambda>l. l @ [10]) (take n ls))"
  using assms
proof (induction n arbitrary: ls)
  case (Suc n)
  show ?case
  proof (cases ls)
    case (Cons l ls')
    have "10 \<notin> set l \<Longrightarrow> head_text (Suc n) (l @ 10 # t) = l @ 10 # head_text n t" for t by (induction l) auto
    then show ?thesis using Cons Suc by simp
  qed simp
qed simp

section \<open>Events\<close>

lemma count_events_ring:
  "ring_ok EVENT_QUEUE_SIZE q t h \<Longrightarrow> length (ring_list EVENT_QUEUE_SIZE q t h) \<le> n \<Longrightarrow>
    count_events n t h = length (ring_list EVENT_QUEUE_SIZE q t h)"
proof (induction n arbitrary: t)
  case (Suc n)
  show ?case
  proof (cases "t = h")
    case True
    then show ?thesis using ring_list_empty_iff [OF Suc.prems(1)] by simp
  next
    case False
    then have "length (ring_list EVENT_QUEUE_SIZE q t h) = Suc (length (ring_list EVENT_QUEUE_SIZE q ((t + 1) mod EVENT_QUEUE_SIZE) h))"
      using ring_list_get [OF Suc.prems(1)] by simp
    then show ?thesis using Suc.IH [OF ring_ok_get [OF Suc.prems(1)]] Suc.prems(2) False by simp
  qed
qed simp

text \<open>
  the inbox shows the number of events that wait.  For a process in the table, \<^verbatim>\<open>inbox\<close> prints the length of
  its event queue.
\<close>

theorem inbox_counts:
  assumes "proc_inv s" and "c_at args 0 \<noteq> 0" and "find_task (\<lambda>i t. t_pid t = atoi args \<and> t_state t \<noteq> TASK_DEAD) s = Some i"
  shows "cmd_inbox args s = puts '' pending events'' (print_num (of_nat (length (task_events (tasks s ! i))))
    (print_string (cs '': '') (print_string args (print_string (cs ''Inbox for PID '') s))))"
proof -
  let ?t = "tasks s ! i"
  have "task_ok ?t" using find_task_Some(1) [OF assms(3)] assms(1) by (simp add: proc_inv_def)
  then have r: "ring_ok EVENT_QUEUE_SIZE (t_event_queue ?t) (t_event_tail ?t) (t_event_head ?t)" by (simp add: task_ok_def)
  have "count_events EVENT_QUEUE_SIZE (t_event_tail ?t) (t_event_head ?t) = length (task_events ?t)"
    unfolding task_events_def using ring_length_le [OF r] by (intro count_events_ring [OF r]) simp
  then show ?thesis using assms(2,3) by (simp add: cmd_inbox_def Let_def)
qed

section \<open>The calculator\<close>

lemma calc_args_words:
  assumes "op \<noteq> 0" and "op \<noteq> 32"
  shows "calc_args (itoa a 10 @ 32 # op # 32 # itoa b 10) = (itoa a 10, op, itoa b 10)"
proof -
  let ?w = "itoa a 10 @ 32 # op # 32 # itoa b 10"
  have "0 \<notin> set ?w" using assms itoa_chars by auto
  then have c: "c_str ?w = ?w" by (rule c_str_id)
  have t: "takeWhile (\<lambda>c. c \<noteq> 32) ?w = itoa a 10" using itoa_chars [of _ a] by (simp add: takeWhile_append2)
  have e: "c_str (itoa b 10) = itoa b 10" using itoa_chars by (intro c_str_id) auto
  have d: "dropWhile (\<lambda>c. c = 32) (itoa b 10) = itoa b 10"
    using itoa_chars [of "hd (itoa b 10)" b] itoa_nonempty [of b] by (cases "itoa b 10") auto
  show ?thesis unfolding calc_args_def Let_def c t using assms(2) d e by (simp add: c_at_def)
qed

text \<open>
  C36: the calculator calculates.  For every two numbers, written in decimal with the operator between blanks,
  \<^verbatim>\<open>calc\<close> prints their sum, difference, product or quotient, as a signed 32-bit number and rounded towards zero;
  only division by zero is refused, and dividing the least number by -1 does not return.
\<close>

theorem calc_calculates:
  assumes "op \<in> {43, 45, 42, 47}"
  shows "cmd_calc (itoa a 10 @ 32 # op # 32 # itoa b 10) s =
    (if op = 47 \<and> to_int b = 0 then Some (puts ''Div by zero!'' s)
     else if op = 47 \<and> to_int a = - (2 ^ 31) \<and> to_int b = -1 then None
     else Some (print_string [10] (print_string (itoa (of_int (if op = 43 then to_int a + to_int b else if op = 45 then to_int a - to_int b
        else if op = 42 then to_int a * to_int b else to_int a sdiv to_int b)) 10) (print_string (cs ''= '') s))))"
proof -
  have "op \<noteq> 0" "op \<noteq> 32" using assms by auto
  from calc_args_words [OF this, of a b] show ?thesis
    using assms itoa_nonempty length_itoa_10 [of a] length_itoa_10 [of b]
    by (auto simp: cmd_calc_def atoi_itoa calc_result_def print_num_def not_less [symmetric])
qed

section \<open>What the commands get wrong\<close>

text \<open>
  \<^verbatim>\<open>mode\<close> compares its whole argument with the names of its functions, so with numbers behind the name it only
  prints the usage.
\<close>

lemma mode_set_unreachable:
  "cmd_mode (cs ''set 800 600 32'') s = Some (mode_usage s) \<and> cmd_mode (cs ''color 255 0 0'') s = Some (mode_usage s)"
  by (simp add: cmd_mode_def cs_def c_str_def)

text \<open>
  \<^verbatim>\<open>calc\<close> without an operator copies what the array of arguments has behind the terminator, the rest of an
  earlier command: 16 bytes there do not fit the second word, which the usage would not even print.
\<close>

lemma calc_reads_behind:
  "cmd_calc (cs ''1'' @ 0 # cs ''0123456789abcdef'') s = None \<and>
   cmd_calc (cs ''1'') s = Some (puts ''Usage: calc <num> <+|-|*|/> <num>'' s)"
  by (simp add: cmd_calc_def calc_args_def Let_def cs_def c_str_def c_at_def)

text \<open>The form of \<^verbatim>\<open>pimp add\<close> that the usage shows makes a rule for a user whose name has a blank.\<close>

lemma pimp_add_usage: "fst (pimp_add_args (cs ''bob caps=nopass'')) = cs ''bob caps''"
  by (simp add: pimp_add_args_def cs_def)

text \<open>
  Deleting a form moves the later ones down and leaves the last slot as it was, so it still points to the text
  of the form that is the last one now.
\<close>

lemma shift_form_slots: "n < length t \<Longrightarrow> i \<le> n \<Longrightarrow>
    fold (\<lambda>i t. t[i := t ! (i + 1)]) [i..<n] t = take i t @ take (n - i) (drop (Suc i) t) @ drop n t"
proof (induction "n - i" arbitrary: i t)
  case (Suc d)
  let ?t = "t[i := t ! (i + 1)]"
  have "fold (\<lambda>i t. t[i := t ! (i + 1)]) [i..<n] t = fold (\<lambda>i t. t[i := t ! (i + 1)]) [Suc i..<n] ?t"
    using Suc.hyps(2) by (simp add: upt_conv_Cons)
  also have "\<dots> = take (Suc i) ?t @ take (n - Suc i) (drop (Suc (Suc i)) ?t) @ drop n ?t"
    using Suc.hyps Suc.prems by (intro Suc.hyps(1)) auto
  also have "\<dots> = take i t @ t ! Suc i # take (n - Suc i) (drop (Suc (Suc i)) t) @ drop n t"
    using Suc.hyps(2) Suc.prems by (simp add: take_Suc_conv_app_nth drop_update_cancel)
  finally have e: "fold (\<lambda>i t. t[i := t ! (i + 1)]) [i..<n] t =
    take i t @ (t ! Suc i # take (n - Suc i) (drop (Suc (Suc i)) t)) @ drop n t" by simp
  have "n - i = Suc (n - Suc i)" "Suc i < length t" using Suc.hyps(2) Suc.prems by simp_all
  then have "t ! Suc i # take (n - Suc i) (drop (Suc (Suc i)) t) = take (n - i) (drop (Suc i) t)"
    by (simp add: Cons_nth_drop_Suc [symmetric])
  then show ?case unfolding e by simp
qed (simp add: id_take_nth_drop)

text \<open>
  A copy can destroy another form.  After a form was deleted, the slot that \<^verbatim>\<open>copy\<close> fills still has the pointer
  and the capacity of the last form in the table; if the copied text is not longer than this capacity, the new
  form and the last one share their memory, and the last one's text is overwritten.
\<close>

theorem copy_shares_memory:
  assumes "form_count s = Suc n" and "n < length (form_table s)" and "idx < n"
    and "t = fold (\<lambda>i t. t[i := t ! (i + 1)]) [idx..<n] (form_table s)" and "s1 = s\<lparr>form_table := t, form_count := n\<rparr>"
    and "si < n" and "fm_size (t ! si) \<le> fm_cap (t ! n)"
  shows "\<exists>s2. copy_form si dst s1 = Some s2 \<and> form_count s2 = Suc n \<and>
    fm_content (form_table s2 ! n) = fm_content (form_table s2 ! (n - 1)) \<and>
    vmem s2 = memcpy (fm_content (t ! (n - 1))) (fm_content (t ! si)) (unat (of_int (fm_size (t ! si)) :: u32)) (vmem s)"
proof -
  have t: "t = take idx (form_table s) @ take (n - idx) (drop (Suc idx) (form_table s)) @ drop n (form_table s)"
    unfolding assms(4) using assms(2,3) by (intro shift_form_slots) simp_all
  have l: "length t = length (form_table s)" using t assms(2,3) by simp
  have a: "t ! n = form_table s ! n" using assms(2,3) by (simp add: t nth_append)
  have b: "t ! (n - 1) = form_table s ! n" using assms(2,3) by (simp add: t nth_append min_def)
  have e: "form_ensure_cap n (fm_size (t ! si)) s1 = Some (True, s1)" using assms(5,7) by (simp add: form_ensure_cap_def)
  show ?thesis using e assms(2,3,5,6) l a b
    by (auto simp: copy_form_def upd_form_def nth_list_update Let_def)
qed

section \<open>Examples\<close>

text \<open>The first lines of a text of three, a sum, and the refusal of a wrong password.\<close>

theorem head_first_lines_witness: "head_text 2 (cs ''a'' @ [10] @ cs ''bc'' @ [10] @ cs ''d'' @ [10]) = cs ''a'' @ [10] @ cs ''bc'' @ [10]"
  using head_first_lines [of "[cs ''a'', cs ''bc'', cs ''d'']" 2] by (simp add: cs_def)

theorem calc_calculates_witness:
  "cmd_calc (itoa (-7) 10 @ 32 # 47 # 32 # itoa 2 10) bss_kshell = Some (print_string [10] (print_string (itoa (-3) 10) (print_string (cs ''= '') bss_kshell)))"
proof -
  have "to_int (-7) = -7" "to_int 2 = 2" "(-7 :: int) sdiv 2 = -3" by code_simp+
  then show ?thesis using calc_calculates [of 47 "-7" 2 bss_kshell] by simp
qed

definition guest_kernel :: kshell where
  "guest_kernel = bss_kshell\<lparr>u_cur := 1, u_table := [\<lparr>us_name = cs ''root'', us_pass_hash = zeros 34, us_is_root = 1\<rparr>,
     \<lparr>us_name = cs ''guest'', us_pass_hash = zeros 34, us_is_root = 0\<rparr>]\<rparr>"

theorem diese_safe_witness:
  "\<exists>r s'. execute_cmd (\<lambda>_ _ _ _. None) 2 (cs ''diese'') (cs ''clear'') [cs ''secret''] guest_kernel = Some (r, s') \<and> u_cur s' = 1 \<and> con_frame guest_kernel s'"
proof -
  have p: "\<not> pimp_check u c guest_kernel" for u c by (simp add: pimp_check_def guest_kernel_def bss_kshell_def kobs.defs bss_kobs_defs)
  have h: "us_pass_hash (u_table guest_kernel ! u_cur guest_kernel) = zeros 34" "u_cur guest_kernel = 1" by (simp_all add: guest_kernel_def)
  have c: "\<not> check_pwd (cs ''secret'') (zeros 34)" by (simp add: check_pwd_def c_at_def zeros_def)
  have "\<not> diese_authorised [cs ''secret''] guest_kernel" using p h c by (simp add: diese_authorised_def)
  moreover have "c_at (cs ''clear'') 0 \<noteq> 0" by code_simp
  then have "diese ex (cs ''clear'') [cs ''secret''] guest_kernel = Some (True, print_color (cs ''Access denied.'' @ [10]) 0x0C (print_string (cs ''password: '') guest_kernel))" for ex
    using p h c by (simp add: diese_def Let_def)
  then obtain r s' where "execute_cmd (\<lambda>_ _ _ _. None) 2 (cs ''diese'') (cs ''clear'') [cs ''secret''] guest_kernel = Some (r, s')"
    by (simp add: numeral_2_eq_2)
  ultimately show ?thesis using diese_safe h(2) by metis
qed

definition inbox_kernel :: kshell where
  "inbox_kernel = bss_kshell\<lparr>tasks := tasks one_task, current_task := current_task one_task, num_tasks := num_tasks one_task,
     next_pid := next_pid one_task, tss := tss one_task\<rparr>"

theorem inbox_counts_witness:
  "cmd_inbox (cs ''7'') inbox_kernel = puts '' pending events'' (print_num 0
    (print_string (cs '': '') (print_string (cs ''7'') (print_string (cs ''Inbox for PID '') inbox_kernel))))"
proof -
  have inv: "proc_inv inbox_kernel" using one_task(1) by (simp add: inbox_kernel_def proc_inv_def)
  have t0: "tasks inbox_kernel ! 0 = (init_task bss_task)\<lparr>t_pid := 7, t_state := TASK_READY\<rparr>" using one_task(2) by (simp add: inbox_kernel_def)
  have a: "atoi (cs ''7'') = 7" by code_simp
  have f: "find_task (\<lambda>i t. t_pid t = atoi (cs ''7'') \<and> t_state t \<noteq> TASK_DEAD) inbox_kernel = Some 0"
    unfolding a by (rule find_pid [OF inv]) (simp_all add: t0)
  have e: "task_events (tasks inbox_kernel ! 0) = []" by (simp add: t0 task_events_def ring_list_def init_task_def)
  have "c_at (cs ''7'') 0 \<noteq> 0" by (simp add: c_at_def cs_def)
  from inbox_counts [OF inv this f] show ?thesis by (simp add: e)
qed

end
