(* ===== verification/Hexa_Kernel.thy ===== *)
theory Hexa_Kernel
  imports Hexa_Commands
begin

text \<open>
  The start of the system, \<^verbatim>\<open>kernel_main\<close> of \<^verbatim>\<open>hexa.c\<close>: it initialises the components in their order, loads the
  disk, asks for a login and runs the shell.  What the code takes from the linker, the assembly stubs and the
  hardware is the record \<open>boot_env\<close>: the second of the real-time clock, the addresses of tables and stubs, the end
  of the kernel's image and what the display controller answers.  Interrupts that arrive between the steps are not
  part of the boot; they are the steps of the other theories.
\<close>

section \<open>Initialisation\<close>

record boot_env =
  be_seed :: u8
  be_gdt :: u32
  be_idt :: u32
  be_tss :: u32
  be_isr :: "nat \<Rightarrow> u32"
  be_irq :: "nat \<Rightarrow> u32"
  be_syscall :: u32
  be_kernel_end :: u32
  be_vbe :: u16
  be_user_entry :: u32
  be_shell_entry :: u32

definition boot_msg :: "string \<Rightarrow> 'a kcon_scheme \<Rightarrow> 'a kcon_scheme" where
  "boot_msg t s = print_color (cs ''[BOOT] '' @ cs t @ [10]) 0x0A s"

text \<open>The processor's tables, the interrupt controllers and the memory: 32 MB.\<close>

definition boot_machine :: "boot_env \<Rightarrow> 'a kshell_scheme \<Rightarrow> 'a kshell_scheme" where
  "boot_machine e s =
     (let s = outb PIC2_DATA 0xFF (outb PIC1_DATA 0xFF (s\<lparr>rseed := ucast (be_seed e)\<rparr>));
          s = setup_gdt (be_gdt e) (boot_msg ''Setting up GDT...'' s);
          s = idt_init (be_idt e) (be_isr e) (be_irq e) (be_syscall e) (boot_msg ''Setting up IDT...'' s)
      in pit_init 100 (pic_remap s))"

definition boot_memory :: "boot_env \<Rightarrow> 'a kshell_scheme \<Rightarrow> 'a kshell_scheme" where
  "boot_memory e s =
     kheap_init (paging_init (pmm_init (32 * 1024 * 1024) (be_kernel_end e) (boot_msg ''Enabling paging...'' s)))"

definition boot_services :: "boot_env \<Rightarrow> 'a kshell_scheme \<Rightarrow> 'a kshell_scheme" where
  "boot_services e s =
     (let s = log_init (boot_msg ''Initializing logging...'' s);
          s = kobserve_init (boot_msg ''Initializing kernel observers...'' s);
          s = intent_init (boot_msg ''Initializing intent system...'' s);
          s = snd (replay_init (boot_msg ''Initializing replay system...'' s));
          s = net_register_observers (net_init (boot_msg ''Initializing network stack...'' s))
      in fb_init (be_vbe e) (boot_msg ''Initializing framebuffer...'' s))"

text \<open>The digits of a process number, which is positive.\<close>

definition pid_text :: "int \<Rightarrow> bytes" where
  "pid_text n = (if n = 0 then [48] else rev (itoa_loop 10 (nat n)))"

definition boot_tasks :: "boot_env \<Rightarrow> 'a kshell_scheme \<Rightarrow> 'a kshell_scheme" where
  "boot_tasks e s =
     (let s = vfs_init (setup_tss (be_tss e) (proc_init (boot_msg ''Initializing task manager...'' s)));
          (user_pid, s) = proc_create (be_user_entry e) (cs ''user_task'') 1 s;
          s = (if user_pid \<ge> 0
               then print_color [10] 0x0A (print_color (pid_text user_pid) 0x0A (print_color (cs ''[BOOT] User task created, PID='') 0x0A s))
               else s);
          (shell_pid, s) = proc_create (be_shell_entry e) (cs ''shell'') 1 s;
          s = (if shell_pid \<ge> 0 then upd_task 1 (\<lambda>t. t\<lparr>t_state := TASK_RUNNING\<rparr>) (s\<lparr>current_task := 1\<rparr>) else s)
      in boot_msg ''Enabling interrupts...'' s)"

definition kernel_init :: "boot_env \<Rightarrow> 'a kshell_scheme \<Rightarrow> 'a kshell_scheme" where
  "kernel_init e s = boot_tasks e (boot_services e (boot_memory e (boot_machine e s)))"

section \<open>Disk, login and shell\<close>

definition boot_disk :: "'a kshell_scheme \<Rightarrow> 'a kshell_scheme option" where
  "boot_disk s =
     do {
       let s = ata_init (init_users s);
       let s = (if disk_ok s then snd (hexafs_mount s)
                else snd (hexafs_mount (snd (hexafs_format_fs (print_color (cs ''[BOOT] No disk - formatting...'' @ [10]) 0x0E s)))));
       s \<leftarrow> load_data s;
       (ok, s) \<leftarrow> pimp_load_rules (boot_msg ''Loading pimp rules...'' s);
       Some (snd (boot_policy_execute (boot_msg ''Executing boot policy...'' s)))
     }"

text \<open>The lines are those typed at the login screen; the result has the rest of them.\<close>

definition boot_login :: "bytes list \<Rightarrow> 'a kshell_scheme \<Rightarrow> ('a kshell_scheme \<times> bytes list) option" where
  "boot_login lines s =
     map_option (\<lambda>(s, rest). (log_write LOG_LEVEL_INFO (cs ''System boot complete'') (fold serial_putc (cs ''[OK]'' @ [10]) s), rest))
       (do_login lines s)"

text \<open>
  The shell, once per element of the list: the lines that the command itself reads.  The characters of the command
  line come from the rounds of polling.
\<close>

primrec shell_loop ::
    "(bytes \<Rightarrow> bytes \<Rightarrow> bytes list \<Rightarrow> 'a kshell_scheme \<Rightarrow> (bool \<times> 'a kshell_scheme) option) \<Rightarrow> bytes list list \<Rightarrow> round list \<Rightarrow>
      'a kshell_scheme \<Rightarrow> (round list \<times> 'a kshell_scheme) option" where
  "shell_loop others [] rs s = Some (rs, s)"
| "shell_loop others (ls # lss) rs s =
     (case shell_round (\<lambda>cmd args s. execute_cmd others 2 cmd args ls s) (zeros 128) rs s of
        None \<Rightarrow> None
      | Some (rs, s) \<Rightarrow> shell_loop others lss rs s)"

definition kernel_main ::
    "boot_env \<Rightarrow> (bytes \<Rightarrow> bytes \<Rightarrow> bytes list \<Rightarrow> 'a kshell_scheme \<Rightarrow> (bool \<times> 'a kshell_scheme) option) \<Rightarrow> bytes list \<Rightarrow>
      bytes list list \<Rightarrow> round list \<Rightarrow> 'a kshell_scheme \<Rightarrow> (round list \<times> 'a kshell_scheme) option" where
  "kernel_main e others logins lss rs s =
     do {
       s \<leftarrow> boot_disk (kernel_init e s);
       (s, rest) \<leftarrow> boot_login logins s;
       shell_loop others lss rs s
     }"

section \<open>The heap is mapped\<close>

lemma free_pages_le: "pmm_inv s \<Longrightarrow> pmm_alloc s = (a, s') \<Longrightarrow> a \<noteq> 0 \<Longrightarrow> dir_inv pd s \<Longrightarrow> dir_inv pd s'"
  using pmm_alloc_frame [of s a s'] by (auto simp: dir_inv_def pde_at_def)

lemma pmm_alloc_cr3 [simp]: "cr3 (snd (pmm_alloc s)) = cr3 s"
  by (simp add: pmm_alloc_def pmm_set_def split: option.split)

lemma ensure_table_room:
  assumes "dir_inv pd s" and "Suc n \<le> free_pages s"
  shows "dir_inv pd (ensure_table pd v s)" and "present (pmem (ensure_table pd v s) (slot_addr pd (pd_index v)))"
    and "mmu_translate (pmem (ensure_table pd v s)) pd w = mmu_translate (pmem s) pd w"
    and "n \<le> free_pages (ensure_table pd v s)" and "pmm_used s \<subseteq> pmm_used (ensure_table pd v s)" and "cr3 (ensure_table pd v s) = cr3 s"
proof -
  have inv: "pmm_inv s" using assms(1) by (simp add: dir_inv_def)
  obtain a s1 where a: "pmm_alloc s = (a, s1)" "a \<noteq> 0" "n \<le> free_pages s1" using pmm_alloc_room [OF inv assms(2)] by metis
  then have ok: "present (pmem s (slot_addr pd (pd_index v))) \<or> fst (pmm_alloc s) \<noteq> 0" by simp
  show "dir_inv pd (ensure_table pd v s)" "present (pmem (ensure_table pd v s) (slot_addr pd (pd_index v)))"
    "mmu_translate (pmem (ensure_table pd v s)) pd w = mmu_translate (pmem s) pd w"
    using ensure_table_ok [OF assms(1) ok] by blast+
  show "n \<le> free_pages (ensure_table pd v s)" using a assms(2) by (simp add: ensure_table_def)
  show "pmm_used s \<subseteq> pmm_used (ensure_table pd v s)"
    using a(1) pmm_alloc_frame(3) [OF inv a(1,2)] by (auto simp: ensure_table_def)
  show "cr3 (ensure_table pd v s) = cr3 s" using pmm_alloc_cr3 [of s] a(1) by (simp add: ensure_table_def)
qed

lemma map_heap_page_ok:
  assumes "dir_inv (cr3 s) s" and "Suc (Suc n) \<le> free_pages s" and "mmu_translate (pmem s) (cr3 s) addr = None"
  obtains f where "dir_inv (cr3 s) (map_heap_page addr s)" and "cr3 (map_heap_page addr s) = cr3 s"
    and "n \<le> free_pages (map_heap_page addr s)" and "page_aligned f" and "page_num f \<notin> pmm_used s"
    and "insert (page_num f) (pmm_used s) \<subseteq> pmm_used (map_heap_page addr s)"
    and "\<And>v. mmu_translate (pmem (map_heap_page addr s)) (cr3 s) v =
      (if drop_bit 12 v = drop_bit 12 addr then Some (f OR (v AND 0xFFF)) else mmu_translate (pmem s) (cr3 s) v)"
proof -
  let ?pd = "cr3 s" let ?s1 = "ensure_table (cr3 s) addr s"
  note e = ensure_table_room [OF assms(1,2), of addr]
  have inv: "pmm_inv ?s1" using e(1) by (simp add: dir_inv_def)
  obtain f s2 where f: "pmm_alloc ?s1 = (f, s2)" "f \<noteq> 0" "n \<le> free_pages s2" using pmm_alloc_room [OF inv e(4)] by metis
  note fr = pmm_alloc_frame [OF inv f(1,2)]
  have "mmu_translate (pmem ?s1) ?pd addr = None" using e(3) assms(3) by simp
  then have np: "\<not> present (pmem ?s1 (slot_addr (frame_of (pmem ?s1 (slot_addr ?pd (pd_index addr)))) (pt_index addr)))"
    using e(2) by (auto simp: mmu_translate_def Let_def split: if_splits)
  have r: "map_heap_page addr s = set_pte ?pd addr (f OR 3) s2"
    using np f(1,2) fr(5) by (simp add: map_heap_page_def set_pte_def Let_def)
  have d2: "dir_inv ?pd s2" by (rule free_pages_le [OF inv f(1,2) e(1)])
  have p2: "present (pmem s2 (slot_addr ?pd (pd_index addr)))" using e(2) fr(5) by simp
  show thesis
  proof (rule that [of f])
    show "dir_inv ?pd (map_heap_page addr s)" unfolding r by (rule set_pte_dir_inv [OF d2 p2])
    show "cr3 (map_heap_page addr s) = cr3 s" using pmm_alloc_cr3 [of ?s1] f(1) e(6) by (simp add: r set_pte_def)
    show "n \<le> free_pages (map_heap_page addr s)" using f(3) by (simp add: r set_pte_def)
    show "page_aligned f" by (rule fr(1))
    show "page_num f \<notin> pmm_used s" using fr(2) e(5) by blast
    show "insert (page_num f) (pmm_used s) \<subseteq> pmm_used (map_heap_page addr s)" using fr(3) e(5) by (auto simp: r set_pte_def)
    show "mmu_translate (pmem (map_heap_page addr s)) ?pd v =
      (if drop_bit 12 v = drop_bit 12 addr then Some (f OR (v AND 0xFFF)) else mmu_translate (pmem s) ?pd v)" for v
      using set_pte_translate [OF d2 p2, of "f OR 3" v] e(3) [of v] fr(5) frame_entry [OF fr(1)] by (simp add: r)
  qed
qed

text \<open>The pages of the heap: each gets a frame of its own that was free before.\<close>

definition heap_page :: "nat \<Rightarrow> u32" where
  "heap_page i = HEAP_START + of_nat i * of_nat PAGE_SIZE"

lemma heap_page_eq: "i < 256 \<Longrightarrow> j < 256 \<Longrightarrow> drop_bit 12 (heap_page i) = drop_bit 12 (heap_page j) \<longleftrightarrow> i = j"
  and heap_page_no: "i < 256 \<Longrightarrow> unat (heap_page i) = 0x800000 + 4096 * i"
proof -
  have u: "unat (heap_page i) = 0x800000 + 4096 * i" if "i < 256" for i
    using that by (simp add: heap_page_def unat_word_ariths unat_of_nat)
  then show "i < 256 \<Longrightarrow> unat (heap_page i) = 0x800000 + 4096 * i" by simp
  have d: "(0x800000 + 4096 * k) div 2 ^ 12 = 2048 + k" for k :: nat by simp
  have p: "unat (drop_bit 12 (heap_page k)) = 2048 + k" if "k < 256" for k
    unfolding unat_drop_bit_eq drop_bit_nat_def u [OF that] by (rule d)
  assume "i < 256" "j < 256"
  then have "drop_bit 12 (heap_page i) = drop_bit 12 (heap_page j) \<Longrightarrow> 2048 + i = 2048 + j" using p [of i] p [of j] by metis
  then show "drop_bit 12 (heap_page i) = drop_bit 12 (heap_page j) \<longleftrightarrow> i = j" by auto
qed

definition heap_mapped :: "nat \<Rightarrow> (nat \<Rightarrow> u32) \<Rightarrow> 'a kmem_scheme \<Rightarrow> 'a kmem_scheme \<Rightarrow> bool" where
  "heap_mapped n fr s t \<longleftrightarrow> dir_inv (cr3 s) t \<and> cr3 t = cr3 s \<and> pmm_used s \<subseteq> pmm_used t \<and> inj_on (page_num \<circ> fr) {..<n} \<and>
     (\<forall>i < n. page_aligned (fr i) \<and> page_num (fr i) \<in> pmm_used t - pmm_used s \<and>
        (\<forall>v. drop_bit 12 v = drop_bit 12 (heap_page i) \<longrightarrow> mmu_translate (pmem t) (cr3 s) v = Some (fr i OR (v AND 0xFFF)))) \<and>
     (\<forall>v. (\<forall>i < n. drop_bit 12 v \<noteq> drop_bit 12 (heap_page i)) \<longrightarrow> mmu_translate (pmem t) (cr3 s) v = mmu_translate (pmem s) (cr3 s) v)"

lemma heap_pages_mapped:
  assumes "dir_inv (cr3 s) s" and "2 * 256 \<le> free_pages s"
    and "\<And>i. i < 256 \<Longrightarrow> mmu_translate (pmem s) (cr3 s) (heap_page i) = None"
  shows "n \<le> 256 \<Longrightarrow> \<exists>fr. heap_mapped n fr s (fold (\<lambda>i. map_heap_page (heap_page i)) [0..<n] s) \<and>
    2 * (256 - n) \<le> free_pages (fold (\<lambda>i. map_heap_page (heap_page i)) [0..<n] s)"
proof (induction n)
  case 0
  show ?case using assms(1,2) by (simp add: heap_mapped_def)
next
  case (Suc n)
  let ?t = "fold (\<lambda>i. map_heap_page (heap_page i)) [0..<n] s"
  obtain fr where fr: "heap_mapped n fr s ?t" and free: "2 * (256 - n) \<le> free_pages ?t" using Suc by auto
  have d: "dir_inv (cr3 ?t) ?t" "cr3 ?t = cr3 s" using fr by (simp_all add: heap_mapped_def)
  have ne: "drop_bit 12 (heap_page n) \<noteq> drop_bit 12 (heap_page i)" if "i < n" for i using heap_page_eq [of n i] Suc.prems that by simp
  then have "mmu_translate (pmem ?t) (cr3 s) (heap_page n) = mmu_translate (pmem s) (cr3 s) (heap_page n)"
    using fr unfolding heap_mapped_def by blast
  then have none: "mmu_translate (pmem ?t) (cr3 ?t) (heap_page n) = None" using assms(3) [of n] Suc.prems d(2) by simp
  have r: "Suc (Suc (2 * (256 - Suc n))) \<le> free_pages ?t" using free Suc.prems by simp
  obtain f where f: "dir_inv (cr3 s) (map_heap_page (heap_page n) ?t)" "cr3 (map_heap_page (heap_page n) ?t) = cr3 s"
    "2 * (256 - Suc n) \<le> free_pages (map_heap_page (heap_page n) ?t)" "page_aligned f" "page_num f \<notin> pmm_used ?t"
    "insert (page_num f) (pmm_used ?t) \<subseteq> pmm_used (map_heap_page (heap_page n) ?t)"
    "\<And>v. mmu_translate (pmem (map_heap_page (heap_page n) ?t)) (cr3 s) v =
      (if drop_bit 12 v = drop_bit 12 (heap_page n) then Some (f OR (v AND 0xFFF)) else mmu_translate (pmem ?t) (cr3 s) v)"
    using map_heap_page_ok [OF d(1) r none] unfolding d(2) by blast
  let ?fr = "fr(n := f)"
  have old: "page_num (fr i) \<in> pmm_used ?t - pmm_used s" "page_aligned (fr i)" if "i < n" for i using fr that by (auto simp: heap_mapped_def)
  have "inj_on (page_num \<circ> fr) {..<n}" using fr by (simp add: heap_mapped_def)
  moreover have "inj_on (page_num \<circ> ?fr) {..<n} = inj_on (page_num \<circ> fr) {..<n}" by (rule inj_on_cong) simp
  moreover have "page_num f \<notin> (page_num \<circ> ?fr) ` {..<n}" using f(5) old(1) by force
  ultimately have m1: "inj_on (page_num \<circ> ?fr) {..<Suc n}" by (simp add: lessThan_Suc inj_on_insert)
  have m2: "page_num (?fr i) \<in> pmm_used (map_heap_page (heap_page n) ?t) - pmm_used s \<and> page_aligned (?fr i)" if "i < Suc n" for i
    using that old f(4,5,6) fr by (auto simp: less_Suc_eq heap_mapped_def)
  have m3: "mmu_translate (pmem (map_heap_page (heap_page n) ?t)) (cr3 s) v = Some (?fr i OR (v AND 0xFFF))"
    if "i < Suc n" "drop_bit 12 v = drop_bit 12 (heap_page i)" for i v
    using that ne [of i] fr by (cases "i = n") (auto simp: f(7) heap_mapped_def)
  have m4: "mmu_translate (pmem (map_heap_page (heap_page n) ?t)) (cr3 s) v = mmu_translate (pmem s) (cr3 s) v"
    if "\<forall>i < Suc n. drop_bit 12 v \<noteq> drop_bit 12 (heap_page i)" for v
    using that fr by (simp add: f(7) heap_mapped_def)
  have m5: "pmm_used s \<subseteq> pmm_used (map_heap_page (heap_page n) ?t)" using f(6) fr unfolding heap_mapped_def by blast
  have "heap_mapped (Suc n) ?fr s (map_heap_page (heap_page n) ?t)"
    unfolding heap_mapped_def using m1 m2 m3 m4 m5 f(1,2) by (intro conjI allI impI) blast+
  moreover have "fold (\<lambda>i. map_heap_page (heap_page i)) [0..<Suc n] s = map_heap_page (heap_page n) ?t" by simp
  ultimately show ?case using f(3) by metis
qed

text \<open>
  The kernel heap lies in memory of its own.  With enough free pages when paging is on, \<^verbatim>\<open>kheap_init\<close> maps each of
  its 256 pages to a frame that was free before and belongs to no other page of the heap, leaves every other
  translation as it was, and starts with one free block of the whole arena.
\<close>

lemma kheap_init_maps:
  assumes "dir_inv (cr3 s) s" and "cr3 s = get_kernel_page_dir s" and "512 \<le> free_pages s"
    and "\<forall>v. 0x800000 \<le> unat v \<longrightarrow> mmu_translate (pmem s) (cr3 s) v = None"
  shows "\<exists>fr. heap_mapped 256 fr s (kheap_init s) \<and> heap_rep [(unat (HEAP_INIT_SIZE - HB_SIZE), True)] (kheap_init s)"
proof -
  let ?s = "s\<lparr>heap_phys_start := HEAP_START, heap_phys_end := HEAP_START + HEAP_INIT_SIZE\<rparr>"
  have n: "mmu_translate (pmem ?s) (cr3 ?s) (heap_page i) = None" if "i < 256" for i using assms(4) heap_page_no [OF that] by simp
  have i: "dir_inv (cr3 ?s) ?s" "2 * 256 \<le> free_pages ?s" using assms(1,3)
    by (simp_all add: dir_inv_def pmm_inv_def pmm_test_def pmm_used_def pde_at_def free_pages_def)
  obtain fr where fr: "heap_mapped 256 fr ?s (fold (\<lambda>i. map_heap_page (heap_page i)) [0..<256] ?s)"
    using heap_pages_mapped [OF i n, of 256] by blast
  let ?t = "fold (\<lambda>i. map_heap_page (heap_page i)) [0..<256] ?s"
  have "get_kernel_page_dir (map_heap_page a u) = get_kernel_page_dir u" for a and u :: "'a kheap_scheme"
    by (auto simp: get_kernel_page_dir_def map_heap_page_def ensure_table_def pmm_alloc_def pmm_set_def Let_def split: option.splits prod.splits)
  then have k: "get_kernel_page_dir (fold (\<lambda>i. map_heap_page (heap_page i)) xs u) = get_kernel_page_dir u" for xs and u :: "'a kheap_scheme"
    by (induction xs arbitrary: u) simp_all
  have "heap_mapped 256 fr s (kheap_init s) = heap_mapped 256 fr ?s ?t"
    using assms(2) k [of "[0..<256]" ?s] fr
    by (simp add: kheap_init_def Let_def heap_mapped_def dir_inv_def pmm_inv_def pmm_test_def pmm_used_def pde_at_def heap_page_def get_kernel_page_dir_def)
  then show ?thesis using fr kheap_init_rep [of s] by blast
qed

section \<open>What the steps leave alone\<close>

lemma con_frame_boot:
  fixes s :: "'a kshell_scheme"
  assumes "con_frame s s'"
  shows "pmm_bitmap s' = pmm_bitmap s" "pmm_max_page s' = pmm_max_page s" "pmm_last_alloc s' = pmm_last_alloc s" "pmem s' = pmem s"
    "cr3 s' = cr3 s" "paging_on s' = paging_on s" "kernel_page_dir_phys s' = kernel_page_dir_phys s"
    "heap_first s' = heap_first s" "vmem s' = vmem s" "tasks s' = tasks s" "next_pid s' = next_pid s" "tasks_addr s' = tasks_addr s"
    "current_task s' = current_task s" "num_tasks s' = num_tasks s" "tss s' = tss s" "net_interfaces s' = net_interfaces s"
    "net_connections s' = net_connections s" "net_if_count s' = net_if_count s" "net_conn_count s' = net_conn_count s"
    "vfs_fds s' = vfs_fds s" "intent_table s' = intent_table s" "next_handle s' = next_handle s" "replay_buffer s' = replay_buffer s"
    "replay_count s' = replay_count s" "replay_recording s' = replay_recording s" "kobserve_table s' = kobserve_table s"
    "kobserve_count s' = kobserve_count s" "log_ring s' = log_ring s" "log_head s' = log_head s" "log_tail s' = log_tail s"
  using assms unfolding con_frame_def by auto

lemma con_frame_boot_msg: "con_frame s (boot_msg t s)"
  unfolding boot_msg_def by (rule con_frame_print_color)

lemmas boot_prints [simp] = con_frame_boot [OF con_frame_boot_msg] con_frame_boot [OF con_frame_print_color]

lemma log_write_boot [simp]:
  fixes s :: "'a kshell_scheme"
  shows "net_interfaces (log_write l m s) = net_interfaces s" "net_connections (log_write l m s) = net_connections s"
    "net_if_count (log_write l m s) = net_if_count s" "net_conn_count (log_write l m s) = net_conn_count s"
    "vfs_fds (log_write l m s) = vfs_fds s" "intent_table (log_write l m s) = intent_table s" "next_handle (log_write l m s) = next_handle s"
    "replay_buffer (log_write l m s) = replay_buffer s" "replay_count (log_write l m s) = replay_count s"
    "replay_recording (log_write l m s) = replay_recording s" "kobserve_table (log_write l m s) = kobserve_table s"
    "kobserve_count (log_write l m s) = kobserve_count s"
  by (subst log_write_frame, simp)+

text \<open>The part of the state that the memory manager and the heap use.\<close>

definition mem_view :: "'a kheap_scheme \<Rightarrow> bytes \<times> nat \<times> nat \<times> (u32 \<Rightarrow> u32) \<times> u32 \<times> bool \<times> u32 \<times> u32" where
  "mem_view s = (pmm_bitmap s, pmm_max_page s, pmm_last_alloc s, pmem s, cr3 s, paging_on s, kernel_page_dir_phys s, heap_first s)"

lemma register_all_view:
  "mem_view (register_all rs s) = mem_view s \<and> vmem (register_all rs s) = vmem s \<and> tasks (register_all rs s) = tasks s \<and>
    next_pid (register_all rs s) = next_pid s \<and> tasks_addr (register_all rs s) = tasks_addr s \<and> vfs_fds (register_all rs s) = vfs_fds s \<and>
    intent_table (register_all rs s) = intent_table s \<and> next_handle (register_all rs s) = next_handle s \<and>
    replay_buffer (register_all rs s) = replay_buffer s \<and> replay_count (register_all rs s) = replay_count s \<and>
    replay_recording (register_all rs s) = replay_recording s \<and> log_ring (register_all rs s) = log_ring s \<and>
    log_head (register_all rs s) = log_head s \<and> log_tail (register_all rs s) = log_tail s"
  by (induction rs arbitrary: s) (simp_all add: kobserve_register_def Let_def mem_view_def)

text \<open>What the later steps do not change of the earlier ones.\<close>

definition core_view ::
    "'a kshell_scheme \<Rightarrow> (bytes \<times> nat \<times> nat \<times> (u32 \<Rightarrow> u32) \<times> u32 \<times> bool \<times> u32 \<times> u32) \<times> mem \<times> task list \<times> int \<times> u32 \<times> vfs_fd list" where
  "core_view s = (mem_view s, vmem s, tasks s, next_pid s, tasks_addr s, vfs_fds s)"

definition service_view ::
    "'a kshell_scheme \<Rightarrow> intent_entry list \<times> u32 \<times> replay_event list \<times> nat \<times> bool \<times> net_interface list \<times> net_connection list \<times> nat \<times> nat \<times>
      kernel_observer list \<times> nat" where
  "service_view s = (intent_table s, next_handle s, replay_buffer s, replay_count s, replay_recording s, net_interfaces s, net_connections s,
     net_if_count s, net_conn_count s, kobserve_table s, kobserve_count s)"

definition log_view :: "'a klog_scheme \<Rightarrow> bytes \<times> nat \<times> nat" where
  "log_view s = (log_ring s, log_head s, log_tail s)"

lemma log_inv_view: "log_view s = log_view t \<Longrightarrow> log_inv s = log_inv t"
  by (simp add: log_view_def log_inv_def)

lemma views_print [simp]:
  fixes s :: "'a kshell_scheme"
  shows "core_view (boot_msg t s) = core_view s" "service_view (boot_msg t s) = service_view s" "log_view (boot_msg t s) = log_view s"
    "core_view (print_color w c s) = core_view s" "service_view (print_color w c s) = service_view s" "log_view (print_color w c s) = log_view s"
  by (simp_all add: core_view_def mem_view_def service_view_def log_view_def)

lemma views_log [simp]:
  fixes s :: "'a kshell_scheme"
  shows "core_view (log_write l m s) = core_view s" "service_view (log_write l m s) = service_view s"
  by (simp_all add: core_view_def mem_view_def service_view_def)

lemma core_view_services [simp]:
  fixes s :: "'a kshell_scheme"
  shows "core_view (log_init s) = core_view s" "core_view (kobserve_init s) = core_view s" "core_view (intent_init s) = core_view s"
    "core_view (snd (replay_init s)) = core_view s" "core_view (net_init s) = core_view s"
    "core_view (net_register_observers s) = core_view s" "core_view (fb_init b s) = core_view s"
  using register_all_view [of kernel_observers "s\<lparr>kobserve_table := replicate KOBSERVE_MAX zero_observer, kobserve_count := 0\<rparr>"]
    register_all_view [of net_observers s]
  by (simp_all add: log_init_def kobserve_init_def intent_init_def replay_init_def net_init_def net_register_observers_def fb_init_def Let_def)
    (simp_all add: core_view_def mem_view_def)

lemma log_inv_register_all [simp]: "log_inv (register_all rs s) = log_inv s"
  using register_all_view [of rs s] by (simp add: log_inv_def)

lemma log_inv_services:
  fixes s :: "'a kshell_scheme"
  assumes "log_inv s"
  shows "log_inv (boot_msg t s)" "log_inv (kobserve_init s)" "log_inv (intent_init s)" "log_inv (snd (replay_init s))"
    "log_inv (net_init s)" "log_inv (net_register_observers s)" "log_inv (fb_init b s)"
proof -
  have u: "log_inv (s\<lparr>kobserve_table := a, kobserve_count := n\<rparr>)" "log_inv (s\<lparr>intent_table := c, next_handle := h\<rparr>)"
    "log_inv (s\<lparr>replay_buffer := rb, replay_count := n, replay_recording := f, replay_session_complete := g\<rparr>)"
    "log_inv (s\<lparr>net_interfaces := ni, net_connections := nc, net_if_count := n, net_conn_count := n', loopback_head := lh,
       loopback_tail := lt, net_history_count := nh\<rparr>)" "log_inv (s\<lparr>fb_info := fi\<rparr>)" for a n c h rb f g ni nc n' lh lt nh fi
    using assms by (simp_all add: log_inv_def)
  show "log_inv (boot_msg t s)" using assms by (simp add: log_inv_def)
  show "log_inv (kobserve_init s)" unfolding kobserve_init_def by (intro log_write_inv) (simp add: u)
  show "log_inv (intent_init s)" unfolding intent_init_def by (intro log_write_inv) (simp add: u)
  show "log_inv (snd (replay_init s))" unfolding replay_init_def snd_conv by (intro log_write_inv) (simp add: u)
  show "log_inv (net_init s)" unfolding net_init_def Let_def by (intro log_write_inv) (simp add: u)
  show "log_inv (net_register_observers s)" using assms by (simp add: net_register_observers_def)
  show "log_inv (fb_init b s)" unfolding fb_init_def using u(5) by (auto intro: log_write_inv)
qed

definition services_ok :: "'a kshell_scheme \<Rightarrow> bool" where
  "services_ok s \<longleftrightarrow> intents_inv s \<and> next_handle s = 1 \<and> replay_ok s \<and> replay_count s = 0 \<and> replay_recording s \<and>
     net_inv s \<and> net_if_count s = 1 \<and> net_conn_count s = 0 \<and> obs_ok s \<and> map fst (entries s) = map fst (kernel_observers @ net_observers)"

lemma services_ok_view: "service_view s = service_view t \<Longrightarrow> services_ok s = services_ok t"
  by (simp add: service_view_def services_ok_def intents_inv_def replay_ok_def net_inv_def obs_ok_def entries_def)

lemma register_all_net [simp]:
  "net_interfaces (register_all rs s) = net_interfaces s" "net_connections (register_all rs s) = net_connections s"
  "net_if_count (register_all rs s) = net_if_count s" "net_conn_count (register_all rs s) = net_conn_count s"
  by (induction rs arbitrary: s) (simp_all add: kobserve_register_def Let_def)

lemmas service_init_defs = kobserve_init_def intent_init_def replay_init_def net_init_def net_register_observers_def fb_init_def Let_def

lemma service_fields [simp]:
  fixes s :: "'a kshell_scheme"
  shows "intent_table (snd (replay_init s)) = intent_table s" "intent_table (net_init s) = intent_table s"
    "intent_table (net_register_observers s) = intent_table s" "intent_table (fb_init b s) = intent_table s"
    "next_handle (snd (replay_init s)) = next_handle s" "next_handle (net_init s) = next_handle s"
    "next_handle (net_register_observers s) = next_handle s" "next_handle (fb_init b s) = next_handle s"
    "replay_buffer (net_init s) = replay_buffer s" "replay_count (net_init s) = replay_count s" "replay_recording (net_init s) = replay_recording s"
    "replay_buffer (net_register_observers s) = replay_buffer s" "replay_count (net_register_observers s) = replay_count s"
    "replay_recording (net_register_observers s) = replay_recording s" "replay_buffer (fb_init b s) = replay_buffer s"
    "replay_count (fb_init b s) = replay_count s" "replay_recording (fb_init b s) = replay_recording s"
    "kobserve_table (intent_init s) = kobserve_table s" "kobserve_count (intent_init s) = kobserve_count s"
    "kobserve_table (snd (replay_init s)) = kobserve_table s" "kobserve_count (snd (replay_init s)) = kobserve_count s"
    "kobserve_table (net_init s) = kobserve_table s" "kobserve_count (net_init s) = kobserve_count s"
    "kobserve_table (fb_init b s) = kobserve_table s" "kobserve_count (fb_init b s) = kobserve_count s"
    "net_interfaces (net_register_observers s) = net_interfaces s" "net_connections (net_register_observers s) = net_connections s"
    "net_if_count (net_register_observers s) = net_if_count s" "net_conn_count (net_register_observers s) = net_conn_count s"
    "net_interfaces (fb_init b s) = net_interfaces s" "net_connections (fb_init b s) = net_connections s"
    "net_if_count (fb_init b s) = net_if_count s" "net_conn_count (fb_init b s) = net_conn_count s"
  using register_all_view [of net_observers s] by (simp_all add: service_init_defs)

lemma net_init_ok: "net_inv (net_init s)" "net_if_count (net_init s) = 1" "net_conn_count (net_init s) = 0" for s :: "'a kshell_scheme"
proof -
  have "length (put_bytes 0 (name_bytes 16 (cs ''lo'')) (zeros 16)) = 16" by (rule put_name_length) simp_all
  then show "net_inv (net_init s)" 
    by (auto simp: net_inv_def net_init_def Let_def zero_interface_def dest!: subsetD [OF set_update_subset_insert])
  show "net_if_count (net_init s) = 1" "net_conn_count (net_init s) = 0" by (simp_all add: net_init_def Let_def)
qed

text \<open>The table of observers after \<^verbatim>\<open>kobserve_init\<close> and \<^verbatim>\<open>net_register_observers\<close> has all paths of both, in order.\<close>

lemma observers_registered:
  fixes s s0 :: "'a kshell_scheme"
  assumes "kobserve_table s = kobserve_table (kobserve_init s0)" and "kobserve_count s = kobserve_count (kobserve_init s0)"
  shows "obs_ok (net_register_observers s)" and "map fst (entries (net_register_observers s)) = map fst (kernel_observers @ net_observers)"
proof -
  let ?z = "s0\<lparr>kobserve_table := replicate KOBSERVE_MAX zero_observer, kobserve_count := 0\<rparr>"
  have z: "obs_ok ?z" "entries ?z = []" by (simp_all add: obs_ok_def entries_def zero_observer_def)
  note k = register_all_ok [OF z(1), of kernel_observers]
  have e: "obs_ok s = obs_ok (register_all kernel_observers ?z)" "entries s = entries (register_all kernel_observers ?z)"
    using assms by (simp_all add: obs_ok_def entries_def kobserve_init_def)
  note n = register_all_ok [of s net_observers]
  show "obs_ok (net_register_observers s)" using n k e by (simp add: net_register_observers_def)
  have l: "length (registrations rs) = length rs" "length kernel_observers = 13" "length net_observers = 3" for rs
    by (simp_all add: registrations_def kernel_observers_def net_observers_def)
  have c: "\<forall>r \<in> set (kernel_observers @ net_observers). length (fst r) < 64 \<and> 0 \<notin> set (fst r)" by code_simp
  have m: "map fst (registrations rs) = map fst rs" if "set rs \<subseteq> set (kernel_observers @ net_observers)" for rs
    using that c by (force simp: registrations_def c_str_id)
  have "entries (net_register_observers s) = registrations kernel_observers @ registrations net_observers"
    using n k e z l by (simp add: net_register_observers_def)
  then show "map fst (entries (net_register_observers s)) = map fst (kernel_observers @ net_observers)" using m by simp
qed

lemma boot_services_ok:
  assumes "length (log_ring s) = LOG_RING_SIZE"
  shows "core_view (boot_services e s) = core_view s" and "services_ok (boot_services e s)" and "log_inv (boot_services e s)"
proof -
  define s1 where "s1 = log_init (boot_msg ''Initializing logging...'' s)"
  define s2 where "s2 = kobserve_init (boot_msg ''Initializing kernel observers...'' s1)"
  define s3 where "s3 = intent_init (boot_msg ''Initializing intent system...'' s2)"
  define s4 where "s4 = snd (replay_init (boot_msg ''Initializing replay system...'' s3))"
  define s5 where "s5 = net_init (boot_msg ''Initializing network stack...'' s4)"
  define s6 where "s6 = net_register_observers s5"
  have t: "boot_services e s = fb_init (be_vbe e) (boot_msg ''Initializing framebuffer...'' s6)"
    by (simp add: boot_services_def Let_def s1_def s2_def s3_def s4_def s5_def s6_def)
  show "core_view (boot_services e s) = core_view s"
    by (simp add: t s1_def s2_def s3_def s4_def s5_def s6_def)
  have "log_inv s1" unfolding s1_def log_init_def using assms by (intro log_write_inv) (simp add: log_inv_def ring_ok_def)
  then show "log_inv (boot_services e s)" unfolding t s6_def s5_def s4_def s3_def s2_def by (intro log_inv_services)
  have i: "intents_inv s3" "next_handle s3 = 1" unfolding s3_def by (rule intent_init_inv intent_init_next)+
  have r: "replay_ok s4" "replay_count s4 = 0" "replay_recording s4" by (simp_all add: s4_def replay_init_def replay_ok_def)
  have n: "net_inv s5" "net_if_count s5 = 1" "net_conn_count s5 = 0" unfolding s5_def by (rule net_init_ok)+
  have o: "obs_ok s6" "map fst (entries s6) = map fst (kernel_observers @ net_observers)"
    unfolding s6_def by (rule observers_registered [of _ "boot_msg ''Initializing kernel observers...'' s1"]; simp add: s2_def s3_def s4_def s5_def)+
  let ?t = "fb_init (be_vbe e) (boot_msg ''Initializing framebuffer...'' s6)"
  have "intent_table ?t = intent_table s3" "next_handle ?t = next_handle s3" by (simp_all add: s4_def s5_def s6_def)
  then have i': "intents_inv ?t = intents_inv s3" "next_handle ?t = next_handle s3" by (simp_all add: intents_inv_def)
  have "replay_buffer ?t = replay_buffer s4" "replay_count ?t = replay_count s4" "replay_recording ?t = replay_recording s4"
    by (simp_all add: s5_def s6_def)
  then have r': "replay_ok ?t = replay_ok s4" "replay_count ?t = replay_count s4" "replay_recording ?t = replay_recording s4"
    by (simp_all add: replay_ok_def)
  have "net_interfaces ?t = net_interfaces s5" "net_connections ?t = net_connections s5" "net_if_count ?t = net_if_count s5"
    "net_conn_count ?t = net_conn_count s5" by (simp_all add: s6_def)
  then have n': "net_inv ?t = net_inv s5" "net_if_count ?t = net_if_count s5" "net_conn_count ?t = net_conn_count s5" by (simp_all add: net_inv_def)
  have o': "obs_ok ?t = obs_ok s6" "entries ?t = entries s6" by (simp_all add: obs_ok_def entries_def)
  show "services_ok (boot_services e s)" using i r n o unfolding services_ok_def t i' r' n' o' by simp
qed


section \<open>Memory after the start\<close>

lemma length_log_write [simp]: "length (log_ring (log_write l m s)) = length (log_ring s)"
proof -
  have "length (log_ring (fold log_putc xs s)) = length (log_ring s)" for xs and s :: "'b klog_scheme"
    by (induction xs arbitrary: s) (simp_all add: log_putc_def Let_def)
  then show ?thesis by (simp add: log_write_def log_putc_def Let_def)
qed

lemma kernel_pages_cover:
  assumes "unat ke \<le> 0x1000000"
  shows "unat ke \<le> kernel_pages_of ke 8192 * PAGE_SIZE"
proof -
  have d: "unat ke div 4096 \<le> 4096" using div_le_mono [OF assms, of 4096] by simp
  have "unat ke = unat ke div 4096 * 4096 + unat ke mod 4096" "unat ke mod 4096 < 4096" by simp_all
  then show ?thesis
  proof (cases "unat ke mod 4096 = 0")
    case False
    then have "kernel_pages_of ke 8192 = unat ke div 4096 + 1" using d by (simp add: kernel_pages_of_def Let_def)
    then show ?thesis using \<open>unat ke = _\<close> \<open>unat ke mod 4096 < 4096\<close> by linarith
  qed (use d in \<open>simp add: kernel_pages_of_def Let_def\<close>)
qed

lemma pmm_init_room:
  assumes "unat ke \<le> 0x1000000"
  shows "1000 \<le> free_pages (pmm_init (32 * 1024 * 1024) ke s)"
proof -
  have m: "pmm_max_page (pmm_init (32 * 1024 * 1024) ke s) = 8192" by (simp add: pmm_init_fields)
  have "unat ke div 4096 \<le> 4096" using div_le_mono [OF assms, of 4096] by simp
  then have "kernel_pages_of ke 8192 \<le> 4097" by (simp add: kernel_pages_of_def Let_def)
  then have "{4097..<8192} \<subseteq> {1..<pmm_max_page (pmm_init (32 * 1024 * 1024) ke s)} - pmm_used (pmm_init (32 * 1024 * 1024) ke s)"
    using m pmm_init_bitmap [of _ "32 * 1024 * 1024" ke s] by (auto simp: pmm_used_def bm_used_def)
  then have "card {4097..<8192::nat} \<le> free_pages (pmm_init (32 * 1024 * 1024) ke s)"
    unfolding free_pages_def by (intro card_mono) auto
  then show ?thesis by simp
qed

lemma paging_init_room:
  assumes "pmm_inv s" and "Suc (Suc (Suc n)) \<le> free_pages s"
  shows "n \<le> free_pages (paging_init s)" and "pmm_used s \<subseteq> pmm_used (paging_init s)"
proof -
  obtain pd s1 where a: "pmm_alloc s = (pd, s1)" "pd \<noteq> 0" "pmm_inv s1" "Suc (Suc n) \<le> free_pages s1"
    using pmm_alloc_room [OF assms] by metis
  define s2 where "s2 = s1\<lparr>kernel_page_dir_phys := pd, pmem := fill_table 1024 pd (\<lambda>_. 2) (pmem s1)\<rparr>"
  have i2: "pmm_inv s2" "Suc (Suc n) \<le> free_pages s2" "pmm_used s2 = pmm_used s1"
    using a by (simp_all add: s2_def pmm_inv_def pmm_test_def pmm_used_def free_pages_def)
  have t: "pmm_inv (paging_init_table k u) \<and> m \<le> free_pages (paging_init_table k u) \<and> pmm_used u \<subseteq> pmm_used (paging_init_table k u)"
    if u: "pmm_inv u" "Suc m \<le> free_pages u" for k m and u :: "'a kmem_scheme"
  proof -
    obtain f u1 where "pmm_alloc u = (f, u1)" "f \<noteq> 0" using pmm_alloc_room [OF u] by metis
    from add_table_pmm(2,3) [OF u(1) this] show ?thesis
      using paging_init_table_room(2) [OF u] by (auto simp: paging_init_table_eq)
  qed
  note t0 = t [OF i2(1,2), of 0]
  have t1: "pmm_inv (paging_init_table 1 (paging_init_table 0 s2))" "n \<le> free_pages (paging_init_table 1 (paging_init_table 0 s2))"
    "pmm_used (paging_init_table 0 s2) \<subseteq> pmm_used (paging_init_table 1 (paging_init_table 0 s2))"
    using t [of "paging_init_table 0 s2" n 1] t0 by simp_all
  have "paging_init s = log_write LOG_LEVEL_INFO (cs ''Paging: enabled, 8MB identity mapped'')
      ((paging_init_table 1 (paging_init_table 0 s2))\<lparr>cr3 := kernel_page_dir_phys (paging_init_table 1 (paging_init_table 0 s2)), paging_on := True\<rparr>)"
    using a(1) by (simp add: paging_init_def Let_def s2_def upt_rec)
  then have e: "free_pages (paging_init s) = free_pages (paging_init_table 1 (paging_init_table 0 s2))"
    "pmm_used (paging_init s) = pmm_used (paging_init_table 1 (paging_init_table 0 s2))"
    by (simp_all add: free_pages_def pmm_used_def)
  show "n \<le> free_pages (paging_init s)" using e t1 by simp
  show "pmm_used s \<subseteq> pmm_used (paging_init s)" using e t0 t1 i2(3) pmm_alloc_frame(3) [OF assms(1) a(1,2)] by auto
qed

text \<open>The kernel's image is identity mapped, and no page of the heap shares a frame with it or with another one.\<close>

definition memory_ok :: "u32 \<Rightarrow> 'a kheap_scheme \<Rightarrow> bool" where
  "memory_ok kernel_end s \<longleftrightarrow> paging_on s \<and> dir_inv (cr3 s) s \<and>
     (\<forall>v. unat v < 0x800000 \<longrightarrow> mmu_translate (pmem s) (cr3 s) v = Some v) \<and>
     (\<exists>fr. inj_on (page_num \<circ> fr) {..<256} \<and>
        (\<forall>i < 256. page_aligned (fr i) \<and> unat kernel_end \<le> page_num (fr i) * PAGE_SIZE \<and>
           (\<forall>v. drop_bit 12 v = drop_bit 12 (heap_page i) \<longrightarrow> mmu_translate (pmem s) (cr3 s) v = Some (fr i OR (v AND 0xFFF)))))"

lemma boot_memory_ok:
  assumes "unat (be_kernel_end e) \<le> 0x1000000"
  shows "memory_ok (be_kernel_end e) (boot_memory e s)" and "heap_rep [(unat (HEAP_INIT_SIZE - HB_SIZE), True)] (boot_memory e s)"
proof -
  let ?p = "pmm_init (32 * 1024 * 1024) (be_kernel_end e) (boot_msg ''Enabling paging...'' s)"
  let ?q = "paging_init ?p"
  have t: "boot_memory e s = kheap_init ?q" by (simp add: boot_memory_def)
  have inv: "pmm_inv ?p" by (rule pmm_init_inv)
  have f: "1000 \<le> free_pages ?p" by (rule pmm_init_room [OF assms])
  then have f': "512 \<le> free_pages ?q" using paging_init_room(1) [OF inv, of 512] by simp
  have f3: "3 \<le> free_pages ?p" using f by linarith
  have q: "paging_on ?q" "cr3 ?q = get_kernel_page_dir ?q" "dir_inv (cr3 ?q) ?q"
    and tr: "mmu_translate (pmem ?q) (cr3 ?q) v = (if unat v < 8 * 1024 * 1024 then Some v else None)" for v
    using paging_init_ok [OF inv f3] unfolding get_kernel_page_dir_def by blast+
  have "\<forall>v. 0x800000 \<le> unat v \<longrightarrow> mmu_translate (pmem ?q) (cr3 ?q) v = None" unfolding tr by simp
  then obtain fr where fr: "heap_mapped 256 fr ?q (kheap_init ?q)" and rep: "heap_rep [(unat (HEAP_INIT_SIZE - HB_SIZE), True)] (kheap_init ?q)"
    using kheap_init_maps [OF q(3,2) f'] by blast
  show "heap_rep [(unat (HEAP_INIT_SIZE - HB_SIZE), True)] (boot_memory e s)" unfolding t by (rule rep)
  have "paging_on (map_heap_page a u) = paging_on u" for a and u :: "'a kshell_scheme"
    by (auto simp: map_heap_page_def ensure_table_def pmm_alloc_def pmm_set_def Let_def split: option.splits prod.splits)
  then have "paging_on (fold (\<lambda>i. map_heap_page (heap_page i)) xs u) = paging_on u" for xs and u :: "'a kshell_scheme"
    by (induction xs arbitrary: u) simp_all
  then have on: "paging_on (kheap_init ?q)" using q(1) by (simp add: kheap_init_def Let_def heap_page_def)
  have low: "mmu_translate (pmem (kheap_init ?q)) (cr3 ?q) v = Some v" if "unat v < 0x800000" for v
  proof -
    have "drop_bit 12 v \<noteq> drop_bit 12 (heap_page i)" if i: "i < 256" for i
    proof
      assume "drop_bit 12 v = drop_bit 12 (heap_page i)"
      then have "unat v div 2 ^ 12 = unat (heap_page i) div 2 ^ 12" by (metis unat_drop_bit_eq drop_bit_nat_def)
      then show False using \<open>unat v < 0x800000\<close> unfolding heap_page_no [OF i] by simp
    qed
    then show ?thesis using fr tr [of v] that unfolding heap_mapped_def by simp
  qed
  have img: "unat (be_kernel_end e) \<le> page_num (fr i) * PAGE_SIZE" if "i < 256" for i
  proof -
    have m: "page_num (fr i) \<notin> pmm_used ?p"
      using fr that paging_init_room(2) [OF inv, of 512] f unfolding heap_mapped_def by auto
    have mx: "pmm_max_page ?p = 8192" by (simp add: pmm_init_fields)
    have "kernel_pages_of (be_kernel_end e) 8192 \<le> page_num (fr i)"
    proof (cases "page_num (fr i) < 8192")
      case True
      then show ?thesis using m mx pmm_init_bitmap [OF True, of "32 * 1024 * 1024" "be_kernel_end e" "boot_msg ''Enabling paging...'' s"] by (auto simp: pmm_used_def bm_used_def)
    qed (simp add: kernel_pages_of_def Let_def)
    then show ?thesis using kernel_pages_cover [OF assms] by (meson le_trans mult_le_mono1)
  qed
  show "memory_ok (be_kernel_end e) (boot_memory e s)"
    using fr on low img unfolding memory_ok_def t heap_mapped_def by (intro conjI exI [of _ fr]) auto
qed

section \<open>The first two tasks\<close>

lemma push_words_out:
  "p \<le> 2 ^ 31 \<Longrightarrow> 4 * length ws \<le> p \<Longrightarrow> q < 2 ^ 32 \<Longrightarrow> p \<le> q \<or> q < p - 4 * length ws \<Longrightarrow>
    snd (push_words ws (of_nat p, m)) (of_nat q) = m (of_nat q)"
proof (induction ws arbitrary: p m)
  case (Cons w ws)
  have e: "(of_nat p :: u32) - 4 = of_nat (p - 4)" using Cons.prems(2) by (simp add: of_nat_diff)
  have "snd (push_words ws (of_nat (p - 4), wr32 (of_nat (p - 4)) w m)) (of_nat q) = wr32 (of_nat (p - 4)) w m (of_nat q)"
    by (rule Cons.IH) (use Cons.prems in auto)
  also have "\<dots> = m (of_nat q)" by (rule wr32_out) (use Cons.prems in auto)
  finally show ?case using e by simp
qed simp

lemma find_task_first:
  assumes "i < MAX_TASKS" and "P i (tasks s ! i)" and "\<And>j. j < i \<Longrightarrow> \<not> P j (tasks s ! j)"
  shows "find_task P s = Some i"
proof (cases "find_task P s")
  case None
  then show ?thesis using assms(1,2) by (simp add: find_task_None)
next
  case (Some k)
  note k = find_task_Some [OF Some]
  have "k = i" using k assms by (metis linorder_neqE_nat)
  then show ?thesis using Some by simp
qed

text \<open>The stacks of the tasks lie below the heap.\<close>

definition stacks_low :: "'a kproc_scheme \<Rightarrow> bool" where
  "stacks_low s \<longleftrightarrow> unat (tasks_addr s) + MAX_TASKS * 8844 \<le> HEAP_BASE"

definition stack_top :: "nat \<Rightarrow> 'a kproc_scheme \<Rightarrow> nat" where
  "stack_top i s = unat (tasks_addr s) + i * 8844 + 40 + 8192"

lemma stack_top_word: "task_stack i s + STACK_SIZE = of_nat (stack_top i s)"
  by (simp add: task_stack_def stack_top_def)

lemma proc_create_first:
  fixes s :: "'a kshell_scheme"
  assumes "proc_inv s" and "num_tasks s = int i" and "i < MAX_TASKS" and "t_state (tasks s ! i) = TASK_DEAD"
    and "\<And>j. j < i \<Longrightarrow> t_state (tasks s ! j) \<noteq> TASK_DEAD" and "stacks_low s"
    and "proc_create entry name prio s = (pid, s')" and "counters_room (Suc k) s"
  obtains t where "pid = next_pid s" and "tasks s' = (tasks s)[i := t]" and "t_pid t = next_pid s" and "t_state t = TASK_READY"
    and "t_esp t = of_nat (stack_top i s - 76)" and "resume_frame (vmem s') (t_esp t) = (entry, 0x08, 0x202)"
    and "\<And>a. a < 2 ^ 32 \<Longrightarrow> stack_top i s \<le> a \<or> a < stack_top i s - 76 \<Longrightarrow> vmem s' (of_nat a) = vmem s (of_nat a)"
    and "num_tasks s' = int i + 1" and "next_pid s' = next_pid s + 1" and "tasks_addr s' = tasks_addr s" and "current_task s' = current_task s"
    and "mem_view s' = mem_view s" and "service_view s' = service_view s" and "log_view s' = log_view s" and "vfs_fds s' = vfs_fds s" and "proc_inv s'"
proof -
  have l: "length (tasks s) = MAX_TASKS" using assms(1) by (simp add: proc_inv_def)
  have f: "find_task (\<lambda>i t. t_state t = TASK_DEAD) s = Some i" by (rule find_task_first) (use assms(3,4,5) in auto)
  have n: "\<not> num_tasks s \<ge> int MAX_TASKS" using assms(2,3) by simp
  have al: "alloc_pid s = (Some i, (upd_task i (\<lambda>t. t\<lparr>t_pid := next_pid s\<rparr>) s)\<lparr>next_pid := int32 (next_pid s + 1)\<rparr>)"
    using f by (simp add: alloc_pid_def)
  obtain sp m where pw: "push_words (first_frame 0x10 (task_stack i s + STACK_SIZE) 0x08 entry) (task_stack i s + STACK_SIZE, vmem s) = (sp, m)"
    by fastforce
  note c = proc_create_slot [OF n assms(3) al l pw, of name prio] and cn = counters_step [OF assms(1,8)]
  note fr = push_frame [OF pw]
  have top: "76 \<le> stack_top i s" "stack_top i s \<le> 2 ^ 31" using assms(3,6) by (simp_all add: stack_top_def stacks_low_def)
  have sp: "sp = of_nat (stack_top i s - 76)" using fr(1) top(1) by (simp add: stack_top_word of_nat_diff)
  let ?ws = "first_frame 0x10 (task_stack i s + STACK_SIZE) 0x08 entry"
  have w: "4 * length ?ws = 76" by (simp add: first_frame_def)
  have m: "m = snd (push_words ?ws (of_nat (stack_top i s), vmem s))" using pw unfolding stack_top_word by (simp only: snd_conv)
  have out: "m (of_nat a) = vmem s (of_nat a)" if "a < 2 ^ 32" "stack_top i s \<le> a \<or> a < stack_top i s - 76" for a
    unfolding m by (rule push_words_out) (use that top w in simp_all)
  have s': "s' = snd (proc_create entry name prio s)" "pid = fst (proc_create entry name prio s)" using assms(7) by simp_all
  have k: "next_pid s' = next_pid s + 1" "tasks_addr s' = tasks_addr s" "current_task s' = current_task s" "mem_view s' = mem_view s"
    "service_view s' = service_view s" "log_view s' = log_view s" "vfs_fds s' = vfs_fds s"
    using n cn by (simp_all add: s' proc_create_def al Let_def case_prod_beta upd_task_def mem_view_def service_view_def log_view_def)
  show thesis
    by (rule that [of "tasks s' ! i"])
      (use c fr sp out k l cn assms(2,3) proc_create_inv [OF assms(1,8), of entry name prio] in \<open>simp_all add: s'\<close>)
qed

text \<open>The state in which \<^verbatim>\<open>kernel_main\<close> starts: arrays of their sizes and the task table below the heap.\<close>

definition boot_bss :: "'a kshell_scheme \<Rightarrow> bool" where
  "boot_bss s \<longleftrightarrow> boot_proc s \<and> length (vfs_fds s) = VFS_MAX_FDS \<and> length (log_ring s) = LOG_RING_SIZE \<and> stacks_low s"

text \<open>The user task is ready to start at its entry point and the shell, the code that boots, is the running task.\<close>

definition tasks_ok :: "boot_env \<Rightarrow> int \<Rightarrow> 'a kshell_scheme \<Rightarrow> bool" where
  "tasks_ok e pid s \<longleftrightarrow> proc_inv s \<and> num_tasks s = 2 \<and> current_task s = 1 \<and>
     t_pid (tasks s ! 0) = pid \<and> t_state (tasks s ! 0) = TASK_READY \<and> resume_frame (vmem s) (t_esp (tasks s ! 0)) = (be_user_entry e, 0x08, 0x202) \<and>
     t_pid (tasks s ! 1) = pid + 1 \<and> t_state (tasks s ! 1) = TASK_RUNNING \<and> (\<forall>i \<in> {2..<MAX_TASKS}. t_state (tasks s ! i) = TASK_DEAD)"

lemma run_inv:
  assumes "proc_inv s" and "Hexa_Process.live (tasks s ! 1)"
  shows "proc_inv (upd_task 1 (\<lambda>t. t\<lparr>t_state := TASK_RUNNING\<rparr>) (s\<lparr>current_task := 1\<rparr>))"
proof -
  have "proc_inv (s\<lparr>current_task := 1\<rparr>)" using assms(1) by (simp add: proc_inv_def)
  then show ?thesis by (rule proc_inv_upd) (use assms proc_inv_task_ok [OF assms(1), of 1] in \<open>simp_all add: Hexa_Process.live_def\<close>)
qed

lemma boot_tasks_ok:
  assumes "boot_proc s" and "length (vfs_fds s) = VFS_MAX_FDS" and "stacks_low s"
  shows "tasks_ok e (next_pid s) (boot_tasks e s)" and "fds_inv (vfs_fds (boot_tasks e s))"
    and "mem_view (boot_tasks e s) = mem_view s" and "service_view (boot_tasks e s) = service_view s" and "log_view (boot_tasks e s) = log_view s"
    and "\<And>a. HEAP_BASE \<le> a \<Longrightarrow> a < 2 ^ 32 \<Longrightarrow> vmem (boot_tasks e s) (of_nat a) = vmem s (of_nat a)"
proof -
  define s1 where "s1 = vfs_init (setup_tss (be_tss e) (proc_init (boot_msg ''Initializing task manager...'' s)))"
  have "proc_inv (proc_init (boot_msg ''Initializing task manager...'' s))"
    by (rule proc_init_inv) (use assms(1) in \<open>auto simp: boot_proc_def\<close>)
  then have i1: "proc_inv s1" by (simp add: s1_def vfs_init_def setup_tss_def proc_inv_def)
  have d1: "tasks s1 = map init_task (tasks s)" "num_tasks s1 = int 0" "next_pid s1 = next_pid s" "stacks_low s1"
    "tasks_addr s1 = tasks_addr s" "vmem s1 = vmem s"
    using assms(3) by (simp_all add: s1_def vfs_init_def setup_tss_def proc_init_def stacks_low_def)
  have v1: "mem_view s1 = mem_view s" "service_view s1 = service_view s" "log_view s1 = log_view s"
    by (simp_all add: s1_def vfs_init_def setup_tss_def proc_init_def mem_view_def service_view_def log_view_def)
  have fd: "fds_inv (vfs_fds s1)" unfolding s1_def by (rule fds_inv_init) (use assms(2) in \<open>simp add: setup_tss_def proc_init_def\<close>)
  have l: "length (tasks s1) = MAX_TASKS" using i1 by (simp add: proc_inv_def)
  have dead: "t_state (tasks s1 ! i) = TASK_DEAD" if "i < MAX_TASKS" for i using that l by (simp add: d1(1) init_task_def)
  have pid: "0 < next_pid s" "next_pid s + 2 < 2 ^ 31" using assms(1) by (simp_all add: boot_proc_def)
  have r1: "counters_room (Suc 1) s1" using pid d1(2,3) by (simp add: counters_room_def)
  obtain p2 s2 where c2: "proc_create (be_user_entry e) (cs ''user_task'') 1 s1 = (p2, s2)" by fastforce
  obtain t0 where s2: "p2 = next_pid s1" "tasks s2 = (tasks s1)[0 := t0]" "t_pid t0 = next_pid s1" "t_state t0 = TASK_READY"
    "t_esp t0 = of_nat (stack_top 0 s1 - 76)" "resume_frame (vmem s2) (t_esp t0) = (be_user_entry e, 0x08, 0x202)"
    "\<And>a. a < 2 ^ 32 \<Longrightarrow> stack_top 0 s1 \<le> a \<or> a < stack_top 0 s1 - 76 \<Longrightarrow> vmem s2 (of_nat a) = vmem s1 (of_nat a)"
    "num_tasks s2 = int 0 + 1" "next_pid s2 = next_pid s1 + 1" "tasks_addr s2 = tasks_addr s1" "current_task s2 = current_task s1"
    "mem_view s2 = mem_view s1" "service_view s2 = service_view s1" "log_view s2 = log_view s1" "vfs_fds s2 = vfs_fds s1" "proc_inv s2"
    by (rule proc_create_first [OF i1 d1(2) _ dead _ d1(4) c2 r1]) auto
  define s3 where "s3 = print_color [10] 0x0A (print_color (pid_text p2) 0x0A (print_color (cs ''[BOOT] User task created, PID='') 0x0A s2))"
  have f3: "tasks s3 = tasks s2" "num_tasks s3 = num_tasks s2" "next_pid s3 = next_pid s2" "tasks_addr s3 = tasks_addr s2" "vmem s3 = vmem s2"
    "current_task s3 = current_task s2" "tss s3 = tss s2" "vfs_fds s3 = vfs_fds s2"
    "mem_view s3 = mem_view s2" "service_view s3 = service_view s2" "log_view s3 = log_view s2"
    by (simp_all add: s3_def mem_view_def)
  have i3: "proc_inv s3" using s2(16) f3 by (simp add: proc_inv_def)
  have d3: "num_tasks s3 = int 1" "stacks_low s3" "t_state (tasks s3 ! 1) = TASK_DEAD" "t_state (tasks s3 ! 0) \<noteq> TASK_DEAD"
    using s2 f3 d1(4) l dead [of 1] by (simp_all add: stacks_low_def)
  have r3: "counters_room (Suc 0) s3" using pid d3(1) f3(3) s2(9) d1(3) by (simp add: counters_room_def)
  obtain p4 s4 where c4: "proc_create (be_shell_entry e) (cs ''shell'') 1 s3 = (p4, s4)" by fastforce
  obtain t1 where s4: "p4 = next_pid s3" "tasks s4 = (tasks s3)[1 := t1]" "t_pid t1 = next_pid s3" "t_state t1 = TASK_READY"
    "\<And>a. a < 2 ^ 32 \<Longrightarrow> stack_top 1 s3 \<le> a \<or> a < stack_top 1 s3 - 76 \<Longrightarrow> vmem s4 (of_nat a) = vmem s3 (of_nat a)"
    "num_tasks s4 = int 1 + 1" "mem_view s4 = mem_view s3" "service_view s4 = service_view s3" "log_view s4 = log_view s3"
    "vfs_fds s4 = vfs_fds s3" "proc_inv s4"
    by (rule proc_create_first [OF i3 d3(1) _ d3(3) _ d3(2) c4 r3]) (use d3(4) in auto)
  let ?s5 = "upd_task 1 (\<lambda>t. t\<lparr>t_state := TASK_RUNNING\<rparr>) (s4\<lparr>current_task := 1\<rparr>)"
  have "p2 \<ge> 0" "p4 \<ge> 0" using s2(1,9) s4(1) f3(3) d1(3) pid(1) by simp_all
  then have b: "boot_tasks e s = boot_msg ''Enabling interrupts...'' ?s5"
    using c2 c4 by (simp add: boot_tasks_def Let_def s1_def [symmetric] s3_def [symmetric])
  have i5: "proc_inv ?s5" by (rule run_inv [OF s4(11)]) (use s4(2,4) f3(1) s2(2) l in \<open>simp add: Hexa_Process.live_def\<close>)
  have top: "stack_top 0 s1 \<le> stack_top 1 s3 - 76" "stack_top 1 s3 \<le> HEAP_BASE" "stack_top 0 s1 \<le> HEAP_BASE" "76 \<le> stack_top 0 s1"
    using d1(4) f3(4) s2(10) by (simp_all add: stack_top_def stacks_low_def)
  have "resume_frame (vmem s4) (t_esp t0) = resume_frame (vmem s3) (t_esp t0)"
  proof -
    have e: "rd32 (vmem s4) (of_nat p) = rd32 (vmem s3) (of_nat p)" if "p + 4 \<le> stack_top 0 s1" for p
      by (rule rd32_cong, rule s4(5)) (use that top in auto)
    have o: "(of_nat (stack_top 0 s1 - 76) :: u32) + of_nat k = of_nat (stack_top 0 s1 - 76 + k)" for k by simp
    show ?thesis unfolding s2(5) resume_frame_def Let_def using e [of "stack_top 0 s1 - 76 + 56"] e [of "stack_top 0 s1 - 76 + 60"]
      e [of "stack_top 0 s1 - 76 + 64"] top(4) o [of 56] o [of 60] o [of 64] by (simp add: add.commute add.left_commute)
  qed
  then have "resume_frame (vmem s4) (t_esp t0) = (be_user_entry e, 0x08, 0x202)" using s2(6) f3(5) by simp
  then show "tasks_ok e (next_pid s) (boot_tasks e s)"
    using i5 s2 s4 f3 d1 l dead unfolding b tasks_ok_def by (auto simp: proc_inv_def)
  show "fds_inv (vfs_fds (boot_tasks e s))" using fd s2(15) f3(8) s4(10) by (simp add: b upd_task_def)
  show "mem_view (boot_tasks e s) = mem_view s" "service_view (boot_tasks e s) = service_view s" "log_view (boot_tasks e s) = log_view s"
    using v1 s2(12-14) f3(9-11) s4(7-9) by (simp_all add: b upd_task_def mem_view_def service_view_def log_view_def)
  show "vmem (boot_tasks e s) (of_nat a) = vmem s (of_nat a)" if "HEAP_BASE \<le> a" "a < 2 ^ 32" for a
    using s4(5) [of a] s2(7) [of a] that top f3(5) d1(6) by (simp add: b)
qed

section \<open>The kernel after its start\<close>

lemma boot_machine_view: "core_view (boot_machine e s) = core_view s" "length (log_ring (boot_machine e s)) = length (log_ring s)"
proof -
  have o: "core_view (outb p v u) = core_view u" "length (log_ring (outb p v u)) = length (log_ring u)" for p v and u :: "'a kshell_scheme"
    by (simp_all add: outb_def core_view_def mem_view_def)
  have fo: "core_view (fold (\<lambda>(p, v). outb p v) xs u) = core_view u" "length (log_ring (fold (\<lambda>(p, v). outb p v) xs u)) = length (log_ring u)"
    for xs and u :: "'a kshell_scheme" by (induction xs arbitrary: u) (auto simp: o)
  have g: "core_view (idt_set_gate k b f z u) = core_view u" "length (log_ring (idt_set_gate k b f z u)) = length (log_ring u)"
    for k b f z and u :: "'a kshell_scheme" by (simp_all add: idt_set_gate_def core_view_def mem_view_def)
  have fg: "core_view (fold (\<lambda>i. idt_set_gate (h i) (b i) f z) xs u) = core_view u"
    "length (log_ring (fold (\<lambda>i. idt_set_gate (h i) (b i) f z) xs u)) = length (log_ring u)"
    for h b f z and xs :: "nat list" and u :: "'a kshell_scheme" by (induction xs arbitrary: u) (simp_all add: g)
  have r: "core_view (u\<lparr>gdt_entries := x, gdtr := y\<rparr>) = core_view u" "core_view (u\<lparr>idt := i\<rparr>) = core_view u"
    "core_view (u\<lparr>idtr := j\<rparr>) = core_view u" "core_view (u\<lparr>rseed := k\<rparr>) = core_view u" for x y i j k and u :: "'a kshell_scheme"
    by (simp_all add: core_view_def mem_view_def)
  show "core_view (boot_machine e s) = core_view s"
    by (simp add: boot_machine_def Let_def pit_init_def pic_remap_def idt_init_def setup_gdt_def o fo g fg fg [where h = "\<lambda>i. i"] r del: fold_simps)
  show "length (log_ring (boot_machine e s)) = length (log_ring s)"
    by (simp add: boot_machine_def Let_def pit_init_def pic_remap_def idt_init_def setup_gdt_def o fo g fg fg [where h = "\<lambda>i. i"] del: fold_simps)
qed

definition table_view :: "'a kshell_scheme \<Rightarrow> task list \<times> int \<times> u32 \<times> vfs_fd list \<times> nat" where
  "table_view s = (tasks s, next_pid s, tasks_addr s, vfs_fds s, length (log_ring s))"

lemma table_view_memory:
  fixes s :: "'a kshell_scheme"
  shows "table_view (log_write l t s) = table_view s" "table_view (boot_msg w s) = table_view s" "table_view (snd (pmm_alloc s)) = table_view s"
    "table_view (s\<lparr>pmem := m\<rparr>) = table_view s" "table_view (s\<lparr>kernel_page_dir_phys := pd, pmem := m\<rparr>) = table_view s"
    "table_view (s\<lparr>cr3 := pd\<rparr>) = table_view s" "table_view (s\<lparr>kernel_page_dir_phys := pd\<rparr>) = table_view s" "table_view (s\<lparr>cr3 := pd, paging_on := b\<rparr>) = table_view s"
  by (simp_all add: table_view_def pmm_alloc_def pmm_set_def split: option.split)

lemma table_view_alloc: "pmm_alloc s = (a, t) \<Longrightarrow> table_view t = table_view s"
  using table_view_memory(3) [of s] by simp

lemma table_view_add_table: "table_view (add_table pd k f s) = table_view s"
  by (simp add: add_table_def table_view_memory table_view_alloc split: prod.split)

lemma table_view_map_heap_page: "table_view (map_heap_page a s) = table_view s"
proof -
  have e: "table_view (ensure_table pd v u) = table_view u" for pd v and u :: "'a kshell_scheme"
    by (simp add: ensure_table_eq table_view_add_table)
  show ?thesis

    by (auto simp: map_heap_page_def Let_def e table_view_memory dest!: table_view_alloc split: prod.split)
qed

lemma boot_memory_view: "table_view (boot_memory e s) = table_view s"
proof -
  have p: "table_view (pmm_init a b u) = table_view u" for a b and u :: "'a kshell_scheme"
    unfolding pmm_init_def Let_def fold_pmm_clear fold_pmm_set pmm_set_def by (simp add: table_view_def)
  have t: "table_view (fold paging_init_table xs u) = table_view u" for xs and u :: "'a kshell_scheme"
    by (induction xs arbitrary: u) (simp_all add: paging_init_table_eq table_view_add_table)
  have q: "table_view (paging_init u) = table_view u" for u :: "'a kshell_scheme"

    by (simp add: paging_init_def Let_def table_view_memory t table_view_alloc split: prod.split)
  have h: "table_view (fold (\<lambda>i. map_heap_page (g i)) xs u) = table_view u" for g and xs :: "nat list" and u :: "'a kshell_scheme"
    by (induction xs arbitrary: u) (simp_all add: table_view_map_heap_page)
  have k: "table_view (kheap_init u) = table_view u" for u :: "'a kshell_scheme"
    using h [of "\<lambda>i. HEAP_START + of_nat i * of_nat PAGE_SIZE" "[0..<256]" "u\<lparr>heap_phys_start := HEAP_START, heap_phys_end := HEAP_START + HEAP_INIT_SIZE\<rparr>"]
    by (simp add: kheap_init_def Let_def table_view_memory) (simp add: table_view_def)
  show ?thesis by (simp add: boot_memory_def p q k table_view_memory)
qed

text \<open>
  C4: the kernel starts correctly.  Whatever the memory held before, if the arrays have their sizes, the image ends
  below 6 MB, the task table lies below the heap and two pids are left (the code starts with pid 1), then after the initialisation the kernel's image is identity
  mapped and the heap is mapped to memory of its own and consists of one free block, the user task is ready at its
  entry point and the shell is the running task, the descriptors, the log, the intents, the network, the recorder
  and the observers are well formed, and the observers of all components can be queried under their paths.
\<close>

theorem kernel_starts:
  assumes "boot_bss s" and "unat (be_kernel_end e) \<le> 0x600000"
  shows "memory_ok (be_kernel_end e) (kernel_init e s) \<and> heap_rep [(unat (HEAP_INIT_SIZE - HB_SIZE), True)] (kernel_init e s) \<and>
    tasks_ok e (next_pid s) (kernel_init e s) \<and> fds_inv (vfs_fds (kernel_init e s)) \<and> log_inv (kernel_init e s) \<and>
    services_ok (kernel_init e s)"
proof -
  have ke: "unat (be_kernel_end e) \<le> 0x1000000" using assms(2) by simp
  define m where "m = boot_memory e (boot_machine e s)"
  define v where "v = boot_services e m"
  have k: "kernel_init e s = boot_tasks e v" by (simp add: kernel_init_def m_def v_def)
  have bm: "tasks m = tasks s" "next_pid m = next_pid s" "tasks_addr m = tasks_addr s" "vfs_fds m = vfs_fds s" "length (log_ring m) = length (log_ring s)"
    using boot_machine_view [of e s] boot_memory_view [of e "boot_machine e s"]
    by (simp_all add: m_def core_view_def table_view_def)
  have l: "length (log_ring m) = LOG_RING_SIZE" using bm(5) assms(1) by (simp add: boot_bss_def)
  note sv = boot_services_ok [OF l, of e, folded v_def]
  have cv: "mem_view v = mem_view m" "vmem v = vmem m" "tasks v = tasks s" "next_pid v = next_pid s" "tasks_addr v = tasks_addr s" "vfs_fds v = vfs_fds s"
    using sv(1) bm by (simp_all add: core_view_def)
  have b: "boot_proc v" "length (vfs_fds v) = VFS_MAX_FDS" "stacks_low v"
    using assms(1) cv by (simp_all add: boot_bss_def boot_proc_def stacks_low_def)
  note tk = boot_tasks_ok [OF b, where e = e, folded k]
  have mv: "mem_view (kernel_init e s) = mem_view m" using tk(3) cv(1) by simp
  note mo = boot_memory_ok [OF ke, of "boot_machine e s", folded m_def]
  have "memory_ok (be_kernel_end e) (kernel_init e s)"
    using mo(1) mv by (simp add: memory_ok_def mem_view_def dir_inv_def pmm_inv_def pmm_test_def pmm_used_def pde_at_def)
  moreover have "heap_rep [(unat (HEAP_INIT_SIZE - HB_SIZE), True)] (kernel_init e s)"
  proof -
    have "heap_at (vmem (kernel_init e s)) HEAP_BASE [(unat (HEAP_INIT_SIZE - HB_SIZE), True)]"
    proof (rule heap_at_cong)
      show "heap_at (vmem m) HEAP_BASE [(unat (HEAP_INIT_SIZE - HB_SIZE), True)]" using mo(2) by (simp add: heap_rep_def)
      show "vmem (kernel_init e s) (of_nat a) = vmem m (of_nat a)" if "HEAP_BASE \<le> a" "a < HEAP_END" for a
        using tk(6) [of a] cv(2) that by simp
    qed
    then show ?thesis using mo(2) mv by (simp add: heap_rep_def mem_view_def)
  qed
  moreover have "log_inv (kernel_init e s)" using sv(3) log_inv_view [OF tk(5)] by simp
  moreover have "services_ok (kernel_init e s)" using sv(2) services_ok_view [OF tk(4)] by simp
  ultimately show ?thesis using tk(1,2) cv(4) by simp
qed

section \<open>Example\<close>

definition example_env :: boot_env where
  "example_env = \<lparr>be_seed = 42, be_gdt = 0x109000, be_idt = 0x10A000, be_tss = 0x10B000, be_isr = (\<lambda>i. 0x101000 + 16 * of_nat i),
     be_irq = (\<lambda>i. 0x102000 + 16 * of_nat i), be_syscall = 0x103000, be_kernel_end = 0x140000, be_vbe = 0xB0C5,
     be_user_entry = 0x104000, be_shell_entry = 0x104100\<rparr>"

lemma bss_kshell_boot: "boot_bss bss_kshell"
proof -
  have "next_pid bss_kpipe = 1" "length (log_ring bss_kpipe) = LOG_RING_SIZE" "tasks_addr bss_kpipe = 0x200000"
    by (simp_all add: bss_kpipe_def bss_kproc_def bss_kheap_def bss_kmem_def kmem.defs kheap.defs kproc.defs)
  then show ?thesis using bss_kobs_core(1) by (simp add: boot_bss_def boot_proc_def stacks_low_def bss_kshell_def kobs.defs bss_kobs_defs bss_task_def)
qed

theorem kernel_starts_witness:
  "\<exists>fr. mmu_translate (pmem (kernel_init example_env bss_kshell)) (cr3 (kernel_init example_env bss_kshell)) 0x800010 = Some (fr OR 0x10) \<and>
     t_state (tasks (kernel_init example_env bss_kshell) ! 1) = TASK_RUNNING"
proof -
  have "unat (be_kernel_end example_env) \<le> 0x600000" by (simp add: example_env_def)
  note k = kernel_starts [OF bss_kshell_boot this]
  have p: "drop_bit 12 (0x800010 :: u32) = drop_bit 12 (heap_page 0)" "(0x800010 :: u32) AND 0xFFF = 0x10" by (simp_all add: heap_page_def)
  from k obtain fr where "\<forall>i < 256. \<forall>v. drop_bit 12 v = drop_bit 12 (heap_page i) \<longrightarrow>
      mmu_translate (pmem (kernel_init example_env bss_kshell)) (cr3 (kernel_init example_env bss_kshell)) v = Some (fr i OR (v AND 0xFFF))"
    unfolding memory_ok_def by blast
  then have "mmu_translate (pmem (kernel_init example_env bss_kshell)) (cr3 (kernel_init example_env bss_kshell)) 0x800010 = Some (fr 0 OR 0x10)"
    using p by (metis zero_less_numeral)
  then show ?thesis using k by (auto simp: tasks_ok_def)
qed

end
