(* ===== verification/Hexa_Packages.thy ===== *)
theory Hexa_Packages
  imports Hexa_Kernel
begin

text \<open>
  The package manager \<^verbatim>\<open>ayo\<close> of \<^verbatim>\<open>hexa.c\<close>: a table of packages in the kernel's image, each a few named texts.  Installing
  one makes a form for every text that has no form yet, and a marker form whose name is a dot and the name of the
  package; removing it deletes the forms with these names.
\<close>

section \<open>Packages\<close>

record pkg_entry =
  pkg_name :: bytes
  pkg_forms :: "(bytes \<times> bytes) list"

definition pkg_db :: "pkg_entry list" where
  "pkg_db =
    [
     \<lparr>pkg_name = cs ''games'', pkg_forms =
      [(cs ''snake.txt'', cs ''Snake: eat food (@), avoid walls, grow! WASD to move.''),
       (cs ''ttt.txt'', cs ''Tic-Tac-Toe: two-player. Get three in a row!''),
       (cs ''hangman.txt'', cs ''Hangman: guess the hidden word letter by letter.''),
       (cs ''memory.txt'', cs ''Memory: watch color sequence and repeat it!'')]\<rparr>,
     \<lparr>pkg_name = cs ''docs'', pkg_forms =
      [(cs ''readme.txt'', cs ''HEXA OS 5.1 - Paging, interrupts, scheduler, syscalls, user mode!''),
       (cs ''commands.txt'', cs ''Type '' @ [39] @ cs ''help'' @ [39] @ cs '' to list all available commands (70+).''),
       (cs ''about.txt'', cs ''HEXA OS 5.1: Paging Edition - IDT, PIC, PIT, paging, kmalloc, scheduler, syscalls!'')]\<rparr>,
     \<lparr>pkg_name = cs ''fun'', pkg_forms =
      [(cs ''quotes.txt'', [34] @ cs ''The only constant is change.'' @ [34] @ cs '' - Heraclitus''),
       (cs ''jokes.txt'', cs ''Q: Why did the OS crash? A: Out of funny business!''),
       (cs ''easter.txt'', cs ''Try '' @ [39] @ cs ''russian'' @ [39] @ cs '' for a risky game of chance!'')]\<rparr>,
     \<lparr>pkg_name = cs ''dev'', pkg_forms =
      [(cs ''api.txt'', cs ''API: print_string, put_char, get_char, get_line, clear_screen''),
       (cs ''memory.txt'', cs ''Kernel: 0x10000 | VGA: 0xB8000 | Stack: 0x7C00''),
       (cs ''pci.txt'', cs ''PCI: config via ports 0xCF8/0xCFC, BDF addressing.'')]\<rparr>,
     \<lparr>pkg_name = cs ''cheatsheet'', pkg_forms =
      [(cs ''keys.txt'', cs ''PS/2 scancodes mapped to ASCII. Shift for uppercase.''),
       (cs ''ports.txt'', cs ''0x3F8=COM1, 0x60=Keyboard, 0x64=Kbd Status, 0xCF8/CFC=PCI''),
       (cs ''cmos.txt'', cs ''CMOS regs: 0x00=sec, 0x02=min, 0x04=hr, 0x07=day, 0x08=mon, 0x09=yr''),
       (cs ''ata.txt'', cs ''ATA PIO: I/O 0x1F0-0x1F7. LBA28 addressing. Primary channel.'')]\<rparr>,
     \<lparr>pkg_name = cs ''tools'', pkg_forms =
      [(cs ''hexdump.txt'', cs ''View form content in hex with '' @ [39] @ cs ''view <form>'' @ [39] @ cs '' for text.''),
       (cs ''calc.txt'', cs ''Built-in calc: calc 2 + 2, calc 10 / 3''),
       (cs ''editor.txt'', cs ''Edit forms with '' @ [39] @ cs ''edit <form>'' @ [39] @ cs '', finish with '' @ [39] @ cs ''.done'' @ [39]),
       (cs ''tips.txt'', cs ''Use '' @ [39] @ cs ''diese <cmd>'' @ [39] @ cs '' to run as root. '' @ [39] @ cs ''up-arrow'' @ [39] @ cs '' recalls last cmd.'')]\<rparr>,
     \<lparr>pkg_name = cs ''net'', pkg_forms =
      [(cs ''ping.txt'', cs ''ping: simulated network ping. '' @ [39] @ cs ''ping localhost'' @ [39]),
       (cs ''dns.txt'', cs ''DNS resolves hostnames to IPs (simulated).''),
       (cs ''ip.txt'', cs ''IP addressing: 127.0.0.1 is localhost.''),
       (cs ''tcp.txt'', cs ''TCP: reliable transport. HEXA uses raw I/O.''),
       (cs ''curl.txt'', cs ''curl: simulated web requests (display only).'')]\<rparr>,
     \<lparr>pkg_name = cs ''math'', pkg_forms =
      [(cs ''pi.txt'', cs ''PI = 3.1415926535897932384626433832795''),
       (cs ''e.txt'', cs ''E = 2.7182818284590452353602874713527''),
       (cs ''fib.txt'', cs ''Fibonacci: 0,1,1,2,3,5,8,13,21,34,55,89,144...''),
       (cs ''prime.txt'', cs ''Primes: 2,3,5,7,11,13,17,19,23,29,31,37,41,43,47...''),
       (cs ''stats.txt'', cs ''mean, median, mode - basic stats. Use calc for math.'')]\<rparr>,
     \<lparr>pkg_name = cs ''sysadmin'', pkg_forms =
      [(cs ''df.txt'', cs ''df: disk free. storage.img: 128KB total''),
       (cs ''dmesg.txt'', cs ''dmesg: kernel ring buffer. Boot messages here.''),
       (cs ''uptime.txt'', cs ''uptime: system uptime in ticks''),
       (cs ''iostat.txt'', cs ''iostat: ATA disk I/O stats (simulated).''),
       (cs ''top.txt'', cs ''tasks: system tasks. Only shell task running.'')]\<rparr>,
     \<lparr>pkg_name = cs ''security'', pkg_forms =
      [(cs ''passwd.txt'', cs ''passwd: change your password. New: hashed storage!''),
       (cs ''perm.txt'', cs ''Permissions: hex mode. Use setmode + setowner.''),
       (cs ''root.txt'', cs ''Root has full access. Use '' @ [39] @ cs ''diese <cmd>'' @ [39] @ cs '' for root.''),
       (cs ''audit.txt'', cs ''Log: all changes are persisted to disk image.'')]\<rparr>,
     \<lparr>pkg_name = cs ''media'', pkg_forms =
      [(cs ''ascii.txt'', cs ''ASCII art: use '' @ [39] @ cs ''logo'' @ [39] @ cs '' for HEXA banner.''),
       (cs ''colors.txt'', cs ''VGA colors: 0-15. Use '' @ [39] @ cs ''color <n>'' @ [39] @ cs '' to change.''),
       (cs ''pics.txt'', cs ''ASCII pics: try '' @ [39] @ cs ''cowsay'' @ [39] @ cs '' for cow, '' @ [39] @ cs ''sl'' @ [39] @ cs '' for train.''),
       (cs ''anim.txt'', cs ''Animation: '' @ [39] @ cs ''cmatrix'' @ [39] @ cs '' rain, '' @ [39] @ cs ''sl'' @ [39] @ cs '' train, '' @ [39] @ cs ''hack'' @ [39] @ cs '' bar.'')]\<rparr>,
     \<lparr>pkg_name = cs ''productivity'', pkg_forms =
      [(cs ''calendar.txt'', cs ''Calendar: see date via '' @ [39] @ cs ''date'' @ [39] @ cs '' command (RTC).''),
       (cs ''reminder.txt'', cs ''No alarms yet. Use forms for reminders.''),
       (cs ''notes.txt'', cs ''Note taking: '' @ [39] @ cs ''edit <form>'' @ [39] @ cs '' creates/modifies notes.''),
       (cs ''todo.txt'', cs ''Todo: '' @ [39] @ cs ''mkform todo.txt'' @ [39] @ cs '' and '' @ [39] @ cs ''edit todo.txt'' @ [39] @ cs ''.'')]\<rparr>,
     \<lparr>pkg_name = cs ''science'', pkg_forms =
      [(cs ''elements.txt'', cs ''H,He,Li,Be,B,C,N,O,F,Ne - periodic table begins here''),
       (cs ''speed.txt'', cs ''Speed of light: 299,792,458 m/s''),
       (cs ''gravity.txt'', cs ''Gravitational constant G = 6.67430e-11''),
       (cs ''planck.txt'', cs ''Planck constant h = 6.62607015e-34''),
       (cs ''solar.txt'', cs ''Solar system: 8 planets orbiting Sol.'')]\<rparr>,
     \<lparr>pkg_name = cs ''lang'', pkg_forms =
      [(cs ''hello_c.txt'', cs ''C: #include <stdio.h>'' @ [92] @ cs ''nint main(){return 0;}''),
       (cs ''hello_py.txt'', cs ''Python: print('' @ [39] @ cs ''Hello, HEXA!'' @ [39] @ cs '')''),
       (cs ''hello_asm.txt'', cs ''x86 ASM: mov eax, 1; int 0x80''),
       (cs ''hello_js.txt'', cs ''JS: console.log('' @ [39] @ cs ''Hello from HEXA!'' @ [39] @ cs '');''),
       (cs ''shell.txt'', cs ''Shell: echo '' @ [39] @ cs ''Hello HEXA!'' @ [39])]\<rparr>,
     \<lparr>pkg_name = cs ''puzzle'', pkg_forms =
      [(cs ''sudoku.txt'', cs ''Sudoku: 9x9 grid. Solve with logic.''),
       (cs ''crossword.txt'', cs ''Crossword: word puzzle. Not implemented.''),
       (cs ''maze.txt'', cs ''Maze: find path from start to exit.''),
       (cs ''riddle.txt'', cs ''Riddle: What has keys but no locks? A keyboard!'')]\<rparr>,
     \<lparr>pkg_name = cs ''adventure'', pkg_forms =
      [(cs ''start.txt'', cs ''You stand in a dark room. Commands: look, go, take''),
       (cs ''cave.txt'', cs ''The cave is damp. You see a glowing sword.''),
       (cs ''forest.txt'', cs ''A dense forest. Paths lead north, east, south.''),
       (cs ''dragon.txt'', cs ''A dragon sleeps on a pile of gold.''),
       (cs ''treasure.txt'', cs ''You found the treasure! 1000 gold coins.'')]\<rparr>,
     \<lparr>pkg_name = cs ''retro'', pkg_forms =
      [(cs ''basic.txt'', cs ''BASIC: 10 PRINT '' @ [39] @ cs ''HELLO'' @ [39] @ [92] @ cs ''n20 GOTO 10''),
       (cs ''fortran.txt'', cs ''FORTRAN: PROGRAM HELLO'' @ [92] @ cs ''nPRINT*,'' @ [39] @ cs ''HELLO'' @ [39] @ [92] @ cs ''nEND''),
       (cs ''pascal.txt'', cs ''Pascal: begin writeln('' @ [39] @ cs ''Hello'' @ [39] @ cs ''); end.''),
       (cs ''c64.txt'', cs ''C64: 6510 CPU, 64KB RAM, SID sound.''),
       (cs ''dos.txt'', cs ''MS-DOS: dir, copy, del, edit, type.'')]\<rparr>,
     \<lparr>pkg_name = cs ''algorithms'', pkg_forms =
      [(cs ''sorting.txt'', cs ''Sorting: bubble, quick, merge, heap - O(n log n) best''),
       (cs ''search.txt'', cs ''Search: binary O(log n), linear O(n).''),
       (cs ''graph.txt'', cs ''Graph: BFS, DFS, Dijkstra, A* pathfinding.''),
       (cs ''tree.txt'', cs ''Tree: binary search, AVL, red-black, trie.''),
       (cs ''dp.txt'', cs ''Dynamic Prog: Fibonacci, knapSack, LCS, LIS.'')]\<rparr>,
     \<lparr>pkg_name = cs ''crypto'', pkg_forms =
      [(cs ''caesar.txt'', cs ''Caesar cipher: shift letters by N positions.''),
       (cs ''vigenere.txt'', cs ''Vigenere: polyalphabetic cipher with keyword.''),
       (cs ''xor.txt'', cs ''XOR: simple symmetric encryption.''),
       (cs ''hash.txt'', cs ''HEXA now uses hashed passwords! djb2 variant.''),
       (cs ''rot13.txt'', cs ''ROT13: rotate by 13, reverses itself.'')]\<rparr>,
     \<lparr>pkg_name = cs ''music'', pkg_forms =
      [(cs ''notes.txt'', cs ''Notes: C D E F G A B (do re mi fa so la ti)''),
       (cs ''chords.txt'', cs ''Chords: Cmaj, Dmin, Emin, Fmaj, Gmaj, Amin, Bdim''),
       (cs ''scale.txt'', cs ''C major scale: C D E F G A B C''),
       (cs ''beep.txt'', cs ''Use '' @ [39] @ cs ''beep'' @ [39] @ cs '' command for terminal bell.''),
       (cs ''song.txt'', cs ''Twinkle Twinkle Little Star: C C G G A A G'')]\<rparr>,
     \<lparr>pkg_name = cs ''philosophy'', pkg_forms =
      [(cs ''plato.txt'', cs ''Plato: The Republic - justice in the individual and state.''),
       (cs ''nietzsche.txt'', cs ''Nietzsche: '' @ [39] @ cs ''What does not kill me makes me stronger.'' @ [39]),
       (cs ''descartes.txt'', cs ''Descartes: '' @ [39] @ cs ''I think, therefore I am.'' @ [39]),
       (cs ''confucius.txt'', cs ''Confucius: '' @ [39] @ cs ''It does not matter how slowly you go as long as you do not stop.'' @ [39]),
       (cs ''zen.txt'', cs ''Zen: '' @ [39] @ cs ''Before enlightenment, chop wood, carry water.'' @ [39])]\<rparr>,
     \<lparr>pkg_name = cs ''geography'', pkg_forms =
      [(cs ''capitals.txt'', cs ''Paris, London, Berlin, Rome, Madrid, Lisbon, Athens''),
       (cs ''rivers.txt'', cs ''Nile (6650km), Amazon (6400km), Mississippi (3730km)''),
       (cs ''mountains.txt'', cs ''Everest (8848m), K2 (8611m), Kangchenjunga (8586m)''),
       (cs ''oceans.txt'', cs ''Pacific, Atlantic, Indian, Southern, Arctic''),
       (cs ''flags.txt'', cs ''HEXA OS flags: ASCII art banners!'')]\<rparr>]"

definition find_pkg :: "bytes \<Rightarrow> pkg_entry option" where
  "find_pkg name = find (\<lambda>p. pkg_name p = name) pkg_db"

text \<open>The name of the marker, \<^verbatim>\<open>mkr\<close> of the code.\<close>

definition marker :: "bytes \<Rightarrow> bytes" where
  "marker name = 46 # name"

definition root_only :: "string \<Rightarrow> 'a kcon_scheme \<Rightarrow> 'a kcon_scheme" where
  "root_only use s = puts use (print_color (cs ''Root only.'' @ [10]) 0x0C s)"

section \<open>Forms of a package\<close>

text \<open>The form behind the last one gets a name, memory and a text; its mode stays what the slot had.\<close>

definition add_form :: "bytes \<Rightarrow> bytes \<Rightarrow> 'a kusr_scheme \<Rightarrow> 'a kusr_scheme option" where
  "add_form name content s =
     (let k = form_count s in
      do {
        (ok, s1) \<leftarrow> form_ensure_cap k (int (length content) + 1) (upd_form k (\<lambda>f. f\<lparr>fm_name := strcpy (fm_name f) name\<rparr>) s);
        let s2 = s1\<lparr>vmem := poke (fm_content (form_table s1 ! k)) (content @ [0]) (vmem s1)\<rparr>;
        Some ((upd_form k (\<lambda>f. f\<lparr>fm_size := int (length content), fm_owner := int (u_cur s2)\<rparr>) s2)\<lparr>form_count := k + 1\<rparr>)
      })"

definition replace_text :: "nat \<Rightarrow> bytes \<Rightarrow> 'a kusr_scheme \<Rightarrow> 'a kusr_scheme option" where
  "replace_text fi content s =
     do {
       (ok, s1) \<leftarrow> form_ensure_cap fi (int (length content) + 1) s;
       let s2 = s1\<lparr>vmem := poke (fm_content (form_table s1 ! fi)) (content @ [0]) (vmem s1)\<rparr>;
       Some (upd_form fi (\<lambda>f. f\<lparr>fm_size := int (length content)\<rparr>) s2)
     }"

primrec install_forms :: "(bytes \<times> bytes) list \<Rightarrow> 'a kusr_scheme \<Rightarrow> 'a kusr_scheme option" where
  "install_forms [] s = Some s"
| "install_forms (f # fs) s =
     (if find_form (fst f) s = None then Option.bind (add_form (fst f) (snd f) s) (install_forms fs) else install_forms fs s)"

definition drop_form :: "bytes \<Rightarrow> 'a kusr_scheme \<Rightarrow> 'a kusr_scheme" where
  "drop_form name s =
     (case find_form name s of
        None \<Rightarrow> s
      | Some fi \<Rightarrow> s\<lparr>form_table := fold (\<lambda>k t. t[k := t ! (k + 1)]) [fi..<form_count s - 1] (form_table s), form_count := form_count s - 1\<rparr>)"

definition install_pkg :: "pkg_entry \<Rightarrow> 'a kusr_scheme \<Rightarrow> 'a kusr_scheme option" where
  "install_pkg p s = Option.bind (add_form (marker (pkg_name p)) [49] s) (install_forms (pkg_forms p))"

definition remove_pkg :: "pkg_entry \<Rightarrow> 'a kusr_scheme \<Rightarrow> 'a kusr_scheme" where
  "remove_pkg p s = drop_form (marker (pkg_name p)) (fold (\<lambda>f. drop_form (fst f)) (pkg_forms p) s)"

primrec update_forms :: "(bytes \<times> bytes) list \<Rightarrow> 'a kusr_scheme \<Rightarrow> 'a kusr_scheme option" where
  "update_forms [] s = Some s"
| "update_forms (f # fs) s =
     (case find_form (fst f) s of
        Some fi \<Rightarrow> Option.bind (replace_text fi (snd f) s) (update_forms fs)
      | None \<Rightarrow> if form_count s < MAX_FORMS then Option.bind (add_form (fst f) (snd f) s) (update_forms fs) else update_forms fs s)"

text \<open>All installed packages, and their number.\<close>

primrec update_pkgs :: "pkg_entry list \<Rightarrow> u32 \<Rightarrow> 'a kusr_scheme \<Rightarrow> (u32 \<times> 'a kusr_scheme) option" where
  "update_pkgs [] n s = Some (n, s)"
| "update_pkgs (p # ps) n s =
     (if find_form (marker (pkg_name p)) s = None then update_pkgs ps n s
      else Option.bind (update_forms (pkg_forms p) s) (update_pkgs ps (n + 1)))"

section \<open>The command\<close>

definition ayo_list :: "'a kusr_scheme \<Rightarrow> 'a kusr_scheme" where
  "ayo_list s =
     fold (\<lambda>p s.
        let inst = find_form (marker (pkg_name p)) s \<noteq> None;
            s = print_string (pkg_name p) (print_string (cs ''  '') s);
            s = (if inst then print_color (cs '' [I]'') 0x0A s else print_string (cs '' [ ]'') s)
        in puts '' forms'' (print_num (of_nat (length (pkg_forms p))) (print_string (cs ''  '') s))) pkg_db (puts ''Packages:'' s)"

definition ayo_help :: "'a kcon_scheme \<Rightarrow> 'a kcon_scheme" where
  "ayo_help s =
     (let s = puts ''Usage:'' (puts ''ayo - HEXA OS Package Manager'' s);
          s = puts ''  ayo list           show packages [I]=installed'' s;
          s = puts ''  ayo add <pkg>     install package (root only)'' s;
          s = puts ''  ayo remove <pkg>  uninstall package (root only)'' s;
          s = print_string (cs ''Packages: '') (puts ''  ayo update        refresh all installed (root only)'' s);
          n = length pkg_db;
          s = fold (\<lambda>i s. let s = print_string (pkg_name (pkg_db ! i)) s in if i < n - 1 then print_string (cs '', '') s else s) [0..<n] s
      in print_string [10] s)"

definition ayo_add :: "bytes \<Rightarrow> 'a kusr_scheme \<Rightarrow> 'a kusr_scheme option" where
  "ayo_add pkg s =
     (if pkg = [] then Some (puts ''Usage: ayo add <pkg>'' s)
      else if u_cur s \<noteq> 0 then Some (root_only ''Use: diese ayo add <pkg>'' s)
      else case find_pkg pkg of
        None \<Rightarrow> Some (puts ''Unknown package.'' s)
      | Some p \<Rightarrow>
          if form_count s + length (pkg_forms p) + 1 \<ge> MAX_FORMS then Some (puts ''FS full.'' s)
          else if find_form (marker pkg) s \<noteq> None then Some (puts ''Already installed.'' s)
          else do {
            s1 \<leftarrow> install_pkg p s;
            (ok, s2) \<leftarrow> save_data s1;
            Some (print_string [10] (print_string pkg (print_string (cs ''Installed: '') s2)))
          })"

definition ayo_remove :: "bytes \<Rightarrow> 'a kusr_scheme \<Rightarrow> 'a kusr_scheme option" where
  "ayo_remove pkg s =
     (if pkg = [] then Some (puts ''Usage: ayo remove <pkg>'' s)
      else if u_cur s \<noteq> 0 then Some (root_only ''Use: diese ayo remove <pkg>'' s)
      else case find_pkg pkg of
        None \<Rightarrow> Some (puts ''Unknown package.'' s)
      | Some p \<Rightarrow>
          if find_form (marker pkg) s = None then Some (puts ''Not installed.'' s)
          else do {
            (ok, s1) \<leftarrow> save_data (remove_pkg p s);
            Some (print_string [10] (print_string pkg (print_string (cs ''Removed: '') s1)))
          })"

definition ayo_update :: "'a kusr_scheme \<Rightarrow> 'a kusr_scheme option" where
  "ayo_update s =
     (if u_cur s \<noteq> 0 then Some (root_only ''Use: diese ayo update'' s)
      else do {
        (n, s1) \<leftarrow> update_pkgs pkg_db 0 s;
        (ok, s2) \<leftarrow> save_data s1;
        Some (puts '' packages updated.'' (print_num n s2))
      })"

definition cmd_ayo :: "bytes \<Rightarrow> 'a kusr_scheme \<Rightarrow> 'a kusr_scheme option" where
  "cmd_ayo args s =
     (case split_args 15 31 args of (sub, pkg) \<Rightarrow>
        if sub = cs ''list'' then Some (ayo_list s)
        else if sub = cs ''help'' then Some (ayo_help s)
        else if sub = cs ''add'' then ayo_add pkg s
        else if sub = cs ''remove'' then ayo_remove pkg s
        else if sub = cs ''update'' then ayo_update s
        else Some (puts ''Usage: ayo <list|help|add|remove|update> [package]'' s))"

section \<open>Forms that are added and dropped\<close>

text \<open>
  The slots behind the last form are as at start-up, up to their names: no memory, mode 0.  (Deleting a
  form does not leave them so, see below.)
\<close>

definition clean_slots :: "'a kfs_scheme \<Rightarrow> bool" where
  "clean_slots s \<longleftrightarrow>
     (\<forall>i. form_count s \<le> i \<and> i < MAX_FORMS \<longrightarrow>
        fm_content (form_table s ! i) = 0 \<and> fm_cap (form_table s ! i) = 0 \<and> fm_mode (form_table s ! i) = 0)"

text \<open>One form is added, with its text, size and owner, in memory of its own.\<close>

lemma add_form_ok:
  fixes s :: "'a kusr_scheme"
  assumes r: "forms_rep L s" and cl: "clean_slots s" and room: "form_count s < MAX_FORMS"
    and n: "c_str n = n" "length n < 32" "n \<notin> fst ` set (forms s)"
    and k: "has_room k s" "length t + 1045 \<le> k" "k \<le> 2 ^ 31"
  obtains L' s' where "add_form n t s = Some s'" and "forms_rep L' s'" and "forms s' = forms s @ [(n, t, int (u_cur s), 0)]"
    and "clean_slots s'" and "has_room (k - (length t + 1040)) s'" and "form_count s' = form_count s + 1" and "u_cur s' = u_cur s"
proof -
  let ?k = "form_count s" and ?m = "length t + 1025"
  let ?g = "\<lambda>f. f\<lparr>fm_name := strcpy (fm_name f) n\<rparr>"
  let ?u = "upd_form ?k ?g s" and ?f = "?g (form_table s ! ?k)"
  have lt: "length (form_table s) = MAX_FORMS" and hl: "heap_live L s" and n32: "\<forall>f \<in> set (form_table s). length (fm_name f) = 32"
    using r by (simp_all add: forms_rep_def)
  have nk: "length (fm_name ?f) = 32" "c_str (fm_name ?f) = n"
    using strcpy_fits [of n "fm_name (form_table s ! ?k)"] n(1,2) n32 lt room by simp_all
  have slot: "fm_content ?f = 0" "fm_cap ?f = 0" "fm_mode ?f = 0" using cl room by (simp_all add: clean_slots_def)
  have hu: "heap_of ?u L ?u" using heap_live_cong [OF hl, of ?u] by (simp add: heap_of_def)
  have hk: "has_room k ?u" using k(1) room_cong(2) [of ?u s k] by simp
  have m20: "?m + 20 \<le> k" and left: "k - (?m + 15) = k - (length t + 1040)" using k(2) by simp_all
  have "\<exists>p s'. kmalloc (of_nat ?m) ?u = Some (p, s') \<and> p \<noteq> 0 \<and> has_room (k - (?m + 15)) s'"
    by (rule kmalloc_room [OF hk _ m20 k(3)]) simp
  then obtain p s1 where p: "kmalloc (of_nat ?m) ?u = Some (p, s1)" "p \<noteq> 0" "has_room (k - (length t + 1040)) s1"
    unfolding left by blast
  have ms: "0 < ?m \<and> ?m \<le> 2 ^ 32 - 4" using k(2,3) by simp
  from kheap.alloc [OF hu ms] obtain a sz where a: "a = unat p" "L a = None" "?m \<le> sz" "heap_of ?u (L(a \<mapsto> sz)) s1"
    "\<forall>b k i. L b = Some k \<and> i < k \<longrightarrow> k_byte s1 (b + i) = k_byte ?u (b + i)"
    using p(1,2) by (auto simp: k_alloc_def unat_eq_zero)
  have pa: "p = of_nat a" using a(1) by simp
  have h1: "heap_live (L(a \<mapsto> sz)) s1" using a(4) by (simp add: heap_of_def)
  have fr: "s1\<lparr>vmem := vmem ?u\<rparr> = ?u" using a(4) by (simp add: heap_of_def)
  have f1: "form_table s1 = (form_table s)[?k := ?f]" "form_count s1 = ?k" "u_cur s1 = u_cur s"
    using arg_cong [OF fr, of form_table] arg_cong [OF fr, of form_count] arg_cong [OF fr, of u_cur] by (simp_all add: upd_form_def)
  have req: "(of_int (int (length t) + 1 + 1024) :: u32) = of_nat ?m" by simp
  let ?s2 = "upd_form ?k (\<lambda>f. f\<lparr>fm_content := p, fm_cap := int (length t) + 1 + 1024\<rparr>) s1"
  have e: "form_ensure_cap ?k (int (length t) + 1) ?u = Some (True, ?s2)"
    using slot lt room p(1,2) unfolding form_ensure_cap_def Let_def req by (simp add: upd_form_def)
  let ?s' = "(upd_form ?k (\<lambda>f. f\<lparr>fm_size := int (length t), fm_owner := int (u_cur s)\<rparr>)
      (?s2\<lparr>vmem := poke p (t @ [0]) (vmem s1)\<rparr>))\<lparr>form_count := ?k + 1\<rparr>"
  let ?h = "?f\<lparr>fm_content := p, fm_cap := int (length t) + 1 + 1024, fm_size := int (length t), fm_owner := int (u_cur s)\<rparr>"
  have add: "add_form n t s = Some ?s'"
    using e f1 lt room by (simp add: add_form_def Let_def upd_form_def)
  have st: "s1\<lparr>vmem := poke p (t @ [0]) (vmem s1)\<rparr> = kheap.sto_list a (t @ [0]) s1"
    unfolding pa by (rule poke_sto_list)
  have t': "form_table ?s' = (form_table s)[?k := ?h]" "form_count ?s' = ?k + 1" "heap_first ?s' = heap_first s1"
    using f1 lt room by (simp_all add: upd_form_def)
  have tv: "vmem ?s' = vmem (kheap.sto_list a (t @ [0]) s1)" using arg_cong [OF st, of vmem] by simp
  have kb: "k_byte ?u = k_byte s" by (rule k_byte_cong) simp
  have by1: "\<forall>b k i. L b = Some k \<and> i < k \<longrightarrow> k_byte s1 (b + i) = k_byte s (b + i)" using a(5) kb by simp
  have lx: "length (t @ [0]) \<le> sz" using a(3) by simp
  have rep: "forms_rep (L(a \<mapsto> sz)) ?s'" "forms ?s' = forms s @ [(n, t, int (u_cur s), 0)]"
    using forms_snoc [OF r room a(2) h1 by1 lx t'(1,2) tv t'(3)] nk n(3) a(1,3) slot(3) by simp_all
  have La: "(L(a \<mapsto> sz)) a = Some sz" by simp
  have "has_room (k - (length t + 1040)) (kheap.sto_list (a + 0) (t @ [0]) s1)"
    by (rule sto_list_room [OF h1 La _ p(3)]) (use lx in simp)
  moreover have "heap_first (kheap.sto_list a (t @ [0]) s1) = heap_first s1" using arg_cong [OF st, of heap_first] by simp
  ultimately have hr: "has_room (k - (length t + 1040)) ?s'"
    using room_cong(2) [OF tv] t'(3) by simp
  have "clean_slots ?s'" using cl lt unfolding clean_slots_def t'(1,2) by (simp add: nth_list_update)
  then show thesis using that [OF add rep(1,2) _ hr t'(2)] f1(3) by (simp add: upd_form_def)
qed

definition form_entry :: "nat \<Rightarrow> bytes \<times> bytes \<Rightarrow> bytes \<times> bytes \<times> int \<times> u16" where
  "form_entry u = (\<lambda>(n, t). (n, t, int u, 0))"

lemma install_forms_ok:
  fixes s :: "'a kusr_scheme"
  assumes "forms_rep L s" and "clean_slots s" and "form_count s + length fs \<le> MAX_FORMS"
    and "\<forall>f \<in> set fs. c_str (fst f) = fst f \<and> length (fst f) < 32 \<and> length (snd f) \<le> 150"
    and "distinct (map fst fs)" and "fst ` set fs \<inter> fst ` set (forms s) = {}"
    and "has_room k s" and "1200 * length fs \<le> k" and "k \<le> 2 ^ 31"
  shows "\<exists>L' s'. install_forms fs s = Some s' \<and> forms_rep L' s' \<and> forms s' = forms s @ map (form_entry (u_cur s)) fs"
  using assms
proof (induction fs arbitrary: L s k)
  case (Cons f fs)
  obtain n t where f: "f = (n, t)" by (cases f)
  have c: "c_str n = n" "length n < 32" "length t \<le> 150" "n \<notin> fst ` set (forms s)" using Cons.prems(4,6) f by auto
  then have fn: "find_form n s = None" using find_form_None [OF Cons.prems(1), of n] by simp
  have k: "length t + 1045 \<le> k" "form_count s < MAX_FORMS" using Cons.prems(3,8) c(3) by simp_all
  obtain L1 s1 where s1: "add_form n t s = Some s1" "forms_rep L1 s1" "forms s1 = forms s @ [(n, t, int (u_cur s), 0)]"
    "clean_slots s1" "has_room (k - (length t + 1040)) s1" "form_count s1 = form_count s + 1" "u_cur s1 = u_cur s"
    by (rule add_form_ok [OF Cons.prems(1,2) k(2) c(1,2,4) Cons.prems(7) k(1) Cons.prems(9)])
  have "\<exists>L' s'. install_forms fs s1 = Some s' \<and> forms_rep L' s' \<and> forms s' = forms s1 @ map (form_entry (u_cur s1)) fs"
  proof (rule Cons.IH [OF s1(2,4) _ _ _ _ s1(5)])
    show "fst ` set fs \<inter> fst ` set (forms s1) = {}" using Cons.prems(5,6) s1(3) f by auto
    show "1200 * length fs \<le> k - (length t + 1040)" using Cons.prems(8) c(3) by simp
  qed (use Cons.prems s1(6) in auto)
  then show ?case using s1(1,3,7) fn by (auto simp: f form_entry_def)
qed auto

lemma drop_form_ok:
  fixes s :: "'a kusr_scheme"
  assumes r: "forms_rep L s"
  shows "forms_rep L (drop_form n s)" and "forms (drop_form n s) = filter (\<lambda>e. fst e \<noteq> c_str n) (forms s)"
proof -
  have "forms_rep L (drop_form n s) \<and> forms (drop_form n s) = filter (\<lambda>e. fst e \<noteq> c_str n) (forms s)"
  proof (cases "find_form n s")
    case None
    then have "c_str n \<notin> fst ` set (forms s)" using find_form_None [OF r, of n] by simp
    then have "filter (\<lambda>e. fst e \<noteq> c_str n) (forms s) = forms s" by (intro filter_True) force
    then show ?thesis using None r by (simp add: drop_form_def)
  next
    case (Some i)
    note i = find_form_Some [OF Some]
    let ?t = "fold (\<lambda>k t. t[k := t ! (k + 1)]) [i..<form_count s - 1] (form_table s)"
    let ?s = "s\<lparr>form_table := ?t, form_count := form_count s - 1\<rparr>"
    have lt: "length (form_table s) = MAX_FORMS" "form_count s \<le> MAX_FORMS" and hl: "heap_live L s" using r by (simp_all add: forms_rep_def)
    have sh: "length ?t = MAX_FORMS" "take (form_count s - 1) ?t = take i (the_forms s) @ drop (i + 1) (the_forms s)"
      using shift_down [of "form_count s" "form_table s" i] shift_down_take [of i "form_count s" "form_table s"] i(1) lt by auto
    have tb: "table_ok L (take i (the_forms s) @ drop (i + 1) (the_forms s))"
    proof -
      have "table_ok L (take i (the_forms s) @ the_forms s ! i # drop (i + 1) (the_forms s))"
        using r id_take_nth_drop [of i "the_forms s"] i(1) lt by (simp add: forms_rep_def)
      then show ?thesis by (auto simp: table_ok_def)
    qed
    have "\<forall>g \<in> set ?t. length (fm_name g) = 32"
    proof
      fix g assume "g \<in> set ?t"
      then obtain j where "j < MAX_FORMS" "g = ?t ! j" using sh(1) by (auto simp: in_set_conv_nth)
      moreover from this have "?t ! j \<in> set (form_table s)" using shift_down [of "form_count s" "form_table s" i] lt by (auto split: if_splits)
      ultimately show "length (fm_name g) = 32" using r by (simp add: forms_rep_def)
    qed
    moreover have "heap_live L ?s" by (rule heap_live_cong [OF hl]) simp_all
    ultimately have rep: "forms_rep L ?s" using sh tb lt by (simp add: forms_rep_def)
    have kb: "k_byte ?s = k_byte s" by (rule k_byte_cong) simp
    have "form_view ?s = form_view s" by (rule ext) (simp only: form_view_def form_text_def k_bytes_def kb)
    then have fl: "forms ?s = take i (forms s) @ drop (i + 1) (forms s)"
      using sh(2) by (simp add: forms_def forms_list_def take_map drop_map)
    have il: "i < length (forms s)" "fst (forms s ! i) = c_str n"
      using i length_forms [OF r] forms_nth [OF r i(1)] by (simp_all add: form_view_def)
    have sp: "forms s = take i (forms s) @ forms s ! i # drop (i + 1) (forms s)" using id_take_nth_drop [OF il(1)] by simp
    have "distinct (map fst (take i (forms s) @ forms s ! i # drop (i + 1) (forms s)))" using forms_distinct [OF r] sp by metis
    then have "\<forall>e \<in> set (take i (forms s) @ drop (i + 1) (forms s)). fst e \<noteq> c_str n" using il(2) by (auto simp: image_iff)
    then have "filter (\<lambda>e. fst e \<noteq> c_str n) (take i (forms s) @ forms s ! i # drop (i + 1) (forms s)) =
        take i (forms s) @ drop (i + 1) (forms s)"
      using il(2) by (auto intro!: filter_True)
    then have "filter (\<lambda>e. fst e \<noteq> c_str n) (forms s) = take i (forms s) @ drop (i + 1) (forms s)" using sp by metis
    then show ?thesis using Some rep fl by (simp add: drop_form_def)
  qed
  then show "forms_rep L (drop_form n s)" "forms (drop_form n s) = filter (\<lambda>e. fst e \<noteq> c_str n) (forms s)" by simp_all
qed

lemma drop_forms_ok:
  fixes s :: "'a kusr_scheme"
  shows "forms_rep L s \<Longrightarrow> forms_rep L (fold (\<lambda>f. drop_form (fst f)) fs s) \<and>
    forms (fold (\<lambda>f. drop_form (fst f)) fs s) = filter (\<lambda>e. fst e \<notin> c_str ` fst ` set fs) (forms s)"
  by (induction fs arbitrary: s) (simp_all add: drop_form_ok conj_commute)

text \<open>Literals of the code as bytes.\<close>

lemma byte_char_eq: "(of_char c :: u8) = of_char d \<longleftrightarrow> c = d"
proof
  have n: "(of_nat (of_char x) :: u8) = of_char x" for x by (cases x) (simp add: of_char_def)
  assume "(of_char c :: u8) = of_char d"
  then have "unat (of_nat (of_char c) :: u8) = unat (of_nat (of_char d) :: u8)" by (simp only: n)
  moreover have "(of_char x :: nat) < 256" for x by (cases x) (simp add: of_char_def split: if_splits)
  ultimately have "(of_char c :: nat) = of_char d" by (simp add: unat_of_nat)
  then show "c = d" by simp
qed simp

lemma cs_facts: "cs a = cs b \<longleftrightarrow> a = b" "0 \<in> set (cs a) \<longleftrightarrow> CHR 0x00 \<in> set a" "length (cs a) = length a" "a \<noteq> [] \<Longrightarrow> hd (cs a) = of_char (hd a)"
proof -
  have "inj (of_char :: char \<Rightarrow> u8)" by (simp add: inj_def byte_char_eq)
  then show "cs a = cs b \<longleftrightarrow> a = b" "0 \<in> set (cs a) \<longleftrightarrow> CHR 0x00 \<in> set a"
    using inj_image_mem_iff [of "of_char :: char \<Rightarrow> u8" "CHR 0x00" "set a"] by (simp_all add: cs_def inj_map_eq_map)
  show "length (cs a) = length a" by (simp add: cs_def)
  show "a \<noteq> [] \<Longrightarrow> hd (cs a) = of_char (hd a)" by (simp add: cs_def hd_map)
qed

lemma dot_char: "(46 :: u8) = of_char (CHR ''.'')"
  by code_simp

text \<open>The packages have at most six texts with different names, and their names and markers fit the arrays.\<close>

lemma pkg_db_fits:
  "\<forall>p \<in> set pkg_db. length (pkg_forms p) \<le> 6 \<and> distinct (map fst (pkg_forms p)) \<and> length (pkg_name p) < 31 \<and> 0 \<notin> set (pkg_name p) \<and>
    (\<forall>f \<in> set (pkg_forms p). length (fst f) < 32 \<and> 0 \<notin> set (fst f) \<and> hd (fst f) \<noteq> 46 \<and> length (snd f) \<le> 150)"
  unfolding pkg_db_def dot_char by (simp add: cs_facts byte_char_eq)

section \<open>Properties\<close>

lemma pkg_fits:
  assumes "p \<in> set pkg_db"
  shows "distinct (map fst (pkg_forms p))" and "\<forall>f \<in> set (pkg_forms p). c_str (fst f) = fst f \<and> length (fst f) < 32"
    and "c_str (marker (pkg_name p)) = marker (pkg_name p)" and "length (marker (pkg_name p)) < 32"
    and "\<forall>f \<in> set (pkg_forms p). fst f \<noteq> marker (pkg_name p)"
    and "length (pkg_forms p) \<le> 6" and "\<forall>f \<in> set (pkg_forms p). length (snd f) \<le> 150"
  using bspec [OF pkg_db_fits assms] by (force simp: marker_def c_str_id)+

text \<open>
  C37: installing a package puts its texts into the table, and removing it takes exactly these away.  On a
  well-formed table and heap with a free block of 10000 bytes, whose slots behind the last form were not
  used before and in which none of the names is taken, the installation returns; it appends the marker, with
  the text \<^verbatim>\<open>1\<close>, and every text of the package under its name, with all its bytes and owned by the current
  user, in order, and leaves every other form as it is.  Removing the package then restores the whole list of forms: names, texts,
  owners and modes.
\<close>

theorem ayo_add_remove:
  fixes s :: "'a kusr_scheme"
  assumes "p \<in> set pkg_db" and "forms_inv s" and "clean_slots s" and "has_room 10000 s"
    and "form_count s + length (pkg_forms p) + 1 < MAX_FORMS"
    and "insert (marker (pkg_name p)) (fst ` set (pkg_forms p)) \<inter> fst ` set (forms s) = {}"
  shows "\<exists>s1. install_pkg p s = Some s1 \<and> forms_inv s1 \<and>
    forms s1 = forms s @ (marker (pkg_name p), [49], int (u_cur s), 0) # map (\<lambda>(n, t). (n, t, int (u_cur s), 0)) (pkg_forms p) \<and>
    forms_inv (remove_pkg p s1) \<and> forms (remove_pkg p s1) = forms s"
proof -
  note p = pkg_fits [OF assms(1)]
  let ?m = "marker (pkg_name p)" and ?fs = "pkg_forms p"
  obtain L where r: "forms_rep L s" using assms(2) unfolding forms_inv_def by blast
  have b: "form_count s < MAX_FORMS" "length [49 :: u8] + 1045 \<le> 10000" "(10000 :: nat) \<le> 2 ^ 31" "?m \<notin> fst ` set (forms s)"
    using assms(5,6) by auto
  obtain L0 s0 where s0: "add_form ?m [49] s = Some s0" "forms_rep L0 s0" "forms s0 = forms s @ [(?m, [49], int (u_cur s), 0)]"
    "clean_slots s0" "has_room (10000 - (length [49 :: u8] + 1040)) s0" "form_count s0 = form_count s + 1" "u_cur s0 = u_cur s"
    by (rule add_form_ok [OF r assms(3) b(1) p(3,4) b(4) assms(4) b(2,3)])
  have "\<exists>L' s'. install_forms ?fs s0 = Some s' \<and> forms_rep L' s' \<and> forms s' = forms s0 @ map (form_entry (u_cur s0)) ?fs"
  proof (rule install_forms_ok [OF s0(2,4) _ _ p(1) _ s0(5)])
    show "fst ` set ?fs \<inter> fst ` set (forms s0) = {}" using assms(6) p(5) s0(3) by auto
  qed (use assms(5) s0(6) p(2,6,7) in auto)
  then obtain L1 s1 where s1: "install_forms ?fs s0 = Some s1" "forms_rep L1 s1"
    "forms s1 = forms s @ (?m, [49], int (u_cur s), 0) # map (form_entry (u_cur s)) ?fs"
    using s0(3,7) by auto
  have cf: "c_str ` fst ` set ?fs = fst ` set ?fs" using p(2) by (force simp: image_iff)
  note d = drop_forms_ok [OF s1(2), of ?fs, unfolded cf]
  have "filter (\<lambda>e. fst e \<notin> fst ` set ?fs) (forms s1) = forms s @ [(?m, [49], int (u_cur s), 0)]"
  proof -
    have "filter (\<lambda>e. fst e \<notin> fst ` set ?fs) (forms s) = forms s" using assms(6) by (intro filter_True) blast
    moreover have "filter (\<lambda>e. fst e \<notin> fst ` set ?fs) (map (form_entry (u_cur s)) ?fs) = []"
      by (rule filter_False) (force simp: form_entry_def)
    moreover have "?m \<notin> fst ` set ?fs" using p(5) by auto
    ultimately show ?thesis using s1(3) by simp
  qed
  moreover have "filter (\<lambda>e. fst e \<noteq> ?m) (forms s) = forms s" using b(4) by (intro filter_True) force
  ultimately have "forms (remove_pkg p s1) = forms s" "forms_rep L1 (remove_pkg p s1)"
    using d drop_form_ok [OF conjunct1 [OF d], of ?m] p(3) by (simp_all add: remove_pkg_def)
  then show ?thesis
    using s0(1) s1 by (auto simp: install_pkg_def forms_inv_def form_entry_def)
qed

text \<open>
  Only root installs, removes and updates packages.  For any other user \<^verbatim>\<open>ayo\<close> changes nothing but the screen,
  whatever its arguments are.
\<close>

theorem ayo_needs_root:
  assumes "u_cur s \<noteq> 0" and "cmd_ayo args s = Some s'"
  shows "con_frame s s'"
proof -
  have p: "con_frame s (puts t s)" for t and s :: "'a kusr_scheme" unfolding puts_def by (rule con_frame_print_string)
  have r: "con_frame s (root_only t s)" for t unfolding root_only_def by (rule con_frame_trans [OF con_frame_print_color p])
  have f: "con_frame u (fold g xs u)" if "\<And>x u. con_frame u (g x u)" for g and xs :: "'b list" and u :: "'a kusr_scheme"
  proof (induction xs arbitrary: u)
    case (Cons x xs)
    show ?case using con_frame_trans [OF that Cons.IH] by simp
  qed (simp add: con_frame_refl)
  have fr: "con_frame u (print_string t u')" "con_frame u (print_color t c u')" "con_frame u (puts t' u')" "con_frame u (print_num v u')"
    if "con_frame u u'" for u u' :: "'a kusr_scheme" and t t' c v
    using con_frame_trans [OF that] con_frame_print_string [of u'] con_frame_print_color [of u'] by (simp_all add: puts_def print_num_def)
  have l: "con_frame s (ayo_list s)"
    unfolding ayo_list_def Let_def by (rule con_frame_trans [OF p f]) (auto intro!: fr con_frame_refl)
  have h: "con_frame s (ayo_help s)"
    unfolding ayo_help_def Let_def by (intro fr) (rule con_frame_trans [OF _ f], auto intro!: fr con_frame_refl)
  show ?thesis using assms l h p r
    by (auto simp: cmd_ayo_def ayo_add_def ayo_remove_def ayo_update_def split: if_splits prod.splits)
qed

text \<open>Two pairs of packages share a name, so removing one of a pair takes a text of the other away.\<close>

lemma packages_share_texts:
  "\<exists>p q. find_pkg (cs ''games'') = Some p \<and> find_pkg (cs ''dev'') = Some q \<and> cs ''memory.txt'' \<in> fst ` set (pkg_forms p) \<inter> fst ` set (pkg_forms q)"
  by (simp add: find_pkg_def pkg_db_def cs_facts(1))

text \<open>
  Deleting a form that is not the last one leaves the last slot as it was, so the slot behind the new
  last form shares its memory; the next installation writes its marker into this memory, over the text
  of the last form.
\<close>

lemma ayo_after_delete_overwrites:
  fixes s :: "'a kusr_scheme"
  assumes r: "forms_rep L s" and fi: "find_form n s = Some i" and pm: "\<not> check_perm (int i) True s"
    and i: "i + 1 < form_count s" and cap: "2 \<le> fm_cap (form_table s ! (form_count s - 1))"
  shows "\<exists>s1 s2. cmd_delete n s = Some s1 \<and> form_count s1 = form_count s - 1 \<and> add_form m [49] s1 = Some s2 \<and>
    vmem s2 (fm_content (form_table s2 ! (form_count s1 - 1))) = 49"
proof -
  let ?k = "form_count s - 1" and ?f = "form_table s ! i"
  let ?t = "fold (\<lambda>i t. t[i := t ! (i + 1)]) [i..<?k] (form_table s)"
  have lt: "length (form_table s) = MAX_FORMS" "form_count s \<le> MAX_FORMS" and hl: "heap_live L s" using r by (simp_all add: forms_rep_def)
  have il: "i < form_count s" using i by simp
  obtain sz where f: "L (block_of ?f) = Some sz" using forms_rep_ok [OF r il] unfolding form_ok_def by blast
  have c0: "fm_content ?f \<noteq> 0" using heap_live_range(1) [OF hl f] by auto
  obtain v where v: "kfree (fm_content ?f) s = Some (s\<lparr>vmem := v\<rparr>)" using kfree_live [OF hl f] by auto
  let ?s = "s\<lparr>vmem := v, form_table := ?t, form_count := ?k\<rparr>"
  have d: "cmd_delete n s = Some (print_string (cs ''Deleted.'' @ [10]) ?s)"
    using fi pm v c0 by (simp add: cmd_delete_def)
  have sh: "length ?t = MAX_FORMS" "\<forall>j < MAX_FORMS. ?t ! j = (if i \<le> j \<and> j < ?k then form_table s ! (j + 1) else form_table s ! j)"
    using shift_down [of "form_count s" "form_table s" i] lt by auto
  have k: "?k < MAX_FORMS" "?k - 1 < MAX_FORMS" "i \<le> ?k - 1" "?k - 1 < ?k" "?k - 1 + 1 = ?k" using i lt by auto
  have t: "?t ! ?k = form_table s ! ?k" "?t ! (?k - 1) = form_table s ! ?k"
    using sh(2) [rule_format, OF k(1)] sh(2) [rule_format, OF k(2)] k(3-5) by simp_all
  define s1 where "s1 = print_string (cs ''Deleted.'' @ [10]) ?s"
  have s1: "form_table s1 = ?t" "form_count s1 = ?k" by (simp_all add: s1_def)
  let ?g = "\<lambda>f. f\<lparr>fm_name := strcpy (fm_name f) m\<rparr>"
  have e: "form_ensure_cap ?k 2 (upd_form ?k ?g s1) = Some (True, upd_form ?k ?g s1)"
    using cap t(1) sh(1) k(1) s1 by (simp add: form_ensure_cap_def)
  obtain s2 where a: "add_form m [49] s1 = Some s2" and s2: "vmem s2 = poke (fm_content (form_table s ! ?k)) [49, 0] (vmem s1)"
    "fm_content (form_table s2 ! (?k - 1)) = fm_content (form_table s ! ?k)"
    using e t sh(1) k s1 by (simp add: add_form_def Let_def)
  have "vmem s2 (fm_content (form_table s ! ?k)) = 49" by (simp add: s2(1))
  then show ?thesis using d a s1(2) s2(2) by (auto simp: s1_def)
qed

section \<open>Examples\<close>

lemma boot_clean: "clean_slots boot_kusr" "forms boot_kusr = []" "has_room 10000 boot_kusr"
proof -
  have t: "form_table boot_kusr = replicate MAX_FORMS bss_form"
    by (simp add: boot_kusr_def bss_kusr_def bss_kfs_def kfs.defs knet.defs kusr.defs)
  show "clean_slots boot_kusr" by (simp add: clean_slots_def t bss_form_def)
  show "forms boot_kusr = []" by (simp add: forms_def forms_list_def boot_kusr_fields)
  show "has_room 10000 boot_kusr" using boot_has_room(1) unfolding has_room_def by force
qed

text \<open>Installing the first package after start-up, and removing it.\<close>

theorem ayo_add_remove_witness:
  "\<exists>s1. install_pkg (hd pkg_db) boot_kusr = Some s1 \<and>
     form_map s1 (cs ''ttt.txt'') = Some (cs ''Tic-Tac-Toe: two-player. Get three in a row!'', 0, 0) \<and>
     form_map s1 (cs ''.games'') = Some (cs ''1'', 0, 0) \<and> forms (remove_pkg (hd pkg_db) s1) = []"
proof -
  let ?p = "hd pkg_db"
  have p: "?p \<in> set pkg_db" "length (pkg_forms ?p) = 4" by (simp_all add: pkg_db_def)
  have "form_count boot_kusr + length (pkg_forms ?p) + 1 < MAX_FORMS" using p(2) boot_kusr_fields by simp
  from ayo_add_remove [OF p(1) boot_kusr_inv boot_clean(1,3) this] obtain s1 where
    s1: "install_pkg ?p boot_kusr = Some s1" "forms (remove_pkg ?p s1) = []"
    and f: "forms s1 = (marker (pkg_name ?p), [49], 0, 0) # map (\<lambda>(n, t). (n, t, 0, 0)) (pkg_forms ?p)"
    using boot_clean(2) boot_kusr_fields by auto
  have m: "marker (pkg_name ?p) = cs ''.games''" "[49] = cs ''1''" by (simp_all add: pkg_db_def marker_def cs_def of_char_def)
  have "form_map s1 (cs ''ttt.txt'') = Some (cs ''Tic-Tac-Toe: two-player. Get three in a row!'', 0, 0)"
    "form_map s1 (cs ''.games'') = Some (cs ''1'', 0, 0)"
    unfolding form_map_def f m by (simp_all add: pkg_db_def cs_facts(1))
  with s1 show ?thesis by blast
qed

theorem ayo_needs_root_witness: "con_frame guest_kernel (root_only ''Use: diese ayo update'' guest_kernel)"
proof -
  have g: "u_cur guest_kernel \<noteq> 0" by (simp add: guest_kernel_def)
  have "split_args 15 31 (cs ''update'') = (cs ''update'', [])" by code_simp
  then have "cmd_ayo (cs ''update'') guest_kernel = Some (root_only ''Use: diese ayo update'' guest_kernel)"
    using g by (simp add: cmd_ayo_def ayo_update_def cs_facts(1))
  from ayo_needs_root [OF g this] show ?thesis .
qed

end
