(* ===== verification/Hexa_Games.thy ===== *)
theory Hexa_Games
  imports Hexa_Packages
begin

text \<open>
  The games of \<^verbatim>\<open>hexa.c\<close> that keep a state of their own: Tetris, tic-tac-toe, hangman and the guessing of a number.
  The keys come from the rounds of polling.  Tetris looks at the keyboard once a frame without waiting; a frame is
  one round.  Positions on the field are integers, since a piece may reach over its upper edge.
\<close>

section \<open>Input without waiting\<close>

definition kb_hit :: "round \<Rightarrow> bool" where
  "kb_hit r \<longleftrightarrow> rd_scan r \<noteq> None \<or> rd_serial r \<noteq> []"

definition getch_nb :: "round \<Rightarrow> 'a kshell_scheme \<Rightarrow> u8 \<times> 'a kshell_scheme" where
  "getch_nb r s =
     (if rd_serial r \<noteq> []
      then let c = hd (rd_serial r); c = (if c = 13 then 10 else c) in (if c = 127 then 8 else c, s)
      else case rd_scan r of
        None \<Rightarrow> (0, s)
      | Some sc \<Rightarrow>
          if sc = 0x2A \<or> sc = 0x36 then (0, s\<lparr>sh_shift := True\<rparr>)
          else if sc = 0xAA \<or> sc = 0xB6 then (0, s\<lparr>sh_shift := False\<rparr>)
          else if sc AND 0x80 = 0 \<and> sc < 128 then ((if sh_shift s then con_map_shift else con_map) ! unat sc, s)
          else (0, s))"

definition needs_games :: "'a kusr_scheme \<Rightarrow> bool" where
  "needs_games s \<longleftrightarrow> find_form (cs ''.games'') s = None"

section \<open>Tetris: pieces and field\<close>

definition TET_TW :: nat where "TET_TW = 10"
definition TET_TH :: nat where "TET_TH = 20"
definition TET_TOX :: nat where "TET_TOX = 28"
definition TET_TOY :: nat where "TET_TOY = 1"

declare TET_TW_def [simp] TET_TH_def [simp] TET_TOX_def [simp] TET_TOY_def [simp]

definition TET_SH :: "u16 list list" where
  "TET_SH =
     [[0x0F00, 0x2222, 0x0F00, 0x2222], [0x6600, 0x6600, 0x6600, 0x6600], [0x4E00, 0x4640, 0x0E40, 0x4C40],
      [0x6C00, 0x8C40, 0x6C00, 0x8C40], [0xC600, 0x4C80, 0xC600, 0x4C80], [0x8E00, 0x6440, 0x0E20, 0x44C0],
      [0x2E00, 0x4460, 0x0E80, 0xC440]]"

definition TET_CO :: "u8 list" where
  "TET_CO = [0x0B, 0x0E, 0x0D, 0x0A, 0x0C, 0x09, 0x07]"

text \<open>The compiler's \<^verbatim>\<open>char\<close> is signed: these are negative numbers.\<close>

definition TET_CH :: "u8 list" where
  "TET_CH = [178, 219, 177, 176, 254, 248, 216]"

type_synonym board = "int list list"

record tetris =
  tet_b :: board
  tet_px :: int
  tet_py :: int
  tet_t :: nat
  tet_r :: nat
  tet_sc :: int
  tet_ln :: int
  tet_lv :: int
  tet_go :: nat
  tet_dc :: int
  tet_nx :: "nat list"
  tet_hd :: "nat option"
  tet_hu :: bool

text \<open>The cells of a 4 x 4 mask in the order of the loops: row, then column.\<close>

definition mask_cells :: "u16 \<Rightarrow> (nat \<times> nat) list" where
  "mask_cells m = filter (\<lambda>(y, x). drop_bit (15 - (y * 4 + x)) m AND 1 \<noteq> 0) (List.product [0..<4] [0..<4])"

definition tet_cells :: "nat \<Rightarrow> nat \<Rightarrow> (nat \<times> nat) list" where
  "tet_cells t r = mask_cells (TET_SH ! t ! r)"

definition tet_col :: "board \<Rightarrow> nat \<Rightarrow> nat \<Rightarrow> int \<Rightarrow> int \<Rightarrow> bool" where
  "tet_col b t r bx by =
     list_ex (\<lambda>(y, x). let nx = bx + int x; ny = by + int y in
       nx < 0 \<or> nx \<ge> int TET_TW \<or> ny \<ge> int TET_TH \<or> (ny \<ge> 0 \<and> b ! nat ny ! nat nx \<noteq> 0)) (tet_cells t r)"

text \<open>A rotation that does not fit is tried at seven other places.\<close>

definition tet_kicks :: "(int \<times> int) list" where
  "tet_kicks = [(-1, 0), (1, 0), (0, -1), (-1, -1), (1, -1), (-2, 0), (2, 0)]"

definition tet_wk :: "board \<Rightarrow> nat \<Rightarrow> nat \<Rightarrow> int \<Rightarrow> int \<Rightarrow> (int \<times> int) option" where
  "tet_wk b t r bx by =
     (if \<not> tet_col b t r bx by then Some (bx, by)
      else map_option (\<lambda>(dx, dy). (bx + dx, by + dy)) (find (\<lambda>(dx, dy). \<not> tet_col b t r (bx + dx) (by + dy)) tet_kicks))"

definition set_cell :: "nat \<Rightarrow> nat \<Rightarrow> int \<Rightarrow> board \<Rightarrow> board" where
  "set_cell y x v b = b[y := (b ! y)[x := v]]"

definition tet_lk :: "tetris \<Rightarrow> tetris" where
  "tet_lk g =
     g\<lparr>tet_b := fold (\<lambda>(y, x) b. let bx = tet_px g + int x; by = tet_py g + int y in
        if by \<ge> 0 \<and> by < int TET_TH \<and> bx \<ge> 0 \<and> bx < int TET_TW then set_cell (nat by) (nat bx) (int (tet_t g) + 1) b else b)
        (tet_cells (tet_t g) (tet_r g)) (tet_b g)\<rparr>"

text \<open>Full rows are taken out, from the top to the bottom, and all rows above move down.\<close>

definition copy_row :: "nat \<Rightarrow> board \<Rightarrow> board" where
  "copy_row ky b = fold (\<lambda>kx b. set_cell ky kx (b ! (ky - 1) ! kx) b) [0..<TET_TW] b"

definition take_row_out :: "nat \<Rightarrow> board \<Rightarrow> board" where
  "take_row_out y b = fold (\<lambda>kx b. set_cell 0 kx 0 b) [0..<TET_TW] (fold copy_row (rev [1..<y + 1]) b)"

definition row_full :: "int list \<Rightarrow> bool" where
  "row_full row \<longleftrightarrow> list_all (\<lambda>x. row ! x \<noteq> 0) [0..<TET_TW]"

definition tet_cl :: "board \<Rightarrow> nat \<times> board" where
  "tet_cl b = fold (\<lambda>y (c, b). if row_full (b ! y) then (c + 1, take_row_out y b) else (c, b)) [0..<TET_TH] (0, b)"

text \<open>How far the piece can fall: the loop counts rows until the next one is taken.\<close>

partial_function (option) tet_dd_loop :: "board \<Rightarrow> nat \<Rightarrow> nat \<Rightarrow> int \<Rightarrow> int \<Rightarrow> int option" where
  "tet_dd_loop b t r bx gy = (if \<not> tet_col b t r bx (gy + 1) then tet_dd_loop b t r bx (gy + 1) else Some gy)"

definition tet_dd :: "tetris \<Rightarrow> int option" where
  "tet_dd g = map_option (\<lambda>gy. gy - tet_py g) (tet_dd_loop (tet_b g) (tet_t g) (tet_r g) (tet_px g) (tet_py g))"

section \<open>Tetris: the screen\<close>

definition vga_set :: "nat \<Rightarrow> u16 \<Rightarrow> 'a kcon_scheme \<Rightarrow> 'a kcon_scheme" where
  "vga_set i v s = s\<lparr>vga := (vga s)[i := v]\<rparr>"

definition tet_block :: "nat \<Rightarrow> u16" where
  "tet_block t = push_bit 8 (ucast (TET_CO ! t)) OR scast (TET_CH ! t)"

definition at_cursor :: "nat \<Rightarrow> nat \<Rightarrow> bytes \<Rightarrow> 'a kcon_scheme \<Rightarrow> 'a kcon_scheme" where
  "at_cursor x y t s = print_string t (s\<lparr>cursor_x := x, cursor_y := y\<rparr>)"

text \<open>A 4 x 4 picture of a piece in its first rotation.\<close>

definition draw_mini :: "nat \<Rightarrow> nat \<Rightarrow> nat \<Rightarrow> 'a kcon_scheme \<Rightarrow> 'a kcon_scheme" where
  "draw_mini t row col s =
     fold (\<lambda>(y, x) s. vga_set ((row + y) * 80 + col + x) (if (y, x) \<in> set (tet_cells t 0) then tet_block t else 0) s)
       (List.product [0..<4] [0..<4]) s"

text \<open>The piece itself, or its shadow on empty cells.\<close>

definition draw_piece :: "int \<Rightarrow> (nat \<Rightarrow> nat \<Rightarrow> bool) \<Rightarrow> u16 \<Rightarrow> tetris \<Rightarrow> 'a kcon_scheme \<Rightarrow> 'a kcon_scheme" where
  "draw_piece py ok v g s =
     fold (\<lambda>(y, x) s. let sy = py + int y; sx = tet_px g + int x in
        if sy \<ge> 0 \<and> sy < int TET_TH \<and> sx \<ge> 0 \<and> sx < int TET_TW \<and> ok (nat sy) (nat sx)
        then vga_set ((TET_TOY + 1 + nat sy) * 80 + TET_TOX + 1 + nat sx) v s else s)
       (tet_cells (tet_t g) (tet_r g)) s"

definition draw_board :: "board \<Rightarrow> 'a kcon_scheme \<Rightarrow> 'a kcon_scheme" where
  "draw_board b s =
     fold (\<lambda>(y, x) s. let v = b ! y ! x in
        vga_set ((TET_TOY + 1 + y) * 80 + TET_TOX + 1 + x) (if v \<noteq> 0 then tet_block (nat ((v - 1) mod 7)) else 0) s)
       (List.product [0..<TET_TH] [0..<TET_TW]) s"

definition draw_status :: "tetris \<Rightarrow> 'a kcon_scheme \<Rightarrow> 'a kcon_scheme" where
  "draw_status g s =
     (let x = TET_TW + 6;
          num = (\<lambda>y v s. print_string (cs ''   '') (at_cursor x y (itoa (of_int v) 10) s));
          s = num 3 (tet_sc g) (at_cursor x 2 (cs ''SCORE'') s);
          s = num 6 (tet_ln g) (at_cursor x 5 (cs ''LINES'') s);
          s = num 9 (tet_lv g) (at_cursor x 8 (cs ''LEVEL'') s)
      in at_cursor x 11 (cs ''NEXT'') s)"

definition tet_dw :: "tetris \<Rightarrow> 'a kcon_scheme \<Rightarrow> 'a kcon_scheme option" where
  "tet_dw g s =
     do {
       let s = draw_board (tet_b g) s;
       d \<leftarrow> tet_dd g;
       let s = draw_piece (tet_py g + d) (\<lambda>y x. tet_b g ! y ! x = 0) (push_bit 8 (ucast (drop_bit 1 (TET_CO ! tet_t g) OR 4)) OR 46) g s;
       let s = draw_status g (draw_piece (tet_py g) (\<lambda>_ _. True) (tet_block (tet_t g)) g s);
       let s = fold (\<lambda>i s. draw_mini (tet_nx g ! i) (TET_TOY + 6 + i * 4) (TET_TOX + 18) s) [0..<3] s;
       Some (case tet_hd g of
               None \<Rightarrow> s
             | Some h \<Rightarrow> draw_mini h (TET_TOY + 10) (TET_TOX + 18) (at_cursor (TET_TW + 6) 16 (cs ''HOLD'') s))
     }"

definition draw_frame :: "'a kcon_scheme \<Rightarrow> 'a kcon_scheme" where
  "draw_frame s =
     (let w = vga_cell 0x0F 35;
          s = fold (\<lambda>x s. vga_set ((TET_TOY + TET_TH + 1) * 80 + TET_TOX + x) w (vga_set (TET_TOY * 80 + TET_TOX + x) w s)) [0..<TET_TW + 2] s
      in fold (\<lambda>y s. vga_set ((TET_TOY + y) * 80 + TET_TOX + TET_TW + 1) w (vga_set ((TET_TOY + y) * 80 + TET_TOX) w s)) [0..<TET_TH + 2] s)"

section \<open>Tetris: the game\<close>

definition rand_piece :: "'a kshell_scheme \<Rightarrow> nat \<times> 'a kshell_scheme" where
  "rand_piece s = (case rand s of (v, s) \<Rightarrow> (unat (v mod 7), s))"

text \<open>The next piece comes to the top, and a new one is drawn behind the three that wait.\<close>

definition next_piece :: "tetris \<Rightarrow> 'a kshell_scheme \<Rightarrow> tetris \<times> 'a kshell_scheme" where
  "next_piece g s =
     (case rand_piece s of (p, s) \<Rightarrow>
        (g\<lparr>tet_t := hd (tet_nx g), tet_r := 0, tet_px := (int TET_TW - 4) div 2, tet_py := 0, tet_nx := tl (tet_nx g) @ [p]\<rparr>, s))"

definition tet_start :: "'a kshell_scheme \<Rightarrow> tetris \<times> 'a kshell_scheme" where
  "tet_start s =
     (case rand_piece s of (p0, s) \<Rightarrow> case rand_piece s of (p1, s) \<Rightarrow> case rand_piece s of (p2, s) \<Rightarrow> case rand_piece s of (p3, s) \<Rightarrow>
        next_piece \<lparr>tet_b = replicate TET_TH (replicate TET_TW 0), tet_px = 0, tet_py = 0, tet_t = 0, tet_r = 0, tet_sc = 0, tet_ln = 0,
          tet_lv = 1, tet_go = 0, tet_dc = 0, tet_nx = [p0, p1, p2, p3], tet_hd = None, tet_hu = False\<rparr> s)"

definition tet_hold :: "tetris \<Rightarrow> 'a kshell_scheme \<Rightarrow> tetris \<times> 'a kshell_scheme" where
  "tet_hold g s =
     (if tet_hu g then (g, s)
      else let h = g\<lparr>tet_hd := Some (tet_t g), tet_hu := True\<rparr> in
        case tet_hd g of
          Some tmp \<Rightarrow> (h\<lparr>tet_t := tmp, tet_r := 0, tet_px := (int TET_TW - 4) div 2, tet_py := 0\<rparr>, s)
        | None \<Rightarrow> next_piece h s)"

definition tet_key :: "u8 \<Rightarrow> tetris \<Rightarrow> 'a kshell_scheme \<Rightarrow> (tetris \<times> 'a kshell_scheme) option" where
  "tet_key c g s =
     (let free = (\<lambda>x y. \<not> tet_col (tet_b g) (tet_t g) (tet_r g) x y); is = (\<lambda>l u. [c] = cs l \<or> [c] = cs u) in
      if is ''a'' ''A'' then Some (if free (tet_px g - 1) (tet_py g) then g\<lparr>tet_px := tet_px g - 1\<rparr> else g, s)
      else if is ''d'' ''D'' then Some (if free (tet_px g + 1) (tet_py g) then g\<lparr>tet_px := tet_px g + 1\<rparr> else g, s)
      else if is ''w'' ''W'' then
        let nr = (tet_r g + 1) mod 4 in
        Some (case tet_wk (tet_b g) (tet_t g) nr (tet_px g) (tet_py g) of
                None \<Rightarrow> g | Some (nx, ny) \<Rightarrow> g\<lparr>tet_r := nr, tet_px := nx, tet_py := ny\<rparr>, s)
      else if is ''s'' ''S'' then
        Some (if free (tet_px g) (tet_py g + 1) then g\<lparr>tet_py := tet_py g + 1, tet_dc := 0, tet_sc := int32 (tet_sc g + 1)\<rparr> else g, s)
      else if c = 32 then map_option (\<lambda>d. (g\<lparr>tet_py := tet_py g + d, tet_dc := 999, tet_sc := int32 (tet_sc g + d * 2)\<rparr>, s)) (tet_dd g)
      else if is ''c'' ''C'' then Some (tet_hold g s)
      else if is ''q'' ''Q'' then Some (g\<lparr>tet_go := 1\<rparr>, s)
      else Some (g, s))"

text \<open>A piece that cannot fall any more: it becomes part of the field, full rows are counted, and the next piece starts.\<close>

definition tet_land :: "tetris \<Rightarrow> 'a kshell_scheme \<Rightarrow> tetris \<times> 'a kshell_scheme" where
  "tet_land g s =
     (let g = tet_lk g; (cl, b) = tet_cl (tet_b g); g = g\<lparr>tet_b := b\<rparr>;
          g = (if cl > 0
               then let sc = int32 (tet_sc g + int cl * 100 * tet_lv g); ln = int32 (tet_ln g + int cl)
                    in g\<lparr>tet_ln := ln, tet_sc := (if cl \<ge> 4 then int32 (sc + 400 * tet_lv g) else sc), tet_lv := ln sdiv 5 + 1\<rparr>
               else g);
          (g, s) = next_piece (g\<lparr>tet_hu := False\<rparr>) s
      in (if tet_col (tet_b g) (tet_t g) (tet_r g) (tet_px g) (tet_py g) then g\<lparr>tet_go := 2\<rparr> else g, s))"

definition tet_fall :: "tetris \<Rightarrow> 'a kshell_scheme \<Rightarrow> tetris \<times> 'a kshell_scheme" where
  "tet_fall g s =
     (let ds = (if 30 - tet_lv g * 2 < 2 then 2 else 30 - tet_lv g * 2) in
      if tet_dc g \<ge> ds
      then let g = g\<lparr>tet_dc := 0\<rparr> in
           if \<not> tet_col (tet_b g) (tet_t g) (tet_r g) (tet_px g) (tet_py g + 1) then (g\<lparr>tet_py := tet_py g + 1\<rparr>, s)
           else tet_land g s
      else (g, s))"

text \<open>One pass of the loop; at the end of the game the screen is not drawn again.\<close>

definition tet_frame :: "round \<Rightarrow> tetris \<Rightarrow> 'a kshell_scheme \<Rightarrow> (tetris \<times> 'a kshell_scheme) option" where
  "tet_frame r g s =
     do {
       let s = do_tick (fold kbd_irq (rd_irqs r) s);
       let g = g\<lparr>tet_dc := tet_dc g + 1\<rparr>;
       (g, s) \<leftarrow> (if kb_hit r then case getch_nb r s of (c, s) \<Rightarrow> tet_key c g s else Some (g, s));
       if tet_go g \<noteq> 0 then Some (g, s)
       else case tet_fall g s of (g, s) \<Rightarrow>
         if tet_go g \<noteq> 0 then Some (g, s) else map_option (Pair g) (tet_dw g s)
     }"

fun tet_loop :: "round list \<Rightarrow> tetris \<Rightarrow> 'a kshell_scheme \<Rightarrow> (tetris \<times> round list \<times> 'a kshell_scheme) option" where
  "tet_loop rs g s =
     (if tet_go g \<noteq> 0 then Some (g, rs, s)
      else case rs of [] \<Rightarrow> None | r # rs \<Rightarrow> (case tet_frame r g s of None \<Rightarrow> None | Some (g, s) \<Rightarrow> tet_loop rs g s))"

declare tet_loop.simps [simp del]

definition cmd_tetris :: "round list \<Rightarrow> 'a kshell_scheme \<Rightarrow> (round list \<times> 'a kshell_scheme) option" where
  "cmd_tetris rs s =
     (if needs_games s then Some (rs, puts ''(use 'diese' if not root)'' (puts ''Package required: ayo add games'' s))
      else do {
        let (g, s) = tet_start (clear_screen s);
        let s = at_cursor 37 0 (cs ''TETRIS v7.2'') (draw_frame s);
        let s = at_cursor 0 23 (cs ''A:Left D:Right W:Rot C:Hold Space:HardDrop'') s;
        (g, rs, s) \<leftarrow> tet_loop rs g s;
        let s = clear_screen s;
        let num = (\<lambda>t v s. print_string (itoa (of_int v) 10) (print_string (cs t) s));
        let s = (if tet_go g = 2
                 then puts ''  (any key)'' (num ''  Level: '' (tet_lv g) (num ''  Lines: '' (tet_ln g) (num ''GAME OVER! Score: '' (tet_sc g) s)))
                 else print_string (cs ''Quit.'' @ [10] @ cs ''Press any key...'') s);
        (c, rs, s) \<leftarrow> get_char False rs s;
        Some (rs, clear_screen s)
      })"

section \<open>Tic-tac-toe\<close>

lemma get_line_loop_rounds: "get_line_loop n i buf rs s = Some (line, rs', s') \<Longrightarrow> length rs' < length rs"
proof (induction n i buf rs s arbitrary: rs' rule: get_line_loop.induct)
  case (1 n i buf rs s)
  obtain k rs1 s1 where k: "get_char True rs s = Some (k, rs1, s1)" using 1(2) by (subst (asm) get_line_loop.simps) (auto split: option.splits)
  show ?case
  proof (cases "line_step n i buf k s1")
    case (Editing i' buf' s2)
    then have "get_line_loop n i' buf' rs1 s2 = Some (line, rs', s')" using 1(2) k by (subst (asm) get_line_loop.simps) simp
    from 1(1) [OF k refl refl Editing this] show ?thesis using get_char_rounds [OF k] by simp
  next
    case (Entered buf' s2)
    then show ?thesis using 1(2) k get_char_rounds [OF k] by (subst (asm) get_line_loop.simps) simp
  next
    case Overrun
    then show ?thesis using 1(2) k get_char_rounds [OF k] by (subst (asm) get_line_loop.simps) simp
  qed
qed

lemma get_line_rounds: "get_line buf rs s = Some (line, rs', s') \<Longrightarrow> length rs' < length rs"
  unfolding get_line_def by (rule get_line_loop_rounds)

record ttt =
  tt_board :: bytes
  tt_turn :: bool
  tt_win :: bool
  tt_moves :: nat

definition ttt_mark :: "bool \<Rightarrow> u8" where
  "ttt_mark turn = (if turn then 79 else 88)"

definition ttt_start :: ttt where
  "ttt_start = \<lparr>tt_board = cs ''123456789'', tt_turn = False, tt_win = False, tt_moves = 0\<rparr>"

definition ttt_won :: "bytes \<Rightarrow> bool" where
  "ttt_won b \<longleftrightarrow>
     list_ex (\<lambda>i. b ! (i * 3) = b ! (i * 3 + 1) \<and> b ! (i * 3 + 1) = b ! (i * 3 + 2) \<or>
                  b ! i = b ! (i + 3) \<and> b ! (i + 3) = b ! (i + 6)) [0..<3] \<or>
     b ! 0 = b ! 4 \<and> b ! 4 = b ! 8 \<or> b ! 2 = b ! 4 \<and> b ! 4 = b ! 6"

definition ttt_move :: "int \<Rightarrow> ttt \<Rightarrow> ttt" where
  "ttt_move pos g =
     (let b = tt_board g; i = nat (pos - 1) in
      if pos < 1 \<or> pos > 9 \<or> b ! i = 88 \<or> b ! i = 79 then g
      else let b = b[i := ttt_mark (tt_turn g)]; win = ttt_won b
           in g\<lparr>tt_board := b, tt_win := win, tt_moves := tt_moves g + 1, tt_turn := (if win then tt_turn g else \<not> tt_turn g)\<rparr>)"

definition ttt_show :: "ttt \<Rightarrow> 'a kcon_scheme \<Rightarrow> 'a kcon_scheme" where
  "ttt_show g s =
     (let b = tt_board g;
          row = (\<lambda>i s. print_string [10] (put_char (b ! (i + 2)) 0x0F (print_string (cs '' | '') (put_char (b ! (i + 1)) 0x0F
                  (print_string (cs '' | '') (put_char (b ! i) 0x0F (print_string (cs '' '') s)))))));
          bar = puts ''---|---|---'';
          s = print_string (cs ''Player 1 (X) | Player 2 (O)'' @ [10, 10]) (puts ''Tic-Tac-Toe'' (clear_screen s));
          s = print_string ([10] @ cs ''Player '') (row 6 (bar (row 3 (bar (row 0 s)))))
      in print_string (cs '', pick a position (1-9): '') (put_char (ttt_mark (tt_turn g)) 0x0F s))"

function ttt_loop :: "ttt \<Rightarrow> round list \<Rightarrow> 'a kshell_scheme \<Rightarrow> (ttt \<times> round list \<times> 'a kshell_scheme) option" where
  "ttt_loop g rs s =
     (if tt_win g \<or> tt_moves g \<ge> 9 then Some (g, rs, s)
      else case get_line (zeros 16) rs (ttt_show g s) of
        Some (Some line, rs, s) \<Rightarrow> ttt_loop (ttt_move (atoi line) g) rs s
      | _ \<Rightarrow> None)"
  by pat_completeness auto
termination by (relation "measure (\<lambda>(g, rs, s). length rs)") (auto dest: get_line_rounds)

declare ttt_loop.simps [simp del]

definition press_any_key :: "round list \<Rightarrow> 'a kshell_scheme \<Rightarrow> (round list \<times> 'a kshell_scheme) option" where
  "press_any_key rs s =
     map_option (\<lambda>(c, rs, s). (rs, clear_screen s)) (get_char False rs (print_string (cs ''Press any key to continue...'') s))"

definition cmd_tictactoe :: "round list \<Rightarrow> 'a kshell_scheme \<Rightarrow> (round list \<times> 'a kshell_scheme) option" where
  "cmd_tictactoe rs s =
     (if needs_games s then Some (rs, puts ''Package required: ayo add games'' s)
      else do {
        (g, rs, s) \<leftarrow> ttt_loop ttt_start rs s;
        let s = clear_screen s;
        let s = (if tt_win g then puts '' wins!'' (put_char (ttt_mark (tt_turn g)) 0x0F (print_string (cs ''Player '') s))
                 else print_string (cs ''It'' @ [39] @ cs ''s a draw!'' @ [10]) s);
        press_any_key rs s
      })"

section \<open>Hangman\<close>

definition hang_words :: "bytes list" where
  "hang_words =
     [cs ''apple'', cs ''banana'', cs ''cherry'', cs ''dragon'', cs ''eagle'', cs ''flame'', cs ''grape'', cs ''house'', cs ''igloo'',
      cs ''joker'', cs ''knight'', cs ''lemon'', cs ''mango'', cs ''noble'', cs ''ocean'', cs ''piano'', cs ''queen'', cs ''river'',
      cs ''stone'', cs ''tiger'']"

record hang =
  hg_guessed :: bytes
  hg_wrong :: nat
  hg_win :: bool

text \<open>A letter; no result if it leaves the 16 bytes of the guessed letters.\<close>

definition hang_guess :: "bytes \<Rightarrow> u8 \<Rightarrow> hang \<Rightarrow> hang option" where
  "hang_guess word c h =
     (let c = (if c \<ge> 65 \<and> c \<le> 90 then c + 32 else c) in
      if c < 97 \<or> c > 122 then Some h
      else if c \<in> set (hg_guessed h) then Some h
      else if length (hg_guessed h) + 1 < 16
      then let gs = hg_guessed h @ [c]
           in Some \<lparr>hg_guessed = gs, hg_wrong = (if c \<in> set word then hg_wrong h else hg_wrong h + 1), hg_win = (set word \<subseteq> set gs)\<rparr>
      else None)"

definition hang_show :: "bytes \<Rightarrow> hang \<Rightarrow> 'a kcon_scheme \<Rightarrow> 'a kcon_scheme" where
  "hang_show word h s =
     (let display = concat (map (\<lambda>c. [if c \<in> set (hg_guessed h) then c else 95, 32]) word);
          s = print_string (cs ''Word: '') (print_string (cs ''HANGMAN - Guess the word!'' @ [10, 10]) (clear_screen s));
          s = print_num (of_nat (hg_wrong h)) (print_string ([10, 10] @ cs ''Wrong: '') (print_string display s));
          s = print_string (hg_guessed h) (print_string (cs ''/6  Guessed: '') s)
      in print_string ([10, 10] @ cs ''Guess a letter: '') s)"

function hang_loop :: "bytes \<Rightarrow> hang \<Rightarrow> round list \<Rightarrow> 'a kshell_scheme \<Rightarrow> (hang \<times> round list \<times> 'a kshell_scheme) option" where
  "hang_loop word h rs s =
     (if hg_wrong h \<ge> 6 \<or> hg_win h then Some (h, rs, s)
      else case get_char False rs (hang_show word h s) of
        None \<Rightarrow> None
      | Some ((c, sp), rs, s) \<Rightarrow> (case hang_guess word c h of None \<Rightarrow> None | Some h \<Rightarrow> hang_loop word h rs s))"
  by pat_completeness auto
termination by (relation "measure (\<lambda>(word, h, rs, s). length rs)") (auto dest: get_char_rounds)

declare hang_loop.simps [simp del]

definition cmd_hangman :: "round list \<Rightarrow> 'a kshell_scheme \<Rightarrow> (round list \<times> 'a kshell_scheme) option" where
  "cmd_hangman rs s =
     (if needs_games s then Some (rs, puts ''Package required: ayo add games'' s)
      else do {
        let (v, s) = rand s;
        let word = hang_words ! unat (v mod 20);
        (h, rs, s) \<leftarrow> hang_loop word \<lparr>hg_guessed = [], hg_wrong = 0, hg_win = False\<rparr> rs s;
        let s = print_string (if hg_win h then cs ''You win! The word was: '' else cs ''Game over! The word was: '') (clear_screen s);
        press_any_key rs (print_string [10] (print_string word s))
      })"

section \<open>Memory and guessing a number\<close>

definition show_sequence :: "bytes \<Rightarrow> 'a kusr_scheme \<Rightarrow> 'a kusr_scheme" where
  "show_sequence sq s =
     fold (\<lambda>c s.
        let col = (if c = 82 then 0x0C else if c = 71 then 0x0A else if c = 66 then 0x09 else 0x0E)
        in sleep_ticks 3000 (put_char 32 0x0F (put_char c col s))) sq
       (print_string (cs ''MEMORY GAME - Watch the sequence!'' @ [10, 10]) (clear_screen s))"

text \<open>The result is the number of rounds that were repeated correctly.\<close>

function memory_loop :: "bytes \<Rightarrow> round list \<Rightarrow> 'a kshell_scheme \<Rightarrow> (nat \<times> round list \<times> 'a kshell_scheme) option" where
  "memory_loop sq rs s =
     (if length sq \<ge> 20 then Some (length sq, rs, s)
      else case rand s of (v, s) \<Rightarrow>
        let sq1 = sq @ [cs ''RGBY'' ! unat (v mod 4)];
            s = puts ''Your turn! Enter the sequence (letters R,G,B,Y):'' (clear_screen (show_sequence sq1 s))
        in case get_line (zeros 32) rs s of
          Some (Some line, rs, s) \<Rightarrow>
            (if take (length sq1) (map upper (c_str line)) = sq1 then memory_loop sq1 rs s else Some (length sq, rs, s))
        | _ \<Rightarrow> None)"
  by pat_completeness auto
termination by (relation "measure (\<lambda>(sq, rs, s). length rs)") (auto dest: get_line_rounds)

declare memory_loop.simps [simp del]

definition cmd_memory :: "round list \<Rightarrow> 'a kshell_scheme \<Rightarrow> (round list \<times> 'a kshell_scheme) option" where
  "cmd_memory rs s =
     (if needs_games s then Some (rs, puts ''Package required: ayo add games'' s)
      else do {
        (score, rs, s) \<leftarrow> memory_loop [] rs s;
        press_any_key rs (puts '' rounds'' (print_num (of_nat score) (print_string (cs ''Memory score: '') (clear_screen s))))
      })"

function guess_loop :: "int \<Rightarrow> round list \<Rightarrow> 'a kshell_scheme \<Rightarrow> (round list \<times> 'a kshell_scheme) option" where
  "guess_loop secret rs s =
     (case get_line (zeros 32) rs (print_string (cs ''guess> '') s) of
        Some (Some line, rs, s) \<Rightarrow>
          (let g = atoi line in
           if c_at line 0 = 113 then Some (rs, s)
           else if g = secret then Some (rs, print_color (cs ''Correct!'' @ [10]) 0x0A s)
           else guess_loop secret rs (if g < secret then puts ''Too low.'' s else puts ''Too high.'' s))
      | _ \<Rightarrow> None)"
  by pat_completeness auto
termination by (relation "measure (\<lambda>(secret, rs, s). length rs)") (auto dest: get_line_rounds)

declare guess_loop.simps [simp del]

definition cmd_guess :: "round list \<Rightarrow> 'a kshell_scheme \<Rightarrow> (round list \<times> 'a kshell_scheme) option" where
  "cmd_guess rs s =
     (case rand s of (v, s) \<Rightarrow> guess_loop (int (unat (v mod 10)) + 1) rs (puts ''Guess a number between 1 and 10!'' s))"

section \<open>Rows of the field\<close>

definition board_ok :: "board \<Rightarrow> bool" where
  "board_ok b \<longleftrightarrow> length b = TET_TH \<and> (\<forall>row \<in> set b. length row = TET_TW)"

lemma fill_row:
  assumes "y < length b" and "n \<le> length (b ! y)" and "\<And>k r. f k (b[y := r]) = v k"
  shows "fold (\<lambda>k b. set_cell y k (f k b) b) [0..<n] b = b[y := map v [0..<n] @ drop n (b ! y)]"
  using assms(2)
proof (induction n)
  case (Suc n)
  then have "drop n (b ! y) = b ! y ! n # drop (Suc n) (b ! y)" by (simp add: Cons_nth_drop_Suc)
  then show ?case using Suc assms(1,3) by (simp add: set_cell_def list_update_append)
qed simp

lemma board_row: "board_ok b \<Longrightarrow> y < 20 \<Longrightarrow> length (b ! y) = 10"
  by (simp add: board_ok_def)

lemma copy_row_eq:
  assumes "board_ok b" and "1 \<le> ky" and "ky < 20"
  shows "copy_row ky b = b[ky := b ! (ky - 1)]"
proof -
  have "copy_row ky b = b[ky := map (\<lambda>kx. b ! (ky - 1) ! kx) [0..<10] @ drop 10 (b ! ky)]"
    unfolding copy_row_def TET_TW_def by (rule fill_row) (use assms in \<open>simp_all add: board_row board_ok_def nth_list_update\<close>)
  moreover have "map (\<lambda>kx. b ! (ky - 1) ! kx) [0..<10] = b ! (ky - 1)"
    using map_nth [of "b ! (ky - 1)"] board_row [OF assms(1), of "ky - 1"] assms(3) by simp
  ultimately show ?thesis using board_row [OF assms(1,3)] by simp
qed

lemma board_ok_update: "board_ok b \<Longrightarrow> length row = 10 \<Longrightarrow> board_ok (b[y := row])"
  by (auto simp: board_ok_def dest: set_update_subset_insert [THEN subsetD])

lemma copy_rows_eq:
  "board_ok b \<Longrightarrow> y < 20 \<Longrightarrow> fold copy_row (rev [1..<y + 1]) b = b ! 0 # take y b @ drop (y + 1) b"
proof (induction y arbitrary: b)
  case 0
  then have "0 < length b" by (simp add: board_ok_def)
  then show ?case by (cases b) simp_all
next
  case (Suc y)
  let ?b = "b[Suc y := b ! y]"
  have l: "length b = 20" using Suc.prems(1) by (simp add: board_ok_def)
  have "fold copy_row (rev [1..<Suc y + 1]) b = fold copy_row (rev [1..<y + 1]) (copy_row (Suc y) b)" by simp
  also have "copy_row (Suc y) b = ?b" using copy_row_eq [OF Suc.prems(1), of "Suc y"] Suc.prems(2) by simp
  also have "fold copy_row (rev [1..<y + 1]) ?b = ?b ! 0 # take y ?b @ drop (y + 1) ?b"
    by (rule Suc.IH) (use board_ok_update [OF Suc.prems(1)] board_row [OF Suc.prems(1), of y] Suc.prems(2) in simp_all)
  also have "drop (y + 1) ?b = b ! y # drop (y + 2) b" using l Suc.prems(2) by (simp add: Cons_nth_drop_Suc [symmetric])
  also have "?b ! 0 # take y ?b @ b ! y # drop (y + 2) b = b ! 0 # take (Suc y) b @ drop (Suc y + 1) b"
    using l Suc.prems(2) by (simp add: take_Suc_conv_app_nth)
  finally show ?case .
qed

lemma take_row_out_eq:
  assumes "board_ok b" and "y < 20"
  shows "take_row_out y b = replicate 10 0 # take y b @ drop (y + 1) b"
proof -
  let ?b = "b ! 0 # take y b @ drop (y + 1) b"
  have "take_row_out y b = ?b[0 := map (\<lambda>_. 0) [0..<10] @ drop 10 (?b ! 0)]"
    unfolding take_row_out_def copy_rows_eq [OF assms] TET_TW_def by (rule fill_row) (use board_row [OF assms(1), of 0] in simp_all)
  also have "map (\<lambda>_. 0) [0..<10] = replicate 10 (0 :: int)" by (simp add: map_replicate_const)
  finally show ?thesis using board_row [OF assms(1), of 0] by simp
qed

lemma row_full_iff: "length row = 10 \<Longrightarrow> row_full row \<longleftrightarrow> 0 \<notin> set row"
  by (auto simp: row_full_def list_all_iff in_set_conv_nth)

lemma board_ok_take_row_out:
  assumes "board_ok b" and "y < 20"
  shows "board_ok (take_row_out y b)"
  using assms by (auto simp: take_row_out_eq board_ok_def dest: in_set_takeD in_set_dropD)

section \<open>Pieces on the field\<close>

lemma tet_cells_nonempty: "t < 7 \<Longrightarrow> r < 4 \<Longrightarrow> tet_cells t r \<noteq> []"
proof -
  have "list_all (\<lambda>t. list_all (\<lambda>r. tet_cells t r \<noteq> []) [0..<4]) [0..<7]" by code_simp
  then show "t < 7 \<Longrightarrow> r < 4 \<Longrightarrow> tet_cells t r \<noteq> []" by (simp add: list_all_iff)
qed

lemma tet_cells_range: "(y, x) \<in> set (tet_cells t r) \<Longrightarrow> y < 4 \<and> x < 4"
  by (auto simp: tet_cells_def mask_cells_def)

definition tet_inside :: "nat \<Rightarrow> nat \<Rightarrow> int \<Rightarrow> int \<Rightarrow> bool" where
  "tet_inside t r bx by \<longleftrightarrow> (\<forall>(y, x) \<in> set (tet_cells t r). 0 \<le> bx + int x \<and> bx + int x < 10 \<and> by + int y < 20)"

lemma tet_col_inside: "\<not> tet_col b t r bx by \<Longrightarrow> tet_inside t r bx by"
  by (fastforce simp: tet_col_def tet_inside_def list_ex_iff Let_def)

lemma tet_inside_start: "tet_inside t 0 3 0"
  using tet_cells_range by (fastforce simp: tet_inside_def)

lemma tet_col_low: "t < 7 \<Longrightarrow> r < 4 \<Longrightarrow> 20 \<le> by \<Longrightarrow> tet_col b t r bx by"
  using tet_cells_nonempty [of t r] tet_col_inside [of b t r bx "by"] by (cases "tet_cells t r") (auto simp: tet_inside_def)

lemma tet_dd_loop_ends:
  assumes "t < 7" and "r < 4" and "tet_inside t r bx gy"
  shows "\<exists>gy'. tet_dd_loop b t r bx gy = Some gy' \<and> gy \<le> gy' \<and> tet_inside t r bx gy' \<and> tet_col b t r bx (gy' + 1) \<and>
    (\<forall>k. gy < k \<and> k \<le> gy' \<longrightarrow> \<not> tet_col b t r bx k)"
  using assms(3)
proof (induction "nat (20 - gy)" arbitrary: gy rule: less_induct)
  case less
  show ?case
  proof (cases "tet_col b t r bx (gy + 1)")
    case True
    then show ?thesis using less.prems by (subst tet_dd_loop.simps) auto
  next
    case False
    then have "gy + 1 < 20" using tet_col_low [OF assms(1,2), of "gy + 1" b bx] by linarith
    then have "nat (20 - (gy + 1)) < nat (20 - gy)" by simp
    then obtain gy' where g: "tet_dd_loop b t r bx (gy + 1) = Some gy'" "gy + 1 \<le> gy'" "tet_inside t r bx gy'" "tet_col b t r bx (gy' + 1)"
      "\<forall>k. gy + 1 < k \<and> k \<le> gy' \<longrightarrow> \<not> tet_col b t r bx k"
      using less.hyps tet_col_inside [OF False] by blast
    have "\<forall>k. gy < k \<and> k \<le> gy' \<longrightarrow> \<not> tet_col b t r bx k"
    proof (intro allI impI)
      fix k assume "gy < k \<and> k \<le> gy'"
      then show "\<not> tet_col b t r bx k" using g(5) False by (cases "k = gy + 1") auto
    qed
    then show ?thesis using g False by (subst tet_dd_loop.simps) auto
  qed
qed

definition tet_inv :: "tetris \<Rightarrow> bool" where
  "tet_inv g \<longleftrightarrow> board_ok (tet_b g) \<and> tet_t g < 7 \<and> tet_r g < 4 \<and> tet_inside (tet_t g) (tet_r g) (tet_px g) (tet_py g) \<and>
     length (tet_nx g) = 4 \<and> (\<forall>p \<in> set (tet_nx g). p < 7) \<and> (\<forall>p. tet_hd g = Some p \<longrightarrow> p < 7)"

lemma tet_inv_numbers [simp]:
  "tet_inv (g\<lparr>tet_dc := dc\<rparr>) = tet_inv g" "tet_inv (g\<lparr>tet_sc := sc\<rparr>) = tet_inv g" "tet_inv (g\<lparr>tet_ln := ln\<rparr>) = tet_inv g"
  "tet_inv (g\<lparr>tet_lv := lv\<rparr>) = tet_inv g" "tet_inv (g\<lparr>tet_go := go\<rparr>) = tet_inv g" "tet_inv (g\<lparr>tet_hu := hu\<rparr>) = tet_inv g"
  by (simp_all add: tet_inv_def)

lemma tet_inv_move: "tet_inv g \<Longrightarrow> \<not> tet_col (tet_b g) (tet_t g) r x y \<Longrightarrow> r < 4 \<Longrightarrow> tet_inv (g\<lparr>tet_r := r, tet_px := x, tet_py := y\<rparr>)"
  by (simp add: tet_inv_def tet_col_inside)

lemma tet_inv_right: "tet_inv g \<Longrightarrow> \<not> tet_col (tet_b g) (tet_t g) (tet_r g) x (tet_py g) \<Longrightarrow> tet_inv (g\<lparr>tet_px := x\<rparr>)"
  and tet_inv_down: "tet_inv g \<Longrightarrow> \<not> tet_col (tet_b g) (tet_t g) (tet_r g) (tet_px g) y \<Longrightarrow> tet_inv (g\<lparr>tet_py := y\<rparr>)"
  by (simp_all add: tet_inv_def tet_col_inside)

lemma rand_piece_less: "rand_piece s = (p, s') \<Longrightarrow> p < 7"
  by (auto simp: rand_piece_def unat_mod split: prod.splits)

lemma next_piece_inv: "tet_inv g \<Longrightarrow> tet_inv (fst (next_piece g s))"
  by (cases "tet_nx g") (auto simp: tet_inv_def next_piece_def tet_inside_start dest: rand_piece_less split: prod.split)

lemma tet_start_inv: "tet_inv (fst (tet_start s))"
  by (auto simp: tet_start_def next_piece_def tet_inv_def board_ok_def tet_inside_start dest: rand_piece_less split: prod.split)

lemma tet_hold_inv: "tet_inv g \<Longrightarrow> tet_inv (fst (tet_hold g s))"
proof -
  assume i: "tet_inv g"
  then have "tet_inv (g\<lparr>tet_hd := Some (tet_t g), tet_hu := True\<rparr>)" by (simp add: tet_inv_def)
  from next_piece_inv [OF this, of s] i show ?thesis by (auto simp: tet_hold_def Let_def tet_inv_def tet_inside_start split: option.split)
qed

lemma tet_wk_free: "tet_wk b t r bx by = Some (nx, ny) \<Longrightarrow> \<not> tet_col b t r nx ny"
  by (auto simp: tet_wk_def find_Some_iff split: if_splits)

lemma tet_dd_ends:
  assumes "tet_inv g"
  shows "\<exists>d. tet_dd g = Some d \<and> 0 \<le> d \<and> tet_inv (g\<lparr>tet_py := tet_py g + d\<rparr>)"
proof -
  have "tet_t g < 7" "tet_r g < 4" "tet_inside (tet_t g) (tet_r g) (tet_px g) (tet_py g)" using assms by (simp_all add: tet_inv_def)
  from tet_dd_loop_ends [OF this, of "tet_b g"] assms show ?thesis by (auto simp: tet_dd_def tet_inv_def)
qed

lemma tet_key_inv:
  assumes "tet_inv g"
  shows "\<exists>g' s'. tet_key c g s = Some (g', s') \<and> tet_inv g'"
proof -
  obtain d where d: "tet_dd g = Some d" "tet_inv (g\<lparr>tet_py := tet_py g + d\<rparr>)" using tet_dd_ends [OF assms] by blast
  have drop: "tet_inv (g\<lparr>tet_py := tet_py g + d, tet_dc := a, tet_sc := b\<rparr>)" for a b using d(2) by simp
  obtain h s1 where h: "tet_hold g s = (h, s1)" "tet_inv h" using tet_hold_inv [OF assms, of s] by (cases "tet_hold g s") auto
  show ?thesis unfolding tet_key_def Let_def
    using assms d(1) drop h tet_inv_right tet_inv_down [OF assms] tet_inv_move [OF assms] tet_wk_free
    by (auto split: option.split)
qed

lemma board_ok_set_cell: "board_ok b \<Longrightarrow> y < 20 \<Longrightarrow> board_ok (set_cell y x v b)"
  by (simp add: set_cell_def board_ok_update board_row)

lemma tet_lk_board:
  assumes "board_ok (tet_b g)"
  shows "board_ok (tet_b (tet_lk g))"
proof -
  have "board_ok b \<Longrightarrow> board_ok (fold (\<lambda>(y, x) b. let bx = tet_px g + int x; by = tet_py g + int y in
        if by \<ge> 0 \<and> by < int TET_TH \<and> bx \<ge> 0 \<and> bx < int TET_TW then set_cell (nat by) (nat bx) (int (tet_t g) + 1) b else b) cs b)" for cs b
    by (induction cs arbitrary: b) (auto simp: Let_def board_ok_set_cell)
  then show ?thesis using assms by (simp add: tet_lk_def)
qed

lemma at_length:
  assumes "length k = y"
  shows "(k @ v # r) ! y = v" "take y (k @ v # r) = k" "drop (y + 1) (k @ v # r) = r"
  using assms by auto

lemma tet_cl_step:
  assumes "board_ok b" and "y \<le> 20"
  shows "fold (\<lambda>y (c, b). if row_full (b ! y) then (c + 1, take_row_out y b) else (c, b)) [0..<y] (0, b) =
    (length (filter (\<lambda>row. 0 \<notin> set row) (take y b)),
     replicate (length (filter (\<lambda>row. 0 \<notin> set row) (take y b))) (replicate 10 0) @ filter (\<lambda>row. 0 \<in> set row) (take y b) @ drop y b)"
  using assms(2)
proof (induction y)
  case (Suc y)
  let ?n = "length (filter (\<lambda>row. 0 \<notin> set row) (take y b))" let ?z = "replicate 10 (0 :: int)"
  let ?k = "replicate ?n ?z @ filter (\<lambda>row. 0 \<in> set row) (take y b)" let ?c = "?k @ drop y b"
  have l: "length b = 20" using assms(1) by (simp add: board_ok_def)
  have k: "length ?k = y" using sum_length_filter_compl [of "\<lambda>row. 0 \<notin> set row" "take y b"] l Suc.prems by simp
  have d: "drop y b = b ! y # drop (Suc y) b" using l Suc.prems by (simp add: Cons_nth_drop_Suc)
  have t: "take (Suc y) b = take y b @ [b ! y]" using l Suc.prems by (simp add: take_Suc_conv_app_nth)
  have at: "?c ! y = b ! y" "take y ?c = ?k" "drop (y + 1) ?c = drop (Suc y) b"
    unfolding d append_assoc [symmetric] by (rule at_length [OF k])+
  have ok: "board_ok ?c"
    using assms(1) k l Suc.prems by (auto simp: board_ok_def dest: in_set_takeD in_set_dropD)
  have f: "row_full (b ! y) \<longleftrightarrow> 0 \<notin> set (b ! y)" using row_full_iff board_row [OF assms(1)] Suc.prems by simp
  show ?case
  proof (cases "0 \<in> set (b ! y)")
    case True
    then show ?thesis using Suc d t at(1) f by simp
  next
    case False
    then show ?thesis using Suc t at f take_row_out_eq [OF ok, of y] by simp
  qed
qed simp

section \<open>Properties of Tetris\<close>

text \<open>
  C38: full rows vanish.  Clearing takes exactly the full rows out of the field, keeps the order of the others,
  fills up with empty rows at the top and returns the number of rows taken, however many there are at once.
\<close>

theorem tet_cl_rows:
  assumes "board_ok b"
  shows "tet_cl b = (length (filter (\<lambda>row. 0 \<notin> set row) b),
    replicate (length (filter (\<lambda>row. 0 \<notin> set row) b)) (replicate 10 0) @ filter (\<lambda>row. 0 \<in> set row) b)"
  using tet_cl_step [OF assms order_refl] assms by (simp add: tet_cl_def board_ok_def)

lemma tet_cl_board: "board_ok b \<Longrightarrow> board_ok (snd (tet_cl b))"
proof -
  assume ok: "board_ok b"
  have "length (filter (\<lambda>row. 0 \<notin> set row) b) + length (filter (\<lambda>row. 0 \<in> set row) b) = 20"
    using sum_length_filter_compl [of "\<lambda>row. 0 \<notin> set row" b] ok by (simp add: board_ok_def)
  moreover have "tet_cl b = (length (filter (\<lambda>row. 0 \<notin> set row) b),
    replicate (length (filter (\<lambda>row. 0 \<notin> set row) b)) (replicate 10 0) @ filter (\<lambda>row. 0 \<in> set row) b)"
    using tet_cl_step [OF ok order_refl] ok by (simp add: tet_cl_def board_ok_def)
  ultimately show ?thesis using ok by (auto simp: board_ok_def)
qed

lemma tet_land_inv: "tet_inv g \<Longrightarrow> tet_inv (fst (tet_land g s))"
proof -
  assume i: "tet_inv g"
  obtain c b where cl: "tet_cl (tet_b (tet_lk g)) = (c, b)" by fastforce
  have "board_ok b" using tet_cl_board [OF tet_lk_board] i cl by (metis snd_conv tet_inv_def)
  then have g2: "tet_inv ((tet_lk g)\<lparr>tet_b := b\<rparr>)" using i by (simp add: tet_inv_def tet_lk_def)
  then have "tet_inv ((tet_lk g)\<lparr>tet_b := b, tet_ln := ln, tet_sc := sc, tet_lv := lv, tet_hu := hu\<rparr>)" for ln sc lv hu by simp
  note this [THEN next_piece_inv, of _ _ _ _ s]
  moreover have "tet_inv (fst (next_piece ((tet_lk g)\<lparr>tet_b := b, tet_hu := hu\<rparr>) s))" for hu
    by (rule next_piece_inv) (use g2 in simp)
  ultimately have n: "next_piece ((tet_lk g)\<lparr>tet_b := b, tet_ln := ln, tet_sc := sc, tet_lv := lv, tet_hu := hu\<rparr>) s = (g', s') \<Longrightarrow> tet_inv g'"
    "next_piece ((tet_lk g)\<lparr>tet_b := b, tet_hu := hu\<rparr>) s = (g', s') \<Longrightarrow> tet_inv g'" for ln sc lv hu g' s' by (metis fst_conv)+
  show ?thesis unfolding tet_land_def Let_def cl prod.case by (auto split: prod.split dest: n)
qed

lemma tet_fall_inv:
  assumes "tet_inv g"
  shows "tet_inv (fst (tet_fall g s))"
  using assms tet_land_inv [of "g\<lparr>tet_dc := 0\<rparr>" s] tet_inv_down [of "g\<lparr>tet_dc := 0\<rparr>" "tet_py g + 1"] by (simp add: tet_fall_def Let_def)

lemma tet_dw_returns: "tet_inv g \<Longrightarrow> \<exists>s'. tet_dw g s = Some s'"
  using tet_dd_ends [of g] by (auto simp: tet_dw_def Let_def)

text \<open>
  C39: the game never leaves its field.  From every state in which the piece is inside the walls and above the
  floor, a frame returns, whatever key is pressed: falling to the ground ends, and afterwards the piece, moved, turned,
  exchanged or new, is inside again and the field has its size.
\<close>

theorem tet_frame_safe:
  assumes "tet_inv g"
  shows "\<exists>g' s'. tet_frame r g s = Some (g', s') \<and> tet_inv g'"
proof -
  let ?s = "do_tick (fold kbd_irq (rd_irqs r) s)" let ?g = "g\<lparr>tet_dc := tet_dc g + 1\<rparr>"
  have i: "tet_inv ?g" using assms by simp
  obtain g1 s1 where k: "(if kb_hit r then case getch_nb r ?s of (c, s) \<Rightarrow> tet_key c ?g s else Some (?g, ?s)) = Some (g1, s1)" "tet_inv g1"
  proof (cases "kb_hit r")
    case True
    obtain c s2 where "getch_nb r ?s = (c, s2)" by fastforce
    with True show ?thesis using tet_key_inv [OF i, of c s2] that by auto
  qed (use i that in simp)
  obtain g2 s2 where f: "tet_fall g1 s1 = (g2, s2)" "tet_inv g2" using tet_fall_inv [OF k(2), of s1] by (cases "tet_fall g1 s1") auto
  obtain s3 where "tet_dw g2 s2 = Some s3" using tet_dw_returns [OF f(2)] by blast
  then show ?thesis using k f unfolding tet_frame_def Let_def by auto
qed

text \<open>The game starts in such a state.\<close>

theorem tet_frame_safe_witness: "\<exists>g' s'. tet_frame (serial_round 32) (fst (tet_start bss_kshell)) (snd (tet_start bss_kshell)) = Some (g', s') \<and> tet_inv g'"
  by (rule tet_frame_safe [OF tet_start_inv])

text \<open>Two rows of three are full.\<close>

definition example_field :: board where
  "example_field = replicate 17 (replicate 10 0) @ [replicate 10 1, 2 # replicate 9 0, replicate 10 3]"

theorem tet_cl_rows_witness: "tet_cl example_field = (2, replicate 19 (replicate 10 0) @ [2 # replicate 9 0])"
proof -
  have "board_ok example_field" by (simp add: board_ok_def example_field_def)
  from tet_cl_rows [OF this] show ?thesis by (simp add: example_field_def filter_replicate numeral_eq_Suc)
qed

text \<open>
  The characters of the blocks are negative, so the colour is lost: every block has the attribute \<^verbatim>\<open>0xFF\<close>.  And the
  piece that is held comes back at the top without a look at the field, so it can lie over other blocks.
\<close>

lemma tet_block_white: "t < 7 \<Longrightarrow> drop_bit 8 (tet_block t) = 0xFF"
proof -
  have "list_all (\<lambda>t. drop_bit 8 (tet_block t) = 0xFF) [0..<7]" by code_simp
  then show "t < 7 \<Longrightarrow> drop_bit 8 (tet_block t) = 0xFF" by (simp add: list_all_iff)
qed

definition hold_state :: tetris where
  "hold_state = \<lparr>tet_b = (replicate 20 (replicate 10 0))[1 := (replicate 10 0)[4 := 1]], tet_px = 6, tet_py = 10, tet_t = 1, tet_r = 0,
     tet_sc = 0, tet_ln = 0, tet_lv = 1, tet_go = 0, tet_dc = 0, tet_nx = [0, 0, 0, 0], tet_hd = Some 0, tet_hu = False\<rparr>"

lemma hold_overlaps:
  "tet_inv hold_state" "\<not> tet_col (tet_b hold_state) (tet_t hold_state) (tet_r hold_state) (tet_px hold_state) (tet_py hold_state)"
  "tet_col (tet_b (fst (tet_hold hold_state s))) (tet_t (fst (tet_hold hold_state s))) (tet_r (fst (tet_hold hold_state s)))
    (tet_px (fst (tet_hold hold_state s))) (tet_py (fst (tet_hold hold_state s)))"
proof -
  have c: "tet_cells 1 0 = [(0, 1), (0, 2), (1, 1), (1, 2)]" "tet_cells 0 0 = [(1, 0), (1, 1), (1, 2), (1, 3)]" by code_simp+
  show f: "\<not> tet_col (tet_b hold_state) (tet_t hold_state) (tet_r hold_state) (tet_px hold_state) (tet_py hold_state)"
    by (simp add: tet_col_def hold_state_def c [simplified])
  show "tet_inv hold_state" using tet_col_inside [OF f] by (auto simp: tet_inv_def hold_state_def board_ok_def dest: set_update_subset_insert [THEN subsetD])
  show "tet_col (tet_b (fst (tet_hold hold_state s))) (tet_t (fst (tet_hold hold_state s))) (tet_r (fst (tet_hold hold_state s)))
    (tet_px (fst (tet_hold hold_state s))) (tet_py (fst (tet_hold hold_state s)))"
    by (simp add: tet_hold_def hold_state_def tet_col_def c)
qed

section \<open>Properties of tic-tac-toe and hangman\<close>

definition ttt_lines :: "nat list list" where
  "ttt_lines = [[0, 1, 2], [3, 4, 5], [6, 7, 8], [0, 3, 6], [1, 4, 7], [2, 5, 8], [0, 4, 8], [2, 4, 6]]"

definition has_line :: "u8 \<Rightarrow> bytes \<Rightarrow> bool" where
  "has_line m b \<longleftrightarrow> (\<exists>l \<in> set ttt_lines. \<forall>i \<in> set l. b ! i = m)"

text \<open>A cell has its digit or a mark.\<close>

definition ttt_cells :: "bytes \<Rightarrow> bool" where
  "ttt_cells b \<longleftrightarrow> length b = 9 \<and> (\<forall>i < 9. b ! i \<in> {of_nat (49 + i), 88, 79})"

lemma ttt_cells_same:
  assumes "ttt_cells b" and "i < 9" and "j < 9" and "i \<noteq> j"
  shows "b ! i = b ! j \<longleftrightarrow> b ! i = 88 \<and> b ! j = 88 \<or> b ! i = 79 \<and> b ! j = 79"
proof -
  have d: "list_all (\<lambda>i. list_all (\<lambda>j. (of_nat (49 + i) :: u8) = of_nat (49 + j) \<longrightarrow> i = j) [0..<9]) [0..<9]"
    "list_all (\<lambda>i. (of_nat (49 + i) :: u8) \<noteq> 88 \<and> (of_nat (49 + i) :: u8) \<noteq> 79) [0..<9]" by code_simp+
  have e: "(of_nat (49 + i) :: u8) \<noteq> of_nat (49 + j)"
    using d(1) [unfolded list_all_iff set_upt, THEN bspec, THEN bspec, of i j] assms(2-4) by fastforce
  have f: "(of_nat (49 + k) :: u8) \<noteq> 88" "(of_nat (49 + k) :: u8) \<noteq> 79" if "k < 9" for k
    using d(2) [unfolded list_all_iff set_upt, THEN bspec, of k] that by simp_all
  have v: "b ! i = of_nat (49 + i) \<or> b ! i = 88 \<or> b ! i = 79" "b ! j = of_nat (49 + j) \<or> b ! j = 88 \<or> b ! j = 79"
    using assms(1-3) by (auto simp only: ttt_cells_def)
  have g: "(88 :: u8) \<noteq> 79" by simp
  show ?thesis using v e f [OF assms(2)] f [OF assms(3)] g by metis
qed

lemma ttt_won_iff: "ttt_cells b \<Longrightarrow> ttt_won b \<longleftrightarrow> has_line 88 b \<or> has_line 79 b"
proof -
  assume c: "ttt_cells b"
  have u: "[0..<3] = [0, 1, 2 :: nat]" by (simp add: upt_rec)
  have t: "b ! i = b ! j \<and> b ! j = b ! k \<longleftrightarrow> b ! i = 88 \<and> b ! j = 88 \<and> b ! k = 88 \<or> b ! i = 79 \<and> b ! j = 79 \<and> b ! k = 79"
    if "i < 9" "j < 9" "k < 9" "i \<noteq> j" "j \<noteq> k" for i j k
    using ttt_cells_same [OF c, of i j] ttt_cells_same [OF c, of j k] that by auto
  show ?thesis unfolding ttt_won_def has_line_def ttt_lines_def u by (simp add: t disj_ac flip: numeral_2_eq_2)
qed

text \<open>A position: the marks, whose turn it is, and that only the last move can have completed a line.\<close>

definition ttt_ok :: "ttt \<Rightarrow> bool" where
  "ttt_ok g \<longleftrightarrow> ttt_cells (tt_board g) \<and> \<not> has_line (ttt_mark (\<not> tt_turn g)) (tt_board g) \<and>
     (tt_win g \<longleftrightarrow> has_line (ttt_mark (tt_turn g)) (tt_board g)) \<and>
     tt_moves g = card {i. i < 9 \<and> (tt_board g ! i = 88 \<or> tt_board g ! i = 79)}"

lemma ttt_start_ok: "ttt_ok ttt_start"
proof -
  have b: "tt_board ttt_start = [49, 50, 51, 52, 53, 54, 55, 56, 57]" by (simp add: ttt_start_def cs_def)
  have c: "list_all (\<lambda>i. tt_board ttt_start ! i = of_nat (49 + i) \<and> tt_board ttt_start ! i \<noteq> 88 \<and> tt_board ttt_start ! i \<noteq> 79) [0..<9]"
    by code_simp
  then have d: "tt_board ttt_start ! i = of_nat (49 + i)" "tt_board ttt_start ! i \<noteq> 88" "tt_board ttt_start ! i \<noteq> 79" if "i < 9" for i
    using c [unfolded list_all_iff set_upt, THEN bspec, of i] that unfolding atLeastLessThan_iff by blast+
  have "{i. i < 9 \<and> (tt_board ttt_start ! i = 88 \<or> tt_board ttt_start ! i = 79)} = {}" using d(2,3) by auto
  moreover have "ttt_cells (tt_board ttt_start)" using d(1) by (simp add: ttt_cells_def) (simp add: b)
  moreover have "\<not> has_line 88 (tt_board ttt_start)" "\<not> has_line 79 (tt_board ttt_start)" unfolding b by (simp_all add: has_line_def ttt_lines_def)
  ultimately show ?thesis by (simp add: ttt_ok_def ttt_mark_def ttt_start_def)
qed

lemma ttt_mark_eq: "ttt_mark t = 88 \<or> ttt_mark t = 79" "ttt_mark t = ttt_mark u \<longleftrightarrow> t = u"
  by (cases t; cases u; simp add: ttt_mark_def)+

lemma ttt_lines_range: "l \<in> set ttt_lines \<Longrightarrow> i \<in> set l \<Longrightarrow> i < 9"
  by (auto simp: ttt_lines_def)

lemma has_line_other:
  assumes "has_line n (b[i := m])" and "n \<noteq> m" and "length b = 9"
  shows "has_line n b"
proof -
  obtain l where l: "l \<in> set ttt_lines" "\<forall>k \<in> set l. b[i := m] ! k = n" using assms(1) unfolding has_line_def by blast
  have "b ! k = n" if "k \<in> set l" for k
    using l(2) that assms(2,3) ttt_lines_range [OF l(1) that] by (cases "k = i") (auto simp: nth_list_update)
  with l(1) show ?thesis unfolding has_line_def by blast
qed

lemma ttt_move_ok:
  assumes "ttt_ok g" and "\<not> tt_win g"
  shows "ttt_ok (ttt_move pos g)"
proof (cases "pos < 1 \<or> pos > 9 \<or> tt_board g ! nat (pos - 1) = 88 \<or> tt_board g ! nat (pos - 1) = 79")
  case True
  then show ?thesis using assms(1) by (simp add: ttt_move_def Let_def)
next
  case False
  let ?b = "tt_board g" let ?i = "nat (pos - 1)" let ?m = "ttt_mark (tt_turn g)" let ?n = "ttt_mark (\<not> tt_turn g)"
  let ?b' = "?b[?i := ?m]"
  have i: "?i < 9" "?b ! ?i \<noteq> 88" "?b ! ?i \<noteq> 79" using False by auto
  have c: "ttt_cells ?b" "length ?b = 9" "\<not> has_line ?n ?b" "\<not> has_line ?m ?b" using assms by (simp_all add: ttt_ok_def ttt_cells_def)
  have c': "ttt_cells ?b'" using c(1) i(1) ttt_mark_eq(1) [of "tt_turn g"] by (auto simp: ttt_cells_def nth_list_update)
  have nm: "?n \<noteq> ?m" by (simp add: ttt_mark_eq(2))
  then have n: "\<not> has_line ?n ?b'" using has_line_other [OF _ _ c(2)] c(3) by blast
  have w: "ttt_won ?b' \<longleftrightarrow> has_line ?m ?b'" using ttt_won_iff [OF c'] n by (cases "tt_turn g") (auto simp: ttt_mark_def)
  have "{k. k < 9 \<and> (?b' ! k = 88 \<or> ?b' ! k = 79)} = insert ?i {k. k < 9 \<and> (?b ! k = 88 \<or> ?b ! k = 79)}"
    using i ttt_mark_eq(1) [of "tt_turn g"] c(2) by (auto simp: nth_list_update)
  then have k: "card {k. k < 9 \<and> (?b' ! k = 88 \<or> ?b' ! k = 79)} = Suc (tt_moves g)" using assms(1) i by (simp add: ttt_ok_def)
  show ?thesis using False c' n w k by (simp add: ttt_move_def Let_def ttt_ok_def)
qed

text \<open>
  Tic-tac-toe names the right winner.  However the players choose, invalid and taken fields included, when the
  game ends with a winner the named player has three in a line and the other has not, and when it ends with a
  draw all fields are taken and nobody has three in a line.
\<close>

theorem ttt_fair:
  assumes "ttt_loop ttt_start rs s = Some (g, rs', s')"
  shows "(tt_win g \<and> has_line (ttt_mark (tt_turn g)) (tt_board g) \<or>
      \<not> tt_win g \<and> \<not> has_line (ttt_mark (tt_turn g)) (tt_board g) \<and> (\<forall>i < 9. tt_board g ! i = 88 \<or> tt_board g ! i = 79)) \<and>
    \<not> has_line (ttt_mark (\<not> tt_turn g)) (tt_board g)"
proof -
  have "ttt_loop g0 rs s = Some (g, rs', s') \<Longrightarrow> ttt_ok g0 \<Longrightarrow> ttt_ok g \<and> (tt_win g \<or> 9 \<le> tt_moves g)" for g0
  proof (induction g0 rs s rule: ttt_loop.induct)
    case (1 g0 rs s)
    show ?case
    proof (cases "tt_win g0 \<or> 9 \<le> tt_moves g0")
      case True
      then show ?thesis using "1.prems" by (subst (asm) ttt_loop.simps) auto
    next
      case False
      then obtain line rs1 s1 where l: "get_line (zeros 16) rs (ttt_show g0 s) = Some (Some line, rs1, s1)"
        "ttt_loop (ttt_move (atoi line) g0) rs1 s1 = Some (g, rs', s')"
        using "1.prems"(1) by (subst (asm) ttt_loop.simps) (auto split: option.splits)
      from "1.IH" [OF False l(1) refl refl refl l(2)] show ?thesis using ttt_move_ok "1.prems"(2) False by simp
    qed
  qed
  then have o: "ttt_ok g" "tt_win g \<or> 9 \<le> tt_moves g" using assms ttt_start_ok by blast+
  let ?T = "{i. i < 9 \<and> (tt_board g ! i = 88 \<or> tt_board g ! i = 79)}"
  have "tt_board g ! i = 88 \<or> tt_board g ! i = 79" if "\<not> tt_win g" "i < 9" for i
  proof -
    have "?T = {..<9}" by (rule card_seteq) (use o that(1) in \<open>auto simp: ttt_ok_def\<close>)
    then show ?thesis using that(2) by blast
  qed
  then show ?thesis using o(1) by (auto simp: ttt_ok_def)
qed

text \<open>What hangman knows: the letters guessed, how many of them are wrong, and whether the word is complete.\<close>

definition hang_ok :: "bytes \<Rightarrow> hang \<Rightarrow> bool" where
  "hang_ok word h \<longleftrightarrow> distinct (hg_guessed h) \<and> hg_wrong h = length (filter (\<lambda>c. c \<notin> set word) (hg_guessed h)) \<and> hg_wrong h \<le> 6 \<and>
     (hg_win h \<longleftrightarrow> set word \<subseteq> set (hg_guessed h))"

lemma hang_ok_length:
  assumes "hang_ok word h"
  shows "length (hg_guessed h) \<le> hg_wrong h + card (set word)"
proof -
  have "length (filter (\<lambda>c. c \<in> set word) (hg_guessed h)) = card (set (filter (\<lambda>c. c \<in> set word) (hg_guessed h)))"
    by (subst distinct_card) (use assms in \<open>simp_all add: hang_ok_def\<close>)
  also have "\<dots> \<le> card (set word)" by (rule card_mono) auto
  finally show ?thesis using sum_length_filter_compl [of "\<lambda>c. c \<in> set word" "hg_guessed h"] assms by (simp add: hang_ok_def)
qed

lemma hang_guess_ok:
  assumes "hang_ok word h" and "hg_wrong h < 6" and "\<not> hg_win h" and "card (set word) \<le> 6"
  shows "\<exists>h'. hang_guess word c h = Some h' \<and> hang_ok word h'"
  using hang_ok_length [OF assms(1)] assms by (auto simp: hang_guess_def Let_def hang_ok_def)

lemma hang_words_letters: "word \<in> set hang_words \<Longrightarrow> card (set word) \<le> 6 \<and> word \<noteq> []"
proof -
  assume w: "word \<in> set hang_words"
  have "\<forall>w \<in> set hang_words. length w \<le> 6 \<and> w \<noteq> []" by (simp add: hang_words_def cs_def)
  then show ?thesis using w card_length [of word] by (metis order_trans)
qed

lemma hang_start_ok: "word \<noteq> [] \<Longrightarrow> hang_ok word \<lparr>hg_guessed = [], hg_wrong = 0, hg_win = False\<rparr>"
  by (cases word) (simp_all add: hang_ok_def)

text \<open>
  C40: the letters guessed in hangman fit their 16 bytes.  For every word of the list, as long as the game goes on, every
  key is handled without leaving the array, and afterwards the guessed letters are at most 12, all different, the
  wrong ones among them are counted, at most 6, and the game is won exactly if the word's letters are among them.
\<close>

theorem hangman_fits:
  assumes "word \<in> set hang_words" and "hang_ok word h" and "hg_wrong h < 6" and "\<not> hg_win h"
  shows "\<exists>h'. hang_guess word c h = Some h' \<and> hang_ok word h' \<and> length (hg_guessed h') \<le> 12"
proof -
  note w = hang_words_letters [OF assms(1), THEN conjunct1]
  obtain h' where h: "hang_guess word c h = Some h'" "hang_ok word h'" using hang_guess_ok [OF assms(2-4) w] by blast
  have "length (hg_guessed h') \<le> 12" using hang_ok_length [OF h(2)] h(2) w by (simp add: hang_ok_def)
  then show ?thesis using h by blast
qed

text \<open>X takes the first row.\<close>

lemma ttt_digit:
  assumes "c \<in> {49, 50, 51, 52, 53}"
  shows "\<exists>line s'. get_line (zeros 16) (serial_round c # serial_round 13 # rs) s = Some (Some line, rs, s') \<and> atoi line = int (unat c) - 48"
proof -
  have k: "0 < length (zeros 16)" "\<forall>k \<in> set [c]. k \<noteq> 10 \<and> k \<noteq> 13" using assms by auto
  have f: "fold (type_key 16) (map serial_key [c]) [] = [c]" using assms by (auto simp: type_key_def serial_key_def)
  obtain line s' where r: "get_line (zeros 16) (map serial_round ([c] @ [13]) @ rs) s = Some (Some line, rs, s')" "take 2 line = [c, 0]"
    using get_line_edits [OF k, of rs s, unfolded Let_def length_zeros f] by (auto simp: eval_nat_numeral)
  then obtain rest where l: "line = c # 0 # rest" using append_take_drop_id [of 2 line] by (metis append_Cons append_Nil)
  have "atoi line = int (unat c) - 48" using assms unfolding l by (auto simp: atoi_def c_at_def atoi_loop.simps [of _ "_ # _"] to_int_def)
  then show ?thesis using r(1) by auto
qed

lemma ttt_step:
  assumes "\<not> tt_win g" and "tt_moves g < 9" and "c \<in> {49, 50, 51, 52, 53}"
  shows "\<exists>s'. ttt_loop g (serial_round c # serial_round 13 # rs) s = ttt_loop (ttt_move (int (unat c) - 48) g) rs s'"
proof -
  obtain line s' where "get_line (zeros 16) (serial_round c # serial_round 13 # rs) (ttt_show g s) = Some (Some line, rs, s')"
    "atoi line = int (unat c) - 48" using ttt_digit [OF assms(3)] by blast
  then show ?thesis using assms(1,2) by (subst ttt_loop.simps) auto
qed

lemma ttt_steps:
  assumes "\<forall>n < length ds. \<not> tt_win (fold (\<lambda>c. ttt_move (int (unat c) - 48)) (take n ds) g) \<and> tt_moves (fold (\<lambda>c. ttt_move (int (unat c) - 48)) (take n ds) g) < 9"
    and "set ds \<subseteq> {49, 50, 51, 52, 53}"
  shows "\<exists>s'. ttt_loop g (concat (map (\<lambda>c. [serial_round c, serial_round 13]) ds)) s = ttt_loop (fold (\<lambda>c. ttt_move (int (unat c) - 48)) ds g) [] s'"
  using assms
proof (induction ds arbitrary: g s)
  case (Cons d ds)
  have "\<not> tt_win g" "tt_moves g < 9" using Cons.prems(1) [rule_format, of 0] by simp_all
  moreover have "d \<in> {49, 50, 51, 52, 53}" using Cons.prems(2) by simp
  ultimately obtain s1 where s1: "ttt_loop g (serial_round d # serial_round 13 # concat (map (\<lambda>c. [serial_round c, serial_round 13]) ds)) s =
    ttt_loop (ttt_move (int (unat d) - 48) g) (concat (map (\<lambda>c. [serial_round c, serial_round 13]) ds)) s1" using ttt_step by blast
  have "\<forall>n < length ds. \<not> tt_win (fold (\<lambda>c. ttt_move (int (unat c) - 48)) (take n ds) (ttt_move (int (unat d) - 48) g)) \<and>
    tt_moves (fold (\<lambda>c. ttt_move (int (unat c) - 48)) (take n ds) (ttt_move (int (unat d) - 48) g)) < 9"
    using Cons.prems(1) by force
  from Cons.IH [OF this] Cons.prems(2) s1 show ?case by simp
qed auto

definition ttt_typed :: bytes where
  "ttt_typed = [49, 52, 50, 53, 51]"

theorem ttt_fair_witness:
  "\<exists>g rs' s'. ttt_loop ttt_start (concat (map (\<lambda>c. [serial_round c, serial_round 13]) ttt_typed)) bss_kshell = Some (g, rs', s') \<and>
     \<not> has_line (ttt_mark (\<not> tt_turn g)) (tt_board g)"
proof -
  let ?g = "\<lambda>n. fold (\<lambda>c. ttt_move (int (unat c) - 48)) (take n ttt_typed) ttt_start"
  have "list_all (\<lambda>n. \<not> tt_win (?g n) \<and> tt_moves (?g n) < 9) [0..<5] \<and> tt_win (?g 5)" by code_simp
  then have g: "\<forall>n < length ttt_typed. \<not> tt_win (?g n) \<and> tt_moves (?g n) < 9" "tt_win (?g 5)" by (auto simp: list_all_iff ttt_typed_def)
  obtain s' where "ttt_loop ttt_start (concat (map (\<lambda>c. [serial_round c, serial_round 13]) ttt_typed)) bss_kshell =
    ttt_loop (fold (\<lambda>c. ttt_move (int (unat c) - 48)) ttt_typed ttt_start) [] s'"
    using ttt_steps [OF g(1), of bss_kshell] by (auto simp: ttt_typed_def)
  moreover have "ttt_loop (?g 5) [] s' = Some (?g 5, [], s')" using g(2) by (subst ttt_loop.simps) simp
  ultimately have "ttt_loop ttt_start (concat (map (\<lambda>c. [serial_round c, serial_round 13]) ttt_typed)) bss_kshell = Some (?g 5, [], s')"
    by (simp add: ttt_typed_def)
  from ttt_fair [OF this] this show ?thesis by blast
qed

theorem hangman_fits_witness:
  "\<exists>h'. hang_guess (cs ''apple'') 65 \<lparr>hg_guessed = [], hg_wrong = 0, hg_win = False\<rparr> = Some h' \<and> length (hg_guessed h') \<le> 12"
proof -
  have w: "cs ''apple'' \<in> set hang_words" by (simp add: hang_words_def)
  have n: "cs ''apple'' \<noteq> []" by (simp add: cs_def)
  show ?thesis using hangman_fits [OF w hang_start_ok [OF n], of 65] by auto
qed


end
